(* ===== verification/Prelude.thy ===== *)
theory Prelude
  imports Complex_Main "HOL-Library.AList" "HOL-Library.Multiset" "HOL-Library.Signed_Division"
begin

text \<open>
  What every component of the development shares: the result type of a function that may
  throw and the two loops over it, JavaScript maps as association lists in insertion order,
  \<open>Array.prototype.sort\<close> as a stable insertion sort over a comparator (with the contract a
  comparator owes it as a locale), big integers with the run-time's truncating division, and
  numbers that may fail \<open>Number.isFinite\<close>.

  A JavaScript \<open>number\<close> that only ever holds an integer below \<open>2^53\<close> is an \<open>int\<close> (or \<open>nat\<close>);
  any other finite number is a \<open>real\<close>, so rounding of IEEE doubles is not modelled.
\<close>

named_theorems result_simps \<open>rewriting results of code that may throw\<close>
named_theorems assoc_simps \<open>rewriting lookups and keys of insertion-ordered maps\<close>

section \<open>Code that may throw\<close>

text \<open>A call that throws the error \<open>e\<close> is \<open>Inl e\<close>; one that returns \<open>x\<close> is \<open>Inr x\<close>.\<close>

definition bindR :: "'e + 'a \<Rightarrow> ('a \<Rightarrow> 'e + 'b) \<Rightarrow> 'e + 'b" where
  "bindR m f = (case m of Inl e \<Rightarrow> Inl e | Inr x \<Rightarrow> f x)"

text \<open>\<open>if (c) throw e; rest\<close>\<close>

definition throwIf :: "bool \<Rightarrow> 'e \<Rightarrow> 'e + 'b \<Rightarrow> 'e + 'b" where
  "throwIf c e rest = (if c then Inl e else rest)"

text \<open>A \<open>map\<close> and a \<open>for\<close> loop whose body may throw: the first error ends them.\<close>

fun mapR :: "('a \<Rightarrow> 'e + 'b) \<Rightarrow> 'a list \<Rightarrow> 'e + 'b list" where
  "mapR f [] = Inr []"
| "mapR f (x # xs) = bindR (f x) (\<lambda>y. bindR (mapR f xs) (\<lambda>ys. Inr (y # ys)))"

fun foldR :: "('s \<Rightarrow> 'a \<Rightarrow> 'e + 's) \<Rightarrow> 's \<Rightarrow> 'a list \<Rightarrow> 'e + 's" where
  "foldR f s [] = Inr s"
| "foldR f s (x # xs) = bindR (f s x) (\<lambda>s'. foldR f s' xs)"

definition isOk :: "'e + 'a \<Rightarrow> bool" where
  "isOk r = (case r of Inl _ \<Rightarrow> False | Inr _ \<Rightarrow> True)"

lemma bindR_simps [simp, result_simps]:
  "bindR (Inl e) f = Inl e"
  "bindR (Inr x) f = f x"
  by (simp_all add: bindR_def)

lemma bindR_eq_Inr [result_simps]:
  "bindR m f = Inr y \<longleftrightarrow> (\<exists>x. m = Inr x \<and> f x = Inr y)"
  by (cases m) auto

lemma bindR_eq_Inl [result_simps]:
  "bindR m f = Inl e \<longleftrightarrow> m = Inl e \<or> (\<exists>x. m = Inr x \<and> f x = Inl e)"
  by (cases m) auto

lemma throwIf_eq_Inr [simp, result_simps]:
  "throwIf c e r = Inr y \<longleftrightarrow> \<not> c \<and> r = Inr y"
  by (simp add: throwIf_def)

lemma throwIf_eq_Inl [result_simps]:
  "throwIf c e r = Inl e' \<longleftrightarrow> c \<and> e = e' \<or> \<not> c \<and> r = Inl e'"
  by (auto simp: throwIf_def)

lemma throwIf_True_False [simp]:
  "throwIf True e r = Inl e" "throwIf False e r = r"
  by (simp_all add: throwIf_def)

lemma isOk_simps [simp]: "\<not> isOk (Inl e)" "isOk (Inr x)"
  by (simp_all add: isOk_def)

lemma isOk_iff: "isOk r \<longleftrightarrow> (\<exists>x. r = Inr x)"
  by (cases r) auto

lemma isOk_bindR [result_simps]: "isOk (bindR m f) \<longleftrightarrow> (\<exists>x. m = Inr x \<and> isOk (f x))"
  by (cases m) auto

lemma not_isOk_iff: "\<not> isOk r \<longleftrightarrow> (\<exists>e. r = Inl e)"
  by (cases r) auto

lemma mapR_Inr_iff: "mapR f xs = Inr ys \<longleftrightarrow> list_all2 (\<lambda>x y. f x = Inr y) xs ys"
  by (induction xs arbitrary: ys) (auto simp: result_simps list_all2_Cons1)

lemma isOk_mapR: "isOk (mapR f xs) \<longleftrightarrow> (\<forall>x \<in> set xs. isOk (f x))"
  by (induction xs) (auto simp: isOk_iff result_simps)

lemma mapR_length: "mapR f xs = Inr ys \<Longrightarrow> length ys = length xs"
  by (simp add: mapR_Inr_iff list_all2_lengthD)

lemma mapR_Inr_map: "(\<And>x. x \<in> set xs \<Longrightarrow> f x = Inr (g x)) \<Longrightarrow> mapR f xs = Inr (map g xs)"
  by (induction xs) auto

lemma foldR_invariant:
  assumes "foldR f s xs = Inr s'" "I s"
    and "\<And>s x s'. I s \<Longrightarrow> x \<in> set xs \<Longrightarrow> f s x = Inr s' \<Longrightarrow> I s'"
  shows "I s'"
  using assms
proof (induction xs arbitrary: s)
  case Nil
  then show ?case by simp
next
  case (Cons x xs)
  from Cons.prems(1) obtain t where t: "f s x = Inr t" "foldR f t xs = Inr s'"
    by (auto simp: result_simps)
  show ?case
    by (rule Cons.IH [OF t(2)]) (use Cons.prems t in auto)
qed

lemma foldR_append: "foldR f s (xs @ ys) = bindR (foldR f s xs) (\<lambda>t. foldR f t ys)"
  by (induction xs arbitrary: s) (auto simp: bindR_def split: sum.splits)

section \<open>Maps in insertion order\<close>

text \<open>
  A \<open>Map\<close> (or a plain object with string keys that are not array indices) iterates in the
  order its keys were first set; setting a key that is there keeps its place. That is
  \<open>AList.update\<close> on an association list with distinct keys; \<open>map_of\<close> is \<open>get\<close>.
\<close>

definition getOr :: "'v \<Rightarrow> ('k \<times> 'v) list \<Rightarrow> 'k \<Rightarrow> 'v" where
  "getOr d m k = (case map_of m k of None \<Rightarrow> d | Some v \<Rightarrow> v)"

abbreviation keys :: "('k \<times> 'v) list \<Rightarrow> 'k list" where
  "keys m \<equiv> map fst m"

lemma map_of_upd [simp, assoc_simps]:
  "map_of (AList.update k v m) k' = (if k' = k then Some v else map_of m k')"
  by (simp add: update_conv')

lemma keys_upd [assoc_simps]:
  "keys (AList.update k v m) = (if k \<in> set (keys m) then keys m else keys m @ [k])"
  by (simp add: update_keys)

lemma set_keys_upd [simp, assoc_simps]:
  "set (keys (AList.update k v m)) = insert k (set (keys m))"
  by (auto simp: keys_upd)

lemma image_fst_upd [simp, assoc_simps]:
  "fst ` set (AList.update k v m) = insert k (fst ` set m)"
  using set_keys_upd [of k v m] by simp

lemma distinct_keys_upd [simp, intro]:
  "distinct (keys m) \<Longrightarrow> distinct (keys (AList.update k v m))"
  by (auto simp: keys_upd)

lemma in_keys_iff: "k \<in> set (keys m) \<longleftrightarrow> (\<exists>v. map_of m k = Some v)"
  by (metis domIff dom_map_of_conv_image_fst list.set_map not_None_eq)

lemma map_of_eq_Some_iff_mem:
  "distinct (keys m) \<Longrightarrow> map_of m k = Some v \<longleftrightarrow> (k, v) \<in> set m"
  by (simp add: map_of_eq_Some_iff)

lemma getOr_upd [simp, assoc_simps]:
  "getOr d (AList.update k v m) k' = (if k' = k then v else getOr d m k')"
  by (simp add: getOr_def)

lemma getOr_Nil [simp]: "getOr d [] k = d"
  by (simp add: getOr_def)

lemma upd_fresh: "k \<notin> set (keys m) \<Longrightarrow> AList.update k v m = m @ [(k, v)]"
  by (induction m) auto

lemma sum_list_values_upd:
  fixes m :: "('k \<times> int) list"
  assumes "distinct (keys m)"
  shows "sum_list (map snd (AList.update k (getOr 0 m k + d) m)) = sum_list (map snd m) + d"
  using assms by (induction m) (auto simp: getOr_def image_iff)

section \<open>Sorting by a comparator\<close>

text \<open>
  \<open>xs.sort(cmp)\<close> is a stable sort; \<open>le a b\<close> stands for \<open>cmp(a, b) <= 0\<close>. With a comparator
  that is a total preorder on the elements any stable sort gives the same list, so insertion
  sort is it; with one that is not, the engine's result is unspecified and nothing below says
  more than that a permutation comes out.
\<close>

fun insBy :: "('a \<Rightarrow> 'a \<Rightarrow> bool) \<Rightarrow> 'a \<Rightarrow> 'a list \<Rightarrow> 'a list" where
  "insBy le x [] = [x]"
| "insBy le x (y # ys) = (if le x y then x # y # ys else y # insBy le x ys)"

definition sortBy :: "('a \<Rightarrow> 'a \<Rightarrow> bool) \<Rightarrow> 'a list \<Rightarrow> 'a list" where
  "sortBy le xs = foldr (insBy le) xs []"

lemma sortBy_simps [simp]:
  "sortBy le [] = []"
  "sortBy le (x # xs) = insBy le x (sortBy le xs)"
  by (simp_all add: sortBy_def)

lemma mset_insBy [simp]: "mset (insBy le x ys) = add_mset x (mset ys)"
  by (induction ys) auto

lemma mset_sortBy [simp]: "mset (sortBy le xs) = mset xs"
  by (induction xs) auto

lemma set_insBy [simp]: "set (insBy le x ys) = insert x (set ys)"
  by (metis mset_insBy set_mset_add_mset_insert set_mset_mset)

lemma set_sortBy [simp]: "set (sortBy le xs) = set xs"
  by (metis mset_sortBy set_mset_mset)

lemma length_sortBy [simp]: "length (sortBy le xs) = length xs"
  by (metis mset_sortBy size_mset)

lemma distinct_sortBy [simp]: "distinct (sortBy le xs) = distinct xs"
  by (metis mset_eq_imp_distinct_iff mset_sortBy)

lemma sortBy_nonempty [simp]: "sortBy le xs = [] \<longleftrightarrow> xs = []"
  by (metis length_0_conv length_sortBy)

lemma distinct_map_sortBy: "distinct (map f (sortBy le xs)) = distinct (map f xs)"
  by (metis mset_eq_imp_distinct_iff mset_map mset_sortBy)

lemma sum_list_sortBy:
  fixes f :: "'a \<Rightarrow> 'b::comm_monoid_add"
  shows "sum_list (map f (sortBy le xs)) = sum_list (map f xs)"
  by (metis mset_map mset_sortBy sum_mset_sum_list)

text \<open>What a comparator owes the sort, on the elements \<open>ok\<close> describes.\<close>

locale comparator =
  fixes le :: "'a \<Rightarrow> 'a \<Rightarrow> bool" and ok :: "'a \<Rightarrow> bool"
  assumes le_total: "ok a \<Longrightarrow> ok b \<Longrightarrow> le a b \<or> le b a"
    and le_trans: "ok a \<Longrightarrow> ok b \<Longrightarrow> ok c \<Longrightarrow> le a b \<Longrightarrow> le b c \<Longrightarrow> le a c"
begin

lemma le_refl: "ok a \<Longrightarrow> le a a"
  using le_total by blast

lemma sorted_insBy:
  assumes "ok x" "\<forall>y \<in> set ys. ok y" "sorted_wrt le ys"
  shows "sorted_wrt le (insBy le x ys)"
  using assms
proof (induction ys)
  case Nil
  then show ?case by simp
next
  case (Cons y ys)
  show ?case
  proof (cases "le x y")
    case True
    with Cons.prems show ?thesis by (auto intro: le_trans)
  next
    case False
    with Cons.prems have "le y x" using le_total by auto
    with False Cons show ?thesis by auto
  qed
qed

lemma sorted_sortBy: "\<forall>x \<in> set xs. ok x \<Longrightarrow> sorted_wrt le (sortBy le xs)"
  by (induction xs) (auto intro: sorted_insBy)

lemma sortBy_sorted: "\<forall>x \<in> set xs. ok x \<Longrightarrow> sorted_wrt le xs \<Longrightarrow> sortBy le xs = xs"
proof (induction xs)
  case (Cons x xs)
  then show ?case by (cases xs) auto
qed simp

lemma filter_insBy_other: "\<not> P x \<Longrightarrow> filter P (insBy le x ys) = filter P ys"
  by (induction ys) auto

lemma filter_insBy_class:
  assumes "ok x" "\<forall>y \<in> set ys. ok y" "ok a" "le x a" "le a x"
  shows "filter (\<lambda>y. le y a \<and> le a y) (insBy le x ys) = x # filter (\<lambda>y. le y a \<and> le a y) ys"
  using assms
proof (induction ys)
  case (Cons y ys)
  show ?case
  proof (cases "le x y")
    case True
    with Cons.prems show ?thesis by simp
  next
    case False
    then have "\<not> (le y a \<and> le a y)"
      using Cons.prems le_trans [of x a y] by auto
    with False Cons show ?thesis by auto
  qed
qed simp

text \<open>Stability: elements the comparator does not tell apart keep their order.\<close>

lemma sortBy_stable:
  assumes "\<forall>x \<in> set xs. ok x" "ok a"
  shows "filter (\<lambda>y. le y a \<and> le a y) (sortBy le xs) = filter (\<lambda>y. le y a \<and> le a y) xs"
  using assms
  by (induction xs) (auto simp: filter_insBy_class filter_insBy_other)

text \<open>Where only equal elements compare equal, the order the list came in does not matter.\<close>

lemma sortBy_cong_mset:
  assumes "\<forall>x \<in> set xs. ok x" and anti: "\<And>a b. ok a \<Longrightarrow> ok b \<Longrightarrow> le a b \<Longrightarrow> le b a \<Longrightarrow> a = b"
    and "mset xs = mset ys"
  shows "sortBy le xs = sortBy le ys"
proof -
  have uniq: "us = vs" if "sorted_wrt le us" "sorted_wrt le vs" "mset us = mset vs"
    "\<forall>x \<in> set us. ok x" for us vs
    using that
  proof (induction us arbitrary: vs)
    case Nil
    then show ?case by simp
  next
    case (Cons u us)
    then obtain v vs' where vs: "vs = v # vs'" by (cases vs) auto
    have sets: "set (u # us) = set (v # vs')"
      using Cons.prems(3) vs by (metis set_mset_mset)
    have okv: "ok v" using Cons.prems(4) sets by (metis list.set_intros(1))
    have "u = v"
    proof (rule ccontr)
      assume neq: "u \<noteq> v"
      then have "v \<in> set us" "u \<in> set vs'" using sets by (auto simp: set_eq_iff)
      then have "le u v" "le v u" using Cons.prems(1,2) vs by auto
      then show False using anti neq okv Cons.prems(4) by auto
    qed
    moreover have "us = vs'"
      by (rule Cons.IH) (use Cons.prems vs \<open>u = v\<close> in auto)
    ultimately show ?case using vs by simp
  qed
  have oky: "\<forall>x \<in> set ys. ok x" using assms by (metis set_mset_mset)
  show ?thesis
    by (rule uniq) (use assms oky sorted_sortBy in auto)
qed

end

text \<open>
  \<open>a || b\<close> of two comparators: the second decides where the first says 0.
\<close>

lemma comparator_lex:
  assumes "comparator le1 ok" "comparator le2 ok"
  shows "comparator (\<lambda>a b. le1 a b \<and> (le1 b a \<longrightarrow> le2 a b)) ok"
proof -
  note c1 = comparator.le_total [OF assms(1)] comparator.le_trans [OF assms(1)]
  note c2 = comparator.le_total [OF assms(2)] comparator.le_trans [OF assms(2)]
  show ?thesis
    by (unfold_locales) (blast dest: c1 c2)+
qed

section \<open>Numbers\<close>

text \<open>
  A \<open>bigint\<close> is an \<open>int\<close>. Its \<open>/\<close> and \<open>%\<close> truncate towards zero and throw on a zero divisor.
\<close>

datatype js_error = RangeError | TypeErr | SyntaxErr

definition bigDiv :: "int \<Rightarrow> int \<Rightarrow> js_error + int" where
  "bigDiv a b = (if b = 0 then Inl RangeError else Inr (a sdiv b))"

definition bigMod :: "int \<Rightarrow> int \<Rightarrow> js_error + int" where
  "bigMod a b = (if b = 0 then Inl RangeError else Inr (a smod b))"

lemma sdiv_nonneg: "0 \<le> a \<Longrightarrow> 0 < b \<Longrightarrow> (a::int) sdiv b = a div b"
  by (simp add: signed_divide_int_def sgn_if)

lemma smod_nonneg: "0 \<le> a \<Longrightarrow> 0 < b \<Longrightarrow> (a::int) smod b = a mod b"
  by (cases "a = 0") (simp_all add: signed_modulo_int_def sgn_if)

lemma bigDiv_nonneg [simp]: "0 \<le> a \<Longrightarrow> 0 < b \<Longrightarrow> bigDiv a b = Inr (a div b)"
  by (simp add: bigDiv_def sdiv_nonneg)

lemma bigMod_nonneg [simp]: "0 \<le> a \<Longrightarrow> 0 < b \<Longrightarrow> bigMod a b = Inr (a mod b)"
  by (simp add: bigMod_def smod_nonneg)

text \<open>A \<open>number\<close> the code tests with \<open>Number.isFinite\<close>: a finite one, or \<open>NaN\<close> and the infinities.\<close>

datatype jsnum = Fin real | NonFin

primrec isFin :: "jsnum \<Rightarrow> bool" where
  "isFin (Fin _) = True"
| "isFin NonFin = False"

primrec finVal :: "jsnum \<Rightarrow> real option" where
  "finVal (Fin x) = Some x"
| "finVal NonFin = None"

lemma isFin_iff: "isFin v \<longleftrightarrow> (\<exists>x. v = Fin x)"
  by (cases v) auto

text \<open>\<open>Number.isInteger\<close>, \<open>Math.round\<close> (halves go up) and the sign of a comparator's result.\<close>

definition isInteger :: "real \<Rightarrow> bool" where
  "isInteger x \<longleftrightarrow> of_int \<lfloor>x\<rfloor> = x"

definition mathRound :: "real \<Rightarrow> real" where
  "mathRound x = of_int \<lfloor>x + 1 / 2\<rfloor>"

definition cmpSign :: "real \<Rightarrow> int" where
  "cmpSign x = (if x < 0 then - 1 else if x = 0 then 0 else 1)"

lemma isInteger_of_nat [simp]: "isInteger (of_nat n)"
  by (simp add: isInteger_def)

lemma isInteger_of_int [simp]: "isInteger (of_int n)"
  by (simp add: isInteger_def)

lemma isInteger_numeral [simp]: "isInteger (numeral n)" "isInteger 0" "isInteger 1"
  using isInteger_of_nat [of "numeral n"] by (simp_all add: isInteger_def)

lemma cmpSign_simps [simp]:
  "cmpSign x \<le> 0 \<longleftrightarrow> x \<le> 0" "cmpSign x = 0 \<longleftrightarrow> x = 0" "cmpSign x < 0 \<longleftrightarrow> x < 0"
  by (auto simp: cmpSign_def)

section \<open>Strings and lists\<close>

lemma list_all2_right: "list_all2 P xs ys \<Longrightarrow> y \<in> set ys \<Longrightarrow> \<exists>x \<in> set xs. P x y"
  by (induction rule: list_all2_induct) auto

lemma list_all2_left: "list_all2 P xs ys \<Longrightarrow> x \<in> set xs \<Longrightarrow> \<exists>y \<in> set ys. P x y"
  by (induction rule: list_all2_induct) auto

lemma find_by_key:
  "distinct (map f xs) \<Longrightarrow> x \<in> set xs \<Longrightarrow> find (\<lambda>y. f y = f x) xs = Some x"
  by (induction xs) auto

text \<open>\<open>toLowerCase\<close> on ASCII, which is what addresses and market ids are.\<close>

definition lowerChar :: "char \<Rightarrow> char" where
  "lowerChar c = (let n = (of_char c :: nat) in if 65 \<le> n \<and> n \<le> 90 then char_of (n + 32) else c)"

definition toLower :: "string \<Rightarrow> string" where
  "toLower s = map lowerChar s"

lemma toLower_idem [simp]: "toLower (toLower s) = toLower s"
proof -
  have "lowerChar (lowerChar c) = lowerChar c" for c
    by (auto simp: lowerChar_def Let_def)
  then show ?thesis by (simp add: toLower_def)
qed

text \<open>
  The default order of \<open>Array.prototype.sort\<close> on strings: by code units, a prefix first.
\<close>

fun strLe :: "string \<Rightarrow> string \<Rightarrow> bool" where
  "strLe [] _ = True"
| "strLe (_ # _) [] = False"
| "strLe (a # as) (b # bs) =
     ((of_char a :: nat) < of_char b \<or> (a = b \<and> strLe as bs))"

lemma strLe_refl [simp]: "strLe s s"
  by (induction s) auto

lemma strLe_total: "strLe a b \<or> strLe b a"
proof (induction a b rule: strLe.induct)
  case (3 a as b bs)
  then show ?case
    by (cases "(of_char a :: nat)" "of_char b :: nat" rule: linorder_cases) auto
qed auto

lemma strLe_trans: "strLe a b \<Longrightarrow> strLe b c \<Longrightarrow> strLe a c"
proof (induction a b arbitrary: c rule: strLe.induct)
  case (3 a as b bs)
  then show ?case by (cases c) auto
qed auto

lemma strLe_antisym: "strLe a b \<Longrightarrow> strLe b a \<Longrightarrow> a = b"
proof (induction a b rule: strLe.induct)
  case (1 b)
  then show ?case by (cases b) auto
qed auto

interpretation str_order: comparator strLe "\<lambda>_. True"
  by unfold_locales (auto intro: strLe_trans simp: strLe_total)

lemma sortBy_strLe_cong: "mset xs = mset ys \<Longrightarrow> sortBy strLe xs = sortBy strLe ys"
  by (rule str_order.sortBy_cong_mset) (auto intro: strLe_antisym)

text \<open>The least and the greatest of a non-empty list, as \<open>Math.min(...xs)\<close> folds it.\<close>

lemma Min_set_le_sum:
  fixes f :: "'a \<Rightarrow> real"
  assumes "\<And>x. x \<in> set xs \<Longrightarrow> lo \<le> f x" "\<And>x. x \<in> set xs \<Longrightarrow> 0 \<le> w x"
  shows "lo * (\<Sum>x\<leftarrow>xs. w x) \<le> (\<Sum>x\<leftarrow>xs. w x * f x)"
  using assms
proof (induction xs)
  case (Cons x xs)
  have "lo * w x \<le> w x * f x"
    using Cons.prems by (metis list.set_intros(1) mult.commute mult_left_mono)
  with Cons show ?case by (simp add: distrib_left)
qed simp

lemma sum_le_Max_set:
  fixes f :: "'a \<Rightarrow> real"
  assumes "\<And>x. x \<in> set xs \<Longrightarrow> f x \<le> hi" "\<And>x. x \<in> set xs \<Longrightarrow> 0 \<le> w x"
  shows "(\<Sum>x\<leftarrow>xs. w x * f x) \<le> hi * (\<Sum>x\<leftarrow>xs. w x)"
  using assms
proof (induction xs)
  case (Cons x xs)
  have "w x * f x \<le> hi * w x"
    using Cons.prems by (metis list.set_intros(1) mult.commute mult_left_mono)
  with Cons show ?case by (simp add: distrib_left)
qed simp

end
