(* ===== verification/Deviation_Score.thy ===== *)
theory Deviation_Score
  imports Prelude
begin

text \<open>
  The competition score, \<open>core/src/scoring/deviationScore.ts\<close>: the weight of an epoch, the
  deviation scores inside one epoch (mean, population standard deviation, the exclusions), the
  weighted score of an agent over the epochs that count, and the ranking with its tie-breaks.

  \<open>Record<string, number>\<close> is an association list in insertion order. \<open>Infinity\<close> and \<open>NaN\<close>
  reach the code only as a value of P, which it tests: that is \<open>jsnum\<close>. The order
  \<open>localeCompare\<close> puts on ids belongs to the run-time's locale data and is the argument \<open>lc\<close>.
\<close>

section \<open>Data\<close>

datatype weighting = Linear | Equal

record epochInput =
  ei_s :: real
  ei_pnlByAgent :: "(string \<times> jsnum) list"
  ei_benchmarkIds :: "string list"
  ei_invalid :: "string option"

datatype epochExclusion = Invalid | SigmaZero | EmptyPop

record epochResult =
  er_s :: real
  er_w :: real
  er_n :: nat
  er_mu :: "real option"
  er_sigma :: "real option"
  er_excluded :: "epochExclusion option"
  er_invalidReason :: "string option"
  er_tByAgent :: "(string \<times> real) list"
  er_benchmarkPnl :: "(string \<times> real) list"

record agentEpoch =
  ae_s :: real
  ae_pnl :: real
  ae_t :: real
  ae_w :: real

record agentResult =
  ag_id :: string
  ag_scoreRaw :: "real option"
  ag_score :: "real option"
  ag_epochs :: "agentEpoch list"
  ag_tStd :: "real option"
  ag_worstT :: "real option"
  ag_submittedAt :: "real option"
  ag_rank :: nat
  ag_tied :: bool

record competitionInput =
  ci_epochs :: "epochInput list"
  ci_k :: real
  ci_submittedAt :: "(string \<times> real) list"
  ci_weighting :: weighting

record competitionResult =
  cr_k :: real
  cr_epochs :: "epochResult list"
  cr_S :: "real list"
  cr_agents :: "agentResult list"

datatype score_error =
    OrdinalNotPositiveInteger real
  | KNotPositiveInteger real
  | OrdinalExceedsK real real
  | PnlNotFinite real string
  | OrdinalTwice real

section \<open>Rounding and weights\<close>

definition round2 :: "real \<Rightarrow> real" where
  "round2 x =
     (let sign = (if x < 0 then - 1 else 1)
      in sign * mathRound (\<bar>x\<bar> * 100 + 1 / 10 ^ 9) / 100)"

definition weightOf :: "real \<Rightarrow> real \<Rightarrow> score_error + real" where
  "weightOf s k =
     throwIf (\<not> isInteger s \<or> s < 1) (OrdinalNotPositiveInteger s)
     (throwIf (\<not> isInteger k \<or> k < 1) (KNotPositiveInteger k)
     (throwIf (k < s) (OrdinalExceedsK s k)
     (Inr (if k = 1 then 1 else 1 + (1 / 2 * (s - 1)) / (k - 1)))))"

definition weightFor :: "real \<Rightarrow> real \<Rightarrow> weighting \<Rightarrow> score_error + real" where
  "weightFor s k w =
     bindR (weightOf s k) (\<lambda>linear. Inr (if w = Equal then 1 else linear))"

section \<open>One epoch\<close>

definition mean :: "real list \<Rightarrow> real" where
  "mean values = sum_list values / real (length values)"

definition populationStd :: "real list \<Rightarrow> real \<Rightarrow> real" where
  "populationStd values mu =
     sqrt ((\<Sum>v\<leftarrow>values. (v - mu) * (v - mu)) / real (length values))"

text \<open>The value the code reads back out of \<open>pnlByAgent\<close>, once it is known to be a finite number.\<close>

definition pnlOf :: "epochInput \<Rightarrow> string \<Rightarrow> real" where
  "pnlOf e aid = (case map_of (ei_pnlByAgent e) aid of Some (Fin x) \<Rightarrow> x | _ \<Rightarrow> 0)"

text \<open>The loop over the entries: the benchmarks' P to one side, the population's ids to the other.\<close>

definition splitStep ::
    "epochInput \<Rightarrow> (string \<times> real) list \<times> string list \<Rightarrow> string \<times> jsnum
     \<Rightarrow> score_error + ((string \<times> real) list \<times> string list)" where
  "splitStep e = (\<lambda>(benchmarkPnl, population) (aid, pnl).
     (case pnl of
        NonFin \<Rightarrow> Inl (PnlNotFinite (ei_s e) aid)
      | Fin p \<Rightarrow>
          Inr (if aid \<in> set (ei_benchmarkIds e)
               then (AList.update aid p benchmarkPnl, population)
               else (benchmarkPnl, population @ [aid]))))"

definition scoreEpoch :: "epochInput \<Rightarrow> real \<Rightarrow> weighting \<Rightarrow> score_error + epochResult" where
  "scoreEpoch e k weighting =
     bindR (weightFor (ei_s e) k weighting) (\<lambda>w.
     bindR (foldR (splitStep e) ([], []) (ei_pnlByAgent e)) (\<lambda>(benchmarkPnl, population).
       let base = \<lparr>er_s = ei_s e, er_w = w, er_n = length population, er_mu = None, er_sigma = None,
                   er_excluded = None, er_invalidReason = None, er_tByAgent = [],
                   er_benchmarkPnl = benchmarkPnl\<rparr>
       in if ei_invalid e \<noteq> None then
            Inr (base\<lparr>er_excluded := Some Invalid, er_invalidReason := ei_invalid e\<rparr>)
          else if population = [] then
            Inr (base\<lparr>er_excluded := Some EmptyPop\<rparr>)
          else
            (let values = map (pnlOf e) population;
                 mu = mean values;
                 sigma = populationStd values mu
             in if sigma = 0 then
                  Inr (base\<lparr>er_mu := Some mu, er_sigma := Some sigma, er_excluded := Some SigmaZero\<rparr>)
                else
                  Inr (base\<lparr>er_mu := Some mu, er_sigma := Some sigma,
                    er_tByAgent :=
                      map (\<lambda>aid. (aid, 50 + (10 * (pnlOf e aid - mu)) / sigma)) population\<rparr>))))"

section \<open>The order of the ranking\<close>

text \<open>
  Negative: \<open>a\<close> ranks ahead; 0: tied. A missing score is \<open>-Infinity\<close>; an agent with a score
  has its tie-break values, so \<open>numOf\<close> only reads values that are there.
\<close>

definition numOf :: "real option \<Rightarrow> real" where
  "numOf v = (case v of Some x \<Rightarrow> x | None \<Rightarrow> 0)"

definition compareAgents :: "agentResult \<Rightarrow> agentResult \<Rightarrow> int" where
  "compareAgents a b =
     (case (ag_score a, ag_score b) of
        (None, Some _) \<Rightarrow> 1
      | (Some _, None) \<Rightarrow> - 1
      | (None, None) \<Rightarrow> 0
      | (Some sa, Some sb) \<Rightarrow>
          if sa \<noteq> sb then cmpSign (sb - sa)
          else if numOf (ag_tStd a) \<noteq> numOf (ag_tStd b)
          then cmpSign (numOf (ag_tStd a) - numOf (ag_tStd b))
          else if numOf (ag_worstT a) \<noteq> numOf (ag_worstT b)
          then cmpSign (numOf (ag_worstT b) - numOf (ag_worstT a))
          else
            (case (ag_submittedAt a, ag_submittedAt b) of
               (Some ta, Some tb) \<Rightarrow> if ta \<noteq> tb then cmpSign (ta - tb) else 0
             | _ \<Rightarrow> 0))"

text \<open>\<open>compareAgents(a, b) || a.id.localeCompare(b.id)\<close>, as the relation \<open>... <= 0\<close>.\<close>

definition agentLe :: "(string \<Rightarrow> string \<Rightarrow> int) \<Rightarrow> agentResult \<Rightarrow> agentResult \<Rightarrow> bool" where
  "agentLe lc a b =
     (let c = compareAgents a b in (if c \<noteq> 0 then c else lc (ag_id a) (ag_id b)) \<le> 0)"

text \<open>
  The ranking loop: \<open>placed\<close> is what is already placed, the last one first, so that marking the
  previous agent as tied is a change of its head.
\<close>

fun assignRanks :: "nat \<Rightarrow> agentResult list \<Rightarrow> agentResult list \<Rightarrow> agentResult list" where
  "assignRanks i placed [] = rev placed"
| "assignRanks i [] (a # as) = assignRanks (Suc i) [a\<lparr>ag_rank := Suc i\<rparr>] as"
| "assignRanks i (p # ps) (a # as) =
     (if compareAgents p a = 0
      then assignRanks (Suc i)
             (a\<lparr>ag_rank := ag_rank p, ag_tied := True\<rparr> # p\<lparr>ag_tied := True\<rparr> # ps) as
      else assignRanks (Suc i) (a\<lparr>ag_rank := Suc i\<rparr> # p # ps) as)"

section \<open>The competition\<close>

definition epochStep ::
    "competitionInput \<Rightarrow> real list \<times> epochResult list \<Rightarrow> epochInput
     \<Rightarrow> score_error + (real list \<times> epochResult list)" where
  "epochStep ci = (\<lambda>(seen, out) e.
     throwIf (ei_s e \<in> set seen) (OrdinalTwice (ei_s e))
     (bindR (scoreEpoch e (ci_k ci) (ci_weighting ci)) (\<lambda>r.
        Inr (ei_s e # seen, out @ [r]))))"

text \<open>\<open>input.epochs.find((x) => x.s === s)!\<close>: the ordinals are those of the input.\<close>

definition inputOf :: "competitionInput \<Rightarrow> real \<Rightarrow> epochInput" where
  "inputOf ci s = (case find (\<lambda>x. ei_s x = s) (ci_epochs ci) of Some e \<Rightarrow> e
     | None \<Rightarrow> \<lparr>ei_s = s, ei_pnlByAgent = [], ei_benchmarkIds = [], ei_invalid = None\<rparr>)"

definition pushEpoch ::
    "competitionInput \<Rightarrow> epochResult \<Rightarrow> (string \<times> agentEpoch list) list \<Rightarrow> string \<times> real
     \<Rightarrow> (string \<times> agentEpoch list) list" where
  "pushEpoch ci e m = (\<lambda>(aid, t).
     AList.update aid
       (getOr [] m aid @
        [\<lparr>ae_s = er_s e, ae_pnl = pnlOf (inputOf ci (er_s e)) aid, ae_t = t, ae_w = er_w e\<rparr>]) m)"

definition byAgentScored ::
    "competitionInput \<Rightarrow> epochResult list \<Rightarrow> (string \<times> agentEpoch list) list" where
  "byAgentScored ci epochs =
     fold (\<lambda>e m. if er_excluded e \<noteq> None then m else fold (\<lambda>p m. pushEpoch ci e m p) (er_tByAgent e) m)
       epochs []"

text \<open>An agent that ran only in excluded epochs still gets a row, with no epochs in it.\<close>

definition byAgentAll ::
    "competitionInput \<Rightarrow> epochResult list \<Rightarrow> (string \<times> agentEpoch list) list" where
  "byAgentAll ci epochs =
     fold (\<lambda>e m.
        fold (\<lambda>aid m. if aid \<notin> set (keys (er_benchmarkPnl e)) \<and> aid \<notin> set (keys m)
                       then AList.update aid [] m else m)
          (keys (ei_pnlByAgent (inputOf ci (er_s e)))) m)
       epochs (byAgentScored ci epochs)"

definition agentRow :: "competitionInput \<Rightarrow> string \<times> agentEpoch list \<Rightarrow> agentResult" where
  "agentRow ci = (\<lambda>(aid, eps).
     let submitted = map_of (ci_submittedAt ci) aid
     in if eps = [] then
          \<lparr>ag_id = aid, ag_scoreRaw = None, ag_score = None, ag_epochs = [], ag_tStd = None,
           ag_worstT = None, ag_submittedAt = submitted, ag_rank = 0, ag_tied = False\<rparr>
        else
          (let sumW = (\<Sum>e\<leftarrow>eps. ae_w e);
               scoreRaw = (\<Sum>e\<leftarrow>eps. ae_w e * ae_t e) / sumW;
               ts = map ae_t eps
           in \<lparr>ag_id = aid, ag_scoreRaw = Some scoreRaw, ag_score = Some (round2 scoreRaw),
               ag_epochs = eps, ag_tStd = Some (populationStd ts (mean ts)),
               ag_worstT = Some (foldr min ts (hd ts)), ag_submittedAt = submitted,
               ag_rank = 0, ag_tied = False\<rparr>))"

definition scoreCompetition ::
    "(string \<Rightarrow> string \<Rightarrow> int) \<Rightarrow> competitionInput \<Rightarrow> score_error + competitionResult" where
  "scoreCompetition lc ci =
     bindR (foldR (epochStep ci) ([], []) (sortBy (\<lambda>a b. ei_s a \<le> ei_s b) (ci_epochs ci)))
       (\<lambda>(seen, epochs).
         Inr \<lparr>cr_k = ci_k ci, cr_epochs = epochs,
              cr_S = map er_s (filter (\<lambda>e. er_excluded e = None) epochs),
              cr_agents =
                assignRanks 0 []
                  (sortBy (agentLe lc) (map (agentRow ci) (byAgentAll ci epochs)))\<rparr>)"


section \<open>Mean and standard deviation\<close>

lemma sum_deviations: "xs \<noteq> [] \<Longrightarrow> (\<Sum>x\<leftarrow>xs. x - mean xs) = 0"
  by (simp add: sum_list_subtractf mean_def sum_list_triv)

lemma sum_square_ge:
  fixes xs :: "real list"
  shows "(sum_list xs)\<^sup>2 \<le> real (length xs) * (\<Sum>x\<leftarrow>xs. x\<^sup>2)"
proof (induction xs)
  case Nil
  then show ?case by simp
next
  case (Cons x xs)
  let ?n = "real (length xs)" and ?S = "sum_list xs" and ?Q = "\<Sum>x\<leftarrow>xs. x\<^sup>2"
  have "2 * x * ?S \<le> ?n * x\<^sup>2 + ?Q"
  proof -
    have "0 \<le> (\<Sum>y\<leftarrow>xs. (y - x)\<^sup>2)" by (rule sum_list_nonneg) auto
    also have "\<dots> = ?Q - 2 * x * ?S + ?n * x\<^sup>2"
      by (induction xs) (auto simp: power2_eq_square algebra_simps)
    finally show ?thesis by simp
  qed
  with Cons show ?case by (simp add: power2_eq_square algebra_simps)
qed

lemma populationStd_square:
  "populationStd xs m * populationStd xs m * real (length xs) = (\<Sum>x\<leftarrow>xs. (x - m)\<^sup>2)"
proof -
  have "0 \<le> (\<Sum>x\<leftarrow>xs. (x - m) * (x - m))" by (rule sum_list_nonneg) auto
  then show ?thesis
    by (cases "xs = []") (simp_all add: populationStd_def power2_eq_square)
qed

lemma populationStd_nonneg: "0 \<le> populationStd xs m"
  unfolding populationStd_def
  by (intro real_sqrt_ge_zero divide_nonneg_nonneg sum_list_nonneg) auto

text \<open>No value lies further than \<open>\<surd>(n - 1)\<close> standard deviations from the mean.\<close>

lemma deviation_bound:
  assumes "x \<in> set xs"
  shows "\<bar>x - mean xs\<bar> \<le> populationStd xs (mean xs) * sqrt (real (length xs) - 1)"
proof -
  let ?m = "mean xs" and ?s = "populationStd xs (mean xs)"
  from assms obtain as bs where xs: "xs = as @ x # bs" by (auto simp: in_set_conv_decomp)
  let ?ds = "map (\<lambda>y. y - ?m) (as @ bs)" and ?n = "real (length xs)"
  have nonempty: "xs \<noteq> []" using xs by simp
  have "sum_list ?ds + (x - ?m) = (\<Sum>y\<leftarrow>as @ x # bs. y - ?m)" by simp
  also have "\<dots> = 0" using sum_deviations [OF nonempty] by (simp only: flip: xs)
  finally have d: "x - ?m = - sum_list ?ds" by simp
  have "(\<Sum>y\<leftarrow>as @ x # bs. (y - ?m)\<^sup>2) = ?s * ?s * ?n"
    using populationStd_square [of xs ?m] by (simp only: flip: xs)
  then have q: "(\<Sum>y\<leftarrow>?ds. y\<^sup>2) = ?s * ?s * ?n - (x - ?m)\<^sup>2"
    by (simp add: o_def)
  have len: "real (length ?ds) = ?n - 1" using xs by simp
  have "(x - ?m)\<^sup>2 \<le> real (length ?ds) * (\<Sum>y\<leftarrow>?ds. y\<^sup>2)"
    unfolding d by (simp only: power2_minus sum_square_ge)
  then have "(x - ?m)\<^sup>2 \<le> (?n - 1) * (?s * ?s * ?n - (x - ?m)\<^sup>2)"
    unfolding q len .
  then have "?n * (x - ?m)\<^sup>2 \<le> ?n * ((?n - 1) * (?s * ?s))"
    by (simp only: algebra_simps)
  moreover have "0 < ?n" using xs by simp
  ultimately have "(x - ?m)\<^sup>2 \<le> (?n - 1) * (?s * ?s)"
    by (rule mult_le_cancel_left_pos [THEN iffD1, rotated])
  also have "\<dots> = (?s * sqrt (?n - 1))\<^sup>2"
    using len [symmetric] by (simp add: power_mult_distrib power2_eq_square [of ?s])
  finally have "(x - ?m)\<^sup>2 \<le> (?s * sqrt (?n - 1))\<^sup>2" .
  moreover have "0 \<le> ?s * sqrt (?n - 1)"
    using populationStd_nonneg len by (metis mult_nonneg_nonneg of_nat_0_le_iff real_sqrt_ge_zero)
  ultimately show ?thesis by (metis abs_le_square_iff abs_of_nonneg)
qed

lemma mean_affine: "xs \<noteq> [] \<Longrightarrow> mean (map (\<lambda>x. c * x + d) xs) = c * mean xs + d"
  by (simp add: mean_def sum_list_addf sum_list_const_mult sum_list_triv) (simp add: field_simps)

lemma populationStd_affine:
  assumes "0 < c"
  shows "populationStd (map (\<lambda>x. c * x + d) xs) (c * m + d) = c * populationStd xs m"
proof -
  have "(\<Sum>v\<leftarrow>map (\<lambda>x. c * x + d) xs. (v - (c * m + d)) * (v - (c * m + d)))
      = (c * c) * (\<Sum>v\<leftarrow>xs. (v - m) * (v - m))"
    by (induction xs) (auto simp: algebra_simps)
  then show ?thesis
    using assms by (simp add: populationStd_def real_sqrt_mult flip: times_divide_eq_right)
qed

section \<open>What an epoch's record holds\<close>

text \<open>The population: the agents of the epoch that are not its benchmark.\<close>

definition fieldOf :: "epochInput \<Rightarrow> string list" where
  "fieldOf e = filter (\<lambda>aid. aid \<notin> set (ei_benchmarkIds e)) (keys (ei_pnlByAgent e))"

lemma splitStep_Inr [result_simps]:
  "splitStep e (b, p) (aid, v) = Inr s \<longleftrightarrow>
     (\<exists>x. v = Fin x \<and>
       s = (if aid \<in> set (ei_benchmarkIds e) then (AList.update aid x b, p) else (b, p @ [aid])))"
  by (auto simp: splitStep_def split: jsnum.splits)

lemma split_loop:
  assumes "foldR (splitStep e) (b, p) xs = Inr (b', p')"
  shows "p' = p @ filter (\<lambda>aid. aid \<notin> set (ei_benchmarkIds e)) (keys xs)"
    and "fst ` set b' = fst ` set b \<union> {aid \<in> fst ` set xs. aid \<in> set (ei_benchmarkIds e)}"
    and "\<forall>(aid, v) \<in> set xs. isFin v"
  using assms
proof (induction xs arbitrary: b p)
  case Nil
  { case 1 then show ?case by simp next case 2 then show ?case by simp next case 3 then show ?case by simp }
next
  case (Cons x xs)
  obtain aid v where x: "x = (aid, v)" by fastforce
  { case 1 then show ?case
      using x by (auto simp: result_simps dest: Cons.IH(1) split: if_splits) next
    case 2
    then obtain v' where v': "v = Fin v'"
      "foldR (splitStep e) (if aid \<in> set (ei_benchmarkIds e) then (AList.update aid v' b, p)
         else (b, p @ [aid])) xs = Inr (b', p')"
      using x by (auto simp: result_simps)
    show ?case
    proof (cases "aid \<in> set (ei_benchmarkIds e)")
      case True
      with v' have "foldR (splitStep e) (AList.update aid v' b, p) xs = Inr (b', p')" by simp
      from Cons.IH(2) [OF this] True x show ?thesis by auto
    next
      case False
      with v' have "foldR (splitStep e) (b, p @ [aid]) xs = Inr (b', p')" by simp
      from Cons.IH(2) [OF this] False x show ?thesis by auto
    qed next
    case 3 then show ?case
      using x by (auto simp: result_simps dest: Cons.IH(3) split: if_splits) }
qed

lemma split_loop_ok:
  "isOk (foldR (splitStep e) (b, p) xs) \<longleftrightarrow> (\<forall>(aid, v) \<in> set xs. isFin v)"
proof (induction xs arbitrary: b p)
  case (Cons x xs)
  obtain aid v where x: "x = (aid, v)" by fastforce
  show ?case
    by (cases v) (simp_all add: x splitStep_def split_beta Cons.IH [unfolded splitStep_def split_beta])
qed simp

lemma scoreEpochE:
  assumes "scoreEpoch e k wt = Inr r"
  obtains b where "foldR (splitStep e) ([], []) (ei_pnlByAgent e) = Inr (b, fieldOf e)"
    "weightFor (ei_s e) k wt = Inr (er_w r)" "er_s r = ei_s e" "er_n r = length (fieldOf e)"
    "er_benchmarkPnl r = b"
proof -
  from assms obtain w b p where w: "weightFor (ei_s e) k wt = Inr w"
    and l: "foldR (splitStep e) ([], []) (ei_pnlByAgent e) = Inr (b, p)"
    by (auto simp: scoreEpoch_def result_simps)
  have "p = fieldOf e" using split_loop(1) [OF l] by (simp add: fieldOf_def)
  with assms w l show thesis
    by (intro that [of b]) (auto simp: scoreEpoch_def Let_def dest!: sym [of _ r] split: if_splits)
qed

lemma scoreEpoch_record:
  assumes "scoreEpoch e k wt = Inr r"
  shows "er_s r = ei_s e" "weightFor (ei_s e) k wt = Inr (er_w r)" "er_n r = length (fieldOf e)"
    "fst ` set (er_benchmarkPnl r) = {aid \<in> fst ` set (ei_pnlByAgent e). aid \<in> set (ei_benchmarkIds e)}"
    "\<forall>(aid, v) \<in> set (ei_pnlByAgent e). isFin v"
proof -
  from assms show "er_s r = ei_s e" "weightFor (ei_s e) k wt = Inr (er_w r)"
    "er_n r = length (fieldOf e)"
    by (auto elim: scoreEpochE)
  obtain b where l: "foldR (splitStep e) ([], []) (ei_pnlByAgent e) = Inr (b, fieldOf e)"
    and b: "er_benchmarkPnl r = b"
    using assms by (rule scoreEpochE)
  show "fst ` set (er_benchmarkPnl r) = {aid \<in> fst ` set (ei_pnlByAgent e). aid \<in> set (ei_benchmarkIds e)}"
    using split_loop(2) [OF l] b by simp
  show "\<forall>(aid, v) \<in> set (ei_pnlByAgent e). isFin v"
    using split_loop(3) [OF l] .
qed

lemma scoreEpoch_counted:
  assumes "scoreEpoch e k wt = Inr r" "er_excluded r = None"
  defines "ps \<equiv> map (pnlOf e) (fieldOf e)"
  shows "ei_invalid e = None" "fieldOf e \<noteq> []" "populationStd ps (mean ps) \<noteq> 0"
    "er_tByAgent r =
       map (\<lambda>aid. (aid, 50 + (10 * (pnlOf e aid - mean ps)) / populationStd ps (mean ps))) (fieldOf e)"
proof -
  obtain b where l: "foldR (splitStep e) ([], []) (ei_pnlByAgent e) = Inr (b, fieldOf e)"
    and "weightFor (ei_s e) k wt = Inr (er_w r)"
    using assms(1) by (rule scoreEpochE)
  then obtain w where "weightFor (ei_s e) k wt = Inr w" by blast
  with l assms show "ei_invalid e = None" "fieldOf e \<noteq> []" "populationStd ps (mean ps) \<noteq> 0"
    "er_tByAgent r =
       map (\<lambda>aid. (aid, 50 + (10 * (pnlOf e aid - mean ps)) / populationStd ps (mean ps))) (fieldOf e)"
    by (auto simp: scoreEpoch_def Let_def dest!: sym [of _ r] split: if_splits)
qed

lemma scoreEpoch_excluded:
  assumes "scoreEpoch e k wt = Inr r" "er_excluded r \<noteq> None"
  shows "er_tByAgent r = []"
  using assms by (auto simp: scoreEpoch_def Let_def result_simps split: if_splits)

lemma deviation_scores_map:
  assumes "scoreEpoch e k wt = Inr r" "er_excluded r = None"
  defines "ps \<equiv> map (pnlOf e) (fieldOf e)"
  shows "map snd (er_tByAgent r)
    = map (\<lambda>x. 10 / populationStd ps (mean ps) * x + (50 - 10 * mean ps / populationStd ps (mean ps))) ps"
    "0 < populationStd ps (mean ps)" "ps \<noteq> []"
proof -
  note c = scoreEpoch_counted [OF assms(1,2)]
  show "map snd (er_tByAgent r)
    = map (\<lambda>x. 10 / populationStd ps (mean ps) * x + (50 - 10 * mean ps / populationStd ps (mean ps))) ps"
    using c(4) unfolding ps_def by (simp add: diff_divide_distrib right_diff_distrib)
  show "0 < populationStd ps (mean ps)"
    using c(3) populationStd_nonneg unfolding ps_def by (metis less_eq_real_def)
  show "ps \<noteq> []" using c(2) unfolding ps_def by simp
qed

text \<open>
  C1. In an epoch that counts, the deviation scores of the population have mean 50 and population
  standard deviation 10: standardising makes every epoch weigh alike, whatever its volatility.
\<close>

theorem scoreEpoch_standardised:
  assumes "scoreEpoch e k wt = Inr r" "er_excluded r = None"
  shows "mean (map snd (er_tByAgent r)) = 50 \<and> populationStd (map snd (er_tByAgent r)) 50 = 10"
proof -
  note d = deviation_scores_map [OF assms]
  let ?ps = "map (pnlOf e) (fieldOf e)"
  let ?s = "populationStd ?ps (mean ?ps)"
  let ?c = "10 / ?s" and ?d = "50 - 10 * mean ?ps / ?s"
  have "?c * mean ?ps + ?d = 50" using d(2) by (simp add: field_simps)
  moreover have "?c * ?s = 10" "0 < ?c" using d(2) by simp_all
  ultimately show ?thesis
    unfolding d(1) using mean_affine [OF d(3), of ?c ?d] populationStd_affine [of ?c ?d ?ps "mean ?ps"]
    by simp
qed

text \<open>
  No epoch can move a score by more than the size of its field allows: every deviation score
  lies within \<open>10 \<surd>(n - 1)\<close> of 50, \<open>n\<close> the population.
\<close>

theorem scoreEpoch_bounded:
  assumes "scoreEpoch e k wt = Inr r" "(aid, t) \<in> set (er_tByAgent r)"
  shows "\<bar>t - 50\<bar> \<le> 10 * sqrt (real (er_n r) - 1)"
proof -
  have inc: "er_excluded r = None"
    using assms scoreEpoch_excluded by fastforce
  note c = scoreEpoch_counted [OF assms(1) inc] and d = deviation_scores_map [OF assms(1) inc]
  let ?ps = "map (pnlOf e) (fieldOf e)"
  let ?s = "populationStd ?ps (mean ?ps)"
  from assms(2) c(4) have a: "aid \<in> set (fieldOf e)" "t = 50 + (10 * (pnlOf e aid - mean ?ps)) / ?s"
    by auto
  have "\<bar>pnlOf e aid - mean ?ps\<bar> \<le> ?s * sqrt (real (length ?ps) - 1)"
    using a(1) by (intro deviation_bound) auto
  then have "10 * \<bar>pnlOf e aid - mean ?ps\<bar> / ?s \<le> 10 * sqrt (real (length ?ps) - 1)"
    using d(2) by (simp add: field_simps)
  moreover have "\<bar>t - 50\<bar> = 10 * \<bar>pnlOf e aid - mean ?ps\<bar> / ?s"
    using a(2) d(2) by (simp only: add_diff_cancel_left' abs_divide abs_mult)
  ultimately show ?thesis
    using scoreEpoch_record(3) [OF assms(1)] by simp
qed


text \<open>
  The same epoch in other units: every P scaled by \<open>c\<close> and shifted by \<open>d\<close>.
\<close>

definition rescale :: "real \<Rightarrow> real \<Rightarrow> epochInput \<Rightarrow> epochInput" where
  "rescale c d e = e\<lparr>ei_pnlByAgent :=
     map (\<lambda>(aid, v). (aid, case v of Fin x \<Rightarrow> Fin (c * x + d) | NonFin \<Rightarrow> NonFin)) (ei_pnlByAgent e)\<rparr>"

lemma rescale_simps [simp]:
  "ei_s (rescale c d e) = ei_s e" "ei_benchmarkIds (rescale c d e) = ei_benchmarkIds e"
  "ei_invalid (rescale c d e) = ei_invalid e" "fieldOf (rescale c d e) = fieldOf e"
  "keys (ei_pnlByAgent (rescale c d e)) = keys (ei_pnlByAgent e)"
  by (simp_all add: rescale_def fieldOf_def comp_def case_prod_beta')

lemma pnlOf_rescale:
  assumes "\<forall>(aid, v) \<in> set (ei_pnlByAgent e). isFin v" "aid \<in> set (keys (ei_pnlByAgent e))"
  shows "pnlOf (rescale c d e) aid = c * pnlOf e aid + d"
proof -
  have "map_of (map (\<lambda>(aid, v). (aid, g v)) xs) aid = map_option g (map_of xs aid)" for g :: "jsnum \<Rightarrow> jsnum" and xs
    by (induction xs) auto
  moreover obtain x where "map_of (ei_pnlByAgent e) aid = Some (Fin x)"
    using assms by (metis (mono_tags, lifting) case_prodD in_keys_iff isFin_iff map_of_SomeD)
  ultimately show ?thesis by (simp add: pnlOf_def rescale_def)
qed

lemma foldR_split_rescale:
  assumes "foldR (splitStep e) (b, p) xs = Inr (b', p')" "ei_benchmarkIds e' = ei_benchmarkIds e"
  shows "\<exists>b''. foldR (splitStep e') (b0, p)
      (map (\<lambda>(aid, v). (aid, case v of Fin x \<Rightarrow> Fin (c * x + d) | NonFin \<Rightarrow> NonFin)) xs) = Inr (b'', p')"
  using assms
proof (induction xs arbitrary: b p b0)
  case (Cons x xs)
  obtain aid v where x: "x = (aid, v)" by fastforce
  with Cons.prems obtain v' where v': "v = Fin v'"
    "foldR (splitStep e) (if aid \<in> set (ei_benchmarkIds e) then (AList.update aid v' b, p)
       else (b, p @ [aid])) xs = Inr (b', p')"
    by (auto simp: result_simps)
  from Cons.IH Cons.prems(2) v'(2) show ?case
    by (cases "aid \<in> set (ei_benchmarkIds e)") (auto simp: x v'(1) splitStep_def)
qed simp

text \<open>
  Dividing (or shifting) every P of an epoch by the same amount leaves every deviation score
  where it was.
\<close>

lemma scoreEpoch_rescale:
  assumes "scoreEpoch e k wt = Inr r" "0 < c"
  shows "\<exists>r'. scoreEpoch (rescale c d e) k wt = Inr r'
    \<and> er_tByAgent r' = er_tByAgent r \<and> er_excluded r' = er_excluded r \<and> er_w r' = er_w r"
proof -
  let ?e = "rescale c d e" and ?ps = "map (pnlOf e) (fieldOf e)"
  obtain b w where l: "foldR (splitStep e) ([], []) (ei_pnlByAgent e) = Inr (b, fieldOf e)"
    and w: "weightFor (ei_s e) k wt = Inr w" "er_w r = w"
    using assms(1) by (metis scoreEpochE)
  obtain b' where l': "foldR (splitStep ?e) ([], []) (ei_pnlByAgent ?e) = Inr (b', fieldOf e)"
    using foldR_split_rescale [OF l, of ?e "[]" c d] by (auto simp: rescale_def)
  have fin: "\<forall>(aid, v) \<in> set (ei_pnlByAgent e). isFin v"
    using scoreEpoch_record(5) [OF assms(1)] .
  have vals: "map (pnlOf ?e) (fieldOf e) = map (\<lambda>x. c * x + d) ?ps"
    using pnlOf_rescale [OF fin] by (auto simp: fieldOf_def)
  have mu: "mean (map (pnlOf ?e) (fieldOf e)) = c * mean ?ps + d" if "fieldOf e \<noteq> []"
    unfolding vals using that by (intro mean_affine) simp
  have sd: "populationStd (map (pnlOf ?e) (fieldOf e)) (c * mean ?ps + d) = c * populationStd ?ps (mean ?ps)"
    unfolding vals by (rule populationStd_affine [OF assms(2)])
  have dev: "(10 * (pnlOf ?e aid - (c * mean ?ps + d))) / (c * s) = (10 * (pnlOf e aid - mean ?ps)) / s"
    if "aid \<in> set (fieldOf e)" for aid s
  proof -
    have "pnlOf ?e aid = c * pnlOf e aid + d"
      using that pnlOf_rescale [OF fin] by (auto simp: fieldOf_def)
    then have "10 * (pnlOf ?e aid - (c * mean ?ps + d)) = c * (10 * (pnlOf e aid - mean ?ps))"
      by (simp add: algebra_simps)
    then show ?thesis using assms(2) by simp
  qed
  show ?thesis
    using assms(1) l w(1) l' assms(2)
    by (cases "ei_invalid e"; cases "fieldOf e = []"; cases "populationStd ?ps (mean ?ps) = 0")
      (auto simp: scoreEpoch_def Let_def mu sd dev dest!: sym [of _ r]
        simp del: right_diff_distrib_numeral distrib_left_numeral)
qed

section \<open>Witnesses\<close>

definition duel :: epochInput where
  "duel = \<lparr>ei_s = 2, ei_pnlByAgent = [(''a'', Fin 10), (''bench'', Fin 3), (''b'', Fin (- 10))],
     ei_benchmarkIds = [''bench''], ei_invalid = None\<rparr>"

definition duelResult :: epochResult where
  "duelResult = \<lparr>er_s = 2, er_w = 5 / 4, er_n = 2, er_mu = Some 0, er_sigma = Some 10,
     er_excluded = None, er_invalidReason = None,
     er_tByAgent = [(''a'', 60), (''b'', 40)], er_benchmarkPnl = [(''bench'', 3)]\<rparr>"

lemma duel_scored: "scoreEpoch duel 3 Linear = Inr duelResult"
proof -
  have "sqrt 100 = 10" by (rule real_sqrt_unique) auto
  then show ?thesis
    by (simp add: scoreEpoch_def duel_def duelResult_def weightFor_def weightOf_def
        splitStep_def pnlOf_def mean_def populationStd_def Let_def)
qed

theorem scoreEpoch_standardised_witness:
  "mean (map snd (er_tByAgent duelResult)) = 50 \<and> populationStd (map snd (er_tByAgent duelResult)) 50 = 10"
  by (rule scoreEpoch_standardised [OF duel_scored]) (simp add: duelResult_def)

theorem scoreEpoch_bounded_witness: "\<bar>60 - 50 :: real\<bar> \<le> 10 * sqrt (real (er_n duelResult) - 1)"
  by (rule scoreEpoch_bounded [OF duel_scored, of "''a''"]) (simp add: duelResult_def)

end
