(* ===== verification/Ranking.thy ===== *)
theory Ranking
  imports Deviation_Score
begin

text \<open>
  What \<open>scoreCompetition\<close> promises: which epochs make an agent's score, which agents get a
  row, when a competition is refused, and the ranking. The rules of the ranking are stated
  against the comparator; it is a total preorder on agents whose submission times are all
  known or all unknown, and is not one on a mixed field.
\<close>

section \<open>The order of two agents\<close>

lemma cmpSign_minus: "cmpSign (- x) = - cmpSign x"
  by (simp add: cmpSign_def)

lemma cmpSign_swap: "cmpSign (a - b) = - cmpSign (b - a)"
  using cmpSign_minus [of "b - a"] by simp

lemma compareAgents_swap: "compareAgents b a = - compareAgents a b"
  unfolding compareAgents_def
  by (auto simp: cmpSign_swap [of "numOf _"] cmpSign_def split: option.splits)

lemma compareAgents_refl [simp]: "compareAgents a a = 0"
  using compareAgents_swap [of a a] by simp

lemma compareAgents_total: "compareAgents a b \<le> 0 \<or> compareAgents b a \<le> 0"
  using compareAgents_swap [of a b] by linarith

lemma compareAgents_upd [simp]:
  "compareAgents (a\<lparr>ag_rank := n\<rparr>) b = compareAgents a b"
  "compareAgents (a\<lparr>ag_tied := t\<rparr>) b = compareAgents a b"
  "compareAgents a (b\<lparr>ag_rank := n\<rparr>) = compareAgents a b"
  "compareAgents a (b\<lparr>ag_tied := t\<rparr>) = compareAgents a b"
  by (auto simp: compareAgents_def split: option.splits)

lemma compareAgents_le:
  "compareAgents a b \<le> 0 \<longleftrightarrow>
     (case (ag_score a, ag_score b) of
        (None, Some _) \<Rightarrow> False
      | (Some _, None) \<Rightarrow> True
      | (None, None) \<Rightarrow> True
      | (Some sa, Some sb) \<Rightarrow>
          sb < sa \<or> sa = sb \<and>
            (numOf (ag_tStd a) < numOf (ag_tStd b) \<or> numOf (ag_tStd a) = numOf (ag_tStd b) \<and>
              (numOf (ag_worstT b) < numOf (ag_worstT a) \<or> numOf (ag_worstT a) = numOf (ag_worstT b) \<and>
                (case (ag_submittedAt a, ag_submittedAt b) of
                   (Some ta, Some tb) \<Rightarrow> ta \<le> tb | _ \<Rightarrow> True))))"
  by (auto simp: compareAgents_def split: option.splits)

lemma compareAgents_trans:
  assumes "compareAgents a b \<le> 0" "compareAgents b c \<le> 0"
    and "(ag_submittedAt a = None) = t" "(ag_submittedAt b = None) = t" "(ag_submittedAt c = None) = t"
  shows "compareAgents a c \<le> 0"
  using assms unfolding compareAgents_le by (auto split: option.splits)

interpretation timed: comparator "\<lambda>a b. compareAgents a b \<le> 0" "\<lambda>a. ag_submittedAt a \<noteq> None"
  using compareAgents_total by unfold_locales (auto intro: compareAgents_trans [where t = False])

interpretation untimed: comparator "\<lambda>a b. compareAgents a b \<le> 0" "\<lambda>a. ag_submittedAt a = None"
  using compareAgents_total by unfold_locales (auto intro: compareAgents_trans [where t = True])

lemma agentLe_iff:
  "agentLe lc a b \<longleftrightarrow>
     compareAgents a b \<le> 0 \<and> (compareAgents b a \<le> 0 \<longrightarrow> lc (ag_id a) (ag_id b) \<le> 0)"
  using compareAgents_swap [of a b] by (auto simp: agentLe_def Let_def)

text \<open>The times of the field are all known or all unknown.\<close>

definition timesAgree :: "agentResult list \<Rightarrow> bool" where
  "timesAgree as \<longleftrightarrow>
     (\<forall>a \<in> set as. ag_submittedAt a \<noteq> None) \<or> (\<forall>a \<in> set as. ag_submittedAt a = None)"

lemma sorted_by_agentLe:
  assumes "comparator (\<lambda>x y. lc x y \<le> 0) (\<lambda>_. True)" "timesAgree as"
  shows "sorted_wrt (agentLe lc) (sortBy (agentLe lc) as)"
proof -
  have ids: "comparator (\<lambda>a b. lc (ag_id a) (ag_id b) \<le> 0) ok" for ok
    by unfold_locales
      (use comparator.le_total [OF assms(1)] comparator.le_trans [OF assms(1)] in blast)+
  have le: "agentLe lc = (\<lambda>a b. compareAgents a b \<le> 0 \<and>
      (compareAgents b a \<le> 0 \<longrightarrow> lc (ag_id a) (ag_id b) \<le> 0))"
    by (intro ext) (simp add: agentLe_iff)
  from assms(2) consider "\<forall>a \<in> set as. ag_submittedAt a \<noteq> None" | "\<forall>a \<in> set as. ag_submittedAt a = None"
    by (auto simp: timesAgree_def)
  then show ?thesis
  proof cases
    case 1
    with comparator.sorted_sortBy [OF comparator_lex [OF timed.comparator_axioms ids]]
    show ?thesis unfolding le by blast
  next
    case 2
    with comparator.sorted_sortBy [OF comparator_lex [OF untimed.comparator_axioms ids]]
    show ?thesis unfolding le by blast
  qed
qed

section \<open>Ranks\<close>

fun rankAt :: "agentResult list \<Rightarrow> nat \<Rightarrow> nat" where
  "rankAt xs 0 = 1"
| "rankAt xs (Suc i) = (if compareAgents (xs ! i) (xs ! Suc i) = 0 then rankAt xs i else Suc (Suc i))"

definition tiedAt :: "agentResult list \<Rightarrow> nat \<Rightarrow> bool" where
  "tiedAt xs i \<longleftrightarrow> (0 < i \<and> compareAgents (xs ! (i - 1)) (xs ! i) = 0)
     \<or> (Suc i < length xs \<and> compareAgents (xs ! i) (xs ! Suc i) = 0)"

definition ranked :: "agentResult list \<Rightarrow> agentResult list" where
  "ranked xs = map (\<lambda>i. (xs ! i)\<lparr>ag_rank := rankAt xs i, ag_tied := tiedAt xs i\<rparr>) [0..<length xs]"

lemma rankAt_append: "i < length xs \<Longrightarrow> rankAt (xs @ ys) i = rankAt xs i"
  by (induction i) (auto simp: nth_append)

lemma ranked_snoc:
  assumes "ranked xs = ps @ [p]"
  shows "ranked (xs @ [a]) =
    (if compareAgents p a = 0
     then ps @ [p\<lparr>ag_tied := True\<rparr>, a\<lparr>ag_rank := ag_rank p, ag_tied := True\<rparr>]
     else ps @ [p, a\<lparr>ag_rank := Suc (length xs), ag_tied := False\<rparr>])"
proof -
  obtain n where n: "length xs = Suc n"
    using assms by (cases "length xs") (auto simp: ranked_def)
  have p: "p = (xs ! n)\<lparr>ag_rank := rankAt xs n, ag_tied := tiedAt xs n\<rparr>"
    and ps: "ps = map (\<lambda>i. (xs ! i)\<lparr>ag_rank := rankAt xs i, ag_tied := tiedAt xs i\<rparr>) [0..<n]"
    using assms unfolding ranked_def n by simp_all
  have t: "tiedAt (xs @ [a]) i = tiedAt xs i" if "i < n" for i
    using that n by (auto simp: tiedAt_def nth_append)
  have tn: "tiedAt (xs @ [a]) n \<longleftrightarrow> tiedAt xs n \<or> compareAgents (xs ! n) a = 0"
    using n by (auto simp: tiedAt_def nth_append)
  have ta: "tiedAt (xs @ [a]) (Suc n) \<longleftrightarrow> compareAgents (xs ! n) a = 0"
    using n by (auto simp: tiedAt_def nth_append)
  have cmp: "compareAgents p a = compareAgents (xs ! n) a" unfolding p by simp
  have ra: "rankAt (xs @ [a]) (Suc n) = (if compareAgents (xs ! n) a = 0 then rankAt xs n else Suc (Suc n))"
    using n by (simp add: nth_append rankAt_append)
  have init: "map (\<lambda>i. ((xs @ [a]) ! i)\<lparr>ag_rank := rankAt (xs @ [a]) i, ag_tied := tiedAt (xs @ [a]) i\<rparr>) [0..<n] = ps"
    unfolding ps using n t by (auto simp: nth_append rankAt_append)
  have "ranked (xs @ [a]) = ps @
      [(xs ! n)\<lparr>ag_rank := rankAt xs n, ag_tied := tiedAt (xs @ [a]) n\<rparr>,
       a\<lparr>ag_rank := rankAt (xs @ [a]) (Suc n), ag_tied := tiedAt (xs @ [a]) (Suc n)\<rparr>]"
    unfolding ranked_def using n init by (simp add: nth_append rankAt_append del: rankAt.simps)
  then show ?thesis
    unfolding cmp tn ta ra by (auto simp: p n)
qed

lemma assignRanks_ranked:
  "\<forall>a \<in> set (xs @ ys). \<not> ag_tied a \<Longrightarrow>
   assignRanks (length xs) (rev (ranked xs)) ys = ranked (xs @ ys)"
proof (induction ys arbitrary: xs)
  case Nil
  show ?case by (simp add: ranked_def rev_map)
next
  case (Cons a ys)
  have "assignRanks (length xs) (rev (ranked xs)) (a # ys)
      = assignRanks (length (xs @ [a])) (rev (ranked (xs @ [a]))) ys"
  proof (cases "ranked xs" rule: rev_cases)
    case Nil
    then have xs: "xs = []" by (simp add: ranked_def)
    have "a\<lparr>ag_rank := 1, ag_tied := False\<rparr> = a\<lparr>ag_rank := 1\<rparr>" using Cons.prems by simp
    then show ?thesis by (simp add: ranked_def tiedAt_def xs)
  next
    case (snoc ps p)
    have keep: "a\<lparr>ag_rank := n, ag_tied := False\<rparr> = a\<lparr>ag_rank := n\<rparr>" for n
      using Cons.prems by simp
    show ?thesis
      using ranked_snoc [OF snoc, of a] keep by (simp add: snoc)
  qed
  then show ?case using Cons.IH [of "xs @ [a]"] Cons.prems by simp
qed

lemma assignRanks_all: "\<forall>a \<in> set xs. \<not> ag_tied a \<Longrightarrow> assignRanks 0 [] xs = ranked xs"
  using assignRanks_ranked [of "[]" xs] by (simp add: ranked_def)

lemma length_ranked [simp]: "length (ranked xs) = length xs"
  by (simp add: ranked_def)

lemma ranked_nth [simp]:
  "i < length xs \<Longrightarrow> ranked xs ! i = (xs ! i)\<lparr>ag_rank := rankAt xs i, ag_tied := tiedAt xs i\<rparr>"
  by (simp add: ranked_def)

lemma map_ranked:
  assumes "\<And>a n t. f (a\<lparr>ag_rank := n, ag_tied := t\<rparr>) = f a"
  shows "map f (ranked xs) = map f xs"
  by (rule nth_equalityI) (simp_all add: assms)


lemma rankAt_count:
  assumes sorted: "sorted_wrt (\<lambda>a b. compareAgents a b \<le> 0) xs"
    and trans: "\<And>a b c. a \<in> set xs \<Longrightarrow> b \<in> set xs \<Longrightarrow> c \<in> set xs \<Longrightarrow>
      compareAgents a b \<le> 0 \<Longrightarrow> compareAgents b c \<le> 0 \<Longrightarrow> compareAgents a c \<le> 0"
    and "i < length xs"
  shows "rankAt xs i = Suc (card {j. j < length xs \<and> compareAgents (xs ! j) (xs ! i) < 0})"
  using assms(3)
proof (induction i)
  case 0
  have "compareAgents (xs ! 0) (xs ! j) \<le> 0" if "j < length xs" for j
    using that sorted by (cases j) (auto simp: sorted_wrt_iff_nth_less)
  then have "\<not> compareAgents (xs ! j) (xs ! 0) < 0" if "j < length xs" for j
    using that compareAgents_swap [of "xs ! 0" "xs ! j"] by fastforce
  then have "{j. j < length xs \<and> compareAgents (xs ! j) (xs ! 0) < 0} = {}" by blast
  then show ?case by simp
next
  case (Suc i)
  have le: "compareAgents (xs ! a) (xs ! b) \<le> 0" if "a < b" "b < length xs" for a b
    using that sorted by (auto simp: sorted_wrt_iff_nth_less)
  have later: "\<not> compareAgents (xs ! j) (xs ! Suc i) < 0" if "Suc i \<le> j" "j < length xs" for j
    using that le [of "Suc i" j] compareAgents_swap [of "xs ! j" "xs ! Suc i"]
    by (cases "j = Suc i") auto
  show ?case
  proof (cases "compareAgents (xs ! i) (xs ! Suc i) = 0")
    case True
    then have bk: "compareAgents (xs ! Suc i) (xs ! i) \<le> 0"
      using compareAgents_swap [of "xs ! Suc i" "xs ! i"] by simp
    have "compareAgents (xs ! j) (xs ! Suc i) < 0 \<longleftrightarrow> compareAgents (xs ! j) (xs ! i) < 0"
      if "j < length xs" for j
    proof -
      have m: "xs ! j \<in> set xs" "xs ! i \<in> set xs" "xs ! Suc i \<in> set xs" using that Suc.prems by auto
      have "compareAgents (xs ! Suc i) (xs ! j) \<le> 0 \<longleftrightarrow> compareAgents (xs ! i) (xs ! j) \<le> 0"
        using trans [OF m(3,2,1) bk] trans [OF m(2,3,1)] True by auto
      then show ?thesis
        using compareAgents_swap [of "xs ! j" "xs ! Suc i"] compareAgents_swap [of "xs ! j" "xs ! i"]
        by linarith
    qed
    then have "{j. j < length xs \<and> compareAgents (xs ! j) (xs ! Suc i) < 0}
      = {j. j < length xs \<and> compareAgents (xs ! j) (xs ! i) < 0}" by blast
    with Suc True show ?thesis by simp
  next
    case False
    then have ahead: "compareAgents (xs ! i) (xs ! Suc i) < 0"
      using le [of i "Suc i"] Suc.prems by fastforce
    have "compareAgents (xs ! j) (xs ! Suc i) < 0" if "j \<le> i" for j
    proof (rule ccontr)
      have m: "xs ! j \<in> set xs" "xs ! i \<in> set xs" "xs ! Suc i \<in> set xs"
        using that Suc.prems by auto
      assume "\<not> compareAgents (xs ! j) (xs ! Suc i) < 0"
      then have "compareAgents (xs ! Suc i) (xs ! j) \<le> 0"
        using compareAgents_swap [of "xs ! j" "xs ! Suc i"] by linarith
      moreover have "compareAgents (xs ! j) (xs ! i) \<le> 0"
        using that le [of j i] Suc.prems by (cases "j = i") auto
      ultimately have "compareAgents (xs ! Suc i) (xs ! i) \<le> 0"
        using trans [OF m(3,1,2)] by blast
      with ahead compareAgents_swap [of "xs ! Suc i" "xs ! i"] show False by linarith
    qed
    with later have "{j. j < length xs \<and> compareAgents (xs ! j) (xs ! Suc i) < 0} = {..i}"
      using Suc.prems by (auto simp: not_less_eq_eq intro: leI)
    with False show ?thesis by simp
  qed
qed

section \<open>The loop over the epochs\<close>

lemma epochStep_eq [result_simps]:
  "epochStep ci (seen, out) e =
     throwIf (ei_s e \<in> set seen) (OrdinalTwice (ei_s e))
       (bindR (scoreEpoch e (ci_k ci) (ci_weighting ci)) (\<lambda>r. Inr (ei_s e # seen, out @ [r])))"
  by (simp add: epochStep_def)

lemma epochs_loop:
  assumes "foldR (epochStep ci) (seen, out) es = Inr (seen', out')"
  shows "\<exists>rs. out' = out @ rs
    \<and> list_all2 (\<lambda>e r. scoreEpoch e (ci_k ci) (ci_weighting ci) = Inr r) es rs
    \<and> distinct (map ei_s es) \<and> ei_s ` set es \<inter> set seen = {}"
  using assms
proof (induction es arbitrary: seen out)
  case (Cons e es)
  then obtain r where r: "ei_s e \<notin> set seen" "scoreEpoch e (ci_k ci) (ci_weighting ci) = Inr r"
    "foldR (epochStep ci) (ei_s e # seen, out @ [r]) es = Inr (seen', out')"
    by (auto simp: result_simps)
  from Cons.IH [OF r(3)] obtain rs where "out' = (out @ [r]) @ rs"
    "list_all2 (\<lambda>e r. scoreEpoch e (ci_k ci) (ci_weighting ci) = Inr r) es rs"
    "distinct (map ei_s es)" "ei_s ` set es \<inter> set (ei_s e # seen) = {}" by blast
  with r show ?case by (intro exI [of _ "r # rs"]) auto
qed simp

lemma epochs_loop_ok:
  "isOk (foldR (epochStep ci) (seen, out) es) \<longleftrightarrow>
     (\<forall>e \<in> set es. isOk (scoreEpoch e (ci_k ci) (ci_weighting ci)))
     \<and> distinct (map ei_s es) \<and> ei_s ` set es \<inter> set seen = {}"
proof (induction es arbitrary: seen out)
  case (Cons e es)
  show ?case
  proof (cases "scoreEpoch e (ci_k ci) (ci_weighting ci)")
    case (Inl err)
    then show ?thesis by (simp add: epochStep_eq throwIf_def)
  next
    case (Inr r)
    then show ?thesis by (auto simp: epochStep_eq throwIf_def Cons.IH)
  qed
qed simp

definition epochOrder :: "competitionInput \<Rightarrow> epochInput list" where
  "epochOrder ci = sortBy (\<lambda>a b. ei_s a \<le> ei_s b) (ci_epochs ci)"

interpretation by_ordinal: comparator "\<lambda>a b. ei_s a \<le> ei_s b" "\<lambda>_. True"
  by unfold_locales auto

lemma scoreCompetitionE:
  assumes "scoreCompetition lc ci = Inr r"
  obtains "list_all2 (\<lambda>e x. scoreEpoch e (ci_k ci) (ci_weighting ci) = Inr x) (epochOrder ci) (cr_epochs r)"
    "distinct (map ei_s (ci_epochs ci))" "cr_k r = ci_k ci"
    "cr_S r = map er_s (filter (\<lambda>e. er_excluded e = None) (cr_epochs r))"
    "cr_agents r = assignRanks 0 []
       (sortBy (agentLe lc) (map (agentRow ci) (byAgentAll ci (cr_epochs r))))"
  using assms
  by (auto simp: scoreCompetition_def result_simps epochOrder_def distinct_map_sortBy dest!: epochs_loop)

lemma epoch_of_result:
  assumes "scoreCompetition lc ci = Inr r" "x \<in> set (cr_epochs r)"
  obtains e where "e \<in> set (ci_epochs ci)" "scoreEpoch e (ci_k ci) (ci_weighting ci) = Inr x"
    "inputOf ci (er_s x) = e"
proof -
  from assms(1) have all: "list_all2 (\<lambda>e x. scoreEpoch e (ci_k ci) (ci_weighting ci) = Inr x)
      (epochOrder ci) (cr_epochs r)" and dist: "distinct (map ei_s (ci_epochs ci))"
    by (auto elim: scoreCompetitionE)
  from all assms(2) obtain e where e: "e \<in> set (ci_epochs ci)"
    "scoreEpoch e (ci_k ci) (ci_weighting ci) = Inr x"
    by (auto simp: epochOrder_def dest: list_all2_right)
  have "find (\<lambda>y. ei_s y = ei_s e) (ci_epochs ci) = Some e"
    using dist e(1) by (rule find_by_key)
  with that [OF e] scoreEpoch_record(1) [OF e(2)] show thesis
    by (simp add: inputOf_def)
qed


section \<open>The rows of an agent\<close>

text \<open>
  The epochs that count for an agent, in ordinal order: those not excluded in which it has a
  deviation score, with the score and the weight the epoch's record gives it.
\<close>

definition rowsOf :: "competitionInput \<Rightarrow> epochResult list \<Rightarrow> string \<Rightarrow> agentEpoch list" where
  "rowsOf ci epochs aid =
     concat (map (\<lambda>e. if er_excluded e \<noteq> None then []
       else map (\<lambda>(i, t). \<lparr>ae_s = er_s e, ae_pnl = pnlOf (inputOf ci (er_s e)) aid, ae_t = t, ae_w = er_w e\<rparr>)
              (filter (\<lambda>(i, t). i = aid) (er_tByAgent e))) epochs)"

lemma fold_push:
  "getOr [] (fold (\<lambda>p m. pushEpoch ci e m p) ps m) aid = getOr [] m aid @
     map (\<lambda>(i, t). \<lparr>ae_s = er_s e, ae_pnl = pnlOf (inputOf ci (er_s e)) aid, ae_t = t, ae_w = er_w e\<rparr>)
       (filter (\<lambda>(i, t). i = aid) ps)"
  by (induction ps arbitrary: m) (auto simp: pushEpoch_def split_beta)

lemma keys_fold_push:
  "set (keys (fold (\<lambda>p m. pushEpoch ci e m p) ps m)) = set (keys m) \<union> set (keys ps)"
  by (induction ps arbitrary: m) (auto simp: pushEpoch_def split_beta)

lemma distinct_fold_push:
  "distinct (keys m) \<Longrightarrow> distinct (keys (fold (\<lambda>p m. pushEpoch ci e m p) ps m))"
  by (induction ps arbitrary: m) (auto simp: pushEpoch_def split_beta)

lemma scored_fold:
  "getOr [] (fold (\<lambda>e m. if er_excluded e \<noteq> None then m
       else fold (\<lambda>p m. pushEpoch ci e m p) (er_tByAgent e) m) epochs m) aid
     = getOr [] m aid @ rowsOf ci epochs aid"
  by (induction epochs arbitrary: m) (auto simp: rowsOf_def fold_push)

lemma byAgentScored_get: "getOr [] (byAgentScored ci epochs) aid = rowsOf ci epochs aid"
  unfolding byAgentScored_def by (subst scored_fold) simp

lemma byAgentScored_keys:
  "distinct (keys (byAgentScored ci epochs))
   \<and> set (keys (byAgentScored ci epochs)) = (\<Union>e \<in> {e \<in> set epochs. er_excluded e = None}. set (keys (er_tByAgent e)))"
proof -
  let ?f = "\<lambda>e m. if er_excluded e \<noteq> None then m else fold (\<lambda>p m. pushEpoch ci e m p) (er_tByAgent e) m"
  have "distinct (keys (fold ?f epochs m)) \<and> set (keys (fold ?f epochs m)) =
      set (keys m) \<union> (\<Union>e \<in> {e \<in> set epochs. er_excluded e = None}. set (keys (er_tByAgent e)))"
    if "distinct (keys m)" for m
    using that
  proof (induction epochs arbitrary: m)
    case (Cons e epochs)
    then show ?case
      using Cons.IH [of "?f e m"] by (auto simp: distinct_fold_push keys_fold_push [unfolded set_map])
  qed simp
  from this [of "[]"] show ?thesis by (simp add: byAgentScored_def)
qed

lemma fill_fold:
  fixes B :: "string set"
  defines "g \<equiv> \<lambda>aid m. if aid \<notin> B \<and> aid \<notin> set (keys m) then AList.update aid [] m else m"
  shows "getOr [] (fold g ids m) a = getOr [] m a"
    and "set (keys (fold g ids m)) = set (keys m) \<union> {aid \<in> set ids. aid \<notin> B}"
    and "distinct (keys m) \<Longrightarrow> distinct (keys (fold g ids m))"
proof -
  have one: "getOr [] (g i m) a = getOr [] m a" for i m
    by (auto simp: g_def getOr_def in_keys_iff [unfolded set_map] split: option.splits)
  show "getOr [] (fold g ids m) a = getOr [] m a"
    by (induction ids arbitrary: m) (auto simp: one)
  show "set (keys (fold g ids m)) = set (keys m) \<union> {aid \<in> set ids. aid \<notin> B}"
    by (induction ids arbitrary: m) (auto simp: g_def)
  show "distinct (keys m) \<Longrightarrow> distinct (keys (fold g ids m))"
    by (induction ids arbitrary: m) (auto simp: g_def)
qed

lemma byAgentAll_spec:
  "getOr [] (byAgentAll ci epochs) a = rowsOf ci epochs a"
  "set (keys (byAgentAll ci epochs)) = set (keys (byAgentScored ci epochs)) \<union>
     (\<Union>e \<in> set epochs. {aid \<in> set (keys (ei_pnlByAgent (inputOf ci (er_s e)))). aid \<notin> set (keys (er_benchmarkPnl e))})"
  "distinct (keys (byAgentAll ci epochs))"
proof -
  let ?g = "\<lambda>B aid m. if aid \<notin> B \<and> aid \<notin> set (keys m) then AList.update aid [] m else m"
  let ?f = "\<lambda>e. fold (?g (set (keys (er_benchmarkPnl e)))) (keys (ei_pnlByAgent (inputOf ci (er_s e))))"
  have g: "getOr [] (fold ?f epochs m) a = getOr [] m a" for m
    by (induction epochs arbitrary: m) (simp_all add: fill_fold(1) del: set_map)
  have k: "set (keys (fold ?f epochs m)) = set (keys m) \<union>
     (\<Union>e \<in> set epochs. {aid \<in> set (keys (ei_pnlByAgent (inputOf ci (er_s e)))). aid \<notin> set (keys (er_benchmarkPnl e))})" for m
    by (induction epochs arbitrary: m) (simp_all add: fill_fold(2) Un_assoc del: set_map)
  have d: "distinct (keys m) \<Longrightarrow> distinct (keys (fold ?f epochs m))" for m
    by (induction epochs arbitrary: m) (simp_all add: fill_fold(3) del: set_map)
  show "getOr [] (byAgentAll ci epochs) a = rowsOf ci epochs a"
    unfolding byAgentAll_def g byAgentScored_get ..
  show "set (keys (byAgentAll ci epochs)) = set (keys (byAgentScored ci epochs)) \<union>
     (\<Union>e \<in> set epochs. {aid \<in> set (keys (ei_pnlByAgent (inputOf ci (er_s e)))). aid \<notin> set (keys (er_benchmarkPnl e))})"
    unfolding byAgentAll_def k ..
  show "distinct (keys (byAgentAll ci epochs))"
    unfolding byAgentAll_def by (rule d) (simp add: byAgentScored_keys)
qed


section \<open>What the competition promises\<close>

lemma agentRow_untied [simp]: "\<not> ag_tied (agentRow ci p)"
  by (cases p) (simp add: agentRow_def Let_def)

lemma agents_of_result:
  assumes "scoreCompetition lc ci = Inr r"
  shows "cr_agents r = ranked (sortBy (agentLe lc) (map (agentRow ci) (byAgentAll ci (cr_epochs r))))"
  using assms
  by (elim scoreCompetitionE) (auto intro!: assignRanks_all)

lemma set_ranked:
  "a \<in> set (ranked xs) \<Longrightarrow> \<exists>b n t. b \<in> set xs \<and> a = b\<lparr>ag_rank := n, ag_tied := t\<rparr>"
  by (auto simp: ranked_def) (metis nth_mem)

lemma agentRow_fields:
  "ag_id (agentRow ci p) = fst p"
  "ag_epochs (agentRow ci p) = snd p"
  "ag_submittedAt (agentRow ci p) = map_of (ci_submittedAt ci) (fst p)"
  "ag_scoreRaw (agentRow ci p) =
     (if snd p = [] then None else Some ((\<Sum>e\<leftarrow>snd p. ae_w e * ae_t e) / (\<Sum>e\<leftarrow>snd p. ae_w e)))"
  "ag_score (agentRow ci p) = map_option round2 (ag_scoreRaw (agentRow ci p))"
  by (auto simp: agentRow_def Let_def split_beta)

lemma agent_row_score:
  assumes "scoreCompetition lc ci = Inr r" "a \<in> set (cr_agents r)"
  shows "ag_epochs a = rowsOf ci (cr_epochs r) (ag_id a)
    \<and> ag_scoreRaw a = (if ag_epochs a = [] then None
        else Some ((\<Sum>e\<leftarrow>ag_epochs a. ae_w e * ae_t e) / (\<Sum>e\<leftarrow>ag_epochs a. ae_w e)))
    \<and> ag_score a = map_option round2 (ag_scoreRaw a)"
proof -
  from assms obtain p n t where p: "p \<in> set (byAgentAll ci (cr_epochs r))"
    "a = (agentRow ci p)\<lparr>ag_rank := n, ag_tied := t\<rparr>"
    unfolding agents_of_result [OF assms(1)] by (auto dest!: set_ranked)
  have "snd p = rowsOf ci (cr_epochs r) (fst p)"
    using p(1) byAgentAll_spec(1) [of ci "cr_epochs r" "fst p"] byAgentAll_spec(3) [of ci "cr_epochs r"]
    by (metis getOr_def map_of_eq_Some_iff_mem option.case(2) prod.collapse)
  then show ?thesis by (simp add: p(2) agentRow_fields)
qed

text \<open>
  C2. The score of an agent is the weighted mean of its deviation scores over exactly the epochs
  that count and that it was placed in, read to two decimals; an epoch left out (invalid, or
  with no spread, or empty) contributes nothing to anybody, and an agent with no such epoch
  has a row without a score.
\<close>

theorem scoreCompetition_score:
  assumes "scoreCompetition lc ci = Inr r" "a \<in> set (cr_agents r)"
  shows "ag_epochs a = rowsOf ci (cr_epochs r) (ag_id a)
    \<and> ag_scoreRaw a = (if ag_epochs a = [] then None
        else Some ((\<Sum>e\<leftarrow>ag_epochs a. ae_w e * ae_t e) / (\<Sum>e\<leftarrow>ag_epochs a. ae_w e)))
    \<and> ag_score a = map_option round2 (ag_scoreRaw a)"
  by (rule agent_row_score [OF assms])

lemma weightOf_range: "weightOf s k = Inr w \<Longrightarrow> 1 \<le> w \<and> w \<le> 3 / 2"
proof -
  assume "weightOf s k = Inr w"
  then have "1 \<le> s" "s \<le> k" "w = (if k = 1 then 1 else 1 + (1 / 2 * (s - 1)) / (k - 1))"
    by (auto simp: weightOf_def)
  then show ?thesis by (auto simp: field_simps)
qed

lemma weightFor_range: "weightFor s k wt = Inr w \<Longrightarrow> 1 \<le> w \<and> w \<le> 3 / 2"
  by (auto simp: weightFor_def result_simps dest: weightOf_range split: if_splits)

lemma rowsOf_weight:
  assumes "scoreCompetition lc ci = Inr r" "e \<in> set (rowsOf ci (cr_epochs r) aid)"
  shows "1 \<le> ae_w e \<and> ae_w e \<le> 3 / 2"
proof -
  from assms(2) obtain x where x: "x \<in> set (cr_epochs r)" "ae_w e = er_w x"
    by (auto simp: rowsOf_def split: if_splits)
  from epoch_of_result [OF assms(1) x(1)] obtain ei where
    "scoreEpoch ei (ci_k ci) (ci_weighting ci) = Inr x" by blast
  from weightFor_range [OF scoreEpoch_record(2) [OF this]] x(2) show ?thesis by simp
qed

text \<open>
  A score lies between the agent's worst and best deviation score, and no epoch weighs more
  than one and a half times another.
\<close>

theorem scoreCompetition_between:
  assumes "scoreCompetition lc ci = Inr r" "a \<in> set (cr_agents r)" "ag_scoreRaw a = Some x"
  shows "(\<exists>e \<in> set (ag_epochs a). ae_t e \<le> x) \<and> (\<exists>e \<in> set (ag_epochs a). x \<le> ae_t e)
    \<and> (\<forall>e \<in> set (ag_epochs a). 1 \<le> ae_w e \<and> ae_w e \<le> 3 / 2)"
proof -
  let ?es = "ag_epochs a" and ?W = "\<Sum>e\<leftarrow>ag_epochs a. ae_w e"
  from agent_row_score [OF assms(1,2)] assms(3) have
    rows: "?es = rowsOf ci (cr_epochs r) (ag_id a)" and ne: "?es \<noteq> []"
    and x: "x = (\<Sum>e\<leftarrow>?es. ae_w e * ae_t e) / ?W"
    by (auto split: if_splits)
  have w: "1 \<le> ae_w e \<and> ae_w e \<le> 3 / 2" if "e \<in> set ?es" for e
    using that rowsOf_weight [OF assms(1)] rows by simp
  have pos: "0 < ?W"
  proof -
    obtain e es where es: "?es = e # es" using ne by (cases ?es) auto
    have "0 \<le> (\<Sum>e\<leftarrow>es. ae_w e)" using w es by (intro sum_list_nonneg) force
    moreover have "0 < ae_w e" using w [of e] es by simp
    ultimately show ?thesis using es by simp
  qed
  have mul: "x * ?W = (\<Sum>e\<leftarrow>?es. ae_w e * ae_t e)" using pos x by simp
  let ?lo = "Min (ae_t ` set ?es)" and ?hi = "Max (ae_t ` set ?es)"
  have "?lo * ?W \<le> x * ?W" unfolding mul
    using w by (intro Min_set_le_sum) (auto intro: order_trans [OF zero_le_one])
  then have "?lo \<le> x" using pos by simp
  moreover have "x * ?W \<le> ?hi * ?W" unfolding mul
    using w by (intro sum_le_Max_set) (auto intro: order_trans [OF zero_le_one])
  then have "x \<le> ?hi" using pos by simp
  moreover have "?lo \<in> ae_t ` set ?es" "?hi \<in> ae_t ` set ?es"
    using ne by (intro Min_in Max_in; simp)+
  ultimately show ?thesis using w by (metis (no_types, lifting) imageE)
qed

lemma field_of_result:
  assumes "scoreCompetition lc ci = Inr r"
  shows "distinct (map ag_id (cr_agents r))
    \<and> set (map ag_id (cr_agents r)) = (\<Union>e \<in> set (ci_epochs ci). set (fieldOf e))"
proof -
  let ?rows = "byAgentAll ci (cr_epochs r)"
  have "map ag_id (cr_agents r) = map ag_id (sortBy (agentLe lc) (map (agentRow ci) ?rows))"
    unfolding agents_of_result [OF assms] by (rule map_ranked) simp
  moreover have "mset (map ag_id (sortBy (agentLe lc) (map (agentRow ci) ?rows))) = mset (keys ?rows)"
    by (simp add: agentRow_fields(1) comp_def multiset.map_comp)
  ultimately have ids: "mset (map ag_id (cr_agents r)) = mset (keys ?rows)" by simp
  have of_input: "\<exists>x \<in> set (cr_epochs r). scoreEpoch e (ci_k ci) (ci_weighting ci) = Inr x \<and> inputOf ci (er_s x) = e"
    if e: "e \<in> set (ci_epochs ci)" for e
  proof -
    from assms have "list_all2 (\<lambda>e x. scoreEpoch e (ci_k ci) (ci_weighting ci) = Inr x)
      (epochOrder ci) (cr_epochs r)" and dist: "distinct (map ei_s (ci_epochs ci))"
      by (auto elim: scoreCompetitionE)
    then obtain x where x: "x \<in> set (cr_epochs r)" "scoreEpoch e (ci_k ci) (ci_weighting ci) = Inr x"
      using e by (auto simp: epochOrder_def dest!: list_all2_left)
    moreover have "inputOf ci (er_s x) = e"
      using find_by_key [OF dist e] scoreEpoch_record(1) [OF x(2)] by (simp add: inputOf_def)
    ultimately show ?thesis by blast
  qed
  have field: "fst ` set (er_tByAgent x) \<subseteq> set (fieldOf e)"
    "{aid \<in> fst ` set (ei_pnlByAgent e). aid \<notin> fst ` set (er_benchmarkPnl x)} = set (fieldOf e)"
    if "scoreEpoch e (ci_k ci) (ci_weighting ci) = Inr x" for e x
  proof -
    show "fst ` set (er_tByAgent x) \<subseteq> set (fieldOf e)"
      using scoreEpoch_counted(4) [OF that] scoreEpoch_excluded [OF that]
      by (cases "er_excluded x = None") auto
    show "{aid \<in> fst ` set (ei_pnlByAgent e). aid \<notin> fst ` set (er_benchmarkPnl x)} = set (fieldOf e)"
      using scoreEpoch_record(4) [OF that] by (auto simp: fieldOf_def)
  qed
  have "set (keys ?rows) = (\<Union>e \<in> set (ci_epochs ci). set (fieldOf e))"
  proof
    show "set (keys ?rows) \<subseteq> (\<Union>e \<in> set (ci_epochs ci). set (fieldOf e))"
    proof
      fix aid assume "aid \<in> set (keys ?rows)"
      then obtain x where x: "x \<in> set (cr_epochs r)"
        "aid \<in> fst ` set (er_tByAgent x) \<or>
         aid \<in> {aid \<in> fst ` set (ei_pnlByAgent (inputOf ci (er_s x))). aid \<notin> fst ` set (er_benchmarkPnl x)}"
        unfolding byAgentAll_spec(2) using byAgentScored_keys [of ci "cr_epochs r"] by auto
      from epoch_of_result [OF assms x(1)] obtain e where e: "e \<in> set (ci_epochs ci)"
        "scoreEpoch e (ci_k ci) (ci_weighting ci) = Inr x" "inputOf ci (er_s x) = e" by blast
      with x(2) field [OF e(2)] show "aid \<in> (\<Union>e \<in> set (ci_epochs ci). set (fieldOf e))" by auto
    qed
    show "(\<Union>e \<in> set (ci_epochs ci). set (fieldOf e)) \<subseteq> set (keys ?rows)"
    proof
      fix aid assume "aid \<in> (\<Union>e \<in> set (ci_epochs ci). set (fieldOf e))"
      then obtain e where e: "e \<in> set (ci_epochs ci)" "aid \<in> set (fieldOf e)" by auto
      from of_input [OF e(1)] obtain x where x: "x \<in> set (cr_epochs r)"
        "scoreEpoch e (ci_k ci) (ci_weighting ci) = Inr x" "inputOf ci (er_s x) = e" by blast
      from e(2) field(2) [OF x(2)] have
        "aid \<in> fst ` set (ei_pnlByAgent e)" "aid \<notin> fst ` set (er_benchmarkPnl x)" by auto
      with x show "aid \<in> set (keys ?rows)"
        unfolding byAgentAll_spec(2) by auto
    qed
  qed
  with ids byAgentAll_spec(3) show ?thesis
    by (metis mset_eq_imp_distinct_iff set_mset_mset)
qed

text \<open>
  Every agent of the field gets exactly one row, and nobody else does: the agents of some
  epoch that are not its benchmark, whether or not any of their epochs counts.
\<close>

theorem scoreCompetition_field:
  assumes "scoreCompetition lc ci = Inr r"
  shows "distinct (map ag_id (cr_agents r))
    \<and> set (map ag_id (cr_agents r)) = (\<Union>e \<in> set (ci_epochs ci). set (fieldOf e))"
  using field_of_result [OF assms] by blast

lemma scoreEpoch_ok:
  "isOk (scoreEpoch e k wt) \<longleftrightarrow> isOk (weightOf (ei_s e) k) \<and> (\<forall>(aid, v) \<in> set (ei_pnlByAgent e). isFin v)"
proof -
  have "isOk (scoreEpoch e k wt) \<longleftrightarrow>
      isOk (weightFor (ei_s e) k wt) \<and> isOk (foldR (splitStep e) ([], []) (ei_pnlByAgent e))"
    by (auto simp: scoreEpoch_def Let_def bindR_def split: sum.splits prod.splits)
  then show ?thesis
    by (simp add: split_loop_ok) (simp add: weightFor_def bindR_def isOk_def split: sum.splits)
qed

text \<open>
  A competition is refused exactly when it is malformed: an ordinal or \<open>k\<close> that is not a
  positive integer, an ordinal past \<open>k\<close>, the same ordinal twice, or a P that is not a finite
  number; nothing else stops the ranking.
\<close>

theorem scoreCompetition_accepts:
  "isOk (scoreCompetition lc ci) \<longleftrightarrow>
     distinct (map ei_s (ci_epochs ci)) \<and>
     (\<forall>e \<in> set (ci_epochs ci).
        isInteger (ei_s e) \<and> isInteger (ci_k ci) \<and> 1 \<le> ei_s e \<and> ei_s e \<le> ci_k ci
        \<and> (\<forall>(aid, v) \<in> set (ei_pnlByAgent e). isFin v))"
proof -
  have "isOk (scoreCompetition lc ci) \<longleftrightarrow> isOk (foldR (epochStep ci) ([], []) (epochOrder ci))"
    by (auto simp: scoreCompetition_def epochOrder_def bindR_def split: sum.splits)
  moreover have "isOk (weightOf s k) \<longleftrightarrow> isInteger s \<and> isInteger k \<and> 1 \<le> s \<and> s \<le> k" for s k
    by (auto simp: weightOf_def throwIf_def)
  ultimately show ?thesis
    by (auto simp: epochs_loop_ok epochOrder_def distinct_map_sortBy scoreEpoch_ok)
qed

lemma timesAgree_trans:
  assumes "timesAgree as" "a \<in> set as" "b \<in> set as" "c \<in> set as"
    "compareAgents a b \<le> 0" "compareAgents b c \<le> 0"
  shows "compareAgents a c \<le> 0"
  using assms unfolding timesAgree_def
  by (metis compareAgents_trans [of a b c True] compareAgents_trans [of a b c False])

lemma tiedAt_iff:
  assumes sorted: "sorted_wrt (\<lambda>a b. compareAgents a b \<le> 0) xs"
    and trans: "\<And>a b c. a \<in> set xs \<Longrightarrow> b \<in> set xs \<Longrightarrow> c \<in> set xs \<Longrightarrow>
      compareAgents a b \<le> 0 \<Longrightarrow> compareAgents b c \<le> 0 \<Longrightarrow> compareAgents a c \<le> 0"
    and i: "i < length xs"
  shows "tiedAt xs i \<longleftrightarrow> (\<exists>j < length xs. j \<noteq> i \<and> compareAgents (xs ! j) (xs ! i) = 0)"
proof
  assume "tiedAt xs i"
  then show "\<exists>j < length xs. j \<noteq> i \<and> compareAgents (xs ! j) (xs ! i) = 0"
    using i compareAgents_swap [of "xs ! i" "xs ! Suc i"]
    by (auto simp: tiedAt_def intro: exI [of _ "i - 1"] exI [of _ "Suc i"])
next
  assume "\<exists>j < length xs. j \<noteq> i \<and> compareAgents (xs ! j) (xs ! i) = 0"
  then obtain j where j: "j < length xs" "j \<noteq> i" "compareAgents (xs ! j) (xs ! i) = 0" by blast
  have le: "compareAgents (xs ! a) (xs ! b) \<le> 0" if "a \<le> b" "b < length xs" for a b
    using that sorted by (cases "a = b") (auto simp: sorted_wrt_iff_nth_less)
  have back_le: "compareAgents (xs ! i) (xs ! j) \<le> 0"
    using j(3) compareAgents_swap [of "xs ! j" "xs ! i"] by simp
  have eq: "compareAgents (xs ! a) (xs ! b) = 0"
    if "compareAgents (xs ! a) (xs ! b) \<le> 0" "compareAgents (xs ! b) (xs ! a) \<le> 0" for a b
    using that compareAgents_swap [of "xs ! a" "xs ! b"] by simp
  show "tiedAt xs i"
  proof (cases "j < i")
    case True
    have "compareAgents (xs ! i) (xs ! (i - 1)) \<le> 0"
      by (rule trans [of _ "xs ! j"]) (use True i j back_le le in auto)
    moreover have "compareAgents (xs ! (i - 1)) (xs ! i) \<le> 0" using le i by simp
    ultimately show ?thesis using True by (auto simp: tiedAt_def intro: eq)
  next
    case False
    then have "i < j" using j by simp
    have "compareAgents (xs ! Suc i) (xs ! i) \<le> 0"
      by (rule trans [of _ "xs ! j"]) (use \<open>i < j\<close> i j le in auto)
    moreover have "compareAgents (xs ! i) (xs ! Suc i) \<le> 0" using le \<open>i < j\<close> j by simp
    ultimately show ?thesis using \<open>i < j\<close> j(1) by (auto simp: tiedAt_def intro: eq)
  qed
qed

lemma compareAgents_ranked [simp]:
  "i < length xs \<Longrightarrow> j < length xs \<Longrightarrow>
   compareAgents (ranked xs ! i) (ranked xs ! j) = compareAgents (xs ! i) (xs ! j)"
  by simp

text \<open>
  C3. The rows come out best first. The rank of an agent is one more than the number of agents
  strictly ahead of it, so equals share a rank and the next one skips, and an agent is marked
  tied exactly when another one compares equal to it. This needs submission times known for
  all of the field or for none of it.
\<close>

theorem scoreCompetition_ranks:
  assumes "scoreCompetition lc ci = Inr r" "comparator (\<lambda>x y. lc x y \<le> 0) (\<lambda>_. True)"
    and "timesAgree (cr_agents r)" "i < length (cr_agents r)"
  shows "ag_rank (cr_agents r ! i) =
        Suc (card {j. j < length (cr_agents r) \<and> compareAgents (cr_agents r ! j) (cr_agents r ! i) < 0})
    \<and> (ag_tied (cr_agents r ! i) =
        (\<exists>j < length (cr_agents r). j \<noteq> i \<and> compareAgents (cr_agents r ! j) (cr_agents r ! i) = 0))
    \<and> (\<forall>j < i. compareAgents (cr_agents r ! j) (cr_agents r ! i) \<le> 0)"
proof -
  let ?rows = "map (agentRow ci) (byAgentAll ci (cr_epochs r))"
  let ?xs = "sortBy (agentLe lc) ?rows"
  have ag: "cr_agents r = ranked ?xs" by (rule agents_of_result [OF assms(1)])
  have times: "map ag_submittedAt (ranked ?xs) = map ag_submittedAt ?xs" by (rule map_ranked) simp
  have "timesAgree as \<longleftrightarrow> (\<forall>t \<in> set (map ag_submittedAt as). t \<noteq> None)
      \<or> (\<forall>t \<in> set (map ag_submittedAt as). t = None)" for as
    unfolding timesAgree_def by simp
  then have ta: "timesAgree ?xs" using assms(3) times unfolding ag by metis
  then have "sorted_wrt (agentLe lc) ?xs"
    by (intro sorted_by_agentLe assms(2)) (simp add: timesAgree_def)
  then have sorted: "sorted_wrt (\<lambda>a b. compareAgents a b \<le> 0) ?xs"
    by (rule sorted_wrt_mono_rel [rotated]) (simp add: agentLe_iff)
  have i: "i < length ?xs" using assms(4) ag by simp
  note spec = rankAt_count [OF sorted timesAgree_trans [OF ta] i]
    tiedAt_iff [OF sorted timesAgree_trans [OF ta] i]
  have "j < length ?xs \<and> compareAgents (ranked ?xs ! j) (ranked ?xs ! i) < 0
      \<longleftrightarrow> j < length ?xs \<and> compareAgents (?xs ! j) (?xs ! i) < 0" for j
    using i compareAgents_ranked by metis
  moreover have "(\<exists>j < length ?xs. j \<noteq> i \<and> compareAgents (ranked ?xs ! j) (ranked ?xs ! i) = 0)
      \<longleftrightarrow> (\<exists>j < length ?xs. j \<noteq> i \<and> compareAgents (?xs ! j) (?xs ! i) = 0)"
    using i compareAgents_ranked by metis
  moreover have "\<forall>j < i. compareAgents (?xs ! j) (?xs ! i) \<le> 0"
    using sorted i by (auto simp: sorted_wrt_iff_nth_less)
  then have "\<forall>j < i. compareAgents (ranked ?xs ! j) (ranked ?xs ! i) \<le> 0"
    using i compareAgents_ranked by (metis order.strict_trans)
  ultimately show ?thesis
    unfolding ag length_ranked using spec ranked_nth [OF i] by simp
qed

text \<open>
  With the submission time known for some of the field only, the comparator of the ranking
  is not an order: of three agents level on everything else, one submitted first, one later
  and one at an unknown time, each can come before the next in a cycle. The order
  \<open>Array.prototype.sort\<close> then gives depends on the order the rows came in.
\<close>

theorem agentLe_cycle:
  "\<exists>a b c. ag_score a = Some 50 \<and> ag_score b = Some 50 \<and> ag_score c = Some 50
    \<and> agentLe (\<lambda>x y. if x = y then 0 else if strLe x y then - 1 else 1) a b
    \<and> agentLe (\<lambda>x y. if x = y then 0 else if strLe x y then - 1 else 1) b c
    \<and> agentLe (\<lambda>x y. if x = y then 0 else if strLe x y then - 1 else 1) c a
    \<and> \<not> agentLe (\<lambda>x y. if x = y then 0 else if strLe x y then - 1 else 1) a c"
proof -
  let ?row = "\<lambda>i t. \<lparr>ag_id = i, ag_scoreRaw = Some 50, ag_score = Some 50, ag_epochs = [],
      ag_tStd = Some 10, ag_worstT = Some 40, ag_submittedAt = t, ag_rank = 0, ag_tied = False\<rparr>"
  show ?thesis
    by (rule exI [of _ "?row ''b'' (Some 2)"], rule exI [of _ "?row ''c'' None"],
        rule exI [of _ "?row ''d'' (Some 1)"])
      (simp add: agentLe_def compareAgents_def cmpSign_def)
qed

section \<open>Witnesses\<close>

definition league :: competitionInput where
  "league = \<lparr>ci_epochs = [duel, duel\<lparr>ei_s := 1\<rparr>], ci_k = 3, ci_submittedAt = [(''a'', 5), (''b'', 4)],
     ci_weighting = Linear\<rparr>"

definition leagueResult :: competitionResult where
  "leagueResult = \<lparr>cr_k = 3, cr_epochs = [duelResult\<lparr>er_s := 1, er_w := 1\<rparr>, duelResult], cr_S = [1, 2],
     cr_agents =
       [\<lparr>ag_id = ''a'', ag_scoreRaw = Some 60, ag_score = Some 60,
         ag_epochs = [\<lparr>ae_s = 1, ae_pnl = 10, ae_t = 60, ae_w = 1\<rparr>, \<lparr>ae_s = 2, ae_pnl = 10, ae_t = 60, ae_w = 5 / 4\<rparr>],
         ag_tStd = Some 0, ag_worstT = Some 60, ag_submittedAt = Some 5, ag_rank = 1, ag_tied = False\<rparr>,
        \<lparr>ag_id = ''b'', ag_scoreRaw = Some 40, ag_score = Some 40,
         ag_epochs = [\<lparr>ae_s = 1, ae_pnl = - 10, ae_t = 40, ae_w = 1\<rparr>, \<lparr>ae_s = 2, ae_pnl = - 10, ae_t = 40, ae_w = 5 / 4\<rparr>],
         ag_tStd = Some 0, ag_worstT = Some 40, ag_submittedAt = Some 4, ag_rank = 2, ag_tied = False\<rparr>]\<rparr>"

abbreviation codeUnits :: "string \<Rightarrow> string \<Rightarrow> int" where
  "codeUnits x y \<equiv> (if x = y then 0 else if strLe x y then - 1 else 1)"

lemma codeUnits_comparator: "comparator (\<lambda>x y. codeUnits x y \<le> 0) (\<lambda>_. True)"
proof -
  have "(\<lambda>x y. codeUnits x y \<le> 0) = strLe" by (auto simp: fun_eq_iff)
  then show ?thesis using str_order.comparator_axioms by simp
qed

lemma duel_first: "scoreEpoch (duel\<lparr>ei_s := 1\<rparr>) 3 Linear = Inr (duelResult\<lparr>er_s := 1, er_w := 1\<rparr>)"
proof -
  have "sqrt 100 = 10" by (rule real_sqrt_unique) auto
  then show ?thesis
    by (simp add: scoreEpoch_def duel_def duelResult_def weightFor_def weightOf_def
        splitStep_def pnlOf_def mean_def populationStd_def Let_def)
qed

lemma league_rows:
  "byAgentAll league [duelResult\<lparr>er_s := 1, er_w := 1\<rparr>, duelResult] =
     [(''a'', ag_epochs (cr_agents leagueResult ! 0)), (''b'', ag_epochs (cr_agents leagueResult ! 1))]"
  by (simp add: byAgentAll_def byAgentScored_def pushEpoch_def league_def leagueResult_def duel_def
      duelResult_def inputOf_def pnlOf_def getOr_def)

lemma league_scored: "scoreCompetition codeUnits league = Inr leagueResult"
proof -
  have order: "sortBy (\<lambda>a b. ei_s a \<le> ei_s b) (ci_epochs league) = [duel\<lparr>ei_s := 1\<rparr>, duel]"
    by (simp add: league_def duel_def)
  have ords: "ei_s duel = 2" "ci_k league = 3" "ci_weighting league = Linear"
    by (simp_all add: duel_def league_def)
  have loop: "foldR (epochStep league) ([], []) [duel\<lparr>ei_s := 1\<rparr>, duel] =
      Inr ([2, 1], [duelResult\<lparr>er_s := 1, er_w := 1\<rparr>, duelResult])"
    by (simp add: epochStep_eq duel_first duel_scored ords)
  show ?thesis
    unfolding scoreCompetition_def order loop bindR_simps prod.case league_rows
    by (simp add: leagueResult_def agentRow_def league_def duelResult_def Let_def agentLe_def
        compareAgents_def cmpSign_def round2_def mathRound_def floor_eq_iff mean_def populationStd_def)
qed

theorem scoreCompetition_score_witness:
  "ag_scoreRaw (cr_agents leagueResult ! 0) = Some ((60 + 5 / 4 * 60) / (1 + 5 / 4))"
  using scoreCompetition_score [OF league_scored, of "cr_agents leagueResult ! 0"]
  by (simp add: leagueResult_def)

theorem scoreCompetition_between_witness:
  "\<exists>e \<in> set (ag_epochs (cr_agents leagueResult ! 1)). ae_t e \<le> 40"
  using scoreCompetition_between [OF league_scored, of "cr_agents leagueResult ! 1" 40]
  by (simp add: leagueResult_def)

theorem scoreCompetition_field_witness:
  "(\<Union>e \<in> set (ci_epochs league). set (fieldOf e)) = {''a'', ''b''}"
  using scoreCompetition_field [OF league_scored] by (simp add: leagueResult_def)

theorem scoreCompetition_accepts_witness: "isOk (scoreCompetition codeUnits league)"
  using scoreCompetition_accepts [of codeUnits league]
  by (simp add: league_def duel_def isInteger_def)

theorem scoreCompetition_ranks_witness:
  "card {j. j < length (cr_agents leagueResult) \<and>
     compareAgents (cr_agents leagueResult ! j) (cr_agents leagueResult ! 1) < 0} = 1"
  using scoreCompetition_ranks [OF league_scored codeUnits_comparator, of 1]
  by (simp add: leagueResult_def timesAgree_def)

end
