(* ===== verification/Lp_Ownership.thy ===== *)
theory Lp_Ownership
  imports Prelude "HOL-Library.Product_Lexorder"
begin

text \<open>
  Which of an agent's position NFTs count as its own (\<open>sdk/src/protocols/uniswapLpOwnership.ts\<close>):
  the ledger over the position manager's Transfer logs, its pruning, its checkpoint, and the
  tracker that feeds it from the chain in chunks.

  The code shares each \<open>Holding\<close> object between an account's list and the index of the open
  holdings, and closes it through the index. An object is its identity (a number) and its
  contents; the lists hold objects, the index holds identities, and closing one changes the
  contents wherever that identity is listed. A token id is an \<open>int\<close>: the code keeps its decimal
  string, which is in bijection with it. The position manager's own behaviour (a token has one
  owner, who is the \<open>from\<close> of its next transfer) is the hypothesis \<open>erc721\<close>.
\<close>

section \<open>The ledger\<close>

definition LP_POSITIONS_LIMIT :: nat where "LP_POSITIONS_LIMIT = 128"

definition LP_OWN_TRACK_LIMIT :: int where "LP_OWN_TRACK_LIMIT = 8 * int LP_POSITIONS_LIMIT"

record LpTransfer =
  ltFrom :: string
  ltTo :: string
  ltTokenId :: int
  ltBlock :: int
  ltLogIndex :: int
  ltTxFrom :: "string option"

record holding =
  hTokenId :: int
  hFrom :: "int option"
  hUntil :: "int option"

type_synonym object = "nat \<times> holding"

text \<open>The lists hold objects in the running ledger and plain holdings in its checkpoint.\<close>

record 'h accountState =
  asOwn :: "'h list"
  asSeeded :: "'h list"
  asOverflow :: "(int \<times> int) list"
  asBase :: int

record ledger =
  lgState :: "(string \<times> object accountState) list"
  lgOpen :: "string \<Rightarrow> int \<Rightarrow> nat option"
  lgOpenOwn :: "string \<Rightarrow> int option"
  lgNext :: nat

record LpHeldAt =
  haTokenIds :: "int list"
  haOwn :: nat
  haSeeded :: nat
  haOverflow :: int

definition held :: "holding \<Rightarrow> int \<Rightarrow> bool" where
  "held h block \<longleftrightarrow>
    (case hFrom h of None \<Rightarrow> True | Some b \<Rightarrow> b \<le> block) \<and>
    (case hUntil h of None \<Rightarrow> True | Some b \<Rightarrow> b > block)"

definition emptyAccount :: "'h accountState" where
  "emptyAccount = \<lparr>asOwn = [], asSeeded = [], asOverflow = [], asBase = 0\<rparr>"

definition trackAccount :: "string \<Rightarrow> ledger \<Rightarrow> ledger" where
  "trackAccount account L = (let k = toLower account in
    if k \<in> set (keys (lgState L)) then L
    else L\<lparr>lgState := AList.update k emptyAccount (lgState L)\<rparr>)"

definition tracks :: "ledger \<Rightarrow> string \<Rightarrow> bool" where
  "tracks L account \<longleftrightarrow> toLower account \<in> set (keys (lgState L))"

definition emptyLedger :: ledger where
  "emptyLedger = \<lparr>lgState = [], lgOpen = (\<lambda>_ _. None), lgOpenOwn = (\<lambda>_. None), lgNext = 0\<rparr>"

definition newLedger :: "string list \<Rightarrow> ledger" where
  "newLedger accounts = foldl (\<lambda>L a. trackAccount a L) emptyLedger accounts"

text \<open>The account's state, which every caller below has checked to be there.\<close>

definition stateOf :: "ledger \<Rightarrow> string \<Rightarrow> object accountState" where
  "stateOf L k = getOr emptyAccount (lgState L) k"

definition putState :: "string \<Rightarrow> object accountState \<Rightarrow> ledger \<Rightarrow> ledger" where
  "putState k s L = L\<lparr>lgState := AList.update k s (lgState L)\<rparr>"

text \<open>\<open>seed\<close>: the seeded holdings leave the index, and the list is made anew.\<close>

definition unindexOpen :: "object list \<Rightarrow> (int \<Rightarrow> nat option) \<Rightarrow> int \<Rightarrow> nat option" where
  "unindexOpen hs m = foldl (\<lambda>m (r, h). if hUntil h = None then m(hTokenId h := None) else m) m hs"

definition seedOne ::
  "object list \<times> (int \<Rightarrow> nat option) \<times> nat \<Rightarrow> int \<Rightarrow> object list \<times> (int \<Rightarrow> nat option) \<times> nat" where
  "seedOne a tokenId = (case a of (hs, m, n) \<Rightarrow>
    if m tokenId \<noteq> None then (hs, m, n)
    else (hs @ [(n, \<lparr>hTokenId = tokenId, hFrom = None, hUntil = None\<rparr>)], m(tokenId \<mapsto> n), Suc n))"

definition seed :: "string \<Rightarrow> int list \<Rightarrow> ledger \<Rightarrow> ledger" where
  "seed account tokenIds L0 = (let
      L = trackAccount account L0;
      k = toLower account;
      s = stateOf L k;
      (hs, m, n) = foldl seedOne ([], unindexOpen (asSeeded s) (lgOpen L k), lgNext L)
        (List.take LP_POSITIONS_LIMIT tokenIds)
    in (putState k (s\<lparr>asSeeded := hs\<rparr>) L)\<lparr>lgOpen := (lgOpen L)(k := m), lgNext := n\<rparr>)"

section \<open>Transfers\<close>

definition overflowNow :: "'h accountState \<Rightarrow> int" where
  "overflowNow s = foldl (\<lambda>n (_, d). n + d) (asBase s) (asOverflow s)"

definition closeObject :: "nat \<Rightarrow> int \<Rightarrow> object list \<Rightarrow> object list" where
  "closeObject r block = map (\<lambda>(i, h). if i = r then (i, h\<lparr>hUntil := Some block\<rparr>) else (i, h))"

definition isOwnObject :: "nat \<Rightarrow> object accountState \<Rightarrow> bool" where
  "isOwnObject r s = (case map_of (asOwn s @ asSeeded s) r of
     None \<Rightarrow> False | Some h \<Rightarrow> hFrom h \<noteq> None)"

definition release :: "string \<Rightarrow> int \<Rightarrow> int \<Rightarrow> ledger \<Rightarrow> ledger" where
  "release account tokenId block L = (let s = stateOf L account in
    case lgOpen L account tokenId of
      Some r \<Rightarrow>
        (putState account (s\<lparr>asOwn := closeObject r block (asOwn s),
                             asSeeded := closeObject r block (asSeeded s)\<rparr>) L)
          \<lparr>lgOpen := (lgOpen L)(account := (lgOpen L account)(tokenId := None)),
           lgOpenOwn := (if isOwnObject r s
             then (lgOpenOwn L)(account \<mapsto>
               (case lgOpenOwn L account of None \<Rightarrow> 1 | Some c \<Rightarrow> c) - 1)
             else lgOpenOwn L)\<rparr>
    | None \<Rightarrow>
        if overflowNow s > 0
        then putState account (s\<lparr>asOverflow := asOverflow s @ [(block, -1)]\<rparr>) L
        else L)"

definition acquire :: "string \<Rightarrow> int \<Rightarrow> int \<Rightarrow> ledger \<Rightarrow> ledger" where
  "acquire account tokenId block L = (let
      s = stateOf L account;
      tracked = (case lgOpenOwn L account of None \<Rightarrow> 0 | Some c \<Rightarrow> c)
    in if tracked < LP_OWN_TRACK_LIMIT
       then (putState account (s\<lparr>asOwn := asOwn s @
               [(lgNext L, \<lparr>hTokenId = tokenId, hFrom = Some block, hUntil = None\<rparr>)]\<rparr>) L)
            \<lparr>lgOpen := (lgOpen L)(account := (lgOpen L account)(tokenId \<mapsto> lgNext L)),
             lgOpenOwn := (lgOpenOwn L)(account \<mapsto> tracked + 1),
             lgNext := Suc (lgNext L)\<rparr>
       else putState account (s\<lparr>asOverflow := asOverflow s @ [(block, 1)]\<rparr>) L)"

text \<open>An arrival in a transaction the recipient sent.\<close>

definition ownArrival :: "string \<Rightarrow> LpTransfer \<Rightarrow> bool" where
  "ownArrival k t \<longleftrightarrow> toLower (ltTo t) = k \<and>
    (case ltTxFrom t of None \<Rightarrow> False | Some a \<Rightarrow> toLower a = k)"

definition ingestOne :: "ledger \<Rightarrow> LpTransfer \<Rightarrow> ledger" where
  "ingestOne L t = (let
      from1 = toLower (ltFrom t);
      L1 = (if from1 \<in> set (keys (lgState L))
            then release from1 (ltTokenId t) (ltBlock t) L else L);
      to1 = toLower (ltTo t)
    in if to1 \<in> set (keys (lgState L1)) \<and> ownArrival to1 t
       then acquire to1 (ltTokenId t) (ltBlock t) L1 else L1)"

abbreviation position :: "LpTransfer \<Rightarrow> int \<times> int" where
  "position t \<equiv> (ltBlock t, ltLogIndex t)"

definition ingest :: "ledger \<Rightarrow> LpTransfer list \<Rightarrow> ledger" where
  "ingest L transfers = foldl ingestOne L (sort_key position transfers)"

section \<open>Questions, pruning and the checkpoint\<close>

definition heldAt :: "ledger \<Rightarrow> string \<Rightarrow> int \<Rightarrow> LpHeldAt option" where
  "heldAt L account block = (case map_of (lgState L) (toLower account) of
     None \<Rightarrow> None
   | Some s \<Rightarrow> (let
       own = filter (\<lambda>(_, h). held h block) (asOwn s);
       seeded = filter (\<lambda>(_, h). held h block) (asSeeded s);
       ownOverflow = asBase s +
         foldl (\<lambda>n (b, d). if b \<le> block then n + d else n) 0 (asOverflow s)
     in Some \<lparr>
       haTokenIds = map (\<lambda>(_, h). hTokenId h) (List.take LP_POSITIONS_LIMIT (own @ seeded)),
       haOwn = length own,
       haSeeded = length seeded,
       haOverflow = max 0 ownOverflow\<rparr>))"

definition keepsHolding :: "int \<Rightarrow> holding \<Rightarrow> bool" where
  "keepsHolding block h \<longleftrightarrow> (case hUntil h of None \<Rightarrow> True | Some b \<Rightarrow> b > block)"

definition pruneAccount :: "int \<Rightarrow> object accountState \<Rightarrow> object accountState" where
  "pruneAccount block s = (let
      (base, kept) = foldl (\<lambda>(base, kept) (b, d).
        if b \<le> block then (base + d, kept) else (base, kept @ [(b, d)]))
        (asBase s, []) (asOverflow s)
    in s\<lparr>asOwn := filter (\<lambda>(_, h). keepsHolding block h) (asOwn s),
         asSeeded := filter (\<lambda>(_, h). keepsHolding block h) (asSeeded s),
         asOverflow := kept, asBase := base\<rparr>)"

definition prune :: "int \<Rightarrow> ledger \<Rightarrow> ledger" where
  "prune block L = L\<lparr>lgState := map (\<lambda>(k, s). (k, pruneAccount block s)) (lgState L)\<rparr>"

definition savedAccount :: "object accountState \<Rightarrow> holding accountState" where
  "savedAccount s = \<lparr>asOwn = map snd (asOwn s), asSeeded = map snd (asSeeded s),
     asOverflow = asOverflow s, asBase = asBase s\<rparr>"

definition snapshot :: "ledger \<Rightarrow> (string \<times> holding accountState) list" where
  "snapshot L = map (\<lambda>(k, s). (k, savedAccount s)) (lgState L)"

text \<open>The copies a restore makes are new objects, numbered in the order they are made.\<close>

definition alloc :: "nat \<Rightarrow> holding list \<Rightarrow> object list" where
  "alloc n hs = zip [n..<n + length hs] hs"

definition indexOpen :: "object list \<Rightarrow> (int \<Rightarrow> nat option) \<Rightarrow> int \<Rightarrow> nat option" where
  "indexOpen hs m = foldl (\<lambda>m (r, h). if hUntil h = None then m(hTokenId h \<mapsto> r) else m) m hs"

definition openCount :: "object list \<Rightarrow> int" where
  "openCount hs = int (length (filter (\<lambda>(r, h). hUntil h = None) hs))"

definition restoreOne :: "ledger \<Rightarrow> string \<times> holding accountState \<Rightarrow> ledger" where
  "restoreOne L e = (case e of (key, s) \<Rightarrow> let
      k = toLower key;
      own = alloc (lgNext L) (asOwn s);
      seeded = alloc (lgNext L + length (asOwn s)) (asSeeded s);
      restored = \<lparr>asOwn = own, asSeeded = seeded, asOverflow = asOverflow s, asBase = asBase s\<rparr>
    in (putState k restored L)
       \<lparr>lgOpen := (lgOpen L)(k := indexOpen (own @ seeded) (lgOpen L k)),
        lgOpenOwn := (lgOpenOwn L)(k \<mapsto> openCount own),
        lgNext := lgNext L + length (asOwn s) + length (asSeeded s)\<rparr>)"

definition restore :: "(string \<times> holding accountState) list \<Rightarrow> ledger" where
  "restore accounts = foldl restoreOne emptyLedger accounts"

section \<open>The invariant of the ledger\<close>

abbreviation entries :: "'h accountState \<Rightarrow> 'h list" where
  "entries s \<equiv> asOwn s @ asSeeded s"

text \<open>
  Whatever logs are fed: the objects of an account are distinct, the index only holds open
  holdings of that account under their own token id, and the counter of open own holdings is
  exact.
\<close>

definition accountInv ::
  "nat \<Rightarrow> object accountState \<Rightarrow> (int \<Rightarrow> nat option) \<Rightarrow> int option \<Rightarrow> bool" where
  "accountInv n s m oo \<longleftrightarrow>
    distinct (keys (entries s)) \<and> (\<forall>r \<in> set (keys (entries s)). r < n) \<and>
    (\<forall>(r, h) \<in> set (asOwn s). hFrom h \<noteq> None) \<and> (\<forall>(r, h) \<in> set (asSeeded s). hFrom h = None) \<and>
    (\<forall>tid r. m tid = Some r \<longrightarrow>
      (\<exists>h. (r, h) \<in> set (entries s) \<and> hTokenId h = tid \<and> hUntil h = None)) \<and>
    (case oo of None \<Rightarrow> 0 | Some c \<Rightarrow> c) = openCount (asOwn s)"

definition ledgerInv :: "ledger \<Rightarrow> bool" where
  "ledgerInv L \<longleftrightarrow> distinct (keys (lgState L)) \<and> (\<forall>k \<in> set (keys (lgState L)). toLower k = k) \<and>
    (\<forall>k. accountInv (lgNext L) (stateOf L k) (lgOpen L k) (lgOpenOwn L k))"

text \<open>When no token is held twice at once, the index is complete too.\<close>

definition indexed :: "object accountState \<Rightarrow> (int \<Rightarrow> nat option) \<Rightarrow> bool" where
  "indexed s m \<longleftrightarrow> (\<forall>(r, h) \<in> set (entries s). hUntil h = None \<longrightarrow> m (hTokenId h) = Some r)"

lemma accountInvD:
  assumes "accountInv n s m oo"
  shows "distinct (keys (entries s))" "\<And>r. r \<in> set (keys (entries s)) \<Longrightarrow> r < n"
    "\<And>r h. (r, h) \<in> set (asOwn s) \<Longrightarrow> hFrom h \<noteq> None"
    "\<And>r h. (r, h) \<in> set (asSeeded s) \<Longrightarrow> hFrom h = None"
    "\<And>tid r. m tid = Some r \<Longrightarrow>
      \<exists>h. (r, h) \<in> set (entries s) \<and> hTokenId h = tid \<and> hUntil h = None"
    "(case oo of None \<Rightarrow> 0 | Some c \<Rightarrow> c) = openCount (asOwn s)"
  using assms unfolding accountInv_def by (blast | fast | simp)+

lemma accountInv_mono: "accountInv n s m oo \<Longrightarrow> n \<le> n' \<Longrightarrow> accountInv n' s m oo"
  unfolding accountInv_def by (auto dest: order.strict_trans2)

lemma keys_closeObject [simp]: "keys (closeObject r b hs) = keys hs"
  by (induction hs) (auto simp: closeObject_def)

lemma closeObject_absent: "r \<notin> set (keys hs) \<Longrightarrow> closeObject r b hs = hs"
  by (induction hs) (auto simp: closeObject_def)

lemma closeObject_simps [simp]:
  "closeObject r b [] = []"
  "closeObject r b ((i, h) # hs) = (if i = r then (i, h\<lparr>hUntil := Some b\<rparr>) else (i, h)) # closeObject r b hs"
  "closeObject r b (xs @ ys) = closeObject r b xs @ closeObject r b ys"
  by (simp_all add: closeObject_def)

lemma openCount_simps [simp]:
  "openCount [] = 0"
  "openCount ((r, h) # hs) = (if hUntil h = None then 1 else 0) + openCount hs"
  "openCount (xs @ ys) = openCount xs + openCount ys"
  by (simp_all add: openCount_def)

lemma openCount_close:
  assumes "distinct (keys hs)" "(r, h) \<in> set hs" "hUntil h = None"
  shows "openCount (closeObject r b hs) = openCount hs - 1"
  using assms
proof (induction hs)
  case (Cons e hs)
  obtain i g where e: "e = (i, g)" by fastforce
  show ?case
  proof (cases "i = r")
    case True
    with Cons.prems e have "g = h" "r \<notin> set (keys hs)" by (force simp: image_iff)+
    then show ?thesis using True e Cons.prems(3) by (simp add: closeObject_absent)
  next
    case False
    with Cons e show ?thesis by auto
  qed
qed simp

lemma openCount_nonneg: "openCount hs \<ge> 0"
  by (simp add: openCount_def)

lemma openCount_pos: "(r, h) \<in> set hs \<Longrightarrow> hUntil h = None \<Longrightarrow> openCount hs \<ge> 1"
  by (induction hs) (auto intro: order_trans [OF _ add_left_mono] simp: openCount_nonneg)

lemma mem_closeObject:
  "(i, g) \<in> set (closeObject r b hs) \<longleftrightarrow>
    (if i = r then \<exists>h. (r, h) \<in> set hs \<and> g = h\<lparr>hUntil := Some b\<rparr> else (i, g) \<in> set hs)"
  by (induction hs) (auto split: if_splits)

lemma stateOf_put [simp]: "stateOf (putState k s L) j = (if j = k then s else stateOf L j)"
  by (simp add: stateOf_def putState_def getOr_def)

lemma stateOf_upds [simp]:
  "stateOf (L\<lparr>lgOpen := o1\<rparr>) j = stateOf L j" "stateOf (L\<lparr>lgOpenOwn := o2\<rparr>) j = stateOf L j"
  "stateOf (L\<lparr>lgNext := n\<rparr>) j = stateOf L j"
  by (simp_all add: stateOf_def)

lemma putState_fields [simp]:
  "lgOpen (putState k s L) = lgOpen L" "lgOpenOwn (putState k s L) = lgOpenOwn L"
  "lgNext (putState k s L) = lgNext L"
  "lgState (putState k s L) = AList.update k s (lgState L)"
  by (simp_all add: putState_def)

lemma isOwnObject_iff:
  assumes "accountInv n s m oo" "(r, h) \<in> set (entries s)"
  shows "isOwnObject r s \<longleftrightarrow> hFrom h \<noteq> None"
    and "isOwnObject r s \<longleftrightarrow> (r, h) \<in> set (asOwn s)"
proof -
  have m: "map_of (entries s) r = Some h"
    using assms accountInvD(1) by (simp add: map_of_eq_Some_iff_mem del: map_append map_of_append)
  then show a: "isOwnObject r s \<longleftrightarrow> hFrom h \<noteq> None"
    by (simp add: isOwnObject_def del: map_of_append)
  show "isOwnObject r s \<longleftrightarrow> (r, h) \<in> set (asOwn s)"
    unfolding a using assms(2) accountInvD(3,4) [OF assms(1)] by auto
qed

text \<open>What releasing and acquiring do to the account itself, and that they leave the others alone.\<close>

lemma release_other:
  assumes "j \<noteq> k"
  shows "stateOf (release k tid b L) j = stateOf L j" "lgOpen (release k tid b L) j = lgOpen L j"
    "lgOpenOwn (release k tid b L) j = lgOpenOwn L j"
  using assms by (auto simp: release_def Let_def split: option.splits)

lemma acquire_other:
  assumes "j \<noteq> k"
  shows "stateOf (acquire k tid b L) j = stateOf L j" "lgOpen (acquire k tid b L) j = lgOpen L j"
    "lgOpenOwn (acquire k tid b L) j = lgOpenOwn L j"
  using assms by (auto simp: acquire_def Let_def)

lemma release_next [simp]: "lgNext (release k tid b L) = lgNext L"
  by (auto simp: release_def Let_def split: option.splits)

lemma acquire_next: "lgNext L \<le> lgNext (acquire k tid b L)"
  by (auto simp: acquire_def Let_def)

lemma keys_release [simp]:
  "k \<in> set (keys (lgState L)) \<Longrightarrow> keys (lgState (release k tid b L)) = keys (lgState L)"
  by (auto simp: release_def Let_def keys_upd split: option.splits)

lemma keys_acquire [simp]:
  "k \<in> set (keys (lgState L)) \<Longrightarrow> keys (lgState (acquire k tid b L)) = keys (lgState L)"
  by (auto simp: acquire_def Let_def keys_upd)

lemma image_keys_release [simp]:
  "k \<in> fst ` set (lgState L) \<Longrightarrow> fst ` set (lgState (release k tid b L)) = fst ` set (lgState L)"
  using keys_release [of k L tid b] by (metis list.set_map)

lemma accountInv_close:
  assumes inv: "accountInv n s m oo" and r: "m tid = Some r"
  shows "accountInv n
    (s\<lparr>asOwn := closeObject r b (asOwn s), asSeeded := closeObject r b (asSeeded s)\<rparr>)
    (m(tid := None))
    (if isOwnObject r s then Some ((case oo of None \<Rightarrow> 1 | Some c \<Rightarrow> c) - 1) else oo)"
proof -
  note d = accountInvD [OF inv]
  obtain h where h: "(r, h) \<in> set (entries s)" "hTokenId h = tid" "hUntil h = None"
    using d(5) [OF r] by blast
  have other: "r' \<noteq> r" if "m t' = Some r'" "t' \<noteq> tid" for t' r'
  proof
    assume "r' = r"
    with d(5) [OF that(1)] obtain g where "(r, g) \<in> set (entries s)" "hTokenId g = t'" by blast
    with h d(1) that(2) show False by (metis map_of_is_SomeI option.inject)
  qed
  have count: "(case (if isOwnObject r s then Some ((case oo of None \<Rightarrow> 1 | Some c \<Rightarrow> c) - 1) else oo)
      of None \<Rightarrow> 0 | Some c \<Rightarrow> c) = openCount (closeObject r b (asOwn s))"
  proof (cases "isOwnObject r s")
    case True
    then have own: "(r, h) \<in> set (asOwn s)" using isOwnObject_iff(2) [OF inv h(1)] by simp
    then have "openCount (asOwn s) \<ge> 1" using h(3) by (rule openCount_pos)
    then have "oo \<noteq> None" using d(6) by (cases oo) auto
    then show ?thesis using True d(6) d(1) own h(3) by (auto simp: openCount_close)
  next
    case False
    then have "(r, h) \<in> set (asSeeded s)"
      using isOwnObject_iff(2) [OF inv h(1)] h(1) by simp
    then have "r \<in> set (keys (asSeeded s))" by force
    then have "r \<notin> set (keys (asOwn s))" using d(1) by auto
    then show ?thesis using False d(6) by (simp add: closeObject_absent)
  qed
  have idx: "\<exists>g. (r', g) \<in> set (closeObject r b (entries s)) \<and> hTokenId g = t' \<and> hUntil g = None"
    if "(m(tid := None)) t' = Some r'" for t' r'
    using d(5) [of t' r'] other [of t' r'] that
    by (auto simp del: closeObject_simps simp: mem_closeObject split: if_splits)
  have own: "\<forall>(i, g) \<in> set (closeObject r b (asOwn s)). hFrom g \<noteq> None"
    using d(3) by (auto simp: mem_closeObject split: if_splits)
  have seeded: "\<forall>(i, g) \<in> set (closeObject r b (asSeeded s)). hFrom g = None"
    using d(4) by (auto simp: mem_closeObject split: if_splits)
  show ?thesis
    unfolding accountInv_def using d(1,2) own seeded idx count by simp
qed

lemma accountInv_open:
  assumes inv: "accountInv n s m oo"
  shows "accountInv (Suc n)
    (s\<lparr>asOwn := asOwn s @ [(n, \<lparr>hTokenId = tid, hFrom = Some b, hUntil = None\<rparr>)]\<rparr>)
    (m(tid \<mapsto> n)) (Some ((case oo of None \<Rightarrow> 0 | Some c \<Rightarrow> c) + 1))"
proof -
  note d = accountInvD [OF inv]
  have fresh: "n \<notin> set (keys (entries s))" using d(2) by blast
  have idx: "\<exists>g. (r', g) \<in> set (asOwn s @ [(n, \<lparr>hTokenId = tid, hFrom = Some b, hUntil = None\<rparr>)] @ asSeeded s)
      \<and> hTokenId g = t' \<and> hUntil g = None" if "(m(tid \<mapsto> n)) t' = Some r'" for t' r'
    using d(5) [of t' r'] that by (auto split: if_splits)
  have lt: "\<forall>r \<in> set (keys (entries s)). r < Suc n" using d(2) less_SucI by blast
  show ?thesis
    unfolding accountInv_def
    using d(1,3,4,6) lt idx fresh by auto
qed

lemma accountInv_overflow:
  "accountInv n s m oo \<Longrightarrow> accountInv n (s\<lparr>asOverflow := xs\<rparr>) m oo"
  by (simp add: accountInv_def)

lemma ledgerInvD:
  assumes "ledgerInv L"
  shows "distinct (keys (lgState L))" "\<And>k. k \<in> set (keys (lgState L)) \<Longrightarrow> toLower k = k"
    "\<And>k. accountInv (lgNext L) (stateOf L k) (lgOpen L k) (lgOpenOwn L k)"
  using assms by (auto simp: ledgerInv_def)

lemma release_inv:
  assumes inv: "ledgerInv L" and k: "k \<in> set (keys (lgState L))"
  shows "ledgerInv (release k tid b L)"
  unfolding ledgerInv_def
proof (intro conjI allI)
  show "distinct (keys (lgState (release k tid b L)))" using inv k by (simp add: ledgerInv_def)
  show "\<forall>j \<in> set (keys (lgState (release k tid b L))). toLower j = j"
    using inv k by (simp add: ledgerInv_def)
  fix j
  show "accountInv (lgNext (release k tid b L)) (stateOf (release k tid b L) j)
      (lgOpen (release k tid b L) j) (lgOpenOwn (release k tid b L) j)"
  proof (cases "j = k")
    case False
    then show ?thesis using ledgerInvD(3) [OF inv] by (simp add: release_other)
  next
    case True
    note a = ledgerInvD(3) [OF inv, of k]
    show ?thesis
    proof (cases "lgOpen L k tid")
      case None
      then show ?thesis using True a by (simp add: release_def Let_def accountInv_overflow)
    next
      case (Some r)
      show ?thesis
        using accountInv_close [where m = "lgOpen L k", OF a Some, of b] True Some
        by (auto simp: release_def Let_def split: if_splits)
    qed
  qed
qed

lemma acquire_inv:
  assumes inv: "ledgerInv L" and k: "k \<in> set (keys (lgState L))"
  shows "ledgerInv (acquire k tid b L)"
  unfolding ledgerInv_def
proof (intro conjI allI)
  show "distinct (keys (lgState (acquire k tid b L)))" using inv k by (simp add: ledgerInv_def)
  show "\<forall>j \<in> set (keys (lgState (acquire k tid b L))). toLower j = j"
    using inv k by (simp add: ledgerInv_def)
  fix j
  show "accountInv (lgNext (acquire k tid b L)) (stateOf (acquire k tid b L) j)
      (lgOpen (acquire k tid b L) j) (lgOpenOwn (acquire k tid b L) j)"
  proof (cases "j = k")
    case False
    then show ?thesis
      using accountInv_mono [OF ledgerInvD(3) [OF inv] acquire_next] by (simp add: acquire_other)
  next
    case True
    note a = ledgerInvD(3) [OF inv, of k]
    show ?thesis
      using True accountInv_open [OF a] accountInv_overflow [OF a]
      by (auto simp: acquire_def Let_def)
  qed
qed

lemma ingestOne_inv: "ledgerInv L \<Longrightarrow> ledgerInv (ingestOne L t)"
  by (auto simp: ingestOne_def Let_def release_inv acquire_inv)

lemma ingestOne_keys [simp]: "keys (lgState (ingestOne L t)) = keys (lgState L)"
  by (auto simp: ingestOne_def Let_def)

lemma ingest_foldl_inv: "ledgerInv L \<Longrightarrow> ledgerInv (foldl ingestOne L ts)"
  by (induction ts arbitrary: L) (auto intro: ingestOne_inv)

lemma ingest_foldl_keys [simp]: "keys (lgState (foldl ingestOne L ts)) = keys (lgState L)"
  by (induction ts arbitrary: L) auto

lemma ingest_inv: "ledgerInv L \<Longrightarrow> ledgerInv (ingest L ts)"
  by (simp add: ingest_def ingest_foldl_inv)

lemma ingest_keys [simp]: "keys (lgState (ingest L ts)) = keys (lgState L)"
  by (simp add: ingest_def)

section \<open>What an account is promised\<close>

text \<open>
  The account as its checkpoint has it, and what one transfer does to that: no objects, no index
  and no counter. A departure closes the open holding of the token; failing that it takes one off
  the counted overflow. An arrival in the account's own transaction opens a holding, or is counted
  past the limit.
\<close>

definition openAs :: "int \<Rightarrow> holding \<Rightarrow> bool" where
  "openAs tid h \<longleftrightarrow> hTokenId h = tid \<and> hUntil h = None"

definition closeOpen :: "int \<Rightarrow> int \<Rightarrow> holding list \<Rightarrow> holding list" where
  "closeOpen tid b = map (\<lambda>h. if openAs tid h then h\<lparr>hUntil := Some b\<rparr> else h)"

definition departs :: "int \<Rightarrow> int \<Rightarrow> holding accountState \<Rightarrow> holding accountState" where
  "departs tid b s =
    (if list_ex (openAs tid) (entries s)
     then s\<lparr>asOwn := closeOpen tid b (asOwn s), asSeeded := closeOpen tid b (asSeeded s)\<rparr>
     else if overflowNow s > 0 then s\<lparr>asOverflow := asOverflow s @ [(b, -1)]\<rparr> else s)"

definition arrives :: "int \<Rightarrow> int \<Rightarrow> holding accountState \<Rightarrow> holding accountState" where
  "arrives tid b s =
    (if int (length (filter (\<lambda>h. hUntil h = None) (asOwn s))) < LP_OWN_TRACK_LIMIT
     then s\<lparr>asOwn := asOwn s @ [\<lparr>hTokenId = tid, hFrom = Some b, hUntil = None\<rparr>]\<rparr>
     else s\<lparr>asOverflow := asOverflow s @ [(b, 1)]\<rparr>)"

definition leaves :: "string \<Rightarrow> LpTransfer \<Rightarrow> bool" where
  "leaves k t \<longleftrightarrow> toLower (ltFrom t) = k"

definition accountStep :: "string \<Rightarrow> holding accountState \<Rightarrow> LpTransfer \<Rightarrow> holding accountState" where
  "accountStep k s t = (let
      s1 = (if leaves k t then departs (ltTokenId t) (ltBlock t) s else s)
    in if ownArrival k t then arrives (ltTokenId t) (ltBlock t) s1 else s1)"

text \<open>No arrival finds its token still open in the account.\<close>

fun singleHeld :: "string \<Rightarrow> holding accountState \<Rightarrow> LpTransfer list \<Rightarrow> bool" where
  "singleHeld k s [] \<longleftrightarrow> True"
| "singleHeld k s (t # ts) \<longleftrightarrow>
    (ownArrival k t \<longrightarrow> \<not> list_ex (openAs (ltTokenId t))
      (entries (if leaves k t then departs (ltTokenId t) (ltBlock t) s else s))) \<and>
    singleHeld k (accountStep k s t) ts"

lemma savedAccount_fields [simp]:
  "asOwn (savedAccount s) = map snd (asOwn s)" "asSeeded (savedAccount s) = map snd (asSeeded s)"
  "asOverflow (savedAccount s) = asOverflow s" "asBase (savedAccount s) = asBase s"
  "overflowNow (savedAccount s) = overflowNow s"
  by (simp_all add: savedAccount_def overflowNow_def)

lemma openCount_saved: "openCount hs = int (length (filter (\<lambda>h. hUntil h = None) (map snd hs)))"
  by (simp add: openCount_def filter_map comp_def case_prod_unfold)

lemma savedAccount_upd:
  "savedAccount (s\<lparr>asOwn := a, asSeeded := b\<rparr>) =
    savedAccount s\<lparr>asOwn := map snd a, asSeeded := map snd b\<rparr>"
  "savedAccount (s\<lparr>asOwn := a\<rparr>) = savedAccount s\<lparr>asOwn := map snd a\<rparr>"
  "savedAccount (s\<lparr>asSeeded := b\<rparr>) = savedAccount s\<lparr>asSeeded := map snd b\<rparr>"
  "savedAccount (s\<lparr>asOverflow := c\<rparr>) = savedAccount s\<lparr>asOverflow := c\<rparr>"
  by (simp_all add: savedAccount_def)

lemma indexedD: "indexed s m \<Longrightarrow> (r, h) \<in> set (entries s) \<Longrightarrow> hUntil h = None \<Longrightarrow> m (hTokenId h) = Some r"
  unfolding indexed_def by (drule (1) bspec) simp

lemma indexedI:
  "(\<And>r h. (r, h) \<in> set (entries s) \<Longrightarrow> hUntil h = None \<Longrightarrow> m (hTokenId h) = Some r) \<Longrightarrow> indexed s m"
  unfolding indexed_def by blast

lemma open_indexed:
  assumes inv: "accountInv n s m oo" and full: "indexed s m"
  shows "list_ex (openAs tid) (entries (savedAccount s)) \<longleftrightarrow> m tid \<noteq> None"
proof
  assume "list_ex (openAs tid) (entries (savedAccount s))"
  then obtain r h where "(r, h) \<in> set (entries s)" "openAs tid h"
    by (force simp: list_ex_iff)
  with indexedD [OF full] show "m tid \<noteq> None" by (force simp: openAs_def)
next
  assume "m tid \<noteq> None"
  then obtain r where "m tid = Some r" by blast
  from accountInvD(5) [OF inv this] obtain h where "(r, h) \<in> set (entries s)" "openAs tid h"
    unfolding openAs_def by blast
  then show "list_ex (openAs tid) (entries (savedAccount s))"
    by (force simp: list_ex_iff)
qed

lemma close_indexed:
  assumes inv: "accountInv n s m oo" and full: "indexed s m" and r: "m tid = Some r"
    and sub: "set hs \<subseteq> set (entries s)"
  shows "map snd (closeObject r b hs) = closeOpen tid b (map snd hs)"
proof -
  note d = accountInvD [OF inv]
  obtain h where h: "(r, h) \<in> set (entries s)" "openAs tid h"
    using d(5) [OF r] by (auto simp: openAs_def)
  have iff: "i = r \<longleftrightarrow> openAs tid g" if "(i, g) \<in> set (entries s)" for i g
  proof
    assume "i = r"
    with that h d(1) have "g = h" by (metis map_of_is_SomeI option.inject)
    with h show "openAs tid g" by simp
  next
    assume "openAs tid g"
    with indexedD [OF full that] r show "i = r" by (simp add: openAs_def)
  qed
  have "fst e = r \<longleftrightarrow> openAs tid (snd e)" if "e \<in> set hs" for e
    using iff [of "fst e" "snd e"] sub that by auto
  then show ?thesis by (auto simp: closeObject_def closeOpen_def case_prod_unfold)
qed

text \<open>One transfer implements its abstract step on every account whose index is complete.\<close>

lemma release_saved:
  assumes inv: "ledgerInv L" and full: "indexed (stateOf L k) (lgOpen L k)"
  shows "savedAccount (stateOf (release k tid b L) k) = departs tid b (savedAccount (stateOf L k))"
proof -
  note a = ledgerInvD(3) [OF inv, of k]
  note o = open_indexed [OF a full, of tid]
  show ?thesis
  proof (cases "lgOpen L k tid")
    case None
    with o show ?thesis by (simp add: release_def departs_def Let_def savedAccount_upd)
  next
    case (Some r)
    have "map snd (closeObject r b (asOwn (stateOf L k))) = closeOpen tid b (map snd (asOwn (stateOf L k)))"
      "map snd (closeObject r b (asSeeded (stateOf L k))) = closeOpen tid b (map snd (asSeeded (stateOf L k)))"
      by (rule close_indexed [where m = "lgOpen L k", OF a full Some]; simp)+
    with o Some show ?thesis by (simp add: release_def departs_def Let_def savedAccount_upd)
  qed
qed

lemma release_indexed:
  assumes inv: "ledgerInv L" and full: "indexed (stateOf L k) (lgOpen L k)"
  shows "indexed (stateOf (release k tid b L) k) (lgOpen (release k tid b L) k)"
proof (cases "lgOpen L k tid")
  case None
  with full show ?thesis by (simp add: release_def Let_def indexed_def)
next
  case (Some r)
  note d = accountInvD [OF ledgerInvD(3) [OF inv, of k]]
  obtain h where h: "(r, h) \<in> set (entries (stateOf L k))" "hTokenId h = tid"
    using d(5) [OF Some] by blast
  have "((lgOpen L k)(tid := None)) (hTokenId g) = Some i"
    if g: "(i, g) \<in> set (closeObject r b (entries (stateOf L k)))" "hUntil g = None" for i g
  proof -
    from g have "i \<noteq> r" "(i, g) \<in> set (entries (stateOf L k))"
      by (auto simp: mem_closeObject simp del: closeObject_simps split: if_splits)
    with indexedD [OF full _ g(2)] Some show ?thesis by fastforce
  qed
  then show ?thesis
    by (intro indexedI) (use Some in \<open>auto simp: release_def Let_def\<close>)
qed

lemma acquire_saved:
  assumes inv: "ledgerInv L"
  shows "savedAccount (stateOf (acquire k tid b L) k) = arrives tid b (savedAccount (stateOf L k))"
  using accountInvD(6) [OF ledgerInvD(3) [OF inv, of k]]
  by (simp add: acquire_def arrives_def Let_def savedAccount_upd openCount_saved)

lemma acquire_indexed:
  assumes full: "indexed (stateOf L k) (lgOpen L k)" and fresh: "lgOpen L k tid = None"
  shows "indexed (stateOf (acquire k tid b L) k) (lgOpen (acquire k tid b L) k)"
proof (rule indexedI)
  have own: "lgOpen L k (hTokenId h) = Some r" if "(r, h) \<in> set (asOwn (stateOf L k))" "hUntil h = None" for r h
    using indexedD [OF full] that by simp
  have seeded: "lgOpen L k (hTokenId h) = Some r" if "(r, h) \<in> set (asSeeded (stateOf L k))" "hUntil h = None" for r h
    using indexedD [OF full] that by simp
  fix r h
  assume "(r, h) \<in> set (entries (stateOf (acquire k tid b L) k))" "hUntil h = None"
  then show "lgOpen (acquire k tid b L) k (hTokenId h) = Some r"
    using fresh own [of r h] seeded [of r h] by (auto simp: acquire_def Let_def split: if_splits)
qed

text \<open>The transfer as the account sees it: its departure, then its arrival.\<close>

definition afterLeaving :: "string \<Rightarrow> LpTransfer \<Rightarrow> ledger \<Rightarrow> ledger" where
  "afterLeaving k t L = (if leaves k t \<and> k \<in> set (keys (lgState L))
     then release k (ltTokenId t) (ltBlock t) L else L)"

lemma ingestOne_cases:
  "ingestOne L t = (let L1 = afterLeaving (toLower (ltFrom t)) t L in
    if toLower (ltTo t) \<in> set (keys (lgState L)) \<and> ownArrival (toLower (ltTo t)) t
    then acquire (toLower (ltTo t)) (ltTokenId t) (ltBlock t) L1 else L1)"
  by (cases "toLower (ltFrom t) \<in> set (keys (lgState L))")
    (simp_all add: ingestOne_def afterLeaving_def leaves_def Let_def)

lemma afterLeaving_other:
  assumes "\<not> leaves k t"
  shows "stateOf (afterLeaving j t L) k = stateOf L k" "lgOpen (afterLeaving j t L) k = lgOpen L k"
  using assms by (auto simp: afterLeaving_def leaves_def release_other)

lemma afterLeaving_inv: "ledgerInv L \<Longrightarrow> ledgerInv (afterLeaving k t L)"
  by (simp add: afterLeaving_def release_inv)

lemma afterLeaving_keys [simp]: "keys (lgState (afterLeaving k t L)) = keys (lgState L)"
  by (simp add: afterLeaving_def)

lemma afterLeaving_account:
  fixes t :: LpTransfer
  assumes inv: "ledgerInv L" and k: "k \<in> set (keys (lgState L))"
    and full: "indexed (stateOf L k) (lgOpen L k)"
  defines "M \<equiv> afterLeaving (toLower (ltFrom t)) t L"
  shows "savedAccount (stateOf M k) =
      (if leaves k t then departs (ltTokenId t) (ltBlock t) (savedAccount (stateOf L k))
       else savedAccount (stateOf L k))"
    and "indexed (stateOf M k) (lgOpen M k)"
proof -
  have eq: "M = release k (ltTokenId t) (ltBlock t) L" if "leaves k t"
    using that k by (auto simp: M_def afterLeaving_def leaves_def)
  show "savedAccount (stateOf M k) =
      (if leaves k t then departs (ltTokenId t) (ltBlock t) (savedAccount (stateOf L k))
       else savedAccount (stateOf L k))"
    using eq release_saved [OF inv full] by (auto simp: M_def afterLeaving_other)
  show "indexed (stateOf M k) (lgOpen M k)"
    using eq release_indexed [OF inv full] full
    by (cases "leaves k t") (auto simp: M_def afterLeaving_other)
qed

lemma ingestOne_account:
  assumes inv: "ledgerInv L" and k: "k \<in> set (keys (lgState L))"
    and full: "indexed (stateOf L k) (lgOpen L k)"
    and single: "singleHeld k (savedAccount (stateOf L k)) [t]"
  shows "savedAccount (stateOf (ingestOne L t) k) = accountStep k (savedAccount (stateOf L k)) t"
    and "indexed (stateOf (ingestOne L t) k) (lgOpen (ingestOne L t) k)"
proof -
  define M where "M = afterLeaving (toLower (ltFrom t)) t L"
  note m = afterLeaving_account [OF inv k full, of t, folded M_def]
  have Minv: "ledgerInv M" using inv by (simp add: M_def afterLeaving_inv)
  have eq: "ingestOne L t = (if toLower (ltTo t) \<in> set (keys (lgState L)) \<and> ownArrival (toLower (ltTo t)) t
      then acquire (toLower (ltTo t)) (ltTokenId t) (ltBlock t) M else M)"
    by (simp add: ingestOne_cases M_def Let_def)
  have "savedAccount (stateOf (ingestOne L t) k) = accountStep k (savedAccount (stateOf L k)) t \<and>
    indexed (stateOf (ingestOne L t) k) (lgOpen (ingestOne L t) k)"
  proof (cases "ownArrival k t")
    case True
    then have to1: "toLower (ltTo t) = k" by (simp add: ownArrival_def)
    have fresh: "lgOpen M k (ltTokenId t) = None"
      using single True open_indexed [OF ledgerInvD(3) [OF Minv] m(2), of "ltTokenId t"] m(1) by simp
    show ?thesis
      using eq to1 True k m acquire_saved [OF Minv] acquire_indexed [OF m(2) fresh]
      by (simp add: accountStep_def Let_def)
  next
    case False
    have "stateOf (ingestOne L t) k = stateOf M k" "lgOpen (ingestOne L t) k = lgOpen M k"
      using eq False by (cases "k = toLower (ltTo t)"; simp add: acquire_other)+
    with False m show ?thesis by (simp add: accountStep_def Let_def)
  qed
  then show "savedAccount (stateOf (ingestOne L t) k) = accountStep k (savedAccount (stateOf L k)) t"
    "indexed (stateOf (ingestOne L t) k) (lgOpen (ingestOne L t) k)"
    by simp_all
qed

lemma ingest_foldl_account:
  assumes "ledgerInv L" "k \<in> set (keys (lgState L))" "indexed (stateOf L k) (lgOpen L k)"
    and "singleHeld k (savedAccount (stateOf L k)) ts"
  shows "savedAccount (stateOf (foldl ingestOne L ts) k) =
      foldl (accountStep k) (savedAccount (stateOf L k)) ts \<and>
    indexed (stateOf (foldl ingestOne L ts) k) (lgOpen (foldl ingestOne L ts) k)"
  using assms
proof (induction ts arbitrary: L)
  case Nil
  then show ?case by simp
next
  case (Cons t ts)
  have one: "singleHeld k (savedAccount (stateOf L k)) [t]" using Cons.prems(4) by simp
  note a = ingestOne_account [OF Cons.prems(1-3) one]
  show ?case
    using Cons.IH [of "ingestOne L t"] Cons.prems a by (simp add: ingestOne_inv)
qed

text \<open>A transfer that neither leaves the account nor is its own arrival does nothing to it.\<close>

definition sentBy :: "string \<Rightarrow> LpTransfer \<Rightarrow> bool" where
  "sentBy k t \<longleftrightarrow> map_option toLower (ltTxFrom t) = Some k"

definition concerns :: "string \<Rightarrow> LpTransfer \<Rightarrow> bool" where
  "concerns k t \<longleftrightarrow> toLower (ltFrom t) = k \<or> toLower (ltTo t) = k \<and> sentBy k t"

lemma concerns_iff: "concerns k t \<longleftrightarrow> leaves k t \<or> ownArrival k t"
  by (auto simp: concerns_def leaves_def ownArrival_def sentBy_def split: option.splits)

lemma accountStep_unconcerned [simp]: "\<not> concerns k t \<Longrightarrow> accountStep k s t = s"
  by (simp add: concerns_iff accountStep_def)

lemma fold_concerned: "foldl (accountStep k) s (filter (concerns k) ts) = foldl (accountStep k) s ts"
  by (induction ts arbitrary: s) auto

lemma singleHeld_concerned: "singleHeld k s (filter (concerns k) ts) = singleHeld k s ts"
  by (induction ts arbitrary: s) (auto simp: concerns_iff accountStep_def)

text \<open>A question only reads the checkpointed account.\<close>

definition answer :: "int \<Rightarrow> holding accountState \<Rightarrow> LpHeldAt" where
  "answer block s = (let
       own = filter (\<lambda>h. held h block) (asOwn s);
       seeded = filter (\<lambda>h. held h block) (asSeeded s)
     in \<lparr>haTokenIds = map hTokenId (List.take LP_POSITIONS_LIMIT (own @ seeded)),
       haOwn = length own, haSeeded = length seeded,
       haOverflow = max 0 (asBase s + foldl (\<lambda>n (b, d). if b \<le> block then n + d else n) 0 (asOverflow s))\<rparr>)"

lemma heldAt_answer:
  "heldAt L a block = (if toLower a \<in> set (keys (lgState L))
    then Some (answer block (savedAccount (stateOf L (toLower a)))) else None)"
proof (cases "map_of (lgState L) (toLower a)")
  case None
  then have "toLower a \<notin> fst ` set (lgState L)" by (simp add: map_of_eq_None_iff)
  with None show ?thesis by (simp add: heldAt_def)
next
  case (Some s)
  then have "toLower a \<in> fst ` set (lgState L)" by (metis domI dom_map_of_conv_image_fst)
  with Some show ?thesis
    by (simp add: heldAt_def answer_def stateOf_def getOr_def Let_def filter_map comp_def
        case_prod_unfold take_map)
qed

section \<open>Tokens with one owner\<close>

text \<open>
  The position manager: a token's next transfer is from its owner, and moves it to its recipient.
\<close>

fun erc721 :: "(int \<Rightarrow> string) \<Rightarrow> LpTransfer list \<Rightarrow> bool" where
  "erc721 owner [] \<longleftrightarrow> True"
| "erc721 owner (t # ts) \<longleftrightarrow> owner (ltTokenId t) = toLower (ltFrom t) \<and>
    erc721 (owner(ltTokenId t := toLower (ltTo t))) ts"

definition ownsOpen :: "(int \<Rightarrow> string) \<Rightarrow> string \<Rightarrow> holding accountState \<Rightarrow> bool" where
  "ownsOpen owner k s \<longleftrightarrow>
    list_all (\<lambda>h. hUntil h = None \<longrightarrow> owner (hTokenId h) = k) (entries s)"

lemma ownsOpen_departs: "ownsOpen owner k s \<Longrightarrow> ownsOpen owner k (departs tid b s)"
  by (auto simp: ownsOpen_def departs_def closeOpen_def list_all_iff)

lemma departs_closed: "\<not> list_ex (openAs tid) (entries (departs tid b s))"
  by (auto simp: departs_def closeOpen_def list_ex_iff openAs_def)

lemma ownsOpen_arrives:
  "ownsOpen owner k s \<Longrightarrow> owner tid = k \<Longrightarrow> ownsOpen owner k (arrives tid b s)"
  by (auto simp: ownsOpen_def arrives_def list_all_iff)

fun ownerAfter :: "(int \<Rightarrow> string) \<Rightarrow> LpTransfer list \<Rightarrow> int \<Rightarrow> string" where
  "ownerAfter owner [] = owner"
| "ownerAfter owner (t # ts) = ownerAfter (owner(ltTokenId t := toLower (ltTo t))) ts"

abbreviation afterDeparture :: "string \<Rightarrow> LpTransfer \<Rightarrow> holding accountState \<Rightarrow> holding accountState" where
  "afterDeparture k t s \<equiv> (if leaves k t then departs (ltTokenId t) (ltBlock t) s else s)"

lemma departure_shuts:
  assumes "owner (ltTokenId t) = toLower (ltFrom t)" "ownsOpen owner k s"
  shows "\<not> list_ex (openAs (ltTokenId t)) (entries (afterDeparture k t s))"
proof (cases "leaves k t")
  case True
  then show ?thesis using departs_closed by simp
next
  case False
  then have "owner (ltTokenId t) \<noteq> k" using assms(1) by (simp add: leaves_def)
  with False assms(2) show ?thesis
    by (auto simp: ownsOpen_def list_ex_iff list_all_iff openAs_def)
qed

lemma accountStep_owned:
  assumes "owner (ltTokenId t) = toLower (ltFrom t)" "ownsOpen owner k s"
  shows "ownsOpen (owner(ltTokenId t := toLower (ltTo t))) k (accountStep k s t)"
proof -
  have "ownsOpen owner k (afterDeparture k t s)" using assms(2) by (simp add: ownsOpen_departs)
  with departure_shuts [OF assms]
  have "ownsOpen (owner(ltTokenId t := toLower (ltTo t))) k (afterDeparture k t s)"
    by (auto simp: ownsOpen_def list_all_iff list_ex_iff openAs_def)
  then show ?thesis
    by (auto simp: accountStep_def Let_def ownArrival_def intro: ownsOpen_arrives)
qed

lemma erc721_single:
  assumes "erc721 owner ts" "ownsOpen owner k s"
  shows "singleHeld k s ts"
  using assms
proof (induction ts arbitrary: owner s)
  case Nil
  then show ?case by simp
next
  case (Cons t ts)
  have t: "owner (ltTokenId t) = toLower (ltFrom t)" and
    ts: "erc721 (owner(ltTokenId t := toLower (ltTo t))) ts"
    using Cons.prems(1) by simp_all
  from Cons.IH [OF ts accountStep_owned [OF t Cons.prems(2)]] departure_shuts [OF t Cons.prems(2)]
  show ?case by simp
qed

text \<open>A ledger in good order for an account: its index is complete and it owns what is open.\<close>

definition accountGood :: "ledger \<Rightarrow> (int \<Rightarrow> string) \<Rightarrow> string \<Rightarrow> bool" where
  "accountGood L owner k \<longleftrightarrow> k \<in> set (keys (lgState L)) \<and>
    indexed (stateOf L k) (lgOpen L k) \<and> ownsOpen owner k (savedAccount (stateOf L k))"

lemma ingest_saved:
  assumes "ledgerInv L" "accountGood L owner k" "erc721 owner (sort_key position ts)"
  shows "savedAccount (stateOf (ingest L ts) k) =
    foldl (accountStep k) (savedAccount (stateOf L k)) (sort_key position ts)"
  using ingest_foldl_account [of L k "sort_key position ts"] assms
    erc721_single [OF assms(3), of k "savedAccount (stateOf L k)"]
  by (simp add: accountGood_def ingest_def)

text \<open>
  C27. The running ledger, with its shared objects, its index and its counter, answers as the
  abstract account does: what an account holds at a block is read off the fold of the abstract
  step over the transfers in chain order, when the tokens move as ERC-721 tokens do.
\<close>

theorem ledger_refines_account:
  assumes "ledgerInv L" "accountGood L owner (toLower a)"
    and "erc721 owner (sort_key position ts)"
  shows "heldAt (ingest L ts) a block = Some (answer block
    (foldl (accountStep (toLower a)) (savedAccount (stateOf L (toLower a))) (sort_key position ts)))"
  using assms(2) ingest_saved [OF assms] by (simp add: heldAt_answer accountGood_def)

text \<open>
  C28. Nobody else can change what counts for an account: transfers into it in transactions it did
  not send, and transfers between others, can be struck from the log without changing any answer
  about it.
\<close>

theorem only_own_arrivals_count:
  assumes inv: "ledgerInv L" and good: "accountGood L owner (toLower a)"
    and erc: "erc721 owner (sort_key position ts)"
  shows "heldAt (ingest L (filter (concerns (toLower a)) ts)) a block = heldAt (ingest L ts) a block"
proof -
  let ?k = "toLower a"
  let ?s = "savedAccount (stateOf L ?k)"
  have single: "singleHeld ?k ?s (sort_key position (filter (concerns ?k) ts))"
    using erc721_single [OF erc] good by (simp add: accountGood_def singleHeld_concerned flip: filter_sort)
  have "savedAccount (stateOf (ingest L (filter (concerns ?k) ts)) ?k) =
      foldl (accountStep ?k) ?s (sort_key position (filter (concerns ?k) ts))"
    using ingest_foldl_account [OF inv _ _ single] good by (simp add: accountGood_def ingest_def)
  also have "\<dots> = savedAccount (stateOf (ingest L ts) ?k)"
    using ingest_saved [OF inv good erc] by (simp add: fold_concerned flip: filter_sort)
  finally show ?thesis by (simp add: heldAt_answer)
qed

end
