(* ===== verification/Lp_Checkpoint.thy ===== *)
theory Lp_Checkpoint
  imports Lp_Ownership
begin

text \<open>
  The ownership ledger over time (\<open>sdk/src/protocols/uniswapLpOwnership.ts\<close>): a ledger read past a
  block still answers for it, pruning is invisible to later questions, and a checkpoint restored
  into new objects continues as the ledger would have.
\<close>

section \<open>Reading ahead\<close>

text \<open>A transfer after the block asked about changes no answer for that block.\<close>

lemma held_closed_later:
  assumes "hUntil h = None" "block < b"
  shows "held (h\<lparr>hUntil := Some b\<rparr>) block = held h block"
  using assms by (simp add: held_def)

lemma heldIds_close_later:
  assumes "\<And>h. (r, h) \<in> set hs \<Longrightarrow> hUntil h = None" "block < b"
  shows "map hTokenId (filter (\<lambda>h. held h block) (map snd (closeObject r b hs))) =
      map hTokenId (filter (\<lambda>h. held h block) (map snd hs))"
  using assms by (induction hs) (auto simp: held_closed_later)

lemma answer_ids:
  "answer block s = (let
       own = map hTokenId (filter (\<lambda>h. held h block) (asOwn s));
       seeded = map hTokenId (filter (\<lambda>h. held h block) (asSeeded s))
     in \<lparr>haTokenIds = List.take LP_POSITIONS_LIMIT (own @ seeded),
       haOwn = length own, haSeeded = length seeded,
       haOverflow = max 0 (asBase s + foldl (\<lambda>n (b, d). if b \<le> block then n + d else n) 0 (asOverflow s))\<rparr>)"
  by (simp add: answer_def Let_def take_map)

lemma release_later:
  assumes inv: "ledgerInv L" and b: "block < b"
  shows "answer block (savedAccount (stateOf (release k tid b L) j)) = answer block (savedAccount (stateOf L j))"
proof (cases "j = k")
  case False
  then show ?thesis by (simp add: release_other)
next
  case True
  note d = accountInvD [OF ledgerInvD(3) [OF inv, of k]]
  show ?thesis
  proof (cases "lgOpen L k tid")
    case None
    then show ?thesis
      using True b by (simp add: release_def Let_def answer_def)
  next
    case (Some r)
    obtain h where h: "(r, h) \<in> set (entries (stateOf L k))" "hUntil h = None"
      using d(5) [OF Some] by blast
    have "hUntil g = None" if "(r, g) \<in> set (entries (stateOf L k))" for g
      using that h d(1) by (metis map_of_is_SomeI option.inject)
    then have "hUntil g = None" if "(r, g) \<in> set (asOwn (stateOf L k)) \<or> (r, g) \<in> set (asSeeded (stateOf L k))" for g
      using that by auto
    then show ?thesis
      using True Some b by (simp add: release_def Let_def answer_ids heldIds_close_later)
  qed
qed

lemma acquire_later:
  assumes b: "block < b"
  shows "answer block (savedAccount (stateOf (acquire k tid b L) j)) = answer block (savedAccount (stateOf L j))"
  using b by (cases "j = k") (simp_all add: acquire_other acquire_def Let_def answer_def held_def)

lemma ingestOne_later:
  assumes "ledgerInv L" "block < ltBlock t"
  shows "answer block (savedAccount (stateOf (ingestOne L t) j)) = answer block (savedAccount (stateOf L j))"
  using assms by (simp add: ingestOne_def Let_def release_later acquire_later)

lemma ingest_later_answer:
  assumes "ledgerInv L" "list_all (\<lambda>t. block < ltBlock t) ts"
  shows "answer block (savedAccount (stateOf (foldl ingestOne L ts) j)) =
    answer block (savedAccount (stateOf L j))"
  using assms
proof (induction ts arbitrary: L)
  case Nil
  then show ?case by simp
next
  case (Cons t ts)
  then show ?case by (simp add: ingestOne_inv ingestOne_later)
qed

lemma ingest_later:
  assumes "ledgerInv L" "list_all (\<lambda>t. block < ltBlock t) ts"
  shows "heldAt (foldl ingestOne L ts) a block = heldAt L a block"
  using ingest_later_answer [OF assms] by (simp add: heldAt_answer)

section \<open>Pruning\<close>

definition overflowUpTo :: "int \<Rightarrow> (int \<times> int) list \<Rightarrow> int" where
  "overflowUpTo block xs = sum_list (map snd (filter (\<lambda>(b, d). b \<le> block) xs))"

lemma foldl_upTo:
  "foldl (\<lambda>n (b, d). if b \<le> block then n + d else n) x xs = x + overflowUpTo block xs"
  by (induction xs arbitrary: x) (auto simp: overflowUpTo_def)

lemma foldl_prune:
  "foldl (\<lambda>(base, kept) (b, d). if b \<le> block then (base + d, kept) else (base, kept @ [(b, d)])) (x, ys) xs =
    (x + overflowUpTo block xs, ys @ filter (\<lambda>(b, d). b > block) xs)"
  by (induction xs arbitrary: x ys) (auto simp: overflowUpTo_def)

lemma overflowNow_sum: "overflowNow s = asBase s + sum_list (map snd (asOverflow s))"
proof -
  have "foldl (\<lambda>n (_, d). n + d) x xs = x + sum_list (map snd xs)" for x :: int and xs :: "(int \<times> int) list"
    by (induction xs arbitrary: x) auto
  then show ?thesis by (simp add: overflowNow_def)
qed

lemma pruneAccount_eq:
  "pruneAccount block s = s\<lparr>asOwn := filter (\<lambda>e. keepsHolding block (snd e)) (asOwn s),
     asSeeded := filter (\<lambda>e. keepsHolding block (snd e)) (asSeeded s),
     asOverflow := filter (\<lambda>(b, d). b > block) (asOverflow s),
     asBase := asBase s + overflowUpTo block (asOverflow s)\<rparr>"
  unfolding pruneAccount_def foldl_prune by (simp add: case_prod_unfold)

lemma pruneAccount_empty [simp]: "pruneAccount block emptyAccount = emptyAccount"
  by (simp add: pruneAccount_eq emptyAccount_def overflowUpTo_def)

lemma overflow_split: "overflowUpTo block xs + sum_list (map snd (filter (\<lambda>(b, d). b > block) xs)) =
  sum_list (map snd xs)"
  by (induction xs) (auto simp: overflowUpTo_def)

lemma overflowNow_prune [simp]: "overflowNow (pruneAccount block s) = overflowNow s"
  using overflow_split [of block "asOverflow s"] by (simp add: overflowNow_sum pruneAccount_eq)

lemma map_of_values: "map_of (map (\<lambda>(k, s). (k, f s)) xs) k = map_option f (map_of xs k)"
  by (induction xs) auto

lemma stateOf_prune [simp]: "stateOf (prune block L) k = pruneAccount block (stateOf L k)"
  by (simp add: stateOf_def prune_def getOr_def map_of_values split: option.split)

lemma prune_fields [simp]:
  "lgOpen (prune block L) = lgOpen L" "lgOpenOwn (prune block L) = lgOpenOwn L"
  "lgNext (prune block L) = lgNext L" "keys (lgState (prune block L)) = keys (lgState L)"
  "fst ` set (lgState (prune block L)) = fst ` set (lgState L)"
  by (auto simp: prune_def comp_def case_prod_unfold image_image)

lemma keeps_open [simp]: "hUntil h = None \<Longrightarrow> keepsHolding block h"
  by (simp add: keepsHolding_def)

lemma openCount_keeps: "openCount (filter (\<lambda>e. keepsHolding block (snd e)) hs) = openCount hs"
  by (induction hs) (auto simp: keepsHolding_def split: option.splits)

lemma accountInv_prune:
  assumes inv: "accountInv n s m oo"
  shows "accountInv n (pruneAccount block s) m oo"
proof -
  note d = accountInvD [OF inv]
  have sub: "set (entries (pruneAccount block s)) \<subseteq> set (entries s)" by (auto simp: pruneAccount_eq)
  have idx: "\<exists>h. (r, h) \<in> set (entries (pruneAccount block s)) \<and> hTokenId h = tid \<and> hUntil h = None"
    if "m tid = Some r" for tid r
    using d(5) [OF that] by (auto simp: pruneAccount_eq)
  have dist: "distinct (keys (entries (pruneAccount block s)))"
    using d(1) by (auto simp: pruneAccount_eq intro: distinct_map_filter)
  have lt: "\<forall>r \<in> set (keys (entries (pruneAccount block s))). r < n"
  proof
    fix r assume "r \<in> set (keys (entries (pruneAccount block s)))"
    then have "r \<in> set (keys (entries s))" using image_mono [OF sub, of fst] by (simp only: list.set_map) blast
    then show "r < n" by (rule d(2))
  qed
  show ?thesis
    unfolding accountInv_def
  proof (intro conjI)
    show "\<forall>(r, h) \<in> set (asOwn (pruneAccount block s)). hFrom h \<noteq> None"
      using d(3) by (auto simp: pruneAccount_eq)
    show "\<forall>(r, h) \<in> set (asSeeded (pruneAccount block s)). hFrom h = None"
      using d(4) by (auto simp: pruneAccount_eq)
    show "(case oo of None \<Rightarrow> 0 | Some c \<Rightarrow> c) = openCount (asOwn (pruneAccount block s))"
      using d(6) by (simp add: pruneAccount_eq openCount_keeps)
  qed (use dist lt idx in blast)+
qed

lemma prune_inv: "ledgerInv L \<Longrightarrow> ledgerInv (prune block L)"
  by (simp add: ledgerInv_def accountInv_prune)

lemma update_values:
  "map (\<lambda>(k, s). (k, f s)) (AList.update k v xs) = AList.update k (f v) (map (\<lambda>(k, s). (k, f s)) xs)"
  by (induction xs) auto

lemma prune_put [simp]: "prune block (putState k s L) = putState k (pruneAccount block s) (prune block L)"
  by (simp add: prune_def putState_def update_values)

lemma prune_upds [simp]:
  "prune block (L\<lparr>lgOpen := o1\<rparr>) = prune block L\<lparr>lgOpen := o1\<rparr>"
  "prune block (L\<lparr>lgOpenOwn := o2\<rparr>) = prune block L\<lparr>lgOpenOwn := o2\<rparr>"
  "prune block (L\<lparr>lgNext := n\<rparr>) = prune block L\<lparr>lgNext := n\<rparr>"
  by (simp_all add: prune_def)

lemma close_keeps:
  assumes "\<And>h. (r, h) \<in> set hs \<Longrightarrow> hUntil h = None" "block < b"
  shows "filter (\<lambda>e. keepsHolding block (snd e)) (closeObject r b hs) =
    closeObject r b (filter (\<lambda>e. keepsHolding block (snd e)) hs)"
  using assms by (induction hs) (auto simp: keepsHolding_def)

lemma pruneAccount_push:
  "block < b \<Longrightarrow> pruneAccount block (s\<lparr>asOverflow := asOverflow s @ [(b, d)]\<rparr>) =
    pruneAccount block s\<lparr>asOverflow := asOverflow (pruneAccount block s) @ [(b, d)]\<rparr>"
  by (simp add: pruneAccount_eq overflowUpTo_def)

lemma release_prune:
  assumes inv: "ledgerInv L" and b: "block < b"
  shows "prune block (release k tid b L) = release k tid b (prune block L)"
proof (cases "lgOpen L k tid")
  case None
  then show ?thesis
    using b by (simp add: release_def Let_def pruneAccount_push)
next
  case (Some r)
  note a = ledgerInvD(3) [OF inv, of k]
  note d = accountInvD [OF a]
  obtain h where h: "(r, h) \<in> set (entries (stateOf L k))" "hUntil h = None"
    using d(5) [OF Some] by blast
  have h': "(r, h) \<in> set (entries (pruneAccount block (stateOf L k)))"
    using h by (auto simp: pruneAccount_eq)
  have "hUntil g = None" if "(r, g) \<in> set (entries (stateOf L k))" for g
    using that h d(1) by (metis map_of_is_SomeI option.inject)
  then have "hUntil g = None" if "(r, g) \<in> set (asOwn (stateOf L k)) \<or> (r, g) \<in> set (asSeeded (stateOf L k))" for g
    using that by auto
  then have closes: "pruneAccount block (stateOf L k\<lparr>asOwn := closeObject r b (asOwn (stateOf L k)),
        asSeeded := closeObject r b (asSeeded (stateOf L k))\<rparr>) =
      pruneAccount block (stateOf L k)\<lparr>asOwn := closeObject r b (asOwn (pruneAccount block (stateOf L k))),
        asSeeded := closeObject r b (asSeeded (pruneAccount block (stateOf L k)))\<rparr>"
    using b by (simp add: pruneAccount_eq close_keeps)
  have "isOwnObject r (pruneAccount block (stateOf L k)) = isOwnObject r (stateOf L k)"
    using isOwnObject_iff(1) [OF a h(1)] isOwnObject_iff(1) [OF accountInv_prune [OF a] h'] by simp
  then show ?thesis using Some closes by (simp add: release_def Let_def)
qed

lemma pruneAccount_own:
  "keepsHolding block h \<Longrightarrow> pruneAccount block (s\<lparr>asOwn := asOwn s @ [(r, h)]\<rparr>) =
    pruneAccount block s\<lparr>asOwn := asOwn (pruneAccount block s) @ [(r, h)]\<rparr>"
  by (simp add: pruneAccount_eq)

lemma acquire_prune:
  "block < b \<Longrightarrow> prune block (acquire k tid b L) = acquire k tid b (prune block L)"
  by (simp add: acquire_def Let_def pruneAccount_push pruneAccount_own)

lemma ingestOne_prune:
  assumes "ledgerInv L" "block < ltBlock t"
  shows "prune block (ingestOne L t) = ingestOne (prune block L) t"
proof -
  have "prune block (afterLeaving k t L) = afterLeaving k t (prune block L)" for k
    using assms by (simp add: afterLeaving_def release_prune)
  then show ?thesis
    using assms by (simp add: ingestOne_cases Let_def acquire_prune)
qed

lemma ingest_prune:
  assumes "ledgerInv L" "list_all (\<lambda>t. block < ltBlock t) ts"
  shows "prune block (foldl ingestOne L ts) = foldl ingestOne (prune block L) ts"
  using assms
proof (induction ts arbitrary: L)
  case Nil
  then show ?case by simp
next
  case (Cons t ts)
  then show ?case by (simp add: ingestOne_inv ingestOne_prune)
qed

lemma upTo_split:
  "block \<le> B \<Longrightarrow> overflowUpTo block xs + overflowUpTo B (filter (\<lambda>(b, d). b > block) xs) = overflowUpTo B xs"
  by (induction xs) (auto simp: overflowUpTo_def)

lemma heldAt_prune:
  assumes "block < B"
  shows "heldAt (prune block L) a B = heldAt L a B"
proof -
  have "filter (\<lambda>e. keepsHolding block (snd e) \<and> held (snd e) B) hs = filter (\<lambda>e. held (snd e) B) hs" for hs :: "object list"
    using assms by (intro filter_cong) (auto simp: keepsHolding_def held_def split: option.splits)
  then show ?thesis
    using assms upTo_split [of block B]
    by (simp add: heldAt_answer answer_def pruneAccount_eq foldl_upTo Let_def filter_map comp_def
        add.assoc conj_commute)
qed

lemma prune_answers:
  assumes inv: "ledgerInv L" and ts: "list_all (\<lambda>t. block < ltBlock t) ts" and B: "block < B"
  shows "heldAt (ingest (prune block L) ts) a B = heldAt (ingest L ts) a B"
proof -
  have "list_all (\<lambda>t. block < ltBlock t) (sort_key position ts)"
    using ts by (simp add: list_all_iff)
  from ingest_prune [OF inv this] show ?thesis
    using heldAt_prune [OF B, of "foldl ingestOne L (sort_key position ts)"] by (simp add: ingest_def)
qed

section \<open>The checkpoint\<close>

lemma keys_alloc [simp]: "keys (alloc n hs) = [n..<n + length hs]"
  by (simp add: alloc_def)

lemma contents_alloc [simp]: "map snd (alloc n hs) = hs"
  by (simp add: alloc_def)

lemma length_alloc [simp]: "length (alloc n hs) = length hs"
  by (simp add: alloc_def)

lemma alloc_append: "alloc n (xs @ ys) = alloc n xs @ alloc (n + length xs) ys"
  by (simp add: alloc_def upt_add_eq_append [of n "n + length xs" "length ys"] flip: add.assoc)

lemma indexOpen_append: "indexOpen (xs @ ys) m = indexOpen ys (indexOpen xs m)"
  by (simp add: indexOpen_def)

lemma indexOpen_Some:
  "indexOpen hs m tid = Some r \<Longrightarrow>
    (\<exists>h. (r, h) \<in> set hs \<and> openAs tid h) \<or> m tid = Some r"
proof (induction hs arbitrary: m)
  case (Cons e hs)
  obtain i g where e: "e = (i, g)" by fastforce
  from Cons.prems have "indexOpen hs (if hUntil g = None then m(hTokenId g \<mapsto> i) else m) tid = Some r"
    by (simp add: indexOpen_def e)
  from Cons.IH [OF this] show ?case
    by (auto simp: e openAs_def split: if_splits)
qed (simp add: indexOpen_def)

text \<open>An account holds no token in two open holdings.\<close>

definition tokensOnce :: "holding accountState \<Rightarrow> bool" where
  "tokensOnce s \<longleftrightarrow> distinct (map hTokenId (filter (\<lambda>h. hUntil h = None) (entries s)))"

lemma indexOpen_keeps:
  "tid \<notin> hTokenId ` {h \<in> snd ` set hs. hUntil h = None} \<Longrightarrow> indexOpen hs m tid = m tid"
proof (induction hs arbitrary: m)
  case (Cons e hs)
  obtain i g where e: "e = (i, g)" by fastforce
  have "indexOpen hs (if hUntil g = None then m(hTokenId g \<mapsto> i) else m) tid =
      (if hUntil g = None then m(hTokenId g \<mapsto> i) else m) tid"
    using Cons.prems by (intro Cons.IH) (auto simp: e)
  with Cons.prems show ?case by (auto simp: e indexOpen_def)
qed (simp add: indexOpen_def)

lemma indexOpen_mem:
  assumes "distinct (map hTokenId (filter (\<lambda>h. hUntil h = None) (map snd hs)))"
    and "(r, h) \<in> set hs" "hUntil h = None"
  shows "indexOpen hs m (hTokenId h) = Some r"
  using assms
proof (induction hs arbitrary: m)
  case (Cons e hs)
  obtain i g where e: "e = (i, g)" by fastforce
  let ?m = "if hUntil g = None then m(hTokenId g \<mapsto> i) else m"
  have step: "indexOpen (e # hs) m = indexOpen hs ?m" by (simp add: indexOpen_def e)
  show ?case
  proof (cases "(r, h) \<in> set hs")
    case True
    with Cons e step show ?thesis by (auto split: if_splits)
  next
    case False
    with Cons.prems e have eq: "r = i" "h = g" by auto
    have "hTokenId g \<notin> hTokenId ` {h \<in> snd ` set hs. hUntil h = None}"
      using Cons.prems(1,3) e eq by auto
    from indexOpen_keeps [OF this] show ?thesis using step eq Cons.prems(3) by simp
  qed
qed simp

lemma indexed_once:
  assumes inv: "accountInv n s m oo" and full: "indexed s m"
  shows "tokensOnce (savedAccount s)"
proof -
  let ?open = "filter (\<lambda>e. hUntil (snd e) = None) (entries s)"
  have "map (\<lambda>e. m (hTokenId (snd e))) ?open = map Some (map fst ?open)"
    using indexedD [OF full] by auto
  moreover have "distinct (map Some (map fst ?open))"
    unfolding distinct_map [of Some]
    using distinct_map_filter [OF accountInvD(1) [OF inv]] by (blast intro: injI inj_on_subset)
  ultimately have "distinct (map m (map (\<lambda>e. hTokenId (snd e)) ?open))"
    by (simp only: map_map comp_def)
  then have "distinct (map (\<lambda>e. hTokenId (snd e)) ?open)"
    by (rule distinct_map [THEN iffD1, THEN conjunct1])
  then show ?thesis by (simp add: tokensOnce_def filter_map comp_def flip: map_append)
qed

definition restoredAccount :: "nat \<Rightarrow> holding accountState \<Rightarrow> object accountState" where
  "restoredAccount n s = \<lparr>asOwn = alloc n (asOwn s), asSeeded = alloc (n + length (asOwn s)) (asSeeded s),
     asOverflow = asOverflow s, asBase = asBase s\<rparr>"

lemma saved_restored [simp]: "savedAccount (restoredAccount n s) = s"
  by (simp add: savedAccount_def restoredAccount_def)

lemma entries_restored: "entries (restoredAccount n s) = alloc n (entries s)"
  by (simp add: restoredAccount_def alloc_append)

lemma restoreOne_eq:
  "restoreOne L (key, s) = (let k = toLower key; s' = restoredAccount (lgNext L) s in
    (putState k s' L)
      \<lparr>lgOpen := (lgOpen L)(k := indexOpen (entries s') (lgOpen L k)),
       lgOpenOwn := (lgOpenOwn L)(k \<mapsto> openCount (asOwn s')),
       lgNext := lgNext L + length (entries s)\<rparr>)"
  by (simp add: restoreOne_def restoredAccount_def Let_def add.assoc)

text \<open>What a checkpoint of a running ledger looks like.\<close>

definition savedOk :: "holding accountState \<Rightarrow> bool" where
  "savedOk s \<longleftrightarrow> list_all (\<lambda>h. hFrom h \<noteq> None) (asOwn s) \<and> list_all (\<lambda>h. hFrom h = None) (asSeeded s)"

lemma savedOk_saved: "accountInv n s m oo \<Longrightarrow> savedOk (savedAccount s)"
  by (auto simp: savedOk_def list_all_iff accountInv_def)

lemma alloc_mem: "(r, h) \<in> set (alloc n hs) \<Longrightarrow> h \<in> set hs"
  by (simp add: alloc_def set_zip_rightD)

lemma accountInv_restored:
  assumes "savedOk s"
  shows "accountInv (n + length (entries s)) (restoredAccount n s)
    (indexOpen (entries (restoredAccount n s)) (\<lambda>_. None)) (Some (openCount (asOwn (restoredAccount n s))))"
  unfolding accountInv_def
proof (intro conjI)
  show "distinct (keys (entries (restoredAccount n s)))" by (simp only: entries_restored keys_alloc distinct_upt)
  show "\<forall>r \<in> set (keys (entries (restoredAccount n s))). r < n + length (entries s)"
    by (simp only: entries_restored keys_alloc) simp
  show "\<forall>(r, h) \<in> set (asOwn (restoredAccount n s)). hFrom h \<noteq> None"
    using assms by (auto simp: savedOk_def restoredAccount_def list_all_iff dest!: alloc_mem)
  show "\<forall>(r, h) \<in> set (asSeeded (restoredAccount n s)). hFrom h = None"
    using assms by (auto simp: savedOk_def restoredAccount_def list_all_iff dest!: alloc_mem)
  show "\<forall>tid r. indexOpen (entries (restoredAccount n s)) (\<lambda>_. None) tid = Some r \<longrightarrow>
      (\<exists>h. (r, h) \<in> set (entries (restoredAccount n s)) \<and> hTokenId h = tid \<and> hUntil h = None)"
    using indexOpen_Some openAs_def by fastforce
qed simp

lemma indexed_restored:
  assumes "tokensOnce s"
  shows "indexed (restoredAccount n s) (indexOpen (entries (restoredAccount n s)) m)"
proof (rule indexedI)
  fix r h assume "(r, h) \<in> set (entries (restoredAccount n s))" "hUntil h = None"
  with assms show "indexOpen (entries (restoredAccount n s)) m (hTokenId h) = Some r"
    by (intro indexOpen_mem) (simp_all add: entries_restored tokensOnce_def del: map_append)
qed

lemma restore_other:
  assumes "k \<notin> toLower ` set (keys es)"
  shows "stateOf (foldl restoreOne L es) k = stateOf L k \<and> lgOpen (foldl restoreOne L es) k = lgOpen L k \<and>
    lgOpenOwn (foldl restoreOne L es) k = lgOpenOwn L k"
  using assms
proof (induction es arbitrary: L)
  case (Cons e es)
  obtain key s where e: "e = (key, s)" by fastforce
  with Cons show ?case by (simp add: restoreOne_eq Let_def)
qed simp

lemma restoreOne_inv:
  assumes inv: "ledgerInv L" and key: "toLower key \<notin> set (keys (lgState L))"
    and s: "savedOk s" and m: "lgOpen L (toLower key) = (\<lambda>_. None)"
  shows "ledgerInv (restoreOne L (key, s))"
proof -
  let ?k = "toLower key"
  let ?M = "restoreOne L (key, s)"
  have "accountInv (lgNext ?M) (stateOf ?M j) (lgOpen ?M j) (lgOpenOwn ?M j)" for j
  proof (cases "j = ?k")
    case True
    with accountInv_restored [OF s, of "lgNext L"] m show ?thesis by (simp add: restoreOne_eq Let_def)
  next
    case False
    have "accountInv (lgNext L + length (entries s)) (stateOf L j) (lgOpen L j) (lgOpenOwn L j)"
      using accountInv_mono [OF ledgerInvD(3) [OF inv]] by simp
    with False show ?thesis by (simp add: restoreOne_eq Let_def)
  qed
  moreover have "distinct (keys (lgState ?M))" "\<forall>k \<in> set (keys (lgState ?M)). toLower k = k"
    using inv key by (auto simp: restoreOne_eq Let_def keys_upd ledgerInv_def)
  ultimately show ?thesis by (simp add: ledgerInv_def)
qed

lemma restoreOne_keys: "keys (lgState (restoreOne L (key, s))) =
  (if toLower key \<in> set (keys (lgState L)) then keys (lgState L) else keys (lgState L) @ [toLower key])"
  by (simp add: restoreOne_eq Let_def keys_upd)

lemma restore_all:
  assumes "ledgerInv L" "distinct (map toLower (keys es))"
    and "\<And>k. k \<in> toLower ` set (keys es) \<Longrightarrow> k \<notin> set (keys (lgState L)) \<and> lgOpen L k = (\<lambda>_. None)"
    and "\<And>k s. (k, s) \<in> set es \<Longrightarrow> savedOk s \<and> tokensOnce s"
  shows "ledgerInv (foldl restoreOne L es) \<and>
    keys (lgState (foldl restoreOne L es)) = keys (lgState L) @ map toLower (keys es) \<and>
    (\<forall>(k, s) \<in> set es.
      savedAccount (stateOf (foldl restoreOne L es) (toLower k)) = s \<and>
      indexed (stateOf (foldl restoreOne L es) (toLower k)) (lgOpen (foldl restoreOne L es) (toLower k)))"
  using assms
proof (induction es arbitrary: L)
  case Nil
  then show ?case by simp
next
  case (Cons e es)
  obtain key s where e: "e = (key, s)" by fastforce
  let ?M = "restoreOne L (key, s)"
  have ok: "savedOk s" "tokensOnce s" using Cons.prems(4) e by auto
  have key: "toLower key \<notin> set (keys (lgState L))" "lgOpen L (toLower key) = (\<lambda>_. None)"
    using Cons.prems(3) [of "toLower key"] e by auto
  have M: "ledgerInv ?M" by (rule restoreOne_inv [OF Cons.prems(1) key(1) ok(1) key(2)])
  have notin: "toLower key \<notin> toLower ` set (keys es)" using Cons.prems(2) e by auto
  have fresh: "k \<notin> set (keys (lgState ?M)) \<and> lgOpen ?M k = (\<lambda>_. None)"
    if "k \<in> toLower ` set (keys es)" for k
  proof -
    have "k \<noteq> toLower key" using that notin by blast
    moreover have "k \<notin> set (keys (lgState L)) \<and> lgOpen L k = (\<lambda>_. None)"
      using that by (intro Cons.prems(3)) auto
    ultimately show ?thesis using key(1) by (simp add: restoreOne_eq Let_def)
  qed
  have ih: "ledgerInv (foldl restoreOne ?M es) \<and>
    keys (lgState (foldl restoreOne ?M es)) = keys (lgState ?M) @ map toLower (keys es) \<and>
    (\<forall>(k, s) \<in> set es.
      savedAccount (stateOf (foldl restoreOne ?M es) (toLower k)) = s \<and>
      indexed (stateOf (foldl restoreOne ?M es) (toLower k)) (lgOpen (foldl restoreOne ?M es) (toLower k)))"
    by (rule Cons.IH [OF M _ fresh]) (use Cons.prems(2,4) e in auto)
  have here: "savedAccount (stateOf ?M (toLower key)) = s"
    "indexed (stateOf ?M (toLower key)) (lgOpen ?M (toLower key))"
    using indexed_restored [OF ok(2)] by (simp_all add: restoreOne_eq Let_def)
  show ?case
    using ih here restore_other [OF notin, of ?M] key(1) by (simp add: e restoreOne_keys)
qed

lemma emptyLedger_inv: "ledgerInv emptyLedger"
  by (simp add: ledgerInv_def emptyLedger_def stateOf_def getOr_def accountInv_def emptyAccount_def)

lemma lower_keys:
  assumes "ledgerInv L"
  shows "map toLower (keys (lgState L)) = keys (lgState L)"
  using ledgerInvD(2) [OF assms] by (intro map_idI)

lemma snapshot_mem:
  assumes "ledgerInv L" "(k, s) \<in> set (snapshot L)"
  shows "k \<in> set (keys (lgState L))" "s = savedAccount (stateOf L k)"
proof -
  from assms(2) obtain t where t: "(k, t) \<in> set (lgState L)" "s = savedAccount t"
    by (auto simp: snapshot_def)
  from t(1) show "k \<in> set (keys (lgState L))" by force
  have "map_of (lgState L) k = Some t"
    using t(1) ledgerInvD(1) [OF assms(1)] by (simp add: map_of_eq_Some_iff_mem)
  with t(2) show "s = savedAccount (stateOf L k)" by (simp add: stateOf_def getOr_def)
qed

lemma keys_snapshot [simp]: "keys (snapshot L) = keys (lgState L)"
  by (simp add: snapshot_def comp_def case_prod_unfold)

text \<open>A ledger whose every account has a complete index.\<close>

definition ledgerGood :: "ledger \<Rightarrow> (int \<Rightarrow> string) \<Rightarrow> bool" where
  "ledgerGood L owner \<longleftrightarrow> ledgerInv L \<and> (\<forall>k \<in> set (keys (lgState L)). accountGood L owner k)"

lemma restore_snapshot:
  assumes good: "ledgerGood L owner"
  shows "ledgerInv (restore (snapshot L))" "keys (lgState (restore (snapshot L))) = keys (lgState L)"
    "\<And>k. k \<in> set (keys (lgState L)) \<Longrightarrow>
      savedAccount (stateOf (restore (snapshot L)) k) = savedAccount (stateOf L k)"
    "ledgerGood (restore (snapshot L)) owner"
proof -
  have inv: "ledgerInv L" using good by (simp add: ledgerGood_def)
  have saved: "savedOk s \<and> tokensOnce s" if "(k, s) \<in> set (snapshot L)" for k s
    using snapshot_mem [OF inv that] good savedOk_saved [OF ledgerInvD(3) [OF inv]]
      indexed_once [OF ledgerInvD(3) [OF inv]]
    by (auto simp: ledgerGood_def accountGood_def simp del: set_map)
  have all: "ledgerInv (restore (snapshot L)) \<and>
    keys (lgState (restore (snapshot L))) = keys (lgState emptyLedger) @ map toLower (keys (snapshot L)) \<and>
    (\<forall>(k, s) \<in> set (snapshot L). savedAccount (stateOf (restore (snapshot L)) (toLower k)) = s \<and>
      indexed (stateOf (restore (snapshot L)) (toLower k)) (lgOpen (restore (snapshot L)) (toLower k)))"
    unfolding restore_def
  proof (rule restore_all [OF emptyLedger_inv _ _ saved])
    show "distinct (map toLower (keys (snapshot L)))"
      by (simp only: keys_snapshot lower_keys [OF inv]) (rule ledgerInvD(1) [OF inv])
  qed (simp_all add: emptyLedger_def)
  then show one: "ledgerInv (restore (snapshot L))" by blast
  show two: "keys (lgState (restore (snapshot L))) = keys (lgState L)"
    using all by (simp only: keys_snapshot lower_keys [OF inv]) (simp add: emptyLedger_def)
  have at1: "savedAccount (stateOf (restore (snapshot L)) k) = savedAccount (stateOf L k) \<and>
      indexed (stateOf (restore (snapshot L)) k) (lgOpen (restore (snapshot L)) k)"
    if k: "k \<in> set (keys (lgState L))" for k
  proof -
    from k obtain s where s: "(k, s) \<in> set (snapshot L)" using keys_snapshot [of L] by (metis in_keys_iff map_of_SomeD)
    with all snapshot_mem(2) [OF inv s] ledgerInvD(2) [OF inv k] show ?thesis by fastforce
  qed
  then show "\<And>k. k \<in> set (keys (lgState L)) \<Longrightarrow>
      savedAccount (stateOf (restore (snapshot L)) k) = savedAccount (stateOf L k)" by blast
  show "ledgerGood (restore (snapshot L)) owner"
    using one two at1 good by (simp add: ledgerGood_def accountGood_def del: set_map)
qed

text \<open>
  A checkpoint loses nothing: a ledger restored from it and fed any further transfers gives,
  for every account and block, the answers of the ledger that went on running, though its objects
  and its index are new.
\<close>

theorem restored_ledger_continues:
  assumes good: "ledgerGood L owner" and erc: "erc721 owner (sort_key position ts)"
  shows "heldAt (ingest (restore (snapshot L)) ts) a block = heldAt (ingest L ts) a block"
proof (cases "toLower a \<in> set (keys (lgState L))")
  case False
  then show ?thesis
    using restore_snapshot(2) [OF good] by (simp add: heldAt_answer del: set_map)
next
  case True
  note r = restore_snapshot [OF good]
  have "accountGood L owner (toLower a)" "accountGood (restore (snapshot L)) owner (toLower a)"
    "ledgerInv L"
    using True good r(2,4) by (simp_all add: ledgerGood_def del: set_map)
  with ingest_saved erc r(1) have "savedAccount (stateOf (ingest (restore (snapshot L)) ts) (toLower a)) =
      savedAccount (stateOf (ingest L ts) (toLower a))"
    using r(3) [OF True] by metis
  then show ?thesis using r(2) by (simp add: heldAt_answer del: set_map)
qed

end
