(* ===== verification/Lp_Tracker.thy ===== *)
theory Lp_Tracker
  imports Lp_Checkpoint
begin

text \<open>
  Feeding the ledger from the chain (\<open>sdk/src/protocols/uniswapLpOwnership.ts\<close>): the reading of
  transfer logs with their senders, the tracker's seeding and chunked syncing, and that the live
  scorer and the sweep after the run value the same positions. Node reads are parameters.
\<close>

section \<open>Reading the logs\<close>

text \<open>
  \<open>readLpTransfers\<close>. The node's answers are arguments: the two filtered queries over the range, and
  the transactions (hash and sender) of a block.
\<close>

record transferLog =
  lgFrom :: "string option"
  lgTo :: "string option"
  lgTokenId :: "int option"
  lgBlockNumber :: "int option"
  lgLogIndex :: "int option"
  lgTransactionHash :: "string option"
  lgRemoved :: bool

definition readableLog :: "transferLog \<Rightarrow> bool" where
  "readableLog l \<longleftrightarrow> \<not> lgRemoved l \<and> lgBlockNumber l \<noteq> None \<and> lgLogIndex l \<noteq> None \<and>
    lgFrom l \<noteq> None \<and> lgTo l \<noteq> None \<and> lgTokenId l \<noteq> None"

definition logKey :: "transferLog \<Rightarrow> int \<times> int" where
  "logKey l = (the (lgBlockNumber l), the (lgLogIndex l))"

definition logsByPosition :: "transferLog list \<Rightarrow> ((int \<times> int) \<times> transferLog) list" where
  "logsByPosition logs = foldl (\<lambda>m l. if readableLog l then AList.update (logKey l) l m else m) [] logs"

definition senderBlocks :: "string list \<Rightarrow> transferLog list \<Rightarrow> int list" where
  "senderBlocks accounts logs = rev (remdups (rev
    (map (\<lambda>l. the (lgBlockNumber l))
      (filter (\<lambda>l. toLower (the (lgTo l)) \<in> set (map toLower accounts)) logs))))"

definition senderByTx :: "(string \<times> string) list list \<Rightarrow> (string \<times> string) list" where
  "senderByTx blocks =
    foldl (\<lambda>m (hash, sender). AList.update (toLower hash) sender m) [] (concat blocks)"

definition resolvedTransfer :: "(string \<times> string) list \<Rightarrow> transferLog \<Rightarrow> LpTransfer" where
  "resolvedTransfer senders l = \<lparr>
    ltFrom = the (lgFrom l), ltTo = the (lgTo l), ltTokenId = the (lgTokenId l),
    ltBlock = the (lgBlockNumber l), ltLogIndex = the (lgLogIndex l),
    ltTxFrom = (case lgTransactionHash l of None \<Rightarrow> None | Some h \<Rightarrow> map_of senders (toLower h))\<rparr>"

definition readLpTransfers ::
  "(string list \<Rightarrow> int \<Rightarrow> int \<Rightarrow> 'e + transferLog list) \<Rightarrow> (string list \<Rightarrow> int \<Rightarrow> int \<Rightarrow> 'e + transferLog list) \<Rightarrow>
    (int \<Rightarrow> 'e + (string \<times> string) list) \<Rightarrow> string list \<Rightarrow> int \<Rightarrow> int \<Rightarrow> 'e + LpTransfer list" where
  "readLpTransfers incoming outgoing getBlock accounts fromBlock toBlock =
    (if accounts = [] \<or> fromBlock > toBlock then Inr []
     else bindR (incoming accounts fromBlock toBlock) (\<lambda>ins.
       bindR (outgoing accounts fromBlock toBlock) (\<lambda>outs. (let
         logs = map snd (logsByPosition (ins @ outs));
         blocks = senderBlocks accounts logs
       in bindR (mapR getBlock blocks) (\<lambda>txs.
         Inr (map (resolvedTransfer (senderByTx txs)) logs))))))"

text \<open>\<open>enumerateLpPositions\<close>: at most the bound, by index.\<close>

definition enumerateLpPositions ::
  "(string \<Rightarrow> 'e + int) \<Rightarrow> (string \<Rightarrow> int \<Rightarrow> 'e + int) \<Rightarrow> string \<Rightarrow> 'e + (int \<times> int list)" where
  "enumerateLpPositions balanceOf tokenOfOwnerByIndex account =
    bindR (balanceOf account) (\<lambda>balance.
      bindR (mapR (\<lambda>i. tokenOfOwnerByIndex account (int i)) [0..<min (nat balance) LP_POSITIONS_LIMIT])
        (\<lambda>tokenIds. Inr (balance, tokenIds)))"

section \<open>The tracker\<close>

definition LOG_CHUNK_BLOCKS :: int where "LOG_CHUNK_BLOCKS = 2000"

record tracker =
  tkLedger :: ledger
  tkScannedThrough :: "int option"
  tkPendingSeed :: "string list"

definition addSet :: "'a list \<Rightarrow> 'a \<Rightarrow> 'a list" where
  "addSet s a = (if a \<in> set s then s else s @ [a])"

definition newTracker :: "string list \<Rightarrow> int option \<Rightarrow> tracker" where
  "newTracker accounts fromBlock = \<lparr>tkLedger = newLedger accounts,
     tkScannedThrough = map_option (\<lambda>b. b - 1) fromBlock,
     tkPendingSeed = foldl (\<lambda>s a. addSet s (toLower a)) [] accounts\<rparr>"

definition trackerTrack :: "string \<Rightarrow> tracker \<Rightarrow> tracker" where
  "trackerTrack account T =
    (if tracks (tkLedger T) account then T
     else T\<lparr>tkLedger := trackAccount account (tkLedger T),
            tkPendingSeed := addSet (tkPendingSeed T) (toLower account)\<rparr>)"

text \<open>
  \<open>seedPending\<close>: the pending accounts' holdings at the block before the first logs, all read before
  any is recorded.
\<close>

definition seedPending ::
  "(string \<Rightarrow> int \<Rightarrow> 'e + int list) \<Rightarrow> int \<Rightarrow> tracker \<Rightarrow> 'e + tracker" where
  "seedPending enumHeld block T = (let accounts = tkPendingSeed T in
    bindR (mapR (\<lambda>account. if block < 0 then Inr [] else enumHeld account block) accounts) (\<lambda>seeds.
      Inr (foldl (\<lambda>T (account, ids). T\<lparr>tkLedger := seed account ids (tkLedger T),
             tkPendingSeed := removeAll account (tkPendingSeed T)\<rparr>)
           T (zip accounts seeds))))"

text \<open>
  The loop of \<open>sync\<close>, one chunk a round: the tracker as far as it got, and the error that stopped it.
\<close>

function syncLoop ::
  "(string list \<Rightarrow> int \<Rightarrow> int \<Rightarrow> 'e + LpTransfer list) \<Rightarrow> int \<Rightarrow> ledger \<Rightarrow> int \<Rightarrow> ledger \<times> int \<times> 'e option" where
  "syncLoop read block L scanned =
    (if scanned < block
     then (let first = scanned + 1; last = min block (first + LOG_CHUNK_BLOCKS - 1) in
       case read (keys (lgState L)) first last of
         Inl e \<Rightarrow> (L, scanned, Some e)
       | Inr transfers \<Rightarrow> syncLoop read block (ingest L transfers) last)
     else (L, scanned, None))"
  by pat_completeness auto
termination
  by (relation "measure (\<lambda>(read, block, L, scanned). nat (block - scanned))")
    (auto simp: LOG_CHUNK_BLOCKS_def)

definition sync ::
  "(string list \<Rightarrow> int \<Rightarrow> int \<Rightarrow> 'e + LpTransfer list) \<Rightarrow> (string \<Rightarrow> int \<Rightarrow> 'e + int list) \<Rightarrow>
    int \<Rightarrow> tracker \<Rightarrow> tracker \<times> 'e option" where
  "sync read enumHeld block T = (let
      scanned = (case tkScannedThrough T of None \<Rightarrow> block | Some b \<Rightarrow> b);
      T1 = T\<lparr>tkScannedThrough := Some scanned\<rparr>
    in case (if tkPendingSeed T1 \<noteq> [] then seedPending enumHeld scanned T1 else Inr T1) of
         Inl e \<Rightarrow> (T1, Some e)
       | Inr T2 \<Rightarrow> (case syncLoop read block (tkLedger T2) scanned of (L, through, err) \<Rightarrow>
           (T2\<lparr>tkLedger := L, tkScannedThrough := Some through\<rparr>, err)))"

definition rebuildAtNextSync :: "tracker \<Rightarrow> tracker" where
  "rebuildAtNextSync T = T\<lparr>tkScannedThrough := None,
     tkPendingSeed := foldl (\<lambda>s a. addSet s (toLower a)) (tkPendingSeed T) (keys (lgState (tkLedger T)))\<rparr>"

record trackerState =
  tsScannedThrough :: "int option"
  tsPendingSeed :: "string list"
  tsLedger :: "(string \<times> holding accountState) list"

definition trackerSnapshot :: "tracker \<Rightarrow> trackerState" where
  "trackerSnapshot T = \<lparr>tsScannedThrough = tkScannedThrough T, tsPendingSeed = tkPendingSeed T,
     tsLedger = snapshot (tkLedger T)\<rparr>"

definition trackerRestore :: "string list \<Rightarrow> trackerState \<Rightarrow> tracker" where
  "trackerRestore accounts S = foldl (\<lambda>T a. if tracks (tkLedger T) a then T else trackerTrack a T)
    \<lparr>tkLedger = restore (tsLedger S), tkScannedThrough = tsScannedThrough S,
     tkPendingSeed = foldl (\<lambda>s a. addSet s (toLower a)) [] (tsPendingSeed S)\<rparr> accounts"

declare syncLoop.simps [simp del]

section \<open>Live and after the run\<close>

text \<open>
  A reader that answers a range with the chain's transfers in that range, for the accounts asked.
\<close>

definition readsChain ::
  "(string list \<Rightarrow> int \<Rightarrow> int \<Rightarrow> 'e + LpTransfer list) \<Rightarrow> (string list \<Rightarrow> LpTransfer list) \<Rightarrow> bool" where
  "readsChain read chain \<longleftrightarrow> (\<forall>accounts a b. a \<le> b \<longrightarrow>
    read accounts a b = Inr (filter (\<lambda>t. a \<le> ltBlock t \<and> ltBlock t \<le> b) (chain accounts)))"

abbreviation blocksIn :: "int \<Rightarrow> int \<Rightarrow> LpTransfer list \<Rightarrow> LpTransfer list" where
  "blocksIn a b ts \<equiv> filter (\<lambda>t. a < ltBlock t \<and> ltBlock t \<le> b) ts"

lemma range_split_sorted:
  assumes "sorted (map position ts)" "a \<le> b" "b \<le> c"
  shows "blocksIn a c ts = blocksIn a b ts @ blocksIn b c ts"
  using assms(1)
proof (induction ts)
  case Nil
  then show ?case by simp
next
  case (Cons t ts)
  have "blocksIn a b ts = []" if "b < ltBlock t"
    using that Cons.prems by (auto simp: filter_empty_conv less_eq_prod_def)
  with Cons assms(2,3) show ?case by auto
qed

lemma ingest_range: "ingest L (blocksIn a b ts) = foldl ingestOne L (blocksIn a b (sort_key position ts))"
  by (simp add: ingest_def filter_sort)

lemma ingest_ranges:
  assumes "a \<le> b" "b \<le> c"
  shows "ingest (ingest L (blocksIn a b ts)) (blocksIn b c ts) = ingest L (blocksIn a c ts)"
  using range_split_sorted [OF sorted_sort_key assms, of ts] by (simp add: ingest_range)

text \<open>The loop, whatever its chunks, ingests the range once, in chain order.\<close>

lemma syncLoop_reads:
  assumes reads: "readsChain read chain" and "s \<le> b"
  shows "syncLoop read b L s = (ingest L (blocksIn s b (chain (keys (lgState L)))), b, None)"
  using assms(2)
proof (induction "nat (b - s)" arbitrary: s L rule: less_induct)
  case less
  show ?case
  proof (cases "s < b")
    case False
    with less.prems show ?thesis by (simp add: syncLoop.simps ingest_def)
  next
    case True
    define c where "c = min b (s + 1 + LOG_CHUNK_BLOCKS - 1)"
    have c: "s < c" "c \<le> b" using True by (auto simp: c_def LOG_CHUNK_BLOCKS_def)
    let ?ts = "chain (keys (lgState L))"
    have "read (keys (lgState L)) (s + 1) c = Inr (blocksIn s c ?ts)"
      using reads c by (simp add: readsChain_def add1_zle_eq)
    then have "syncLoop read b L s = syncLoop read b (ingest L (blocksIn s c ?ts)) c"
      using True by (simp add: syncLoop.simps [of read b L s] Let_def c_def)
    also have "\<dots> = (ingest (ingest L (blocksIn s c ?ts)) (blocksIn c b ?ts), b, None)"
      using less.hyps [of c "ingest L (blocksIn s c ?ts)"] c by simp
    also have "\<dots> = (ingest L (blocksIn s b ?ts), b, None)"
      using c by (simp add: ingest_ranges)
    finally show ?thesis .
  qed
qed

text \<open>The state of a tracker that has caught up and has nobody to seed.\<close>

definition settled :: "tracker \<Rightarrow> int \<Rightarrow> bool" where
  "settled T b \<longleftrightarrow> tkPendingSeed T = [] \<and> tkScannedThrough T = Some b"

lemma sync_settled:
  assumes "readsChain read chain" "settled T s" "s \<le> b"
  shows "sync read enumHeld b T =
    (T\<lparr>tkLedger := ingest (tkLedger T) (blocksIn s b (chain (keys (lgState (tkLedger T))))),
       tkScannedThrough := Some b\<rparr>, None)"
  using assms(2,3) by (simp add: sync_def settled_def Let_def syncLoop_reads [OF assms(1)])

text \<open>
  The live scorer: at each block it syncs, and at a boundary it also prunes what no later boundary
  can ask about.
\<close>

definition liveBlock ::
  "(string list \<Rightarrow> int \<Rightarrow> int \<Rightarrow> 'e + LpTransfer list) \<Rightarrow> (string \<Rightarrow> int \<Rightarrow> 'e + int list) \<Rightarrow>
    tracker \<Rightarrow> int \<times> bool \<Rightarrow> tracker" where
  "liveBlock read enumHeld T step = (case step of (block, boundary) \<Rightarrow> let
      T1 = fst (sync read enumHeld block T)
    in if boundary then T1\<lparr>tkLedger := prune block (tkLedger T1)\<rparr> else T1)"

lemma live_run:
  assumes "readsChain read chain" "settled T s" "sorted (s # map fst steps)" "ledgerInv (tkLedger T)"
    and "\<And>block. (block, True) \<in> set steps \<Longrightarrow> block < B"
  shows "heldAt (tkLedger (foldl (liveBlock read enumHeld) T steps)) a B =
    heldAt (ingest (tkLedger T) (blocksIn s (last (s # map fst steps)) (chain (keys (lgState (tkLedger T)))))) a B"
  using assms(2-5)
proof (induction steps arbitrary: T s)
  case Nil
  then show ?case by (simp add: ingest_def)
next
  case (Cons step steps)
  obtain b boundary where step: "step = (b, boundary)" by fastforce
  let ?L = "tkLedger T"
  let ?ts = "chain (keys (lgState ?L))"
  let ?M = "ingest ?L (blocksIn s b ?ts)"
  let ?e = "last (b # map fst steps)"
  define T1 where "T1 = liveBlock read enumHeld T step"
  have sb: "s \<le> b" using Cons.prems(2) step by simp
  have be: "b \<le> ?e" using Cons.prems(2) step by (cases steps rule: rev_cases) auto
  have ledger: "tkLedger T1 = (if boundary then prune b ?M else ?M)" and T1: "settled T1 b"
    using sync_settled [OF assms(1) Cons.prems(1) sb, of enumHeld] Cons.prems(1)
    by (auto simp: T1_def step liveBlock_def Let_def settled_def)
  have Minv: "ledgerInv ?M" using Cons.prems(3) by (rule ingest_inv)
  have same: "keys (lgState (tkLedger T1)) = keys (lgState ?L)" using ledger by simp
  have "heldAt (tkLedger (foldl (liveBlock read enumHeld) T1 steps)) a B =
      heldAt (ingest (tkLedger T1) (blocksIn b ?e ?ts)) a B"
    using Cons.IH [OF T1] Cons.prems(2,4) Minv ledger prune_inv [OF Minv] step same by (auto simp del: last.simps)
  also have "\<dots> = heldAt (ingest ?M (blocksIn b ?e ?ts)) a B"
  proof (cases boundary)
    case True
    have "b < B" using Cons.prems(4) True step by simp
    with ledger True prune_answers [OF Minv] show ?thesis by (simp add: list_all_iff del: last.simps)
  next
    case False
    with ledger show ?thesis by simp
  qed
  also have "\<dots> = heldAt (ingest ?L (blocksIn s ?e ?ts)) a B"
    by (simp only: ingest_ranges [OF sb be])
  finally show ?case by (simp add: T1_def step)
qed

lemma heldAt_from:
  assumes "ledgerInv L" "s \<le> B" "B \<le> e"
  shows "heldAt (ingest L (blocksIn s e ts)) a B = heldAt (ingest L (blocksIn s B ts)) a B"
proof -
  have "list_all (\<lambda>t. B < ltBlock t) (blocksIn B e (sort_key position ts))"
    by (simp add: list_all_iff)
  from ingest_later [OF ingest_inv [OF assms(1), of "blocksIn s B ts"] this]
  have "heldAt (ingest (ingest L (blocksIn s B ts)) (blocksIn B e ts)) a B =
      heldAt (ingest L (blocksIn s B ts)) a B"
    by (simp add: ingest_range [of _ B e])
  then show ?thesis using ingest_ranges [OF assms(2,3)] by simp
qed

text \<open>
  C29. The live scorer and the sweep after the run value the same positions: a tracker synced block
  by block, pruned at every boundary before \<open>B\<close> and possibly read past \<open>B\<close>, and one synced
  once over the whole window, give the same answer for every account at the boundary \<open>B\<close>.
\<close>

theorem live_and_sweep_agree:
  assumes reads: "readsChain read chain" and T: "settled T s" "ledgerInv (tkLedger T)"
    and steps: "sorted (s # map fst steps)" "list_all (\<lambda>(block, boundary). boundary \<longrightarrow> block < B) steps"
    and reach: "s \<le> B" "B \<le> last (s # map fst steps)" "B \<le> final"
  shows "heldAt (tkLedger (foldl (liveBlock read enumHeld) T steps)) a B =
    heldAt (tkLedger (fst (sync read enumHeld final T))) a B"
proof -
  let ?ts = "chain (keys (lgState (tkLedger T)))"
  have early: "block < B" if "(block, True) \<in> set steps" for block
    using steps(2) that by (auto simp: list_all_iff)
  have final: "s \<le> final" using reach by simp
  have "heldAt (tkLedger (foldl (liveBlock read enumHeld) T steps)) a B =
      heldAt (ingest (tkLedger T) (blocksIn s (last (s # map fst steps)) ?ts)) a B"
    by (rule live_run [OF reads T(1) steps(1) T(2) early])
  also have "\<dots> = heldAt (ingest (tkLedger T) (blocksIn s B ?ts)) a B"
    by (rule heldAt_from [OF T(2) reach(1,2)])
  also have "\<dots> = heldAt (ingest (tkLedger T) (blocksIn s final ?ts)) a B"
    by (rule heldAt_from [OF T(2) reach(1,3), symmetric])
  finally show ?thesis unfolding sync_settled [OF reads T(1) final] by simp
qed

text \<open>A reader that may fail, and tells the truth when it does not.\<close>

definition readsTruly ::
  "(string list \<Rightarrow> int \<Rightarrow> int \<Rightarrow> 'e + LpTransfer list) \<Rightarrow> (string list \<Rightarrow> LpTransfer list) \<Rightarrow> bool" where
  "readsTruly read chain \<longleftrightarrow> (\<forall>accounts a b ts. read accounts a b = Inr ts \<longrightarrow>
    ts = filter (\<lambda>t. a \<le> ltBlock t \<and> ltBlock t \<le> b) (chain accounts))"

lemma syncLoop_partial:
  assumes reads: "readsTruly read chain" and "s \<le> b"
  shows "\<exists>c err. s \<le> c \<and> c \<le> b \<and>
    syncLoop read b L s = (ingest L (blocksIn s c (chain (keys (lgState L)))), c, err)"
  using assms(2)
proof (induction "nat (b - s)" arbitrary: s L rule: less_induct)
  case less
  let ?ts = "chain (keys (lgState L))"
  show ?case
  proof (cases "s < b")
    case False
    with less.prems show ?thesis by (simp add: syncLoop.simps ingest_def)
  next
    case True
    define c where "c = min b (s + 1 + LOG_CHUNK_BLOCKS - 1)"
    have c: "s < c" "c \<le> b" using True by (auto simp: c_def LOG_CHUNK_BLOCKS_def)
    show ?thesis
    proof (cases "read (keys (lgState L)) (s + 1) c")
      case (Inl e)
      then have "syncLoop read b L s = (L, s, Some e)"
        using True by (simp add: syncLoop.simps [of read b L s] Let_def c_def)
      with True show ?thesis by (intro exI [of _ s]) (simp add: ingest_def)
    next
      case (Inr ts)
      then have "ts = filter (\<lambda>t. s + 1 \<le> ltBlock t \<and> ltBlock t \<le> c) ?ts"
        using reads unfolding readsTruly_def by blast
      then have ts: "ts = blocksIn s c ?ts" by (simp only: add1_zle_eq)
      have "syncLoop read b L s = syncLoop read b (ingest L (blocksIn s c ?ts)) c"
        using True Inr ts by (simp add: syncLoop.simps [of read b L s] Let_def c_def)
      moreover obtain d err where d: "c \<le> d" "d \<le> b"
        "syncLoop read b (ingest L (blocksIn s c ?ts)) c =
          (ingest (ingest L (blocksIn s c ?ts)) (blocksIn c d ?ts), d, err)"
        using less.hyps [of c "ingest L (blocksIn s c ?ts)"] c by auto
      ultimately show ?thesis
        using c by (intro exI [of _ d] exI [of _ err]) (simp add: ingest_ranges)
    qed
  qed
qed

text \<open>
  A read that fails loses nothing and repeats nothing: wherever a sync stopped, the next sync
  to the same block brings the tracker to the state it would have reached without the failure.
\<close>

theorem failed_sync_resumes:
  assumes truly: "readsTruly flaky chain" and reads: "readsChain read chain"
    and T: "settled T s" and sb: "s \<le> b"
  shows "fst (sync read enumHeld b (fst (sync flaky enumHeld b T))) = fst (sync read enumHeld b T)"
proof -
  let ?ts = "chain (keys (lgState (tkLedger T)))"
  obtain c err where c: "s \<le> c" "c \<le> b"
    "syncLoop flaky b (tkLedger T) s = (ingest (tkLedger T) (blocksIn s c ?ts), c, err)"
    using syncLoop_partial [OF truly sb] by blast
  define T1 where "T1 = T\<lparr>tkLedger := ingest (tkLedger T) (blocksIn s c ?ts), tkScannedThrough := Some c\<rparr>"
  have one: "fst (sync flaky enumHeld b T) = T1"
    using T c(3) by (simp add: T1_def sync_def settled_def Let_def)
  have T1: "settled T1 c" using T by (simp add: T1_def settled_def)
  show ?thesis
    unfolding one sync_settled [OF reads T1 c(2)] sync_settled [OF reads T sb]
    by (simp add: T1_def ingest_ranges [OF c(1,2)])
qed

section \<open>Every operation keeps the ledger in order\<close>

lemma stateOf_track [simp]: "stateOf (trackAccount a L) k = stateOf L k"
proof (cases "toLower a \<in> set (keys (lgState L))")
  case True
  then show ?thesis by (simp add: trackAccount_def Let_def)
next
  case False
  then have "map_of (lgState L) (toLower a) = None" by (simp add: map_of_eq_None_iff)
  with False show ?thesis by (auto simp: trackAccount_def Let_def stateOf_def getOr_def)
qed

lemma track_fields [simp]:
  "lgOpen (trackAccount a L) = lgOpen L" "lgOpenOwn (trackAccount a L) = lgOpenOwn L"
  "lgNext (trackAccount a L) = lgNext L"
  by (simp_all add: trackAccount_def Let_def)

lemma keys_track: "keys (lgState (trackAccount a L)) =
  (if toLower a \<in> set (keys (lgState L)) then keys (lgState L) else keys (lgState L) @ [toLower a])"
  by (simp add: trackAccount_def Let_def keys_upd)

lemma track_inv: "ledgerInv L \<Longrightarrow> ledgerInv (trackAccount a L)"
  by (auto simp: ledgerInv_def keys_track simp del: set_map)

lemma stateOf_untracked: "k \<notin> set (keys (lgState L)) \<Longrightarrow> stateOf L k = emptyAccount"
  by (simp add: stateOf_def getOr_def map_of_eq_None_iff [THEN iffD2])

lemma emptyAccount_good [simp]:
  "indexed emptyAccount m" "ownsOpen owner k (savedAccount emptyAccount)"
  by (simp_all add: indexed_def emptyAccount_def ownsOpen_def savedAccount_def)

lemma track_good: "ledgerGood L owner \<Longrightarrow> ledgerGood (trackAccount a L) owner"
  by (auto simp: ledgerGood_def accountGood_def keys_track track_inv stateOf_untracked simp del: set_map)

lemma newLedger_good: "ledgerGood (newLedger accounts) owner"
proof -
  have "ledgerGood (foldl (\<lambda>L a. trackAccount a L) L accounts) owner" if "ledgerGood L owner" for L
    using that by (induction accounts arbitrary: L) (auto intro: track_good)
  moreover have "ledgerGood emptyLedger owner"
    by (simp add: ledgerGood_def emptyLedger_inv) (simp add: emptyLedger_def)
  ultimately show ?thesis by (simp add: newLedger_def)
qed

lemma ingest_good_foldl:
  assumes "ledgerGood L owner" "erc721 owner ts"
  shows "ledgerGood (foldl ingestOne L ts) (ownerAfter owner ts)"
  using assms
proof (induction ts arbitrary: L owner)
  case Nil
  then show ?case by simp
next
  case (Cons t ts)
  let ?o = "owner(ltTokenId t := toLower (ltTo t))"
  have t: "owner (ltTokenId t) = toLower (ltFrom t)" "erc721 owner [t]" and ts: "erc721 ?o ts"
    using Cons.prems(2) by simp_all
  have "accountGood (ingestOne L t) ?o k" if k: "k \<in> set (keys (lgState L))" for k
  proof -
    have g: "ledgerInv L" "indexed (stateOf L k) (lgOpen L k)" "ownsOpen owner k (savedAccount (stateOf L k))"
      using Cons.prems(1) k by (auto simp: ledgerGood_def accountGood_def simp del: set_map)
    note a = ingestOne_account [OF g(1) k g(2) erc721_single [OF t(2) g(3)]]
    show ?thesis
      using a k accountStep_owned [OF t(1) g(3)] by (simp add: accountGood_def del: set_map fun_upd_apply)
  qed
  then have "ledgerGood (ingestOne L t) ?o"
    using Cons.prems(1) by (simp add: ledgerGood_def ingestOne_inv del: set_map)
  from Cons.IH [OF this ts] show ?case by (simp only: ownerAfter.simps foldl.simps)
qed

text \<open>Seeding an account that is in order with tokens it owns.\<close>

lemma unindexOpen_eq:
  "unindexOpen hs m tid = (if list_ex (openAs tid) (map snd hs) then None else m tid)"
proof (induction hs arbitrary: m)
  case (Cons e hs)
  obtain r h where e: "e = (r, h)" by fastforce
  have "unindexOpen (e # hs) m tid =
      unindexOpen hs (if hUntil h = None then m(hTokenId h := None) else m) tid"
    by (simp add: unindexOpen_def e)
  with Cons.IH show ?case by (auto simp: e openAs_def)
qed (simp add: unindexOpen_def)

lemma unindex_inv:
  assumes inv: "accountInv n s m oo" and full: "indexed s m"
  shows "accountInv n (s\<lparr>asSeeded := []\<rparr>) (unindexOpen (asSeeded s) m) oo"
    and "indexed (s\<lparr>asSeeded := []\<rparr>) (unindexOpen (asSeeded s) m)"
proof -
  note d = accountInvD [OF inv]
  have apart: "\<not> list_ex (openAs (hTokenId h)) (map snd (asSeeded s))"
    if h: "(r, h) \<in> set (asOwn s)" "hUntil h = None" for r h
  proof
    assume "list_ex (openAs (hTokenId h)) (map snd (asSeeded s))"
    then obtain i g where g: "(i, g) \<in> set (asSeeded s)" "hTokenId g = hTokenId h" "hUntil g = None"
      by (auto simp: list_ex_iff openAs_def)
    have "m (hTokenId h) = Some r" "m (hTokenId g) = Some i"
      using indexedD [OF full, of r h] indexedD [OF full, of i g] h g by simp_all
    then have "i = r" using g(2) by simp
    moreover have "fst ` set (asOwn s) \<inter> fst ` set (asSeeded s) = {}" using d(1) by simp
    ultimately show False using h(1) g(1) by force
  qed
  show "indexed (s\<lparr>asSeeded := []\<rparr>) (unindexOpen (asSeeded s) m)"
    by (rule indexedI) (use apart indexedD [OF full] in \<open>auto simp: unindexOpen_eq\<close>)
  have idx: "\<exists>h. (r, h) \<in> set (asOwn s) \<and> hTokenId h = tid \<and> hUntil h = None"
    if "unindexOpen (asSeeded s) m tid = Some r" for tid r
  proof -
    have m: "m tid = Some r" and no: "\<not> list_ex (openAs tid) (map snd (asSeeded s))"
      using that by (auto simp: unindexOpen_eq split: if_splits)
    from d(5) [OF m] obtain h where h: "(r, h) \<in> set (entries s)" "hTokenId h = tid" "hUntil h = None" by blast
    moreover have "(r, h) \<notin> set (asSeeded s)" using no h(2,3) by (force simp: list_ex_iff openAs_def)
    ultimately show ?thesis by auto
  qed
  have own: "\<forall>(r, h) \<in> set (asOwn s). hFrom h \<noteq> None" using d(3) by blast
  have lt: "\<forall>r \<in> set (keys (asOwn s)). r < n" using d(2) by simp
  show "accountInv n (s\<lparr>asSeeded := []\<rparr>) (unindexOpen (asSeeded s) m) oo"
    unfolding accountInv_def using d(1,6) own lt idx by simp
qed

lemma seedOne_inv:
  assumes inv: "accountInv n (s\<lparr>asSeeded := hs\<rparr>) m oo" and full: "indexed (s\<lparr>asSeeded := hs\<rparr>) m"
    and step: "seedOne (hs, m, n) tid = (hs', m', n')"
  shows "accountInv n' (s\<lparr>asSeeded := hs'\<rparr>) m' oo \<and> indexed (s\<lparr>asSeeded := hs'\<rparr>) m' \<and> n \<le> n' \<and>
    (\<forall>h \<in> snd ` set hs'. h \<in> snd ` set hs \<or> hTokenId h = tid)"
proof (cases "m tid")
  case (Some r)
  with assms show ?thesis by (auto simp: seedOne_def)
next
  case None
  note d = accountInvD [OF inv]
  let ?h = "\<lparr>hTokenId = tid, hFrom = None, hUntil = None\<rparr>"
  have eq: "hs' = hs @ [(n, ?h)]" "m' = m(tid \<mapsto> n)" "n' = Suc n"
    using step None by (auto simp: seedOne_def)
  have fresh: "n \<notin> set (keys (entries (s\<lparr>asSeeded := hs\<rparr>)))" using d(2) by blast
  have lt: "\<forall>r \<in> set (keys (entries (s\<lparr>asSeeded := hs\<rparr>))). r < Suc n" using d(2) less_SucI by blast
  have idx: "\<exists>h. (r, h) \<in> set (entries (s\<lparr>asSeeded := hs'\<rparr>)) \<and> hTokenId h = t' \<and> hUntil h = None"
    if "m' t' = Some r" for t' r
    using d(5) [of t' r] that eq by (auto split: if_splits)
  have own: "\<forall>(r, h) \<in> set (asOwn s). hFrom h \<noteq> None" using d(3) by fastforce
  have seeded: "\<forall>(r, h) \<in> set hs. hFrom h = None" using d(4) by fastforce
  have "accountInv n' (s\<lparr>asSeeded := hs'\<rparr>) m' oo"
    unfolding accountInv_def using d(1,6) fresh lt idx own seeded eq by auto
  moreover have "indexed (s\<lparr>asSeeded := hs'\<rparr>) m'"
  proof (rule indexedI)
    fix r h
    assume "(r, h) \<in> set (entries (s\<lparr>asSeeded := hs'\<rparr>))" "hUntil h = None"
    then consider "r = n" "h = ?h" | "(r, h) \<in> set (entries (s\<lparr>asSeeded := hs\<rparr>))"
      using eq by auto
    then show "m' (hTokenId h) = Some r"
    proof cases
      case 1
      with eq show ?thesis by simp
    next
      case 2
      from indexedD [OF full this] \<open>hUntil h = None\<close> None eq show ?thesis by auto
    qed
  qed
  ultimately show ?thesis using eq by auto
qed

lemma seed_fold:
  assumes "accountInv n (s\<lparr>asSeeded := hs\<rparr>) m oo" "indexed (s\<lparr>asSeeded := hs\<rparr>) m"
    and "foldl seedOne (hs, m, n) ids = (hs', m', n')"
  shows "accountInv n' (s\<lparr>asSeeded := hs'\<rparr>) m' oo \<and> indexed (s\<lparr>asSeeded := hs'\<rparr>) m' \<and> n \<le> n' \<and>
    (\<forall>h \<in> snd ` set hs'. h \<in> snd ` set hs \<or> hTokenId h \<in> set ids)"
  using assms
proof (induction ids arbitrary: hs m n)
  case Nil
  then show ?case by simp
next
  case (Cons tid ids)
  obtain hs1 m1 n1 where one: "seedOne (hs, m, n) tid = (hs1, m1, n1)" by (metis prod_cases3)
  note a = seedOne_inv [OF Cons.prems(1,2) one]
  have rest: "foldl seedOne (hs1, m1, n1) ids = (hs', m', n')" using Cons.prems(3) one by simp
  from Cons.IH [OF _ _ rest] a show ?case by fastforce
qed

lemma seed_good:
  assumes good: "ledgerGood L owner" and owned: "list_all (\<lambda>tid. owner tid = toLower a) ids"
  shows "ledgerGood (seed a ids L) owner"
proof -
  let ?k = "toLower a"
  let ?L = "trackAccount a L"
  let ?s = "stateOf ?L ?k"
  have L: "ledgerGood ?L owner" using good by (rule track_good)
  have k: "?k \<in> set (keys (lgState ?L))" by (simp add: keys_track)
  have inv: "ledgerInv ?L" and full: "indexed ?s (lgOpen ?L ?k)"
    and own: "ownsOpen owner ?k (savedAccount ?s)"
    using L k by (auto simp: ledgerGood_def accountGood_def simp del: set_map)
  note start = unindex_inv [OF ledgerInvD(3) [OF inv] full]
  obtain hs m n where f: "foldl seedOne ([], unindexOpen (asSeeded ?s) (lgOpen ?L ?k), lgNext ?L)
      (List.take LP_POSITIONS_LIMIT ids) = (hs, m, n)" by (metis prod_cases3)
  note a = seed_fold [OF start f]
  have eq: "seed a ids L = (putState ?k (?s\<lparr>asSeeded := hs\<rparr>) ?L)
      \<lparr>lgOpen := (lgOpen ?L)(?k := m), lgNext := n\<rparr>"
    using f by (simp add: seed_def Let_def del: stateOf_track track_fields)
  have keys1: "keys (lgState (seed a ids L)) = keys (lgState ?L)"
    using k by (simp add: eq keys_upd del: set_map)
  have mine: "ownsOpen owner ?k (savedAccount (?s\<lparr>asSeeded := hs\<rparr>))"
  proof -
    have "hTokenId h \<in> set ids" if "h \<in> snd ` set hs" for h
      using a that by (auto dest: in_set_takeD)
    then have "owner (hTokenId h) = ?k" if "(r, h) \<in> set hs" for r h
      using that owned by (force simp: list_all_iff)
    then show ?thesis using own by (auto simp: ownsOpen_def list_all_iff)
  qed
  have "accountInv n (stateOf (seed a ids L) j) (lgOpen (seed a ids L) j) (lgOpenOwn (seed a ids L) j)" for j
  proof (cases "j = ?k")
    case True
    with a show ?thesis by (simp add: eq)
  next
    case False
    have "accountInv n (stateOf ?L j) (lgOpen ?L j) (lgOpenOwn ?L j)"
      using accountInv_mono [OF ledgerInvD(3) [OF inv]] a by blast
    with False show ?thesis by (simp add: eq)
  qed
  then have "ledgerInv (seed a ids L)"
    using inv keys1 by (simp add: ledgerInv_def eq del: set_map)
  moreover have "accountGood (seed a ids L) owner j" if "j \<in> set (keys (lgState ?L))" for j
    using L that a mine keys1 by (cases "j = ?k") (simp_all add: ledgerGood_def accountGood_def eq del: set_map)
  ultimately show ?thesis using keys1 by (simp add: ledgerGood_def del: set_map)
qed

lemma prune_good: "ledgerGood L owner \<Longrightarrow> ledgerGood (prune block L) owner"
proof -
  have "indexed (pruneAccount block s) m" if "indexed s m" for s m
    by (rule indexedI) (use indexedD [OF that] in \<open>auto simp: pruneAccount_eq\<close>)
  moreover have "ownsOpen owner k (savedAccount (pruneAccount block s))" if "ownsOpen owner k (savedAccount s)" for k s
    using that by (auto simp: ownsOpen_def list_all_iff pruneAccount_eq)
  moreover assume "ledgerGood L owner"
  ultimately show ?thesis by (simp add: ledgerGood_def accountGood_def prune_inv)
qed

text \<open>
  The shared objects, the index and the counter stay in order: while the tokens move as ERC-721
  tokens do and seeds name tokens their account owns, every operation keeps the ledger's invariant,
  the completeness of every index, and that what is open is owned.
\<close>

theorem ledger_stays_in_order:
  assumes good: "ledgerGood L owner"
    and owned: "list_all (\<lambda>tid. owner tid = toLower a) ids"
    and erc: "erc721 owner (sort_key position ts)"
  shows "ledgerGood (trackAccount a L) owner \<and> ledgerGood (seed a ids L) owner \<and>
    ledgerGood (ingest L ts) (ownerAfter owner (sort_key position ts)) \<and>
    ledgerGood (prune block L) owner \<and> ledgerGood (restore (snapshot L)) owner"
  using track_good [OF good] seed_good [OF good owned] ingest_good_foldl [OF good erc]
    prune_good [OF good] restore_snapshot(4) [OF good]
  by (simp add: ingest_def)

section \<open>The properties at work\<close>

text \<open>A mint of one's own, a mint by somebody else, and a sale, handed over out of order.\<close>

definition exampleTransfers :: "LpTransfer list" where
  "exampleTransfers =
    [\<lparr>ltFrom = ''0xA'', ltTo = ''0xB'', ltTokenId = 7, ltBlock = 9, ltLogIndex = 0, ltTxFrom = Some ''0xA''\<rparr>,
     \<lparr>ltFrom = ''0x0'', ltTo = ''0xA'', ltTokenId = 7, ltBlock = 5, ltLogIndex = 1, ltTxFrom = Some ''0xa''\<rparr>,
     \<lparr>ltFrom = ''0x0'', ltTo = ''0xA'', ltTokenId = 8, ltBlock = 5, ltLogIndex = 0, ltTxFrom = Some ''0xb''\<rparr>]"

definition exampleLedger :: ledger where
  "exampleLedger = newLedger [''0xA'', ''0xB'']"

lemma example_good: "ledgerGood exampleLedger owner"
  unfolding exampleLedger_def by (rule newLedger_good)

lemma example_inv: "ledgerInv exampleLedger"
  using example_good [of "\<lambda>_. []"] by (simp add: ledgerGood_def)

lemma example_account: "accountGood exampleLedger owner (toLower ''0xA'')"
proof -
  have "toLower ''0xA'' \<in> set (keys (lgState exampleLedger))" by code_simp
  with example_good [of owner] show ?thesis by (auto simp: ledgerGood_def simp del: set_map)
qed

lemma example_erc721: "erc721 (\<lambda>_. ''0x0'') (sort_key position exampleTransfers)"
  by code_simp

lemma ledger_refines_account_witness:
  "heldAt (ingest exampleLedger exampleTransfers) ''0xA'' 6 = Some \<lparr>haTokenIds = [7], haOwn = 1, haSeeded = 0, haOverflow = 0\<rparr>"
proof -
  have "Some (answer 6 (foldl (accountStep (toLower ''0xA'')) (savedAccount (stateOf exampleLedger (toLower ''0xA'')))
      (sort_key position exampleTransfers))) = Some \<lparr>haTokenIds = [7], haOwn = 1, haSeeded = 0, haOverflow = 0\<rparr>"
    by code_simp
  with ledger_refines_account [OF example_inv example_account example_erc721, of 6] show ?thesis by simp
qed

lemma only_own_arrivals_count_witness:
  "heldAt (ingest exampleLedger (filter (concerns (toLower ''0xA'')) exampleTransfers)) ''0xA'' 9 =
    heldAt (ingest exampleLedger exampleTransfers) ''0xA'' 9 \<and>
   length (filter (concerns (toLower ''0xA'')) exampleTransfers) = 2"
proof -
  have "length (filter (concerns (toLower ''0xA'')) exampleTransfers) = 2" by code_simp
  with only_own_arrivals_count [OF example_inv example_account example_erc721, of 9] show ?thesis by simp
qed

lemma restored_ledger_continues_witness:
  "heldAt (ingest (restore (snapshot exampleLedger)) exampleTransfers) ''0xB'' 9 =
    heldAt (ingest exampleLedger exampleTransfers) ''0xB'' 9"
  by (rule restored_ledger_continues [OF example_good example_erc721])

lemma ledger_stays_in_order_witness:
  "ledgerGood (seed ''0x0'' [1, 2] exampleLedger) (\<lambda>_. ''0x0'') \<and>
   ledgerGood (ingest exampleLedger exampleTransfers)
     (ownerAfter (\<lambda>_. ''0x0'') (sort_key position exampleTransfers))"
proof -
  have "list_all (\<lambda>tid. ''0x0'' = toLower ''0x0'') [1, 2 :: int]" by code_simp
  from ledger_stays_in_order [OF example_good this example_erc721] show ?thesis by simp
qed

definition exampleReader :: "string list \<Rightarrow> int \<Rightarrow> int \<Rightarrow> string + LpTransfer list" where
  "exampleReader accounts a b = Inr (filter (\<lambda>t. a \<le> ltBlock t \<and> ltBlock t \<le> b) exampleTransfers)"

definition flakyReader :: "string list \<Rightarrow> int \<Rightarrow> int \<Rightarrow> string + LpTransfer list" where
  "flakyReader accounts a b = (if a > 2000 then Inl ''rpc'' else exampleReader accounts a b)"

lemma exampleReader_reads: "readsChain exampleReader (\<lambda>_. exampleTransfers)"
  by (simp add: readsChain_def exampleReader_def)

lemma flakyReader_truly: "readsTruly flakyReader (\<lambda>_. exampleTransfers)"
  by (auto simp: readsTruly_def flakyReader_def exampleReader_def split: if_splits)

definition exampleTracker :: tracker where
  "exampleTracker = \<lparr>tkLedger = exampleLedger, tkScannedThrough = Some 0, tkPendingSeed = []\<rparr>"

lemma exampleTracker_settled: "settled exampleTracker 0"
  by (simp add: settled_def exampleTracker_def)

lemma exampleTracker_inv: "ledgerInv (tkLedger exampleTracker)"
  by (simp add: exampleTracker_def example_inv)

lemma live_and_sweep_agree_witness:
  "heldAt (tkLedger (foldl (liveBlock exampleReader (\<lambda>_ _. Inr [])) exampleTracker
      [(4, False), (5, True), (8, False), (9, False)])) ''0xA'' 8 =
    heldAt (tkLedger (fst (sync exampleReader (\<lambda>_ _. Inr []) 5000 exampleTracker))) ''0xA'' 8"
  by (rule live_and_sweep_agree [OF exampleReader_reads exampleTracker_settled exampleTracker_inv]) simp_all

lemma failed_sync_resumes_witness:
  "snd (sync flakyReader (\<lambda>_ _. Inr []) 5000 exampleTracker) = Some ''rpc'' \<and>
   fst (sync exampleReader (\<lambda>_ _. Inr []) 5000 (fst (sync flakyReader (\<lambda>_ _. Inr []) 5000 exampleTracker))) =
    fst (sync exampleReader (\<lambda>_ _. Inr []) 5000 exampleTracker)"
proof
  show "fst (sync exampleReader (\<lambda>_ _. Inr []) 5000 (fst (sync flakyReader (\<lambda>_ _. Inr []) 5000 exampleTracker))) =
    fst (sync exampleReader (\<lambda>_ _. Inr []) 5000 exampleTracker)"
    by (rule failed_sync_resumes [OF flakyReader_truly exampleReader_reads exampleTracker_settled]) simp
  have "syncLoop flakyReader 5000 L 2000 = (L, 2000, Some ''rpc'')" for L
    by (simp add: syncLoop.simps [of _ _ _ 2000] flakyReader_def LOG_CHUNK_BLOCKS_def)
  then show "snd (sync flakyReader (\<lambda>_ _. Inr []) 5000 exampleTracker) = Some ''rpc''"
    by (simp add: sync_def exampleTracker_def Let_def syncLoop.simps [of _ _ _ 0] flakyReader_def
        exampleReader_def LOG_CHUNK_BLOCKS_def)
qed

end
