(* ===== verification/Epoch_Extent.thy ===== *)
theory Epoch_Extent
  imports Prelude
begin

text \<open>
  Where an epoch ends and which blocks it is valued at (\<open>core/src/epochExtent.ts\<close>), and the
  coordinator's block handler that walks it (\<open>onBlock\<close> in \<open>core/src/realtime/coordinator.ts\<close>) as a
  state machine: which notifications start a pass, what a pass covers, and when the run is over.
  Block numbers of the handler are integers; the boundary grid takes any finite number, as the
  code does.
\<close>

section \<open>The grid\<close>

definition epochEndBlock :: "real \<Rightarrow> jsnum \<Rightarrow> real option" where
  "epochEndBlock runStartBlock runBlocks =
     (case runBlocks of
        NonFin \<Rightarrow> None
      | Fin n \<Rightarrow> if \<not> 0 < n then None else Some (runStartBlock + of_int \<lfloor>n\<rfloor>))"

definition nextIntervalBoundary :: "real \<Rightarrow> real \<Rightarrow> real option \<Rightarrow> real option" where
  "nextIntervalBoundary boundary intervalBlocks endBlock =
     (if endBlock \<noteq> None \<and> the endBlock \<le> boundary then None
      else (let nxt = boundary + intervalBlocks
            in Some (case endBlock of None \<Rightarrow> nxt | Some e \<Rightarrow> min nxt e)))"

text \<open>The loop pushes boundaries until there is no next one; it need not end for a step of 0.\<close>

partial_function (option) boundaryLoop :: "real \<Rightarrow> real \<Rightarrow> real option \<Rightarrow> real list option" where
  "boundaryLoop step toBlock b =
     (case b of
        None \<Rightarrow> Some []
      | Some x \<Rightarrow>
          Option.bind (boundaryLoop step toBlock (nextIntervalBoundary x step (Some toBlock)))
            (\<lambda>rest. Some (x # rest)))"

definition intervalBoundaryBlocks :: "real \<Rightarrow> real \<Rightarrow> jsnum \<Rightarrow> real list option" where
  "intervalBoundaryBlocks fromBlock toBlock intervalBlocks =
     (case intervalBlocks of
        NonFin \<Rightarrow> Some []
      | Fin n \<Rightarrow>
          (let step = of_int \<lfloor>n\<rfloor>
           in if step < 1 then Some []
              else if \<not> fromBlock < toBlock then Some []
              else Option.bind
                     (boundaryLoop step toBlock (nextIntervalBoundary fromBlock step (Some toBlock)))
                     (\<lambda>rest. Some (fromBlock # rest))))"

definition intervalCount :: "real \<Rightarrow> jsnum \<Rightarrow> nat option" where
  "intervalCount runBlocks intervalBlocks =
     map_option (\<lambda>bs. length bs - 1) (intervalBoundaryBlocks 0 runBlocks intervalBlocks)"

text \<open>What the loop gives from a boundary before the end: one step at a time, the end last.\<close>

definition onGrid :: "real \<Rightarrow> real \<Rightarrow> real \<Rightarrow> real list \<Rightarrow> bool" where
  "onGrid step a b bs \<longleftrightarrow> bs \<noteq> [] \<and> bs ! 0 = a \<and> last bs = b
     \<and> (\<forall>i. Suc i < length bs \<longrightarrow> bs ! i = a + real i * step)
     \<and> (\<forall>i. Suc i < length bs \<longrightarrow> bs ! i < bs ! Suc i \<and> bs ! Suc i \<le> bs ! i + step)"

lemma onGrid_Cons:
  assumes "onGrid step (a + step) b bs" "0 < step"
  shows "onGrid step a b (a # bs)"
proof -
  have "(a # bs) ! i = a + real i * step" if "Suc i < length (a # bs)" for i
    using assms that by (cases i) (auto simp: onGrid_def algebra_simps)
  moreover have "(a # bs) ! i < (a # bs) ! Suc i \<and> (a # bs) ! Suc i \<le> (a # bs) ! i + step"
    if "Suc i < length (a # bs)" for i
    using assms that by (cases i) (auto simp: onGrid_def)
  ultimately show ?thesis using assms by (auto simp: onGrid_def)
qed

lemma boundaryLoop_grid:
  assumes "0 < step" "x \<le> toBlock"
  shows "\<exists>bs. boundaryLoop step toBlock (Some x) = Some bs \<and> onGrid step x toBlock bs"
  using assms(2)
proof (induction "nat \<lceil>(toBlock - x) / step\<rceil>" arbitrary: x rule: less_induct)
  case less
  show ?case
  proof (cases "x + step < toBlock")
    case True
    let ?m = "\<lambda>y. nat \<lceil>(toBlock - y) / step\<rceil>"
    have eq: "(toBlock - x) / step = (toBlock - (x + step)) / step + 1"
      using assms(1) by (simp add: field_simps)
    have "0 < (toBlock - (x + step)) / step" using True assms(1) by simp
    then have "?m (x + step) < ?m x" unfolding eq by (simp add: ceiling_add_one) 
    from less.hyps [OF this] True obtain bs where
      bs: "boundaryLoop step toBlock (Some (x + step)) = Some bs" "onGrid step (x + step) toBlock bs"
      by auto
    have "nextIntervalBoundary x step (Some toBlock) = Some (x + step)"
      using True assms(1) by (simp add: nextIntervalBoundary_def)
    then show ?thesis
      using bs onGrid_Cons [OF bs(2) assms(1)] by (subst boundaryLoop.simps) simp
  next
    case False
    have last_one: "boundaryLoop step toBlock (Some toBlock) = Some [toBlock]"
      by (subst boundaryLoop.simps, subst boundaryLoop.simps) (simp add: nextIntervalBoundary_def)
    show ?thesis
    proof (cases "x = toBlock")
      case True
      then show ?thesis using last_one by (auto simp: onGrid_def)
    next
      case neq: False
      then have "nextIntervalBoundary x step (Some toBlock) = Some toBlock"
        using False less.prems by (auto simp: nextIntervalBoundary_def)
      then have "boundaryLoop step toBlock (Some x) = Some [x, toBlock]"
        using last_one by (subst boundaryLoop.simps) simp
      moreover have "onGrid step x toBlock [x, toBlock]"
        using False neq less.prems by (auto simp: onGrid_def less_Suc_eq)
      ultimately show ?thesis by blast
    qed
  qed
qed

text \<open>
  C5. Listing the boundaries always returns. When the series is enabled and the window is not
  empty the list starts at the window's first block, ends at its last, and every boundary but the
  last sits on the grid \<open>fromBlock + i \<cdot> interval\<close>, the last closing an interval that is no longer
  than the others; otherwise it is empty.
\<close>

theorem intervalBoundaryBlocks_grid:
  "\<exists>bs. intervalBoundaryBlocks fromBlock toBlock v = Some bs
    \<and> (if (\<exists>n. v = Fin n \<and> 1 \<le> n) \<and> fromBlock < toBlock
       then onGrid (of_int \<lfloor>the (finVal v)\<rfloor>) fromBlock toBlock bs else bs = [])"
proof (cases "(\<exists>n. v = Fin n \<and> 1 \<le> n) \<and> fromBlock < toBlock")
  case True
  then obtain n where n: "v = Fin n" "1 \<le> \<lfloor>n\<rfloor>" "fromBlock < toBlock" by auto
  let ?step = "of_int \<lfloor>n\<rfloor> :: real"
  have step: "1 \<le> ?step" using n(2) by simp
  from boundaryLoop_grid [of ?step fromBlock toBlock] step n(3) obtain bs where
    bs: "boundaryLoop ?step toBlock (Some fromBlock) = Some bs" "onGrid ?step fromBlock toBlock bs"
    by auto
  from bs(1) have "intervalBoundaryBlocks fromBlock toBlock v = Some bs"
    using n step by (subst (asm) boundaryLoop.simps) (simp add: intervalBoundaryBlocks_def Let_def)
  with bs(2) True n(1) show ?thesis by simp
next
  case False
  then have "intervalBoundaryBlocks fromBlock toBlock v = Some []"
    by (cases v) (auto simp: intervalBoundaryBlocks_def Let_def)
  with False show ?thesis by auto
qed

section \<open>One pass of the block handler\<close>

record loopStep =
  ls_fromBlock :: int
  ls_block :: int
  ls_final :: bool

definition loopStep :: "int \<Rightarrow> int \<Rightarrow> int option \<Rightarrow> loopStep" where
  "loopStep lastProcessedBlock notifiedBlock endBlock =
     (let block = (case endBlock of None \<Rightarrow> notifiedBlock | Some e \<Rightarrow> min notifiedBlock e)
      in \<lparr>ls_fromBlock = lastProcessedBlock + 1, ls_block = block,
          ls_final = (endBlock \<noteq> None \<and> the endBlock \<le> block)\<rparr>)"

text \<open>
  The handler's variables. A pass is what runs between \<open>processing = true\<close> and the \<open>finally\<close>
  block; \<open>pu_step\<close> is the step of the pass in flight.
\<close>

record pump =
  pu_finished :: bool
  pu_processing :: bool
  pu_passStarted :: bool
  pu_lastProcessedBlock :: int
  pu_sendHeadBlock :: "int option"
  pu_step :: "loopStep option"

definition pumpStart :: "int \<Rightarrow> pump" where
  "pumpStart lastProcessed = \<lparr>pu_finished = False, pu_processing = False, pu_passStarted = False,
     pu_lastProcessedBlock = lastProcessed, pu_sendHeadBlock = None, pu_step = None\<rparr>"

definition onBlock :: "int option \<Rightarrow> int \<Rightarrow> pump \<Rightarrow> pump" where
  "onBlock endBlock notifiedBn st =
     (let st = st\<lparr>pu_sendHeadBlock :=
          Some (max (case pu_sendHeadBlock st of None \<Rightarrow> 0 | Some h \<Rightarrow> h) notifiedBn)\<rparr>
      in if pu_processing st \<or> pu_finished st then st
         else if pu_passStarted st \<and> notifiedBn \<le> pu_lastProcessedBlock st then st
         else (let step = loopStep (pu_lastProcessedBlock st) notifiedBn endBlock
               in st\<lparr>pu_passStarted := True, pu_processing := True, pu_step := Some step,
                     pu_lastProcessedBlock := max (pu_lastProcessedBlock st) (ls_block step)\<rparr>))"

text \<open>
  The \<open>finally\<close> block: the run is over after a final pass; under gated mining a head that was
  dropped meanwhile is handed to \<open>onBlock\<close> again (the second component).
\<close>

definition passEnd :: "bool \<Rightarrow> pump \<Rightarrow> pump \<times> int option" where
  "passEnd gated st =
     (let st' = st\<lparr>pu_processing := False, pu_step := None\<rparr>
      in if (\<exists>step \<in> set_option (pu_step st). ls_final step) then (st'\<lparr>pu_finished := True\<rparr>, None)
         else if gated \<and> pu_sendHeadBlock st \<noteq> None
                  \<and> pu_lastProcessedBlock st < the (pu_sendHeadBlock st)
         then (st', pu_sendHeadBlock st)
         else (st', None))"

text \<open>
  The handler and what it has done: the steps of its passes, the latest last. A notification may
  come at any time, a pass ends at any time after it began (whether it failed or not), and the
  wall-clock ceiling may end the run.
\<close>

inductive pumped :: "bool \<Rightarrow> int option \<Rightarrow> int \<Rightarrow> pump \<Rightarrow> loopStep list \<Rightarrow> bool"
  for gated endBlock start where
  opened: "pumped gated endBlock start (pumpStart start) []"
| notify: "pumped gated endBlock start st passes \<Longrightarrow> st' = onBlock endBlock n st \<Longrightarrow>
    passes' = (if pu_processing st' \<and> \<not> pu_processing st then passes @ [the (pu_step st')] else passes) \<Longrightarrow>
    pumped gated endBlock start st' passes'"
| pass_end: "pumped gated endBlock start st passes \<Longrightarrow> pu_processing st \<Longrightarrow>
    pumped gated endBlock start (fst (passEnd gated st)) passes"
| time_up: "pumped gated endBlock start st passes \<Longrightarrow>
    pumped gated endBlock start (st\<lparr>pu_finished := True\<rparr>) passes"


definition blocksOf :: "loopStep \<Rightarrow> int list" where
  "blocksOf p = [ls_fromBlock p..ls_block p]"

definition pumpInv :: "int option \<Rightarrow> int \<Rightarrow> pump \<Rightarrow> loopStep list \<Rightarrow> bool" where
  "pumpInv endBlock start st passes \<longleftrightarrow>
     concat (map blocksOf passes) = [start + 1..pu_lastProcessedBlock st]
     \<and> start \<le> pu_lastProcessedBlock st
     \<and> (\<forall>e. endBlock = Some e \<longrightarrow> start \<le> e \<longrightarrow> pu_lastProcessedBlock st \<le> e)
     \<and> (\<forall>p \<in> set passes. \<forall>e. endBlock = Some e \<longrightarrow> ls_block p \<le> e \<and> (ls_final p \<longleftrightarrow> ls_block p = e))
     \<and> (endBlock = None \<longrightarrow> (\<forall>p \<in> set passes. \<not> ls_final p))
     \<and> (\<forall>p \<in> set (butlast passes). \<not> ls_final p)
     \<and> (passes \<noteq> [] \<and> ls_final (last passes) \<longrightarrow> pu_finished st \<or> pu_processing st)
     \<and> (pu_processing st \<longrightarrow> passes \<noteq> [] \<and> pu_step st = Some (last passes))
     \<and> (pu_passStarted st \<longleftrightarrow> passes \<noteq> [])"

lemma upto_append: "a \<le> b + 1 \<Longrightarrow> b \<le> c \<Longrightarrow> [a..b] @ [b + 1..c] = [a..(c::int)]"
  using upto_split1 [of a "b + 1" c] by (cases "b = c") auto

lemma loopStep_simps [simp]:
  "ls_fromBlock (loopStep l n e) = l + 1"
  "ls_block (loopStep l n None) = n" "ls_block (loopStep l n (Some x)) = min n x"
  "ls_final (loopStep l n e) \<longleftrightarrow> (\<exists>x. e = Some x \<and> x \<le> n)"
  by (auto simp: loopStep_def Let_def split: option.splits)

lemma onBlock_cases:
  obtains (idle) h where "onBlock e n st = st\<lparr>pu_sendHeadBlock := Some h\<rparr>"
  | (pass) h where "onBlock e n st = st\<lparr>pu_sendHeadBlock := Some h, pu_passStarted := True,
      pu_processing := True, pu_step := Some (loopStep (pu_lastProcessedBlock st) n e),
      pu_lastProcessedBlock := max (pu_lastProcessedBlock st) (ls_block (loopStep (pu_lastProcessedBlock st) n e))\<rparr>"
      "\<not> pu_processing st" "\<not> pu_finished st" "pu_passStarted st \<longrightarrow> pu_lastProcessedBlock st < n"
proof -
  let ?h = "max (case pu_sendHeadBlock st of None \<Rightarrow> 0 | Some h \<Rightarrow> h) n"
  show thesis
  proof (cases "pu_processing st \<or> pu_finished st \<or> pu_passStarted st \<and> n \<le> pu_lastProcessedBlock st")
    case True
    then show thesis by (intro idle [of ?h]) (auto simp: onBlock_def Let_def)
  next
    case False
    then show thesis by (intro pass [of ?h]) (auto simp: onBlock_def Let_def)
  qed
qed

lemma pumpInv_pass:
  fixes n :: int
  assumes "pumpInv e start st passes" "\<not> pu_processing st" "\<not> pu_finished st"
  defines "p \<equiv> loopStep (pu_lastProcessedBlock st) n e"
  shows "pumpInv e start (st\<lparr>pu_sendHeadBlock := h, pu_passStarted := True, pu_processing := True,
      pu_step := Some p, pu_lastProcessedBlock := max (pu_lastProcessedBlock st) (ls_block p)\<rparr>) (passes @ [p])"
proof -
  let ?l = "pu_lastProcessedBlock st"
  have inv: "concat (map blocksOf passes) = [start + 1..?l]" "start \<le> ?l"
    using assms(1) by (auto simp: pumpInv_def)
  have "[start + 1..?l] @ [?l + 1..ls_block p] = [start + 1..max ?l (ls_block p)]"
    using upto_append [of "start + 1" ?l "ls_block p"] inv(2) by (cases "?l \<le> ls_block p") auto
  then have tile: "concat (map blocksOf (passes @ [p])) = [start + 1..max ?l (ls_block p)]"
    using inv by (simp add: blocksOf_def p_def)
  have "\<forall>p \<in> set passes. \<not> ls_final p"
    using assms(1-3) by (cases passes rule: rev_cases) (auto simp: pumpInv_def)
  then show ?thesis
    using assms tile by (cases e) (auto simp: pumpInv_def p_def)
qed

lemma pumpInv_reachable: "pumped gated e start st passes \<Longrightarrow> pumpInv e start st passes"
proof (induction rule: pumped.induct)
  case opened
  show ?case by (simp add: pumpInv_def pumpStart_def)
next
  case (notify st passes st' n passes')
  show ?case
  proof (cases rule: onBlock_cases [of e n st])
    case (idle h)
    with notify show ?thesis by (auto simp: pumpInv_def)
  next
    case (pass h)
    with notify pumpInv_pass [OF notify.IH pass(2,3), of n "Some h"] show ?thesis by simp
  qed
next
  case (pass_end st passes)
  then show ?case
    by (auto simp: pumpInv_def passEnd_def Let_def split: if_splits)
next
  case (time_up st passes)
  then show ?case by (auto simp: pumpInv_def)
qed

text \<open>
  C4. However notifications arrive, repeat, or are dropped while a pass is running, the passes of
  a run cover every block after the first exactly once and in order; none reaches past the end
  block; and the pass that processes the end block is the last one.
\<close>

theorem pump_covers:
  assumes "pumped gated endBlock start st passes"
  shows "concat (map blocksOf passes) = [start + 1..pu_lastProcessedBlock st]
    \<and> (\<forall>e. endBlock = Some e \<longrightarrow> (\<forall>p \<in> set passes. ls_block p \<le> e \<and> (ls_final p \<longleftrightarrow> ls_block p = e)))
    \<and> (\<forall>p \<in> set (butlast passes). \<not> ls_final p)"
  using pumpInv_reachable [OF assms] by (simp add: pumpInv_def)

text \<open>
  Under gated mining no head is lost: when a pass that is not the last one ends with a later
  head reported meanwhile, handing that head on starts a pass that reaches it (or the end block).
\<close>

theorem gated_pickup:
  assumes "pumped True endBlock start st passes" "pu_processing st" "\<not> pu_finished st"
    and "\<not> ls_final (last passes)" "pu_sendHeadBlock st = Some h" "pu_lastProcessedBlock st < h"
  shows "\<exists>st'. passEnd True st = (st', Some h)
    \<and> pu_processing (onBlock endBlock h st')
    \<and> pu_lastProcessedBlock (onBlock endBlock h st')
        = max (pu_lastProcessedBlock st) (case endBlock of None \<Rightarrow> h | Some e \<Rightarrow> min h e)"
proof -
  have "pu_step st = Some (last passes)"
    using pumpInv_reachable [OF assms(1)] assms(2) by (simp add: pumpInv_def)
  then show ?thesis
    using assms by (auto simp: passEnd_def onBlock_def Let_def split: option.splits)
qed

section \<open>Witnesses\<close>

theorem intervalBoundaryBlocks_grid_witness:
  "\<exists>bs. intervalBoundaryBlocks 100 131 (Fin 12) = Some bs \<and> onGrid 12 100 131 bs"
  using intervalBoundaryBlocks_grid [of 100 131 "Fin 12"] by simp

definition shortRun :: pump where
  "shortRun = onBlock (Some 12) 14 (fst (passEnd True (onBlock (Some 12) 11 (pumpStart 9))))"

lemma shortRun_pumped:
  "pumped True (Some 12) 9 shortRun
     [\<lparr>ls_fromBlock = 10, ls_block = 11, ls_final = False\<rparr>, \<lparr>ls_fromBlock = 12, ls_block = 12, ls_final = True\<rparr>]"
proof -
  let ?p1 = "\<lparr>ls_fromBlock = 10, ls_block = 11, ls_final = False\<rparr>"
  let ?s1 = "onBlock (Some 12) 11 (pumpStart 9)"
  have one: "pumped True (Some 12) 9 ?s1 [?p1]"
    by (rule pumped.notify [OF pumped.opened refl]) (auto simp: onBlock_def pumpStart_def loopStep_def)
  have two: "pumped True (Some 12) 9 (fst (passEnd True ?s1)) [?p1]"
    by (rule pumped.pass_end [OF one]) (simp add: onBlock_def pumpStart_def)
  show ?thesis
    by (rule pumped.notify [OF two shortRun_def])
      (auto simp: shortRun_def onBlock_def pumpStart_def loopStep_def passEnd_def Let_def)
qed

theorem pump_covers_witness: "[10, 11, 12] = [9 + 1..pu_lastProcessedBlock shortRun]"
  using pump_covers [OF shortRun_pumped] by (simp add: blocksOf_def upto.simps)

theorem gated_pickup_witness:
  "pu_processing (onBlock (Some 12) 14 (fst (passEnd True (onBlock (Some 12) 14 (onBlock (Some 12) 11 (pumpStart 9))))))"
proof -
  let ?p1 = "\<lparr>ls_fromBlock = 10, ls_block = 11, ls_final = False\<rparr>"
  let ?s1 = "onBlock (Some 12) 11 (pumpStart 9)" and ?s2 = "onBlock (Some 12) 14 (onBlock (Some 12) 11 (pumpStart 9))"
  have one: "pumped True (Some 12) 9 ?s1 [?p1]"
    by (rule pumped.notify [OF pumped.opened refl]) (auto simp: onBlock_def pumpStart_def loopStep_def)
  have two: "pumped True (Some 12) 9 ?s2 [?p1]"
    by (rule pumped.notify [OF one refl]) (auto simp: onBlock_def pumpStart_def loopStep_def)
  have "\<exists>st'. passEnd True ?s2 = (st', Some 14) \<and> pu_processing (onBlock (Some 12) 14 st') \<and>
      pu_lastProcessedBlock (onBlock (Some 12) 14 st') = max (pu_lastProcessedBlock ?s2) 12"
    using gated_pickup [OF two, of 14] by (simp add: onBlock_def pumpStart_def loopStep_def)
  then show ?thesis by auto
qed

end
