(* ===== verification/Interval_Series.thy ===== *)
theory Interval_Series
  imports Prelude
begin

text \<open>
  The evaluation-interval series (\<open>core/src/intervalSeries.ts\<close>), under its two names, and the cut of
  a whole run's series into segments (\<open>sliceIntervalSeries\<close> of \<open>core/src/segments.ts\<close>).
\<close>

section \<open>The series under both names\<close>

type_synonym valueMap = "(string \<times> jsnum option list) list"

record intervalSeries =
  is_intervalBlocks :: real
  is_intervals :: real
  is_boundaryBlocks :: "real list"
  is_valuesByAgent :: "valueMap"

record legacyEpochSeries =
  le_epochBlocks :: real
  le_epochs :: real
  le_boundaryBlocks :: "real list"
  le_valuesByAgent :: "valueMap"

record intervalSeriesMeta =
  im_boundaries :: nat
  im_failedBoundaries :: nat
  im_intervalBlocks :: real
  im_markMedianBlocks :: nat

record legacyEpochSeriesMeta =
  lm_boundaries :: nat
  lm_failedBoundaries :: nat
  lm_epochBlocks :: real
  lm_markMedianBlocks :: nat

text \<open>What is written, both keys of it.\<close>

record seriesFields =
  sf_intervalSeries :: intervalSeries
  sf_intervalSeriesMeta :: "intervalSeriesMeta option"
  sf_epochSeries :: legacyEpochSeries
  sf_epochSeriesMeta :: "legacyEpochSeriesMeta option"

definition intervalSeriesFields :: "intervalSeries \<Rightarrow> intervalSeriesMeta option \<Rightarrow> seriesFields" where
  "intervalSeriesFields series meta =
     \<lparr>sf_intervalSeries = series,
      sf_intervalSeriesMeta = meta,
      sf_epochSeries = \<lparr>le_epochBlocks = is_intervalBlocks series, le_epochs = is_intervals series,
        le_boundaryBlocks = is_boundaryBlocks series, le_valuesByAgent = is_valuesByAgent series\<rparr>,
      sf_epochSeriesMeta = map_option (\<lambda>m. \<lparr>lm_boundaries = im_boundaries m,
        lm_failedBoundaries = im_failedBoundaries m, lm_epochBlocks = im_intervalBlocks m,
        lm_markMedianBlocks = im_markMedianBlocks m\<rparr>) meta\<rparr>"

text \<open>What is read: every field may be missing (\<open>Partial\<close>), and either key.\<close>

record partialSeries =
  ps_blocks :: "real option"
  ps_count :: "real option"
  ps_boundaryBlocks :: "real list option"
  ps_valuesByAgent :: "valueMap option"

record valueSeries =
  vs_intervalSeries :: "partialSeries option"
  vs_epochSeries :: "partialSeries option"

definition readPartial :: "partialSeries \<Rightarrow> intervalSeries option" where
  "readPartial p =
     (case ps_boundaryBlocks p of
        None \<Rightarrow> None
      | Some bs \<Rightarrow> Some
          \<lparr>is_intervalBlocks = (case ps_blocks p of None \<Rightarrow> 0 | Some n \<Rightarrow> n),
           is_intervals = (case ps_count p of None \<Rightarrow> max 0 (real (length bs) - 1) | Some n \<Rightarrow> n),
           is_boundaryBlocks = bs,
           is_valuesByAgent = (case ps_valuesByAgent p of None \<Rightarrow> [] | Some v \<Rightarrow> v)\<rparr>)"

definition intervalSeriesOf :: "valueSeries option \<Rightarrow> intervalSeries option" where
  "intervalSeriesOf vs =
     (case vs of
        None \<Rightarrow> None
      | Some v \<Rightarrow>
          (case Option.bind (vs_intervalSeries v) readPartial of
             Some s \<Rightarrow> Some s
           | None \<Rightarrow> Option.bind (vs_epochSeries v) readPartial))"

definition intervalBlocksOf :: "(jsnum option \<times> jsnum option) option \<Rightarrow> real" where
  "intervalBlocksOf r =
     (case r of
        None \<Rightarrow> 0
      | Some (intervalBlocks, epochBlocks) \<Rightarrow>
          (case (case intervalBlocks of Some n \<Rightarrow> n | None \<Rightarrow> (case epochBlocks of Some n \<Rightarrow> n | None \<Rightarrow> Fin 0)) of
             Fin n \<Rightarrow> n | NonFin \<Rightarrow> 0))"

definition isIntervalBoundaryEvent :: "string \<Rightarrow> bool" where
  "isIntervalBoundaryEvent t \<longleftrightarrow> t = ''interval_boundary'' \<or> t = ''epoch_boundary''"

text \<open>The file a writer of today, and one from before the renaming, leave behind.\<close>

definition asPartial :: "intervalSeries \<Rightarrow> partialSeries" where
  "asPartial s = \<lparr>ps_blocks = Some (is_intervalBlocks s), ps_count = Some (is_intervals s),
     ps_boundaryBlocks = Some (is_boundaryBlocks s), ps_valuesByAgent = Some (is_valuesByAgent s)\<rparr>"

definition legacyPartial :: "legacyEpochSeries \<Rightarrow> partialSeries" where
  "legacyPartial s = \<lparr>ps_blocks = Some (le_epochBlocks s), ps_count = Some (le_epochs s),
     ps_boundaryBlocks = Some (le_boundaryBlocks s), ps_valuesByAgent = Some (le_valuesByAgent s)\<rparr>"

text \<open>
  A series reads back as it was written, whichever of its two names the reader finds: both
  keys, the new one alone, or the old one alone.
\<close>

theorem intervalSeries_roundtrip:
  "intervalSeriesOf (Some \<lparr>vs_intervalSeries = Some (asPartial (sf_intervalSeries (intervalSeriesFields s m))),
      vs_epochSeries = Some (legacyPartial (sf_epochSeries (intervalSeriesFields s m)))\<rparr>) = Some s
   \<and> intervalSeriesOf (Some \<lparr>vs_intervalSeries = Some (asPartial (sf_intervalSeries (intervalSeriesFields s m))),
      vs_epochSeries = None\<rparr>) = Some s
   \<and> intervalSeriesOf (Some \<lparr>vs_intervalSeries = None,
      vs_epochSeries = Some (legacyPartial (sf_epochSeries (intervalSeriesFields s m)))\<rparr>) = Some s"
  by (simp add: intervalSeriesOf_def intervalSeriesFields_def readPartial_def asPartial_def legacyPartial_def)

section \<open>Cutting a run into segments\<close>

text \<open>The \<open>forEach\<close>: the last boundary before the segment, and the indices of those inside it.\<close>

fun sliceScan :: "real \<Rightarrow> real \<Rightarrow> real list \<Rightarrow> nat \<Rightarrow> nat option \<Rightarrow> nat list \<Rightarrow> nat option \<times> nat list" where
  "sliceScan fromBlock toBlock [] i carried indices = (carried, indices)"
| "sliceScan fromBlock toBlock (block # bs) i carried indices =
     (if block < fromBlock then sliceScan fromBlock toBlock bs (Suc i) (Some i) indices
      else if block \<le> toBlock then sliceScan fromBlock toBlock bs (Suc i) carried (indices @ [i])
      else sliceScan fromBlock toBlock bs (Suc i) carried indices)"

definition sliceIndices :: "real list \<Rightarrow> real \<Rightarrow> real \<Rightarrow> nat list" where
  "sliceIndices boundaryBlocks fromBlock toBlock =
     (case sliceScan fromBlock toBlock boundaryBlocks 0 None [] of
        (carried, indices) \<Rightarrow>
          (let startsOnBoundary = (indices \<noteq> [] \<and> boundaryBlocks ! hd indices = fromBlock)
           in (case carried of
                 Some c \<Rightarrow> if \<not> startsOnBoundary then c # indices else indices
               | None \<Rightarrow> indices)))"

text \<open>\<open>values[i]\<close>, \<open>undefined\<close> past the end.\<close>

definition nthOr :: "'a option list \<Rightarrow> nat \<Rightarrow> 'a option" where
  "nthOr xs i = (if i < length xs then xs ! i else None)"

definition sliceIntervalSeries ::
    "real list \<Rightarrow> (string \<times> 'a option list) list \<Rightarrow> real \<Rightarrow> real
     \<Rightarrow> real list \<times> (string \<times> 'a option list) list" where
  "sliceIntervalSeries boundaryBlocks valuesByAgent fromBlock toBlock =
     (let indices = sliceIndices boundaryBlocks fromBlock toBlock
      in (map (\<lambda>i. boundaryBlocks ! i) indices,
          map (\<lambda>(aid, vs). (aid, map (nthOr vs) indices)) valuesByAgent))"

text \<open>Boundaries come in order; \<open>upTo bs x\<close> of them are at or before \<open>x\<close>.\<close>

definition upTo :: "real list \<Rightarrow> real \<Rightarrow> nat" where
  "upTo bs x = length (filter (\<lambda>b. b \<le> x) bs)"

definition before :: "real list \<Rightarrow> real \<Rightarrow> nat" where
  "before bs x = length (filter (\<lambda>b. b < x) bs)"

lemma filter_below:
  fixes bs :: "real list"
  assumes "sorted_wrt (<) bs" "\<And>x y. P y \<Longrightarrow> x < y \<Longrightarrow> P x" "i < length bs"
  shows "P (bs ! i) \<longleftrightarrow> i < length (filter P bs)"
  using assms(1,3)
proof (induction bs arbitrary: i)
  case (Cons b bs)
  show ?case
  proof (cases "P b")
    case True
    with Cons show ?thesis by (cases i) auto
  next
    case False
    then have none: "filter P bs = []"
      using Cons.prems(1) assms(2) by (auto simp: filter_empty_conv)
    have "\<not> P ((b # bs) ! i)"
      using False Cons.prems none by (cases i) (auto simp: filter_empty_conv)
    then show ?thesis using False none by simp
  qed
qed simp

lemma nth_le_iff: "sorted_wrt (<) bs \<Longrightarrow> i < length bs \<Longrightarrow> bs ! i \<le> x \<longleftrightarrow> i < upTo bs x"
  unfolding upTo_def by (rule filter_below) auto

lemma nth_less_iff: "sorted_wrt (<) bs \<Longrightarrow> i < length bs \<Longrightarrow> bs ! i < x \<longleftrightarrow> i < before bs x"
  unfolding before_def by (rule filter_below) auto

lemma before_le_upTo: "x \<le> y \<Longrightarrow> before bs x \<le> upTo bs y"
  unfolding before_def upTo_def by (induction bs) auto

lemma upTo_le_length: "upTo bs x \<le> length bs"
  unfolding upTo_def by (rule length_filter_le)

lemma upTo_mono: "x \<le> y \<Longrightarrow> upTo bs x \<le> upTo bs y"
  unfolding upTo_def by (induction bs) auto

lemma sliceScan_spec:
  assumes "sorted_wrt (<) bs" "f \<le> t"
  shows "sliceScan f t bs i c ix =
    (if before bs f = 0 then c else Some (i + before bs f - 1), ix @ [i + before bs f..<i + upTo bs t])"
  using assms(1)
proof (induction bs arbitrary: i c ix)
  case Nil
  show ?case by (simp add: before_def upTo_def)
next
  case (Cons b bs)
  have after: "before bs f = 0" if "f \<le> b"
    using Cons.prems that by (auto simp: before_def filter_empty_conv)
  have past: "upTo bs t = 0" if "t < b"
    using Cons.prems that by (auto simp: upTo_def filter_empty_conv)
  consider "b < f" | "f \<le> b" "b \<le> t" | "f \<le> b" "t < b" by linarith
  then show ?case
  proof cases
    case 1
    then show ?thesis
      using Cons assms(2) before_le_upTo [OF assms(2), of bs] by (auto simp: before_def upTo_def)
  next
    case 2
    then show ?thesis
      using Cons after by (auto simp: before_def upTo_def upt_conv_Cons simp del: upt_Suc)
  next
    case 3
    then show ?thesis
      using Cons after past by (auto simp: before_def upTo_def)
  qed
qed

text \<open>
  A segment's boundaries are consecutive: they run from the last one at or before its first block
  (the first of all, if there is none) to the last one at or before its last block.
\<close>

lemma sliceIndices_spec:
  assumes "sorted_wrt (<) bs" "f \<le> t"
  shows "sliceIndices bs f t = [upTo bs f - 1..<upTo bs t]"
proof -
  let ?b = "before bs f" and ?u = "upTo bs t"
  have b_u: "?b \<le> upTo bs f" "?b \<le> ?u" "upTo bs f \<le> ?u"
    using before_le_upTo [of f f bs] before_le_upTo [OF assms(2)] upTo_mono [OF assms(2)] by auto
  have step: "upTo bs f = (if ?b < length bs \<and> bs ! ?b = f then Suc ?b else ?b)"
  proof (cases "?b < length bs")
    case True
    have ge: "\<not> bs ! ?b < f" using nth_less_iff [OF assms(1) True, of f] by simp
    have "Suc ?b < length bs \<Longrightarrow> bs ! ?b < bs ! Suc ?b"
      using assms(1) by (auto simp: sorted_wrt_iff_nth_less)
    then have "\<not> Suc ?b < upTo bs f"
      using nth_le_iff [OF assms(1), of "Suc ?b" f] ge upTo_le_length [of bs f]
      by (metis dual_order.strict_trans2 leI linorder_not_less order_less_le_trans)
    moreover have "?b < upTo bs f \<longleftrightarrow> bs ! ?b = f"
      using nth_le_iff [OF assms(1) True, of f] ge by auto
    ultimately show ?thesis using True b_u(1) by auto
  next
    case False
    then show ?thesis using b_u(1) upTo_le_length [of bs f] by simp
  qed
  have first: "[?b..<?u] \<noteq> [] \<and> bs ! hd [?b..<?u] = f \<longleftrightarrow> ?b < length bs \<and> bs ! ?b = f"
    using nth_le_iff [OF assms(1), of ?b t] assms(2) upTo_le_length [of bs t] by auto
  show ?thesis
  proof (cases "?b < length bs \<and> bs ! ?b = f")
    case True
    with first step show ?thesis
      by (simp add: sliceIndices_def sliceScan_spec [OF assms] Let_def)
  next
    case False
    with step have "upTo bs f = ?b" by auto
    moreover have "(?b - 1) # [?b..<?u] = [?b - 1..<?u]" if "0 < ?b"
      using that b_u(2) by (metis Suc_diff_1 Suc_pred' diff_less less_le_trans upt_conv_Cons zero_less_one)
    ultimately show ?thesis
      using first False by (auto simp: sliceIndices_def sliceScan_spec [OF assms] Let_def)
  qed
qed

text \<open>The intervals of a list of boundaries: each one's two ends.\<close>

definition intervalsIn :: "'a list \<Rightarrow> ('a \<times> 'a) list" where
  "intervalsIn bs = zip bs (tl bs)"

lemma intervalsIn_upt: "intervalsIn [a..<b] = map (\<lambda>i. (i, Suc i)) [a..<b - 1]"
  by (rule nth_equalityI) (auto simp: intervalsIn_def nth_tl)

lemma intervalsIn_split:
  assumes "a \<le> b" "b \<le> c"
  shows "map (\<lambda>i. (i, Suc i)) [a..<b] @ map (\<lambda>i. (i, Suc i)) [b..<c] = map (\<lambda>i. (i, Suc i)) [a..<c]"
  using assms upt_add_eq_append [of a b "c - b"] by (simp flip: map_append)

text \<open>
  C6. Cut a run at any blocks \<open>c_0 < c_1 < ... < c_n\<close>, on the boundary grid or off it: the
  intervals of the segments, one after another, are those of the whole run between \<open>c_0\<close> and
  \<open>c_n\<close>. No interval is lost at a seam and none is counted in two segments.
\<close>

theorem segments_partition_intervals:
  assumes "sorted_wrt (<) bs" "sorted_wrt (<) cuts" "cuts \<noteq> []"
  shows "concat (map (\<lambda>(f, t). intervalsIn (sliceIndices bs f t)) (zip cuts (tl cuts)))
    = intervalsIn (sliceIndices bs (hd cuts) (last cuts))"
  using assms(2,3)
proof (induction cuts rule: induct_list012)
  case 1
  then show ?case by simp
next
  case (2 c)
  have "upTo bs c - (upTo bs c - 1) \<le> 1" by simp
  then show ?case by (simp add: sliceIndices_spec [OF assms(1)] intervalsIn_upt)
next
  case (3 c d cuts)
  then have le: "c \<le> d" "d \<le> last (d # cuts)"
    by (auto simp: order.strict_iff_order)
  have IH: "concat (map (\<lambda>(f, t). intervalsIn (sliceIndices bs f t)) (zip (d # cuts) (tl (d # cuts))))
    = intervalsIn (sliceIndices bs d (last (d # cuts)))"
    using 3 by simp
  have "upTo bs c - 1 \<le> upTo bs d - 1" "upTo bs d - 1 \<le> upTo bs (last (d # cuts)) - 1"
    using upTo_mono [OF le(1)] upTo_mono [OF le(2)] diff_le_mono by blast+
  then show ?case
    using IH le by (simp add: sliceIndices_spec [OF assms(1)] intervalsIn_upt intervalsIn_split)
qed

lemma slice_facts:
  assumes "sorted_wrt (<) bs" "f \<le> t" "bs \<noteq> []" "hd bs \<le> f"
    and "sliceIntervalSeries bs vals f t = (bs', vals')"
  shows "bs' \<noteq> [] \<and> hd bs' = Max {b \<in> set bs. b \<le> f} \<and> last bs' = Max {b \<in> set bs. b \<le> t}
    \<and> sorted_wrt (<) bs'
    \<and> (\<forall>aid vs. (aid, vs) \<in> set vals' \<longrightarrow> length vs = length bs')"
proof -
  have idx: "sliceIndices bs f t = [upTo bs f - 1..<upTo bs t]"
    by (rule sliceIndices_spec [OF assms(1,2)])
  have pos: "0 < upTo bs f" "upTo bs f \<le> upTo bs t" "upTo bs t \<le> length bs"
    using assms(3,4) upTo_mono [OF assms(2)] upTo_le_length [of bs t]
    by (auto simp: upTo_def neq_Nil_conv)
  have bs': "bs' = map ((!) bs) [upTo bs f - 1..<upTo bs t]"
    using assms(5) idx by (auto simp: sliceIntervalSeries_def Let_def)
  have top: "bs ! (upTo bs x - 1) = Max {b \<in> set bs. b \<le> x}" if "0 < upTo bs x" for x
  proof (rule Max_eqI [symmetric])
    have lt: "upTo bs x - 1 < length bs" using that upTo_le_length [of bs x] by linarith
    show "bs ! (upTo bs x - 1) \<in> {b \<in> set bs. b \<le> x}"
      using nth_le_iff [OF assms(1) lt, of x] that lt by auto
    fix b assume "b \<in> {b \<in> set bs. b \<le> x}"
    then obtain i where i: "i < length bs" "b = bs ! i" "bs ! i \<le> x" by (auto simp: in_set_conv_nth)
    then have "i \<le> upTo bs x - 1" using nth_le_iff [OF assms(1) i(1), of x] by linarith
    then show "b \<le> bs ! (upTo bs x - 1)"
      using i lt assms(1) by (cases "i = upTo bs x - 1") (auto simp: sorted_wrt_iff_nth_less intro: less_imp_le)
  qed simp
  have ne: "[upTo bs f - 1..<upTo bs t] \<noteq> []" using pos by simp
  have "hd bs' = bs ! (upTo bs f - 1)" "last bs' = bs ! (upTo bs t - 1)"
    using ne pos unfolding bs' by (simp_all add: hd_map last_map hd_upt last_upt)
  moreover have "sorted_wrt (<) bs'"
    using assms(1) pos unfolding bs' by (auto simp: sorted_wrt_iff_nth_less)
  moreover have "\<forall>aid vs. (aid, vs) \<in> set vals' \<longrightarrow> length vs = length bs'"
    using assms(5) by (auto simp: sliceIntervalSeries_def Let_def)
  ultimately show ?thesis using top [of f] top [of t] pos ne unfolding bs' by auto
qed

text \<open>
  What a segment is scored from: its boundaries are those of the run in order, its last one is
  the last at or before its end, its first is the last at or before its start (so V_0 is the
  previous segment's V_K), and every agent's values stay aligned with them.
\<close>

theorem slice_ends:
  assumes "sorted_wrt (<) bs" "f \<le> t" "bs \<noteq> []" "hd bs \<le> f"
    and "sliceIntervalSeries bs vals f t = (bs', vals')"
  shows "bs' \<noteq> [] \<and> hd bs' = Max {b \<in> set bs. b \<le> f} \<and> last bs' = Max {b \<in> set bs. b \<le> t}
    \<and> sorted_wrt (<) bs'
    \<and> (\<forall>aid vs. (aid, vs) \<in> set vals' \<longrightarrow> length vs = length bs')"
  using assms by (rule slice_facts)

section \<open>Witnesses\<close>

lemma five_boundaries: "sorted_wrt (<) [100, 112, 124, 136, 140 :: real]" by simp

theorem segments_partition_intervals_witness:
  "concat (map (\<lambda>(f, t). intervalsIn (sliceIndices [100, 112, 124, 136, 140] f t)) [(100, 118), (118, 136), (136, 140)])
    = [(0, 1), (1, 2), (2, 3), (3, 4)]"
  using segments_partition_intervals [OF five_boundaries, of "[100, 118, 136, 140]"]
  by (simp add: sliceIndices_spec [OF five_boundaries] upTo_def intervalsIn_def upt_rec eval_nat_numeral)

theorem slice_ends_witness:
  "hd (fst (sliceIntervalSeries [100, 112, 124, 136, 140] [(''a'', [Some (1::nat), None])] 118 136)) = 112"
proof -
  let ?s = "sliceIntervalSeries [100, 112, 124, 136, 140] [(''a'', [Some (1::nat), None])] 118 136"
  have "{b \<in> set [100, 112, 124, 136, 140]. b \<le> (118::real)} = {100, 112}" by auto
  then have "hd (fst ?s) = Max {100, 112}"
    using slice_ends [OF five_boundaries, of 118 136 "[(''a'', [Some (1::nat), None])]" "fst ?s" "snd ?s"] by simp
  then show ?thesis by simp
qed

end
