(* ===== verification/Json.thy ===== *)
theory Json
  imports Prelude
begin

text \<open>
  Values the program takes in as \<open>unknown\<close>: what \<open>JSON.parse\<close> gives, and \<open>undefined\<close> for a
  property that is not there. An object is the list of its properties in order, each key once.
\<close>

datatype json =
    JUndef
  | JNull
  | JBool bool
  | JNum jsnum
  | JStr string
  | JArr "json list"
  | JObj "(string \<times> json) list"

text \<open>\<open>r[key]\<close>\<close>

definition jget :: "(string \<times> json) list \<Rightarrow> string \<Rightarrow> json" where
  "jget r k = getOr JUndef r k"

lemma jget_simps [simp]:
  "jget [] k = JUndef" "jget ((k', v) # r) k = (if k = k' then v else jget r k)"
  by (auto simp: jget_def getOr_def)

end
