(* ===== verification/Period_Clock.thy ===== *)
theory Period_Clock
  imports Json
begin

text \<open>
  The period's clock (\<open>sdk/src/periodClock.ts\<close>): the end of the scored day both the coordinator
  and a self-hosted agent compute from the same two numbers, the blocks left in it, and the
  manifest section that carries them. \<open>Date.parse\<close> is the parameter \<open>dateParse\<close>.
\<close>

section \<open>The day grid\<close>

definition scoredDayHours :: "string \<Rightarrow> real \<Rightarrow> real" where
  "scoredDayHours resetUnit segmentHours =
     (if resetUnit = ''continuous'' \<and> 0 < segmentHours then segmentHours else 0)"

text \<open>
  A day of no length divides by zero: \<open>NaN\<close> from the origin on, and the origin itself before it,
  where the quotient is \<open>-Infinity\<close>.
\<close>

definition nextDayBoundaryMs :: "real \<Rightarrow> real \<Rightarrow> real \<Rightarrow> jsnum" where
  "nextDayBoundaryMs startedAtMs dayHours nowMs =
     (let dayMs = dayHours * 3600000
      in if dayMs = 0 then (if nowMs < startedAtMs then Fin startedAtMs else NonFin)
         else (let k = max 0 \<lfloor>(nowMs - startedAtMs) / dayMs\<rfloor>
               in Fin (startedAtMs + of_int (k + 1) * dayMs)))"

definition dayBlocksRemaining :: "real \<Rightarrow> real \<Rightarrow> real \<Rightarrow> real \<Rightarrow> jsnum" where
  "dayBlocksRemaining startedAtMs dayHours nowMs blockTimeSec =
     (let bt = (if 0 < blockTimeSec then blockTimeSec else 1)
      in case nextDayBoundaryMs startedAtMs dayHours nowMs of
           NonFin \<Rightarrow> NonFin
         | Fin endMs \<Rightarrow> Fin (max 0 (of_int \<lfloor>(endMs - nowMs) / 1000 / bt\<rfloor>)))"

lemma nextDay_eq:
  assumes "0 < h"
  shows "nextDayBoundaryMs t0 h now =
    Fin (t0 + of_int (max 0 \<lfloor>(now - t0) / (h * 3600000)\<rfloor> + 1) * (h * 3600000))"
  using assms by (simp add: nextDayBoundaryMs_def Let_def)

lemma floor_in_day:
  assumes "0 < (d::real)"
  shows "\<lfloor>(now - t0) / d\<rfloor> = k \<longleftrightarrow> t0 + of_int k * d \<le> now \<and> now < t0 + of_int (k + 1) * d"
  using assms by (simp add: floor_eq_iff field_simps)

lemma day_end_after:
  fixes h :: real
  assumes "0 < h"
  shows "now < t0 + of_int (max 0 \<lfloor>(now - t0) / (h * 3600000)\<rfloor> + 1) * (h * 3600000)"
proof -
  let ?d = "h * 3600000"
  let ?f = "\<lfloor>(now - t0) / ?d\<rfloor>"
  have d: "0 < ?d" using assms by simp
  have "now < t0 + of_int (?f + 1) * ?d" using floor_in_day [OF d, of now t0 ?f] by simp
  also have "\<dots> \<le> t0 + of_int (max 0 ?f + 1) * ?d" using d by (intro add_left_mono mult_right_mono) simp_all
  finally show ?thesis .
qed

lemma nextDay_after: "0 < h \<Longrightarrow> \<exists>e. nextDayBoundaryMs t0 h now = Fin e \<and> now < e"
  using day_end_after by (auto simp: nextDay_eq)

text \<open>
  Wherever two clocks disagree within a day, they agree on where the day ends: the boundary is
  on the grid, strictly after now, at most one day ahead of an instant at or after the origin, and
  every instant of that day gives the same one. Before the origin it is the end of the first day.
\<close>

theorem nextDayBoundary_grid:
  assumes "0 < h"
  shows "\<exists>k::int. 0 \<le> k
    \<and> nextDayBoundaryMs t0 h now = Fin (t0 + of_int (k + 1) * (h * 3600000))
    \<and> now < t0 + of_int (k + 1) * (h * 3600000)
    \<and> (t0 \<le> now \<longrightarrow> t0 + of_int k * (h * 3600000) \<le> now)
    \<and> (now < t0 \<longrightarrow> k = 0)
    \<and> (\<forall>now'. t0 + of_int k * (h * 3600000) \<le> now' \<and> now' < t0 + of_int (k + 1) * (h * 3600000)
        \<longrightarrow> nextDayBoundaryMs t0 h now' = nextDayBoundaryMs t0 h now)"
proof -
  let ?d = "h * 3600000"
  have d: "0 < ?d" using assms by simp
  define f where "f = \<lfloor>(now - t0) / ?d\<rfloor>"
  have f: "t0 + of_int f * ?d \<le> now" "now < t0 + of_int (f + 1) * ?d"
    using floor_in_day [OF d, of now t0 f] by (simp_all add: f_def)
  have neg: "f < 0 \<longleftrightarrow> now < t0"
    unfolding f_def using d by (simp add: divide_less_0_iff)
  have up: "now < t0 + of_int (max 0 f + 1) * ?d"
    unfolding f_def by (rule day_end_after [OF assms])
  have same: "nextDayBoundaryMs t0 h now' = nextDayBoundaryMs t0 h now"
    if "t0 + of_int (max 0 f) * ?d \<le> now'" "now' < t0 + of_int (max 0 f + 1) * ?d" for now'
    using that floor_in_day [OF d, of now' t0 "max 0 f"] by (simp add: nextDay_eq [OF assms] f_def)
  show ?thesis
    using up same f(1) neg by (intro exI [of _ "max 0 f"]) (auto simp: nextDay_eq [OF assms] f_def max_def)
qed

text \<open>
  The blocks left in the day are never negative and never more than fit in the time left:
  after that many blocks the day is not over, and one more would be past it.
\<close>

theorem dayBlocksRemaining_fits:
  assumes "0 < h" "0 < bt"
  shows "\<exists>n e. dayBlocksRemaining t0 h now bt = Fin n \<and> nextDayBoundaryMs t0 h now = Fin e
    \<and> 0 \<le> n \<and> isInteger n \<and> now + n * bt * 1000 \<le> e \<and> e < now + (n + 1) * bt * 1000"
proof -
  obtain e where e: "nextDayBoundaryMs t0 h now = Fin e" "now < e"
    using nextDay_after [OF assms(1)] by blast
  let ?q = "(e - now) / 1000 / bt"
  have "0 \<le> \<lfloor>?q\<rfloor>" using e(2) assms(2) by simp
  then have n: "dayBlocksRemaining t0 h now bt = Fin (of_int \<lfloor>?q\<rfloor>)"
    using assms(2) e by (simp add: dayBlocksRemaining_def Let_def)
  have eq: "e = now + ?q * (bt * 1000)" using assms(2) by (simp add: field_simps)
  have "of_int \<lfloor>?q\<rfloor> * (bt * 1000) \<le> ?q * (bt * 1000)" "?q * (bt * 1000) < (of_int \<lfloor>?q\<rfloor> + 1) * (bt * 1000)"
    using assms(2) by (intro mult_right_mono mult_strict_right_mono; linarith)+
  with eq have "now + of_int \<lfloor>?q\<rfloor> * bt * 1000 \<le> e" "e < now + (of_int \<lfloor>?q\<rfloor> + 1) * bt * 1000"
    by (simp_all only: mult.assoc)
  with n e(1) \<open>0 \<le> \<lfloor>?q\<rfloor>\<close> show ?thesis by auto
qed

section \<open>The manifest's period\<close>

datatype period_error = PeriodNotAnObject | PeriodNotANumber string | PeriodNotADate string

record manifestPeriod =
  mp_endsAt :: "string option"
  mp_blocks :: "real option"
  mp_seconds :: real
  mp_startBlock :: "real option"
  mp_startedAt :: "string option"
  mp_dayHours :: real
  mp_note :: string

definition countField :: "(string \<times> json) list \<Rightarrow> string \<Rightarrow> period_error + real option" where
  "countField r k =
     (case jget r k of
        JUndef \<Rightarrow> Inr None
      | JNum (Fin v) \<Rightarrow> if v < 0 then Inl (PeriodNotANumber k) else Inr (Some v)
      | _ \<Rightarrow> Inl (PeriodNotANumber k))"

definition dateField :: "(string \<Rightarrow> jsnum) \<Rightarrow> (string \<times> json) list \<Rightarrow> string \<Rightarrow> period_error + string option" where
  "dateField dateParse r k =
     (case jget r k of
        JUndef \<Rightarrow> Inr None
      | JNull \<Rightarrow> Inr None
      | JStr s \<Rightarrow> if isFin (dateParse s) then Inr (Some s) else Inl (PeriodNotADate k)
      | _ \<Rightarrow> Inl (PeriodNotADate k))"

definition parseManifestPeriod :: "(string \<Rightarrow> jsnum) \<Rightarrow> json \<Rightarrow> period_error + manifestPeriod option" where
  "parseManifestPeriod dateParse raw =
     (case raw of
        JUndef \<Rightarrow> Inr None
      | JNull \<Rightarrow> Inr None
      | JObj r \<Rightarrow>
          bindR (countField r ''blocks'') (\<lambda>blocks.
          bindR (countField r ''startBlock'') (\<lambda>startBlock.
          bindR (dateField dateParse r ''startedAt'') (\<lambda>startedAt.
          bindR (dateField dateParse r ''endsAt'') (\<lambda>endsAt.
          bindR (countField r ''seconds'') (\<lambda>seconds.
          bindR (countField r ''dayHours'') (\<lambda>dayHours.
          Inr (Some \<lparr>mp_endsAt = endsAt, mp_blocks = blocks,
            mp_seconds = (case seconds of None \<Rightarrow> 0 | Some v \<Rightarrow> v),
            mp_startBlock = startBlock, mp_startedAt = startedAt,
            mp_dayHours = (case dayHours of None \<Rightarrow> 0 | Some v \<Rightarrow> v),
            mp_note = (case jget r ''note'' of JStr s \<Rightarrow> s | _ \<Rightarrow> '''')\<rparr>)))))))
      | _ \<Rightarrow> Inl PeriodNotAnObject)"

lemma countField_Inr:
  "countField r k = Inr x \<longleftrightarrow>
     (case x of None \<Rightarrow> jget r k = JUndef | Some v \<Rightarrow> jget r k = JNum (Fin v) \<and> 0 \<le> v)"
  by (auto simp: countField_def split: json.splits jsnum.splits option.splits)

lemma dateField_Inr:
  "dateField dp r k = Inr x \<longleftrightarrow>
     (case x of None \<Rightarrow> jget r k \<in> {JUndef, JNull} | Some s \<Rightarrow> jget r k = JStr s \<and> isFin (dp s))"
  by (auto simp: dateField_def split: json.splits option.splits)

lemma countField_ok:
  "isOk (countField r k) \<longleftrightarrow> jget r k = JUndef \<or> (\<exists>v \<ge> 0. jget r k = JNum (Fin v))"
  by (auto simp: countField_def not_less split: json.splits jsnum.splits)

lemma dateField_ok:
  "isOk (dateField dp r k) \<longleftrightarrow> jget r k \<in> {JUndef, JNull} \<or> (\<exists>s. jget r k = JStr s \<and> isFin (dp s))"
  by (auto simp: dateField_def split: json.splits)

text \<open>
  A period section is read or refused, never read around: it is accepted exactly when each of
  its numbers is absent or a finite number that is not negative and each of its dates is absent or
  a date; what comes out then holds those values, and only a missing section gives no period.
\<close>

theorem parseManifestPeriod_strict:
  "isOk (parseManifestPeriod dp raw) \<longleftrightarrow>
     raw \<in> {JUndef, JNull} \<or> (\<exists>r. raw = JObj r
       \<and> (\<forall>k \<in> {''blocks'', ''startBlock'', ''seconds'', ''dayHours''}.
            jget r k = JUndef \<or> (\<exists>v \<ge> 0. jget r k = JNum (Fin v)))
       \<and> (\<forall>k \<in> {''startedAt'', ''endsAt''}.
            jget r k \<in> {JUndef, JNull} \<or> (\<exists>s. jget r k = JStr s \<and> isFin (dp s))))"
proof (cases raw)
  case (JObj r)
  have "isOk (parseManifestPeriod dp raw) \<longleftrightarrow>
      isOk (countField r ''blocks'') \<and> isOk (countField r ''startBlock'') \<and>
      isOk (dateField dp r ''startedAt'') \<and> isOk (dateField dp r ''endsAt'') \<and>
      isOk (countField r ''seconds'') \<and> isOk (countField r ''dayHours'')"
    unfolding isOk_iff [of "countField _ _"] isOk_iff [of "dateField _ _ _"]
    by (simp add: parseManifestPeriod_def JObj isOk_bindR)
  then show ?thesis by (simp add: JObj countField_ok dateField_ok) blast
qed (auto simp: parseManifestPeriod_def)

section \<open>Witnesses\<close>

theorem nextDayBoundary_grid_witness:
  "\<exists>k::int. nextDayBoundaryMs 1000 24 90000000 = Fin (1000 + of_int (k + 1) * (24 * 3600000))
    \<and> 90000000 < 1000 + of_int (k + 1) * (24 * 3600000 :: real)"
  using nextDayBoundary_grid [of 24 1000 90000000] by auto

theorem dayBlocksRemaining_fits_witness:
  "\<exists>n. dayBlocksRemaining 1000 24 90000000 12 = Fin n \<and> 0 \<le> n"
  using dayBlocksRemaining_fits [of 24 12 1000 90000000] by auto

theorem parseManifestPeriod_strict_witness:
  "\<not> isOk (parseManifestPeriod (\<lambda>_. Fin 0) (JObj [(''blocks'', JNum (Fin 5)), (''dayHours'', JStr ''24'')]))"
  using parseManifestPeriod_strict [of "\<lambda>_. Fin 0" "JObj [(''blocks'', JNum (Fin 5)), (''dayHours'', JStr ''24'')]"]
  by simp

end
