(* ===== verification/Formatting.thy ===== *)
theory Formatting
  imports Prelude "HOL-Library.Sublist"
begin

text \<open>
  Numbers and dates as the strings the program builds names out of: \<open>String(n)\<close> of an integer,
  \<open>padStart\<close>, and \<open>Date.prototype.toISOString\<close> for the years it writes with four digits.
\<close>

section \<open>Integers\<close>

definition digit :: "nat \<Rightarrow> char" where
  "digit n = char_of (48 + n)"

fun decimal :: "nat \<Rightarrow> string" where
  "decimal n = (if n < 10 then [digit n] else decimal (n div 10) @ [digit (n mod 10)])"

declare decimal.simps [simp del]

definition decimalInt :: "int \<Rightarrow> string" where
  "decimalInt i = (if i < 0 then CHR ''-'' # decimal (nat (- i)) else decimal (nat i))"

definition padStart :: "nat \<Rightarrow> char \<Rightarrow> string \<Rightarrow> string" where
  "padStart n c s = replicate (n - length s) c @ s"

definition undec :: "string \<Rightarrow> nat" where
  "undec s = foldl (\<lambda>a c. 10 * a + (of_char c - 48)) 0 s"

lemma of_char_digit [simp]: "n < 10 \<Longrightarrow> (of_char (digit n) :: nat) = 48 + n"
  by (simp add: digit_def)

lemma undec_snoc [simp]: "undec (s @ [c]) = 10 * undec s + (of_char c - 48)"
  by (simp add: undec_def)

lemma undec_decimal [simp]: "undec (decimal n) = n"
proof (induction n rule: decimal.induct)
  case (1 n)
  show ?case
  proof (cases "n < 10")
    case True
    then show ?thesis by (simp add: decimal.simps [of n] undec_def)
  next
    case False
    then have "undec (decimal n) = 10 * (n div 10) + n mod 10"
      using 1 by (subst decimal.simps) simp
    then show ?thesis by simp
  qed
qed

lemma undec_zeros: "undec (replicate k (CHR ''0'') @ s) = undec s"
  by (induction k) (auto simp: undec_def)

lemma undec_padStart [simp]: "undec (padStart k (CHR ''0'') s) = undec s"
  by (simp add: padStart_def undec_zeros)

lemma decimal_inj: "decimal m = decimal n \<longleftrightarrow> m = n"
  using undec_decimal by metis

lemma decimal_digits: "c \<in> set (decimal n) \<Longrightarrow> 48 \<le> (of_char c :: nat) \<and> (of_char c :: nat) < 58"
proof (induction n rule: decimal.induct)
  case (1 n)
  show ?case
  proof (cases "n < 10")
    case True
    then show ?thesis using 1 by (auto simp: decimal.simps [of n])
  next
    case False
    then have "c \<in> set (decimal (n div 10)) \<or> c = digit (n mod 10)"
      using 1(2) by (auto simp: decimal.simps [of n])
    then show ?thesis using 1(1) False by auto
  qed
qed

lemma dash_not_decimal [simp]: "CHR ''-'' \<notin> set (decimal n)"
  using decimal_digits [of "CHR ''-''" n] by auto

lemma dash_not_padded [simp]: "CHR ''-'' \<notin> set (padStart k (CHR ''0'') (decimal n))"
  by (simp add: padStart_def)

lemma decimal_nonempty [simp]: "decimal n \<noteq> []"
  by (simp add: decimal.simps [of n])

section \<open>Dates\<close>

text \<open>Days since 1970-01-01 to year, month and day of the proleptic Gregorian calendar.\<close>

definition civil :: "int \<Rightarrow> int \<times> int \<times> int" where
  "civil days =
     (let z = days + 719468;
          era = z div 146097;
          doe = z mod 146097;
          yoe = (doe - doe div 1460 + doe div 36524 - doe div 146096) div 365;
          doy = doe - (365 * yoe + yoe div 4 - yoe div 100);
          mp = (5 * doy + 2) div 153;
          d = doy - (153 * mp + 2) div 5 + 1;
          m = (if mp < 10 then mp + 3 else mp - 9)
      in (yoe + era * 400 + (if m \<le> 2 then 1 else 0), m, d))"

definition pad :: "nat \<Rightarrow> int \<Rightarrow> string" where
  "pad n i = padStart n (CHR ''0'') (decimal (nat i))"

definition isoDate :: "int \<Rightarrow> string" where
  "isoDate ms = (case civil (ms div 86400000) of (y, m, d) \<Rightarrow>
     pad 4 y @ ''-'' @ pad 2 m @ ''-'' @ pad 2 d)"

definition toISOString :: "int \<Rightarrow> string" where
  "toISOString ms =
     (let t = ms mod 86400000
      in isoDate ms @ ''T'' @ pad 2 (t div 3600000) @ '':'' @ pad 2 (t div 60000 mod 60) @ '':''
         @ pad 2 (t div 1000 mod 60) @ ''.'' @ pad 3 (t mod 1000) @ ''Z'')"

definition slice :: "nat \<Rightarrow> nat \<Rightarrow> string \<Rightarrow> string" where
  "slice a b s = take (b - a) (drop a s)"

lemma iso_example: "toISOString 1791417600123 = ''2026-10-08T00:00:00.123Z''"
  by code_simp

end
