(* ===== verification/Epoch_Value.thy ===== *)
theory Epoch_Value
  imports Deviation_Score
begin

text \<open>
  The P an epoch scores: \<open>core/src/scoring/epochPnl.ts\<close> (both ends read off an agent's boundary
  values), \<open>endowmentV0.ts\<close> (what the first end is worth) and \<open>practiceReturn.ts\<close> (the return a
  practice day scores instead). A value that is \<open>null\<close> or \<open>undefined\<close> is \<open>None\<close>; a number is a
  \<^typ>\<open>jsnum\<close>, since all three files test \<open>Number.isFinite\<close>.
\<close>

section \<open>P from the boundary values\<close>

record epochPnl =
  ep_pnlUsdc :: real
  ep_initialValueUsdc :: real
  ep_finalValueUsdc :: real
  ep_finalBoundaryIndex :: nat
  ep_lastBoundaryIndex :: nat
  ep_carriedFinal :: bool

text \<open>\<open>typeof v === "number" && Number.isFinite(v)\<close>, and the number it lets through.\<close>

definition reported :: "jsnum option \<Rightarrow> real option" where
  "reported v = Option.bind v finVal"

text \<open>\<open>while (i > 0) { if (values[i] reported) break; i--; }\<close>\<close>

fun lastReported :: "jsnum option list \<Rightarrow> nat \<Rightarrow> nat" where
  "lastReported vs 0 = 0"
| "lastReported vs (Suc i) = (if reported (vs ! Suc i) \<noteq> None then Suc i else lastReported vs i)"

definition epochPnlFromSeries :: "jsnum option list \<Rightarrow> epochPnl option" where
  "epochPnlFromSeries vs =
     (if length vs < 2 then None
      else case reported (vs ! 0) of
        None \<Rightarrow> None
      | Some v0 \<Rightarrow>
          (let last = length vs - 1; i = lastReported vs last
           in if i = 0 then None
              else (case reported (vs ! i) of
                None \<Rightarrow> None
              | Some vK \<Rightarrow> Some \<lparr>ep_pnlUsdc = vK - v0, ep_initialValueUsdc = v0,
                  ep_finalValueUsdc = vK, ep_finalBoundaryIndex = i, ep_lastBoundaryIndex = last,
                  ep_carriedFinal = (i \<noteq> last)\<rparr>)))"

lemma lastReported_le: "lastReported vs i \<le> i"
  by (induction i) (auto intro: le_SucI)

lemma lastReported_reported: "lastReported vs i \<noteq> 0 \<Longrightarrow> reported (vs ! lastReported vs i) \<noteq> None"
  by (induction i) (auto split: if_splits)

lemma lastReported_after: "lastReported vs i < j \<Longrightarrow> j \<le> i \<Longrightarrow> reported (vs ! j) = None"
  by (induction i) (auto simp: le_Suc_eq split: if_splits)

lemma lastReported_unique:
  assumes "0 < k" "k \<le> i" "reported (vs ! k) \<noteq> None" "\<forall>j. k < j \<and> j \<le> i \<longrightarrow> reported (vs ! j) = None"
  shows "lastReported vs i = k"
  using assms by (metis lastReported_after lastReported_le lastReported_reported not_less0
      linorder_less_linear less_le_trans not_less)

lemma epochPnlFromSeries_char:
  "(\<forall>r. epochPnlFromSeries vs = Some r \<longleftrightarrow>
      (\<exists>v0 vK K. reported (vs ! 0) = Some v0 \<and> 0 < K \<and> K < length vs \<and> reported (vs ! K) = Some vK
        \<and> (\<forall>j. K < j \<and> j < length vs \<longrightarrow> reported (vs ! j) = None)
        \<and> r = \<lparr>ep_pnlUsdc = vK - v0, ep_initialValueUsdc = v0, ep_finalValueUsdc = vK,
               ep_finalBoundaryIndex = K, ep_lastBoundaryIndex = length vs - 1,
               ep_carriedFinal = (K \<noteq> length vs - 1)\<rparr>))
   \<and> (epochPnlFromSeries vs = None \<longleftrightarrow>
      vs = [] \<or> reported (vs ! 0) = None \<or> (\<forall>j. 0 < j \<and> j < length vs \<longrightarrow> reported (vs ! j) = None))"
proof (cases "length vs < 2")
  case True
  then have "vs = [] \<or> length vs = 1" by (cases vs) auto
  then show ?thesis by (auto simp: epochPnlFromSeries_def)
next
  case False
  let ?n = "length vs - 1" and ?K = "lastReported vs (length vs - 1)"
  have n: "j < length vs \<longleftrightarrow> j \<le> ?n" for j using False by auto
  show ?thesis
  proof (cases "?K = 0 \<or> reported (vs ! 0) = None")
    case True
    have none: "epochPnlFromSeries vs = None"
      using True by (auto simp: epochPnlFromSeries_def Let_def split: option.splits)
    have "reported (vs ! 0) = None \<or> (\<forall>j. 0 < j \<and> j < length vs \<longrightarrow> reported (vs ! j) = None)"
      using True lastReported_after [of vs ?n] n by auto
    with none show ?thesis by fastforce
  next
    case False
    then obtain v0 vK where v: "reported (vs ! 0) = Some v0" "reported (vs ! ?K) = Some vK"
      using lastReported_reported [of vs ?n] by blast
    have K: "?K < length vs" "0 < ?K" "\<And>j. ?K < j \<Longrightarrow> j < length vs \<Longrightarrow> reported (vs ! j) = None"
      using False n lastReported_le [of vs ?n] lastReported_after [of vs ?n] by auto
    have uniq: "K = ?K" if "0 < K" "K < length vs" "reported (vs ! K) = Some x"
      "\<forall>j. K < j \<and> j < length vs \<longrightarrow> reported (vs ! j) = None" for K x
      using lastReported_unique [of K ?n vs] that n by auto
    have some: "epochPnlFromSeries vs = Some \<lparr>ep_pnlUsdc = vK - v0, ep_initialValueUsdc = v0,
        ep_finalValueUsdc = vK, ep_finalBoundaryIndex = ?K, ep_lastBoundaryIndex = ?n,
        ep_carriedFinal = (?K \<noteq> ?n)\<rparr>"
      using \<open>\<not> length vs < 2\<close> False v by (simp add: epochPnlFromSeries_def Let_def)
    show ?thesis
      unfolding some
    proof (intro conjI allI iffI, goal_cases)
      case (1 r)
      then show ?case
        by (intro exI [of _ v0] exI [of _ vK] exI [of _ ?K]) (use v K in simp)
    next
      case (2 r)
      then obtain v0' vK' K' where r: "reported (vs ! 0) = Some v0'" "0 < K'" "K' < length vs"
        "reported (vs ! K') = Some vK'" "\<forall>j. K' < j \<and> j < length vs \<longrightarrow> reported (vs ! j) = None"
        "r = \<lparr>ep_pnlUsdc = vK' - v0', ep_initialValueUsdc = v0', ep_finalValueUsdc = vK',
               ep_finalBoundaryIndex = K', ep_lastBoundaryIndex = length vs - 1,
               ep_carriedFinal = (K' \<noteq> length vs - 1)\<rparr>" by blast
      have "K' = ?K" by (rule uniq [OF r(2-5)])
      with r(1,4,6) v show ?case by simp
    next
      case 3
      then show ?case by simp
    next
      case 4
      then consider "vs = []" | "reported (vs ! 0) = None" | "reported (vs ! ?K) = None"
        using K(1,2) by metis
      then show ?case using v \<open>\<not> length vs < 2\<close> by cases auto
    qed
  qed
qed

text \<open>
  P is the value at the last boundary that reported less the value at the first: \<open>K\<close> is
  positive, reported, and nothing after it is; and there is a P exactly when the first boundary
  reported and some later one did.
\<close>

theorem epochPnlFromSeries_spec:
  "(\<forall>r. epochPnlFromSeries vs = Some r \<longleftrightarrow>
      (\<exists>v0 vK K. reported (vs ! 0) = Some v0 \<and> 0 < K \<and> K < length vs \<and> reported (vs ! K) = Some vK
        \<and> (\<forall>j. K < j \<and> j < length vs \<longrightarrow> reported (vs ! j) = None)
        \<and> r = \<lparr>ep_pnlUsdc = vK - v0, ep_initialValueUsdc = v0, ep_finalValueUsdc = vK,
               ep_finalBoundaryIndex = K, ep_lastBoundaryIndex = length vs - 1,
               ep_carriedFinal = (K \<noteq> length vs - 1)\<rparr>))
   \<and> (epochPnlFromSeries vs = None \<longleftrightarrow>
      vs = [] \<or> reported (vs ! 0) = None \<or> (\<forall>j. 0 < j \<and> j < length vs \<longrightarrow> reported (vs ! j) = None))"
  by (rule epochPnlFromSeries_char)

lemma epochPnlFromSeries_ends:
  "epochPnlFromSeries (v # vs) = Some p \<Longrightarrow>
     reported v = Some (ep_initialValueUsdc p) \<and> ep_pnlUsdc p = ep_finalValueUsdc p - ep_initialValueUsdc p"
  by (auto simp: epochPnlFromSeries_def Let_def split: if_splits option.splits)

section \<open>V_0 at the first boundary\<close>

datatype v0Source = FromEndowment | FromMeasured
datatype v0Rule = Floor | Pinned
datatype resetUnit = Continuous | Scenario

primrec v0RuleFor :: "resetUnit \<Rightarrow> v0Rule" where
  "v0RuleFor Scenario = Pinned"
| "v0RuleFor Continuous = Floor"

record firstBoundaryV0 =
  fb_valueUsdc :: "jsnum option"
  fb_source :: v0Source
  fb_measuredUsdc :: "jsnum option"
  fb_endowmentUsdc :: "real option"

definition firstBoundaryV0 :: "jsnum option \<Rightarrow> jsnum option \<Rightarrow> v0Rule \<Rightarrow> firstBoundaryV0" where
  "firstBoundaryV0 measuredUsdc endowmentUsdc rule =
     (case reported endowmentUsdc of
        None \<Rightarrow> \<lparr>fb_valueUsdc = measuredUsdc, fb_source = FromMeasured,
                 fb_measuredUsdc = measuredUsdc, fb_endowmentUsdc = None\<rparr>
      | Some endowment \<Rightarrow>
          (let measured = reported measuredUsdc
           in if rule = Floor \<and> measured \<noteq> None \<and> endowment < the measured
              then \<lparr>fb_valueUsdc = map_option Fin measured, fb_source = FromMeasured,
                    fb_measuredUsdc = map_option Fin measured, fb_endowmentUsdc = Some endowment\<rparr>
              else \<lparr>fb_valueUsdc = Some (Fin endowment), fb_source = FromEndowment,
                    fb_measuredUsdc = map_option Fin measured, fb_endowmentUsdc = Some endowment\<rparr>))"

definition v0GapBeyondTolerance :: "real \<Rightarrow> real \<Rightarrow> real option" where
  "v0GapBeyondTolerance measuredUsdc endowmentUsdc =
     (let gap = measuredUsdc - endowmentUsdc;
          tolerance = max 10 (\<bar>endowmentUsdc\<bar> * (1 / 1000))
      in if tolerance < \<bar>gap\<bar> then Some gap else None)"

lemma firstBoundaryV0_funded:
  "firstBoundaryV0 m (Some (Fin e)) rule =
     \<lparr>fb_valueUsdc = Some (Fin (case reported m of Some x \<Rightarrow> if rule = Floor then max e x else e | None \<Rightarrow> e)),
      fb_source = (case reported m of Some x \<Rightarrow> if rule = Floor \<and> e < x then FromMeasured else FromEndowment
                   | None \<Rightarrow> FromEndowment),
      fb_measuredUsdc = map_option Fin (reported m), fb_endowmentUsdc = Some e\<rparr>"
  by (auto simp: firstBoundaryV0_def reported_def Let_def max_def split: option.splits)

lemma reported_Some_Fin [simp]: "reported (Some (Fin x)) = Some x"
  by (simp add: reported_def)

text \<open>
  Nothing an agent does before the first boundary can lower the \<open>V_0\<close> its P is taken from
  below its endowment; in a world built fresh for the epoch nothing anybody does moves it at all;
  and an account that holds exactly its endowment has the same \<open>V_0\<close> under both rules. So for any
  final value P is at most \<open>V_K\<close> less the endowment, and in a fresh world equal to it.
\<close>

theorem firstBoundaryV0_bounds:
  assumes "epochPnlFromSeries (fb_valueUsdc (firstBoundaryV0 m (Some (Fin e)) rule) # vs) = Some p"
  shows "e \<le> ep_initialValueUsdc p \<and> ep_pnlUsdc p \<le> ep_finalValueUsdc p - e
    \<and> (rule = v0RuleFor Scenario \<longrightarrow> ep_pnlUsdc p = ep_finalValueUsdc p - e)
    \<and> (m = Some (Fin e) \<longrightarrow> ep_pnlUsdc p = ep_finalValueUsdc p - e)"
proof -
  let ?v = "case reported m of Some x \<Rightarrow> if rule = Floor then max e x else e | None \<Rightarrow> e"
  have "ep_initialValueUsdc p = ?v \<and> ep_pnlUsdc p = ep_finalValueUsdc p - ?v"
    using epochPnlFromSeries_ends [OF assms] by (simp add: firstBoundaryV0_funded)
  then show ?thesis by (cases "reported m") auto
qed

section \<open>The return of a practice day\<close>

record practiceEnds =
  pe_initialValueUsdc :: jsnum
  pe_finalValueUsdc :: jsnum

datatype notPlaced = NonPositiveStart | BelowCapitalFloor

record practiceReturns =
  pr_returnByAgent :: "(string \<times> real) list"
  pr_notPlaced :: "(string \<times> notPlaced) list"

definition median :: "real list \<Rightarrow> real" where
  "median values =
     (let sorted = sortBy (\<le>) values; mid = length sorted div 2
      in if length sorted mod 2 = 1 then sorted ! mid
         else (sorted ! (mid - 1) + sorted ! mid) / 2)"

text \<open>The agents with both ends finite, and those ends.\<close>

definition usableEnds :: "(string \<times> practiceEnds) list \<Rightarrow> (string \<times> real \<times> real) list" where
  "usableEnds ends =
     List.map_filter (\<lambda>(aid, e). case (finVal (pe_initialValueUsdc e), finVal (pe_finalValueUsdc e)) of
         (Some v0, Some vK) \<Rightarrow> Some (aid, v0, vK) | _ \<Rightarrow> None) ends"

definition capitalFloor :: "(string \<times> practiceEnds) list \<Rightarrow> string list \<Rightarrow> real" where
  "capitalFloor ends benchmarkIds =
     (let startsInField = map (\<lambda>(_, v0, _). v0)
            (filter (\<lambda>(aid, v0, _). aid \<notin> set benchmarkIds \<and> 0 < v0) (usableEnds ends))
      in if startsInField \<noteq> [] then 1 / 10 * median startsInField else 0)"

definition placeStep :: "string list \<Rightarrow> real \<Rightarrow> string \<times> real \<times> real \<Rightarrow> practiceReturns \<Rightarrow> practiceReturns" where
  "placeStep benchmarkIds fl = (\<lambda>(aid, v0, vK) r.
     if v0 \<le> 0 then r\<lparr>pr_notPlaced := AList.update aid NonPositiveStart (pr_notPlaced r)\<rparr>
     else if aid \<notin> set benchmarkIds \<and> v0 < fl
     then r\<lparr>pr_notPlaced := AList.update aid BelowCapitalFloor (pr_notPlaced r)\<rparr>
     else r\<lparr>pr_returnByAgent := AList.update aid (vK / v0 - 1) (pr_returnByAgent r)\<rparr>)"

definition practiceReturns :: "(string \<times> practiceEnds) list \<Rightarrow> string list \<Rightarrow> practiceReturns" where
  "practiceReturns ends benchmarkIds =
     fold (placeStep benchmarkIds (capitalFloor ends benchmarkIds)) (usableEnds ends)
       \<lparr>pr_returnByAgent = [], pr_notPlaced = []\<rparr>"

subsection \<open>The usable ends\<close>

lemma usableEnds_simps [simp]:
  "usableEnds [] = []"
  "usableEnds ((aid, e) # ends) =
     (case (finVal (pe_initialValueUsdc e), finVal (pe_finalValueUsdc e)) of
        (Some v0, Some vK) \<Rightarrow> (aid, v0, vK) # usableEnds ends | _ \<Rightarrow> usableEnds ends)"
  by (auto simp: usableEnds_def List.map_filter_simps split: option.splits)

lemma usableEnds_mem:
  "(aid, v0, vK) \<in> set (usableEnds ends) \<longleftrightarrow>
     (\<exists>e. (aid, e) \<in> set ends \<and> pe_initialValueUsdc e = Fin v0 \<and> pe_finalValueUsdc e = Fin vK)"
proof (induction ends)
  case (Cons p ends)
  obtain b e where p: "p = (b, e)" by fastforce
  show ?case
    by (cases "pe_initialValueUsdc e"; cases "pe_finalValueUsdc e") (auto simp: p Cons.IH)
qed simp

lemma usableEnds_keys: "set (keys (usableEnds ends)) \<subseteq> set (keys ends)"
  by (auto simp: usableEnds_mem) (metis fst_conv image_eqI)

lemma distinct_usableEnds: "distinct (keys ends) \<Longrightarrow> distinct (keys (usableEnds ends))"
proof (induction ends)
  case (Cons p ends)
  obtain b e where p: "p = (b, e)" by fastforce
  show ?case
    using Cons usableEnds_keys [of ends] by (auto simp: p split: option.splits)
qed simp

lemma placeStep_eq:
  "placeStep bs fl (aid, v0, vK) r =
     (if v0 \<le> 0 then r\<lparr>pr_notPlaced := AList.update aid NonPositiveStart (pr_notPlaced r)\<rparr>
      else if aid \<notin> set bs \<and> v0 < fl
      then r\<lparr>pr_notPlaced := AList.update aid BelowCapitalFloor (pr_notPlaced r)\<rparr>
      else r\<lparr>pr_returnByAgent := AList.update aid (vK / v0 - 1) (pr_returnByAgent r)\<rparr>)"
  by (simp add: placeStep_def)

lemma place_fold:
  assumes "distinct (keys us)"
  shows "map_of (pr_returnByAgent (fold (placeStep bs fl) us r)) a =
      (case map_of us a of Some (v0, vK) \<Rightarrow>
         if 0 < v0 \<and> (a \<in> set bs \<or> fl \<le> v0) then Some (vK / v0 - 1) else map_of (pr_returnByAgent r) a
       | None \<Rightarrow> map_of (pr_returnByAgent r) a)"
    and "map_of (pr_notPlaced (fold (placeStep bs fl) us r)) a =
      (case map_of us a of Some (v0, vK) \<Rightarrow>
         if v0 \<le> 0 then Some NonPositiveStart
         else if a \<notin> set bs \<and> v0 < fl then Some BelowCapitalFloor else map_of (pr_notPlaced r) a
       | None \<Rightarrow> map_of (pr_notPlaced r) a)"
  using assms
proof (induction us arbitrary: r)
  case Nil
  { case 1 then show ?case by simp next case 2 then show ?case by simp }
next
  case (Cons u us)
  obtain b v0 vK where u: "u = (b, v0, vK)" by (cases u) auto
  { case 1
    then have "map_of us b = None" by (auto simp: u map_of_eq_None_iff)
    with 1 show ?case by (auto simp: u Cons.IH placeStep_eq split: option.splits) next
    case 2
    then have "map_of us b = None" by (auto simp: u map_of_eq_None_iff)
    with 2 show ?case by (auto simp: u Cons.IH placeStep_eq split: option.splits) }
qed

lemma sortBy_le_bounds:
  fixes xs :: "real list"
  assumes "xs \<noteq> []" "\<forall>x \<in> set xs. lo \<le> x \<and> x \<le> hi"
  shows "lo \<le> median xs \<and> median xs \<le> hi"
proof -
  let ?s = "sortBy (\<le>) xs"
  have m: "i < length xs \<Longrightarrow> lo \<le> ?s ! i \<and> ?s ! i \<le> hi" for i
    using assms(2) nth_mem [of i ?s] by simp
  have "length xs div 2 < length xs" "length xs div 2 - 1 < length xs"
    using assms(1) by (auto simp: less_imp_diff_less)
  from m [OF this(1)] m [OF this(2)] show ?thesis
    by (auto simp: median_def Let_def)
qed

lemma sortBy_scale:
  fixes c :: real
  assumes "0 < c"
  shows "sortBy (\<le>) (map ((*) c) xs) = map ((*) c) (sortBy (\<le>) xs)"
proof -
  have "insBy (\<le>) (c * x) (map ((*) c) ys) = map ((*) c) (insBy (\<le>) x ys)" for x ys
    using assms by (induction ys) auto
  then show ?thesis by (induction xs) auto
qed

lemma median_scale:
  assumes "0 < c" "xs \<noteq> []"
  shows "median (map ((*) c) xs) = c * median xs"
proof -
  have "length xs div 2 < length xs" "length xs div 2 - 1 < length xs"
    using assms(2) by (auto simp: less_imp_diff_less)
  then show ?thesis
    by (simp add: median_def Let_def sortBy_scale [OF assms(1)] distrib_left)
qed

lemma practiceReturns_lookup:
  assumes "distinct (keys ends)" "(aid, v0, vK) \<in> set (usableEnds ends)"
  shows "map_of (pr_returnByAgent (practiceReturns ends bs)) aid =
      (if 0 < v0 \<and> (aid \<in> set bs \<or> capitalFloor ends bs \<le> v0) then Some (vK / v0 - 1) else None)"
    and "map_of (pr_notPlaced (practiceReturns ends bs)) aid =
      (if v0 \<le> 0 then Some NonPositiveStart
       else if aid \<notin> set bs \<and> v0 < capitalFloor ends bs then Some BelowCapitalFloor else None)"
  using assms(2) distinct_usableEnds [OF assms(1)]
  unfolding practiceReturns_def place_fold [OF distinct_usableEnds [OF assms(1)]] by simp_all

text \<open>
  A practice day places an agent or says why not, never both and never neither: the return
  is \<open>V_K / V_0 - 1\<close> for an agent that starts with something and is the benchmark or starts at or
  above the floor; an agent without two finite ends appears in neither map.
\<close>

theorem practiceReturns_placed:
  fixes bs :: "string list"
  assumes "distinct (keys ends)"
  shows "(\<forall>v0 vK. (aid, v0, vK) \<in> set (usableEnds ends) \<longrightarrow>
      map_of (pr_returnByAgent (practiceReturns ends bs)) aid =
        (if 0 < v0 \<and> (aid \<in> set bs \<or> capitalFloor ends bs \<le> v0) then Some (vK / v0 - 1) else None)
      \<and> (map_of (pr_notPlaced (practiceReturns ends bs)) aid = None \<longleftrightarrow> map_of (pr_returnByAgent (practiceReturns ends bs)) aid \<noteq> None))
    \<and> (aid \<notin> fst ` set (usableEnds ends) \<longrightarrow>
        map_of (pr_returnByAgent (practiceReturns ends bs)) aid = None \<and> map_of (pr_notPlaced (practiceReturns ends bs)) aid = None)"
proof -
  have "map_of (usableEnds ends) aid = None" if "aid \<notin> fst ` set (usableEnds ends)"
    using that by (simp add: map_of_eq_None_iff)
  then have "map_of (pr_returnByAgent (practiceReturns ends bs)) aid = None
      \<and> map_of (pr_notPlaced (practiceReturns ends bs)) aid = None"
    if "aid \<notin> fst ` set (usableEnds ends)"
    using that unfolding practiceReturns_def place_fold [OF distinct_usableEnds [OF assms]] by simp
  then show ?thesis
    by (auto simp: practiceReturns_lookup [OF assms] not_le)
qed

text \<open>
  The floor never empties the field: it is at most a tenth of the largest start, so whoever of
  the field starts with the most is placed.
\<close>

theorem practiceReturns_richest:
  assumes "distinct (keys ends)" "(aid, v0, vK) \<in> set (usableEnds ends)" "aid \<notin> set bs" "0 < v0"
    and "\<forall>(b, w0, wK) \<in> set (usableEnds ends). b \<notin> set bs \<longrightarrow> w0 \<le> v0"
  shows "map_of (pr_returnByAgent (practiceReturns ends bs)) aid = Some (vK / v0 - 1)"
proof -
  let ?starts = "map (\<lambda>(_, v0, _). v0)
    (filter (\<lambda>(aid, v0, _). aid \<notin> set bs \<and> 0 < v0) (usableEnds ends))"
  have ne: "?starts \<noteq> []" using assms(2-4) by (auto simp: filter_empty_conv)
  have "0 \<le> median ?starts \<and> median ?starts \<le> v0"
    using assms(5) by (intro sortBy_le_bounds [OF ne]) auto
  then have "capitalFloor ends bs \<le> v0"
    by (simp add: capitalFloor_def Let_def)
  then show ?thesis
    using practiceReturns_lookup(1) [OF assms(1,2)] assms(4) by simp
qed

subsection \<open>A day that starts everybody alike\<close>

definition sameStart :: "real \<Rightarrow> (string \<times> real) list \<Rightarrow> (string \<times> practiceEnds) list" where
  "sameStart V finals =
     map (\<lambda>(aid, x). (aid, \<lparr>pe_initialValueUsdc = Fin V, pe_finalValueUsdc = Fin x\<rparr>)) finals"

lemma sameStart_usable: "usableEnds (sameStart V xs) = map (\<lambda>(aid, x). (aid, V, x)) xs"
  by (induction xs) (auto simp: sameStart_def)

lemma sameStart_floor: "0 < V \<Longrightarrow> capitalFloor (sameStart V xs) bs \<le> V"
proof -
  assume V: "0 < V"
  let ?starts = "map (\<lambda>(_, v0, _). v0)
    (filter (\<lambda>(aid, v0, _). aid \<notin> set bs \<and> 0 < v0) (usableEnds (sameStart V xs)))"
  have "median ?starts \<le> V" if "?starts \<noteq> []"
  proof -
    have "\<forall>v \<in> set ?starts. V \<le> v \<and> v \<le> V" by (auto simp: sameStart_usable)
    then show ?thesis using sortBy_le_bounds [OF that, of V V] by blast
  qed
  then have "?starts \<noteq> [] \<Longrightarrow> 1 / 10 * median ?starts \<le> V" using V by linarith
  with V show ?thesis unfolding capitalFloor_def Let_def by simp
qed

lemma place_all:
  assumes "0 < V" "fl \<le> V" "distinct (keys xs)" "set (keys xs) \<inter> set (keys (pr_returnByAgent r)) = {}"
  shows "fold (placeStep bs fl) (map (\<lambda>(aid, x). (aid, V, x)) xs) r =
    r\<lparr>pr_returnByAgent := pr_returnByAgent r @ map (\<lambda>(aid, x). (aid, x / V - 1)) xs\<rparr>"
  using assms
proof (induction xs arbitrary: r)
  case (Cons p xs)
  obtain b x where p: "p = (b, x)" by fastforce
  have "placeStep bs fl (b, V, x) r = r\<lparr>pr_returnByAgent := pr_returnByAgent r @ [(b, x / V - 1)]\<rparr>"
    using Cons.prems by (simp add: placeStep_eq p upd_fresh)
  with Cons show ?case by (simp add: p)
qed simp

lemma practiceReturns_sameStart:
  assumes "0 < V" "distinct (keys xs)"
  shows "pr_returnByAgent (practiceReturns (sameStart V xs) bs) = map (\<lambda>(aid, x). (aid, x / V - 1)) xs"
  using assms sameStart_floor [OF assms(1)]
  by (simp add: practiceReturns_def sameStart_usable place_all)

text \<open>
  A practice day scores the return \<open>V_K / V_0 - 1\<close> where the competition scores \<open>V_K - V_0\<close>.
  From one common \<open>V_0\<close> the two are the same ranking: every deviation score, the epoch's
  exclusion and its weight agree.
\<close>

theorem practice_scores_like_competition:
  assumes "0 < V" "distinct (keys finals)"
    and "scoreEpoch \<lparr>ei_s = s, ei_pnlByAgent = map (\<lambda>(aid, x). (aid, Fin (x - V))) finals,
           ei_benchmarkIds = bs, ei_invalid = invalid\<rparr> k wt = Inr r"
  shows "\<exists>r'. scoreEpoch \<lparr>ei_s = s, ei_pnlByAgent =
             map (\<lambda>(aid, y). (aid, Fin y)) (pr_returnByAgent (practiceReturns (sameStart V finals) bs)),
           ei_benchmarkIds = bs, ei_invalid = invalid\<rparr> k wt = Inr r'
    \<and> er_tByAgent r' = er_tByAgent r \<and> er_excluded r' = er_excluded r \<and> er_w r' = er_w r"
proof -
  let ?e = "\<lparr>ei_s = s, ei_pnlByAgent = map (\<lambda>(aid, x). (aid, Fin (x - V))) finals,
      ei_benchmarkIds = bs, ei_invalid = invalid\<rparr>"
  have "rescale (1 / V) 0 ?e = \<lparr>ei_s = s, ei_pnlByAgent =
             map (\<lambda>(aid, y). (aid, Fin y)) (pr_returnByAgent (practiceReturns (sameStart V finals) bs)),
           ei_benchmarkIds = bs, ei_invalid = invalid\<rparr>"
    using assms(1) unfolding practiceReturns_sameStart [OF assms(1,2)]
    by (auto simp: rescale_def diff_divide_distrib)
  with scoreEpoch_rescale [OF assms(3), of "1 / V" 0] assms(1) show ?thesis by simp
qed

section \<open>Witnesses\<close>

theorem epochPnlFromSeries_spec_witness:
  "ep_pnlUsdc (the (epochPnlFromSeries [Some (Fin 100), Some (Fin 90), Some (Fin 130), None])) = 30"
proof -
  have "epochPnlFromSeries [Some (Fin 100), Some (Fin 90), Some (Fin 130), None] = Some
      \<lparr>ep_pnlUsdc = 130 - 100, ep_initialValueUsdc = 100, ep_finalValueUsdc = 130,
       ep_finalBoundaryIndex = 2, ep_lastBoundaryIndex = 4 - 1, ep_carriedFinal = True\<rparr>"
    using epochPnlFromSeries_spec [of "[Some (Fin 100), Some (Fin 90), Some (Fin 130), None]"]
    by (auto simp: reported_def nth_Cons split: nat.splits intro!: exI [of _ 2])
  then show ?thesis by simp
qed

theorem firstBoundaryV0_bounds_witness:
  "100 \<le> ep_initialValueUsdc (the (epochPnlFromSeries
     (fb_valueUsdc (firstBoundaryV0 (Some (Fin 40)) (Some (Fin 100)) Floor) # [Some (Fin 130), None])))"
  using firstBoundaryV0_bounds [of "Some (Fin 40)" 100 Floor "[Some (Fin 130), None]"]
  by (simp add: firstBoundaryV0_funded epochPnlFromSeries_def reported_def numeral_2_eq_2)

definition dayEnds :: "(string \<times> practiceEnds) list" where
  "dayEnds = [(''a'', \<lparr>pe_initialValueUsdc = Fin 100, pe_finalValueUsdc = Fin 110\<rparr>),
     (''b'', \<lparr>pe_initialValueUsdc = Fin 4, pe_finalValueUsdc = Fin 8\<rparr>),
     (''c'', \<lparr>pe_initialValueUsdc = Fin 60, pe_finalValueUsdc = Fin 30\<rparr>)]"

theorem practiceReturns_placed_witness:
  "map_of (pr_returnByAgent (practiceReturns dayEnds [])) ''b'' = None"
  using practiceReturns_placed [of dayEnds "''b''" "[]"]
  by (simp add: dayEnds_def capitalFloor_def median_def)

theorem practiceReturns_richest_witness:
  "map_of (pr_returnByAgent (practiceReturns dayEnds [])) ''a'' = Some (1 / 10)"
  using practiceReturns_richest [of dayEnds "''a''" 100 110 "[]"] by (simp add: dayEnds_def)

theorem practice_scores_like_competition_witness:
  "\<exists>r'. scoreEpoch \<lparr>ei_s = 2, ei_pnlByAgent = map (\<lambda>(aid, y). (aid, Fin y))
        (pr_returnByAgent (practiceReturns (sameStart 100 [(''a'', 110), (''bench'', 103), (''b'', 90)]) [''bench''])),
      ei_benchmarkIds = [''bench''], ei_invalid = None\<rparr> 3 Linear = Inr r'
    \<and> er_tByAgent r' = [(''a'', 60), (''b'', 40)]"
  using practice_scores_like_competition
      [of 100 "[(''a'', 110), (''bench'', 103), (''b'', 90)]" 2 "[''bench'']" None 3 Linear duelResult] duel_scored
  by (auto simp: duel_def duelResult_def)

end
