(* ===== verification/Segments.thy ===== *)
theory Segments
  imports Interval_Series Period_Clock Formatting Epoch_Value
begin

text \<open>
  A continuous period cut into segments (\<open>core/src/segments.ts\<close>): the record of one agent in one
  segment, and \<open>SegmentedRun\<close> as a state with its operations. Of the file system the two files the
  class owns are part of the state: the competition's index (\<open>matrix.json\<close>) and the pointer to the
  current segment. \<open>Date.now()\<close> is an argument. A next roll that is not finite is \<open>None\<close>: neither
  \<open>Infinity\<close> nor \<open>NaN\<close> is ever reached by the clock.
\<close>

section \<open>One agent in one segment\<close>

record segmentAgentIdentity =
  si_id :: string
  si_address :: string
  si_baseline :: bool
  si_participant :: "string option"
  si_includedTxCount :: nat
  si_revertCount :: nat

datatype placement =
    Scored real real real "v0Source option" \<comment> \<open>initial, final, P, where V_0 came from\<close>
  | Unscored string

record segmentAgentRecord =
  sa_identity :: segmentAgentIdentity
  sa_placement :: placement

definition noV0 :: string where
  "noV0 = ''no P for this segment: the agent has no value at the segment's first boundary (registered mid-segment, or unpriced at every boundary that reported)''"

definition segmentAgentRecord ::
    "segmentAgentIdentity \<Rightarrow> epochPnl option \<Rightarrow> v0Source option \<Rightarrow> segmentAgentRecord" where
  "segmentAgentRecord agent pnl v0Source =
     (case pnl of
        None \<Rightarrow> \<lparr>sa_identity = agent, sa_placement = Unscored noV0\<rparr>
      | Some p \<Rightarrow> \<lparr>sa_identity = agent, sa_placement =
          Scored (ep_initialValueUsdc p) (ep_finalValueUsdc p) (ep_pnlUsdc p) v0Source\<rparr>)"

text \<open>The period index's entry: no transaction counts, and an alpha of 0 beside a P.\<close>

record segmentIndexAgent =
  xa_id :: string
  xa_address :: string
  xa_baseline :: bool
  xa_participant :: "string option"
  xa_placement :: placement
  xa_alphaUsdc :: "real option"

definition segmentIndexAgent :: "segmentAgentRecord \<Rightarrow> segmentIndexAgent" where
  "segmentIndexAgent a =
     \<lparr>xa_id = si_id (sa_identity a), xa_address = si_address (sa_identity a),
      xa_baseline = si_baseline (sa_identity a), xa_participant = si_participant (sa_identity a),
      xa_placement = sa_placement a,
      xa_alphaUsdc = (case sa_placement a of Unscored _ \<Rightarrow> None | Scored _ _ _ _ \<Rightarrow> Some 0)\<rparr>"

section \<open>The state\<close>

record segmentIndexEntry =
  ie_seed :: nat
  ie_label :: string
  ie_runDir :: string
  ie_fromBlock :: int
  ie_toBlock :: int
  ie_startedAt :: string
  ie_endedAt :: "string option"
  ie_agents :: "json list"

record segOpts =
  so_competitionId :: string
  so_hours :: real

record segmentedRun =
  sr_index :: "segmentIndexEntry list"
  sr_segment :: nat
  sr_segmentStartedAtMs :: int
  sr_segmentStartBlock :: int
  sr_periodStartedAtMs :: "int option"
  sr_nextRollAtMs :: "real option"
  sr_segmentDirId :: string
  sr_matrixFile :: "segmentIndexEntry list"
  sr_pointerFile :: string

record segmentedRunState =
  ss_segment :: nat
  ss_segmentDirId :: string
  ss_segmentStartedAtMs :: int
  ss_segmentStartBlock :: int
  ss_periodStartedAtMs :: "int option"
  ss_nextRollAtMs :: "real option"

definition runDirOf :: "segOpts \<Rightarrow> string \<Rightarrow> string" where
  "runDirOf opts dirId = ''runs/'' @ so_competitionId opts @ ''/'' @ dirId"

definition newSegmentId :: "segmentedRun \<Rightarrow> string" where
  "newSegmentId s = slice 0 10 (toISOString (sr_segmentStartedAtMs s)) @ ''-s''
     @ padStart 2 (CHR ''0'') (decimal (sr_segment s))"

definition segmentLabel :: "segOpts \<Rightarrow> segmentedRun \<Rightarrow> string" where
  "segmentLabel opts s =
     (let iso = toISOString (sr_segmentStartedAtMs s)
      in if 24 \<le> so_hours opts then slice 0 10 iso
         else if 1 \<le> so_hours opts then slice 0 10 iso @ '' '' @ slice 11 13 iso @ '':00Z''
         else slice 0 10 iso @ '' '' @ slice 11 16 iso @ ''Z'')"

definition stateOf :: "segmentedRun \<Rightarrow> segmentedRunState" where
  "stateOf s = \<lparr>ss_segment = sr_segment s, ss_segmentDirId = sr_segmentDirId s,
     ss_segmentStartedAtMs = sr_segmentStartedAtMs s, ss_segmentStartBlock = sr_segmentStartBlock s,
     ss_periodStartedAtMs = sr_periodStartedAtMs s, ss_nextRollAtMs = sr_nextRollAtMs s\<rparr>"

section \<open>The operations\<close>

definition isCurrent :: "segmentedRun \<Rightarrow> segmentIndexEntry \<Rightarrow> bool" where
  "isCurrent s e \<longleftrightarrow> suffix (sr_segmentDirId s) (ie_runDir e)"

definition openEntry :: "segOpts \<Rightarrow> segmentedRun \<Rightarrow> segmentIndexEntry" where
  "openEntry opts s = \<lparr>ie_seed = sr_segment s, ie_label = segmentLabel opts s,
     ie_runDir = runDirOf opts (sr_segmentDirId s), ie_fromBlock = sr_segmentStartBlock s,
     ie_toBlock = sr_segmentStartBlock s, ie_startedAt = toISOString (sr_segmentStartedAtMs s),
     ie_endedAt = None, ie_agents = []\<rparr>"

definition writeIndex :: "segOpts \<Rightarrow> segmentedRun \<Rightarrow> segmentedRun" where
  "writeIndex opts s =
     (let index = (if \<not> list_ex (isCurrent s) (sr_index s) then sr_index s @ [openEntry opts s]
                   else sr_index s)
      in s\<lparr>sr_index := index, sr_matrixFile := index\<rparr>)"

definition writePointer :: "segOpts \<Rightarrow> segmentedRun \<Rightarrow> segmentedRun" where
  "writePointer opts s = s\<lparr>sr_pointerFile := runDirOf opts (sr_segmentDirId s)\<rparr>"

definition openRun :: "segOpts \<Rightarrow> int \<Rightarrow> segmentedRun" where
  "openRun opts now =
     (let s = \<lparr>sr_index = [], sr_segment = 0, sr_segmentStartedAtMs = now, sr_segmentStartBlock = 0,
            sr_periodStartedAtMs = None, sr_nextRollAtMs = None, sr_segmentDirId = '''',
            sr_matrixFile = [], sr_pointerFile = ''''\<rparr>;
          s = s\<lparr>sr_segmentDirId := newSegmentId s\<rparr>
      in writePointer opts (writeIndex opts s))"

definition resumeRun :: "segOpts \<Rightarrow> segmentedRunState \<Rightarrow> segmentIndexEntry list \<Rightarrow> segmentedRun" where
  "resumeRun opts st index =
     (let index' = map (\<lambda>e. if \<not> suffix (ss_segmentDirId st) (ie_runDir e) then e
                     else e\<lparr>ie_endedAt := None, ie_toBlock := ie_fromBlock e, ie_agents := []\<rparr>)
            (filter (\<lambda>e. ie_seed e \<le> ss_segment st) index)
      in writePointer opts (writeIndex opts
           \<lparr>sr_index = index', sr_segment = ss_segment st,
            sr_segmentStartedAtMs = ss_segmentStartedAtMs st,
            sr_segmentStartBlock = ss_segmentStartBlock st,
            sr_periodStartedAtMs = ss_periodStartedAtMs st, sr_nextRollAtMs = ss_nextRollAtMs st,
            sr_segmentDirId = ss_segmentDirId st, sr_matrixFile = index, sr_pointerFile = ''''\<rparr>))"

definition noteFirstBlock :: "segOpts \<Rightarrow> int \<Rightarrow> int \<Rightarrow> segmentedRun \<Rightarrow> segmentedRun" where
  "noteFirstBlock opts blockNumber atMs s =
     (if sr_segmentStartBlock s \<noteq> 0 then s
      else writeIndex opts (s\<lparr>sr_segmentStartBlock := blockNumber, sr_segmentStartedAtMs := atMs,
             sr_periodStartedAtMs := Some atMs,
             sr_nextRollAtMs := finVal (nextDayBoundaryMs (of_int atMs) (so_hours opts) (of_int atMs))\<rparr>))"

definition dueToRoll :: "int \<Rightarrow> segmentedRun \<Rightarrow> bool" where
  "dueToRoll nowMs s =
     (if sr_segmentStartBlock s = 0 then False
      else (case sr_nextRollAtMs s of None \<Rightarrow> False | Some t \<Rightarrow> t \<le> of_int nowMs))"

text \<open>\<open>Object.assign(existing, entry)\<close> on the first entry that is the current one.\<close>

fun assignFirst :: "('a \<Rightarrow> bool) \<Rightarrow> 'a \<Rightarrow> 'a list \<Rightarrow> 'a list" where
  "assignFirst P x [] = []"
| "assignFirst P x (y # ys) = (if P y then x # ys else y # assignFirst P x ys)"

definition closeIndexEntry :: "segOpts \<Rightarrow> int \<Rightarrow> json list \<Rightarrow> int \<Rightarrow> segmentedRun \<Rightarrow> segmentedRun" where
  "closeIndexEntry opts atBlock agents now s =
     (let entry = (openEntry opts s)\<lparr>ie_toBlock := atBlock, ie_endedAt := Some (toISOString now),
            ie_agents := agents\<rparr>
      in writeIndex opts (s\<lparr>sr_index :=
           (if list_ex (isCurrent s) (sr_index s) then assignFirst (isCurrent s) entry (sr_index s)
            else sr_index s @ [entry])\<rparr>))"

definition roll :: "segOpts \<Rightarrow> int \<Rightarrow> json list \<Rightarrow> int \<Rightarrow> int \<Rightarrow> segmentedRun \<Rightarrow> segmentedRun" where
  "roll opts atBlock agents nowMs endedMs s =
     (let s = closeIndexEntry opts atBlock agents endedMs s;
          s = s\<lparr>sr_segment := Suc (sr_segment s), sr_segmentStartedAtMs := nowMs, sr_segmentStartBlock := atBlock\<rparr>;
          origin = (case sr_periodStartedAtMs s of Some t \<Rightarrow> t | None \<Rightarrow> sr_segmentStartedAtMs s);
          s = s\<lparr>sr_nextRollAtMs := finVal (nextDayBoundaryMs (of_int origin) (so_hours opts)
                  (of_int (sr_segmentStartedAtMs s)))\<rparr>;
          s = s\<lparr>sr_segmentDirId := newSegmentId s\<rparr>
      in writePointer opts (writeIndex opts s))"

definition finish :: "segOpts \<Rightarrow> int \<Rightarrow> json list \<Rightarrow> int \<Rightarrow> segmentedRun \<Rightarrow> segmentedRun" where
  "finish opts atBlock agents now s = closeIndexEntry opts atBlock agents now s"

section \<open>Which entry is the current one\<close>

text \<open>What follows the last dash of a name: \<open>s\<close> and the segment's number.\<close>

definition segNo :: "string \<Rightarrow> string" where
  "segNo s = takeWhile (\<lambda>c. c \<noteq> CHR ''-'') (rev s)"

definition segName :: "string \<Rightarrow> nat \<Rightarrow> string" where
  "segName d n = d @ ''-s'' @ padStart 2 (CHR ''0'') (decimal n)"

lemma takeWhile_stop: "\<forall>x \<in> set xs. P x \<Longrightarrow> \<not> P y \<Longrightarrow> takeWhile P (xs @ y # ys) = xs"
  by (induction xs) auto

lemma segNo_name: "segNo (w @ segName d n) = rev (padStart 2 (CHR ''0'') (decimal n)) @ ''s''"
proof -
  have "\<forall>c \<in> set (rev (padStart 2 (CHR ''0'') (decimal n)) @ ''s''). c \<noteq> CHR ''-''"
    using dash_not_padded [of 2 n] by auto
  from takeWhile_stop [OF this, of "CHR ''-''" "rev d @ rev w"] show ?thesis
    by (simp add: segNo_def segName_def)
qed

lemma suffix_name:
  assumes "suffix (segName d m) (w @ segName d' n)"
  shows "m = n"
proof -
  obtain v where v: "w @ segName d' n = v @ segName d m" using assms by (auto simp: suffix_def)
  have "rev (padStart 2 (CHR ''0'') (decimal m)) @ ''s'' = rev (padStart 2 (CHR ''0'') (decimal n)) @ ''s''"
    using segNo_name [of v d m] segNo_name [of w d' n] v by simp
  then have "padStart 2 (CHR ''0'') (decimal m) = padStart 2 (CHR ''0'') (decimal n)" by simp
  then show ?thesis by (metis undec_decimal undec_padStart)
qed

lemma newSegmentId_name:
  "newSegmentId s = segName (slice 0 10 (toISOString (sr_segmentStartedAtMs s))) (sr_segment s)"
  by (simp add: newSegmentId_def segName_def)

section \<open>The invariant\<close>

definition entryAt :: "segOpts \<Rightarrow> segmentIndexEntry \<Rightarrow> nat \<Rightarrow> bool" where
  "entryAt opts e i \<longleftrightarrow> ie_seed e = i \<and> (\<exists>d. ie_runDir e = runDirOf opts (segName d i))"

definition isOpen :: "segmentIndexEntry \<Rightarrow> bool" where
  "isOpen e \<longleftrightarrow> ie_endedAt e = None \<and> ie_toBlock e = ie_fromBlock e \<and> ie_agents e = []"

definition chained :: "segmentIndexEntry list \<Rightarrow> bool" where
  "chained es \<longleftrightarrow> (\<forall>i. Suc i < length es \<longrightarrow>
     0 < ie_fromBlock (es ! i) \<and> ie_fromBlock (es ! i) < ie_toBlock (es ! i)
     \<and> ie_toBlock (es ! i) = ie_fromBlock (es ! Suc i) \<and> ie_endedAt (es ! i) \<noteq> None)"

definition segInv :: "segOpts \<Rightarrow> segmentedRun \<Rightarrow> bool" where
  "segInv opts s \<longleftrightarrow>
     sr_matrixFile s = sr_index s \<and> sr_pointerFile s = runDirOf opts (sr_segmentDirId s)
     \<and> length (sr_index s) = Suc (sr_segment s)
     \<and> (\<forall>i < length (sr_index s). entryAt opts (sr_index s ! i) i)
     \<and> (\<exists>d. sr_segmentDirId s = segName d (sr_segment s))
     \<and> ie_runDir (last (sr_index s)) = runDirOf opts (sr_segmentDirId s)
     \<and> isOpen (last (sr_index s))
     \<and> chained (sr_index s)
     \<and> 0 \<le> sr_segmentStartBlock s
     \<and> (0 < sr_segment s \<longrightarrow> 0 < sr_segmentStartBlock s \<and> last (sr_index s) = openEntry opts s)
     \<and> (sr_periodStartedAtMs s = None \<longrightarrow> sr_segmentStartBlock s = 0)"

lemma runDirOf_suffix: "suffix d (runDirOf opts d)"
  by (auto simp: runDirOf_def suffix_def)

lemma index_last: "segInv opts s \<Longrightarrow> sr_index s ! sr_segment s = last (sr_index s)"
  by (cases "sr_index s" rule: rev_cases) (auto simp: segInv_def nth_append)

lemma writeIndex_fresh:
  "\<not> list_ex (isCurrent s) (sr_index s) \<Longrightarrow>
   writeIndex opts s = s\<lparr>sr_index := sr_index s @ [openEntry opts s], sr_matrixFile := sr_index s @ [openEntry opts s]\<rparr>"
  by (simp add: writeIndex_def Let_def)

lemma writeIndex_known:
  "list_ex (isCurrent s) (sr_index s) \<Longrightarrow> writeIndex opts s = s\<lparr>sr_matrixFile := sr_index s\<rparr>"
  by (simp add: writeIndex_def Let_def)

lemma current_iff:
  assumes "segInv opts s" "i < length (sr_index s)"
  shows "isCurrent s (sr_index s ! i) \<longleftrightarrow> i = sr_segment s"
proof
  assume "isCurrent s (sr_index s ! i)"
  moreover obtain d where "sr_segmentDirId s = segName d (sr_segment s)"
    using assms(1) by (auto simp: segInv_def)
  moreover obtain d' where "ie_runDir (sr_index s ! i) = runDirOf opts (segName d' i)"
    using assms by (auto simp: segInv_def entryAt_def)
  ultimately show "i = sr_segment s"
    using suffix_name [of d "sr_segment s" "''runs/'' @ so_competitionId opts @ ''/''" d' i]
    by (simp add: isCurrent_def runDirOf_def)
next
  assume "i = sr_segment s"
  then have "sr_index s ! i = last (sr_index s)"
    using index_last [OF assms(1)] by simp
  then show "isCurrent s (sr_index s ! i)"
    using assms(1) runDirOf_suffix by (simp add: isCurrent_def segInv_def)
qed

lemma has_current: "segInv opts s \<Longrightarrow> list_ex (isCurrent s) (sr_index s)"
  using current_iff [of opts s "sr_segment s"] by (auto simp: list_ex_length segInv_def)

lemma assignFirst_snoc:
  "\<forall>y \<in> set ys. \<not> P y \<Longrightarrow> P z \<Longrightarrow> assignFirst P x (ys @ [z]) = ys @ [x]"
  by (induction ys) auto

lemma assign_current:
  assumes "segInv opts s"
  shows "assignFirst (isCurrent s) x (sr_index s) = butlast (sr_index s) @ [x]"
proof -
  have ne: "sr_index s \<noteq> []" using assms by (auto simp: segInv_def)
  have "\<forall>y \<in> set (butlast (sr_index s)). \<not> isCurrent s y"
    using current_iff [OF assms] assms by (auto simp: in_set_conv_nth nth_butlast segInv_def)
  moreover have "isCurrent s (last (sr_index s))"
    using current_iff [OF assms, of "sr_segment s"] index_last [OF assms] assms
    by (simp add: segInv_def)
  ultimately show ?thesis
    using assignFirst_snoc [of "butlast (sr_index s)" "isCurrent s" "last (sr_index s)" x] ne by simp
qed

definition closedEntry :: "segOpts \<Rightarrow> int \<Rightarrow> json list \<Rightarrow> int \<Rightarrow> segmentedRun \<Rightarrow> segmentIndexEntry" where
  "closedEntry opts atBlock agents now s =
     (openEntry opts s)\<lparr>ie_toBlock := atBlock, ie_endedAt := Some (toISOString now), ie_agents := agents\<rparr>"

lemma isCurrent_upd [simp]:
  "isCurrent (s\<lparr>sr_index := x\<rparr>) = isCurrent s" "isCurrent (s\<lparr>sr_matrixFile := x\<rparr>) = isCurrent s"
  by (auto simp: isCurrent_def)

lemma closeIndexEntry_eq:
  assumes "segInv opts s"
  shows "closeIndexEntry opts atBlock agents now s =
    s\<lparr>sr_index := butlast (sr_index s) @ [closedEntry opts atBlock agents now s],
      sr_matrixFile := butlast (sr_index s) @ [closedEntry opts atBlock agents now s]\<rparr>"
proof -
  have "isCurrent s (closedEntry opts atBlock agents now s)"
    using runDirOf_suffix by (simp add: isCurrent_def closedEntry_def openEntry_def)
  then show ?thesis
    using has_current [OF assms] assign_current [OF assms]
    by (simp add: closeIndexEntry_def Let_def writeIndex_def flip: closedEntry_def)
qed

lemma openRun_inv: "segInv opts (openRun opts t)"
proof -
  have "\<exists>d. newSegmentId s = segName d (sr_segment s)" for s
    by (auto simp: newSegmentId_name)
  then show ?thesis
    by (auto simp: openRun_def writePointer_def writeIndex_def Let_def segInv_def entryAt_def
        openEntry_def isOpen_def chained_def newSegmentId_name)
qed

lemma note_inv: "segInv opts s \<Longrightarrow> 0 < b \<Longrightarrow> segInv opts (noteFirstBlock opts b t s)"
proof -
  assume inv: "segInv opts s" and b: "0 < b"
  show ?thesis
  proof (cases "sr_segmentStartBlock s = 0")
    case True
    let ?s = "s\<lparr>sr_segmentStartBlock := b, sr_segmentStartedAtMs := t, sr_periodStartedAtMs := Some t,
             sr_nextRollAtMs := finVal (nextDayBoundaryMs (of_int t) (so_hours opts) (of_int t))\<rparr>"
    have "isCurrent ?s = isCurrent s" by (auto simp: isCurrent_def)
    then have "writeIndex opts ?s = ?s\<lparr>sr_matrixFile := sr_index s\<rparr>"
      using has_current [OF inv] by (simp add: writeIndex_def)
    then show ?thesis
      using inv b True by (auto simp: noteFirstBlock_def segInv_def)
  qed (simp add: noteFirstBlock_def inv)
qed

lemma roll_eq:
  assumes "segInv opts s"
  obtains s' where "roll opts b agents now ended s = s'"
    "sr_index s' = butlast (sr_index s) @ [closedEntry opts b agents ended s, openEntry opts s']"
    "sr_matrixFile s' = sr_index s'" "sr_pointerFile s' = runDirOf opts (sr_segmentDirId s')"
    "sr_segment s' = Suc (sr_segment s)" "sr_segmentStartedAtMs s' = now" "sr_segmentStartBlock s' = b"
    "sr_segmentDirId s' = segName (slice 0 10 (toISOString now)) (Suc (sr_segment s))"
    "sr_periodStartedAtMs s' = sr_periodStartedAtMs s"
    "sr_nextRollAtMs s' = finVal (nextDayBoundaryMs
       (of_int (case sr_periodStartedAtMs s of Some t \<Rightarrow> t | None \<Rightarrow> now)) (so_hours opts) (of_int now))"
proof -
  let ?s' = "roll opts b agents now ended s"
  let ?c = "closedEntry opts b agents ended s"
  let ?id = "segName (slice 0 10 (toISOString now)) (Suc (sr_segment s))"
  have old: "\<not> suffix ?id (ie_runDir e)" if e: "e \<in> set (butlast (sr_index s) @ [?c])" for e
  proof -
    obtain d n where "ie_runDir e = runDirOf opts (segName d n)" "n \<le> sr_segment s"
    proof (cases "e = ?c")
      case True
      then show thesis using assms that
        by (auto simp: closedEntry_def openEntry_def segInv_def)
    next
      case False
      then have "e \<in> set (butlast (sr_index s))" using e by simp
      then obtain i where "i < length (sr_index s)" "e = sr_index s ! i"
        by (metis in_set_butlastD in_set_conv_nth)
      then show thesis using assms that by (auto simp: segInv_def entryAt_def)
    qed
    then show ?thesis
      using suffix_name [of "slice 0 10 (toISOString now)" "Suc (sr_segment s)"
          "''runs/'' @ so_competitionId opts @ ''/''" d n]
      by (auto simp: runDirOf_def)
  qed
  let ?ix = "butlast (sr_index s) @ [?c]"
  let ?s1 = "s\<lparr>sr_index := ?ix, sr_matrixFile := ?ix, sr_segment := Suc (sr_segment s),
      sr_segmentStartedAtMs := now, sr_segmentStartBlock := b,
      sr_nextRollAtMs := finVal (nextDayBoundaryMs
        (of_int (case sr_periodStartedAtMs s of Some t \<Rightarrow> t | None \<Rightarrow> now)) (so_hours opts) (of_int now)),
      sr_segmentDirId := ?id\<rparr>"
  have r: "?s' = writePointer opts (writeIndex opts ?s1)"
    by (simp add: roll_def Let_def closeIndexEntry_eq [OF assms] newSegmentId_name cong: option.case_cong)
  have "\<not> list_ex (isCurrent ?s1) ?ix"
    unfolding list_ex_iff using old by (auto simp: isCurrent_def)
  then have w: "writeIndex opts ?s1 = ?s1\<lparr>sr_index := ?ix @ [openEntry opts ?s1], sr_matrixFile := ?ix @ [openEntry opts ?s1]\<rparr>"
    using writeIndex_fresh [of ?s1 opts] by simp
  have o: "openEntry opts ?s' = openEntry opts ?s1"
    unfolding r w by (simp add: openEntry_def segmentLabel_def writePointer_def)
  show thesis
    by (rule that [OF refl]) (simp_all only: o, simp_all add: r w writePointer_def)
qed

lemma roll_inv:
  assumes "segInv opts s" "0 < sr_segmentStartBlock s" "sr_segmentStartBlock s < b"
  shows "segInv opts (roll opts b agents now ended s)"
proof -
  obtain s' where r: "roll opts b agents now ended s = s'"
    and ix: "sr_index s' = butlast (sr_index s) @ [closedEntry opts b agents ended s, openEntry opts s']"
    and f: "sr_matrixFile s' = sr_index s'" "sr_pointerFile s' = runDirOf opts (sr_segmentDirId s')"
      "sr_segment s' = Suc (sr_segment s)" "sr_segmentStartBlock s' = b"
      "sr_segmentDirId s' = segName (slice 0 10 (toISOString now)) (Suc (sr_segment s))"
      "sr_periodStartedAtMs s' = sr_periodStartedAtMs s"
    using assms(1) by (rule roll_eq) blast
  let ?old = "butlast (sr_index s)" and ?c = "closedEntry opts b agents ended s"
  have len: "length ?old = sr_segment s" using assms(1) by (simp add: segInv_def)
  have olds: "?old ! i = sr_index s ! i" if "i < sr_segment s" for i
    using that len by (simp add: nth_butlast)
  have fromB: "ie_fromBlock (last (sr_index s)) = sr_segmentStartBlock s" if "0 < sr_segment s"
    using assms(1) that by (simp add: segInv_def openEntry_def)
  have cseed: "entryAt opts ?c (sr_segment s)"
    using assms(1) by (auto simp: segInv_def entryAt_def closedEntry_def openEntry_def)
  have oseed: "entryAt opts (openEntry opts s') (Suc (sr_segment s))"
    using f by (auto simp: entryAt_def openEntry_def)
  have entries: "\<forall>i < length (sr_index s'). entryAt opts (sr_index s' ! i) i"
    using assms(1) cseed oseed len olds unfolding ix
    by (auto simp: nth_append segInv_def less_Suc_eq)
  have chain: "0 < ie_fromBlock (sr_index s ! i) \<and> ie_fromBlock (sr_index s ! i) < ie_toBlock (sr_index s ! i)
      \<and> ie_toBlock (sr_index s ! i) = ie_fromBlock (sr_index s ! Suc i) \<and> ie_endedAt (sr_index s ! i) \<noteq> None"
    if "i < sr_segment s" for i
  proof -
    have "chained (sr_index s)" "Suc i < length (sr_index s)"
      using assms(1) that by (simp_all add: segInv_def)
    then show ?thesis by (rule chained_def [THEN iffD1, rule_format])
  qed
  have "chained (sr_index s')"
    unfolding chained_def
  proof (intro allI impI)
    fix i assume i: "Suc i < length (sr_index s')"
    then consider "Suc i < sr_segment s" | "Suc i = sr_segment s" | "i = sr_segment s"
      using len unfolding ix by fastforce
    then show "0 < ie_fromBlock (sr_index s' ! i) \<and> ie_fromBlock (sr_index s' ! i) < ie_toBlock (sr_index s' ! i)
      \<and> ie_toBlock (sr_index s' ! i) = ie_fromBlock (sr_index s' ! Suc i) \<and> ie_endedAt (sr_index s' ! i) \<noteq> None"
    proof cases
      case 1
      then show ?thesis
        using chain [of i] len olds unfolding ix by (simp add: nth_append)
    next
      case 2
      then have "sr_index s ! Suc i = last (sr_index s)" using index_last [OF assms(1)] by simp
      moreover have "ie_fromBlock ?c = sr_segmentStartBlock s"
        by (simp add: closedEntry_def openEntry_def)
      ultimately show ?thesis
        using 2 chain [of i] len olds fromB unfolding ix by (simp add: nth_append)
    next
      case 3
      then show ?thesis
        using len assms(2,3) f unfolding ix by (auto simp: nth_append closedEntry_def openEntry_def)
    qed
  qed
  moreover have "isOpen (openEntry opts s')" by (simp add: isOpen_def openEntry_def)
  ultimately show ?thesis
    using assms f entries len ix unfolding r segInv_def
    by (auto simp: openEntry_def)
qed

section \<open>A period\<close>

text \<open>
  What the coordinator does with the class: it notes the period's first block, and at the end of a
  pass rolls when the roll is due, at a block after the segment's first.
\<close>

inductive segStep :: "segOpts \<Rightarrow> segmentedRun \<Rightarrow> segmentedRun \<Rightarrow> bool" for opts where
  noted: "0 < b \<Longrightarrow> segStep opts s (noteFirstBlock opts b t s)"
| rolls: "dueToRoll now s \<Longrightarrow> sr_segmentStartBlock s < b \<Longrightarrow>
    segStep opts s (roll opts b agents now ended s)"

inductive_cases segStepE: "segStep opts s s'"

lemma segStep_inv: "segStep opts s s' \<Longrightarrow> segInv opts s \<Longrightarrow> segInv opts s'"
proof (induction rule: segStep.induct)
  case (noted b s t)
  then show ?case by (intro note_inv)
next
  case (rolls now s b agents ended)
  then have "0 < sr_segmentStartBlock s"
    by (auto simp: dueToRoll_def segInv_def split: if_splits)
  with rolls show ?case by (intro roll_inv)
qed

lemma period_inv: "(segStep opts)\<^sup>*\<^sup>* (openRun opts t) s \<Longrightarrow> segInv opts s"
  by (induction rule: rtranclp_induct) (auto intro: openRun_inv segStep_inv)

text \<open>
  C7. At every moment of a period the index on disk lists the segments in order, one entry each:
  every one but the last is closed and covers at least one block, the next begins at the block the
  last ended on, so their ranges leave no gap; the last is open, and the pointer names its
  directory.
\<close>

theorem period_index_chained:
  assumes "(segStep opts)\<^sup>*\<^sup>* (openRun opts t) s"
  shows "map ie_seed (sr_matrixFile s) = [0..<Suc (sr_segment s)]
    \<and> chained (sr_matrixFile s) \<and> isOpen (last (sr_matrixFile s))
    \<and> sr_pointerFile s = ie_runDir (last (sr_matrixFile s))"
proof -
  have inv: "segInv opts s" by (rule period_inv [OF assms])
  then have "map ie_seed (sr_index s) = [0..<Suc (sr_segment s)]"
    by (intro nth_equalityI) (auto simp: segInv_def entryAt_def simp del: upt_Suc)
  with inv show ?thesis by (simp add: segInv_def)
qed

subsection \<open>Resuming from a checkpoint\<close>

text \<open>What a later index keeps of the segments up to the one a checkpoint was taken in.\<close>

definition reopen :: "segmentIndexEntry \<Rightarrow> segmentIndexEntry" where
  "reopen e = e\<lparr>ie_endedAt := None, ie_toBlock := ie_fromBlock e, ie_agents := []\<rparr>"

definition keeps :: "segOpts \<Rightarrow> segmentedRun \<Rightarrow> segmentedRun \<Rightarrow> bool" where
  "keeps opts s s' \<longleftrightarrow> segInv opts s' \<and> sr_segment s \<le> sr_segment s' \<and> 0 < sr_segmentStartBlock s'
     \<and> take (sr_segment s) (sr_index s') = take (sr_segment s) (sr_index s)
     \<and> reopen (sr_index s' ! sr_segment s) = openEntry opts s
     \<and> (sr_segment s' = sr_segment s \<longrightarrow> openEntry opts s' = openEntry opts s)"

lemma reopen_open: "reopen (openEntry opts s) = openEntry opts s"
  by (simp add: reopen_def openEntry_def)

lemma reopen_closed: "reopen (closedEntry opts b agents now s) = openEntry opts s"
  by (simp add: reopen_def closedEntry_def openEntry_def)

lemma keeps_refl: "segInv opts s \<Longrightarrow> 0 < sr_segment s \<Longrightarrow> keeps opts s s"
  unfolding keeps_def by (subst index_last) (auto simp: segInv_def reopen_open)

lemma keeps_step:
  assumes "keeps opts s u" "segStep opts u v"
  shows "keeps opts s v"
  using assms(2)
proof (cases rule: segStep.cases)
  case (noted b t)
  then show ?thesis using assms(1) by (auto simp: noteFirstBlock_def keeps_def)
next
  case (rolls now b agents ended)
  have inv: "segInv opts u" using assms(1) by (simp add: keeps_def)
  obtain v' where r: "roll opts b agents now ended u = v'"
    and ix: "sr_index v' = butlast (sr_index u) @ [closedEntry opts b agents ended u, openEntry opts v']"
    and f: "sr_segment v' = Suc (sr_segment u)" "sr_segmentStartBlock v' = b"
    using inv by (rule roll_eq) blast
  have len: "length (butlast (sr_index u)) = sr_segment u" using inv by (simp add: segInv_def)
  have v: "v = v'" using rolls(1) r by simp
  have "segInv opts v" by (rule segStep_inv [OF assms(2) inv])
  moreover have "take (sr_segment s) (sr_index v') = take (sr_segment s) (sr_index s)"
  proof -
    have "sr_segment s \<le> length (butlast (sr_index u))"
      using assms(1) len by (simp add: keeps_def)
    moreover have "sr_segment s < length (sr_index u)"
      using assms(1) inv by (simp add: keeps_def segInv_def)
    ultimately have "take (sr_segment s) (sr_index v') = take (sr_segment s) (sr_index u)"
      unfolding ix by (simp add: take_butlast)
    then show ?thesis using assms(1) by (simp add: keeps_def)
  qed
  moreover have "reopen (sr_index v' ! sr_segment s) = openEntry opts s"
  proof (cases "sr_segment s = sr_segment u")
    case True
    then show ?thesis using assms(1) len unfolding ix
      by (simp add: nth_append reopen_closed keeps_def)
  next
    case False
    then have "sr_segment s < sr_segment u" using assms(1) by (simp add: keeps_def)
    then show ?thesis using assms(1) len unfolding ix
      by (simp add: nth_append nth_butlast keeps_def)
  qed
  moreover have "0 < b" using rolls(3) inv by (simp add: segInv_def)
  ultimately show ?thesis
    using assms(1) f v by (simp add: keeps_def)
qed

lemma keeps_steps: "(segStep opts)\<^sup>*\<^sup>* s s' \<Longrightarrow> keeps opts s s \<Longrightarrow> keeps opts s s'"
  by (induction rule: rtranclp_induct) (auto intro: keeps_step)

lemma filter_seeds:
  assumes "\<forall>i < length es. ie_seed (es ! i) = i" "n < length es"
  shows "filter (\<lambda>e. ie_seed e \<le> n) es = take (Suc n) es"
proof -
  have "filter (\<lambda>e. ie_seed e \<le> n) (take (Suc n) es) = take (Suc n) es"
    unfolding filter_id_conv using assms by (auto simp: in_set_conv_nth)
  moreover have "filter (\<lambda>e. ie_seed e \<le> n) (drop (Suc n) es) = []"
    unfolding filter_empty_conv using assms by (auto simp: in_set_conv_nth)
  ultimately show ?thesis
    by (metis append_Nil2 append_take_drop_id filter_append)
qed

text \<open>
  While the period's first segment is open its entry is the one made before the first block. What its
  closing leaves is the entry of the moment: it starts where the run had noted its first block.
\<close>

definition firstKept :: "segOpts \<Rightarrow> segmentedRun \<Rightarrow> segmentedRun \<Rightarrow> bool" where
  "firstKept opts s s' \<longleftrightarrow> segInv opts s' \<and> ie_runDir (hd (sr_index s')) = ie_runDir (hd (sr_index s))
     \<and> (sr_segment s' = 0 \<longrightarrow> sr_index s' = sr_index s)
     \<and> (0 < sr_segmentStartBlock s \<longrightarrow>
         (sr_segment s' = 0 \<longrightarrow> 0 < sr_segmentStartBlock s' \<and> openEntry opts s' = openEntry opts s)
         \<and> (0 < sr_segment s' \<longrightarrow> reopen (hd (sr_index s')) = openEntry opts s))"

lemma firstKept_refl: "segInv opts s \<Longrightarrow> sr_segment s = 0 \<Longrightarrow> firstKept opts s s"
  by (simp add: firstKept_def)

lemma firstKept_step:
  assumes "firstKept opts s u" "segStep opts u v"
  shows "firstKept opts s v"
proof -
  have inv: "segInv opts u" using assms(1) by (simp add: firstKept_def)
  have inv': "segInv opts v" by (rule segStep_inv [OF assms(2) inv])
  show ?thesis using assms(2)
  proof (cases rule: segStep.cases)
    case (noted b t)
    have "sr_index v = sr_index u" "sr_segment v = sr_segment u"
      using has_current [OF inv] noted(1)
      by (simp_all add: noteFirstBlock_def writeIndex_def Let_def isCurrent_def [abs_def])
    moreover have "v = u" if "0 < sr_segmentStartBlock u" using noted(1) that by (simp add: noteFirstBlock_def)
    ultimately show ?thesis using assms(1) inv' by (auto simp: firstKept_def)
  next
    case (rolls now b agents ended)
    obtain v' where r: "roll opts b agents now ended u = v'"
      and ix: "sr_index v' = butlast (sr_index u) @ [closedEntry opts b agents ended u, openEntry opts v']"
      and f: "sr_segment v' = Suc (sr_segment u)"
      using inv by (rule roll_eq) blast
    have v: "v = v'" using rolls(1) r by simp
    have len: "length (sr_index u) = Suc (sr_segment u)" using inv by (simp add: segInv_def)
    show ?thesis
    proof (cases "sr_segment u = 0")
      case True
      then obtain e where e: "sr_index u = [e]" using len by (cases "sr_index u") auto
      then have "ie_runDir e = runDirOf opts (sr_segmentDirId u)" using inv by (simp add: segInv_def)
      moreover have "hd (sr_index v) = closedEntry opts b agents ended u" using e v by (simp add: ix)
      moreover have "ie_runDir (closedEntry opts b agents ended u) = runDirOf opts (sr_segmentDirId u)"
        by (simp add: closedEntry_def openEntry_def)
      moreover have "sr_index u = sr_index s" using assms(1) True by (simp add: firstKept_def)
      then have "e = hd (sr_index s)" using e by (metis list.sel(1))
      ultimately show ?thesis using assms(1) True inv' v f
        by (simp add: firstKept_def reopen_closed)
    next
      case False
      then have "hd (sr_index v) = hd (sr_index u)"
        using len v by (cases "sr_index u" rule: rev_cases) (auto simp: ix hd_append)
      then show ?thesis using assms(1) False inv' v f by (simp add: firstKept_def)
    qed
  qed
qed

lemma firstKept_steps: "(segStep opts)\<^sup>*\<^sup>* s s' \<Longrightarrow> firstKept opts s s \<Longrightarrow> firstKept opts s s'"
  by (induction rule: rtranclp_induct) (auto intro: firstKept_step)

text \<open>The index a resume rebuilds: the entries before the checkpoint's, and the checkpoint's open again.\<close>

lemma resume_index:
  assumes inv: "segInv opts s" and inv': "segInv opts s'" and le: "sr_segment s \<le> sr_segment s'"
    and before: "take (sr_segment s) (sr_index s') = take (sr_segment s) (sr_index s)"
    and dir: "ie_runDir (sr_index s' ! sr_segment s) = runDirOf opts (sr_segmentDirId s)"
  shows "resumeRun opts (stateOf s) (sr_matrixFile s') = (let
      ix = take (sr_segment s) (sr_index s) @ [reopen (sr_index s' ! sr_segment s)]
    in s\<lparr>sr_index := ix, sr_matrixFile := ix\<rparr>)"
proof -
  let ?n = "sr_segment s"
  let ?e = "sr_index s' ! ?n"
  define ix where "ix = take ?n (sr_index s) @ [reopen ?e]"
  have lt: "?n < length (sr_index s')" using inv' le by (simp add: segInv_def)
  have seeds: "\<forall>i < length (sr_index s'). ie_seed (sr_index s' ! i) = i"
    using inv' by (simp add: segInv_def entryAt_def)
  have cur: "\<not> suffix (sr_segmentDirId s) (ie_runDir e)" if mem: "e \<in> set (take ?n (sr_index s))" for e
  proof -
    obtain i where "i < ?n" "e = sr_index s ! i" using mem by (auto simp: in_set_conv_nth)
    then show ?thesis using current_iff [OF inv, of i] inv by (simp add: segInv_def isCurrent_def)
  qed
  have "take (Suc ?n) (sr_index s') = take ?n (sr_index s) @ [?e]"
    using lt before by (simp add: take_Suc_conv_app_nth)
  moreover have "map (\<lambda>e. if \<not> suffix (sr_segmentDirId s) (ie_runDir e) then e else reopen e)
      (take ?n (sr_index s)) = take ?n (sr_index s)"
    by (rule map_idI) (use cur in simp)
  moreover have here: "suffix (sr_segmentDirId s) (ie_runDir ?e)" using dir runDirOf_suffix by simp
  ultimately have "map (\<lambda>e. if \<not> suffix (sr_segmentDirId s) (ie_runDir e) then e else reopen e)
      (filter (\<lambda>e. ie_seed e \<le> ?n) (sr_matrixFile s')) = ix"
    using inv' filter_seeds [OF seeds lt] by (simp add: segInv_def ix_def)
  note ix = this [unfolded reopen_def]
  let ?r = "s\<lparr>sr_index := ix, sr_matrixFile := sr_matrixFile s', sr_pointerFile := ''''\<rparr>"
  have "resumeRun opts (stateOf s) (sr_matrixFile s') = writePointer opts (writeIndex opts ?r)"
    unfolding resumeRun_def Let_def stateOf_def segmentedRunState.simps ix by (cases s) simp
  also have "writeIndex opts ?r = s\<lparr>sr_index := ix, sr_matrixFile := ix, sr_pointerFile := ''''\<rparr>"
  proof -
    have "isCurrent ?r (reopen ?e)" using here by (simp add: isCurrent_def reopen_def)
    then have "list_ex (isCurrent ?r) (sr_index ?r)" by (simp add: ix_def)
    from writeIndex_known [OF this] show ?thesis by simp
  qed
  finally show ?thesis using inv by (simp add: writePointer_def segInv_def ix_def Let_def)
qed

text \<open>
  C8. A coordinator that dies and resumes from a checkpoint carries on where the checkpoint was,
  whatever the index had become since: every field is that of the checkpoint and both files are
  rewritten to match, the entries of later segments dropped and the checkpoint's own open again. The
  index is the checkpoint's except in one case, a checkpoint of the first segment once that segment was
  rolled: then the first entry, which until the roll still said block 0, is the open entry with the
  period's real start (or, for a checkpoint older than the first block, the rolled entry reopened).
\<close>

theorem resume_checkpoint:
  assumes "(segStep opts)\<^sup>*\<^sup>* (openRun opts t) s" "(segStep opts)\<^sup>*\<^sup>* s s'"
  shows "resumeRun opts (stateOf s) (sr_matrixFile s') = (let
      ix = (if 0 < sr_segment s \<or> sr_segment s' = 0 then sr_index s
            else if 0 < sr_segmentStartBlock s then [openEntry opts s]
            else [reopen (hd (sr_matrixFile s'))])
    in s\<lparr>sr_index := ix, sr_matrixFile := ix\<rparr>)"
proof -
  have inv: "segInv opts s" by (rule period_inv [OF assms(1)])
  have inv': "segInv opts s'"
    using assms(2) inv by (induction rule: rtranclp_induct) (auto intro: segStep_inv)
  have open1: "reopen (last (sr_index s)) = last (sr_index s)"
    using inv by (simp add: segInv_def isOpen_def reopen_def)
  have whole: "take (sr_segment s) (sr_index s) @ [last (sr_index s)] = sr_index s"
    using inv by (cases "sr_index s" rule: rev_cases) (auto simp: segInv_def)
  show ?thesis
  proof (cases "0 < sr_segment s")
    case True
    have k: "keeps opts s s'" using keeps_steps [OF assms(2) keeps_refl [OF inv True]] .
    have e: "reopen (sr_index s' ! sr_segment s) = last (sr_index s)"
      using k True inv by (simp add: keeps_def segInv_def)
    then have "ie_runDir (sr_index s' ! sr_segment s) = ie_runDir (last (sr_index s))"
      by (metis reopen_def segmentIndexEntry.select_convs(3) segmentIndexEntry.surjective
          segmentIndexEntry.update_convs(5,7,8))
    then show ?thesis using resume_index [OF inv inv'] k True e whole inv
      by (simp add: keeps_def segInv_def)
  next
    case False
    have k: "firstKept opts s s'" using firstKept_steps [OF assms(2) firstKept_refl [OF inv]] False by simp
    obtain e where e: "sr_index s = [e]" using inv False by (cases "sr_index s") (auto simp: segInv_def)
    have h: "sr_index s' ! 0 = hd (sr_index s')" using inv' by (cases "sr_index s'") (auto simp: segInv_def)
    show ?thesis using resume_index [OF inv inv'] k False e h open1 inv inv'
      by (simp add: firstKept_def segInv_def Let_def)
  qed
qed

text \<open>
  After a roll the next one is due strictly later and on the period's day grid, so a loop that
  stalled past several days rolls once and is not due again at that instant.
\<close>

theorem roll_lands_on_grid:
  assumes "(segStep opts)\<^sup>*\<^sup>* (openRun opts t) s" "0 < so_hours opts" "sr_periodStartedAtMs s = Some t0"
  shows "\<exists>k::int. sr_nextRollAtMs (roll opts b agents now ended s)
        = Some (of_int t0 + of_int (k + 1) * (so_hours opts * 3600000))
    \<and> of_int now < of_int t0 + of_int (k + 1) * (so_hours opts * 3600000)
    \<and> \<not> dueToRoll now (roll opts b agents now ended s)"
proof -
  obtain s' where r: "roll opts b agents now ended s = s'"
    and n: "sr_nextRollAtMs s' = finVal (nextDayBoundaryMs
       (of_int (case sr_periodStartedAtMs s of Some t \<Rightarrow> t | None \<Rightarrow> now)) (so_hours opts) (of_int now))"
    using period_inv [OF assms(1)] by (rule roll_eq) blast
  let ?k = "max 0 \<lfloor>(of_int now - of_int t0) / (so_hours opts * 3600000)\<rfloor> :: int"
  have "of_int now < of_int t0 + of_int (?k + 1) * (so_hours opts * 3600000)"
    by (rule day_end_after [OF assms(2)])
  moreover have "sr_nextRollAtMs s' = Some (of_int t0 + of_int (?k + 1) * (so_hours opts * 3600000))"
    using assms(3) by (simp add: n nextDay_eq [OF assms(2)])
  ultimately show ?thesis
    unfolding r by (intro exI [of _ ?k]) (auto simp: dueToRoll_def)
qed

text \<open>
  Noting the period's first block moves the run's own start, but not the entry the index
  already holds for the open segment: until the first roll the index on disk says it began at
  block 0, at the moment the directory was made.
\<close>

theorem first_entry_stale:
  assumes "0 < b"
  shows "sr_segmentStartBlock (noteFirstBlock opts b t (openRun opts t0)) = b
    \<and> sr_periodStartedAtMs (noteFirstBlock opts b t (openRun opts t0)) = Some t
    \<and> map ie_fromBlock (sr_matrixFile (noteFirstBlock opts b t (openRun opts t0))) = [0]
    \<and> map ie_startedAt (sr_matrixFile (noteFirstBlock opts b t (openRun opts t0))) = [toISOString t0]"
  by (auto simp: runDirOf_suffix noteFirstBlock_def openRun_def writeIndex_def writePointer_def Let_def openEntry_def
      isCurrent_def newSegmentId_name)

section \<open>Witnesses\<close>

definition dayOpts :: segOpts where
  "dayOpts = \<lparr>so_competitionId = ''period'', so_hours = 24\<rparr>"

definition firstDay :: segmentedRun where
  "firstDay = noteFirstBlock dayOpts 100 1000 (openRun dayOpts 0)"

definition secondDay :: segmentedRun where
  "secondDay = roll dayOpts 7300 [] 86402000 86402500 firstDay"

lemma firstDay_fields:
  "sr_segmentStartBlock firstDay = 100" "sr_nextRollAtMs firstDay = Some 86401000"
  "sr_periodStartedAtMs firstDay = Some 1000" "sr_segment firstDay = 0"
  by (simp_all add: firstDay_def noteFirstBlock_def openRun_def writeIndex_def writePointer_def Let_def
      nextDay_eq dayOpts_def)

lemma firstDay_reached: "(segStep dayOpts)\<^sup>*\<^sup>* (openRun dayOpts 0) firstDay"
  unfolding firstDay_def by (intro r_into_rtranclp segStep.noted) simp

lemma secondDay_step: "segStep dayOpts firstDay secondDay"
  unfolding secondDay_def by (rule segStep.rolls) (simp_all add: dueToRoll_def firstDay_fields)

lemma secondDay_reached: "(segStep dayOpts)\<^sup>*\<^sup>* (openRun dayOpts 0) secondDay"
  by (rule rtranclp.rtrancl_into_rtrancl [OF firstDay_reached secondDay_step])

theorem period_index_chained_witness: "chained (sr_matrixFile secondDay)"
  using period_index_chained [OF secondDay_reached] by simp

theorem resume_checkpoint_witness:
  "resumeRun dayOpts (stateOf secondDay) (sr_matrixFile (roll dayOpts 14500 [] 172801000 172801500 secondDay)) = secondDay
    \<and> sr_index (resumeRun dayOpts (stateOf firstDay) (sr_matrixFile secondDay)) = [openEntry dayOpts firstDay]"
proof -
  have n: "sr_segment secondDay = 1" "sr_segmentStartBlock secondDay = 7300"
    "sr_nextRollAtMs secondDay = Some 172801000"
    using roll_eq [OF period_inv [OF firstDay_reached], of 7300 "[]" 86402000 86402500]
    by (auto simp: secondDay_def firstDay_fields nextDay_eq dayOpts_def)
  have step: "segStep dayOpts secondDay (roll dayOpts 14500 [] 172801000 172801500 secondDay)"
    by (rule segStep.rolls) (simp_all add: dueToRoll_def n)
  have same: "secondDay\<lparr>sr_matrixFile := sr_index secondDay\<rparr> = secondDay"
    using period_inv [OF secondDay_reached] by (simp add: segInv_def)
  show ?thesis
    using resume_checkpoint [OF secondDay_reached r_into_rtranclp [of "segStep dayOpts", OF step]] n same
      resume_checkpoint [OF firstDay_reached r_into_rtranclp [of "segStep dayOpts", OF secondDay_step]]
    by (simp add: firstDay_fields Let_def)
qed

theorem roll_lands_on_grid_witness: "\<not> dueToRoll 259300000 (roll dayOpts 7300 [] 259300000 0 firstDay)"
  using roll_lands_on_grid [OF firstDay_reached, of 1000 7300 "[]" 259300000 0]
  by (auto simp: firstDay_fields dayOpts_def)

theorem first_entry_stale_witness:
  "map ie_fromBlock (sr_matrixFile (noteFirstBlock dayOpts 607 5000 (openRun dayOpts 0))) = [0]"
  using first_entry_stale [of 607 dayOpts 5000 0] by simp

end
