(* ===== verification/Segment_Recovery.thy ===== *)
theory Segment_Recovery
  imports Segments
begin

text \<open>
  Closing a segment whose coordinator died before the day rolled
  (\<open>core/src/segmentRecovery.ts\<close>): the previous segment's series and the boundary lines the dead
  coordinator left are put together, cut, and scored with the roll's own functions.
\<close>

record boundaryLine =
  bl_blockNumber :: real
  bl_fairPrice :: "real option"
  bl_values :: "(string \<times> jsnum option) list"

record crashedSegmentInput =
  cs_runId :: string
  cs_segment :: nat
  cs_fromBlock :: real
  cs_intervalBlocks :: real
  cs_prevBoundaries :: "real list"
  cs_prevValues :: "valueMap"
  cs_lines :: "boundaryLine list"
  cs_identities :: "segmentAgentIdentity list"
  cs_note :: string

record crashedSummary =
  cu_runId :: string
  cu_segment :: nat
  cu_fromBlock :: real
  cu_toBlock :: real
  cu_finalFairPrice :: "real option"
  cu_series :: seriesFields
  cu_agents :: "segmentAgentRecord list"
  cu_note :: string

text \<open>\<open>new Set(xs)\<close>, in the order of first insertion.\<close>

definition jsSet :: "'a list \<Rightarrow> 'a list" where
  "jsSet xs = fold (\<lambda>x acc. if x \<in> set acc then acc else acc @ [x]) xs []"

definition crashIds :: "crashedSegmentInput \<Rightarrow> string list" where
  "crashIds inp = jsSet (keys (cs_prevValues inp)
     @ concat (map (\<lambda>l. keys (bl_values l)) (cs_lines inp))
     @ map si_id (cs_identities inp))"

text \<open>\<open>typeof v === "number" ? v : null\<close> of one line's value.\<close>

definition lineValue :: "boundaryLine \<Rightarrow> string \<Rightarrow> jsnum option" where
  "lineValue l aid = getOr None (bl_values l) aid"

definition wholeValues :: "crashedSegmentInput \<Rightarrow> string \<Rightarrow> jsnum option list" where
  "wholeValues inp aid =
     (case map_of (cs_prevValues inp) aid of
        Some vs \<Rightarrow> vs
      | None \<Rightarrow> replicate (length (cs_prevBoundaries inp)) None)
     @ map (\<lambda>l. lineValue l aid) (cs_lines inp)"

definition wholeBoundaries :: "crashedSegmentInput \<Rightarrow> real list" where
  "wholeBoundaries inp = cs_prevBoundaries inp @ map bl_blockNumber (cs_lines inp)"

definition crashToBlock :: "crashedSegmentInput \<Rightarrow> real" where
  "crashToBlock inp =
     (if cs_lines inp = [] then cs_fromBlock inp else bl_blockNumber (last (cs_lines inp)))"

definition crashSlice :: "crashedSegmentInput \<Rightarrow> real list \<times> valueMap" where
  "crashSlice inp = sliceIntervalSeries (wholeBoundaries inp)
     (map (\<lambda>aid. (aid, wholeValues inp aid)) (crashIds inp)) (cs_fromBlock inp) (crashToBlock inp)"

definition crashRecord :: "crashedSegmentInput \<Rightarrow> segmentAgentIdentity \<Rightarrow> segmentAgentRecord" where
  "crashRecord inp a =
     (let vals = getOr [] (snd (crashSlice inp)) (si_id a)
      in segmentAgentRecord a (epochPnlFromSeries vals)
           (if nthOr vals 0 \<noteq> None then Some FromMeasured else None))"

definition closeCrashedSegment ::
    "crashedSegmentInput \<Rightarrow> crashedSummary \<times> segmentAgentRecord list \<times> real" where
  "closeCrashedSegment inp =
     (let sliced = crashSlice inp;
          records = map (crashRecord inp) (cs_identities inp);
          toBlock = crashToBlock inp
      in (\<lparr>cu_runId = cs_runId inp, cu_segment = cs_segment inp, cu_fromBlock = cs_fromBlock inp,
           cu_toBlock = toBlock,
           cu_finalFairPrice = (if cs_lines inp = [] then None else bl_fairPrice (last (cs_lines inp))),
           cu_series = intervalSeriesFields
             \<lparr>is_intervalBlocks = cs_intervalBlocks inp,
              is_intervals = max 0 (real (length (fst sliced)) - 1),
              is_boundaryBlocks = fst sliced, is_valuesByAgent = snd sliced\<rparr> None,
           cu_agents = records, cu_note = cs_note inp\<rparr>,
          records, toBlock))"

section \<open>Which value a boundary has\<close>

text \<open>An agent's value at the boundary on block \<open>b\<close>, wherever it was recorded.\<close>

definition valueAt :: "crashedSegmentInput \<Rightarrow> string \<Rightarrow> real \<Rightarrow> jsnum option" where
  "valueAt inp aid b =
     (case find (\<lambda>l. bl_blockNumber l = b) (cs_lines inp) of
        Some l \<Rightarrow> lineValue l aid
      | None \<Rightarrow> (case map_of (zip (cs_prevBoundaries inp) (getOr [] (cs_prevValues inp) aid)) b of
          Some v \<Rightarrow> v | None \<Rightarrow> None))"

text \<open>Boundaries in order, and the previous segment's values aligned with its boundaries.\<close>

definition wellKept :: "crashedSegmentInput \<Rightarrow> bool" where
  "wellKept inp \<longleftrightarrow> sorted_wrt (<) (wholeBoundaries inp)
     \<and> (\<forall>(aid, vs) \<in> set (cs_prevValues inp). length vs = length (cs_prevBoundaries inp))
     \<and> cs_prevBoundaries inp \<noteq> [] \<and> hd (cs_prevBoundaries inp) \<le> cs_fromBlock inp
     \<and> (\<forall>l \<in> set (cs_lines inp). cs_fromBlock inp \<le> bl_blockNumber l)"

lemma jsSet_set [simp]: "set (jsSet xs) = set xs"
proof -
  have "set (fold (\<lambda>x acc. if x \<in> set acc then acc else acc @ [x]) xs acc) = set xs \<union> set acc" for acc
    by (induction xs arbitrary: acc) auto
  then show ?thesis by (simp add: jsSet_def)
qed

lemma valueAt_nth:
  assumes "wellKept inp" "i < length (wholeBoundaries inp)"
  shows "wholeValues inp aid ! i = valueAt inp aid (wholeBoundaries inp ! i)"
proof -
  let ?p = "cs_prevBoundaries inp" and ?ls = "cs_lines inp"
  have sorted: "sorted_wrt (<) ?p" "sorted_wrt (<) (map bl_blockNumber ?ls)"
    "\<forall>b \<in> set ?p. \<forall>l \<in> set ?ls. b < bl_blockNumber l"
    using assms(1) by (auto simp: wellKept_def wholeBoundaries_def sorted_wrt_append)
  define pv where "pv = (case map_of (cs_prevValues inp) aid of
      Some vs \<Rightarrow> vs | None \<Rightarrow> replicate (length ?p) None)"
  have len: "length pv = length ?p"
    using assms(1) by (auto simp: pv_def wellKept_def split: option.splits dest!: map_of_SomeD)
  have vals: "wholeValues inp aid = pv @ map (\<lambda>l. lineValue l aid) ?ls"
    by (simp add: wholeValues_def pv_def)
  show ?thesis
  proof (cases "i < length ?p")
    case True
    have "find (\<lambda>l. bl_blockNumber l = ?p ! i) ?ls = None"
      using sorted(3) True by (fastforce simp: find_None_iff)
    moreover have "map_of (zip ?p vs) (?p ! i) = Some (vs ! i)" if "length vs = length ?p" for vs :: "jsnum option list"
      using that True sorted(1) by (intro map_of_zip_nth) (auto simp: strict_sorted_iff)
    then have "(case map_of (zip ?p (getOr [] (cs_prevValues inp) aid)) (?p ! i) of Some v \<Rightarrow> v | None \<Rightarrow> None) = pv ! i"
      using len True by (auto simp: pv_def getOr_def split: option.splits)
    ultimately show ?thesis
      using True len by (simp add: vals nth_append wholeBoundaries_def valueAt_def)
  next
    case False
    define j where "j = i - length ?p"
    have j: "j < length ?ls" "wholeBoundaries inp ! i = bl_blockNumber (?ls ! j)"
      using False assms(2) by (auto simp: j_def wholeBoundaries_def nth_append)
    have "distinct (map bl_blockNumber ?ls)" using sorted(2) by (simp add: strict_sorted_iff)
    then have "find (\<lambda>l. bl_blockNumber l = bl_blockNumber (?ls ! j)) ?ls = Some (?ls ! j)"
      using j(1) by (intro find_by_key) auto
    then show ?thesis
      using False len j by (simp add: vals nth_append valueAt_def j_def)
  qed
qed

lemma crash_aligned:
  assumes "wellKept inp" "aid \<in> set (crashIds inp)"
  shows "getOr [] (snd (crashSlice inp)) aid = map (valueAt inp aid) (fst (crashSlice inp))"
proof -
  let ?ix = "sliceIndices (wholeBoundaries inp) (cs_fromBlock inp) (crashToBlock inp)"
  have le: "cs_fromBlock inp \<le> crashToBlock inp"
    using assms(1) by (auto simp: wellKept_def crashToBlock_def)
  have "sorted_wrt (<) (wholeBoundaries inp)" using assms(1) by (simp add: wellKept_def)
  then have ix: "?ix = [upTo (wholeBoundaries inp) (cs_fromBlock inp) - 1..<upTo (wholeBoundaries inp) (crashToBlock inp)]"
    using le by (intro sliceIndices_spec)
  have lenv: "length (wholeValues inp aid) = length (wholeBoundaries inp)"
    using assms(1)
    by (auto simp: wellKept_def wholeValues_def wholeBoundaries_def split: option.splits dest!: map_of_SomeD)
  have one: "nthOr (wholeValues inp aid) i = valueAt inp aid (wholeBoundaries inp ! i)" if "i \<in> set ?ix" for i
  proof -
    have "i < length (wholeBoundaries inp)"
      using that upTo_le_length [of "wholeBoundaries inp" "crashToBlock inp"] unfolding ix by simp
    then show ?thesis using valueAt_nth [OF assms(1)] lenv by (simp add: nthOr_def)
  qed
  have "map_of (map (\<lambda>aid. (aid, g aid)) xs) aid = Some (g aid)" if "aid \<in> set xs" for g :: "string \<Rightarrow> jsnum option list" and xs
    using that by (induction xs) auto
  then have "map_of (snd (crashSlice inp)) aid = Some (map (nthOr (wholeValues inp aid)) ?ix)"
    using assms(2) by (simp add: crashSlice_def sliceIntervalSeries_def Let_def comp_def)
  then show ?thesis
    using one by (simp add: getOr_def crashSlice_def sliceIntervalSeries_def Let_def comp_def)
qed

lemma crash_boundaries:
  assumes "wellKept inp"
  shows "sorted_wrt (<) (fst (crashSlice inp))" "fst (crashSlice inp) \<noteq> []"
    "hd (fst (crashSlice inp)) = Max {b \<in> set (wholeBoundaries inp). b \<le> cs_fromBlock inp}"
    "last (fst (crashSlice inp)) = Max {b \<in> set (wholeBoundaries inp). b \<le> crashToBlock inp}"
proof -
  have w: "sorted_wrt (<) (wholeBoundaries inp)" "cs_fromBlock inp \<le> crashToBlock inp"
    "wholeBoundaries inp \<noteq> []" "hd (wholeBoundaries inp) \<le> cs_fromBlock inp"
    using assms by (auto simp: wellKept_def crashToBlock_def wholeBoundaries_def)
  note f = slice_facts [OF w(1,2,3,4), of "map (\<lambda>aid. (aid, wholeValues inp aid)) (crashIds inp)"
      "fst (crashSlice inp)" "snd (crashSlice inp)"]
  have sl: "sliceIntervalSeries (wholeBoundaries inp) (map (\<lambda>aid. (aid, wholeValues inp aid)) (crashIds inp))
      (cs_fromBlock inp) (crashToBlock inp) = (fst (crashSlice inp), snd (crashSlice inp))"
    by (simp add: crashSlice_def)
  from f [OF sl] show "sorted_wrt (<) (fst (crashSlice inp))" "fst (crashSlice inp) \<noteq> []"
    "hd (fst (crashSlice inp)) = Max {b \<in> set (wholeBoundaries inp). b \<le> cs_fromBlock inp}"
    "last (fst (crashSlice inp)) = Max {b \<in> set (wholeBoundaries inp). b \<le> crashToBlock inp}"
    by auto
qed

text \<open>
  A day closed after a crash is scored as the roll would have: an agent's P runs from the value
  at the last boundary at or before the segment's first block (the previous segment's closing
  value) to the last boundary the dead coordinator read and that has a value for the agent. An
  agent without the first, or without any later one, is recorded without a P, never with 0.
\<close>

theorem closeCrashed_record:
  assumes "wellKept inp" "a \<in> set (cs_identities inp)"
  shows "hd (fst (crashSlice inp)) = Max {b \<in> set (wholeBoundaries inp). b \<le> cs_fromBlock inp}
    \<and> (sa_placement (crashRecord inp a) = Unscored noV0 \<longleftrightarrow>
        reported (valueAt inp (si_id a) (hd (fst (crashSlice inp)))) = None
        \<or> (\<forall>b \<in> set (fst (crashSlice inp)). hd (fst (crashSlice inp)) < b \<longrightarrow> reported (valueAt inp (si_id a) b) = None))
    \<and> (\<forall>v0 vK p src. sa_placement (crashRecord inp a) = Scored v0 vK p src \<longrightarrow>
        reported (valueAt inp (si_id a) (hd (fst (crashSlice inp)))) = Some v0
        \<and> p = vK - v0 \<and> src = Some FromMeasured
        \<and> (\<exists>b \<in> set (fst (crashSlice inp)). reported (valueAt inp (si_id a) b) = Some vK
             \<and> (\<forall>b' \<in> set (fst (crashSlice inp)). b < b' \<longrightarrow> reported (valueAt inp (si_id a) b') = None)))"
proof -
  let ?bs = "fst (crashSlice inp)" and ?f = "valueAt inp (si_id a)"
  let ?vs = "map ?f ?bs"
  note b = crash_boundaries [OF assms(1)]
  have "si_id a \<in> set (crashIds inp)" using assms(2) by (auto simp: crashIds_def)
  from crash_aligned [OF assms(1) this] have
    rec: "crashRecord inp a = segmentAgentRecord a (epochPnlFromSeries ?vs)
      (if nthOr ?vs 0 \<noteq> None then Some FromMeasured else None)"
    by (simp add: crashRecord_def)
  have hd_nth: "hd ?bs = ?bs ! 0" using b(2) by (simp add: hd_conv_nth)
  have mono: "?bs ! i < ?bs ! j" if "i < j" "j < length ?bs" for i j
    using b(1) that by (auto simp: sorted_wrt_iff_nth_less)
  note ch = epochPnlFromSeries_char [of ?vs]
  have later: "(\<forall>j. 0 < j \<and> j < length ?vs \<longrightarrow> reported (?vs ! j) = None) \<longleftrightarrow>
      (\<forall>x \<in> set ?bs. hd ?bs < x \<longrightarrow> reported (?f x) = None)"
  proof (intro iffI ballI allI impI)
    fix x assume "\<forall>j. 0 < j \<and> j < length ?vs \<longrightarrow> reported (?vs ! j) = None" "x \<in> set ?bs" "hd ?bs < x"
    then show "reported (?f x) = None"
      unfolding hd_nth by (auto simp: in_set_conv_nth) (metis gr_zeroI less_irrefl nth_map)
  next
    fix j assume "\<forall>x \<in> set ?bs. hd ?bs < x \<longrightarrow> reported (?f x) = None" "0 < j \<and> j < length ?vs"
    then show "reported (?vs ! j) = None" using mono [of 0 j] unfolding hd_nth by simp
  qed
  have unscored: "sa_placement (crashRecord inp a) = Unscored noV0 \<longleftrightarrow> epochPnlFromSeries ?vs = None"
    unfolding rec by (cases "epochPnlFromSeries ?vs") (auto simp: segmentAgentRecord_def)
  have "sa_placement (crashRecord inp a) = Unscored noV0 \<longleftrightarrow>
      reported (?f (hd ?bs)) = None \<or> (\<forall>x \<in> set ?bs. hd ?bs < x \<longrightarrow> reported (?f x) = None)"
    using ch b(2) unfolding unscored later [symmetric] by (simp add: hd_nth)
  moreover have "reported (?f (hd ?bs)) = Some v0 \<and> p = vK - v0 \<and> src = Some FromMeasured
        \<and> (\<exists>x \<in> set ?bs. reported (?f x) = Some vK
             \<and> (\<forall>x' \<in> set ?bs. x < x' \<longrightarrow> reported (?f x') = None))"
    if sc: "sa_placement (crashRecord inp a) = Scored v0 vK p src" for v0 vK p src
  proof -
    from sc obtain r where r: "epochPnlFromSeries ?vs = Some r"
      and v: "v0 = ep_initialValueUsdc r" "vK = ep_finalValueUsdc r" "p = ep_pnlUsdc r"
        "src = (if nthOr ?vs 0 \<noteq> None then Some FromMeasured else None)"
      unfolding rec by (cases "epochPnlFromSeries ?vs") (auto simp: segmentAgentRecord_def)
    from ch [THEN conjunct1, THEN spec, of r, THEN iffD1, OF r] obtain w0 wK K where
      K: "reported (?vs ! 0) = Some w0" "0 < K" "K < length ?vs" "reported (?vs ! K) = Some wK"
        "\<forall>j. K < j \<and> j < length ?vs \<longrightarrow> reported (?vs ! j) = None"
      and req: "r = \<lparr>ep_pnlUsdc = wK - w0, ep_initialValueUsdc = w0, ep_finalValueUsdc = wK,
        ep_finalBoundaryIndex = K, ep_lastBoundaryIndex = length ?vs - 1,
        ep_carriedFinal = (K \<noteq> length ?vs - 1)\<rparr>" by blast
    have w: "w0 = v0" "wK = vK" "p = vK - v0" using v req by simp_all
    have "nthOr ?vs 0 \<noteq> None"
      using K(1) b(2) by (auto simp: nthOr_def reported_def bind_eq_Some_conv)
    moreover have "reported (?f x') = None" if x': "x' \<in> set ?bs" "?bs ! K < x'" for x'
    proof -
      obtain j where j: "j < length ?bs" "x' = ?bs ! j" using x'(1) by (auto simp: in_set_conv_nth)
      have "K < j" using mono [of j K] x'(2) K(3) j by (metis length_map not_less_iff_gr_or_eq order_less_asym)
      with K(5) j show ?thesis by simp
    qed
    moreover have "?bs ! K \<in> set ?bs" using K(3) by simp
    moreover have "reported (?f (?bs ! K)) = Some vK" using K(3,4) w by simp
    moreover have "reported (?f (hd ?bs)) = Some v0" using K(1) w b(2) by (simp add: hd_nth)
    ultimately show ?thesis using w(3) v(4) by auto
  qed
  ultimately show ?thesis using b(3) by blast
qed

section \<open>Witnesses\<close>

definition crashed :: crashedSegmentInput where
  "crashed = \<lparr>cs_runId = ''period/segment-1'', cs_segment = 1, cs_fromBlock = 112, cs_intervalBlocks = 12,
     cs_prevBoundaries = [88, 100, 112], cs_prevValues = [(''a'', [Some (Fin 50), Some (Fin 55), Some (Fin 60)])],
     cs_lines = [\<lparr>bl_blockNumber = 124, bl_fairPrice = None, bl_values = [(''a'', Some (Fin 70)), (''b'', Some (Fin 9))]\<rparr>,
       \<lparr>bl_blockNumber = 136, bl_fairPrice = None, bl_values = [(''a'', None), (''b'', Some (Fin 8))]\<rparr>],
     cs_identities = [\<lparr>si_id = ''a'', si_address = ''0xa'', si_baseline = False, si_participant = None,
         si_includedTxCount = 3, si_revertCount = 0\<rparr>,
       \<lparr>si_id = ''b'', si_address = ''0xb'', si_baseline = False, si_participant = None,
         si_includedTxCount = 1, si_revertCount = 0\<rparr>], cs_note = ''''\<rparr>"

theorem closeCrashed_record_witness:
  "sa_placement (crashRecord crashed (cs_identities crashed ! 1)) = Unscored noV0"
proof -
  have w: "wellKept crashed"
    by (simp add: wellKept_def crashed_def wholeBoundaries_def)
  have "{b \<in> set (wholeBoundaries crashed). b \<le> cs_fromBlock crashed} = {88, 100, 112}"
    by (auto simp: wholeBoundaries_def crashed_def)
  then have "hd (fst (crashSlice crashed)) = 112"
    using closeCrashed_record [OF w, of "cs_identities crashed ! 1"] by (simp add: crashed_def)
  moreover have "valueAt crashed ''b'' 112 = None"
    by (simp add: valueAt_def crashed_def getOr_def)
  ultimately show ?thesis
    using closeCrashed_record [OF w, of "cs_identities crashed ! 1"]
    by (simp add: crashed_def reported_def)
qed

end
