(* ===== verification/Schedule.thy ===== *)
theory Schedule
  imports Json Formatting
begin

text \<open>
  The live competition's schedule (\<open>core/src/competition/schedule.ts\<close>): the commitment's canonical
  JSON, the hash stream with its unbiased draws and shuffle, and the derivation of the k epochs.
  SHA-256 is the parameter \<open>sha\<close> (from a string to the 32 bytes of its digest), \<open>JSON.stringify\<close> of
  a value that is neither an array nor an object is \<open>prim\<close>, and \<open>Date.parse\<close> is \<open>dp\<close>. The
  rejection loop need not end for an arbitrary \<open>sha\<close>: a computation that does not return is
  \<open>None\<close>, one that throws \<open>Some (Inl e)\<close>.
\<close>

datatype schedule_error =
    NoRegimes
  | BadK jsnum
  | EmptyLotterySeed
  | SeedsNotIntegers string
  | SeedsRepeat string
  | TooFewSeeds string nat
  | UniformIntArg nat
  | NotADate string
  | NotPositiveSpacing
  | EmptyWindow

definition bindL :: "('e + 'a) option \<Rightarrow> ('a \<Rightarrow> ('e + 'b) option) \<Rightarrow> ('e + 'b) option" where
  "bindL m f = (case m of None \<Rightarrow> None | Some (Inl e) \<Rightarrow> Some (Inl e) | Some (Inr x) \<Rightarrow> f x)"

lemma bindL_simps [simp]:
  "bindL None f = None" "bindL (Some (Inl e)) f = Some (Inl e)" "bindL (Some (Inr x)) f = f x"
  by (simp_all add: bindL_def)

lemma bindL_Inr [result_simps]: "bindL m f = Some (Inr y) \<longleftrightarrow> (\<exists>x. m = Some (Inr x) \<and> f x = Some (Inr y))"
  by (auto simp: bindL_def split: option.splits sum.splits)

section \<open>The commitment\<close>

fun joinWith :: "string \<Rightarrow> string list \<Rightarrow> string" where
  "joinWith sep [] = ''''"
| "joinWith sep [x] = x"
| "joinWith sep (x # y # ys) = x @ sep @ joinWith sep (y # ys)"

primrec canonicalJson :: "(json \<Rightarrow> string) \<Rightarrow> json \<Rightarrow> string" where
  "canonicalJson prim JUndef = prim JUndef"
| "canonicalJson prim JNull = prim JNull"
| "canonicalJson prim (JBool b) = prim (JBool b)"
| "canonicalJson prim (JNum n) = prim (JNum n)"
| "canonicalJson prim (JStr s) = prim (JStr s)"
| "canonicalJson prim (JArr xs) = ''['' @ joinWith '','' (map (canonicalJson prim) xs) @ '']''"
| "canonicalJson prim (JObj r) =
     (let o' = map (map_prod id (canonicalJson prim)) r
      in ''{'' @ joinWith '',''
           (map (\<lambda>k. prim (JStr k) @ '':'' @ getOr '''' o' k) (sortBy strLe (keys r))) @ ''}'')"

definition commitmentOf :: "(string \<Rightarrow> string) \<Rightarrow> (json \<Rightarrow> string) \<Rightarrow> json \<Rightarrow> string" where
  "commitmentOf shaHex prim doc = ''sha256:'' @ shaHex (canonicalJson prim doc)"

text \<open>
  The same document, however its files order the properties of their objects, at any depth.
\<close>

inductive sameJson :: "json \<Rightarrow> json \<Rightarrow> bool" where
  same: "sameJson v v"
| arrays: "list_all2 sameJson xs ys \<Longrightarrow> sameJson (JArr xs) (JArr ys)"
| objects: "list_all2 (\<lambda>p q. fst p = fst q \<and> sameJson (snd p) (snd q)) r s \<Longrightarrow> mset s = mset t \<Longrightarrow>
    distinct (keys r) \<Longrightarrow> sameJson (JObj r) (JObj t)"

lemma getOr_perm: "mset s = mset t \<Longrightarrow> distinct (keys s) \<Longrightarrow> getOr d s k = getOr d t k"
proof -
  assume m: "mset s = mset t" and d: "distinct (keys s)"
  have "mset (keys s) = mset (keys t)" using m by simp
  then have "distinct (keys t)" using d mset_eq_imp_distinct_iff by blast
  then have "map_of s = map_of t"
    using map_of_inject_set [OF d] mset_eq_setD [OF m] by blast
  then show ?thesis by (simp add: getOr_def)
qed

text \<open>
  The commitment does not depend on how the committed file happened to order its keys, at any
  level: documents that differ only in that have one canonical form, so one commitment.
\<close>

theorem commitment_key_order:
  assumes "sameJson v w"
  shows "commitmentOf shaHex prim v = commitmentOf shaHex prim w"
proof -
  have "canonicalJson prim v = canonicalJson prim w"
    using assms
  proof (induction rule: sameJson.induct)
    case (same v)
    then show ?case by simp
  next
    case (arrays xs ys)
    then have "map (canonicalJson prim) xs = map (canonicalJson prim) ys"
      by (simp add: list_all2_conv_all_nth list_eq_iff_nth_eq)
    then show ?case by simp
  next
    case (objects r s t)
    let ?g = "map (map_prod id (canonicalJson prim))"
    have rs: "?g r = ?g s"
      using objects(1) by (simp add: list_all2_conv_all_nth list_eq_iff_nth_eq prod_eq_iff)
    have ks: "keys r = keys s"
      using objects(1) by (simp add: list_all2_conv_all_nth list_eq_iff_nth_eq)
    have "keys (?g s) = keys s" by (simp add: comp_def)
    then have "getOr '''' (?g s) k = getOr '''' (?g t) k" for k
      using objects(2,3) ks by (intro getOr_perm) simp_all
    moreover have "sortBy strLe (keys r) = sortBy strLe (keys t)"
      using objects(2) ks by (intro sortBy_strLe_cong) (metis mset_map)
    ultimately show ?case using rs by (simp add: Let_def)
  qed
  then show ?thesis by (simp add: commitmentOf_def)
qed

section \<open>The hash stream\<close>

type_synonym digest = "string \<Rightarrow> nat list"

record hashStream =
  hs_block :: "nat list"
  hs_offset :: nat
  hs_counter :: nat

definition hashStream :: hashStream where
  "hashStream = \<lparr>hs_block = [], hs_offset = 0, hs_counter = 0\<rparr>"

definition readUInt32BE :: "nat list \<Rightarrow> nat \<Rightarrow> nat" where
  "readUInt32BE block off = foldl (\<lambda>a b. 256 * a + b) 0 (take 4 (drop off block))"

definition nextUint32 :: "digest \<Rightarrow> string \<Rightarrow> hashStream \<Rightarrow> nat \<times> hashStream" where
  "nextUint32 sha seed st =
     (let st' = (if length (hs_block st) < hs_offset st + 4
                 then \<lparr>hs_block = sha (seed @ '':'' @ decimal (hs_counter st)), hs_offset = 0,
                       hs_counter = Suc (hs_counter st)\<rparr>
                 else st)
      in (readUInt32BE (hs_block st') (hs_offset st'), st'\<lparr>hs_offset := hs_offset st' + 4\<rparr>))"

partial_function (option) drawBelow ::
    "digest \<Rightarrow> string \<Rightarrow> nat \<Rightarrow> nat \<Rightarrow> hashStream \<Rightarrow> (nat \<times> hashStream) option" where
  "drawBelow sha seed limit n st =
     (let p = nextUint32 sha seed st
      in if fst p < limit then Some (fst p mod n, snd p) else drawBelow sha seed limit n (snd p))"

definition rejectLimit :: "nat \<Rightarrow> nat" where
  "rejectLimit n = 4294967296 div n * n"

definition uniformInt ::
    "digest \<Rightarrow> string \<Rightarrow> nat \<Rightarrow> hashStream \<Rightarrow> (schedule_error + nat \<times> hashStream) option" where
  "uniformInt sha seed n st =
     (if n = 0 then Some (Inl (UniformIntArg n))
      else map_option Inr (drawBelow sha seed (rejectLimit n) n st))"

definition swap :: "'a list \<Rightarrow> nat \<Rightarrow> nat \<Rightarrow> 'a list" where
  "swap xs i j = xs[i := xs ! j, j := xs ! i]"

fun shuffleLoop ::
    "digest \<Rightarrow> string \<Rightarrow> 'a list \<Rightarrow> nat \<Rightarrow> hashStream \<Rightarrow> (schedule_error + 'a list \<times> hashStream) option" where
  "shuffleLoop sha seed out 0 st = Some (Inr (out, st))"
| "shuffleLoop sha seed out (Suc i) st =
     bindL (uniformInt sha seed (Suc (Suc i)) st) (\<lambda>(j, st'). shuffleLoop sha seed (swap out (Suc i) j) i st')"

definition shuffle ::
    "digest \<Rightarrow> string \<Rightarrow> 'a list \<Rightarrow> hashStream \<Rightarrow> (schedule_error + 'a list \<times> hashStream) option" where
  "shuffle sha seed items st = shuffleLoop sha seed items (length items - 1) st"

section \<open>The plan\<close>

record epochPlan =
  pl_s :: nat
  pl_regime :: string
  pl_seed :: jsnum
  pl_startsAt :: "string option"

definition isIntegerNum :: "jsnum \<Rightarrow> bool" where
  "isIntegerNum v = (case v of Fin x \<Rightarrow> isInteger x | NonFin \<Rightarrow> False)"

definition checkRegime :: "nat \<Rightarrow> (string \<times> jsnum list) list \<Rightarrow> string \<Rightarrow> schedule_error + unit" where
  "checkRegime k hidden regime =
     (let seeds = getOr [] hidden regime
      in throwIf (\<exists>s \<in> set seeds. \<not> isIntegerNum s) (SeedsNotIntegers regime)
        (throwIf (\<not> distinct seeds) (SeedsRepeat regime)
        (throwIf (length seeds < k) (TooFewSeeds regime (length seeds)) (Inr ()))))"

fun shuffleAll ::
    "digest \<Rightarrow> string \<Rightarrow> (string \<times> jsnum list) list \<Rightarrow> string list \<Rightarrow> hashStream
     \<Rightarrow> (schedule_error + (string \<times> jsnum list) list \<times> hashStream) option" where
  "shuffleAll sha seed hidden [] st = Some (Inr ([], st))"
| "shuffleAll sha seed hidden (r # rs) st =
     bindL (shuffle sha seed (getOr [] hidden r) st) (\<lambda>(xs, st').
       bindL (shuffleAll sha seed hidden rs st') (\<lambda>(m, st''). Some (Inr ((r, xs) # m, st''))))"

text \<open>The loop over the epochs: \<open>n\<close> of them left, the next one the \<open>s\<close>-th.\<close>

fun drawEpochs ::
    "digest \<Rightarrow> string \<Rightarrow> string list \<Rightarrow> (string \<times> jsnum list) list \<Rightarrow> nat \<Rightarrow> nat \<Rightarrow> (string \<times> nat) list
     \<Rightarrow> hashStream \<Rightarrow> (schedule_error + epochPlan list) option" where
  "drawEpochs sha seed regimes order 0 s used st = Some (Inr [])"
| "drawEpochs sha seed regimes order (Suc n) s used st =
     bindL (uniformInt sha seed (length regimes) st) (\<lambda>(j, st').
       let regime = regimes ! j; i = getOr 0 used regime
       in bindL (drawEpochs sha seed regimes order n (Suc s) (AList.update regime (Suc i) used) st')
            (\<lambda>es. Some (Inr (\<lparr>pl_s = s, pl_regime = regime, pl_seed = getOr [] order regime ! i,
                              pl_startsAt = None\<rparr> # es))))"

definition deriveSchedule ::
    "digest \<Rightarrow> (string \<times> jsnum list) list \<Rightarrow> string \<Rightarrow> jsnum \<Rightarrow> (schedule_error + epochPlan list) option" where
  "deriveSchedule sha hidden lotterySeed k =
     (let regimes = sortBy strLe (keys hidden)
      in if regimes = [] then Some (Inl NoRegimes)
         else if \<not> isIntegerNum k \<or> the (finVal k) < 1 then Some (Inl (BadK k))
         else if lotterySeed = '''' then Some (Inl EmptyLotterySeed)
         else
           (let n = nat \<lfloor>the (finVal k)\<rfloor>
            in case mapR (checkRegime n hidden) regimes of
                 Inl e \<Rightarrow> Some (Inl e)
               | Inr _ \<Rightarrow>
                   bindL (shuffleAll sha lotterySeed hidden regimes hashStream) (\<lambda>(order, st).
                     drawEpochs sha lotterySeed regimes order n 1 (map (\<lambda>r. (r, 0)) regimes) st)))"

section \<open>The timetable\<close>

definition withTimetable ::
    "(string \<Rightarrow> jsnum) \<Rightarrow> epochPlan list \<Rightarrow> string \<Rightarrow> jsnum \<Rightarrow> schedule_error + epochPlan list" where
  "withTimetable dp epochs startsAt everyMinutes =
     (case dp startsAt of
        NonFin \<Rightarrow> Inl (NotADate startsAt)
      | Fin start \<Rightarrow>
          (case everyMinutes of
             NonFin \<Rightarrow> Inl NotPositiveSpacing
           | Fin m \<Rightarrow>
               throwIf (m \<le> 0) NotPositiveSpacing
                 (Inr (map (\<lambda>e. e\<lparr>pl_startsAt := Some (toISOString
                     \<lfloor>start + mathRound ((real (pl_s e) - 1) * m * 60000)\<rfloor>)\<rparr>) epochs))))"

definition spreadOver ::
    "(string \<Rightarrow> jsnum) \<Rightarrow> string \<Rightarrow> string \<Rightarrow> jsnum \<Rightarrow> schedule_error + string \<times> real" where
  "spreadOver dp startsAt endsAt k =
     (case dp startsAt of
        NonFin \<Rightarrow> Inl (NotADate startsAt)
      | Fin start \<Rightarrow>
          (case dp endsAt of
             NonFin \<Rightarrow> Inl (NotADate endsAt)
           | Fin end' \<Rightarrow>
               throwIf (\<not> start < end') EmptyWindow
               (throwIf (\<not> isIntegerNum k \<or> the (finVal k) < 1) (BadK k)
               (Inr (startsAt, (end' - start) / the (finVal k) / 60000)))))"

section \<open>The stream as a sequence of words\<close>

definition wordAt :: "digest \<Rightarrow> string \<Rightarrow> nat \<Rightarrow> nat" where
  "wordAt sha seed p = readUInt32BE (sha (seed @ '':'' @ decimal (p div 8))) (4 * (p mod 8))"

definition atWord :: "digest \<Rightarrow> string \<Rightarrow> nat \<Rightarrow> hashStream \<Rightarrow> bool" where
  "atWord sha seed p st \<longleftrightarrow>
     (if p mod 8 = 0 then hs_counter st = p div 8 \<and> length (hs_block st) < hs_offset st + 4
      else hs_counter st = Suc (p div 8) \<and> hs_block st = sha (seed @ '':'' @ decimal (p div 8))
        \<and> hs_offset st = 4 * (p mod 8))"

text \<open>What the code relies on of SHA-256: a digest is 32 bytes.\<close>

definition digests :: "digest \<Rightarrow> bool" where
  "digests sha \<longleftrightarrow> (\<forall>s. length (sha s) = 32 \<and> (\<forall>b \<in> set (sha s). b < 256))"

text \<open>And of its stream under one seed: words below \<open>2^31\<close> keep coming.\<close>

definition fair :: "digest \<Rightarrow> string \<Rightarrow> bool" where
  "fair sha seed \<longleftrightarrow> (\<forall>p. \<exists>q \<ge> p. wordAt sha seed q < 2147483648)"

lemma atWord_start: "atWord sha seed 0 hashStream"
  by (simp add: atWord_def hashStream_def)

lemma nextUint32_word:
  assumes "digests sha" "atWord sha seed p st"
  shows "fst (nextUint32 sha seed st) = wordAt sha seed p"
    "atWord sha seed (Suc p) (snd (nextUint32 sha seed st))"
proof -
  have l: "length (sha s) = 32" for s using assms(1) by (simp add: digests_def)
  have m: "p mod 8 < 8" by simp
  show "fst (nextUint32 sha seed st) = wordAt sha seed p"
    using assms(2) l m by (auto simp: nextUint32_def atWord_def wordAt_def Let_def split: if_splits)
  show "atWord sha seed (Suc p) (snd (nextUint32 sha seed st))"
  proof (cases "Suc (p mod 8) = 8")
    case True
    then have "Suc p mod 8 = 0" "Suc p div 8 = Suc (p div 8)" "p mod 8 = 7"
      by (simp_all add: mod_Suc div_Suc)
    then show ?thesis
      using assms(2) l by (simp add: nextUint32_def atWord_def Let_def)
  next
    case False
    then have "Suc p mod 8 = Suc (p mod 8)" "Suc p div 8 = p div 8"
      by (simp_all add: mod_Suc div_Suc)
    then show ?thesis
      using assms(2) l m False by (auto simp: nextUint32_def atWord_def Let_def split: if_splits)
  qed
qed

lemma drawBelow_word:
  assumes "digests sha" "atWord sha seed p st" "p \<le> q" "wordAt sha seed q < limit"
  shows "\<exists>r st'. p \<le> r \<and> wordAt sha seed r < limit \<and> (\<forall>i. p \<le> i \<and> i < r \<longrightarrow> limit \<le> wordAt sha seed i)
    \<and> atWord sha seed (Suc r) st' \<and> drawBelow sha seed limit n st = Some (wordAt sha seed r mod n, st')"
  using assms(2,3)
proof (induction "q - p" arbitrary: p st)
  case 0
  then have "p = q" by simp
  then show ?case
    using nextUint32_word [OF assms(1) 0(2)] assms(4)
    by (subst drawBelow.simps) (auto simp: Let_def)
next
  case (Suc d)
  note w = nextUint32_word [OF assms(1) Suc(3)]
  show ?case
  proof (cases "wordAt sha seed p < limit")
    case True
    then show ?thesis using w by (subst drawBelow.simps) (auto simp: Let_def)
  next
    case False
    from Suc(1) [OF _ w(2)] Suc(2,4) obtain r st' where r:
      "Suc p \<le> r" "wordAt sha seed r < limit" "atWord sha seed (Suc r) st'"
      "\<forall>i. Suc p \<le> i \<and> i < r \<longrightarrow> limit \<le> wordAt sha seed i"
      "drawBelow sha seed limit n (snd (nextUint32 sha seed st)) = Some (wordAt sha seed r mod n, st')"
      by fastforce
    have "limit \<le> wordAt sha seed i" if "p \<le> i" "i < r" for i
      using that r(4) False by (cases "i = p") auto
    with r show ?thesis
      using w False by (intro exI [of _ r] exI [of _ st'], subst drawBelow.simps) (auto simp: Let_def)
  qed
qed

lemma rejectLimit_big:
  assumes "0 < n" "n \<le> 4294967296"
  shows "2147483648 \<le> rejectLimit n"
proof (cases "n \<le> 2147483648")
  case True
  have "4294967296 = 4294967296 div n * n + 4294967296 mod n" by simp
  moreover have "4294967296 mod n < n" using assms(1) by simp
  ultimately show ?thesis using True unfolding rejectLimit_def by linarith
next
  case False
  then have "1 \<le> 4294967296 div n" using assms by (simp add: Suc_le_eq div_greater_zero_iff)
  then have "n \<le> rejectLimit n" unfolding rejectLimit_def by (metis mult_le_mono1 nat_mult_1)
  then show ?thesis using False by simp
qed

lemma uniformInt_returns:
  assumes "digests sha" "fair sha seed" "atWord sha seed p st" "0 < n" "n \<le> 4294967296"
  shows "\<exists>j q st'. uniformInt sha seed n st = Some (Inr (j, st')) \<and> j < n \<and> atWord sha seed q st'"
proof -
  obtain q where "p \<le> q" "wordAt sha seed q < rejectLimit n"
    using assms(2) rejectLimit_big [OF assms(4,5)] unfolding fair_def by (meson order_less_le_trans)
  from drawBelow_word [OF assms(1,3) this, of n] obtain r st' where
    "drawBelow sha seed (rejectLimit n) n st = Some (wordAt sha seed r mod n, st')" "atWord sha seed (Suc r) st'"
    by blast
  then show ?thesis using assms(4) by (auto simp: uniformInt_def)
qed

lemma uniformInt_range:
  assumes "uniformInt sha seed n st = Some (Inr (j, st'))"
  shows "j < n"
proof -
  have "drawBelow sha seed l m st = Some r \<Longrightarrow> 0 < m \<longrightarrow> fst r < m" for l m r
    by (rule drawBelow.raw_induct [where P = "\<lambda>sha seed l m st r. 0 < m \<longrightarrow> fst r < m"])
      (auto simp: Let_def split: if_splits)
  then show ?thesis using assms by (fastforce simp: uniformInt_def split: if_splits)
qed

lemma card_residue:
  assumes "r < n"
  shows "card {v. v < m * n \<and> v mod n = r} = (m :: nat)"
proof -
  have "{v. v < m * n \<and> v mod n = r} = (\<lambda>i. i * n + r) ` {..<m}"
  proof (intro equalityI subsetI)
    fix v assume "v \<in> {v. v < m * n \<and> v mod n = r}"
    then have "v = v div n * n + r" "v div n < m" by (auto simp: less_mult_imp_div_less)
    then show "v \<in> (\<lambda>i. i * n + r) ` {..<m}" by blast
  next
    fix v assume "v \<in> (\<lambda>i. i * n + r) ` {..<m}"
    then obtain i where i: "v = i * n + r" "i < m" by auto
    have "i * n + r < Suc i * n" using assms by simp
    also have "\<dots> \<le> m * n" using i(2) by (intro mult_le_mono1) simp
    finally show "v \<in> {v. v < m * n \<and> v mod n = r}" using i(1) assms by simp
  qed
  moreover have "inj_on (\<lambda>i. i * n + r) {..<m}" using assms by (auto simp: inj_on_def)
  ultimately show ?thesis by (simp add: card_image)
qed

text \<open>
  C11. A draw below \<open>n\<close> is unbiased: it is the remainder of the first word of the stream below the
  rejection limit, and of the words it accepts exactly \<open>2^32 div n\<close> leave each remainder.
\<close>

theorem uniformInt_unbiased:
  assumes "digests sha" "fair sha seed" "atWord sha seed p st" "0 < n" "n \<le> 4294967296"
  shows "\<exists>q st'. uniformInt sha seed n st = Some (Inr (wordAt sha seed q mod n, st'))
    \<and> p \<le> q \<and> wordAt sha seed q < rejectLimit n \<and> (\<forall>i. p \<le> i \<and> i < q \<longrightarrow> rejectLimit n \<le> wordAt sha seed i)
    \<and> (\<forall>j < n. card {v. v < rejectLimit n \<and> v mod n = j} = 4294967296 div n)"
proof -
  obtain q where "p \<le> q" "wordAt sha seed q < rejectLimit n"
    using assms(2) rejectLimit_big [OF assms(4,5)] unfolding fair_def by (meson order_less_le_trans)
  from drawBelow_word [OF assms(1,3) this, of n] show ?thesis
    using assms(4) card_residue [of _ n "4294967296 div n"]
    by (auto simp: uniformInt_def rejectLimit_def)
qed

section \<open>The shuffle\<close>

text \<open>The swaps of the shuffle for given draws, the one for the last place first.\<close>

fun swaps :: "'a list \<Rightarrow> nat \<Rightarrow> nat list \<Rightarrow> 'a list" where
  "swaps out 0 ds = out"
| "swaps out (Suc i) ds = swaps (swap out (Suc i) (hd ds)) i (tl ds)"

fun drawsFor :: "nat \<Rightarrow> nat list \<Rightarrow> bool" where
  "drawsFor 0 ds = (ds = [])"
| "drawsFor (Suc i) ds = (ds \<noteq> [] \<and> hd ds \<le> Suc i \<and> drawsFor i (tl ds))"

lemma length_swap [simp]: "length (swap xs i j) = length xs"
  by (simp add: swap_def)

lemma mset_swap_eq: "i < length xs \<Longrightarrow> j < length xs \<Longrightarrow> mset (swap xs i j) = mset xs"
  unfolding swap_def by (simp add: mset_swap)

lemma shuffleLoop_swaps:
  assumes "shuffleLoop sha seed out i st = Some (Inr (out', st'))"
  shows "\<exists>ds. drawsFor i ds \<and> out' = swaps out i ds"
  using assms
proof (induction i arbitrary: out st)
  case 0
  then show ?case by simp
next
  case (Suc i)
  then obtain j st1 where j: "uniformInt sha seed (Suc (Suc i)) st = Some (Inr (j, st1))"
    "shuffleLoop sha seed (swap out (Suc i) j) i st1 = Some (Inr (out', st'))"
    by (auto simp: result_simps)
  from Suc.IH [OF j(2)] obtain ds where "drawsFor i ds" "out' = swaps (swap out (Suc i) j) i ds" by blast
  then show ?case using uniformInt_range [OF j(1)] by (intro exI [of _ "j # ds"]) simp
qed

lemma swaps_perm:
  "drawsFor i ds \<Longrightarrow> i < length out \<or> i = 0 \<Longrightarrow> mset (swaps out i ds) = mset out"
  by (induction i arbitrary: out ds) (auto simp: mset_swap_eq)

lemma swaps_above: "drawsFor i ds \<Longrightarrow> i < k \<Longrightarrow> swaps out i ds ! k = out ! k"
  by (induction i arbitrary: out ds) (auto simp: swap_def)

lemma length_swaps [simp]: "length (swaps out i ds) = length out"
  by (induction i arbitrary: out ds) auto

text \<open>Every order of distinct items comes from exactly one list of draws.\<close>

lemma swaps_unique:
  assumes "distinct out" "i < length out" "mset p = mset out" "\<forall>k. i < k \<and> k < length out \<longrightarrow> p ! k = out ! k"
  shows "\<exists>!ds. drawsFor i ds \<and> swaps out i ds = p"
  using assms
proof (induction i arbitrary: out)
  case 0
  have len: "length p = length out" using 0(3) by (metis size_mset)
  have rest: "tl p = tl out"
    using 0(4) len by (intro nth_equalityI) (auto simp: nth_tl)
  have "hd p = hd out"
  proof -
    have "p \<noteq> []" "out \<noteq> []" using 0(2) len by auto
    then have "mset (hd p # tl p) = mset (hd out # tl out)" using 0(3) by simp
    then show ?thesis using rest by simp
  qed
  then have "p = out" using rest 0(2) len by (metis hd_Cons_tl length_greater_0_conv)
  then show ?case by auto
next
  case (Suc i)
  have len: "length p = length out" using Suc.prems(3) by (metis size_mset)
  have setp: "set p = set out" using Suc.prems(3) by (metis set_mset_mset)
  have dp: "distinct p" using Suc.prems(1,3) mset_eq_imp_distinct_iff by blast
  from Suc.prems(2) len setp obtain j where j: "j < length out" "out ! j = p ! Suc i"
    by (metis in_set_conv_nth nth_mem)
  have "j \<le> Suc i"
  proof (rule ccontr)
    assume "\<not> j \<le> Suc i"
    then have "p ! j = p ! Suc i" using Suc.prems(4) j by simp
    then show False using dp j(1) Suc.prems(2) len \<open>\<not> j \<le> Suc i\<close> by (simp add: nth_eq_iff_index_eq)
  qed
  have step: "\<exists>!ds. drawsFor i ds \<and> swaps (swap out (Suc i) j) i ds = p"
  proof (rule Suc.IH)
    show "distinct (swap out (Suc i) j)"
      using Suc.prems(1,2) j(1) mset_swap_eq mset_eq_imp_distinct_iff by metis
    show "mset p = mset (swap out (Suc i) j)"
      using Suc.prems(2,3) j(1) by (simp add: mset_swap_eq)
    show "\<forall>k. i < k \<and> k < length (swap out (Suc i) j) \<longrightarrow> p ! k = swap out (Suc i) j ! k"
      using Suc.prems(2,4) j \<open>j \<le> Suc i\<close> by (auto simp: swap_def nth_list_update)
  qed (use Suc.prems(2) in simp)
  then obtain ds where ds: "drawsFor i ds" "swaps (swap out (Suc i) j) i ds = p" by blast
  show ?case
  proof (rule ex1I [of _ "j # ds"])
    show "drawsFor (Suc i) (j # ds) \<and> swaps out (Suc i) (j # ds) = p"
      using ds \<open>j \<le> Suc i\<close> by simp
    fix es assume es: "drawsFor (Suc i) es \<and> swaps out (Suc i) es = p"
    then have "p ! Suc i = swap out (Suc i) (hd es) ! Suc i"
      using swaps_above [of i "tl es" "Suc i" "swap out (Suc i) (hd es)"] by auto
    also have "\<dots> = out ! hd es"
      using Suc.prems(2) es by (auto simp: swap_def nth_list_update)
    finally have "hd es = j"
      using j Suc.prems(1,2) es by (simp add: nth_eq_iff_index_eq)
    moreover have "tl es = ds"
      using step ds es calculation by auto
    ultimately show "es = j # ds" using es by (metis drawsFor.simps(2) list.collapse)
  qed
qed

text \<open>The numbers the stream gives the shuffle: one below \<open>n\<close>, one below \<open>n - 1\<close>, down to one below 2.\<close>

fun drawList :: "digest \<Rightarrow> string \<Rightarrow> nat \<Rightarrow> hashStream \<Rightarrow> (nat list \<times> hashStream) option" where
  "drawList sha seed 0 st = Some ([], st)"
| "drawList sha seed (Suc i) st = (case uniformInt sha seed (Suc (Suc i)) st of
     Some (Inr (j, st')) \<Rightarrow> map_option (\<lambda>(ds, st''). (j # ds, st'')) (drawList sha seed i st')
   | _ \<Rightarrow> None)"

lemma shuffleLoop_draws:
  "shuffleLoop sha seed out i st =
    map_option (\<lambda>(ds, st'). Inr (swaps out i ds, st')) (drawList sha seed i st)"
proof (induction i arbitrary: out st)
  case (Suc i)
  show ?case
  proof (cases "uniformInt sha seed (Suc (Suc i)) st")
    case (Some r)
    then obtain j st' where r: "r = Inr (j, st')" by (auto simp: uniformInt_def)
    show ?thesis using Suc.IH [of "swap out (Suc i) j" st'] Some r
      by (cases "drawList sha seed i st'") auto
  qed (simp add: bindL_def)
qed simp

lemma drawsFor_iff: "drawsFor i ds \<longleftrightarrow> length ds = i \<and> (\<forall>k < i. ds ! k < Suc i - k)"
proof (induction i arbitrary: ds)
  case (Suc i)
  show ?case
  proof (cases ds)
    case (Cons d es)
    have "(\<forall>k < Suc i. ds ! k < Suc (Suc i) - k) \<longleftrightarrow> d < Suc (Suc i) \<and> (\<forall>k < i. es ! k < Suc i - k)"
      unfolding Cons by (auto simp: All_less_Suc2)
    then show ?thesis using Suc.IH [of es] Cons by auto
  qed simp
qed simp

text \<open>
  C12. The shuffle is uniform in its draws: what it returns is a function of the numbers it drew (one
  below \<open>n\<close>, one below \<open>n - 1\<close>, down to one below 2), and that function is a bijection between the
  \<open>n!\<close> lists of such numbers and the orders of its items, so no order is likelier than another.
\<close>

theorem shuffle_uniform:
  assumes "distinct items"
  shows "\<exists>arrange. bij_betw arrange
      {ds. length ds = length items - 1 \<and> (\<forall>k < length items - 1. ds ! k < length items - k)}
      {out. mset out = mset items}
    \<and> (\<forall>sha seed st. shuffle sha seed items st =
        map_option (\<lambda>(ds, st'). Inr (arrange ds, st')) (drawList sha seed (length items - 1) st))"
proof (intro exI conjI allI)
  let ?n = "length items - 1"
  have one: "\<exists>!ds. drawsFor ?n ds \<and> swaps items ?n ds = out" if out: "mset out = mset items" for out
  proof (cases "items = []")
    case True
    then show ?thesis using out by auto
  next
    case False
    then have "?n < length items" "\<forall>k. ?n < k \<and> k < length items \<longrightarrow> out ! k = items ! k" by auto
    with swaps_unique [OF assms _ out] show ?thesis by blast
  qed
  have perm: "mset (swaps items ?n ds) = mset items" if "drawsFor ?n ds" for ds
    using swaps_perm [OF that, of items] by (cases "length items") auto
  have "{ds. length ds = ?n \<and> (\<forall>k < ?n. ds ! k < length items - k)} = {ds. drawsFor ?n ds}"
    by (cases items) (auto simp: drawsFor_iff)
  moreover have "bij_betw (swaps items ?n) {ds. drawsFor ?n ds} {out. mset out = mset items}"
    unfolding bij_betw_def inj_on_def using one perm by (auto simp: image_iff) metis+
  ultimately show "bij_betw (swaps items ?n)
      {ds. length ds = ?n \<and> (\<forall>k < ?n. ds ! k < length items - k)} {out. mset out = mset items}" by simp
qed (simp add: shuffle_def shuffleLoop_draws)

section \<open>The plan's contents\<close>

lemma shuffle_perm:
  assumes "shuffle sha seed items st = Some (Inr (out, st'))"
  shows "mset out = mset items"
proof -
  obtain ds where "drawsFor (length items - 1) ds" "out = swaps items (length items - 1) ds"
    using assms unfolding shuffle_def by (blast dest: shuffleLoop_swaps)
  then show ?thesis using swaps_perm [of "length items - 1" ds items] by (cases "length items") auto
qed

lemma shuffleAll_perm:
  assumes "shuffleAll sha seed hidden rs st = Some (Inr (order, st'))" "r \<in> set rs"
  shows "mset (getOr [] order r) = mset (getOr [] hidden r)"
  using assms
proof (induction rs arbitrary: st order)
  case (Cons x rs)
  then obtain xs st1 m where x: "shuffle sha seed (getOr [] hidden x) st = Some (Inr (xs, st1))"
    "shuffleAll sha seed hidden rs st1 = Some (Inr (m, st'))" "order = (x, xs) # m"
    by (auto simp: result_simps)
  then show ?case
    using Cons shuffle_perm [OF x(1)] by (cases "r = x") (auto simp: getOr_def)
qed simp

lemma drawEpochs_plan:
  assumes "drawEpochs sha seed regimes order n s used st = Some (Inr es)"
    and "\<forall>r \<in> set regimes. distinct (getOr [] order r) \<and> getOr 0 used r + n \<le> length (getOr [] order r)"
  shows "map pl_s es = [s..<s + n]
    \<and> (\<forall>e \<in> set es. pl_regime e \<in> set regimes \<and> (\<exists>i. getOr 0 used (pl_regime e) \<le> i
        \<and> i < length (getOr [] order (pl_regime e)) \<and> pl_seed e = getOr [] order (pl_regime e) ! i))
    \<and> distinct (map (\<lambda>e. (pl_regime e, pl_seed e)) es)"
  using assms
proof (induction n arbitrary: s used st es)
  case 0
  then show ?case by simp
next
  case (Suc n)
  then obtain j st1 es' where j: "uniformInt sha seed (length regimes) st = Some (Inr (j, st1))"
    and rest: "drawEpochs sha seed regimes order n (Suc s)
      (AList.update (regimes ! j) (Suc (getOr 0 used (regimes ! j))) used) st1 = Some (Inr es')"
    and es: "es = \<lparr>pl_s = s, pl_regime = regimes ! j,
      pl_seed = getOr [] order (regimes ! j) ! getOr 0 used (regimes ! j), pl_startsAt = None\<rparr> # es'"
    by (auto simp: result_simps Let_def)
  let ?r = "regimes ! j"
  have r: "?r \<in> set regimes" using uniformInt_range [OF j] by simp
  have room: "\<forall>r \<in> set regimes. distinct (getOr [] order r)
      \<and> getOr 0 (AList.update ?r (Suc (getOr 0 used ?r)) used) r + n \<le> length (getOr [] order r)"
    using Suc.prems(2) by auto
  note IH = Suc.IH [OF rest room]
  have fresh: "(?r, getOr [] order ?r ! getOr 0 used ?r) \<notin> set (map (\<lambda>e. (pl_regime e, pl_seed e)) es')"
  proof
    assume "(?r, getOr [] order ?r ! getOr 0 used ?r) \<in> set (map (\<lambda>e. (pl_regime e, pl_seed e)) es')"
    then obtain e where e: "e \<in> set es'" "pl_regime e = ?r" "pl_seed e = getOr [] order ?r ! getOr 0 used ?r"
      by auto
    with IH obtain i where i: "Suc (getOr 0 used ?r) \<le> i" "i < length (getOr [] order ?r)"
      "pl_seed e = getOr [] order ?r ! i" by (metis getOr_upd)
    moreover have "distinct (getOr [] order ?r)" using Suc.prems(2) r by blast
    ultimately show False using e(3) by (simp add: nth_eq_iff_index_eq)
  qed
  have "\<forall>e \<in> set es'. \<exists>i. getOr 0 used (pl_regime e) \<le> i
        \<and> i < length (getOr [] order (pl_regime e)) \<and> pl_seed e = getOr [] order (pl_regime e) ! i"
  proof
    fix e assume "e \<in> set es'"
    with IH obtain i where "getOr 0 (AList.update ?r (Suc (getOr 0 used ?r)) used) (pl_regime e) \<le> i"
      "i < length (getOr [] order (pl_regime e))" "pl_seed e = getOr [] order (pl_regime e) ! i" by blast
    then show "\<exists>i. getOr 0 used (pl_regime e) \<le> i
        \<and> i < length (getOr [] order (pl_regime e)) \<and> pl_seed e = getOr [] order (pl_regime e) ! i"
      by (intro exI [of _ i]) (auto split: if_splits)
  qed
  moreover have "getOr 0 used ?r < length (getOr [] order ?r)" using Suc.prems(2) r by fastforce
  moreover have "map pl_s es = [s..<s + Suc n]"
    using IH es by (simp add: upt_conv_Cons del: upt_Suc)
  ultimately show ?case using IH es r fresh by auto
qed

lemma checkRegime_ok:
  "isOk (checkRegime k hidden r) \<longleftrightarrow>
     (\<forall>s \<in> set (getOr [] hidden r). isIntegerNum s) \<and> distinct (getOr [] hidden r) \<and> k \<le> length (getOr [] hidden r)"
  by (auto simp: checkRegime_def Let_def throwIf_def)

text \<open>A hidden set and a number of epochs a plan can be derived from.\<close>

definition plannable :: "(string \<times> jsnum list) list \<Rightarrow> string \<Rightarrow> jsnum \<Rightarrow> bool" where
  "plannable hidden lotterySeed k \<longleftrightarrow>
     hidden \<noteq> [] \<and> lotterySeed \<noteq> '''' \<and> isIntegerNum k \<and> 1 \<le> the (finVal k)
     \<and> (\<forall>r \<in> set (keys hidden). (\<forall>s \<in> set (getOr [] hidden r). isIntegerNum s)
          \<and> distinct (getOr [] hidden r) \<and> the (finVal k) \<le> length (getOr [] hidden r))"

lemma intK: "isIntegerNum k \<Longrightarrow> 1 \<le> the (finVal k) \<Longrightarrow> k = Fin (real (nat \<lfloor>the (finVal k)\<rfloor>)) \<and> 1 \<le> nat \<lfloor>the (finVal k)\<rfloor>"
  by (cases k) (auto simp: isIntegerNum_def isInteger_def)

lemma deriveSchedule_Inr:
  assumes "deriveSchedule sha hidden seed k = Some (Inr es)"
  obtains n order st where "k = Fin (real n)" "1 \<le> n"
    "\<forall>r \<in> set (keys hidden). distinct (getOr [] hidden r) \<and> n \<le> length (getOr [] hidden r)"
    "shuffleAll sha seed hidden (sortBy strLe (keys hidden)) hashStream = Some (Inr (order, st))"
    "drawEpochs sha seed (sortBy strLe (keys hidden)) order n 1 (map (\<lambda>r. (r, 0)) (sortBy strLe (keys hidden))) st
       = Some (Inr es)"
proof -
  let ?n = "nat \<lfloor>the (finVal k)\<rfloor>" and ?rs = "sortBy strLe (keys hidden)"
  from assms have k: "isIntegerNum k" "1 \<le> the (finVal k)"
    by (auto simp: deriveSchedule_def Let_def split: if_splits)
  from assms obtain u order st where
    u: "mapR (checkRegime ?n hidden) ?rs = Inr u"
    and o: "shuffleAll sha seed hidden ?rs hashStream = Some (Inr (order, st))"
      "drawEpochs sha seed ?rs order ?n 1 (map (\<lambda>r. (r, 0)) ?rs) st = Some (Inr es)"
    by (auto simp: deriveSchedule_def Let_def result_simps split: if_splits sum.splits)
  from u have "\<forall>r \<in> set ?rs. isOk (checkRegime ?n hidden r)"
    using isOk_mapR [of "checkRegime ?n hidden" ?rs] by simp
  then have "\<forall>r \<in> set (keys hidden). distinct (getOr [] hidden r) \<and> ?n \<le> length (getOr [] hidden r)"
    by (simp add: checkRegime_ok)
  with intK [OF k] o show thesis using that by blast
qed

text \<open>
  C10. A plan has exactly k epochs, numbered from 1 in order; each names a regime of the hidden set
  and one of that regime's own seeds; and no scenario (regime and seed) is replayed twice.
\<close>

theorem deriveSchedule_plan:
  assumes "deriveSchedule sha hidden lotterySeed k = Some (Inr es)"
  shows "k = Fin (real (length es)) \<and> map pl_s es = [1..<Suc (length es)]
    \<and> (\<forall>e \<in> set es. pl_regime e \<in> set (keys hidden) \<and> pl_seed e \<in> set (getOr [] hidden (pl_regime e)))
    \<and> distinct (map (\<lambda>e. (pl_regime e, pl_seed e)) es)"
proof -
  obtain n order st where n: "k = Fin (real n)"
    and ok: "\<forall>r \<in> set (keys hidden). distinct (getOr [] hidden r) \<and> n \<le> length (getOr [] hidden r)"
    and sh: "shuffleAll sha lotterySeed hidden (sortBy strLe (keys hidden)) hashStream = Some (Inr (order, st))"
    and dr: "drawEpochs sha lotterySeed (sortBy strLe (keys hidden)) order n 1
       (map (\<lambda>r. (r, 0)) (sortBy strLe (keys hidden))) st = Some (Inr es)"
    using assms by (rule deriveSchedule_Inr) blast
  let ?rs = "sortBy strLe (keys hidden)"
  have perm: "mset (getOr [] order r) = mset (getOr [] hidden r)" if "r \<in> set (keys hidden)" for r
    using shuffleAll_perm [OF sh] that by simp
  have zero: "getOr 0 (map (\<lambda>r. (r, 0)) rs) r = (0::nat)" for rs r
    by (induction rs) (auto simp: getOr_def)
  have "\<forall>r \<in> set ?rs. distinct (getOr [] order r) \<and> getOr 0 (map (\<lambda>r. (r, 0)) ?rs) r + n \<le> length (getOr [] order r)"
  proof
    fix r assume "r \<in> set ?rs"
    then have r: "r \<in> set (keys hidden)" by simp
    then show "distinct (getOr [] order r) \<and> getOr 0 (map (\<lambda>r. (r, 0)) ?rs) r + n \<le> length (getOr [] order r)"
      using ok perm [OF r] zero by (metis add_0 mset_eq_imp_distinct_iff mset_eq_length)
  qed
  note p = drawEpochs_plan [OF dr this]
  have len: "length es = n" using p by (metis add_diff_cancel_left' length_map length_upt)
  have "\<forall>e \<in> set es. pl_regime e \<in> set (keys hidden) \<and> pl_seed e \<in> set (getOr [] hidden (pl_regime e))"
  proof
    fix e assume e: "e \<in> set es"
    with p have r: "pl_regime e \<in> set (keys hidden)" by simp
    from e p have "pl_seed e \<in> set (getOr [] order (pl_regime e))" by (metis nth_mem)
    then show "pl_regime e \<in> set (keys hidden) \<and> pl_seed e \<in> set (getOr [] hidden (pl_regime e))"
      using r mset_eq_setD [OF perm [OF r]] by simp
  qed
  then show ?thesis using p len n by simp
qed

lemma shuffleLoop_returns:
  assumes "digests sha" "fair sha seed" "atWord sha seed p st" "Suc i \<le> length out \<or> i = 0" "length out \<le> 4294967296"
  shows "\<exists>out' st' q. shuffleLoop sha seed out i st = Some (Inr (out', st')) \<and> atWord sha seed q st'"
  using assms(3-5)
proof (induction i arbitrary: out st p)
  case 0
  then show ?case by auto
next
  case (Suc i)
  from uniformInt_returns [OF assms(1,2) Suc.prems(1), of "Suc (Suc i)"] Suc.prems(2,3) obtain j q st' where
    j: "uniformInt sha seed (Suc (Suc i)) st = Some (Inr (j, st'))" "atWord sha seed q st'" by auto
  have "Suc i \<le> length (swap out (Suc i) j) \<or> i = 0" "length (swap out (Suc i) j) \<le> 4294967296"
    using Suc.prems by auto
  from Suc.IH [OF j(2) this] j(1) show ?case by simp
qed

lemma shuffle_returns:
  assumes "digests sha" "fair sha seed" "atWord sha seed p st" "length items \<le> 4294967296"
  shows "\<exists>out st' q. shuffle sha seed items st = Some (Inr (out, st')) \<and> atWord sha seed q st'"
  unfolding shuffle_def by (rule shuffleLoop_returns [OF assms(1-3)]) (use assms(4) in auto)

lemma shuffleAll_returns:
  assumes "digests sha" "fair sha seed" "atWord sha seed p st"
    and "\<forall>r. length (getOr [] hidden r) \<le> 4294967296"
  shows "\<exists>m st' q. shuffleAll sha seed hidden rs st = Some (Inr (m, st')) \<and> atWord sha seed q st'"
  using assms(3)
proof (induction rs arbitrary: st p)
  case Nil
  then show ?case by auto
next
  case (Cons r rs)
  from shuffle_returns [OF assms(1,2) Cons.prems, of "getOr [] hidden r"] assms(4) obtain xs st1 q where
    x: "shuffle sha seed (getOr [] hidden r) st = Some (Inr (xs, st1))" "atWord sha seed q st1" by blast
  from Cons.IH [OF x(2)] x(1) show ?case by auto
qed

lemma drawEpochs_returns:
  assumes "digests sha" "fair sha seed" "atWord sha seed p st" "regimes \<noteq> []" "length regimes \<le> 4294967296"
  shows "\<exists>es. drawEpochs sha seed regimes order n s used st = Some (Inr es)"
  using assms(3)
proof (induction n arbitrary: s used st p)
  case 0
  then show ?case by simp
next
  case (Suc n)
  from uniformInt_returns [OF assms(1,2) Suc.prems, of "length regimes"] assms(4,5) obtain j q st' where
    j: "uniformInt sha seed (length regimes) st = Some (Inr (j, st'))" "atWord sha seed q st'" by auto
  from Suc.IH [OF j(2)] obtain es where "drawEpochs sha seed regimes order n (Suc s)
      (AList.update (regimes ! j) (Suc (getOr 0 used (regimes ! j))) used) st' = Some (Inr es)" by blast
  with j(1) show ?case by (simp add: Let_def)
qed

lemma deriveSchedule_answers:
  assumes "digests sha" "fair sha lotterySeed"
    and "length hidden \<le> 4294967296" "\<forall>r. length (getOr [] hidden r) \<le> 4294967296"
  shows "\<exists>r. deriveSchedule sha hidden lotterySeed k = Some r \<and> (isOk r \<longleftrightarrow> plannable hidden lotterySeed k)"
proof (cases "isIntegerNum k \<and> 1 \<le> the (finVal k)")
  case False
  then show ?thesis
    by (cases "hidden = []") (auto simp: deriveSchedule_def Let_def plannable_def not_le)
next
  case True
  then obtain n where k: "k = Fin (real n)" "1 \<le> n" using intK by blast
  let ?rs = "sortBy strLe (keys hidden)"
  have n: "nat \<lfloor>the (finVal k)\<rfloor> = n" "isIntegerNum k" "\<not> the (finVal k) < 1"
    using k by (simp_all add: isIntegerNum_def)
  have pl: "plannable hidden lotterySeed k \<longleftrightarrow>
      hidden \<noteq> [] \<and> lotterySeed \<noteq> [] \<and> isOk (mapR (checkRegime n hidden) ?rs)"
    using k by (auto simp: plannable_def isOk_mapR checkRegime_ok isIntegerNum_def)
  show ?thesis
  proof (cases "plannable hidden lotterySeed k")
    case False
    then show ?thesis using n pl
      by (auto simp: deriveSchedule_def Let_def split: sum.splits)
  next
    case True
    then obtain u where u: "mapR (checkRegime n hidden) ?rs = Inr u" using pl by (auto simp: isOk_iff)
    from shuffleAll_returns [OF assms(1,2) atWord_start assms(4)] obtain order st q where
      sh: "shuffleAll sha lotterySeed hidden ?rs hashStream = Some (Inr (order, st))" "atWord sha lotterySeed q st"
      by blast
    from drawEpochs_returns [OF assms(1,2) sh(2), of ?rs order n 1 "map (\<lambda>r. (r, 0)) ?rs"] True pl assms(3)
    obtain es where "drawEpochs sha lotterySeed ?rs order n 1 (map (\<lambda>r. (r, 0)) ?rs) st = Some (Inr es)"
      by auto
    then have "deriveSchedule sha hidden lotterySeed k = Some (Inr es)"
      using True pl n u sh(1) by (simp add: deriveSchedule_def Let_def)
    then show ?thesis using True by auto
  qed
qed

lemma shuffleAll_no_error: "shuffleAll sha seed hidden rs st \<noteq> Some (Inl e)"
proof (induction rs arbitrary: st e)
  case (Cons r rs)
  then show ?case
    by (auto simp: bindL_def shuffle_def shuffleLoop_draws split: option.splits sum.splits prod.splits)
qed simp

lemma drawEpochs_no_error: "regimes \<noteq> [] \<Longrightarrow> drawEpochs sha seed regimes order n s used st \<noteq> Some (Inl e)"
proof (induction n arbitrary: s used st e)
  case (Suc n)
  then show ?case
    by (auto simp: bindL_def uniformInt_def Let_def split: option.splits sum.splits prod.splits)
qed simp

text \<open>
  C9. A plan is refused exactly when the hidden set names no regime, or k is no positive integer, or the
  lottery seed is empty, or some regime has fewer than k seeds, or one that is no integer, or one twice;
  and the refusal is the same whatever the hash stream gives, before anything is drawn from it. What is
  not refused is never refused by a draw either.
\<close>

theorem deriveSchedule_refuses:
  "((\<exists>e. \<forall>sha. deriveSchedule sha hidden lotterySeed k = Some (Inl e)) \<longleftrightarrow> \<not> plannable hidden lotterySeed k)
    \<and> (\<forall>sha. (\<exists>e. deriveSchedule sha hidden lotterySeed k = Some (Inl e)) \<longleftrightarrow> \<not> plannable hidden lotterySeed k)"
proof -
  let ?rs = "sortBy strLe (keys hidden)" and ?n = "nat \<lfloor>the (finVal k)\<rfloor>"
  have never: "deriveSchedule sha hidden lotterySeed k \<noteq> Some (Inl e)"
    if pl: "plannable hidden lotterySeed k" for sha e
  proof -
    have rs: "?rs \<noteq> []" using pl by (auto simp: plannable_def sortBy_nonempty)
    have n: "?n \<le> length (getOr [] hidden r)" if "r \<in> set (keys hidden)" for r
      using pl that intK [of k] unfolding plannable_def by (metis finVal.simps(1) of_nat_le_iff option.sel)
    then have "isOk (mapR (checkRegime ?n hidden) ?rs)"
      using pl by (simp add: isOk_mapR checkRegime_ok plannable_def)
    then obtain u where "mapR (checkRegime ?n hidden) ?rs = Inr u" by (auto simp: isOk_iff)
    then show ?thesis using pl rs shuffleAll_no_error [of sha lotterySeed hidden ?rs hashStream]
        drawEpochs_no_error [OF rs]
      by (auto simp: deriveSchedule_def Let_def plannable_def bindL_def split: option.splits sum.splits prod.splits)
  qed
  moreover have "\<exists>e. \<forall>sha. deriveSchedule sha hidden lotterySeed k = Some (Inl e)"
    if np: "\<not> plannable hidden lotterySeed k"
  proof (cases "hidden = [] \<or> \<not> isIntegerNum k \<or> the (finVal k) < 1 \<or> lotterySeed = []")
    case True
    then show ?thesis by (cases "hidden = []") (auto simp: deriveSchedule_def Let_def)
  next
    case False
    then obtain r where r: "r \<in> set (keys hidden)" "\<not> isOk (checkRegime ?n hidden r)"
      using np intK [of k] unfolding plannable_def checkRegime_ok
      by (metis finVal.simps(1) not_le of_nat_le_iff option.sel)
    then obtain e where "mapR (checkRegime ?n hidden) ?rs = Inl e"
      using isOk_mapR [of "checkRegime ?n hidden" ?rs] by (auto simp: not_isOk_iff)
    then show ?thesis using False by (auto simp: deriveSchedule_def Let_def)
  qed
  ultimately show ?thesis by blast
qed

section \<open>Witnesses\<close>

definition zeros :: digest where
  "zeros s = replicate 32 0"

lemma zeros_word [simp]: "wordAt zeros seed p = 0"
proof -
  have "foldl (\<lambda>a b. 256 * a + b) 0 (replicate m 0) = (0 :: nat)" for m by (induction m) auto
  then show ?thesis by (simp add: wordAt_def zeros_def readUInt32BE_def)
qed

lemma zeros_ok: "digests zeros" "fair zeros seed"
  by (auto simp: digests_def zeros_def) (auto simp: fair_def)

definition hiddenSet :: "(string \<times> jsnum list) list" where
  "hiddenSet = [(''crash'', [Fin 11, Fin 12]), (''calm'', [Fin 7, Fin 8, Fin 9])]"

theorem commitment_key_order_witness:
  "commitmentOf (\<lambda>s. s) (\<lambda>_. ''p'') (JObj [(''a'', JNull), (''b'', JNull)])
    = commitmentOf (\<lambda>s. s) (\<lambda>_. ''p'') (JObj [(''b'', JNull), (''a'', JNull)])"
  by (rule commitment_key_order, rule sameJson.objects [where s = "[(''a'', JNull), (''b'', JNull)]"])
    (auto intro: sameJson.same)

theorem uniformInt_unbiased_witness: "card {v. v < rejectLimit 6 \<and> v mod 6 = 5} = 4294967296 div 6"
  using uniformInt_unbiased [OF zeros_ok atWord_start, of 6 "''lottery''"] by auto

theorem shuffle_uniform_witness:
  "\<exists>arrange. bij_betw arrange {ds. length ds = 2 \<and> (\<forall>k < 2. ds ! k < 3 - k)} {out. mset out = mset [''a'', ''b'', ''c'']}
    \<and> shuffle zeros ''lottery'' [''a'', ''b'', ''c''] hashStream =
      map_option (\<lambda>(ds, st'). Inr (arrange ds, st')) (drawList zeros ''lottery'' 2 hashStream)"
proof -
  have "distinct [''a'', ''b'', ''c'']" "length [''a'', ''b'', ''c''] - 1 = 2" "length [''a'', ''b'', ''c''] = 3"
    "(3::nat) - 1 = 2" by simp_all
  from shuffle_uniform [OF this(1), unfolded this(2-4)] show ?thesis by blast
qed

lemma hiddenSet_sizes: "length hiddenSet \<le> 4294967296" "\<forall>r. length (getOr [] hiddenSet r) \<le> 4294967296"
  by (auto simp: hiddenSet_def getOr_def)

theorem deriveSchedule_plan_witness:
  "\<exists>es. deriveSchedule zeros hiddenSet ''lottery'' (Fin 2) = Some (Inr es) \<and> map pl_s es = [1, 2]"
proof -
  have "plannable hiddenSet ''lottery'' (Fin 2)"
    by (auto simp: plannable_def hiddenSet_def getOr_def isIntegerNum_def)
  then obtain es where es: "deriveSchedule zeros hiddenSet ''lottery'' (Fin 2) = Some (Inr es)"
    using deriveSchedule_answers [OF zeros_ok hiddenSet_sizes] by (metis isOk_iff)
  note p = deriveSchedule_plan [OF es]
  then have "length es = 2" by simp
  moreover have "map pl_s es = [1..<Suc (length es)]" using p by blast
  ultimately have "map pl_s es = [1..<Suc 2]" by simp
  also have "[1..<Suc 2] = [1, 2]" by code_simp
  finally have "map pl_s es = [1, 2]" .
  then show ?thesis by (intro exI [of _ es] conjI es)
qed

end
