(* ===== verification/Gated_Miner.thy ===== *)
theory Gated_Miner
  imports Prelude
begin

text \<open>
  The gated miner (\<open>core/src/realtime/gatedMiner.ts\<close>): a loop that mines one block per tick and only
  once the head's prices are staged, racing the block passes that stage them. Every \<open>await\<close> of the
  loop is a place where a \<open>stage()\<close> or \<open>halt()\<close> may come in between, so the loop is a state with a
  program counter and each of the code's stretches between two awaits is one step. Stages are
  objects the loop holds on to across an await, so they live in a store and are named by their index.
  Time is left out: a gate may time out, a request may fail, at any moment.
\<close>

section \<open>The state\<close>

record stage =
  st_forBlock :: int
  st_hasCommit :: bool
  st_applied :: bool
  st_written :: bool \<comment> \<open>its writes were really made; the code has no such field\<close>

datatype pc =
    AtTick
  | AtGate
  | InCommit nat \<comment> \<open>awaiting \<open>staged.commit()\<close>\<close>
  | InApply nat \<comment> \<open>awaiting \<open>staged.apply()\<close>, once or again\<close>
  | InMine nat \<comment> \<open>awaiting \<open>mineOnce()\<close> on this stage\<close>
  | Exited

record miner =
  gm_store :: "stage list"
  gm_staged :: nat
  gm_head :: int
  gm_stopped :: bool
  gm_pc :: pc
  gm_gateTimeouts :: nat
  gm_mined :: nat
  gm_mineErrors :: nat
  gm_heldTicks :: nat
  gm_held :: nat

definition current :: "miner \<Rightarrow> stage" where
  "current m = gm_store m ! gm_staged m"

definition newMiner :: "int \<Rightarrow> miner" where
  "newMiner startHead =
     \<lparr>gm_store = [\<lparr>st_forBlock = startHead - 1, st_hasCommit = False, st_applied = True, st_written = True\<rparr>],
      gm_staged = 0, gm_head = startHead, gm_stopped = False, gm_pc = AtTick, gm_gateTimeouts = 0,
      gm_mined = 0, gm_mineErrors = 0, gm_heldTicks = 0, gm_held = 0\<rparr>"

section \<open>The operations\<close>

definition stageOp :: "int \<Rightarrow> bool \<Rightarrow> miner \<Rightarrow> miner" where
  "stageOp forBlock hasCommit m =
     (if forBlock < st_forBlock (current m) then m
      else m\<lparr>gm_store := gm_store m @
               [\<lparr>st_forBlock = forBlock, st_hasCommit = hasCommit, st_applied = False, st_written = False\<rparr>],
             gm_staged := length (gm_store m)\<rparr>)"

definition haltOp :: "miner \<Rightarrow> miner" where
  "haltOp m = m\<lparr>gm_stopped := True\<rparr>"

definition ready :: "miner \<Rightarrow> bool" where
  "ready m \<longleftrightarrow> gm_head m \<le> st_forBlock (current m) \<and> \<not> st_applied (current m)"

text \<open>The slot is reached: the head is read (\<open>None\<close> when the read fails) and the gate entered.\<close>

definition reachSlot :: "int option \<Rightarrow> miner \<Rightarrow> miner" where
  "reachSlot readHead m =
     (if gm_stopped m then m\<lparr>gm_pc := Exited\<rparr>
      else m\<lparr>gm_head := (case readHead of None \<Rightarrow> gm_head m | Some h \<Rightarrow> max (gm_head m) h), gm_pc := AtGate\<rparr>)"

definition setApplied :: "nat \<Rightarrow> bool \<Rightarrow> miner \<Rightarrow> miner" where
  "setApplied i written m =
     m\<lparr>gm_store := (gm_store m)[i := (gm_store m ! i)\<lparr>st_applied := True,
                                    st_written := st_written (gm_store m ! i) \<or> written\<rparr>]\<rparr>"

text \<open>The start of \<open>applyStaged\<close>, which has nothing to do for a stage already applied.\<close>

definition beginApply :: "miner \<Rightarrow> miner" where
  "beginApply m =
     (if st_applied (current m) then m\<lparr>gm_heldTicks := 0, gm_pc := InMine (gm_staged m)\<rparr>
      else m\<lparr>gm_pc := InApply (gm_staged m)\<rparr>)"

text \<open>The gate opens, or has timed out.\<close>

definition leaveGate :: "miner \<Rightarrow> miner" where
  "leaveGate m =
     (if gm_stopped m then m\<lparr>gm_pc := Exited\<rparr>
      else (let m' = (if \<not> ready m then m\<lparr>gm_gateTimeouts := Suc (gm_gateTimeouts m)\<rparr> else m)
            in if \<not> st_applied (current m) \<and> st_hasCommit (current m)
               then m'\<lparr>gm_pc := InCommit (gm_staged m)\<rparr> else beginApply m'))"

definition commitDone :: "nat \<Rightarrow> int \<Rightarrow> miner \<Rightarrow> miner" where
  "commitDone i h m =
     (setApplied i True m)\<lparr>gm_head := max (gm_head m + 1) h, gm_heldTicks := 0,
        gm_mined := Suc (gm_mined m), gm_pc := AtTick\<rparr>"

definition applyDone :: "nat \<Rightarrow> miner \<Rightarrow> miner" where
  "applyDone i m = (setApplied i True m)\<lparr>gm_heldTicks := 0, gm_pc := InMine i\<rparr>"

text \<open>
  Both attempts failed: the tick is held, or after the third in a row the block is mined anyway and
  \<open>this.staged\<close>, whatever it is by now, counts as applied.
\<close>

definition applyFailed :: "miner \<Rightarrow> miner" where
  "applyFailed m =
     (if 3 \<le> Suc (gm_heldTicks m)
      then (setApplied (gm_staged m) False m)\<lparr>gm_heldTicks := 0, gm_pc := InMine (gm_staged m)\<rparr>
      else m\<lparr>gm_heldTicks := Suc (gm_heldTicks m), gm_held := Suc (gm_held m), gm_pc := AtTick\<rparr>)"

definition mineDone :: "int option \<Rightarrow> miner \<Rightarrow> miner" where
  "mineDone r m =
     (case r of
        Some h \<Rightarrow> m\<lparr>gm_head := max (gm_head m + 1) h, gm_mined := Suc (gm_mined m), gm_pc := AtTick\<rparr>
      | None \<Rightarrow> m\<lparr>gm_mineErrors := Suc (gm_mineErrors m), gm_pc := AtTick\<rparr>)"

section \<open>The miner and the passes, interleaved\<close>

text \<open>What can be observed of a step: a block was mined on a stage, or a set was given up on.\<close>

datatype obs = Mined int nat | GaveUp nat | HeldTick

inductive minerStep :: "miner \<Rightarrow> obs list \<Rightarrow> miner \<Rightarrow> bool" where
  stages: "minerStep m [] (stageOp f c m)"
| halts: "minerStep m [] (haltOp m)"
| slot: "gm_pc m = AtTick \<Longrightarrow> minerStep m [] (reachSlot r m)"
| gate: "gm_pc m = AtGate \<Longrightarrow> minerStep m [] (leaveGate m)"
| commits: "gm_pc m = InCommit i \<Longrightarrow> m' = commitDone i h m \<Longrightarrow> minerStep m [Mined (gm_head m') i] m'"
| commit_fails: "gm_pc m = InCommit i \<Longrightarrow> minerStep m [] (beginApply m)"
| applies: "gm_pc m = InApply i \<Longrightarrow> minerStep m [] (applyDone i m)"
| apply_fails: "gm_pc m = InApply i \<Longrightarrow>
    minerStep m (if 3 \<le> Suc (gm_heldTicks m) then [GaveUp (gm_staged m)] else [HeldTick]) (applyFailed m)"
| mines: "gm_pc m = InMine i \<Longrightarrow> m' = mineDone (Some h) m \<Longrightarrow> minerStep m [Mined (gm_head m') i] m'"
| mine_fails: "gm_pc m = InMine i \<Longrightarrow> minerStep m [] (mineDone None m)"

inductive mining :: "int \<Rightarrow> obs list \<Rightarrow> miner \<Rightarrow> bool" for startHead where
  idle: "mining startHead [] (newMiner startHead)"
| moves: "mining startHead os m \<Longrightarrow> minerStep m ob m' \<Longrightarrow> mining startHead (os @ ob) m'"

fun minedHeads :: "obs list \<Rightarrow> int list" where
  "minedHeads [] = []"
| "minedHeads (Mined h i # os) = h # minedHeads os"
| "minedHeads (GaveUp i # os) = minedHeads os"
| "minedHeads (HeldTick # os) = minedHeads os"

lemma minedHeads_append [simp]: "minedHeads (xs @ ys) = minedHeads xs @ minedHeads ys"
  by (induction xs rule: minedHeads.induct) auto

text \<open>Whether a set is only given up on after two held ticks right before.\<close>

definition gaveUpOk :: "obs list \<Rightarrow> bool" where
  "gaveUpOk os \<longleftrightarrow> (\<forall>k i. k < length os \<and> os ! k = GaveUp i \<longrightarrow>
     2 \<le> k \<and> os ! (k - 1) = HeldTick \<and> os ! (k - 2) = HeldTick)"

lemma gaveUpOk_Nil [simp]: "gaveUpOk []"
  by (simp add: gaveUpOk_def)

lemma gaveUpOk_snoc: "gaveUpOk os \<Longrightarrow> (\<And>i. ob \<noteq> GaveUp i) \<Longrightarrow> gaveUpOk (os @ [ob])"
  by (auto simp: gaveUpOk_def nth_append less_Suc_eq)

definition endsHeld :: "obs list \<Rightarrow> nat \<Rightarrow> bool" where
  "endsHeld os n \<longleftrightarrow> (\<exists>xs. os = xs @ replicate n HeldTick)"

lemma endsHeld_0 [simp]: "endsHeld os 0"
  by (simp add: endsHeld_def)

lemma endsHeld_Suc: "endsHeld os n \<Longrightarrow> endsHeld (os @ [HeldTick]) (Suc n)"
  by (auto simp: endsHeld_def replicate_append_same)

lemma gaveUpOk_give:
  assumes "gaveUpOk os" "endsHeld os 2"
  shows "gaveUpOk (os @ [GaveUp i])"
proof -
  obtain xs where "os = xs @ [HeldTick, HeldTick]"
    using assms(2) by (auto simp: endsHeld_def numeral_2_eq_2)
  with assms(1) show ?thesis by (auto simp: gaveUpOk_def nth_append less_Suc_eq)
qed

text \<open>What holds whenever the loop is at an await.\<close>

definition pcOk :: "miner \<Rightarrow> bool" where
  "pcOk m = (case gm_pc m of
     InCommit i \<Rightarrow> i < length (gm_store m)
   | InApply i \<Rightarrow> i < length (gm_store m)
   | InMine i \<Rightarrow> i < length (gm_store m) \<and> st_applied (gm_store m ! i) \<and> gm_heldTicks m = 0
   | _ \<Rightarrow> True)"

definition minerInv :: "obs list \<Rightarrow> miner \<Rightarrow> bool" where
  "minerInv os m \<longleftrightarrow> gm_staged m < length (gm_store m) \<and> pcOk m
     \<and> gm_heldTicks m < 3 \<and> endsHeld os (gm_heldTicks m) \<and> gaveUpOk os
     \<and> gm_mined m = length (minedHeads os)
     \<and> sorted_wrt (<) (minedHeads os) \<and> (\<forall>h \<in> set (minedHeads os). h \<le> gm_head m)
     \<and> (\<forall>i < length (gm_store m). st_applied (gm_store m ! i) \<longrightarrow>
          st_written (gm_store m ! i) \<or> GaveUp i \<in> set os)
     \<and> (\<forall>h i. Mined h i \<in> set os \<longrightarrow> i < length (gm_store m) \<and> st_applied (gm_store m ! i))"

lemma setApplied_nth:
  "i < length (gm_store m) \<Longrightarrow> j < length (gm_store m) \<Longrightarrow>
   gm_store (setApplied i w m) ! j =
     (if i = j then (gm_store m ! i)\<lparr>st_applied := True, st_written := st_written (gm_store m ! i) \<or> w\<rparr>
      else gm_store m ! j)"
  by (simp add: setApplied_def)

lemma setApplied_simps [simp]:
  "length (gm_store (setApplied i w m)) = length (gm_store m)"
  "gm_staged (setApplied i w m) = gm_staged m" "gm_head (setApplied i w m) = gm_head m"
  "gm_heldTicks (setApplied i w m) = gm_heldTicks m" "gm_mined (setApplied i w m) = gm_mined m"
  "gm_pc (setApplied i w m) = gm_pc m"
  by (simp_all add: setApplied_def)

lemma beginApply_inv: "minerInv os m \<Longrightarrow> minerInv os (beginApply m)"
  by (auto simp: minerInv_def beginApply_def pcOk_def current_def)

lemma pcOk_upd [simp]:
  "pcOk (m\<lparr>gm_stopped := b\<rparr>) = pcOk m" "pcOk (m\<lparr>gm_gateTimeouts := n\<rparr>) = pcOk m"
  "pcOk (m\<lparr>gm_head := h\<rparr>) = pcOk m"
  by (simp_all add: pcOk_def split: pc.splits)

lemma stageOp_inv:
  assumes "minerInv os m"
  shows "minerInv os (stageOp f c m)"
proof (cases "f < st_forBlock (current m)")
  case False
  let ?m = "stageOp f c m"
  let ?new = "\<lparr>st_forBlock = f, st_hasCommit = c, st_applied = False, st_written = False\<rparr>"
  have st: "gm_store ?m = gm_store m @ [?new]" "gm_staged ?m = length (gm_store m)" "gm_pc ?m = gm_pc m"
    "gm_head ?m = gm_head m" "gm_mined ?m = gm_mined m" "gm_heldTicks ?m = gm_heldTicks m"
    using False by (simp_all add: stageOp_def)
  have old: "gm_store ?m ! i = gm_store m ! i" if "i < length (gm_store m)" for i
    using that st by (simp add: nth_append)
  have "pcOk ?m"
    using assms old st by (cases "gm_pc m") (auto simp: minerInv_def pcOk_def)
  moreover have "\<forall>i < length (gm_store ?m). st_applied (gm_store ?m ! i) \<longrightarrow>
      st_written (gm_store ?m ! i) \<or> GaveUp i \<in> set os"
    using assms old st by (auto simp: minerInv_def less_Suc_eq)
  moreover have "\<forall>h i. Mined h i \<in> set os \<longrightarrow> i < length (gm_store ?m) \<and> st_applied (gm_store ?m ! i)"
    using assms old st by (fastforce simp: minerInv_def)
  ultimately show ?thesis using assms st by (simp add: minerInv_def)
qed (use assms in \<open>simp add: stageOp_def\<close>)

lemma setApplied_inv:
  assumes "minerInv os m" "i < length (gm_store m)" "w \<or> GaveUp i \<in> set os'"
    and "set os \<subseteq> set os'" "set os' \<subseteq> set os \<union> {GaveUp j | j. True} \<union> {Mined h i | h. True}"
  shows "(\<forall>j < length (gm_store m). st_applied (gm_store (setApplied i w m) ! j) \<longrightarrow>
      st_written (gm_store (setApplied i w m) ! j) \<or> GaveUp j \<in> set os')
    \<and> (\<forall>h j. Mined h j \<in> set os' \<longrightarrow> j < length (gm_store m) \<and> st_applied (gm_store (setApplied i w m) ! j))"
proof (intro conjI allI impI)
  fix j assume j: "j < length (gm_store m)" "st_applied (gm_store (setApplied i w m) ! j)"
  show "st_written (gm_store (setApplied i w m) ! j) \<or> GaveUp j \<in> set os'"
  proof (cases "i = j")
    case True
    then show ?thesis using assms(2,3) by (auto simp: setApplied_nth)
  next
    case False
    then show ?thesis using assms(1,2,4) j by (auto simp: setApplied_nth minerInv_def)
  qed
next
  fix h j assume "Mined h j \<in> set os'"
  then have "j = i \<or> Mined h j \<in> set os" using assms(5) by auto
  then show "j < length (gm_store m)" "st_applied (gm_store (setApplied i w m) ! j)"
    using assms(1,2) by (auto simp: setApplied_nth minerInv_def)
qed

lemma commitDone_inv:
  assumes "minerInv os m" "gm_pc m = InCommit i"
  shows "minerInv (os @ [Mined (gm_head (commitDone i h m)) i]) (commitDone i h m)"
proof -
  have i: "i < length (gm_store m)" using assms by (simp add: minerInv_def pcOk_def)
  let ?os = "os @ [Mined (gm_head (commitDone i h m)) i]"
  have st: "gm_store (commitDone i h m) = gm_store (setApplied i True m)" by (simp add: commitDone_def)
  note s = setApplied_inv [OF assms(1) i, of True ?os]
  have "sorted_wrt (<) (minedHeads ?os) \<and> (\<forall>x \<in> set (minedHeads ?os). x \<le> gm_head (commitDone i h m))"
    using assms(1) by (force simp: minerInv_def commitDone_def sorted_wrt_append)
  moreover have "gaveUpOk ?os" using assms(1) by (intro gaveUpOk_snoc) (auto simp: minerInv_def)
  ultimately show ?thesis
    using s assms(1) unfolding minerInv_def st by (auto simp: commitDone_def pcOk_def)
qed

lemma applyDone_inv:
  assumes "minerInv os m" "gm_pc m = InApply i"
  shows "minerInv os (applyDone i m)"
proof -
  have i: "i < length (gm_store m)" using assms by (simp add: minerInv_def pcOk_def)
  have st: "gm_store (applyDone i m) = gm_store (setApplied i True m)" by (simp add: applyDone_def)
  note s = setApplied_inv [OF assms(1) i, of True os]
  show ?thesis
    using s i assms(1) unfolding minerInv_def st by (auto simp: applyDone_def pcOk_def setApplied_nth)
qed

lemma applyFailed_inv:
  assumes "minerInv os m" "gm_pc m = InApply i"
  shows "minerInv (os @ (if 3 \<le> Suc (gm_heldTicks m) then [GaveUp (gm_staged m)] else [HeldTick])) (applyFailed m)"
proof (cases "3 \<le> Suc (gm_heldTicks m)")
  case True
  let ?i = "gm_staged m" and ?os = "os @ [GaveUp (gm_staged m)]"
  have two: "gm_heldTicks m = 2" using True assms(1) by (simp add: minerInv_def)
  have i: "?i < length (gm_store m)" using assms by (simp add: minerInv_def)
  note s = setApplied_inv [OF assms(1) i, of False ?os]
  have "gaveUpOk ?os" using assms(1) two by (intro gaveUpOk_give) (auto simp: minerInv_def)
  moreover have f: "applyFailed m = (setApplied ?i False m)\<lparr>gm_heldTicks := 0, gm_pc := InMine ?i\<rparr>"
    using True by (simp add: applyFailed_def)
  have "minedHeads ?os = minedHeads os" by simp
  ultimately show ?thesis
    using s i assms(1) True unfolding minerInv_def f by (auto simp: pcOk_def setApplied_nth)
next
  case False
  have "gaveUpOk (os @ [HeldTick])" using assms(1) by (intro gaveUpOk_snoc) (auto simp: minerInv_def)
  moreover have "endsHeld (os @ [HeldTick]) (Suc (gm_heldTicks m))"
    using assms(1) by (intro endsHeld_Suc) (simp add: minerInv_def)
  ultimately show ?thesis
    using False assms(1) by (auto simp: applyFailed_def minerInv_def pcOk_def)
qed

lemma mines_inv:
  assumes "minerInv os m" "gm_pc m = InMine i"
  shows "minerInv (os @ [Mined (gm_head (mineDone (Some h) m)) i]) (mineDone (Some h) m)"
proof -
  let ?os = "os @ [Mined (gm_head (mineDone (Some h) m)) i]"
  have i: "i < length (gm_store m)" "st_applied (gm_store m ! i)" "gm_heldTicks m = 0"
    using assms by (auto simp: minerInv_def pcOk_def)
  have "sorted_wrt (<) (minedHeads ?os) \<and> (\<forall>x \<in> set (minedHeads ?os). x \<le> gm_head (mineDone (Some h) m))"
    using assms(1) by (force simp: minerInv_def mineDone_def sorted_wrt_append)
  moreover have "gaveUpOk ?os" using assms(1) by (intro gaveUpOk_snoc) (auto simp: minerInv_def)
  ultimately show ?thesis
    using i assms(1) by (auto simp: mineDone_def minerInv_def pcOk_def)
qed

lemma leaveGate_inv: "minerInv os m \<Longrightarrow> minerInv os (leaveGate m)"
proof -
  assume inv: "minerInv os m"
  have t: "minerInv os (m\<lparr>gm_gateTimeouts := n\<rparr>)" for n using inv by (simp add: minerInv_def)
  have "minerInv os (m\<lparr>gm_pc := Exited\<rparr>)" "minerInv os (m\<lparr>gm_pc := InCommit (gm_staged m)\<rparr>)"
    "minerInv os (m\<lparr>gm_gateTimeouts := n, gm_pc := InCommit (gm_staged m)\<rparr>)" for n
    using inv by (simp_all add: minerInv_def pcOk_def)
  then show ?thesis using beginApply_inv [OF t] beginApply_inv [OF inv] by (simp add: leaveGate_def Let_def)
qed

lemma minerStep_inv: "minerStep m ob m' \<Longrightarrow> minerInv os m \<Longrightarrow> minerInv (os @ ob) m'"
proof (induction rule: minerStep.induct)
  case (slot m r)
  then show ?case by (auto simp: reachSlot_def minerInv_def pcOk_def split: option.splits)
next
  case (mine_fails m i)
  then show ?case by (simp add: mineDone_def minerInv_def pcOk_def)
next
  case (halts m)
  then show ?case by (simp add: haltOp_def minerInv_def)
next
  case (apply_fails m i)
  then show ?case by (intro applyFailed_inv)
qed (simp_all add: stageOp_inv leaveGate_inv commitDone_inv beginApply_inv applyDone_inv applyFailed_inv mines_inv
  del: append.simps)

lemma mining_inv: "mining startHead os m \<Longrightarrow> minerInv os m"
proof (induction rule: mining.induct)
  case idle
  show ?case by (simp add: minerInv_def newMiner_def pcOk_def)
next
  case (moves os m ob m')
  then show ?case by (blast intro: minerStep_inv)
qed

text \<open>
  C13. However block passes, failing requests and the loop interleave: every block the miner mines
  moves the head strictly forward; it is mined on a stage whose prices were all written, or on one
  that was given up on; a stage is given up on only after two held ticks right before, so no more
  than two ticks in a row are held; and the count of mined blocks is right.
\<close>

theorem mining_gated:
  assumes "mining startHead os m"
  shows "sorted_wrt (<) (minedHeads os) \<and> gm_mined m = length (minedHeads os)
    \<and> (\<forall>h i. Mined h i \<in> set os \<longrightarrow> st_written (gm_store m ! i) \<or> GaveUp i \<in> set os)
    \<and> gaveUpOk os \<and> gm_heldTicks m < 3"
proof -
  have inv: "minerInv os m" by (rule mining_inv [OF assms])
  have "st_written (gm_store m ! i) \<or> GaveUp i \<in> set os" if "Mined h i \<in> set os" for h i
    using inv that unfolding minerInv_def by blast
  with inv show ?thesis unfolding minerInv_def by blast
qed

section \<open>A stage that arrives while another one fails\<close>

text \<open>One stage for block 10 waits; its write has failed \<open>n\<close> times in a row.\<close>

definition failing :: "nat \<Rightarrow> pc \<Rightarrow> miner" where
  "failing n p =
     \<lparr>gm_store = [\<lparr>st_forBlock = 9, st_hasCommit = False, st_applied = True, st_written = True\<rparr>,
        \<lparr>st_forBlock = 10, st_hasCommit = False, st_applied = False, st_written = False\<rparr>],
      gm_staged = 1, gm_head = 10, gm_stopped = False, gm_pc = p, gm_gateTimeouts = 0,
      gm_mined = 0, gm_mineErrors = 0, gm_heldTicks = n, gm_held = n\<rparr>"

definition lateStage :: miner where
  "lateStage = applyFailed (stageOp 11 False (failing 2 (InApply 1)))"

lemma failing_start: "failing 0 AtTick = stageOp 10 False (newMiner 10)"
  by (simp add: failing_def stageOp_def newMiner_def current_def)

lemma failing_tick: "leaveGate (reachSlot None (failing n AtTick)) = failing n (InApply 1)"
  by (simp add: failing_def leaveGate_def reachSlot_def ready_def beginApply_def current_def)

lemma failing_fails: "n < 2 \<Longrightarrow> applyFailed (failing n (InApply 1)) = failing (Suc n) AtTick"
  by (simp add: failing_def applyFailed_def)

lemma failing_reached:
  assumes "mining 10 os (failing n AtTick)"
  shows "mining 10 os (failing n (InApply 1))"
proof -
  have "mining 10 (os @ []) (reachSlot None (failing n AtTick))"
    by (rule mining.moves [OF assms minerStep.slot]) (simp add: failing_def)
  then have "mining 10 ((os @ []) @ []) (leaveGate (reachSlot None (failing n AtTick)))"
    by (rule mining.moves [OF _ minerStep.gate]) (simp add: failing_def reachSlot_def)
  then show ?thesis by (simp add: failing_tick)
qed

lemma failing_held:
  assumes "mining 10 os (failing n (InApply 1))" "n < 2"
  shows "mining 10 (os @ [HeldTick]) (failing (Suc n) AtTick)"
proof -
  have "gm_pc (failing n (InApply 1)) = InApply 1" by (simp add: failing_def)
  from mining.moves [OF assms(1) minerStep.apply_fails [OF this]] show ?thesis
    using assms(2) failing_fails [OF assms(2)] by (simp add: failing_def)
qed

lemma lateStage_eq:
  "lateStage = (failing 0 (InMine 2))\<lparr>gm_store := gm_store (failing 0 AtTick) @
      [\<lparr>st_forBlock = 11, st_hasCommit = False, st_applied = True, st_written = False\<rparr>],
    gm_staged := 2, gm_held := 2\<rparr>"
  by (simp add: lateStage_def failing_def stageOp_def applyFailed_def current_def setApplied_def numeral_2_eq_2)

lemma lateStage_mined: "mining 10 [HeldTick, HeldTick, GaveUp 2] lateStage"
proof -
  have "mining 10 ([] @ []) (stageOp 10 False (newMiner 10))"
    by (rule mining.moves [OF mining.idle minerStep.stages])
  then have "mining 10 [] (failing 0 AtTick)" by (simp add: failing_start)
  then have "mining 10 [HeldTick] (failing 1 AtTick)"
    using failing_held [OF failing_reached, of "[]" 0] by simp
  then have "mining 10 [HeldTick, HeldTick] (failing 2 AtTick)"
    using failing_held [OF failing_reached, of "[HeldTick]" 1] by (simp add: numeral_2_eq_2)
  then have "mining 10 [HeldTick, HeldTick] (failing 2 (InApply 1))" by (rule failing_reached)
  from mining.moves [OF this minerStep.stages] have
    m: "mining 10 ([HeldTick, HeldTick] @ []) (stageOp 11 False (failing 2 (InApply 1)))" .
  have i: "gm_pc (stageOp 11 False (failing 2 (InApply 1))) = InApply 1"
    "gm_heldTicks (stageOp 11 False (failing 2 (InApply 1))) = 2"
    "gm_staged (stageOp 11 False (failing 2 (InApply 1))) = 2"
    by (simp_all add: failing_def stageOp_def current_def)
  from mining.moves [OF m minerStep.apply_fails [OF i(1)]] show ?thesis
    unfolding i lateStage_def by simp
qed

text \<open>
  What the third failed write gives up on is whatever stage is current by then. A stage handed
  over while the older one's write was failing counts as applied, though none of its writes was
  ever attempted: its prices never reach storage, and no later tick makes them.
\<close>

theorem late_stage_dropped:
  "mining 10 [HeldTick, HeldTick, GaveUp 2] lateStage
   \<and> st_forBlock (current lateStage) = 11 \<and> st_applied (current lateStage)
   \<and> \<not> st_written (current lateStage) \<and> beginApply lateStage = lateStage\<lparr>gm_heldTicks := 0, gm_pc := InMine 2\<rparr>"
  using lateStage_mined by (simp add: lateStage_eq failing_def current_def beginApply_def)

section \<open>Witnesses\<close>

theorem mining_gated_witness: "gaveUpOk [HeldTick, HeldTick, GaveUp 2] \<and> gm_heldTicks lateStage < 3"
  using mining_gated [OF lateStage_mined] by simp

end
