(* ===== verification/Rng.thy ===== *)
theory Rng
  imports Prelude "HOL-Library.Word"
begin

text \<open>
  The random streams of a scenario (\<open>sdk/src/rng.ts\<close>): the 32-bit mixers, the linear congruential
  stream and the keyed one (HMAC-SHA-256 in counter mode under the scenario key), with the snapshot
  a checkpoint keeps of it, and the price walk they drive. HMAC is the parameter \<open>hmac\<close>, from the
  bytes fed to it to the 32 bytes of its digest; the key is part of it. The transcendental
  samplers (gaussian, lognormal, poisson) are not modelled.
\<close>

unbundle bit_operations_syntax

section \<open>Mixing\<close>

definition mix32 :: "32 word \<Rightarrow> 32 word" where
  "mix32 x =
     (let h = x;
          h = h XOR drop_bit 16 h;
          h = h * 0x85ebca6b;
          h = h XOR drop_bit 13 h;
          h = h * 0xc2b2ae35;
          h = h XOR drop_bit 16 h
      in h)"

definition fnv1a32 :: "nat list \<Rightarrow> 32 word" where
  "fnv1a32 codes = foldl (\<lambda>h c. (h XOR of_nat c) * 0x01000193) 0x811c9dc5 codes"

lemma xorshift16: "(h XOR drop_bit 16 h) XOR drop_bit 16 (h XOR drop_bit 16 h) = (h :: 32 word)"
  by (rule bit_word_eqI) (auto simp: bit_simps)

lemma xorshift13:
  "(let g = h XOR drop_bit 13 h in g XOR drop_bit 13 g XOR drop_bit 26 g) = (h :: 32 word)"
  unfolding Let_def by (rule bit_word_eqI) (auto simp: bit_simps)

lemma unat_small: "unat (w :: 32 word) < 4294967296"
  using unsigned_less [of w, where 'a = nat] by simp

lemma mixer_inverses:
  "(0x85ebca6b :: 32 word) * 0xa5cb9243 = 1" "(0xc2b2ae35 :: 32 word) * 0x7ed1b41d = 1"
  by (transfer, simp add: take_bit_eq_mod)+

lemma inj_by_inverse: "(\<And>x. g (f x) = x) \<Longrightarrow> inj f"
  by (metis injI)

text \<open>
  Mixing loses nothing: distinct 32-bit inputs never collide, so deriving one seed from another
  by mixing never gives two scenarios one stream.
\<close>

theorem mix32_injective: "mix32 x = mix32 y \<longleftrightarrow> x = y"
proof -
  have s16: "inj (\<lambda>h :: 32 word. h XOR drop_bit 16 h)"
    by (rule inj_by_inverse [of "\<lambda>g. g XOR drop_bit 16 g"]) (rule xorshift16)
  have s13: "inj (\<lambda>h :: 32 word. h XOR drop_bit 13 h)"
    by (rule inj_by_inverse [of "\<lambda>g. g XOR drop_bit 13 g XOR drop_bit 26 g"])
      (rule xorshift13 [unfolded Let_def])
  have m1: "inj (\<lambda>h :: 32 word. h * 0x85ebca6b)"
    by (rule inj_by_inverse [of "\<lambda>g. g * 0xa5cb9243"]) (simp only: mult.assoc mixer_inverses mult_1_right)
  have m2: "inj (\<lambda>h :: 32 word. h * 0xc2b2ae35)"
    by (rule inj_by_inverse [of "\<lambda>g. g * 0x7ed1b41d"]) (simp only: mult.assoc mixer_inverses mult_1_right)
  have eq: "mix32 = (\<lambda>h. h XOR drop_bit 16 h) \<circ> (\<lambda>h. h * 0xc2b2ae35) \<circ> (\<lambda>h. h XOR drop_bit 13 h)
      \<circ> (\<lambda>h. h * 0x85ebca6b) \<circ> (\<lambda>h. h XOR drop_bit 16 h)"
    by (auto simp: mix32_def Let_def)
  have "inj mix32" unfolding eq by (intro inj_compose s16 s13 m1 m2)
  then show ?thesis by (simp add: inj_eq)
qed

section \<open>The congruential stream\<close>

type_synonym lcg = "32 word"

definition lcgNext :: "lcg \<Rightarrow> real \<times> lcg" where
  "lcgNext state = (let s = 1664525 * state + 1013904223 in (real (unat s) / 4294967296, s))"

text \<open>The double product of the code is exact: it stays below \<open>2^53\<close>.\<close>

lemma lcg_exact: "1664525 * unat (s :: 32 word) + 1013904223 < 2 ^ 53"
proof -
  have "unat s < 2 ^ 32" using unat_small [of s] by simp
  then have "1664525 * unat s + 1013904223 \<le> 1664525 * (2 ^ 32) + 1013904223" by simp
  also have "\<dots> < 2 ^ 53" by simp
  finally show ?thesis .
qed

section \<open>The keyed stream\<close>

definition be32 :: "nat \<Rightarrow> nat list" where
  "be32 n = [n div 16777216 mod 256, n div 65536 mod 256, n div 256 mod 256, n mod 256]"

definition be64 :: "nat \<Rightarrow> nat list" where
  "be64 n = be32 (n div 4294967296) @ be32 (n mod 4294967296)"

definition fromBe32 :: "nat list \<Rightarrow> nat \<Rightarrow> nat" where
  "fromBe32 bs off = foldl (\<lambda>a b. 256 * a + b) 0 (take 4 (drop off bs))"

definition streamDomain :: "nat list" where
  "streamDomain = map of_char ''eris-rng/v1''"

text \<open>What names a stream to the HMAC: the domain, the seed, the salt, and the regime if any.\<close>

definition streamId :: "32 word \<Rightarrow> 32 word \<Rightarrow> nat list \<Rightarrow> nat list" where
  "streamId seed salt regime =
     streamDomain @ be32 (unat seed) @ be32 (unat salt)
     @ (if regime \<noteq> [] then be32 (length regime) @ regime else [])"

record keyedRng =
  kr_id :: "nat list"
  kr_block :: "nat list"
  kr_offset :: nat
  kr_counter :: nat
  kr_draws :: nat

definition keyedRng :: "32 word \<Rightarrow> 32 word \<Rightarrow> nat list \<Rightarrow> keyedRng" where
  "keyedRng seed salt regime =
     \<lparr>kr_id = streamId seed salt regime, kr_block = [], kr_offset = 0, kr_counter = 0, kr_draws = 0\<rparr>"

definition refill :: "(nat list \<Rightarrow> nat list) \<Rightarrow> keyedRng \<Rightarrow> keyedRng" where
  "refill hmac r = r\<lparr>kr_counter := Suc (kr_counter r),
     kr_block := hmac (kr_id r @ be64 (kr_counter r)), kr_offset := 0\<rparr>"

definition keyedNext :: "(nat list \<Rightarrow> nat list) \<Rightarrow> keyedRng \<Rightarrow> real \<times> keyedRng" where
  "keyedNext hmac r =
     (let r = (if length (kr_block r) < kr_offset r + 8 then refill hmac r else r);
          hi = fromBe32 (kr_block r) (kr_offset r);
          lo = fromBe32 (kr_block r) (kr_offset r + 4) div 2048
      in (real (hi * 2097152 + lo) / 9007199254740992,
          r\<lparr>kr_offset := kr_offset r + 8, kr_draws := kr_draws r + 1\<rparr>))"

datatype rngSnapshot = LcgAt "32 word" | KeyedAt nat

datatype rng_error = WrongStreamKind | InvalidPosition nat

definition keyedSnapshot :: "keyedRng \<Rightarrow> rngSnapshot" where
  "keyedSnapshot r = KeyedAt (kr_draws r)"

definition keyedRestore :: "(nat list \<Rightarrow> nat list) \<Rightarrow> rngSnapshot \<Rightarrow> keyedRng \<Rightarrow> rng_error + keyedRng" where
  "keyedRestore hmac snap r =
     (case snap of
        LcgAt _ \<Rightarrow> Inl WrongStreamKind
      | KeyedAt pos \<Rightarrow>
          throwIf (9007199254740991 < pos) (InvalidPosition pos)
            (let r = r\<lparr>kr_counter := pos div 4, kr_block := [], kr_offset := 0\<rparr>;
                 inBlock = pos mod 4;
                 r = (if 0 < inBlock then (refill hmac r)\<lparr>kr_offset := inBlock * 8\<rparr> else r)
             in Inr (r\<lparr>kr_draws := pos\<rparr>)))"

definition lcgRestore :: "rngSnapshot \<Rightarrow> rng_error + lcg" where
  "lcgRestore snap = (case snap of LcgAt s \<Rightarrow> Inr s | KeyedAt _ \<Rightarrow> Inl WrongStreamKind)"

fun draws :: "(nat list \<Rightarrow> nat list) \<Rightarrow> nat \<Rightarrow> keyedRng \<Rightarrow> real list \<times> keyedRng" where
  "draws hmac 0 r = ([], r)"
| "draws hmac (Suc n) r =
     (case keyedNext hmac r of (x, r') \<Rightarrow> (case draws hmac n r' of (xs, r'') \<Rightarrow> (x # xs, r'')))"

section \<open>Where a stream is\<close>

text \<open>What the code relies on of HMAC-SHA-256: a digest is 32 bytes.\<close>

definition hmac32 :: "(nat list \<Rightarrow> nat list) \<Rightarrow> bool" where
  "hmac32 hmac \<longleftrightarrow> (\<forall>m. length (hmac m) = 32 \<and> (\<forall>b \<in> set (hmac m). b < 256))"

definition drawAt :: "(nat list \<Rightarrow> nat list) \<Rightarrow> nat list \<Rightarrow> nat \<Rightarrow> real" where
  "drawAt hmac ident n =
     (let block = hmac (ident @ be64 (n div 4)); off = 8 * (n mod 4)
      in real (fromBe32 block off * 2097152 + fromBe32 block (off + 4) div 2048) / 9007199254740992)"

definition atDraw :: "(nat list \<Rightarrow> nat list) \<Rightarrow> nat list \<Rightarrow> nat \<Rightarrow> keyedRng \<Rightarrow> bool" where
  "atDraw hmac ident n r \<longleftrightarrow> kr_id r = ident \<and> kr_draws r = n \<and>
     (if n mod 4 = 0 then kr_counter r = n div 4 \<and> length (kr_block r) < kr_offset r + 8
      else kr_counter r = Suc (n div 4) \<and> kr_block r = hmac (ident @ be64 (n div 4))
        \<and> kr_offset r = 8 * (n mod 4))"

lemma atDraw_new: "atDraw hmac (streamId seed salt regime) 0 (keyedRng seed salt regime)"
  by (simp add: atDraw_def keyedRng_def)

lemma keyedNext_at:
  assumes "hmac32 hmac" "atDraw hmac ident n r"
  shows "fst (keyedNext hmac r) = drawAt hmac ident n" "atDraw hmac ident (Suc n) (snd (keyedNext hmac r))"
proof -
  have l: "length (hmac m) = 32" for m using assms(1) by (simp add: hmac32_def)
  have m: "n mod 4 < 4" by simp
  show "fst (keyedNext hmac r) = drawAt hmac ident n"
    using assms(2) l m by (auto simp: keyedNext_def atDraw_def drawAt_def refill_def Let_def split: if_splits)
  show "atDraw hmac ident (Suc n) (snd (keyedNext hmac r))"
  proof (cases "Suc (n mod 4) = 4")
    case True
    then have "Suc n mod 4 = 0" "Suc n div 4 = Suc (n div 4)" "n mod 4 = 3"
      by (simp_all add: mod_Suc div_Suc)
    then show ?thesis using assms(2) l by (simp add: keyedNext_def atDraw_def refill_def Let_def)
  next
    case False
    then have "Suc n mod 4 = Suc (n mod 4)" "Suc n div 4 = n div 4" by (simp_all add: mod_Suc div_Suc)
    then show ?thesis
      using assms(2) l m False by (auto simp: keyedNext_def atDraw_def refill_def Let_def split: if_splits)
  qed
qed

lemma draws_at:
  assumes "hmac32 hmac"
  shows "atDraw hmac ident n r \<Longrightarrow>
    fst (draws hmac k r) = map (drawAt hmac ident) [n..<n + k] \<and> atDraw hmac ident (n + k) (snd (draws hmac k r))"
proof (induction k arbitrary: n r)
  case (Suc k)
  note s = keyedNext_at [OF assms Suc.prems]
  from Suc.IH [OF s(2)] s(1) show ?case
    by (simp add: split_beta upt_conv_Cons del: upt_Suc)
qed simp

lemma keyedRestore_at:
  assumes "n \<le> 9007199254740991" "kr_id r = ident"
  shows "\<exists>r'. keyedRestore hmac (KeyedAt n) r = Inr r' \<and> atDraw hmac ident n r'"
  using assms by (auto simp: keyedRestore_def atDraw_def refill_def Let_def throwIf_def)

text \<open>
  A checkpoint's stream position is exact: a stream restored from a snapshot, into any stream
  of the same name, draws from there on what the original one would have, however many draws were
  made before and however the two are interleaved with blocks of the HMAC.
\<close>

theorem keyed_resume:
  assumes "hmac32 hmac" "n \<le> 9007199254740991"
  shows "\<exists>r. keyedRestore hmac (keyedSnapshot (snd (draws hmac n (keyedRng seed salt regime))))
        (snd (draws hmac j (keyedRng seed salt regime))) = Inr r
    \<and> fst (draws hmac k r) = drop n (fst (draws hmac (n + k) (keyedRng seed salt regime)))"
proof -
  let ?new = "keyedRng seed salt regime" and ?id = "streamId seed salt regime"
  have at: "atDraw hmac ?id i (snd (draws hmac i ?new))" for i
    using draws_at [OF assms(1) atDraw_new, of i] by simp
  then have "kr_draws (snd (draws hmac n ?new)) = n" "kr_id (snd (draws hmac j ?new)) = ?id"
    by (auto simp: atDraw_def)
  then obtain r where r: "keyedRestore hmac (keyedSnapshot (snd (draws hmac n ?new))) (snd (draws hmac j ?new)) = Inr r"
    "atDraw hmac ?id n r"
    using keyedRestore_at [OF assms(2)] by (fastforce simp: keyedSnapshot_def)
  have "fst (draws hmac k r) = map (drawAt hmac ?id) [n..<n + k]"
    using draws_at [OF assms(1) r(2)] by blast
  also have "\<dots> = drop n (fst (draws hmac (n + k) ?new))"
    using draws_at [OF assms(1) atDraw_new, of "n + k"] by (simp add: drop_map drop_upt)
  finally show ?thesis using r(1) by blast
qed

section \<open>Streams of different names\<close>

lemma length_be32 [simp]: "length (be32 n) = 4"
  by (simp add: be32_def)

lemma length_be64 [simp]: "length (be64 n) = 8"
  by (simp add: be64_def)

lemma be32_value:
  assumes "n < 4294967296"
  shows "foldl (\<lambda>a b. 256 * a + b) 0 (be32 n) = n"
proof -
  have d: "n div 65536 = n div 256 div 256" "n div 16777216 = n div 256 div 256 div 256"
    by (simp_all add: div_mult2_eq [symmetric])
  have top: "n div 16777216 < 256" using assms by (simp add: less_mult_imp_div_less)
  have "256 * (n div 16777216) + n div 65536 mod 256 = n div 65536"
    unfolding d by (rule mult_div_mod_eq)
  moreover have "256 * (n div 65536) + n div 256 mod 256 = n div 256"
    unfolding d by (rule mult_div_mod_eq)
  moreover have "256 * (n div 256) + n mod 256 = n" by (rule mult_div_mod_eq)
  ultimately show ?thesis using top by (simp add: be32_def)
qed

lemma be32_inj: "m < 4294967296 \<Longrightarrow> n < 4294967296 \<Longrightarrow> be32 m = be32 n \<longleftrightarrow> m = n"
  by (metis be32_value)

lemma be64_inj:
  assumes "m < 18446744073709551616" "n < 18446744073709551616" "be64 m = be64 n"
  shows "m = n"
proof -
  have "be32 (m div 4294967296) = be32 (n div 4294967296)" "be32 (m mod 4294967296) = be32 (n mod 4294967296)"
    using assms(3) by (auto simp: be64_def append_eq_append_conv)
  moreover have "m div 4294967296 < 4294967296" "n div 4294967296 < 4294967296"
    using assms(1,2) by (auto simp: less_mult_imp_div_less)
  ultimately have "m div 4294967296 = n div 4294967296" "m mod 4294967296 = n mod 4294967296"
    by (auto simp: be32_inj)
  then show ?thesis by (metis div_mult_mod_eq)
qed

text \<open>
  No two streams share a block: the bytes given to the HMAC for one stream and counter are those
  of another only if seed, salt, regime and counter are all the same. So agents' noise, prices and
  stress, salted apart, and scenarios of two regimes with one seed never draw the same numbers by
  construction.
\<close>

theorem streams_separate:
  assumes "streamId seed salt regime @ be64 c = streamId seed' salt' regime' @ be64 c'"
    and "c < 18446744073709551616" "c' < 18446744073709551616"
    and "length regime < 4294967296" "length regime' < 4294967296"
  shows "seed = seed' \<and> salt = salt' \<and> regime = regime' \<and> c = c'"
proof -
  have ids: "streamId seed salt regime = streamId seed' salt' regime'" and cs: "be64 c = be64 c'"
    using assms(1) by (auto simp: append_eq_append_conv)
  let ?t = "\<lambda>r :: nat list. if r \<noteq> [] then be32 (length r) @ r else []"
  have parts: "be32 (unat seed) = be32 (unat seed')" "be32 (unat salt) = be32 (unat salt')" "?t regime = ?t regime'"
    using ids unfolding streamId_def by (auto simp: append_eq_append_conv)
  have "seed = seed'" "salt = salt'"
    using parts(1,2) be32_inj [OF unat_small unat_small] by (auto simp: unsigned_word_eqI)
  moreover have "regime = regime'"
    using parts(3) by (cases "regime = []"; cases "regime' = []")
      (auto simp: append_eq_append_conv dest!: arg_cong [where f = length])
  ultimately show ?thesis using be64_inj [OF assms(2,3) cs] by simp
qed

section \<open>The price walk\<close>

record ouParams =
  ou_volatility :: real
  ou_kappa :: real
  ou_drift :: real

definition nextFairPrice :: "real \<Rightarrow> real \<Rightarrow> real \<Rightarrow> ouParams \<Rightarrow> real" where
  "nextFairPrice current u anchor p =
     (let shock = (u - 1 / 2) * 2 * ou_volatility p;
          revert = (ou_kappa p * (anchor - current)) / current
      in max 100 (current * (1 + ou_drift p + revert + shock)))"

lemma nextFairPrice_floor: "100 \<le> nextFairPrice current u anchor p"
  by (simp add: nextFairPrice_def Let_def)


section \<open>Applied\<close>

definition zeroHmac :: "nat list \<Rightarrow> nat list" where
  "zeroHmac m = replicate 32 (length m mod 256)"

lemma zeroHmac_ok: "hmac32 zeroHmac"
  by (simp add: hmac32_def zeroHmac_def)

lemma keyed_resume_witness:
  "\<exists>r. keyedRestore zeroHmac (keyedSnapshot (snd (draws zeroHmac 5 (keyedRng 101 7 [99, 97]))))
        (snd (draws zeroHmac 0 (keyedRng 101 7 [99, 97]))) = Inr r
    \<and> fst (draws zeroHmac 3 r) = drop 5 (fst (draws zeroHmac (5 + 3) (keyedRng 101 7 [99, 97])))"
  by (rule keyed_resume [OF zeroHmac_ok]) simp

lemma streams_separate_witness:
  "(7 :: 32 word) = 7 \<and> (9 :: 32 word) = 9 \<and> [99, 97 :: nat] = [99, 97] \<and> (3 :: nat) = 3"
  by (rule streams_separate [of 7 9 "[99, 97]" 3 7 9 "[99, 97]" 3]) simp_all

end
