(* ===== verification/Tick_Math.thy ===== *)
theory Tick_Math
  imports Prelude
begin

text \<open>
  Uniswap V3 tick and liquidity arithmetic (\<open>sdk/src/tickMath.ts\<close>) over big integers: the square
  root price of a tick, the token amounts of a liquidity at a price and the liquidity a mint takes
  from given amounts. Every division of the code is \<open>bigDiv\<close>, which raises on zero. The lemmas bound
  the price of a tick inside the contract's range and relate the two conversions.
\<close>

unbundle bit_operations_syntax

section \<open>The price of a tick\<close>

definition Q96 :: int where
  "Q96 = 2 ^ 96"

definition MAX_UINT256 :: int where
  "MAX_UINT256 = 2 ^ 256 - 1"

definition MIN_TICK :: int where
  "MIN_TICK = - 887272"

definition MAX_TICK :: int where
  "MAX_TICK = 887272"

datatype tick_error = NotAnInteger | OutOfRange | BigIntError js_error

definition tickSteps :: "(int \<times> int) list" where
  "tickSteps =
     [(0x2, 0xfff97272373d413259a46990580e213a),
      (0x4, 0xfff2e50f5f656932ef12357cf3c7fdcc),
      (0x8, 0xffe5caca7e10e4e61c3624eaa0941cd0),
      (0x10, 0xffcb9843d60f6159c9db58835c926644),
      (0x20, 0xff973b41fa98c081472e6896dfb254c0),
      (0x40, 0xff2ea16466c96a3843ec78b326b52861),
      (0x80, 0xfe5dee046a99a2a811c461f1969c3053),
      (0x100, 0xfcbe86c7900a88aedcffc83b479aa3a4),
      (0x200, 0xf987a7253ac413176f2b074cf7815e54),
      (0x400, 0xf3392b0822b70005940c7a398e4b70f3),
      (0x800, 0xe7159475a2c29b7443b29c7fa6e889d9),
      (0x1000, 0xd097f3bdfd2022b8845ad8f792aa5825),
      (0x2000, 0xa9f746462d870fdf8a65dc1f90e061e5),
      (0x4000, 0x70d869a156d2a1b890bb3df62baf32f7),
      (0x8000, 0x31be135f97d08fd981231505542fcfa6),
      (0x10000, 0x9aa508b5b7a84e1c677de54f3e99bc9),
      (0x20000, 0x5d6af8dedb81196699c329225ee604),
      (0x40000, 0x2216e584f5fa1ea926041bedfe98),
      (0x80000, 0x48a170391f7dc42444e8fa2)]"

definition tickStep :: "int \<Rightarrow> int \<Rightarrow> int \<times> int \<Rightarrow> int" where
  "tickStep absTick ratio mc =
     (if absTick AND fst mc \<noteq> 0 then drop_bit 128 (ratio * snd mc) else ratio)"

definition startRatio :: "int \<Rightarrow> int" where
  "startRatio absTick =
     (if absTick AND 1 \<noteq> 0 then 0xfffcb933bd6fad37aa2d162d1a594001 else 0x100000000000000000000000000000000)"

definition absRatio :: "int \<Rightarrow> int" where
  "absRatio absTick = foldl (tickStep absTick) (startRatio absTick) tickSteps"

text \<open>\<open>Q128.128\<close> down to \<open>Q64.96\<close>, rounding up.\<close>

definition toX96 :: "int \<Rightarrow> int" where
  "toX96 ratio = drop_bit 32 ratio + (if ratio mod 2 ^ 32 = 0 then 0 else 1)"

definition getSqrtRatioAtTick :: "jsnum \<Rightarrow> tick_error + int" where
  "getSqrtRatioAtTick tick =
     (case tick of
        NonFin \<Rightarrow> Inl NotAnInteger
      | Fin x \<Rightarrow>
          throwIf (\<not> isInteger x) NotAnInteger
            (throwIf (x < of_int MIN_TICK \<or> of_int MAX_TICK < x) OutOfRange
              (let t = \<lfloor>x\<rfloor>; ratio = absRatio \<bar>t\<bar>
               in if 0 < t
                  then (case bigDiv MAX_UINT256 ratio of Inl e \<Rightarrow> Inl (BigIntError e) | Inr q \<Rightarrow> Inr (toX96 q))
                  else Inr (toX96 ratio))))"

section \<open>Amounts and liquidity\<close>

definition mulDiv :: "int \<Rightarrow> int \<Rightarrow> int \<Rightarrow> js_error + int" where
  "mulDiv a b denominator = bigDiv (a * b) denominator"

definition mulDivRoundingUp :: "int \<Rightarrow> int \<Rightarrow> int \<Rightarrow> js_error + int" where
  "mulDivRoundingUp a b denominator =
     (let product = a * b
      in bindR (bigDiv product denominator) (\<lambda>result.
         bindR (bigMod product denominator) (\<lambda>r. Inr (if r = 0 then result else result + 1))))"

definition divRoundingUp :: "int \<Rightarrow> int \<Rightarrow> js_error + int" where
  "divRoundingUp a b =
     bindR (bigMod a b) (\<lambda>r. bindR (bigDiv a b) (\<lambda>q. Inr (if r = 0 then q else q + 1)))"

definition ordered :: "int \<Rightarrow> int \<Rightarrow> int \<times> int" where
  "ordered a b = (if b < a then (b, a) else (a, b))"

definition getAmount0Delta :: "int \<Rightarrow> int \<Rightarrow> int \<Rightarrow> bool \<Rightarrow> js_error + int" where
  "getAmount0Delta sqrtRatioA sqrtRatioB liquidity roundUp =
     (case ordered sqrtRatioA sqrtRatioB of (lo, hi) \<Rightarrow>
       (let numerator1 = push_bit 96 liquidity; numerator2 = hi - lo
        in if roundUp then bindR (mulDivRoundingUp numerator1 numerator2 hi) (\<lambda>x. divRoundingUp x lo)
           else bindR (mulDiv numerator1 numerator2 hi) (\<lambda>x. bigDiv x lo)))"

definition getAmount1Delta :: "int \<Rightarrow> int \<Rightarrow> int \<Rightarrow> bool \<Rightarrow> js_error + int" where
  "getAmount1Delta sqrtRatioA sqrtRatioB liquidity roundUp =
     (case ordered sqrtRatioA sqrtRatioB of (lo, hi) \<Rightarrow>
       if roundUp then mulDivRoundingUp liquidity (hi - lo) Q96 else mulDiv liquidity (hi - lo) Q96)"

definition getAmountsForLiquidity :: "int \<Rightarrow> int \<Rightarrow> int \<Rightarrow> int \<Rightarrow> js_error + (int \<times> int)" where
  "getAmountsForLiquidity sqrtPrice sqrtRatioA sqrtRatioB liquidity =
     (case ordered sqrtRatioA sqrtRatioB of (lower, upper) \<Rightarrow>
       if sqrtPrice \<le> lower then
         bindR (getAmount0Delta lower upper liquidity True) (\<lambda>a0. Inr (a0, 0))
       else if sqrtPrice < upper then
         bindR (getAmount0Delta sqrtPrice upper liquidity True) (\<lambda>a0.
         bindR (getAmount1Delta lower sqrtPrice liquidity True) (\<lambda>a1. Inr (a0, a1)))
       else bindR (getAmount1Delta lower upper liquidity True) (\<lambda>a1. Inr (0, a1)))"

definition forAmount0 :: "int \<Rightarrow> int \<Rightarrow> int \<Rightarrow> js_error + int" where
  "forAmount0 sqrtLo sqrtHi amount = bindR (mulDiv sqrtLo sqrtHi Q96) (\<lambda>m. mulDiv amount m (sqrtHi - sqrtLo))"

definition forAmount1 :: "int \<Rightarrow> int \<Rightarrow> int \<Rightarrow> js_error + int" where
  "forAmount1 sqrtLo sqrtHi amount = mulDiv amount Q96 (sqrtHi - sqrtLo)"

definition getLiquidityForAmounts :: "int \<Rightarrow> int \<Rightarrow> int \<Rightarrow> int \<Rightarrow> int \<Rightarrow> js_error + int" where
  "getLiquidityForAmounts sqrtPrice sqrtRatioA sqrtRatioB amount0 amount1 =
     (case ordered sqrtRatioA sqrtRatioB of (lower, upper) \<Rightarrow>
       if sqrtPrice \<le> lower then forAmount0 lower upper amount0
       else if sqrtPrice < upper then
         bindR (forAmount0 sqrtPrice upper amount0) (\<lambda>l0.
         bindR (forAmount1 lower sqrtPrice amount1) (\<lambda>l1. Inr (if l0 < l1 then l0 else l1)))
       else forAmount1 lower upper amount1)"

section \<open>Every tick has a price in the contract's range\<close>

definition covers :: "int \<Rightarrow> int \<Rightarrow> bool" where
  "covers m t \<longleftrightarrow> (\<forall>k. bit t k \<longrightarrow> bit m k)"

lemma tickStep_nonneg: "0 \<le> r \<Longrightarrow> 0 \<le> snd mc \<Longrightarrow> 0 \<le> tickStep t r mc"
  by (simp add: tickStep_def)

lemma tickStep_mono:
  assumes "covers m t" "\<exists>k. fst mc = 2 ^ k" "0 \<le> snd mc" "snd mc \<le> 2 ^ 128" "0 \<le> rm" "rm \<le> rt"
  shows "tickStep m rm mc \<le> tickStep t rt mc"
proof -
  obtain k where k: "fst mc = 2 ^ k" using assms(2) by blast
  have le: "drop_bit 128 (rm * snd mc) \<le> drop_bit 128 (rt * snd mc)"
    using assms by (simp add: drop_bit_eq_div zdiv_mono1 mult_right_mono)
  have "rm * snd mc \<le> rm * 2 ^ 128" using assms by (intro mult_left_mono) auto
  then have "drop_bit 128 (rm * snd mc) \<le> rm"
    by (simp add: drop_bit_eq_div)
  with le assms(1,6) k show ?thesis
    by (auto simp: tickStep_def covers_def and_exp_eq_0_iff_not_bit)
qed

lemma foldl_mono:
  assumes "covers m t"
  shows "\<forall>mc \<in> set steps. (\<exists>k. fst mc = 2 ^ k) \<and> 0 \<le> snd mc \<and> snd mc \<le> 2 ^ 128 \<Longrightarrow> 0 \<le> rm \<Longrightarrow> rm \<le> rt \<Longrightarrow>
    foldl (tickStep m) rm steps \<le> foldl (tickStep t) rt steps"
proof (induction steps arbitrary: rm rt)
  case (Cons mc steps)
  then show ?case using tickStep_mono [OF assms] by (simp add: tickStep_nonneg)
qed simp

lemma tickSteps_ok:
  "\<forall>mc \<in> set tickSteps. (\<exists>k. fst mc = 2 ^ k) \<and> 0 \<le> snd mc \<and> snd mc \<le> 2 ^ 128"
proof -
  have "map fst tickSteps = map (\<lambda>k. 2 ^ k) [1..<20]" by (simp add: tickSteps_def upt_rec)
  then have "\<forall>x \<in> fst ` set tickSteps. \<exists>k. x = 2 ^ k" by (metis (no_types, lifting) image_iff list.set_map)
  moreover have "\<forall>mc \<in> set tickSteps. 0 \<le> snd mc \<and> snd mc \<le> 2 ^ 128" by (simp add: tickSteps_def)
  ultimately show ?thesis by blast
qed

lemma absRatio_mono:
  assumes "covers m t"
  shows "absRatio m \<le> absRatio t"
  unfolding absRatio_def
proof (rule foldl_mono [OF assms tickSteps_ok])
  have "bit t 0 \<longrightarrow> bit m 0" using assms by (simp add: covers_def)
  then show "startRatio m \<le> startRatio t"
    using and_exp_eq_0_iff_not_bit [of m 0] and_exp_eq_0_iff_not_bit [of t 0] by (auto simp: startRatio_def)
qed (simp add: startRatio_def)

lemma covers_zero: "covers t 0"
  by (simp add: covers_def)

lemma covers_prefix:
  assumes "t div 2 ^ k = p" "m = p * 2 ^ k + (2 ^ k - 1)"
  shows "covers m t"
proof -
  have small: "0 \<le> (2 ^ k - 1 :: int)" "(2 ^ k - 1 :: int) < 2 ^ k" by simp_all
  have m: "m div 2 ^ k = p" "m mod 2 ^ k = mask k"
    using div_mult_self2 [of "2 ^ k" "2 ^ k - 1 :: int" p] mod_mult_self1 [of "2 ^ k - 1 :: int" p "2 ^ k"] small
    unfolding assms(2) mask_eq_exp_minus_1 by (simp_all only: add.commute mult.commute div_pos_pos_trivial mod_pos_pos_trivial)
  have "bit m i" if "bit t i" for i
  proof (cases "i < k")
    case True
    have "bit (m mod 2 ^ k) i" unfolding m(2) using True by (simp add: bit_mask_iff)
    then show ?thesis by (simp add: bit_take_bit_iff flip: take_bit_eq_mod)
  next
    case False
    then have "bit m i \<longleftrightarrow> bit (drop_bit k m) (i - k)" "bit t i \<longleftrightarrow> bit (drop_bit k t) (i - k)"
      by (simp_all add: bit_drop_bit_eq)
    then show ?thesis using that assms(1) m(1) by (simp add: drop_bit_eq_div)
  qed
  then show ?thesis by (simp add: covers_def)
qed

lemma tick_prefixes:
  assumes "0 \<le> t" "t \<le> (887272 :: int)"
  shows "t = 887272 \<or> t div 2 ^ 19 = 0 \<or> t div 2 ^ 18 = 2 \<or> t div 2 ^ 16 = 12 \<or> t div 2 ^ 15 = 26 \<or> t div 2 ^ 11 = 432
    \<or> t div 2 ^ 8 = 3464 \<or> t div 2 ^ 7 = 6930 \<or> t div 2 ^ 6 = 13862 \<or> t div 2 ^ 5 = 27726 \<or> t div 2 ^ 3 = 110908"
proof -
  have d: "t div n = q" if "q * n \<le> t" "t < (q + 1) * n" "0 < n" for n q :: int
    using that by (intro int_div_pos_eq [where r = "t - q * n"]) (auto simp: algebra_simps)
  consider "t < 524288" | "524288 \<le> t" "t < 786432" | "786432 \<le> t" "t < 851968" | "851968 \<le> t" "t < 884736"
    | "884736 \<le> t" "t < 886784" | "886784 \<le> t" "t < 887040" | "887040 \<le> t" "t < 887168"
    | "887168 \<le> t" "t < 887232" | "887232 \<le> t" "t < 887264" | "887264 \<le> t" "t < 887272" | "t = 887272"
    using assms by linarith
  then show ?thesis
    using assms(1) d [of 0 "2 ^ 19"] d [of 2 "2 ^ 18"] d [of 12 "2 ^ 16"] d [of 26 "2 ^ 15"] d [of 432 "2 ^ 11"]
      d [of 3464 "2 ^ 8"] d [of 6930 "2 ^ 7"] d [of 13862 "2 ^ 6"] d [of 27726 "2 ^ 5"] d [of 110908 "2 ^ 3"]
    by cases simp_all
qed

definition MIN_RATIO :: int where
  "MIN_RATIO = 18447437462383981825"

lemma absRatio_values:
  "absRatio 887272 = MIN_RATIO" "absRatio 0 = 2 ^ 128"
  "MIN_RATIO \<le> absRatio 524287" "MIN_RATIO \<le> absRatio 786431" "MIN_RATIO \<le> absRatio 851967"
  "MIN_RATIO \<le> absRatio 884735" "MIN_RATIO \<le> absRatio 886783" "MIN_RATIO \<le> absRatio 887039"
  "MIN_RATIO \<le> absRatio 887167" "MIN_RATIO \<le> absRatio 887231" "MIN_RATIO \<le> absRatio 887263"
  "MIN_RATIO \<le> absRatio 887271"
  by code_simp+

lemma absRatio_range:
  assumes "0 \<le> t" "t \<le> 887272"
  shows "MIN_RATIO \<le> absRatio t" "absRatio t \<le> 2 ^ 128"
proof -
  have c: "t div 2 ^ k = p \<Longrightarrow> absRatio (p * 2 ^ k + (2 ^ k - 1)) \<le> absRatio t" for k p
    using absRatio_mono covers_prefix by blast
  show "MIN_RATIO \<le> absRatio t"
    using tick_prefixes [OF assms] absRatio_values c [of 19 0] c [of 18 2] c [of 16 12] c [of 15 26] c [of 11 432]
      c [of 8 3464] c [of 7 6930] c [of 6 13862] c [of 5 27726] c [of 3 110908]
    by (elim disjE) simp_all
  show "absRatio t \<le> 2 ^ 128"
    using absRatio_mono [OF covers_zero, of t] absRatio_values by simp
qed


lemma toX96_mono: "a \<le> b \<Longrightarrow> toX96 a \<le> toX96 b"
proof -
  have up: "toX96 r = - ((- r) div 2 ^ 32)" for r
    by (simp add: toX96_def drop_bit_eq_div zdiv_zminus1_eq_if)
  show "a \<le> b \<Longrightarrow> toX96 a \<le> toX96 b" unfolding up by (simp add: zdiv_mono1)
qed

lemma toX96_values:
  "toX96 MIN_RATIO = 4295128739" "toX96 (2 ^ 128) = 2 ^ 96"
  "toX96 (MAX_UINT256 div MIN_RATIO) = 1461446703485210103287273052203988822378723970342"
  "toX96 (MAX_UINT256 div 2 ^ 128) = 2 ^ 96"
  by code_simp+

definition priceOfTick :: "int \<Rightarrow> int" where
  "priceOfTick t = toX96 (if 0 < t then MAX_UINT256 div absRatio \<bar>t\<bar> else absRatio \<bar>t\<bar>)"

lemma priceOfTick_range:
  assumes "MIN_TICK \<le> t" "t \<le> MAX_TICK"
  shows "4295128739 \<le> priceOfTick t \<and> priceOfTick t \<le> 1461446703485210103287273052203988822378723970342
    \<and> (if t \<le> 0 then priceOfTick t \<le> 2 ^ 96 else 2 ^ 96 \<le> priceOfTick t)"
proof -
  have r: "MIN_RATIO \<le> absRatio \<bar>t\<bar>" "absRatio \<bar>t\<bar> \<le> 2 ^ 128"
    using absRatio_range [of "\<bar>t\<bar>"] assms by (simp_all add: MIN_TICK_def MAX_TICK_def)
  have pos: "0 < MIN_RATIO" "0 \<le> MAX_UINT256" by (simp_all add: MIN_RATIO_def MAX_UINT256_def)
  show ?thesis
  proof (cases "0 < t")
    case True
    have "MAX_UINT256 div absRatio \<bar>t\<bar> \<le> MAX_UINT256 div MIN_RATIO"
      "MAX_UINT256 div 2 ^ 128 \<le> MAX_UINT256 div absRatio \<bar>t\<bar>"
      using r pos by (auto intro: zdiv_mono2)
    then show ?thesis
      using toX96_mono toX96_values True by (force simp: priceOfTick_def)
  next
    case False
    then show ?thesis
      using toX96_mono [OF r(1)] toX96_mono [OF r(2)] toX96_values by (simp add: priceOfTick_def)
  qed
qed

lemma getSqrtRatioAtTick_int:
  assumes "MIN_TICK \<le> t" "t \<le> MAX_TICK"
  shows "getSqrtRatioAtTick (Fin (of_int t)) = Inr (priceOfTick t)"
proof -
  have "\<bar>t\<bar> \<le> 887272" using assms by (simp add: MIN_TICK_def MAX_TICK_def abs_le_iff)
  then have "0 < absRatio \<bar>t\<bar>" "0 \<le> MAX_UINT256"
    using absRatio_range(1) [of "\<bar>t\<bar>"] by (simp_all add: MIN_RATIO_def MAX_UINT256_def)
  then show ?thesis
    using assms by (simp add: getSqrtRatioAtTick_def priceOfTick_def Let_def)
qed

text \<open>
  Every tick the pool allows has a price, inside the contract's own bounds (so it fits in a
  \<open>uint160\<close>) and on its side of par, and the division of a positive tick never raises; anything else
  is refused, with the error that names why.
\<close>

theorem getSqrtRatioAtTick_range:
  "case getSqrtRatioAtTick tick of
     Inr price \<Rightarrow> \<exists>t. tick = Fin (of_int t) \<and> - 887272 \<le> t \<and> t \<le> 887272
       \<and> 4295128739 \<le> price \<and> price \<le> 1461446703485210103287273052203988822378723970342
       \<and> (if t \<le> 0 then price \<le> 2 ^ 96 else 2 ^ 96 \<le> price)
   | Inl NotAnInteger \<Rightarrow> \<nexists>t. tick = Fin (of_int t)
   | Inl OutOfRange \<Rightarrow> \<exists>t :: int. tick = Fin (of_int t) \<and> t \<notin> {- 887272..887272}
   | Inl (BigIntError e) \<Rightarrow> False"
proof (cases "\<exists>t. tick = Fin (of_int t)")
  case True
  then obtain t where t: "tick = Fin (of_int t)" by blast
  show ?thesis
  proof (cases "MIN_TICK \<le> t \<and> t \<le> MAX_TICK")
    case True
    then show ?thesis
      using getSqrtRatioAtTick_int [of t] priceOfTick_range [of t] by (auto simp: t MIN_TICK_def MAX_TICK_def)
  next
    case False
    then have "getSqrtRatioAtTick tick = Inl OutOfRange"
      by (auto simp: t getSqrtRatioAtTick_def throwIf_def)
    then show ?thesis using False by (auto simp: t MIN_TICK_def MAX_TICK_def)
  qed
next
  case False
  then have "getSqrtRatioAtTick tick = Inl NotAnInteger"
    by (cases tick) (force simp: getSqrtRatioAtTick_def isInteger_def throwIf_def)+
  then show ?thesis using False by simp
qed


section \<open>Amounts and liquidity agree\<close>

definition cdiv :: "int \<Rightarrow> int \<Rightarrow> int" where
  "cdiv a b = (if a mod b = 0 then a div b else a div b + 1)"

lemma div_mult_le: "0 < d \<Longrightarrow> (n :: int) div d * d \<le> n"
  by (metis mult.commute mult_div_mod_eq pos_mod_sign le_add_same_cancel1)

lemma cdiv_le_iff: "0 < b \<Longrightarrow> cdiv a b \<le> c \<longleftrightarrow> a \<le> c * b"
proof -
  assume b: "0 < b"
  then have "cdiv a b = - ((- a) div b)" by (simp add: cdiv_def zdiv_zminus1_eq_if)
  moreover have "- c \<le> (- a) div b \<longleftrightarrow> - c * b \<le> - a" 
    using b by (metis div_mult_le zdiv_mono1 nonzero_mult_div_cancel_right less_irrefl mult_right_mono order_trans less_imp_le)
  ultimately show ?thesis by auto
qed

lemma cdiv_ge: "0 < b \<Longrightarrow> a \<le> cdiv a b * b"
  using cdiv_le_iff [of b a "cdiv a b"] by simp

lemma cdiv_nonneg: "0 \<le> a \<Longrightarrow> 0 < b \<Longrightarrow> 0 \<le> cdiv a b"
  by (simp add: cdiv_def pos_imp_zdiv_nonneg_iff)

lemma rounding_up [simp]:
  "0 \<le> a \<Longrightarrow> 0 \<le> b \<Longrightarrow> 0 < d \<Longrightarrow> mulDivRoundingUp a b d = Inr (cdiv (a * b) d)"
  "0 \<le> a \<Longrightarrow> 0 < b \<Longrightarrow> divRoundingUp a b = Inr (cdiv a b)"
  by (simp_all add: mulDivRoundingUp_def divRoundingUp_def cdiv_def Let_def)

definition amount0Up :: "int \<Rightarrow> int \<Rightarrow> int \<Rightarrow> int" where
  "amount0Up lo hi l = cdiv (cdiv (l * 2 ^ 96 * (hi - lo)) hi) lo"

definition amount1Up :: "int \<Rightarrow> int \<Rightarrow> int \<Rightarrow> int" where
  "amount1Up lo hi l = cdiv (l * (hi - lo)) Q96"

definition liquidity0 :: "int \<Rightarrow> int \<Rightarrow> int \<Rightarrow> int" where
  "liquidity0 lo hi x = x * (lo * hi div Q96) div (hi - lo)"

definition liquidity1 :: "int \<Rightarrow> int \<Rightarrow> int \<Rightarrow> int" where
  "liquidity1 lo hi y = y * Q96 div (hi - lo)"

lemma Q96_pos [simp]: "0 < Q96" "0 \<le> Q96"
  by (simp_all add: Q96_def)

lemma amountDelta_eq:
  assumes "0 < lo" "lo < hi" "0 \<le> l"
  shows "getAmount0Delta lo hi l True = Inr (amount0Up lo hi l)"
    "getAmount1Delta lo hi l True = Inr (amount1Up lo hi l)"
  using assms by (simp_all add: getAmount0Delta_def getAmount1Delta_def ordered_def amount0Up_def amount1Up_def
      push_bit_eq_mult cdiv_nonneg)

lemma forAmount_eq:
  assumes "0 < lo" "lo < hi" "0 \<le> x"
  shows "forAmount0 lo hi x = Inr (liquidity0 lo hi x)" "forAmount1 lo hi x = Inr (liquidity1 lo hi x)"
  using assms by (simp_all add: forAmount0_def forAmount1_def mulDiv_def liquidity0_def liquidity1_def
      pos_imp_zdiv_nonneg_iff)

lemma amounts_nonneg:
  assumes "0 < lo" "lo < hi" "0 \<le> l"
  shows "0 \<le> amount0Up lo hi l" "0 \<le> amount1Up lo hi l" "0 \<le> liquidity0 lo hi l" "0 \<le> liquidity1 lo hi l"
  using assms by (simp_all add: amount0Up_def amount1Up_def liquidity0_def liquidity1_def cdiv_nonneg
      pos_imp_zdiv_nonneg_iff)

lemma amount0_within:
  assumes "0 < lo" "lo < hi" "0 \<le> x" "l \<le> liquidity0 lo hi x"
  shows "amount0Up lo hi l \<le> x"
proof -
  let ?m = "lo * hi div Q96"
  have "l * (hi - lo) \<le> liquidity0 lo hi x * (hi - lo)" using assms by (intro mult_right_mono) auto
  also have "\<dots> \<le> x * ?m" unfolding liquidity0_def using assms(2) by (intro div_mult_le) simp
  finally have "l * (hi - lo) * Q96 \<le> x * (?m * Q96)" by (simp flip: mult.assoc)
  also have "\<dots> \<le> x * (lo * hi)" using assms(3) by (intro mult_left_mono div_mult_le) simp_all
  finally have "l * 2 ^ 96 * (hi - lo) \<le> x * lo * hi" by (simp add: Q96_def mult_ac)
  then show ?thesis using assms(1,2) by (simp add: amount0Up_def cdiv_le_iff)
qed

lemma amount1_within:
  assumes "lo < hi" "l \<le> liquidity1 lo hi y"
  shows "amount1Up lo hi l \<le> y"
proof -
  have "l * (hi - lo) \<le> liquidity1 lo hi y * (hi - lo)" using assms by (intro mult_right_mono) auto
  also have "\<dots> \<le> y * Q96" unfolding liquidity1_def using assms(1) by (intro div_mult_le) simp
  finally show ?thesis by (simp add: amount1Up_def cdiv_le_iff)
qed


lemma liquidity0_restored:
  assumes "0 < lo" "lo < hi" "0 \<le> l"
  shows "l - l * Q96 div (lo * hi) - 1 \<le> liquidity0 lo hi (amount0Up lo hi l)"
proof -
  let ?x = "amount0Up lo hi l" and ?m = "lo * hi div Q96" and ?d = "hi - lo" and ?e = "l * Q96 div (lo * hi)"
  have lh: "0 < lo * hi" using assms by simp
  have "l * 2 ^ 96 * ?d \<le> cdiv (l * 2 ^ 96 * ?d) hi * hi" using assms by (intro cdiv_ge) simp
  also have "\<dots> \<le> ?x * lo * hi"
    unfolding amount0Up_def using assms by (intro mult_right_mono cdiv_ge) simp_all
  finally have x: "l * Q96 * ?d \<le> ?x * (lo * hi)" by (simp add: Q96_def mult_ac)
  have m: "lo * hi - Q96 \<le> Q96 * ?m"
    using mult_div_mod_eq [of Q96 "lo * hi"] pos_mod_bound [of Q96 "lo * hi"] Q96_pos(1) by linarith
  have e: "l * Q96 \<le> (?e + 1) * (lo * hi)"
    using mult_div_mod_eq [of "lo * hi" "l * Q96"] pos_mod_bound [OF lh, of "l * Q96"] by (simp add: algebra_simps)
  have "(l - ?e - 1) * ?d * (lo * hi) = (l * (lo * hi) - (?e + 1) * (lo * hi)) * ?d" by (simp add: algebra_simps)
  also have "\<dots> \<le> l * (lo * hi - Q96) * ?d"
    using e assms by (intro mult_right_mono) (simp_all add: algebra_simps)
  also have "\<dots> \<le> l * (Q96 * ?m) * ?d" using m assms by (intro mult_right_mono mult_left_mono) simp_all
  also have "\<dots> = l * Q96 * ?d * ?m" by (simp add: mult_ac)
  also have "\<dots> \<le> ?x * (lo * hi) * ?m"
    using x assms by (intro mult_right_mono) (simp_all add: pos_imp_zdiv_nonneg_iff)
  finally have "(l - ?e - 1) * ?d * (lo * hi) \<le> ?x * ?m * (lo * hi)" by (simp add: mult_ac)
  then have "(l - ?e - 1) * ?d \<le> ?x * ?m" using lh by (simp add: mult_le_cancel_right)
  then have "(l - ?e - 1) * ?d div ?d \<le> ?x * ?m div ?d" using assms(2) by (intro zdiv_mono1) simp_all
  then show ?thesis using assms(2) unfolding liquidity0_def by simp
qed

lemma liquidity1_restored:
  assumes "lo < hi"
  shows "l \<le> liquidity1 lo hi (amount1Up lo hi l)"
proof -
  have "l * (hi - lo) \<le> amount1Up lo hi l * Q96" unfolding amount1Up_def by (rule cdiv_ge) simp
  then have "l * (hi - lo) div (hi - lo) \<le> amount1Up lo hi l * Q96 div (hi - lo)"
    using assms by (intro zdiv_mono1) simp_all
  then show ?thesis using assms unfolding liquidity1_def by simp
qed

text \<open>The two conversions on an ordered range, by where the price is.\<close>

lemma ordered_range:
  assumes "0 < a" "0 < b" "a \<noteq> b"
  obtains lo hi where "ordered a b = (lo, hi)" "0 < lo" "lo < hi"
  using assms by (cases "b < a") (auto simp: ordered_def)

lemma amounts_cases:
  assumes "ordered a b = (lo, hi)" "0 < lo" "lo < hi" "0 \<le> l"
  shows "getAmountsForLiquidity p a b l = Inr
    (if p \<le> lo then (amount0Up lo hi l, 0)
     else if p < hi then (amount0Up p hi l, amount1Up lo p l) else (0, amount1Up lo hi l))"
  using assms by (simp add: getAmountsForLiquidity_def amountDelta_eq)

lemma liquidity_cases:
  assumes "ordered a b = (lo, hi)" "0 < lo" "lo < hi" "0 \<le> x" "0 \<le> y"
  shows "getLiquidityForAmounts p a b x y = Inr
    (if p \<le> lo then liquidity0 lo hi x
     else if p < hi then min (liquidity0 p hi x) (liquidity1 lo p y) else liquidity1 lo hi y)"
  using assms by (auto simp: getLiquidityForAmounts_def forAmount_eq)

text \<open>
  C19. A mint never takes more than it is offered: for any range and price, the amounts that the
  liquidity of an offer is worth, rounded up as the code rounds them, are within the offer.
\<close>

theorem mint_within_offer:
  assumes "0 < a" "0 < b" "a \<noteq> b" "0 \<le> x" "0 \<le> y"
  shows "\<exists>l a0 a1. getLiquidityForAmounts p a b x y = Inr l \<and> 0 \<le> l
    \<and> getAmountsForLiquidity p a b l = Inr (a0, a1) \<and> a0 \<le> x \<and> a1 \<le> y"
proof -
  obtain lo hi where o: "ordered a b = (lo, hi)" "0 < lo" "lo < hi"
    using ordered_range assms(1-3) by blast
  let ?l = "if p \<le> lo then liquidity0 lo hi x
     else if p < hi then min (liquidity0 p hi x) (liquidity1 lo p y) else liquidity1 lo hi y"
  have nonneg: "0 \<le> ?l" using o assms amounts_nonneg by simp
  have "getLiquidityForAmounts p a b x y = Inr ?l" by (rule liquidity_cases [OF o assms(4,5)])
  moreover have "\<exists>a0 a1. getAmountsForLiquidity p a b ?l = Inr (a0, a1) \<and> a0 \<le> x \<and> a1 \<le> y"
    unfolding amounts_cases [OF o nonneg] using o assms amount0_within amount1_within by simp
  ultimately show ?thesis using nonneg by blast
qed

text \<open>
  Depth taken out and put back: minting with the amounts of a withdrawn liquidity restores all
  of it where the price is above the range, and otherwise all but at most
  \<open>liquidity * 2^96 / (lo * hi) + 1\<close>, with \<open>lo\<close> and \<open>hi\<close> the token0 side of the range at that price.
\<close>

theorem remint_restores:
  assumes "0 < a" "a < b" "0 \<le> l"
  shows "\<exists>a0 a1 l'. getAmountsForLiquidity p a b l = Inr (a0, a1)
    \<and> getLiquidityForAmounts p a b a0 a1 = Inr l'
    \<and> (if p < b then l - l * Q96 div (max p a * b) - 1 \<le> l' else l \<le> l')"
proof -
  have o: "ordered a b = (a, b)" using assms by (simp add: ordered_def)
  note am = amounts_cases [OF o assms, of p]
  have nonneg: "0 \<le> l * Q96 div (max p a * b)"
    using assms by (simp add: pos_imp_zdiv_nonneg_iff less_max_iff_disj)
  consider "p \<le> a" | "a < p" "p < b" | "b \<le> p" by linarith
  then show ?thesis
  proof cases
    case 1
    then show ?thesis
      using am liquidity_cases [OF o assms(1,2), of "amount0Up a b l" 0 p]
        amounts_nonneg assms liquidity0_restored [of a b l] by (simp add: max_absorb2)
  next
    case 2
    then show ?thesis
      using am liquidity_cases [OF o assms(1,2), of "amount0Up p b l" "amount1Up a p l" p]
        amounts_nonneg assms liquidity0_restored [of p b l] liquidity1_restored [of a p l] nonneg
      by (simp add: max_absorb1)
  next
    case 3
    then show ?thesis
      using am liquidity_cases [OF o assms(1,2), of 0 "amount1Up a b l" p]
        amounts_nonneg assms liquidity1_restored [of a b l] by simp
  qed
qed

text \<open>
  Rounding the amounts up does not always put the depth back: at the lowest tick the inner product
  of the liquidity formula rounds to nothing.
\<close>

lemma lowest_range_loses_depth:
  "getAmountsForLiquidity 4295128739 4295128739 4295343490 1000000 = Inr (922233075114983053272, 0)
   \<and> getLiquidityForAmounts 4295128739 4295128739 4295343490 922233075114983053272 0 = Inr 0"
  by code_simp

section \<open>Applied\<close>

lemma mint_within_offer_witness:
  "\<exists>l a0 a1. getLiquidityForAmounts (2 ^ 96 + 5) (2 ^ 96) (2 ^ 97) 1000 7 = Inr l \<and> 0 \<le> l
    \<and> getAmountsForLiquidity (2 ^ 96 + 5) (2 ^ 96) (2 ^ 97) l = Inr (a0, a1) \<and> a0 \<le> 1000 \<and> a1 \<le> 7"
  by (rule mint_within_offer) simp_all

lemma remint_restores_witness:
  "\<exists>a0 a1 l'. getAmountsForLiquidity (2 ^ 96) (2 ^ 95) (2 ^ 97) 1000 = Inr (a0, a1)
    \<and> getLiquidityForAmounts (2 ^ 96) (2 ^ 95) (2 ^ 97) a0 a1 = Inr l'
    \<and> (if (2 ^ 96 :: int) < 2 ^ 97 then 1000 - 1000 * Q96 div (max (2 ^ 96) (2 ^ 95) * 2 ^ 97) - 1 \<le> l' else 1000 \<le> l')"
  by (rule remint_restores) simp_all

end
