(* ===== verification/Fee_Auction.thy ===== *)
theory Fee_Auction
  imports Prelude
begin

text \<open>
  The fee auction: the participant fee rule (\<open>sdk/src/feeRule.ts\<close>) and the reading of a probe of
  the block builder's sort key (\<open>core/src/orderingKey.ts\<close>). The chain sorts a typed transaction by
  \<open>maxFeePerGas\<close> and charges the smaller of that and base fee plus tip; the rule makes the two agree.
\<close>

section \<open>The fee rule\<close>

record txFeeFields =
  tf_maxFeePerGas :: "int option"
  tf_maxPriorityFeePerGas :: "int option"
  tf_gasPrice :: "int option"

datatype feeField = MaxPriorityFeePerGas | MaxFeePerGas | GasPrice

datatype feeRuleBreach = MaxFeeAboveTip int int | OverCap feeField int int

definition participantFees :: "int \<Rightarrow> int \<Rightarrow> int \<Rightarrow> txFeeFields" where
  "participantFees bid baseFee cap =
     (let fee = baseFee + bid; fee = (if 0 < cap \<and> cap < fee then cap else fee)
      in \<lparr>tf_maxFeePerGas = Some fee, tf_maxPriorityFeePerGas = Some fee, tf_gasPrice = None\<rparr>)"

definition checkFeeRule :: "txFeeFields \<Rightarrow> int \<Rightarrow> feeRuleBreach option" where
  "checkFeeRule fees cap =
     (let maxFee = tf_maxFeePerGas fees
      in case tf_maxPriorityFeePerGas fees of
           Some tip \<Rightarrow>
             (case maxFee of
                Some m \<Rightarrow> if tip < m then Some (MaxFeeAboveTip m tip)
                          else if 0 < cap \<and> cap < tip then Some (OverCap MaxPriorityFeePerGas tip cap) else None
              | None \<Rightarrow> if 0 < cap \<and> cap < tip then Some (OverCap MaxPriorityFeePerGas tip cap) else None)
         | None \<Rightarrow>
             (case (case tf_gasPrice fees of Some g \<Rightarrow> Some g | None \<Rightarrow> maxFee) of
                Some price \<Rightarrow>
                  if 0 < cap \<and> cap < price
                  then Some (OverCap (if tf_gasPrice fees \<noteq> None then GasPrice else MaxFeePerGas) price cap)
                  else None
              | None \<Rightarrow> None))"

text \<open>A transaction as signed: typed with both fields, or legacy with its gas price.\<close>

definition typedFees :: "int \<Rightarrow> int \<Rightarrow> txFeeFields" where
  "typedFees maxFee tip = \<lparr>tf_maxFeePerGas = Some maxFee, tf_maxPriorityFeePerGas = Some tip, tf_gasPrice = None\<rparr>"

definition legacyFees :: "int \<Rightarrow> txFeeFields" where
  "legacyFees price = \<lparr>tf_maxFeePerGas = None, tf_maxPriorityFeePerGas = None, tf_gasPrice = Some price\<rparr>"

text \<open>What the chain sorts a typed transaction by, and what it charges for it.\<close>

definition paidPerGas :: "int \<Rightarrow> int \<Rightarrow> int \<Rightarrow> int" where
  "paidPerGas baseFee maxFee tip = min maxFee (baseFee + tip)"

text \<open>
  C20. The rule is exactly what makes the auction one: a typed transaction passes if and only if,
  whatever the base fee, it pays the very price it is ordered by, and its tip is under the cap; a
  legacy one if its price is under the cap. What the runtime signs always passes, and pays the
  bid over the base fee unless the cap clamps it.
\<close>

theorem fee_rule_exact:
  "(checkFeeRule (typedFees maxFee tip) cap = None \<longleftrightarrow>
     (\<forall>baseFee \<ge> 0. paidPerGas baseFee maxFee tip = maxFee) \<and> (0 < cap \<longrightarrow> tip \<le> cap))
   \<and> (checkFeeRule (legacyFees price) cap = None \<longleftrightarrow> (0 < cap \<longrightarrow> price \<le> cap))
   \<and> checkFeeRule (participantFees bid baseFee cap) cap = None
   \<and> tf_maxFeePerGas (participantFees bid baseFee cap) = Some (if 0 < cap then min cap (baseFee + bid) else baseFee + bid)"
proof -
  have "(\<forall>b \<ge> 0. paidPerGas b maxFee tip = maxFee) \<longleftrightarrow> maxFee \<le> tip"
  proof
    assume "\<forall>b \<ge> 0. paidPerGas b maxFee tip = maxFee"
    then have "paidPerGas 0 maxFee tip = maxFee" by blast
    then show "maxFee \<le> tip" by (simp add: paidPerGas_def)
  qed (simp add: paidPerGas_def)
  moreover have "checkFeeRule (typedFees maxFee tip) cap = None \<longleftrightarrow> maxFee \<le> tip \<and> (0 < cap \<longrightarrow> tip \<le> cap)"
    by (auto simp: checkFeeRule_def typedFees_def Let_def)
  moreover have "checkFeeRule (legacyFees price) cap = None \<longleftrightarrow> (0 < cap \<longrightarrow> price \<le> cap)"
    by (auto simp: checkFeeRule_def legacyFees_def Let_def)
  moreover have "checkFeeRule (participantFees bid baseFee cap) cap = None"
    by (auto simp: checkFeeRule_def participantFees_def Let_def)
  moreover have "tf_maxFeePerGas (participantFees bid baseFee cap) = Some (if 0 < cap then min cap (baseFee + bid) else baseFee + bid)"
    by (auto simp: participantFees_def Let_def)
  ultimately show ?thesis by simp
qed

lemma fee_rule_exact_witness:
  "\<not> ((\<forall>b \<ge> 0. paidPerGas b 7 (1 :: int) = 7) \<and> (0 < (5 :: int) \<longrightarrow> (1 :: int) \<le> 5))"
  using fee_rule_exact [of 7 1 5 3 4 0] by (simp add: checkFeeRule_def typedFees_def)

section \<open>Reading a probe of the sort key\<close>

datatype bidder = Honest | Overbid

record keyProbePair =
  kp_arrivedFirst :: bidder
  kp_ledBy :: bidder

datatype orderingKey = MaxFee | Paid | Arrival

datatype orderingVerdict = Verdict orderingKey | Ambiguous | Mixed | Inconclusive

definition probeStep :: "bool \<times> bool \<times> bool \<Rightarrow> keyProbePair \<Rightarrow> bool \<times> bool \<times> bool" where
  "probeStep holds p =
     (case holds of (maxFee, paid, arrival) \<Rightarrow>
       (maxFee \<and> kp_ledBy p = Overbid, paid \<and> kp_ledBy p = Honest, arrival \<and> kp_ledBy p = kp_arrivedFirst p))"

definition classifyOrderingKey :: "keyProbePair list \<Rightarrow> orderingVerdict \<times> orderingKey list" where
  "classifyOrderingKey pairs =
     (if pairs = [] then (Inconclusive, [])
      else (case foldl probeStep (True, True, True) pairs of (maxFee, paid, arrival) \<Rightarrow>
        (let consistent = (if maxFee then [MaxFee] else []) @ (if paid then [Paid] else []) @ (if arrival then [Arrival] else [])
         in if consistent = [] then (Mixed, [])
            else if length consistent = 1 then (Verdict (hd consistent), consistent)
            else (Ambiguous, consistent))))"

text \<open>What each hypothesis predicts of a pair.\<close>

fun predicts :: "orderingKey \<Rightarrow> keyProbePair \<Rightarrow> bool" where
  "predicts MaxFee p \<longleftrightarrow> kp_ledBy p = Overbid"
| "predicts Paid p \<longleftrightarrow> kp_ledBy p = Honest"
| "predicts Arrival p \<longleftrightarrow> kp_ledBy p = kp_arrivedFirst p"

lemma foldl_probeStep:
  "foldl probeStep (a, b, c) pairs =
     (a \<and> list_all (predicts MaxFee) pairs, b \<and> list_all (predicts Paid) pairs, c \<and> list_all (predicts Arrival) pairs)"
  by (induction pairs arbitrary: a b c) (simp_all add: probeStep_def)

text \<open>
  The verdict is sound and complete: the consistent keys are those whose prediction every pair
  bears out; a single one is named; and a probe that tried both arrival orders with one side always
  leading is never ambiguous.
\<close>

theorem classifyOrderingKey_exact:
  assumes "pairs \<noteq> []"
  shows "set (snd (classifyOrderingKey pairs)) = {k. list_all (predicts k) pairs}
    \<and> (fst (classifyOrderingKey pairs) = Verdict k \<longleftrightarrow> {k. list_all (predicts k) pairs} = {k})
    \<and> (fst (classifyOrderingKey pairs) = Mixed \<longleftrightarrow> {k. list_all (predicts k) pairs} = {})
    \<and> (kp_arrivedFirst ` set pairs = UNIV \<longrightarrow> fst (classifyOrderingKey pairs) \<noteq> Ambiguous)"
proof -
  obtain a b c where abc: "a = list_all (predicts MaxFee) pairs" "b = list_all (predicts Paid) pairs"
    "c = list_all (predicts Arrival) pairs" by blast
  have f: "foldl probeStep (True, True, True) pairs = (a, b, c)" by (simp add: foldl_probeStep abc)
  have ks: "{k. list_all (predicts k) pairs} = (if a then {MaxFee} else {}) \<union> (if b then {Paid} else {}) \<union> (if c then {Arrival} else {})"
    unfolding abc by (auto elim: predicts.elims) (metis orderingKey.exhaust)+
  have ab: "\<not> (a \<and> b)" using assms by (cases pairs) (auto simp: abc)
  have "\<not> (a \<and> c)" "\<not> (b \<and> c)" if u: "kp_arrivedFirst ` set pairs = UNIV"
  proof -
    obtain p q where pq: "p \<in> set pairs" "kp_arrivedFirst p = Honest" "q \<in> set pairs" "kp_arrivedFirst q = Overbid"
      using u by (metis UNIV_I imageE)
    then show "\<not> (a \<and> c)" "\<not> (b \<and> c)" unfolding abc list_all_iff predicts.simps by (metis bidder.distinct(1))+
  qed
  then show ?thesis
    unfolding ks classifyOrderingKey_def f using assms ab by (cases a; cases b; cases c; cases k) (auto simp: Let_def)
qed

lemma classifyOrderingKey_exact_witness:
  "fst (classifyOrderingKey [\<lparr>kp_arrivedFirst = Honest, kp_ledBy = Overbid\<rparr>, \<lparr>kp_arrivedFirst = Overbid, kp_ledBy = Overbid\<rparr>]) \<noteq> Ambiguous"
proof -
  have "UNIV = {Honest, Overbid}" by (auto intro: bidder.exhaust)
  then show ?thesis
    using classifyOrderingKey_exact [of "[\<lparr>kp_arrivedFirst = Honest, kp_ledBy = Overbid\<rparr>, \<lparr>kp_arrivedFirst = Overbid, kp_ledBy = Overbid\<rparr>]"]
    by simp
qed

end
