(* ===== verification/Matrix_Standings.thy ===== *)
theory Matrix_Standings
  imports Ranking Formatting
begin

text \<open>
  The standings of a scenario matrix (\<open>core/src/backtest/standings.ts\<close>): run summaries mapped onto the
  input of \<open>scoreCompetition\<close> and its result mapped back, with the flags, the benchmarks' P and the
  scenario of each epoch. Of an agent's score the fields the arithmetic reads are modelled; the
  others are carried through matrix.json untouched.
\<close>

record agentScore =
  as_id :: string
  as_pnlUsdc :: "jsnum option"
  as_baseline :: bool
  as_participant :: "string option"
  as_flags :: "string list"

record scenarioResult =
  sr_s :: real
  sr_regime :: string
  sr_seed :: int
  sr_agents :: "agentScore list option"
  sr_runDir :: "string option"
  sr_error :: "string option"
  sr_flags :: "string list"

record epochStanding =
  es_epoch :: epochResult
  es_regime :: string
  es_seed :: int
  es_runDir :: "string option"
  es_flags :: "string list"

record agentStanding =
  at_agent :: agentResult
  at_flags :: "string list"
  at_participant :: "string option"

record standings =
  st_k :: real
  st_S :: "real list"
  st_epochs :: "epochStanding list"
  st_agents :: "agentStanding list"
  st_benchmarks :: "(string \<times> (real \<times> jsnum) list) list"

text \<open>The scorer's errors, and the exception of reading a scenario that is not there.\<close>

datatype standings_error = ScoreError score_error | NoScenario real

definition scenarioId :: "string \<Rightarrow> int \<Rightarrow> string" where
  "scenarioId regime seed = regime @ ''#'' @ decimalInt seed"

text \<open>Only built once the scorer has accepted the ordinals, so they are integers.\<close>

definition epochFlagPrefix :: "real \<Rightarrow> string" where
  "epochFlagPrefix s = ''s='' @ decimalInt \<lfloor>s\<rfloor> @ '': ''"

definition agentsOf :: "scenarioResult \<Rightarrow> agentScore list" where
  "agentsOf r = (case sr_agents r of None \<Rightarrow> [] | Some as \<Rightarrow> as)"

definition placeAgent :: "(string \<times> jsnum) list \<times> string list \<Rightarrow> agentScore \<Rightarrow> (string \<times> jsnum) list \<times> string list" where
  "placeAgent = (\<lambda>(pnlByAgent, benchmarkIds) a.
     (case as_pnlUsdc a of
        None \<Rightarrow> (pnlByAgent, benchmarkIds)
      | Some p \<Rightarrow> (AList.update (as_id a) p pnlByAgent, if as_baseline a then benchmarkIds @ [as_id a] else benchmarkIds)))"

definition epochOf :: "scenarioResult \<Rightarrow> epochInput" where
  "epochOf r =
     (if agentsOf r = []
      then \<lparr>ei_s = sr_s r, ei_pnlByAgent = [], ei_benchmarkIds = [],
            ei_invalid = Some (case sr_error r of Some e \<Rightarrow> e | None \<Rightarrow> ''no summary.json'')\<rparr>
      else (case foldl placeAgent ([], []) (agentsOf r) of (pnlByAgent, benchmarkIds) \<Rightarrow>
        \<lparr>ei_s = sr_s r, ei_pnlByAgent = pnlByAgent, ei_benchmarkIds = benchmarkIds, ei_invalid = None\<rparr>))"

definition pushFlag :: "real \<Rightarrow> string \<Rightarrow> (string \<times> string list) list \<Rightarrow> string \<Rightarrow> (string \<times> string list) list" where
  "pushFlag s aid m f = AList.update aid (getOr [] m aid @ [epochFlagPrefix s @ f]) m"

definition flagsByAgent :: "scenarioResult list \<Rightarrow> (string \<times> string list) list" where
  "flagsByAgent results =
     foldl (\<lambda>m r. foldl (\<lambda>m a. foldl (pushFlag (sr_s r) (as_id a)) m (as_flags a)) m (agentsOf r)) [] results"

definition participantByAgent :: "scenarioResult list \<Rightarrow> (string \<times> string) list" where
  "participantByAgent results =
     foldl (\<lambda>m a. case as_participant a of None \<Rightarrow> m | Some p \<Rightarrow> AList.update (as_id a) p m) []
       (concat (map agentsOf results))"

definition pushBenchmark ::
    "real \<Rightarrow> (string \<times> (real \<times> jsnum) list) list \<Rightarrow> agentScore \<Rightarrow> (string \<times> (real \<times> jsnum) list) list" where
  "pushBenchmark s m a =
     (case as_pnlUsdc a of
        Some p \<Rightarrow> if as_baseline a then AList.update (as_id a) (AList.update s p (getOr [] m (as_id a))) m else m
      | None \<Rightarrow> m)"

definition benchmarkPnl :: "scenarioResult list \<Rightarrow> (string \<times> (real \<times> jsnum) list) list" where
  "benchmarkPnl results = foldl (\<lambda>m r. foldl (pushBenchmark (sr_s r)) m (agentsOf r)) [] results"

definition byOrdinal :: "scenarioResult list \<Rightarrow> (real \<times> scenarioResult) list" where
  "byOrdinal results = foldl (\<lambda>m r. AList.update (sr_s r) r m) [] results"

definition epochRow :: "scenarioResult list \<Rightarrow> epochResult \<Rightarrow> standings_error + epochStanding" where
  "epochRow results e =
     (case map_of (byOrdinal results) (er_s e) of
        None \<Rightarrow> Inl (NoScenario (er_s e))
      | Some r \<Rightarrow> Inr \<lparr>es_epoch = e, es_regime = sr_regime r, es_seed = sr_seed r, es_runDir = sr_runDir r, es_flags = sr_flags r\<rparr>)"

definition competitionOf :: "scenarioResult list \<Rightarrow> real \<Rightarrow> competitionInput" where
  "competitionOf results k = \<lparr>ci_epochs = map epochOf results, ci_k = k, ci_submittedAt = [], ci_weighting = Linear\<rparr>"

definition computeStandings ::
    "(string \<Rightarrow> string \<Rightarrow> int) \<Rightarrow> scenarioResult list \<Rightarrow> real \<Rightarrow> standings_error + standings" where
  "computeStandings lc results k =
     (case scoreCompetition lc (competitionOf results k) of
        Inl e \<Rightarrow> Inl (ScoreError e)
      | Inr scored \<Rightarrow>
          bindR (mapR (epochRow results) (cr_epochs scored)) (\<lambda>epochs.
            Inr \<lparr>st_k = k, st_S = cr_S scored, st_epochs = epochs,
                 st_agents = map (\<lambda>a. \<lparr>at_agent = a, at_flags = getOr [] (flagsByAgent results) (ag_id a),
                                       at_participant = map_of (participantByAgent results) (ag_id a)\<rparr>) (cr_agents scored),
                 st_benchmarks = benchmarkPnl results\<rparr>))"

section \<open>The input handed to the scorer\<close>

lemma epochOf_s [simp]: "ei_s (epochOf r) = sr_s r"
  by (simp add: epochOf_def split: prod.splits)

lemma map_epochOf_s [simp]: "map ei_s (map epochOf rs) = map sr_s rs"
  by simp

lemma placeAgent_eq [simp]:
  "placeAgent (ps, bs) a =
     (case as_pnlUsdc a of None \<Rightarrow> (ps, bs)
      | Some p \<Rightarrow> (AList.update (as_id a) p ps, if as_baseline a then bs @ [as_id a] else bs))"
  by (simp add: placeAgent_def)

lemma foldl_placeAgent:
  "foldl placeAgent (ps, bs) as = (ps', bs') \<Longrightarrow>
     set (keys ps') = set (keys ps) \<union> {as_id a | a. a \<in> set as \<and> as_pnlUsdc a \<noteq> None}
     \<and> set bs' = set bs \<union> {as_id a | a. a \<in> set as \<and> as_pnlUsdc a \<noteq> None \<and> as_baseline a}"
proof (induction as arbitrary: ps bs)
  case (Cons a as)
  then show ?case by (cases "as_pnlUsdc a") (auto split: if_splits)
qed simp

text \<open>Who competes in a scenario: a placed agent not placed as a baseline.\<close>

definition competes :: "scenarioResult \<Rightarrow> string \<Rightarrow> bool" where
  "competes r aid \<longleftrightarrow> (\<exists>a \<in> set (agentsOf r). as_id a = aid \<and> as_pnlUsdc a \<noteq> None)
     \<and> (\<nexists>a. a \<in> set (agentsOf r) \<and> as_id a = aid \<and> as_pnlUsdc a \<noteq> None \<and> as_baseline a)"

lemma fieldOf_epochOf: "set (fieldOf (epochOf r)) = {aid. competes r aid}"
proof (cases "agentsOf r = []")
  case True
  then show ?thesis by (simp add: epochOf_def fieldOf_def competes_def)
next
  case False
  obtain ps bs where f: "foldl placeAgent ([], []) (agentsOf r) = (ps, bs)" by fastforce
  have "set (fieldOf (epochOf r)) = set (keys ps) - set bs"
    using False by (auto simp: epochOf_def f fieldOf_def)
  then show ?thesis using foldl_placeAgent [OF f] by (auto simp: competes_def) (metis option.distinct(1))
qed

section \<open>What is mapped back\<close>

definition flagsRaised :: "scenarioResult list \<Rightarrow> string \<Rightarrow> string list" where
  "flagsRaised results aid =
     concat (map (\<lambda>r. concat (map (\<lambda>a. if as_id a = aid then map (\<lambda>f. epochFlagPrefix (sr_s r) @ f) (as_flags a) else [])
       (agentsOf r))) results)"

lemma foldl_pushFlag:
  "getOr [] (foldl (pushFlag s a) m fs) aid = getOr [] m aid @ (if a = aid then map (\<lambda>f. epochFlagPrefix s @ f) fs else [])"
  by (induction fs arbitrary: m) (auto simp: pushFlag_def)

lemma foldl_appends:
  assumes "\<And>m x. getOr [] (g m x) aid = getOr [] m aid @ h x"
  shows "getOr [] (foldl g m xs) aid = getOr [] m aid @ concat (map h xs)"
  by (induction xs arbitrary: m) (simp_all add: assms)

lemma flagsByAgent_get: "getOr [] (flagsByAgent results) aid = flagsRaised results aid"
proof -
  let ?g = "\<lambda>r m a. foldl (pushFlag (sr_s r) (as_id a)) m (as_flags a)"
  let ?h = "\<lambda>r a. if as_id a = aid then map (\<lambda>f. epochFlagPrefix (sr_s r) @ f) (as_flags a) else []"
  have one: "getOr [] (foldl (?g r) m (agentsOf r)) aid = getOr [] m aid @ concat (map (?h r) (agentsOf r))" for r m
    by (rule foldl_appends) (rule foldl_pushFlag)
  have "getOr [] (flagsByAgent results) aid = getOr [] [] aid @ concat (map (\<lambda>r. concat (map (?h r) (agentsOf r))) results)"
    unfolding flagsByAgent_def by (rule foldl_appends) (rule one)
  then show ?thesis by (simp add: flagsRaised_def)
qed

lemma foldl_byOrdinal:
  "distinct (map sr_s rs) \<Longrightarrow> sr_s ` set rs \<inter> set (keys m) = {} \<Longrightarrow>
   map_of (foldl (\<lambda>m r. AList.update (sr_s r) r m) m rs) s = (case find (\<lambda>r. sr_s r = s) rs of Some r \<Rightarrow> Some r | None \<Rightarrow> map_of m s)"
proof (induction rs arbitrary: m)
  case (Cons r rs)
  have no: "find (\<lambda>x. sr_s x = sr_s r) rs = None" using Cons.prems(1) unfolding find_None_iff by (auto simp: image_iff)
  have "map_of (foldl (\<lambda>m r. AList.update (sr_s r) r m) (AList.update (sr_s r) r m) rs) s
    = (case find (\<lambda>r. sr_s r = s) rs of Some r \<Rightarrow> Some r | None \<Rightarrow> map_of (AList.update (sr_s r) r m) s)"
    using Cons.prems by (intro Cons.IH) auto
  then show ?case using no by (auto split: option.splits)
qed simp

lemma byOrdinal_get: "distinct (map sr_s rs) \<Longrightarrow> r \<in> set rs \<Longrightarrow> map_of (byOrdinal rs) (sr_s r) = Some r"
  unfolding byOrdinal_def using foldl_byOrdinal [of rs "[]" "sr_s r"] find_by_key [of sr_s rs r] by simp

definition benchmarked :: "scenarioResult \<Rightarrow> string \<Rightarrow> jsnum option" where
  "benchmarked r aid =
     (case filter (\<lambda>a. as_id a = aid \<and> as_baseline a \<and> as_pnlUsdc a \<noteq> None) (agentsOf r) of
        [] \<Rightarrow> None | as \<Rightarrow> as_pnlUsdc (last as))"

lemma foldl_pushBenchmark:
  "map_of (getOr [] (foldl (pushBenchmark s) m as) aid) s' =
     (if s' = s then (case filter (\<lambda>a. as_id a = aid \<and> as_baseline a \<and> as_pnlUsdc a \<noteq> None) as of
                        [] \<Rightarrow> map_of (getOr [] m aid) s | xs \<Rightarrow> as_pnlUsdc (last xs))
      else map_of (getOr [] m aid) s')"
proof (induction as arbitrary: m)
  case (Cons a as)
  show ?case
  proof (cases "as_baseline a \<and> as_pnlUsdc a \<noteq> None")
    case True
    then obtain p where p: "as_pnlUsdc a = Some p" "as_baseline a" by auto
    then show ?thesis
      unfolding foldl_Cons Cons.IH by (auto simp: pushBenchmark_def split: list.splits)
  next
    case False
    then have "pushBenchmark s m a = m" by (auto simp: pushBenchmark_def split: option.splits)
    then show ?thesis using False by (auto simp: Cons.IH)
  qed
qed simp

lemma benchmarkPnl_get:
  assumes "distinct (map sr_s results)" "r \<in> set results"
  shows "map_of (getOr [] (benchmarkPnl results) aid) (sr_s r) = benchmarked r aid"
proof -
  have other: "map_of (getOr [] (foldl (\<lambda>m r. foldl (pushBenchmark (sr_s r)) m (agentsOf r)) m rs) aid) s
    = map_of (getOr [] m aid) s" if "s \<notin> sr_s ` set rs" for rs s m
    using that by (induction rs arbitrary: m) (auto simp: foldl_pushBenchmark)
  obtain xs ys where xy: "results = xs @ r # ys" using assms(2) by (meson split_list)
  then have "sr_s r \<notin> sr_s ` set xs" "sr_s r \<notin> sr_s ` set ys" using assms(1) by auto
  then show ?thesis
    unfolding benchmarkPnl_def xy by (simp add: other foldl_pushBenchmark benchmarked_def split: list.splits)
qed


section \<open>The standings\<close>

definition rowFor :: "scenarioResult list \<Rightarrow> real \<Rightarrow> epochResult \<Rightarrow> epochStanding \<Rightarrow> bool" where
  "rowFor results k e row \<longleftrightarrow> es_epoch row = e \<and> (\<exists>r \<in> set results. er_s e = sr_s r \<and> es_regime row = sr_regime r
     \<and> es_seed row = sr_seed r \<and> es_runDir row = sr_runDir r \<and> es_flags row = sr_flags r \<and> scoreEpoch (epochOf r) k Linear = Inr e)"

lemma epochRows_found:
  assumes "scoreCompetition lc (competitionOf results k) = Inr scored"
  obtains es where "mapR (epochRow results) (cr_epochs scored) = Inr es"
    "list_all2 (rowFor results k) (cr_epochs scored) es"
proof -
  from assms have dist: "distinct (map sr_s results)"
    by (rule scoreCompetitionE) (simp add: competitionOf_def comp_def)
  have "\<exists>row. epochRow results e = Inr row \<and> rowFor results k e row" if mem: "e \<in> set (cr_epochs scored)" for e
  proof -
    obtain x where x: "x \<in> set (ci_epochs (competitionOf results k))"
      "scoreEpoch x (ci_k (competitionOf results k)) (ci_weighting (competitionOf results k)) = Inr e"
      by (rule epoch_of_result [OF assms mem])
    then obtain r where r: "r \<in> set results" "scoreEpoch (epochOf r) k Linear = Inr e"
      by (auto simp: competitionOf_def)
    then have "er_s e = sr_s r" using scoreEpoch_record(1) by fastforce
    then show ?thesis using r byOrdinal_get [OF dist r(1)] by (auto simp: epochRow_def rowFor_def)
  qed
  then obtain f where f: "\<And>e. e \<in> set (cr_epochs scored) \<Longrightarrow> epochRow results e = Inr (f e)"
    "\<And>e. e \<in> set (cr_epochs scored) \<Longrightarrow> rowFor results k e (f e)"
    by metis
  show thesis
  proof (rule that)
    show "mapR (epochRow results) (cr_epochs scored) = Inr (map f (cr_epochs scored))"
      using f(1) by (rule mapR_Inr_map)
    show "list_all2 (rowFor results k) (cr_epochs scored) (map f (cr_epochs scored))"
      by (simp add: list_all2_conv_all_nth f(2))
  qed
qed

lemma computeStandings_Inl:
  "computeStandings lc results k = Inl e \<longleftrightarrow> (\<exists>e'. scoreCompetition lc (competitionOf results k) = Inl e' \<and> e = ScoreError e')"
proof (cases "scoreCompetition lc (competitionOf results k)")
  case (Inr scored)
  obtain es where "mapR (epochRow results) (cr_epochs scored) = Inr es" by (rule epochRows_found [OF Inr])
  then show ?thesis by (simp add: computeStandings_def Inr)
qed (auto simp: computeStandings_def)

text \<open>The participant an agent was last recorded under.\<close>

definition participantOf :: "scenarioResult list \<Rightarrow> string \<Rightarrow> string option" where
  "participantOf results aid =
     (case filter (\<lambda>a. as_id a = aid \<and> as_participant a \<noteq> None) (concat (map agentsOf results)) of
        [] \<Rightarrow> None | as \<Rightarrow> as_participant (last as))"

lemma participantByAgent_get: "map_of (participantByAgent results) aid = participantOf results aid"
proof -
  have "map_of (foldl (\<lambda>m a. case as_participant a of None \<Rightarrow> m | Some p \<Rightarrow> AList.update (as_id a) p m) m as) aid =
      (case filter (\<lambda>a. as_id a = aid \<and> as_participant a \<noteq> None) as of
         [] \<Rightarrow> map_of m aid | xs \<Rightarrow> as_participant (last xs))" for m as
    by (induction as arbitrary: m) (auto split: option.splits list.splits)
  from this [of "[]" "concat (map agentsOf results)"] show ?thesis
    unfolding participantByAgent_def participantOf_def by (simp only: map_of.simps)
qed

lemma computeStandingsE:
  assumes "computeStandings lc results k = Inr st"
  obtains scored where "scoreCompetition lc (competitionOf results k) = Inr scored"
    "map at_agent (st_agents st) = cr_agents scored" "st_benchmarks st = benchmarkPnl results"
    "\<forall>a \<in> set (st_agents st). at_flags a = flagsRaised results (ag_id (at_agent a))
      \<and> at_participant a = participantOf results (ag_id (at_agent a))"
    "list_all2 (rowFor results k) (cr_epochs scored) (st_epochs st)" "st_S st = cr_S scored" "st_k st = k"
proof -
  from assms obtain scored where sc: "scoreCompetition lc (competitionOf results k) = Inr scored"
    by (auto simp: computeStandings_def split: sum.splits)
  obtain es where es: "mapR (epochRow results) (cr_epochs scored) = Inr es"
    "list_all2 (rowFor results k) (cr_epochs scored) es"
    by (rule epochRows_found [OF sc])
  with assms sc have st: "st_epochs st = es" "st_benchmarks st = benchmarkPnl results"
    "st_agents st = map (\<lambda>a. \<lparr>at_agent = a, at_flags = getOr [] (flagsByAgent results) (ag_id a),
        at_participant = map_of (participantByAgent results) (ag_id a)\<rparr>) (cr_agents scored)"
    "st_S st = cr_S scored" "st_k st = k"
    by (auto simp: computeStandings_def)
  show thesis
    by (rule that [OF sc]) (use es in \<open>simp_all add: st comp_def flagsByAgent_get participantByAgent_get\<close>)
qed

lemma rows_of_scenarios:
  assumes "scoreCompetition lc (competitionOf results k) = Inr scored"
    "list_all2 (rowFor results k) (cr_epochs scored) rows"
  shows "map es_epoch rows = cr_epochs scored" "mset (map (er_s \<circ> es_epoch) rows) = mset (map sr_s results)"
proof -
  show eq: "map es_epoch rows = cr_epochs scored"
    using assms(2) by (induction rule: list_all2_induct) (auto simp: rowFor_def)
  have "list_all2 (\<lambda>e x. scoreEpoch e k Linear = Inr x) (epochOrder (competitionOf results k)) (cr_epochs scored)"
    using assms(1) by (rule scoreCompetitionE) (simp add: competitionOf_def)
  then have "map ei_s (epochOrder (competitionOf results k)) = map er_s (cr_epochs scored)"
    by (induction rule: list_all2_induct) (auto dest: scoreEpoch_record(1))
  then have "mset (map er_s (cr_epochs scored)) = image_mset ei_s (mset (epochOrder (competitionOf results k)))"
    by (metis mset_map)
  also have "\<dots> = mset (map sr_s results)"
    by (simp add: epochOrder_def competitionOf_def multiset.map_comp comp_def)
  finally show "mset (map (er_s \<circ> es_epoch) rows) = mset (map sr_s results)"
    using eq by (metis map_map)
qed

text \<open>
  C14. Standings exist exactly when the scorer accepts the matrix; a refusal is the scorer's own, so a
  scenario's row is always found again by its ordinal. Then the epochs, the agents and the counted
  ordinals are the scorer's, in its order; there is one row for every scenario, counted or excluded,
  carrying the regime, seed, directory and flags of the scenario of its ordinal; the agents ranked are
  those that competed in some scenario, each once, with every flag it ever raised in order and the
  participant it was last recorded under; and the benchmarks show exactly the P of the agents placed
  as baselines.
\<close>

theorem computeStandings_rows:
  "case computeStandings lc results k of
     Inl e \<Rightarrow> \<exists>e'. scoreCompetition lc (competitionOf results k) = Inl e' \<and> e = ScoreError e'
   | Inr st \<Rightarrow> \<exists>scored. scoreCompetition lc (competitionOf results k) = Inr scored
       \<and> map es_epoch (st_epochs st) = cr_epochs scored \<and> map at_agent (st_agents st) = cr_agents scored
       \<and> st_S st = cr_S scored \<and> st_k st = k
       \<and> mset (map (er_s \<circ> es_epoch) (st_epochs st)) = mset (map sr_s results)
       \<and> list_all (\<lambda>row. \<exists>r \<in> set results. er_s (es_epoch row) = sr_s r \<and> es_regime row = sr_regime r
         \<and> es_seed row = sr_seed r \<and> es_runDir row = sr_runDir r \<and> es_flags row = sr_flags r
         \<and> scoreEpoch (epochOf r) k Linear = Inr (es_epoch row)) (st_epochs st)
       \<and> distinct (map (ag_id \<circ> at_agent) (st_agents st))
       \<and> set (map (ag_id \<circ> at_agent) (st_agents st)) = {aid. \<exists>r \<in> set results. competes r aid}
       \<and> list_all (\<lambda>a. at_flags a = flagsRaised results (ag_id (at_agent a))
         \<and> at_participant a = participantOf results (ag_id (at_agent a))) (st_agents st)
       \<and> list_all (\<lambda>r. \<forall>aid. map_of (getOr [] (st_benchmarks st) aid) (sr_s r) = benchmarked r aid) results"
proof (cases "computeStandings lc results k")
  case (Inl e)
  then show ?thesis using computeStandings_Inl [THEN iffD1, OF Inl] by (simp only: Inl sum.case)
next
  case (Inr st)
  obtain scored where s: "scoreCompetition lc (competitionOf results k) = Inr scored"
    "map at_agent (st_agents st) = cr_agents scored" "st_benchmarks st = benchmarkPnl results"
    "\<forall>a \<in> set (st_agents st). at_flags a = flagsRaised results (ag_id (at_agent a))
      \<and> at_participant a = participantOf results (ag_id (at_agent a))"
    "list_all2 (rowFor results k) (cr_epochs scored) (st_epochs st)" "st_S st = cr_S scored" "st_k st = k"
    by (rule computeStandingsE [OF Inr])
  from s(1) have dist: "distinct (map sr_s results)"
    by (rule scoreCompetitionE) (simp add: competitionOf_def comp_def)
  have ids: "map (ag_id \<circ> at_agent) (st_agents st) = map ag_id (cr_agents scored)"
    unfolding s(2) [symmetric] by simp
  have "\<forall>row \<in> set (st_epochs st). rowFor results k (es_epoch row) row"
    using list_all2_right [OF s(5)] by (fastforce simp: rowFor_def)
  then have rows: "list_all (\<lambda>row. \<exists>r \<in> set results. er_s (es_epoch row) = sr_s r \<and> es_regime row = sr_regime r
         \<and> es_seed row = sr_seed r \<and> es_runDir row = sr_runDir r \<and> es_flags row = sr_flags r
         \<and> scoreEpoch (epochOf r) k Linear = Inr (es_epoch row)) (st_epochs st)"
    by (auto simp: list_all_iff rowFor_def)
  have field: "distinct (map ag_id (cr_agents scored))"
    "set (map ag_id (cr_agents scored)) = {aid. \<exists>r \<in> set results. competes r aid}"
    using field_of_result [OF s(1)] by (auto simp: competitionOf_def fieldOf_epochOf)
  have bench: "list_all (\<lambda>r. \<forall>aid. map_of (getOr [] (st_benchmarks st) aid) (sr_s r) = benchmarked r aid) results"
    using benchmarkPnl_get [OF dist] by (auto simp: list_all_iff s(3))
  show ?thesis unfolding Inr sum.case ids
    by (intro exI [of _ scored] conjI s(1,2,6,7) rows field bench rows_of_scenarios [OF s(1,5)])
      (use s(4) in \<open>simp add: list_all_iff\<close>)
qed

end
