(* ===== verification/Matrix_Resume.thy ===== *)
theory Matrix_Resume
  imports Matrix_Standings
begin

text \<open>
  Continuing a stored scenario matrix (\<open>core/src/backtest/resume.ts\<close>): what makes the stored matrix a
  different competition, the merge of its results into the plan, and the agent state an ordinal
  starts from. The problems are data instead of messages. Path resolution is the parameter
  \<open>resolve\<close>; reading the file (\<open>readStoredMatrix\<close>) is left out.
\<close>

section \<open>The same competition\<close>

record storedMatrix =
  sm_scenarioSet :: "string option"
  sm_k :: "real option"
  sm_resetUnit :: "string option"
  sm_repeat :: "real option"
  sm_agentStateRoot :: "string option"
  sm_rosterFingerprint :: "string option"
  sm_scenarioKeyCommitment :: "string option"
  sm_scenarioStreams :: "string option"

record resumeTarget =
  rt_scenarioSet :: string
  rt_k :: real
  rt_resetUnit :: string
  rt_repeat :: real
  rt_agentStateRoot :: "string option"
  rt_rosterFingerprint :: "string option"
  rt_scenarioKeyCommitment :: "string option"
  rt_scenarioStreams :: "string option"

datatype resumeProblem =
    OtherScenarioSet | OtherK | OtherResetUnit | OtherRepeat | OtherStateRoot | OtherRoster
  | KeyPredates | OtherKey | StreamsPredate | OtherStreams

definition problemIf :: "bool \<Rightarrow> 'a \<Rightarrow> 'a list" where
  "problemIf c p = (if c then [p] else [])"

definition resumeProblems :: "(string \<Rightarrow> string) \<Rightarrow> storedMatrix \<Rightarrow> resumeTarget \<Rightarrow> resumeProblem list" where
  "resumeProblems resolve stored current =
     problemIf (case sm_scenarioSet stored of None \<Rightarrow> True | Some p \<Rightarrow> resolve p \<noteq> resolve (rt_scenarioSet current)) OtherScenarioSet
     @ problemIf (sm_k stored \<noteq> Some (rt_k current)) OtherK
     @ problemIf (sm_resetUnit stored \<noteq> Some (rt_resetUnit current)) OtherResetUnit
     @ problemIf ((case sm_repeat stored of None \<Rightarrow> 1 | Some r \<Rightarrow> r) \<noteq> rt_repeat current) OtherRepeat
     @ problemIf (map_option resolve (sm_agentStateRoot stored) \<noteq> map_option resolve (rt_agentStateRoot current)) OtherStateRoot
     @ problemIf (sm_rosterFingerprint stored \<noteq> None \<and> rt_rosterFingerprint current \<noteq> None
         \<and> sm_rosterFingerprint stored \<noteq> rt_rosterFingerprint current) OtherRoster
     @ (case rt_scenarioKeyCommitment current of
          None \<Rightarrow> []
        | Some c \<Rightarrow> (case sm_scenarioKeyCommitment stored of
             None \<Rightarrow> [KeyPredates]
           | Some c' \<Rightarrow> problemIf (c' \<noteq> c) OtherKey))
     @ (if rt_scenarioStreams current \<noteq> None \<and> sm_scenarioStreams stored \<noteq> rt_scenarioStreams current
        then [if sm_scenarioStreams stored = None then StreamsPredate else OtherStreams] else [])"

datatype resume_error =
    DifferentCompetition "resumeProblem list"
  | NotInPlan real
  | ScenarioChanged real
  | StoredTwice real

definition assertResumable :: "(string \<Rightarrow> string) \<Rightarrow> storedMatrix \<Rightarrow> resumeTarget \<Rightarrow> resume_error + unit" where
  "assertResumable resolve stored current =
     (let problems = resumeProblems resolve stored current
      in throwIf (problems \<noteq> []) (DifferentCompetition problems) (Inr ()))"

section \<open>The merge\<close>

record planned =
  pl_s :: real
  pl_regime :: string
  pl_seed :: int

record resumePlan =
  rp_preloaded :: "scenarioResult list"
  rp_complete :: "real list"
  rp_rerun :: "real list"

definition mergeStep ::
    "(real \<times> planned) list \<Rightarrow> scenarioResult list \<times> real list \<Rightarrow> scenarioResult \<Rightarrow> resume_error + (scenarioResult list \<times> real list)" where
  "mergeStep plannedAt = (\<lambda>(preloaded, finished) r.
     (case map_of plannedAt (sr_s r) of
        None \<Rightarrow> Inl (NotInPlan (sr_s r))
      | Some p \<Rightarrow>
          throwIf (pl_regime p \<noteq> sr_regime r \<or> pl_seed p \<noteq> sr_seed r) (ScenarioChanged (sr_s r))
            (if agentsOf r \<noteq> []
             then throwIf (sr_s r \<in> set finished) (StoredTwice (sr_s r))
                    (Inr (preloaded @ [r], finished @ [sr_s r]))
             else Inr (preloaded, finished))))"

definition mergeStoredResults :: "planned list \<Rightarrow> scenarioResult list \<Rightarrow> resume_error + resumePlan" where
  "mergeStoredResults plan stored =
     (let plannedAt = foldl (\<lambda>m p. AList.update (pl_s p) p m) [] plan
      in bindR (foldR (mergeStep plannedAt) ([], []) stored) (\<lambda>(preloaded, finished).
           Inr \<lparr>rp_preloaded = preloaded, rp_complete = finished,
                rp_rerun = map pl_s (filter (\<lambda>p. pl_s p \<notin> set finished) plan)\<rparr>))"

section \<open>The state an ordinal starts from\<close>

definition stateLabelInitial :: string where
  "stateLabelInitial = ''initial''"

definition stateLabelAfter :: "nat \<Rightarrow> string" where
  "stateLabelAfter s = ''end-s'' @ decimal s"

definition latestBelow :: "nat \<Rightarrow> nat list \<Rightarrow> nat option" where
  "latestBelow s finished =
     foldl (\<lambda>latest d. if d < s \<and> (case latest of None \<Rightarrow> True | Some l \<Rightarrow> l < d) then Some d else latest) None finished"

definition stateLabelBefore :: "nat \<Rightarrow> nat list \<Rightarrow> string" where
  "stateLabelBefore s finished =
     (case latestBelow s finished of None \<Rightarrow> stateLabelInitial | Some l \<Rightarrow> stateLabelAfter l)"

section \<open>What they promise\<close>

lemma problemIf_empty [simp]: "problemIf c p = [] \<longleftrightarrow> \<not> c"
  by (simp add: problemIf_def)

lemma resumeProblems_empty:
  "resumeProblems resolve stored current = [] \<longleftrightarrow>
     map_option resolve (sm_scenarioSet stored) = Some (resolve (rt_scenarioSet current))
     \<and> sm_k stored = Some (rt_k current) \<and> sm_resetUnit stored = Some (rt_resetUnit current)
     \<and> case_option 1 id (sm_repeat stored) = rt_repeat current
     \<and> map_option resolve (sm_agentStateRoot stored) = map_option resolve (rt_agentStateRoot current)
     \<and> sm_rosterFingerprint stored \<in> {None, rt_rosterFingerprint current} \<union> (if rt_rosterFingerprint current = None then UNIV else {})
     \<and> rt_scenarioKeyCommitment current \<in> {None, sm_scenarioKeyCommitment stored}
     \<and> rt_scenarioStreams current \<in> {None, sm_scenarioStreams stored}"
  unfolding resumeProblems_def append_is_Nil_conv problemIf_empty
  by (intro conj_cong) (auto split: option.splits)

lemma mergeStep_eq [result_simps]:
  "mergeStep m (pre, fin) r = Inr s \<longleftrightarrow>
     (\<exists>p. map_of m (sr_s r) = Some p \<and> pl_regime p = sr_regime r \<and> pl_seed p = sr_seed r
       \<and> (if agentsOf r \<noteq> [] then sr_s r \<notin> set fin \<and> s = (pre @ [r], fin @ [sr_s r]) else s = (pre, fin)))"
  by (auto simp: mergeStep_def split: option.splits)

lemma merge_loop:
  "foldR (mergeStep m) (pre, fin) rs = Inr (pre', fin') \<longleftrightarrow>
     list_all (\<lambda>r. \<exists>p. map_of m (sr_s r) = Some p \<and> pl_regime p = sr_regime r \<and> pl_seed p = sr_seed r) rs
     \<and> distinct (map sr_s (filter (\<lambda>r. agentsOf r \<noteq> []) rs))
     \<and> sr_s ` set (filter (\<lambda>r. agentsOf r \<noteq> []) rs) \<inter> set fin = {}
     \<and> pre' = pre @ filter (\<lambda>r. agentsOf r \<noteq> []) rs
     \<and> fin' = fin @ map sr_s (filter (\<lambda>r. agentsOf r \<noteq> []) rs)"
proof (induction rs arbitrary: pre fin)
  case (Cons r rs)
  show ?case
    by (auto simp: bindR_eq_Inr mergeStep_eq Cons.IH split: if_splits)
qed auto

lemma plannedAt_get:
  assumes "distinct (map pl_s plan)"
  shows "map_of (foldl (\<lambda>m p. AList.update (pl_s p) p m) [] plan) s = Some p \<longleftrightarrow> p \<in> set plan \<and> pl_s p = s"
proof -
  have "pl_s ` set ps \<inter> set (keys m) = {} \<Longrightarrow> distinct (map pl_s ps) \<Longrightarrow> \<forall>(k, q) \<in> set m. k = pl_s q \<Longrightarrow> distinct (keys m) \<Longrightarrow>
    map_of (foldl (\<lambda>m p. AList.update (pl_s p) p m) m ps) s = Some p \<longleftrightarrow> (p \<in> set ps \<and> pl_s p = s) \<or> map_of m s = Some p" for ps m
  proof (induction ps arbitrary: m)
    case (Cons q ps)
    have fresh: "AList.update (pl_s q) q m = m @ [(pl_s q, q)]" using Cons.prems(1) by (intro upd_fresh) auto
    show ?case
      unfolding foldl_Cons
    proof (subst Cons.IH)
      show "pl_s ` set ps \<inter> set (keys (AList.update (pl_s q) q m)) = {}" using Cons.prems by auto
      show "distinct (map pl_s ps)" using Cons.prems(2) by simp
      show "\<forall>(k, p) \<in> set (AList.update (pl_s q) q m). k = pl_s p" using Cons.prems(3) by (auto simp: fresh)
      show "distinct (keys (AList.update (pl_s q) q m))" using Cons.prems(4) by blast
      have "map_of m (pl_s q) = None" using Cons.prems(1) by (auto simp: map_of_eq_None_iff)
      then show "(p \<in> set ps \<and> pl_s p = s) \<or> map_of (AList.update (pl_s q) q m) s = Some p \<longleftrightarrow>
        (p \<in> set (q # ps) \<and> pl_s p = s) \<or> map_of m s = Some p"
        by auto
    qed
  qed simp
  from this [of plan "[]"] assms show ?thesis by simp
qed

definition completeResults :: "scenarioResult list \<Rightarrow> scenarioResult list" where
  "completeResults stored = filter (\<lambda>r. agentsOf r \<noteq> []) stored"

definition asPlanned :: "planned list \<Rightarrow> scenarioResult \<Rightarrow> bool" where
  "asPlanned plan r \<longleftrightarrow> (\<exists>p \<in> set plan. pl_s p = sr_s r \<and> pl_regime p = sr_regime r \<and> pl_seed p = sr_seed r)"

lemma merge_iff:
  assumes "distinct (map pl_s plan)"
  shows "mergeStoredResults plan stored = Inr rp \<longleftrightarrow>
    list_all (asPlanned plan) stored \<and> distinct (map sr_s (completeResults stored))
    \<and> rp = \<lparr>rp_preloaded = completeResults stored, rp_complete = map sr_s (completeResults stored),
            rp_rerun = map pl_s (filter (\<lambda>p. pl_s p \<notin> set (map sr_s (completeResults stored))) plan)\<rparr>"
proof -
  have "(\<exists>p. map_of (foldl (\<lambda>m p. AList.update (pl_s p) p m) [] plan) (sr_s r) = Some p \<and> pl_regime p = sr_regime r \<and> pl_seed p = sr_seed r)
    \<longleftrightarrow> asPlanned plan r" for r
    unfolding plannedAt_get [OF assms] asPlanned_def by blast
  then show ?thesis
    unfolding mergeStoredResults_def Let_def bindR_eq_Inr
    by (auto simp: merge_loop completeResults_def split_paired_Ex)
qed

text \<open>
  C15. Resuming loses and repeats nothing: the merge succeeds exactly when every stored result is the
  plan's scenario of its ordinal and no ordinal is complete twice; then what is kept is every
  complete result, unchanged and in its order, and what is run is exactly the rest of the plan.
\<close>

theorem mergeStoredResults_partition:
  assumes "distinct (map pl_s plan)"
  shows "case mergeStoredResults plan stored of
     Inr rp \<Rightarrow> list_all (asPlanned plan) stored
       \<and> rp_preloaded rp = completeResults stored \<and> distinct (rp_complete rp) \<and> distinct (rp_rerun rp)
       \<and> set (rp_complete rp) = sr_s ` set (completeResults stored)
       \<and> set (rp_complete rp) \<inter> set (rp_rerun rp) = {}
       \<and> set (rp_complete rp) \<union> set (rp_rerun rp) = pl_s ` set plan
   | Inl e \<Rightarrow> \<not> (list_all (asPlanned plan) stored \<and> distinct (map sr_s (completeResults stored)))"
proof (cases "mergeStoredResults plan stored")
  case (Inl e)
  then show ?thesis using merge_iff [OF assms, of stored] by auto
next
  case (Inr rp)
  note m = merge_iff [OF assms, THEN iffD1, OF Inr]
  have "sr_s ` set (completeResults stored) \<subseteq> pl_s ` set plan"
    using m by (force simp: list_all_iff asPlanned_def completeResults_def)
  moreover have "distinct (map pl_s (filter P plan))" for P
    using assms by (simp add: distinct_map_filter)
  moreover have "sr_s ` set (completeResults stored) \<inter> set (rp_rerun rp) = {}"
  proof -
    have "set (rp_rerun rp) = pl_s ` set plan - sr_s ` set (completeResults stored)" using m by auto
    then show ?thesis by blast
  qed
  ultimately show ?thesis using m by (auto simp: Inr)
qed

lemma foldl_latest:
  fixes s :: nat
  shows "case foldl (\<lambda>latest d. if d < s \<and> (case latest of None \<Rightarrow> True | Some l \<Rightarrow> l < d) then Some d else latest) acc ds of
     None \<Rightarrow> acc = None \<and> (\<forall>d \<in> set ds. s \<le> d)
   | Some l \<Rightarrow> (l \<in> set ds \<and> l < s \<or> acc = Some l) \<and> (\<forall>d \<in> set ds. d < s \<longrightarrow> d \<le> l) \<and> (\<forall>a. acc = Some a \<longrightarrow> a \<le> l)"
proof (induction ds arbitrary: acc)
  case Nil
  then show ?case by (cases acc) auto
next
  case (Cons d ds)
  show ?case
    unfolding foldl_Cons
    using Cons.IH [of "if d < s \<and> (case acc of None \<Rightarrow> True | Some l \<Rightarrow> l < d) then Some d else acc"]
    by (cases acc) (auto split: option.splits if_splits)
qed

lemma stateLabelAfter_inj: "stateLabelAfter a = stateLabelAfter b \<longleftrightarrow> a = b"
  by (simp add: stateLabelAfter_def decimal_inj)

lemma stateLabelAfter_not_initial: "stateLabelAfter a \<noteq> stateLabelInitial"
  by (simp add: stateLabelAfter_def stateLabelInitial_def)

text \<open>
  Every ordinal starts from the one right state: the label it is given names the end of
  ordinal \<open>l\<close> exactly when \<open>l\<close> is the latest complete ordinal below it, and the initial state
  exactly when nothing below it is complete; no two states share a label.
\<close>

theorem stateLabelBefore_latest:
  "(stateLabelBefore s finished = stateLabelAfter l \<longleftrightarrow>
      l \<in> set finished \<and> l < s \<and> {d \<in> set finished. l < d \<and> d < s} = {})
   \<and> (stateLabelBefore s finished = stateLabelInitial \<longleftrightarrow> {d \<in> set finished. d < s} = {})"
proof (cases "latestBelow s finished")
  case None
  then have "\<forall>d \<in> set finished. s \<le> d"
    using foldl_latest [where s = s and acc = None and ds = finished] by (simp add: latestBelow_def)
  then show ?thesis
    using None stateLabelAfter_not_initial [of l] by (auto simp: stateLabelBefore_def)
next
  case (Some l')
  then have l': "l' \<in> set finished" "l' < s" "\<forall>d \<in> set finished. d < s \<longrightarrow> d \<le> l'"
    using foldl_latest [where s = s and acc = None and ds = finished] by (auto simp: latestBelow_def)
  then have "(l' = l) \<longleftrightarrow> l \<in> set finished \<and> l < s \<and> {d \<in> set finished. l < d \<and> d < s} = {}"
    by (auto simp: not_less) (meson leD le_antisym)
  then show ?thesis
    using Some l' stateLabelAfter_not_initial by (auto simp: stateLabelBefore_def stateLabelAfter_inj)
qed

text \<open>
  What may be resumed: a matrix is refused exactly when some part of what makes the competition
  one differs. A stored matrix without a repeat counts as one; without a roster fingerprint, or a
  current run without one, the field is not compared; a run under a key or a stream naming is never
  appended to a matrix without the same.
\<close>

theorem assertResumable_same:
  "isOk (assertResumable resolve stored current) \<longleftrightarrow>
     map_option resolve (sm_scenarioSet stored) = Some (resolve (rt_scenarioSet current))
     \<and> sm_k stored = Some (rt_k current) \<and> sm_resetUnit stored = Some (rt_resetUnit current)
     \<and> case_option 1 id (sm_repeat stored) = rt_repeat current
     \<and> map_option resolve (sm_agentStateRoot stored) = map_option resolve (rt_agentStateRoot current)
     \<and> sm_rosterFingerprint stored \<in> {None, rt_rosterFingerprint current} \<union> (if rt_rosterFingerprint current = None then UNIV else {})
     \<and> rt_scenarioKeyCommitment current \<in> {None, sm_scenarioKeyCommitment stored}
     \<and> rt_scenarioStreams current \<in> {None, sm_scenarioStreams stored}"
  unfolding resumeProblems_empty [symmetric] by (simp add: assertResumable_def Let_def throwIf_def)

section \<open>Applied\<close>

definition twoPlanned :: "planned list" where
  "twoPlanned = [\<lparr>pl_s = 1, pl_regime = ''calm'', pl_seed = 101\<rparr>, \<lparr>pl_s = 2, pl_regime = ''crash'', pl_seed = 7\<rparr>]"

definition oneStored :: "scenarioResult list" where
  "oneStored = [\<lparr>sr_s = 2, sr_regime = ''crash'', sr_seed = 7, sr_agents = Some
     [\<lparr>as_id = ''a'', as_pnlUsdc = Some (Fin 3), as_baseline = False, as_participant = None, as_flags = []\<rparr>],
     sr_runDir = None, sr_error = None, sr_flags = []\<rparr>]"

lemma oneStored_merged:
  "mergeStoredResults twoPlanned oneStored = Inr \<lparr>rp_preloaded = oneStored, rp_complete = [2], rp_rerun = [1]\<rparr>"
  by (subst merge_iff) (auto simp: twoPlanned_def oneStored_def completeResults_def agentsOf_def asPlanned_def)

lemma mergeStoredResults_partition_witness:
  "set [2 :: real] \<inter> set [1] = {} \<and> set [2 :: real] \<union> set [1] = pl_s ` set twoPlanned"
  using mergeStoredResults_partition [of twoPlanned oneStored] by (simp add: oneStored_merged) (simp add: twoPlanned_def)

end
