(* ===== verification/Timetable.thy ===== *)
theory Timetable
  imports Formatting
begin

text \<open>
  Following a plan's timetable (\<open>core/src/backtest/timetable.ts\<close>): what a followable plan is, how long to
  wait before an epoch or how late it is, and the line printed for it. \<open>Date.parse\<close> is the parameter
  \<open>dp\<close> (\<open>None\<close> for \<open>NaN\<close>), with times as whole milliseconds.
\<close>

record timedEpoch =
  te_s :: nat
  te_startsAt :: "string option"

datatype timetable_error =
    NoTimetable
  | Untimed "nat list"
  | BadDate nat
  | OutOfOrder nat nat
  | StartsAtNotADate string

definition followStep ::
    "(string \<Rightarrow> int option) \<Rightarrow> (nat \<times> int) option \<Rightarrow> timedEpoch \<Rightarrow> timetable_error + (nat \<times> int) option" where
  "followStep dp previous e =
     (case (case te_startsAt e of None \<Rightarrow> None | Some t \<Rightarrow> dp t) of
        None \<Rightarrow> Inl (BadDate (te_s e))
      | Some tm \<Rightarrow>
          (case previous of
             Some (s, prv) \<Rightarrow> throwIf (tm < prv) (OutOfOrder (te_s e) s) (Inr (Some (te_s e, tm)))
           | None \<Rightarrow> Inr (Some (te_s e, tm))))"

definition assertFollowable :: "(string \<Rightarrow> int option) \<Rightarrow> timedEpoch list \<Rightarrow> timetable_error + unit" where
  "assertFollowable dp epochs =
     (let untimed = map te_s (filter (\<lambda>e. te_startsAt e = None) epochs)
      in throwIf (length untimed = length epochs) NoTimetable
           (throwIf (0 < length untimed) (Untimed untimed)
             (bindR (foldR (followStep dp) None epochs) (\<lambda>_. Inr ()))))"

record startDelay =
  sd_waitMs :: int
  sd_lateMs :: int

definition startDelay :: "(string \<Rightarrow> int option) \<Rightarrow> string \<Rightarrow> int \<Rightarrow> timetable_error + startDelay" where
  "startDelay dp startsAt nowMs =
     (case dp startsAt of
        None \<Rightarrow> Inl (StartsAtNotADate startsAt)
      | Some tm \<Rightarrow> Inr \<lparr>sd_waitMs = max 0 (tm - nowMs), sd_lateMs = max 0 (nowMs - tm)\<rparr>)"

definition pad2 :: "nat \<Rightarrow> string" where
  "pad2 n = padStart 2 (CHR ''0'') (decimal n)"

definition formatDuration :: "int \<Rightarrow> string" where
  "formatDuration ms =
     (let total = nat (max 0 (ms div 1000));
          d = total div 86400; h = total mod 86400 div 3600; m = total mod 3600 div 60; s = total mod 60
      in if 0 < d then decimal d @ ''d '' @ decimal h @ ''h '' @ pad2 m @ ''m''
         else if 0 < h then decimal h @ ''h '' @ pad2 m @ ''m''
         else if 0 < m then decimal m @ ''m '' @ pad2 s @ ''s''
         else decimal s @ ''s'')"

definition ON_TIME_MS :: int where
  "ON_TIME_MS = 1000"

definition describeStart ::
    "(string \<Rightarrow> int option) \<Rightarrow> nat \<Rightarrow> string \<Rightarrow> string \<Rightarrow> int \<Rightarrow> timetable_error + string option" where
  "describeStart dp s label startsAt nowMs =
     bindR (startDelay dp startsAt nowMs) (\<lambda>d.
       Inr (if 0 < sd_waitMs d
            then Some (''s='' @ decimal s @ '' '' @ label @ '': waiting '' @ formatDuration (sd_waitMs d)
                       @ '' for its planned start '' @ startsAt @ '' (--follow-schedule)'')
            else if ON_TIME_MS \<le> sd_lateMs d
            then Some (''s='' @ decimal s @ '' '' @ label @ '': planned for '' @ startsAt @ '', starting now, ''
                       @ formatDuration (sd_lateMs d) @ '' late'')
            else None))"

section \<open>A followable plan\<close>

definition startOf :: "(string \<Rightarrow> int option) \<Rightarrow> timedEpoch \<Rightarrow> int option" where
  "startOf dp e = Option.bind (te_startsAt e) dp"

lemma followStep_eq [result_simps]:
  "followStep dp previous e = Inr r \<longleftrightarrow>
     (\<exists>tm. startOf dp e = Some tm \<and> (\<forall>s b. previous = Some (s, b) \<longrightarrow> b \<le> tm) \<and> r = Some (te_s e, tm))"
  by (auto simp: followStep_def startOf_def split: option.splits)

lemma follow_loop:
  "isOk (foldR (followStep dp) previous es) \<longleftrightarrow>
     (\<forall>e \<in> set es. startOf dp e \<noteq> None)
     \<and> sorted ((case previous of None \<Rightarrow> [] | Some (s, b) \<Rightarrow> [b]) @ map (the \<circ> startOf dp) es)"
proof (induction es arbitrary: previous)
  case Nil
  then show ?case by (auto split: option.splits)
next
  case (Cons e es)
  show ?case
  proof (cases "startOf dp e")
    case None
    then show ?thesis by (auto simp: isOk_bindR followStep_eq)
  next
    case (Some tm)
    show ?thesis
    proof (cases previous)
      case None
      then show ?thesis using Some by (simp add: isOk_bindR followStep_eq Cons.IH)
    next
      case (Some p)
      then show ?thesis
        using \<open>startOf dp e = Some tm\<close> by (cases p) (auto simp: isOk_bindR followStep_eq Cons.IH)
    qed
  qed
qed

text \<open>
  A plan is followed exactly when it has epochs, every one has a start that is a date, and the
  starts are in the order the runner takes the epochs; and before any dated epoch the runner waits
  up to its start, or is late by the time since, never both, so that an epoch starts at its planned
  time or, when that has passed, at once.
\<close>

theorem assertFollowable_exact:
  "(isOk (assertFollowable dp epochs) \<longleftrightarrow>
      epochs \<noteq> [] \<and> list_all (\<lambda>e. startOf dp e \<noteq> None) epochs \<and> sorted (map (the \<circ> startOf dp) epochs))
   \<and> (case startDelay dp startsAt nowMs of
        Inl e \<Rightarrow> dp startsAt = None
      | Inr d \<Rightarrow> \<exists>tm. dp startsAt = Some tm \<and> nowMs + sd_waitMs d = max tm nowMs \<and> nowMs - sd_lateMs d = min tm nowMs
          \<and> (sd_waitMs d = 0 \<or> sd_lateMs d = 0))"
proof -
  let ?untimed = "filter (\<lambda>e. te_startsAt e = None) epochs"
  have "isOk (assertFollowable dp epochs) \<longleftrightarrow> length ?untimed \<noteq> length epochs \<and> ?untimed = [] \<and> isOk (foldR (followStep dp) None epochs)"
    by (auto simp: assertFollowable_def Let_def isOk_def throwIf_def bindR_def split: sum.splits)
  also have "\<dots> \<longleftrightarrow> epochs \<noteq> [] \<and> list_all (\<lambda>e. startOf dp e \<noteq> None) epochs \<and> sorted (map (the \<circ> startOf dp) epochs)"
  proof (cases "list_all (\<lambda>e. startOf dp e \<noteq> None) epochs")
    case True
    then have "\<forall>e \<in> set epochs. te_startsAt e \<noteq> None" by (auto simp: list_all_iff startOf_def bind_eq_Some_conv)
    then have "?untimed = []" by (simp add: filter_empty_conv)
    then show ?thesis using True by (auto simp: follow_loop list_all_iff)
  next
    case False
    then show ?thesis by (auto simp: follow_loop list_all_iff)
  qed
  finally show ?thesis
    by (auto simp: startDelay_def split: option.splits)
qed

text \<open>What a duration shows: the two or three largest units, rounded down to the last one shown.\<close>

lemma formatDuration_fields:
  fixes total :: nat
  defines "d \<equiv> total div 86400" and "h \<equiv> total mod 86400 div 3600" and "m \<equiv> total mod 3600 div 60" and "s \<equiv> total mod 60"
  shows "total = 86400 * d + 3600 * h + 60 * m + s \<and> h < 24 \<and> m < 60 \<and> s < 60"
proof -
  have "total mod 86400 = 3600 * h + total mod 3600"
    unfolding h_def using mult_div_mod_eq [of 3600 "total mod 86400"] by (simp add: mod_mod_cancel)
  moreover have "total mod 3600 = 60 * m + s"
    unfolding m_def s_def using mult_div_mod_eq [of 60 "total mod 3600"] by (simp add: mod_mod_cancel)
  moreover have "h < 24" "m < 60" "s < 60"
    unfolding h_def m_def s_def by (simp_all add: less_mult_imp_div_less)
  ultimately show ?thesis unfolding d_def using mult_div_mod_eq [of 86400 total] by linarith
qed

end
