(* ===== verification/Js_Strings.thy ===== *)
theory Js_Strings
  imports Formatting
begin

text \<open>
  The string operations of the language that the program reads text with: \<open>split\<close> on one character
  and \<open>join\<close>, \<open>trim\<close>, and \<open>BigInt\<close> of a string (decimal with a sign, hexadecimal, octal or binary).
\<close>

fun splitOn :: "char \<Rightarrow> string \<Rightarrow> string list" where
  "splitOn c [] = [[]]"
| "splitOn c (x # xs) =
     (if x = c then [] # splitOn c xs
      else (case splitOn c xs of [] \<Rightarrow> [[x]] | p # ps \<Rightarrow> (x # p) # ps))"

fun joinOn :: "string \<Rightarrow> string list \<Rightarrow> string" where
  "joinOn sep [] = []"
| "joinOn sep [x] = x"
| "joinOn sep (x # y # ys) = x @ sep @ joinOn sep (y # ys)"

definition isSpace :: "char \<Rightarrow> bool" where
  "isSpace c \<longleftrightarrow> (of_char c :: nat) \<in> {9, 10, 11, 12, 13, 32, 160}"

definition trim :: "string \<Rightarrow> string" where
  "trim s = rev (dropWhile isSpace (rev (dropWhile isSpace s)))"

definition isDigit :: "char \<Rightarrow> bool" where
  "isDigit c \<longleftrightarrow> 48 \<le> (of_char c :: nat) \<and> (of_char c :: nat) < 58"

definition hexValue :: "char \<Rightarrow> nat option" where
  "hexValue c =
     (let n = of_char c in
      if 48 \<le> n \<and> n < 58 then Some (n - 48)
      else if 97 \<le> n \<and> n < 103 then Some (n - 87)
      else if 65 \<le> n \<and> n < 71 then Some (n - 55) else None)"

text \<open>The digits after a prefix \<open>0x\<close>, \<open>0o\<close> or \<open>0b\<close>: at least one, each below the radix.\<close>

definition unradix :: "nat \<Rightarrow> string \<Rightarrow> int option" where
  "unradix radix s =
     (if s = [] \<or> list_ex (\<lambda>c. case hexValue c of None \<Rightarrow> True | Some v \<Rightarrow> radix \<le> v) s then None
      else Some (foldl (\<lambda>a c. int radix * a + int (the (hexValue c))) 0 s))"

definition natOf :: "string \<Rightarrow> int option" where
  "natOf s = (if s \<noteq> [] \<and> list_all isDigit s then Some (int (undec s)) else None)"

definition bigIntOf :: "string \<Rightarrow> int option" where
  "bigIntOf s =
     (let t = trim s in
      case t of
        [] \<Rightarrow> Some 0
      | c # cs \<Rightarrow>
          if c = CHR ''-'' then map_option uminus (natOf cs)
          else if c = CHR ''+'' then natOf cs
          else if take 2 t \<in> {''0x'', ''0X''} then unradix 16 (drop 2 t)
          else if take 2 t \<in> {''0o'', ''0O''} then unradix 8 (drop 2 t)
          else if take 2 t \<in> {''0b'', ''0B''} then unradix 2 (drop 2 t) else natOf t)"

lemma splitOn_nonempty [simp]: "splitOn c s \<noteq> []"
  by (induction s) (auto split: list.splits)

lemma joinOn_Cons: "xs \<noteq> [] \<Longrightarrow> joinOn sep (x # xs) = x @ sep @ joinOn sep xs"
  by (cases xs) auto

lemma joinOn_Cons_char: "joinOn sep ((c # x) # xs) = c # joinOn sep (x # xs)"
  by (cases xs) auto

lemma join_split [simp]: "joinOn [c] (splitOn c s) = s"
proof (induction s)
  case (Cons x xs)
  then show ?case
    by (auto simp: joinOn_Cons joinOn_Cons_char split: list.splits)
qed simp

lemma split_no_sep: "p \<in> set (splitOn c s) \<Longrightarrow> c \<notin> set p"
  by (induction s arbitrary: p) (auto split: if_splits list.splits)

lemma splitOn_plain: "c \<notin> set s \<Longrightarrow> splitOn c s = [s]"
  by (induction s) auto

lemma splitOn_append: "c \<notin> set s \<Longrightarrow> splitOn c (s @ c # r) = s # splitOn c r"
  by (induction s) auto

lemma split_join: "xs \<noteq> [] \<Longrightarrow> \<forall>x \<in> set xs. c \<notin> set x \<Longrightarrow> splitOn c (joinOn [c] xs) = xs"
  by (induction xs rule: induct_list012) (auto simp: splitOn_plain splitOn_append)

lemma decimal_isDigit: "list_all isDigit (decimal n)"
  using decimal_digits by (auto simp: list_all_iff isDigit_def)

lemma digit_not_space: "isDigit c \<Longrightarrow> \<not> isSpace c"
  by (auto simp: isDigit_def isSpace_def)

lemma trim_digits:
  assumes "list_all isDigit s"
  shows "trim s = s"
proof -
  have ns: "\<not> isSpace c" if "c \<in> set s" for c
    using assms digit_not_space that by (auto simp: list_all_iff)
  have drop: "dropWhile isSpace xs = xs" if "\<And>c. c \<in> set xs \<Longrightarrow> \<not> isSpace c" for xs
    using that by (cases xs) simp_all
  have "dropWhile isSpace s = s" "dropWhile isSpace (rev s) = rev s"
    using ns by (auto intro: drop)
  then show ?thesis by (simp add: trim_def)
qed

lemma bigIntOf_digits:
  assumes "s \<noteq> []" "list_all isDigit s"
  shows "bigIntOf s = Some (int (undec s))"
proof -
  obtain c cs where d: "s = c # cs" using assms(1) by (cases s) auto
  have digits: "isDigit x" if "x \<in> set s" for x
    using assms(2) that by (simp add: list_all_iff)
  have "isDigit c" using digits [of c] by (simp add: d)
  then have "c \<noteq> CHR ''-''" "c \<noteq> CHR ''+''" by (auto simp: isDigit_def)
  moreover have "take 2 s \<notin> {''0x'', ''0X'', ''0o'', ''0O'', ''0b'', ''0B''}"
  proof
    assume prefix: "take 2 s \<in> {''0x'', ''0X'', ''0o'', ''0O'', ''0b'', ''0B''}"
    have "isDigit c" if "c \<in> set (take 2 s)" for c by (rule digits [OF in_set_takeD [OF that]])
    then have "list_all isDigit (take 2 s)" by (simp add: list_all_iff)
    with prefix show False by (elim insertE emptyE) (simp_all add: isDigit_def)
  qed
  moreover have "natOf s = Some (int (undec s))" by (simp add: natOf_def assms)
  ultimately show ?thesis using d trim_digits [OF assms(2)] by (auto simp: bigIntOf_def Let_def)
qed

lemma bigIntOf_decimal [simp]: "bigIntOf (decimal n) = Some (int n)"
  by (simp add: bigIntOf_digits decimal_isDigit)

end
