(* ===== verification/Roster_Transfers.thy ===== *)
theory Roster_Transfers
  imports Js_Strings
begin

text \<open>
  Value moved between registered addresses (\<open>core/src/rosterTransfers.ts\<close>): the movements read off
  blocks.csv, the transfer logs and the lending events, and the pro rata pairing of who put and who
  took. Block numbers of blocks.csv go through the parameter \<open>num\<close> (\<open>Number\<close>).
\<close>

section \<open>Data\<close>

record rosterAgent =
  ra_id :: string
  ra_address :: string
  ra_participant :: "string option"
  ra_initialValueUsdc :: "jsnum option"

record rosterTransferLog =
  tl_address :: string
  tl_topics :: "string list"
  tl_from :: "string option"
  tl_to :: "string option"
  tl_value :: "int option"
  tl_blockNumber :: "int option"

datatype lendingEventName = Liquidate | Supply | Withdraw | Borrow | Repay | OtherEvent string

record lendingEvent =
  le_eventName :: lendingEventName
  le_id :: "string option"
  le_caller :: "string option"
  le_assets :: "int option"
  le_liquidator :: "string option"
  le_borrower :: "string option"
  le_seizedAssets :: "int option"
  le_blockNumber :: "int option"

record routeContract =
  rc_kind :: string
  rc_creatorId :: string

record routeMarket =
  rm_loanToken :: string
  rm_collateralToken :: string
  rm_creatorId :: string

datatype rosterRoute = RouteEth | RouteErc20 | RouteContract | RouteLending | RouteLiquidation

record rosterMovement =
  mv_route :: rosterRoute
  mv_from :: string
  mv_to :: string
  mv_token :: "string option"
  mv_amountRaw :: int
  mv_block :: real
  mv_via :: "string option"
  mv_viaKind :: "string option"
  mv_viaCreator :: "string option"

definition orEmpty :: "string option \<Rightarrow> string" where
  "orEmpty s = toLower (case s of None \<Rightarrow> [] | Some x \<Rightarrow> x)"

definition orZero :: "int option \<Rightarrow> int" where
  "orZero v = (case v of None \<Rightarrow> 0 | Some n \<Rightarrow> n)"

definition rosterByAddress :: "rosterAgent list \<Rightarrow> (string \<times> rosterAgent) list" where
  "rosterByAddress agents = foldl (\<lambda>m a. AList.update (toLower (ra_address a)) a m) [] agents"

section \<open>Extraction\<close>

text \<open>The columns of blocks.csv (\<open>BLOCKS_CSV_INDEX\<close>) that are read, and a column that may be absent.\<close>

definition col :: "string list \<Rightarrow> nat \<Rightarrow> string option" where
  "col cols i = (if i < length cols then Some (cols ! i) else None)"

definition ethMovement ::
    "(string \<Rightarrow> real) \<Rightarrow> rosterAgent list \<Rightarrow> string \<Rightarrow> rosterMovement option" where
  "ethMovement num agents line =
     (let cols = splitOn (CHR '','') line
      in if line = [] \<or> col cols 8 \<noteq> Some ''agent'' \<or> col cols 6 \<noteq> Some ''success'' then None
         else (case col cols 7 of
           None \<Rightarrow> None
         | Some sender \<Rightarrow>
             if sender \<notin> ra_id ` set agents then None
             else (case map_of (rosterByAddress agents) (orEmpty (col cols 15)) of
               None \<Rightarrow> None
             | Some receiver \<Rightarrow>
                 if ra_id receiver = sender then None
                 else (case col cols 16 of
                   None \<Rightarrow> None
                 | Some rawValue \<Rightarrow>
                     if rawValue = [] then None
                     else (case bigIntOf rawValue of
                       None \<Rightarrow> None
                     | Some v \<Rightarrow>
                         if v \<le> 0 then None
                         else Some \<lparr>mv_route = RouteEth, mv_from = sender, mv_to = ra_id receiver, mv_token = None,
                                mv_amountRaw = v, mv_block = num (cols ! 1),
                                mv_via = None, mv_viaKind = None, mv_viaCreator = None\<rparr>)))))"

definition ethMovementsFromBlocksCsv ::
    "(string \<Rightarrow> real) \<Rightarrow> string \<Rightarrow> rosterAgent list \<Rightarrow> rosterMovement list" where
  "ethMovementsFromBlocksCsv num blocksCsv agents =
     List.map_filter (ethMovement num agents) (drop 1 (splitOn (CHR 0x0A) blocksCsv))"

definition erc20Movement :: "rosterAgent list \<Rightarrow> rosterTransferLog \<Rightarrow> rosterMovement option" where
  "erc20Movement agents lg =
     (let byAddress = rosterByAddress agents
      in if length (tl_topics lg) \<noteq> 3 then None
         else (case (map_of byAddress (orEmpty (tl_from lg)), map_of byAddress (orEmpty (tl_to lg))) of
           (Some sender, Some receiver) \<Rightarrow>
             if ra_id sender = ra_id receiver \<or> orZero (tl_value lg) \<le> 0 then None
             else Some \<lparr>mv_route = RouteErc20, mv_from = ra_id sender, mv_to = ra_id receiver,
                    mv_token = Some (toLower (tl_address lg)), mv_amountRaw = orZero (tl_value lg),
                    mv_block = of_int (orZero (tl_blockNumber lg)), mv_via = None, mv_viaKind = None, mv_viaCreator = None\<rparr>
         | _ \<Rightarrow> None))"

definition erc20MovementsFromLogs :: "rosterTransferLog list \<Rightarrow> rosterAgent list \<Rightarrow> rosterMovement list" where
  "erc20MovementsFromLogs logs agents = List.map_filter (erc20Movement agents) logs"

text \<open>
  Each taker's amount attributed to the putters in proportion to what they put; an agent on both
  sides is left out of its own pair but counts in the tot.
\<close>

definition pairAmount :: "int \<Rightarrow> int \<Rightarrow> int \<Rightarrow> int" where
  "pairAmount taken put tot = (let amount = (taken * put) sdiv tot in if put < amount then put else amount)"

definition proRataPairs :: "(string \<times> int) list \<Rightarrow> (string \<times> int) list \<Rightarrow> (string \<times> string \<times> int) list" where
  "proRataPairs puts takes =
     (let tot = sum_list (map snd puts)
      in if tot \<le> 0 then []
         else concat (map (\<lambda>(taker, taken).
                List.map_filter (\<lambda>(putter, put).
                  if putter = taker \<or> pairAmount taken put tot \<le> 0 then None
                  else Some (putter, taker, pairAmount taken put tot)) puts) takes))"

record netEntry =
  ne_contract :: string
  ne_token :: string
  ne_net :: "(string \<times> int) list"
  ne_block :: real

definition bumpNet ::
    "string \<Rightarrow> real \<Rightarrow> string \<Rightarrow> string \<Rightarrow> int \<Rightarrow> (string \<times> netEntry) list \<Rightarrow> (string \<times> netEntry) list" where
  "bumpNet token block contract agent delta nets =
     (let key = contract @ ''|'' @ token;
          entry = getOr \<lparr>ne_contract = contract, ne_token = token, ne_net = [], ne_block = block\<rparr> nets key
      in AList.update key (entry\<lparr>ne_net := AList.update agent (getOr 0 (ne_net entry) agent + delta) (ne_net entry),
                                ne_block := max (ne_block entry) block\<rparr>) nets)"

definition netStep ::
    "rosterAgent list \<Rightarrow> (string \<times> routeContract) list \<Rightarrow> (string \<times> netEntry) list \<Rightarrow> rosterTransferLog \<Rightarrow> (string \<times> netEntry) list" where
  "netStep agents contracts nets lg =
     (let byAddress = rosterByAddress agents; sender = orEmpty (tl_from lg); receiver = orEmpty (tl_to lg);
          v = orZero (tl_value lg); token = toLower (tl_address lg); block = of_int (orZero (tl_blockNumber lg))
      in if length (tl_topics lg) \<noteq> 3 \<or> v \<le> 0 then nets
         else (case (map_of byAddress sender, map_of byAddress receiver) of
           (Some a, None) \<Rightarrow> if map_of contracts receiver \<noteq> None then bumpNet token block receiver (ra_id a) v nets else nets
         | (None, Some b) \<Rightarrow> if map_of contracts sender \<noteq> None then bumpNet token block sender (ra_id b) (- v) nets else nets
         | _ \<Rightarrow> nets))"

definition entryMovements :: "(string \<times> routeContract) list \<Rightarrow> netEntry \<Rightarrow> rosterMovement list" where
  "entryMovements contracts entry =
     (let puts = filter (\<lambda>(a, n). 0 < n) (ne_net entry);
          takes = map (\<lambda>(a, n). (a, - n)) (filter (\<lambda>(a, n). n < 0) (ne_net entry));
          route = map_of contracts (ne_contract entry)
      in map (\<lambda>(sender, receiver, amount).
           \<lparr>mv_route = RouteContract, mv_from = sender, mv_to = receiver, mv_token = Some (ne_token entry),
            mv_amountRaw = amount, mv_block = ne_block entry, mv_via = Some (ne_contract entry),
            mv_viaKind = map_option rc_kind route, mv_viaCreator = map_option rc_creatorId route\<rparr>)
         (proRataPairs puts takes))"

definition contractMovementsFromLogs ::
    "rosterTransferLog list \<Rightarrow> rosterAgent list \<Rightarrow> (string \<times> routeContract) list \<Rightarrow> rosterMovement list" where
  "contractMovementsFromLogs logs agents contracts =
     concat (map (entryMovements contracts \<circ> snd) (foldl (netStep agents contracts) [] logs))"

record marketEntry =
  me_supply :: "(string \<times> int) list"
  me_borrow :: "(string \<times> int) list"
  me_block :: real

definition bumpBy :: "string \<Rightarrow> int \<Rightarrow> (string \<times> int) list \<Rightarrow> (string \<times> int) list" where
  "bumpBy aid delta m = AList.update aid (getOr 0 m aid + delta) m"

definition lendingBump :: "lendingEventName \<Rightarrow> string \<Rightarrow> int \<Rightarrow> marketEntry \<Rightarrow> marketEntry" where
  "lendingBump name caller assets e =
     (case name of
        Supply \<Rightarrow> e\<lparr>me_supply := bumpBy caller assets (me_supply e)\<rparr>
      | Withdraw \<Rightarrow> e\<lparr>me_supply := bumpBy caller (- assets) (me_supply e)\<rparr>
      | Borrow \<Rightarrow> e\<lparr>me_borrow := bumpBy caller assets (me_borrow e)\<rparr>
      | Repay \<Rightarrow> e\<lparr>me_borrow := bumpBy caller (- assets) (me_borrow e)\<rparr>
      | _ \<Rightarrow> e)"

definition lendingStep ::
    "rosterAgent list \<Rightarrow> (string \<times> routeMarket) list
     \<Rightarrow> (string \<times> marketEntry) list \<times> rosterMovement list \<Rightarrow> lendingEvent
     \<Rightarrow> (string \<times> marketEntry) list \<times> rosterMovement list" where
  "lendingStep agents markets = (\<lambda>(perMarket, out) lg.
     (let byAddress = rosterByAddress agents; mid = orEmpty (le_id lg); block = of_int (orZero (le_blockNumber lg))
      in case map_of markets mid of
           None \<Rightarrow> (perMarket, out)
         | Some market \<Rightarrow>
             if le_eventName lg = Liquidate then
               (case (map_of byAddress (orEmpty (le_liquidator lg)), map_of byAddress (orEmpty (le_borrower lg))) of
                  (Some liquidator, Some borrower) \<Rightarrow>
                    if ra_id liquidator = ra_id borrower \<or> orZero (le_seizedAssets lg) \<le> 0 then (perMarket, out)
                    else (perMarket, out @ [\<lparr>mv_route = RouteLiquidation, mv_from = ra_id borrower, mv_to = ra_id liquidator,
                            mv_token = Some (toLower (rm_collateralToken market)), mv_amountRaw = orZero (le_seizedAssets lg),
                            mv_block = block, mv_via = Some mid, mv_viaKind = Some ''lendingMarket'',
                            mv_viaCreator = Some (rm_creatorId market)\<rparr>])
                | _ \<Rightarrow> (perMarket, out))
             else
               (case map_of byAddress (orEmpty (le_caller lg)) of
                  None \<Rightarrow> (perMarket, out)
                | Some caller \<Rightarrow>
                    if orZero (le_assets lg) \<le> 0 then (perMarket, out)
                    else (let entry = getOr \<lparr>me_supply = [], me_borrow = [], me_block = block\<rparr> perMarket mid
                          in (AList.update mid (lendingBump (le_eventName lg) (ra_id caller) (orZero (le_assets lg))
                                (entry\<lparr>me_block := max (me_block entry) block\<rparr>)) perMarket, out)))))"

definition marketMovements :: "(string \<times> routeMarket) list \<Rightarrow> string \<times> marketEntry \<Rightarrow> rosterMovement list" where
  "marketMovements markets = (\<lambda>(mid, e).
     map (\<lambda>(sender, receiver, amount).
       \<lparr>mv_route = RouteLending, mv_from = sender, mv_to = receiver,
        mv_token = map_option (toLower \<circ> rm_loanToken) (map_of markets mid),
        mv_amountRaw = amount, mv_block = me_block e, mv_via = Some mid, mv_viaKind = Some ''lendingMarket'',
        mv_viaCreator = map_option rm_creatorId (map_of markets mid)\<rparr>)
     (proRataPairs (filter (\<lambda>(a, n). 0 < n) (me_supply e)) (filter (\<lambda>(a, n). 0 < n) (me_borrow e))))"

definition lendingMovementsFromLogs ::
    "lendingEvent list \<Rightarrow> rosterAgent list \<Rightarrow> (string \<times> routeMarket) list \<Rightarrow> rosterMovement list" where
  "lendingMovementsFromLogs logs agents markets =
     (case foldl (lendingStep agents markets) ([], []) logs of
        (perMarket, out) \<Rightarrow> out @ concat (map (marketMovements markets) perMarket))"


section \<open>What a movement is\<close>

lemma rosterByAddress_get:
  "map_of (rosterByAddress agents) k = Some a \<Longrightarrow> a \<in> set agents \<and> toLower (ra_address a) = k"
proof -
  have "map_of (foldl (\<lambda>m a. AList.update (toLower (ra_address a)) a m) m as) k = Some a \<Longrightarrow>
      (a \<in> set as \<and> toLower (ra_address a) = k) \<or> map_of m k = Some a" for as m
    by (induction as arbitrary: m) (fastforce split: if_splits)+
  from this [of "[]" agents] show "map_of (rosterByAddress agents) k = Some a \<Longrightarrow> a \<in> set agents \<and> toLower (ra_address a) = k"
    by (simp add: rosterByAddress_def)
qed

text \<open>Two different registered agents, and an amount that moved.\<close>

definition goodMovement :: "rosterAgent list \<Rightarrow> rosterMovement \<Rightarrow> bool" where
  "goodMovement agents m \<longleftrightarrow> mv_from m \<in> ra_id ` set agents \<and> mv_to m \<in> ra_id ` set agents
     \<and> mv_from m \<noteq> mv_to m \<and> 0 < mv_amountRaw m"

lemma ethMovement_good: "ethMovement num agents line = Some m \<Longrightarrow> goodMovement agents m"
  by (auto simp: ethMovement_def goodMovement_def Let_def split: if_splits option.splits dest: rosterByAddress_get)

lemma erc20Movement_good: "erc20Movement agents lg = Some m \<Longrightarrow> goodMovement agents m"
  by (auto simp: erc20Movement_def goodMovement_def Let_def split: if_splits option.splits dest: rosterByAddress_get)

lemma mem_map_filter: "y \<in> set (List.map_filter f xs) \<longleftrightarrow> (\<exists>x \<in> set xs. f x = Some y)"
  by (induction xs) (auto split: option.splits)

lemma proRataPairs_mem:
  "(putter, taker, amount) \<in> set (proRataPairs puts takes) \<Longrightarrow>
     0 < sum_list (map snd puts) \<and> putter \<noteq> taker \<and> 0 < amount \<and> putter \<in> set (keys puts) \<and> taker \<in> set (keys takes)"
  by (auto simp: proRataPairs_def Let_def mem_map_filter image_iff split: prod.splits if_splits) force+

text \<open>Nets and market entries only name registered agents.\<close>

definition named :: "rosterAgent list \<Rightarrow> (string \<times> int) list \<Rightarrow> bool" where
  "named agents m \<longleftrightarrow> set (keys m) \<subseteq> ra_id ` set agents"

definition netsNamed :: "rosterAgent list \<Rightarrow> (string \<times> netEntry) list \<Rightarrow> bool" where
  "netsNamed agents nets \<longleftrightarrow> (\<forall>e \<in> snd ` set nets. named agents (ne_net e))"

definition marketsNamed :: "rosterAgent list \<Rightarrow> (string \<times> marketEntry) list \<Rightarrow> bool" where
  "marketsNamed agents ms \<longleftrightarrow> (\<forall>e \<in> snd ` set ms. named agents (me_supply e) \<and> named agents (me_borrow e))"

lemma named_simps [simp]:
  "named agents []" "a \<in> set agents \<Longrightarrow> named agents m \<Longrightarrow> named agents (AList.update (ra_id a) v m)"
  "a \<in> set agents \<Longrightarrow> named agents m \<Longrightarrow> named agents (bumpBy (ra_id a) v m)"
  by (auto simp: named_def bumpBy_def)

lemma snd_upd: "e \<in> snd ` set (AList.update k v m) \<Longrightarrow> e = v \<or> e \<in> snd ` set m"
  by (induction m) (auto split: if_splits)

lemma upd_all: "\<forall>e \<in> snd ` set m. P e \<Longrightarrow> P v \<Longrightarrow> \<forall>e \<in> snd ` set (AList.update k v m). P e"
  by (metis snd_upd)

lemma getOr_all: "\<forall>e \<in> snd ` set m. P e \<Longrightarrow> P d \<Longrightarrow> P (getOr d m k)"
  by (auto simp: getOr_def split: option.splits dest!: map_of_SomeD)

lemma bumpNet_named:
  assumes "netsNamed agents nets" "a \<in> set agents"
  shows "netsNamed agents (bumpNet token block c (ra_id a) d nets)"
proof -
  let ?new = "\<lparr>ne_contract = c, ne_token = token, ne_net = [], ne_block = block\<rparr>"
  have "named agents (ne_net (getOr ?new nets k))" for k
    by (rule getOr_all [OF assms(1) [unfolded netsNamed_def]]) simp
  then show ?thesis
    unfolding netsNamed_def bumpNet_def Let_def
    by (intro upd_all [OF assms(1) [unfolded netsNamed_def]]) (simp add: assms(2))
qed

lemma netStep_named: "netsNamed agents nets \<Longrightarrow> netsNamed agents (netStep agents contracts nets lg)"
  by (auto simp: netStep_def Let_def bumpNet_named dest!: rosterByAddress_get split: option.splits)

lemma nets_named: "netsNamed agents nets \<Longrightarrow> netsNamed agents (foldl (netStep agents contracts) nets logs)"
  by (induction logs arbitrary: nets) (auto intro: netStep_named)

lemma paired_good:
  assumes "(s, r, n) \<in> set (proRataPairs puts takes)" "set (keys puts) \<subseteq> S" "set (keys takes) \<subseteq> S"
  shows "s \<in> S \<and> r \<in> S \<and> s \<noteq> r \<and> 0 < n"
  using proRataPairs_mem [OF assms(1)] assms(2,3) by blast

lemma filtered_keys: "set (keys (filter P m)) \<subseteq> set (keys m)"
  by auto

lemma entry_good:
  assumes "named agents (ne_net e)" "m \<in> set (entryMovements contracts e)"
  shows "goodMovement agents m"
proof -
  let ?puts = "filter (\<lambda>(a, n). 0 < n) (ne_net e)"
  let ?takes = "map (\<lambda>(a, n). (a, - n)) (filter (\<lambda>(a, n). n < 0) (ne_net e))"
  obtain s r n where p: "(s, r, n) \<in> set (proRataPairs ?puts ?takes)" "mv_from m = s" "mv_to m = r" "mv_amountRaw m = n"
    using assms(2) unfolding entryMovements_def Let_def by auto
  have "set (keys ?puts) \<subseteq> ra_id ` set agents" "set (keys ?takes) \<subseteq> ra_id ` set agents"
    using assms(1) by (force simp: named_def)+
  from paired_good [OF p(1) this] p(2-4) show ?thesis by (simp add: goodMovement_def)
qed

lemma contract_good:
  assumes "m \<in> set (contractMovementsFromLogs logs agents contracts)"
  shows "goodMovement agents m"
proof -
  obtain e where e: "e \<in> snd ` set (foldl (netStep agents contracts) [] logs)" "m \<in> set (entryMovements contracts e)"
    using assms by (auto simp: contractMovementsFromLogs_def)
  have "netsNamed agents (foldl (netStep agents contracts) [] logs)" by (rule nets_named) (simp add: netsNamed_def)
  then show ?thesis using entry_good e unfolding netsNamed_def by blast
qed

lemma lendingStep_good:
  assumes "marketsNamed agents ms" "\<forall>m \<in> set out. goodMovement agents m" "lendingStep agents markets (ms, out) lg = (ms', out')"
  shows "marketsNamed agents ms' \<and> (\<forall>m \<in> set out'. goodMovement agents m)"
proof -
  have upd: "marketsNamed agents (AList.update mid (lendingBump name (ra_id a) d
      ((getOr \<lparr>me_supply = [], me_borrow = [], me_block = b\<rparr> ms mid)\<lparr>me_block := b'\<rparr>)) ms)"
    if "a \<in> set agents" for mid name a d b b'
  proof -
    let ?e = "getOr \<lparr>me_supply = [], me_borrow = [], me_block = b\<rparr> ms mid"
    have "named agents (me_supply ?e) \<and> named agents (me_borrow ?e)"
      by (rule getOr_all [OF assms(1) [unfolded marketsNamed_def]]) simp
    then show ?thesis
      unfolding marketsNamed_def using that
      by (intro upd_all [OF assms(1) [unfolded marketsNamed_def]])
        (simp add: lendingBump_def split: lendingEventName.split)
  qed
  have liq: "goodMovement agents \<lparr>mv_route = RouteLiquidation, mv_from = ra_id b, mv_to = ra_id l, mv_token = t,
      mv_amountRaw = n, mv_block = bl, mv_via = v, mv_viaKind = k, mv_viaCreator = c\<rparr>"
    if "b \<in> set agents" "l \<in> set agents" "ra_id l \<noteq> ra_id b" "0 < n" for b l t n bl v k c
    using that by (simp add: goodMovement_def)
  show ?thesis
  proof (cases "map_of markets (orEmpty (le_id lg))")
    case None
    then show ?thesis using assms by (simp add: lendingStep_def Let_def)
  next
    case (Some market)
    show ?thesis
    proof (cases "le_eventName lg = Liquidate")
      case True
      show ?thesis
        using assms True Some liq
        by (auto simp: lendingStep_def Let_def not_le split: option.splits if_splits dest!: rosterByAddress_get)
    next
      case False
      show ?thesis
        using assms(2,3) False Some upd assms(1)
        by (auto simp: lendingStep_def Let_def split: option.splits if_splits dest!: rosterByAddress_get)
    qed
  qed
qed

lemma lending_loop:
  "marketsNamed agents ms \<Longrightarrow> \<forall>m \<in> set out. goodMovement agents m \<Longrightarrow> foldl (lendingStep agents markets) (ms, out) logs = (ms', out') \<Longrightarrow>
   marketsNamed agents ms' \<and> (\<forall>m \<in> set out'. goodMovement agents m)"
proof (induction logs arbitrary: ms out)
  case (Cons lg logs)
  obtain ms1 out1 where s: "lendingStep agents markets (ms, out) lg = (ms1, out1)" by fastforce
  show ?case
    using Cons.IH [of ms1 out1] lendingStep_good [OF Cons.prems(1,2) s] Cons.prems(3) by (simp add: s)
qed simp

lemma market_good:
  assumes "named agents (me_supply e)" "named agents (me_borrow e)" "m \<in> set (marketMovements markets (mid, e))"
  shows "goodMovement agents m"
proof -
  let ?puts = "filter (\<lambda>(a, n). 0 < n) (me_supply e)" and ?takes = "filter (\<lambda>(a, n). 0 < n) (me_borrow e)"
  obtain s r n where p: "(s, r, n) \<in> set (proRataPairs ?puts ?takes)" "mv_from m = s" "mv_to m = r" "mv_amountRaw m = n"
    using assms(3) unfolding marketMovements_def by auto
  have "set (keys ?puts) \<subseteq> ra_id ` set agents" "set (keys ?takes) \<subseteq> ra_id ` set agents"
    using assms(1,2) by (force simp: named_def)+
  from paired_good [OF p(1) this] p(2-4) show ?thesis by (simp add: goodMovement_def)
qed

lemma lending_good:
  assumes "m \<in> set (lendingMovementsFromLogs logs agents markets)"
  shows "goodMovement agents m"
proof -
  obtain ms out where f: "foldl (lendingStep agents markets) ([], []) logs = (ms, out)" by fastforce
  have inv: "marketsNamed agents ms" "\<forall>m \<in> set out. goodMovement agents m"
    using lending_loop [OF _ _ f] by (auto simp: marketsNamed_def)
  have "m \<in> set out \<or> (\<exists>mid e. (mid, e) \<in> set ms \<and> m \<in> set (marketMovements markets (mid, e)))"
    using assms by (auto simp: lendingMovementsFromLogs_def f)
  then show ?thesis
  proof
    assume "\<exists>mid e. (mid, e) \<in> set ms \<and> m \<in> set (marketMovements markets (mid, e))"
    then obtain mid e where e: "(mid, e) \<in> set ms" "m \<in> set (marketMovements markets (mid, e))" by blast
    then have "e \<in> snd ` set ms" by force
    then show ?thesis using inv(1) market_good e(2) unfolding marketsNamed_def by blast
  qed (use inv(2) in blast)
qed

text \<open>
  C16. Whatever the chain recorded, and however it is read - a transaction's value, a transfer log,
  the net flows through a participant's contract, a lending market or a liquidation - a movement
  names two different registered agents and a positive amount.
\<close>

theorem movements_well_formed:
  "list_all (goodMovement agents)
     (ethMovementsFromBlocksCsv num blocksCsv agents @ erc20MovementsFromLogs logs agents
      @ contractMovementsFromLogs logs agents contracts @ lendingMovementsFromLogs events agents markets)"
proof -
  have "goodMovement agents m" if "m \<in> set (ethMovementsFromBlocksCsv num blocksCsv agents)" for m
    using that ethMovement_good unfolding ethMovementsFromBlocksCsv_def mem_map_filter by blast
  moreover have "goodMovement agents m" if "m \<in> set (erc20MovementsFromLogs logs agents)" for m
    using that erc20Movement_good unfolding erc20MovementsFromLogs_def mem_map_filter by blast
  ultimately show ?thesis
    using contract_good lending_good unfolding list_all_iff set_append by blast
qed


section \<open>Pro rata loses and invents nothing\<close>

definition amountWhere :: "(string \<Rightarrow> string \<Rightarrow> bool) \<Rightarrow> (string \<times> string \<times> int) list \<Rightarrow> int" where
  "amountWhere P pairs = (\<Sum>(p, t, a)\<leftarrow>pairs. if P p t then a else 0)"

definition attributed :: "int \<Rightarrow> string \<Rightarrow> int \<Rightarrow> string \<Rightarrow> int \<Rightarrow> int" where
  "attributed tot taker taken putter put =
     (if putter = taker \<or> pairAmount taken put tot \<le> 0 then 0 else pairAmount taken put tot)"

lemma amountWhere_append [simp]: "amountWhere P (xs @ ys) = amountWhere P xs + amountWhere P ys"
  by (simp add: amountWhere_def)

lemma amountWhere_inner:
  "amountWhere P (List.map_filter (\<lambda>(putter, put). if putter = taker \<or> pairAmount taken put tot \<le> 0 then None
      else Some (putter, taker, pairAmount taken put tot)) puts) =
   (\<Sum>(putter, put)\<leftarrow>puts. if P putter taker then attributed tot taker taken putter put else 0)"
  by (induction puts) (auto simp: amountWhere_def attributed_def)

lemma amountWhere_pairs:
  assumes "0 < sum_list (map snd puts)"
  shows "amountWhere P (proRataPairs puts takes) =
    (\<Sum>(taker, taken)\<leftarrow>takes. \<Sum>(putter, put)\<leftarrow>puts.
       if P putter taker then attributed (sum_list (map snd puts)) taker taken putter put else 0)"
proof -
  let ?f = "\<lambda>(taker, taken). List.map_filter (\<lambda>(putter, put). if putter = taker \<or> pairAmount taken put (sum_list (map snd puts)) \<le> 0
      then None else Some (putter, taker, pairAmount taken put (sum_list (map snd puts)))) puts"
  have "amountWhere P (concat (map ?f takes)) = (\<Sum>(taker, taken)\<leftarrow>takes. \<Sum>(putter, put)\<leftarrow>puts.
       if P putter taker then attributed (sum_list (map snd puts)) taker taken putter put else 0)"
  proof (induction takes)
    case Nil
    then show ?case by (simp add: amountWhere_def)
  next
    case (Cons x xs)
    then show ?case by (cases x) (simp add: amountWhere_inner)
  qed
  then show ?thesis using assms by (simp add: proRataPairs_def Let_def)
qed

lemma sum_at_key:
  fixes f :: "'b \<Rightarrow> int"
  shows "distinct (keys m) \<Longrightarrow> (\<Sum>(k, v)\<leftarrow>m. if k = a then f v else 0) = (case map_of m a of None \<Rightarrow> 0 | Some v \<Rightarrow> f v)"
proof (induction m)
  case (Cons p m)
  obtain k v where p: "p = (k, v)" by fastforce
  show ?case
  proof (cases "k = a")
    case True
    then have "map_of m a = None" using Cons.prems by (simp add: p map_of_eq_None_iff)
    then show ?thesis using Cons True by (simp add: p)
  next
    case False
    then show ?thesis using Cons by (simp add: p)
  qed
qed simp

lemma attributed_le:
  assumes "0 \<le> taken" "0 \<le> put" "0 < tot"
  shows "attributed tot taker taken putter put \<le> taken * put div tot" "0 \<le> attributed tot taker taken putter put"
  using assms by (auto simp: attributed_def pairAmount_def Let_def sdiv_nonneg pos_imp_zdiv_nonneg_iff)

lemma sum_floors_le:
  assumes "0 < (d :: int)"
  shows "(\<Sum>x\<leftarrow>xs. c * f x div d) \<le> c * (\<Sum>x\<leftarrow>xs. f x) div d"
proof -
  have "(\<Sum>x\<leftarrow>xs. c * f x div d) * d \<le> c * (\<Sum>x\<leftarrow>xs. f x)"
  proof (induction xs)
    case (Cons x xs)
    have "c * f x div d * d \<le> c * f x" using assms by (metis mult.commute mult_div_mod_eq pos_mod_sign le_add_same_cancel1)
    with Cons show ?case by (simp add: algebra_simps)
  qed simp
  then have "(\<Sum>x\<leftarrow>xs. c * f x div d) * d div d \<le> c * (\<Sum>x\<leftarrow>xs. f x) div d"
    using assms by (intro zdiv_mono1)
  then show ?thesis using assms by simp
qed

text \<open>
  C17. The pairing attributes no more than moved: to each taker at most what it took, and, when the
  takers took no more in all than was put, from each putter at most what it put. An agent on both
  sides is never paired with itself.
\<close>

theorem proRataPairs_conserve:
  assumes "distinct (keys puts)" "distinct (keys takes)"
    and "\<forall>(p, n) \<in> set puts. 0 < n" "\<forall>(t, n) \<in> set takes. 0 < n"
  shows "(\<forall>t. amountWhere (\<lambda>_ t'. t' = t) (proRataPairs puts takes) \<le> getOr 0 takes t)
    \<and> (sum_list (map snd takes) \<le> sum_list (map snd puts) \<longrightarrow>
        (\<forall>p. amountWhere (\<lambda>p' _. p' = p) (proRataPairs puts takes) \<le> getOr 0 puts p))
    \<and> amountWhere (\<lambda>p t. p = t) (proRataPairs puts takes) = 0"
proof (cases "0 < sum_list (map snd puts)")
  case False
  then have "proRataPairs puts takes = []" by (simp add: proRataPairs_def Let_def)
  moreover have "0 \<le> getOr 0 takes t" "0 \<le> getOr 0 puts t" for t
    using assms(3,4) by (fastforce simp: getOr_def split: option.splits dest!: map_of_SomeD)+
  ultimately show ?thesis by (simp add: amountWhere_def)
next
  case True
  let ?T = "sum_list (map snd puts)" and ?A = "\<lambda>t n p m. attributed (sum_list (map snd puts)) t n p m"
  note W = amountWhere_pairs [OF True]
  have le: "?A t n p m \<le> n * m div ?T" if "(p, m) \<in> set puts" "(t, n) \<in> set takes" for t n p m
    using that assms(3,4) True by (intro attributed_le) auto
  have taker: "(\<Sum>(p, m)\<leftarrow>puts. ?A t n p m) \<le> n" if "(t, n) \<in> set takes" for t n
  proof -
    have "(\<Sum>(p, m)\<leftarrow>puts. ?A t n p m) \<le> (\<Sum>x\<leftarrow>puts. n * snd x div ?T)"
      using le that by (intro sum_list_mono) auto
    also have "\<dots> \<le> n * (\<Sum>x\<leftarrow>puts. snd x) div ?T" using True by (rule sum_floors_le)
    also have "\<dots> = n" using True by simp
    finally show ?thesis .
  qed
  have putter: "(\<Sum>(t, n)\<leftarrow>takes. ?A t n p m) \<le> m" if "(p, m) \<in> set puts" "sum_list (map snd takes) \<le> ?T" for p m
  proof -
    have "(\<Sum>(t, n)\<leftarrow>takes. ?A t n p m) \<le> (\<Sum>x\<leftarrow>takes. m * snd x div ?T)"
      using le [OF that(1)] by (intro sum_list_mono) (auto simp: mult.commute)
    also have "\<dots> \<le> m * (\<Sum>x\<leftarrow>takes. snd x) div ?T" using True by (rule sum_floors_le)
    also have "\<dots> \<le> m * ?T div ?T"
      using that assms(3) True by (intro zdiv_mono1 mult_left_mono) auto
    finally show ?thesis using True by simp
  qed
  have "amountWhere (\<lambda>_ t'. t' = t) (proRataPairs puts takes) \<le> getOr 0 takes t" for t
  proof -
    have "amountWhere (\<lambda>_ t'. t' = t) (proRataPairs puts takes) =
        (\<Sum>(t', n)\<leftarrow>takes. if t' = t then (\<Sum>(p, m)\<leftarrow>puts. ?A t n p m) else 0)"
      unfolding W by (rule arg_cong [where f = sum_list]) (auto simp: case_prod_unfold)
    also have "\<dots> = (case map_of takes t of None \<Rightarrow> 0 | Some n \<Rightarrow> (\<Sum>(p, m)\<leftarrow>puts. ?A t n p m))"
      by (rule sum_at_key [OF assms(2)])
    also have "\<dots> \<le> getOr 0 takes t"
      using taker by (auto simp: getOr_def split: option.splits dest: map_of_SomeD)
    finally show ?thesis .
  qed
  moreover have "amountWhere (\<lambda>p' _. p' = p) (proRataPairs puts takes) \<le> getOr 0 puts p"
    if "sum_list (map snd takes) \<le> ?T" for p
  proof -
    have "amountWhere (\<lambda>p' _. p' = p) (proRataPairs puts takes) =
        (\<Sum>(t, n)\<leftarrow>takes. case map_of puts p of None \<Rightarrow> 0 | Some m \<Rightarrow> ?A t n p m)"
      unfolding W by (rule arg_cong [where f = sum_list], rule map_cong [OF refl])
        (auto simp: sum_at_key [OF assms(1), symmetric] intro!: arg_cong [where f = sum_list])
    also have "\<dots> = (case map_of puts p of None \<Rightarrow> 0 | Some m \<Rightarrow> (\<Sum>(t, n)\<leftarrow>takes. ?A t n p m))"
      by (cases "map_of puts p") (simp_all add: case_prod_unfold)
    also have "\<dots> \<le> getOr 0 puts p"
      using putter that by (auto simp: getOr_def split: option.splits dest: map_of_SomeD)
    finally show ?thesis .
  qed
  moreover have "amountWhere (\<lambda>p t. p = t) (proRataPairs puts takes) = 0"
  proof -
    have "(if p = t then ?A t n p m else 0) = 0" for p t n m by (simp add: attributed_def)
    then show ?thesis unfolding W by (simp add: case_prod_unfold)
  qed
  ultimately show ?thesis by blast
qed


text \<open>The cap is per pair: two takers who together took twice what was put are both paired with all of it.\<close>

lemma cap_is_per_pair:
  "amountWhere (\<lambda>p' _. p' = ''a'') (proRataPairs [(''a'', 10)] [(''b'', 10), (''c'', 10)]) = 20"
  by code_simp

lemma proRataPairs_conserve_witness:
  "amountWhere (\<lambda>_ t'. t' = ''c'') (proRataPairs [(''a'', 10000), (''b'', 10000)] [(''c'', 10000)]) \<le> getOr 0 [(''c'', 10000)] ''c''"
  using proRataPairs_conserve [of "[(''a'', 10000), (''b'', 10000)]" "[(''c'', 10000)]"] by simp

end
