(* ===== verification/Roster_Report.thy ===== *)
theory Roster_Report
  imports Roster_Transfers
begin

text \<open>
  The report over the movements (\<open>summarizeRosterTransfers\<close> of \<open>core/src/rosterTransfers.ts\<close> and
  \<open>flaggedRosterTransfersByAgent\<close>): one line per route, pair, token and contract, its value and
  threshold, why it is flagged and whose record it goes into. A price in dollars is the parameter
  \<open>units\<close>: the whole units of a raw amount at some decimals (\<open>formatUnits\<close> of the chain library, read
  back as a number). The amount as text and the sentence written for a flag are left out.
\<close>

section \<open>The report\<close>

datatype transferReason = SameParticipant | OverThreshold | Unpriced

datatype flagSide = BothSides | SenderOnly

record rosterTransfer =
  tr_route :: rosterRoute
  tr_from :: string
  tr_to :: string
  tr_sameParticipant :: bool
  tr_participant :: "string option"
  tr_token :: string
  tr_tokenAddress :: "string option"
  tr_amountRaw :: int
  tr_valueUsdc :: "real option"
  tr_count :: nat
  tr_firstBlock :: real
  tr_lastBlock :: real
  tr_via :: "string option"
  tr_flagged :: bool
  tr_reason :: "transferReason option"
  tr_flagSide :: flagSide
  tr_thresholdUsdc :: "real option"

record tokenPricing =
  tp_symbol :: string
  tp_decimals :: nat
  tp_priceUsdc :: "real option"

record rosterPricing =
  rp_ethUsdc :: real
  rp_tokens :: "(string \<times> tokenPricing) list"

record transferGroup =
  tg_m :: rosterMovement
  tg_amountRaw :: int
  tg_count :: nat
  tg_firstBlock :: real
  tg_lastBlock :: real

definition routeName :: "rosterRoute \<Rightarrow> string" where
  "routeName r = (case r of RouteEth \<Rightarrow> ''eth'' | RouteErc20 \<Rightarrow> ''erc20'' | RouteContract \<Rightarrow> ''contract''
     | RouteLending \<Rightarrow> ''lending'' | RouteLiquidation \<Rightarrow> ''liquidation'')"

definition groupKey :: "rosterMovement \<Rightarrow> string" where
  "groupKey m = joinOn ''|'' [routeName (mv_route m), mv_from m, mv_to m,
     (case mv_token m of None \<Rightarrow> ''eth'' | Some t \<Rightarrow> t), (case mv_via m of None \<Rightarrow> [] | Some v \<Rightarrow> v)]"

definition newGroup :: "rosterMovement \<Rightarrow> transferGroup" where
  "newGroup m = \<lparr>tg_m = m, tg_amountRaw = mv_amountRaw m, tg_count = 1, tg_firstBlock = mv_block m, tg_lastBlock = mv_block m\<rparr>"

definition absorb :: "transferGroup \<Rightarrow> rosterMovement \<Rightarrow> transferGroup" where
  "absorb g m = g\<lparr>tg_amountRaw := tg_amountRaw g + mv_amountRaw m, tg_count := tg_count g + 1,
     tg_firstBlock := min (tg_firstBlock g) (mv_block m), tg_lastBlock := max (tg_lastBlock g) (mv_block m)\<rparr>"

definition groupStep :: "(string \<times> transferGroup) list \<Rightarrow> rosterMovement \<Rightarrow> (string \<times> transferGroup) list" where
  "groupStep groups m =
     (case map_of groups (groupKey m) of
        Some g \<Rightarrow> AList.update (groupKey m) (absorb g m) groups
      | None \<Rightarrow> AList.update (groupKey m) (newGroup m) groups)"

definition priceMovement ::
    "(int \<Rightarrow> nat \<Rightarrow> real) \<Rightarrow> string option \<Rightarrow> int \<Rightarrow> rosterPricing \<Rightarrow> string \<times> real option" where
  "priceMovement units token amountRaw pricing =
     (case token of
        None \<Rightarrow> (''ETH'', Some (units amountRaw 18 * rp_ethUsdc pricing))
      | Some t \<Rightarrow>
          (case map_of (rp_tokens pricing) t of
             None \<Rightarrow> (t, None)
           | Some info \<Rightarrow> (tp_symbol info, map_option (\<lambda>p. units amountRaw (tp_decimals info) * p) (tp_priceUsdc info))))"

definition thresholdUsdc :: "rosterAgent option \<Rightarrow> rosterAgent option \<Rightarrow> real \<Rightarrow> real" where
  "thresholdUsdc sender receiver bps =
     (let values = List.map_filter (\<lambda>a. case Option.bind (Option.bind a ra_initialValueUsdc) finVal of
                      Some v \<Rightarrow> if 0 < v then Some v else None | None \<Rightarrow> None) [sender, receiver]
      in case values of [] \<Rightarrow> 0 | v # vs \<Rightarrow> foldr min vs v * max 0 bps / 10000)"

definition isDirect :: "rosterRoute \<Rightarrow> bool" where
  "isDirect r \<longleftrightarrow> r = RouteEth \<or> r = RouteErc20"

definition sameUnit :: "rosterAgent option \<Rightarrow> rosterAgent option \<Rightarrow> bool" where
  "sameUnit a b \<longleftrightarrow> Option.bind a ra_participant \<noteq> None \<and> Option.bind a ra_participant = Option.bind b ra_participant"

definition verdict :: "bool \<Rightarrow> rosterRoute \<Rightarrow> real option \<Rightarrow> real \<Rightarrow> transferReason option \<times> flagSide" where
  "verdict same route v threshold =
     (if same then (Some SameParticipant, BothSides)
      else (case v of
        Some x \<Rightarrow> if isDirect route \<and> threshold \<le> x then (Some OverThreshold, BothSides) else (None, BothSides)
      | None \<Rightarrow> if isDirect route then (Some Unpriced, SenderOnly) else (None, BothSides)))"

definition transferOf ::
    "(int \<Rightarrow> nat \<Rightarrow> real) \<Rightarrow> (string \<times> rosterAgent) list \<Rightarrow> rosterPricing \<Rightarrow> real \<Rightarrow> transferGroup \<Rightarrow> rosterTransfer" where
  "transferOf units byId pricing thresholdBps g =
     (let m = tg_m g; sender = map_of byId (mv_from m); receiver = map_of byId (mv_to m);
          same = sameUnit sender receiver;
          (token, v) = priceMovement units (mv_token m) (tg_amountRaw g) pricing;
          threshold = thresholdUsdc sender receiver thresholdBps;
          (reason, side) = verdict same (mv_route m) v threshold
      in \<lparr>tr_route = mv_route m, tr_from = mv_from m, tr_to = mv_to m, tr_sameParticipant = same,
          tr_participant = (if same then Option.bind sender ra_participant else None),
          tr_token = token, tr_tokenAddress = mv_token m, tr_amountRaw = tg_amountRaw g, tr_valueUsdc = v,
          tr_count = tg_count g, tr_firstBlock = tg_firstBlock g, tr_lastBlock = tg_lastBlock g,
          tr_via = mv_via m, tr_flagged = (reason \<noteq> None), tr_reason = reason, tr_flagSide = side,
          tr_thresholdUsdc = (if same then None else Some threshold)\<rparr>)"

definition transferLe :: "(string \<Rightarrow> string \<Rightarrow> int) \<Rightarrow> rosterTransfer \<Rightarrow> rosterTransfer \<Rightarrow> bool" where
  "transferLe lc a b =
     (let av = (case tr_valueUsdc a of None \<Rightarrow> - 1 | Some v \<Rightarrow> v); bv = (case tr_valueUsdc b of None \<Rightarrow> - 1 | Some v \<Rightarrow> v)
      in if av \<noteq> bv then bv \<le> av
         else lc (joinOn ''|'' [tr_from a, tr_to a, routeName (tr_route a), tr_token a])
                 (joinOn ''|'' [tr_from b, tr_to b, routeName (tr_route b), tr_token b]) \<le> 0)"

definition summarizeRosterTransfers ::
    "(string \<Rightarrow> string \<Rightarrow> int) \<Rightarrow> (int \<Rightarrow> nat \<Rightarrow> real) \<Rightarrow> rosterMovement list \<Rightarrow> rosterAgent list \<Rightarrow> rosterPricing
     \<Rightarrow> real \<Rightarrow> rosterTransfer list" where
  "summarizeRosterTransfers lc units movements agents pricing thresholdBps =
     (let byId = foldl (\<lambda>m a. AList.update (ra_id a) a m) [] agents;
          groups = foldl groupStep [] movements
      in sortBy (transferLe lc) (map (transferOf units byId pricing thresholdBps \<circ> snd) groups))"

definition sidesOf :: "rosterTransfer \<Rightarrow> string list" where
  "sidesOf t = (if tr_flagSide t = SenderOnly then [tr_from t] else [tr_from t, tr_to t])"

definition flaggedRosterTransfersByAgent :: "rosterTransfer list \<Rightarrow> (string \<times> rosterTransfer list) list" where
  "flaggedRosterTransfersByAgent transfers =
     foldl (\<lambda>m t. if tr_flagged t then foldl (\<lambda>m aid. AList.update aid (getOr [] m aid @ [t]) m) m (sidesOf t) else m) [] transfers"

section \<open>The report accounts for every movement once\<close>

lemma groupStep_get:
  "map_of (groupStep gs m) k =
     (if k = groupKey m then Some (case map_of gs k of Some g \<Rightarrow> absorb g m | None \<Rightarrow> newGroup m) else map_of gs k)"
  by (auto simp: groupStep_def split: option.splits)

lemma groupStep_fold:
  "map_of (foldl groupStep gs ms) k =
     (case map_of gs k of
        Some g \<Rightarrow> Some (foldl absorb g (filter (\<lambda>m. groupKey m = k) ms))
      | None \<Rightarrow> (case filter (\<lambda>m. groupKey m = k) ms of [] \<Rightarrow> None | m # rest \<Rightarrow> Some (foldl absorb (newGroup m) rest)))"
proof (induction ms arbitrary: gs)
  case (Cons m ms)
  show ?case unfolding foldl_Cons Cons.IH groupStep_get by (auto split: option.splits)
qed (simp split: option.split)

lemma absorb_fold [simp]:
  "tg_m (foldl absorb g ms) = tg_m g"
  "tg_amountRaw (foldl absorb g ms) = tg_amountRaw g + sum_list (map mv_amountRaw ms)"
  "tg_count (foldl absorb g ms) = tg_count g + length ms"
  by (induction ms arbitrary: g) (simp_all add: absorb_def)

lemma newGroup_simps [simp]: "tg_m (newGroup m) = m" "tg_amountRaw (newGroup m) = mv_amountRaw m" "tg_count (newGroup m) = 1"
  by (simp_all add: newGroup_def)

lemma groups_keys:
  "distinct (keys gs) \<Longrightarrow> distinct (keys (foldl groupStep gs ms))
   \<and> set (keys (foldl groupStep gs ms)) = set (keys gs) \<union> groupKey ` set ms"
proof (induction ms arbitrary: gs)
  case (Cons m ms)
  have "distinct (keys (groupStep gs m))" "set (keys (groupStep gs m)) = insert (groupKey m) (set (keys gs))"
    using Cons.prems by (auto simp: groupStep_def split: option.splits)
  with Cons.IH [of "groupStep gs m"] show ?case by auto
qed simp

text \<open>No field of the key has its separator, and the placeholders of absent fields are not used.\<close>

definition plainMovement :: "rosterMovement \<Rightarrow> bool" where
  "plainMovement m \<longleftrightarrow> CHR ''|'' \<notin> set (mv_from m) \<union> set (mv_to m)
     \<and> (case mv_token m of None \<Rightarrow> True | Some t \<Rightarrow> CHR ''|'' \<notin> set t \<and> t \<noteq> ''eth'')
     \<and> (case mv_via m of None \<Rightarrow> True | Some v \<Rightarrow> CHR ''|'' \<notin> set v \<and> v \<noteq> [])"

definition pathOf :: "rosterMovement \<Rightarrow> rosterRoute \<times> string \<times> string \<times> string option \<times> string option" where
  "pathOf m = (mv_route m, mv_from m, mv_to m, mv_token m, mv_via m)"

definition transferPath :: "rosterTransfer \<Rightarrow> rosterRoute \<times> string \<times> string \<times> string option \<times> string option" where
  "transferPath t = (tr_route t, tr_from t, tr_to t, tr_tokenAddress t, tr_via t)"

lemma routeName_plain [simp]: "CHR ''|'' \<notin> set (routeName r)"
  by (cases r) (auto simp: routeName_def)

lemma routeName_inj [simp]: "routeName a = routeName b \<longleftrightarrow> a = b"
  by (cases a; cases b) (auto simp: routeName_def)

lemma groupKey_path:
  assumes "plainMovement m" "plainMovement m'"
  shows "groupKey m = groupKey m' \<longleftrightarrow> pathOf m = pathOf m'"
proof
  assume eq: "groupKey m = groupKey m'"
  let ?l = "\<lambda>m. [routeName (mv_route m), mv_from m, mv_to m,
     (case mv_token m of None \<Rightarrow> ''eth'' | Some t \<Rightarrow> t), (case mv_via m of None \<Rightarrow> [] | Some v \<Rightarrow> v)]"
  have "splitOn (CHR ''|'') (groupKey m) = ?l m" if "plainMovement m" for m
    unfolding groupKey_def using that by (intro split_join) (auto simp: plainMovement_def split: option.splits)
  then have "?l m = ?l m'" using assms eq by metis
  then show "pathOf m = pathOf m'"
    using assms by (auto simp: pathOf_def plainMovement_def split: option.splits)
next
  assume "pathOf m = pathOf m'"
  then show "groupKey m = groupKey m'" by (simp add: pathOf_def groupKey_def)
qed

lemma transferOf_fields [simp]:
  "transferPath (transferOf units byId pricing bps g) = pathOf (tg_m g)"
  "tr_amountRaw (transferOf units byId pricing bps g) = tg_amountRaw g"
  "tr_count (transferOf units byId pricing bps g) = tg_count g"
  by (simp_all add: transferOf_def transferPath_def pathOf_def Let_def split: prod.splits)

text \<open>
  C18. The report loses and repeats nothing: it has exactly one line for every route, pair, token and
  contract along which something moved, with the sum and the number of just those movements.
\<close>

theorem report_accounts:
  assumes "\<forall>m \<in> set movements. plainMovement m"
    and "report = summarizeRosterTransfers lc units movements agents pricing bps"
  shows "distinct (map transferPath report) \<and> transferPath ` set report = pathOf ` set movements
    \<and> (\<forall>t \<in> set report. tr_amountRaw t = (\<Sum>m\<leftarrow>filter (\<lambda>m. pathOf m = transferPath t) movements. mv_amountRaw m)
         \<and> tr_count t = length (filter (\<lambda>m. pathOf m = transferPath t) movements))"
proof -
  let ?gs = "foldl groupStep [] movements"
  let ?f = "transferOf units (foldl (\<lambda>m a. AList.update (ra_id a) a m) [] agents) pricing bps \<circ> snd"
  have keys: "distinct (keys ?gs)" "set (keys ?gs) = groupKey ` set movements"
    using groups_keys [of "[]" movements] by simp_all
  have group: "\<exists>m. m \<in> set movements \<and> tg_m (snd p) = m \<and> groupKey m = fst p
      \<and> tg_amountRaw (snd p) = (\<Sum>m\<leftarrow>filter (\<lambda>m'. pathOf m' = pathOf m) movements. mv_amountRaw m)
      \<and> tg_count (snd p) = length (filter (\<lambda>m'. pathOf m' = pathOf m) movements)" if p: "p \<in> set ?gs" for p
  proof -
    have "map_of ?gs (fst p) = Some (snd p)" using keys(1) p by (simp add: map_of_eq_Some_iff)
    then obtain m rest where f: "filter (\<lambda>m. groupKey m = fst p) movements = m # rest"
      and e: "foldl absorb (newGroup m) rest = snd p"
      by (auto simp: groupStep_fold split: list.splits)
    note m = f absorb_fold [of "newGroup m" rest, unfolded e newGroup_simps]
    have "m \<in> set (filter (\<lambda>m. groupKey m = fst p) movements)" by (simp add: f)
    then have mem: "m \<in> set movements" "groupKey m = fst p" by simp_all
    then have "groupKey m' = fst p \<longleftrightarrow> pathOf m' = pathOf m" if "m' \<in> set movements" for m'
      using groupKey_path [of m' m] assms(1) that by simp
    then have "filter (\<lambda>m'. pathOf m' = pathOf m) movements = m # rest"
      unfolding f [symmetric] by (intro filter_cong) simp_all
    then show ?thesis using m mem by simp
  qed
  have set_report: "set report = ?f ` set ?gs" by (simp add: assms(2) summarizeRosterTransfers_def Let_def)
  have path: "transferPath (?f p) = pathOf (tg_m (snd p))" for p by simp
  have inj: "inj_on (\<lambda>p. pathOf (tg_m (snd p))) (set ?gs)"
  proof (rule inj_onI)
    fix p q assume "p \<in> set ?gs" "q \<in> set ?gs" "pathOf (tg_m (snd p)) = pathOf (tg_m (snd q))"
    then have "fst p = fst q" using group [of p] group [of q] assms(1) groupKey_path by metis
    then show "p = q" using keys(1) \<open>p \<in> _\<close> \<open>q \<in> _\<close> by (metis eq_key_imp_eq_value prod.collapse)
  qed
  have "distinct (map (\<lambda>p. pathOf (tg_m (snd p))) ?gs)"
    using keys(1) inj by (simp add: distinct_map)
  then have "distinct (map transferPath report)"
    unfolding assms(2) summarizeRosterTransfers_def Let_def by (simp add: distinct_map_sortBy comp_def)
  moreover have "transferPath ` set report = pathOf ` set movements"
  proof
    show "transferPath ` set report \<subseteq> pathOf ` set movements"
      unfolding set_report using group by (fastforce simp: path)
    show "pathOf ` set movements \<subseteq> transferPath ` set report"
    proof
      fix x assume "x \<in> pathOf ` set movements"
      then obtain m where m: "m \<in> set movements" "x = pathOf m" by blast
      then have "groupKey m \<in> set (keys ?gs)" unfolding keys(2) by blast
      then obtain p where p: "p \<in> set ?gs" "fst p = groupKey m" by auto
      then have "pathOf (tg_m (snd p)) = pathOf m" using group [OF p(1)] m(1) assms(1) groupKey_path by metis
      then have "x = transferPath (?f p)" using m(2) path [of p] by simp
      moreover have "?f p \<in> set report" unfolding set_report using p(1) by (rule imageI)
      ultimately show "x \<in> transferPath ` set report" by blast
    qed
  qed
  moreover have "tr_amountRaw t = (\<Sum>m\<leftarrow>filter (\<lambda>m. pathOf m = transferPath t) movements. mv_amountRaw m)
         \<and> tr_count t = length (filter (\<lambda>m. pathOf m = transferPath t) movements)" if mem: "t \<in> set report" for t
  proof -
    obtain p where p: "t = ?f p" "p \<in> set ?gs" using mem unfolding set_report by (rule imageE)
    from group [OF p(2)] show ?thesis by (auto simp: p(1))
  qed
  ultimately show ?thesis by blast
qed

section \<open>Who is charged\<close>

lemma pushSides:
  "t \<in> set (getOr [] (foldl (\<lambda>m aid. AList.update aid (getOr [] m aid @ [x]) m) m ids) aid) \<longleftrightarrow>
     t \<in> set (getOr [] m aid) \<or> (t = x \<and> aid \<in> set ids)"
  by (induction ids arbitrary: m) auto

lemma flagged_mem:
  "t \<in> set (getOr [] (flaggedRosterTransfersByAgent ts) aid) \<longleftrightarrow> t \<in> set ts \<and> tr_flagged t \<and> aid \<in> set (sidesOf t)"
proof -
  have "t \<in> set (getOr [] (foldl (\<lambda>m t. if tr_flagged t then foldl (\<lambda>m aid. AList.update aid (getOr [] m aid @ [t]) m) m (sidesOf t) else m) m ts) aid)
    \<longleftrightarrow> t \<in> set (getOr [] m aid) \<or> (t \<in> set ts \<and> tr_flagged t \<and> aid \<in> set (sidesOf t))" for m
    by (induction ts arbitrary: m) (auto simp: pushSides)
  then show ?thesis by (simp add: flaggedRosterTransfersByAgent_def)
qed

text \<open>
  Nobody's record can be written by a stranger: a transfer stands in an agent's record only if
  the agent is one of its ends, and, where it only received, only if both are one unit or the
  transfer was direct, could be priced and reached the pair's threshold. And a flag is never lost:
  every flagged transfer stands in its sender's record.
\<close>

theorem flags_need_a_stake:
  assumes "report = summarizeRosterTransfers lc units movements agents pricing bps"
    and "t \<in> set (getOr [] (flaggedRosterTransfersByAgent report) aid)"
  shows "(aid = tr_from t \<or> (aid = tr_to t \<and>
      (tr_sameParticipant t \<or> isDirect (tr_route t) \<and> (\<exists>v th. tr_valueUsdc t = Some v \<and> tr_thresholdUsdc t = Some th \<and> th \<le> v))))
    \<and> t \<in> set (getOr [] (flaggedRosterTransfersByAgent report) (tr_from t))"
proof -
  have t: "t \<in> set report" "tr_flagged t" "aid \<in> set (sidesOf t)" using assms(2) by (simp_all add: flagged_mem)
  then obtain byId g where g: "t = transferOf units byId pricing bps g"
    by (auto simp: assms(1) summarizeRosterTransfers_def Let_def)
  have "tr_from t \<in> set (sidesOf t)" by (simp add: sidesOf_def)
  moreover have "tr_flagSide t = BothSides \<Longrightarrow> tr_sameParticipant t \<or>
      isDirect (tr_route t) \<and> (\<exists>v th. tr_valueUsdc t = Some v \<and> tr_thresholdUsdc t = Some th \<and> th \<le> v)"
    using t(2) unfolding g
    by (auto simp: transferOf_def verdict_def Let_def split: prod.splits option.splits if_splits)
  ultimately show ?thesis
    using t by (cases "tr_flagSide t") (auto simp: flagged_mem sidesOf_def)
qed

section \<open>Applied\<close>

definition payment :: rosterMovement where
  "payment = \<lparr>mv_route = RouteErc20, mv_from = ''a'', mv_to = ''b'', mv_token = Some ''0xf'', mv_amountRaw = 1, mv_block = 7,
     mv_via = None, mv_viaKind = None, mv_viaCreator = None\<rparr>"

definition paymentReport :: "rosterTransfer list" where
  "paymentReport = summarizeRosterTransfers (\<lambda>_ _. 0) (\<lambda>n d. of_int n) [payment, payment] []
     \<lparr>rp_ethUsdc = 2000, rp_tokens = []\<rparr> 100"

lemma paymentReport_eq:
  "paymentReport = [transferOf (\<lambda>n d. of_int n) [] \<lparr>rp_ethUsdc = 2000, rp_tokens = []\<rparr> 100 (absorb (newGroup payment) payment)]"
  by (simp add: paymentReport_def summarizeRosterTransfers_def groupStep_def Let_def)

lemma report_accounts_witness:
  "distinct (map transferPath paymentReport) \<and> transferPath ` set paymentReport = pathOf ` {payment}"
  using report_accounts [of "[payment, payment]" paymentReport "\<lambda>_ _. 0" "\<lambda>n d. of_int n" "[]"
      "\<lparr>rp_ethUsdc = 2000, rp_tokens = []\<rparr>" 100]
  by (simp add: paymentReport_def plainMovement_def payment_def)

lemma flags_need_a_stake_witness:
  "hd paymentReport \<in> set (getOr [] (flaggedRosterTransfersByAgent paymentReport) (tr_from (hd paymentReport)))"
proof -
  have "hd paymentReport \<in> set (getOr [] (flaggedRosterTransfersByAgent paymentReport) ''a'')"
    unfolding flagged_mem
    by (simp add: paymentReport_eq transferOf_def verdict_def sameUnit_def priceMovement_def isDirect_def sidesOf_def
        absorb_def newGroup_def payment_def Let_def)
  from flags_need_a_stake [OF paymentReport_def this] show ?thesis by blast
qed

end
