(* ===== verification/Markets.thy ===== *)
theory Markets
  imports Prelude
begin

text \<open>
  The token registry, the markets of every venue and the stables the run prices (\<open>sdk/src/markets.ts\<close>,
  the first half of \<open>sdk/src/stables.ts\<close>, the deployment tables of \<open>sdk/src/constants.ts\<close> and the list of
  enabled venues of \<open>sdk/src/protocols/registry.ts\<close>). What the deployment decides (addresses and which
  legs exist) is the record \<open>deployment\<close>; \<open>forkDeployment\<close> is the table the code falls back to.
\<close>

section \<open>The deployment\<close>

datatype protocolId = Uniswap | Balancer | Curve | Aave | Gmx | Lst | Liquity | Lending

record tokenDef =
  td_address :: string
  td_decimals :: nat

record uniswapLeg =
  ul_pool :: string
  ul_fee :: int
  ul_tickSpacing :: int

record balancerLeg =
  bl_poolId :: string
  bl_tokens :: "string list"
  bl_stable :: string

record curveLeg =
  cl_pool :: string
  cl_baseIndex :: nat
  cl_quoteIndex :: nat
  cl_stable :: string

record marketLegs =
  ml_uniswap :: "(string \<times> uniswapLeg) list"
  ml_balancer :: "(string \<times> balancerLeg) list"
  ml_curve :: "(string \<times> curveLeg) list"
  ml_gmx :: "(string \<times> string) list"
  ml_aave :: "(string \<times> unit) list"

record stableMarketLeg =
  sm_pool :: string
  sm_stableIndex :: nat
  sm_quoteIndex :: nat
  sm_venue :: protocolId

record deployment =
  dep_tokens :: "(string \<times> tokenDef) list"
  dep_legs :: marketLegs
  dep_stableLegs :: "(string \<times> stableMarketLeg) list"
  dep_balancerStable :: string
  dep_curveStable :: string
  dep_lstListed :: bool

definition usdcAddress :: "deployment \<Rightarrow> string" where
  "usdcAddress d = (case map_of (dep_tokens d) ''USDC'' of Some t \<Rightarrow> td_address t | None \<Rightarrow> [])"

section \<open>Tokens\<close>

datatype tokenKind = Base | Stable | LstKind

definition STABLE_SYMBOLS :: "string list" where
  "STABLE_SYMBOLS = [''USDC'', ''USDT'', ''DAI'', ''USDC.e'', ''EUSD'']"

definition kindOf :: "string \<Rightarrow> tokenKind" where
  "kindOf symbol =
     (if symbol \<in> set STABLE_SYMBOLS then Stable else if symbol = ''LST'' then LstKind else Base)"

record tokenInfo =
  ti_symbol :: string
  ti_address :: string
  ti_decimals :: nat
  ti_kind :: tokenKind

datatype marketError = UnknownToken string | NoMarket protocolId string | NoLeg protocolId string

definition tokenInfo :: "deployment \<Rightarrow> string \<Rightarrow> marketError + tokenInfo" where
  "tokenInfo d symbol =
     (case map_of (dep_tokens d) symbol of
        None \<Rightarrow> Inl (UnknownToken symbol)
      | Some t \<Rightarrow> Inr \<lparr>ti_symbol = symbol, ti_address = td_address t, ti_decimals = td_decimals t, ti_kind = kindOf symbol\<rparr>)"

definition infoOf :: "string \<times> tokenDef \<Rightarrow> tokenInfo" where
  "infoOf e = \<lparr>ti_symbol = fst e, ti_address = td_address (snd e), ti_decimals = td_decimals (snd e), ti_kind = kindOf (fst e)\<rparr>"

definition tokenInfoByAddress :: "deployment \<Rightarrow> string \<Rightarrow> tokenInfo option" where
  "tokenInfoByAddress d address =
     map_option infoOf (find (\<lambda>e. toLower (td_address (snd e)) = toLower address) (dep_tokens d))"

definition tokenRegistry :: "deployment \<Rightarrow> (string \<times> tokenInfo) list" where
  "tokenRegistry d = map (\<lambda>e. (fst e, infoOf e)) (dep_tokens d)"

definition baseTokens :: "deployment \<Rightarrow> tokenInfo list" where
  "baseTokens d = filter (\<lambda>t. ti_kind t = Base) (map snd (tokenRegistry d))"

definition stableTokens :: "deployment \<Rightarrow> tokenInfo list" where
  "stableTokens d = filter (\<lambda>t. ti_kind t = Stable) (map snd (tokenRegistry d))"

section \<open>Markets\<close>

record marketConfig =
  mk_key :: string
  mk_protocol :: protocolId
  mk_base :: string
  mk_quote :: string
  mk_uniswap :: "uniswapLeg option"
  mk_balancer :: "balancerLeg option"
  mk_curve :: "curveLeg option"
  mk_gmx :: "string option"
  mk_aave :: bool

definition plainMarket :: "protocolId \<Rightarrow> string \<Rightarrow> marketConfig" where
  "plainMarket p base =
     \<lparr>mk_key = base @ ''/USDC'', mk_protocol = p, mk_base = base, mk_quote = ''USDC'', mk_uniswap = None,
      mk_balancer = None, mk_curve = None, mk_gmx = None, mk_aave = False\<rparr>"

definition marketsFor :: "deployment \<Rightarrow> protocolId \<Rightarrow> marketConfig list" where
  "marketsFor d p =
     (case p of
        Uniswap \<Rightarrow> map (\<lambda>(b, l). (plainMarket p b)\<lparr>mk_uniswap := Some l\<rparr>) (ml_uniswap (dep_legs d))
      | Balancer \<Rightarrow> map (\<lambda>(b, l). (plainMarket p b)\<lparr>mk_balancer := Some l\<rparr>) (ml_balancer (dep_legs d))
      | Curve \<Rightarrow> map (\<lambda>(b, l). (plainMarket p b)\<lparr>mk_curve := Some l\<rparr>) (ml_curve (dep_legs d))
      | Gmx \<Rightarrow> map (\<lambda>(b, l). (plainMarket p b)\<lparr>mk_gmx := Some l\<rparr>) (ml_gmx (dep_legs d))
      | Aave \<Rightarrow> map (\<lambda>(b, l). (plainMarket p b)\<lparr>mk_aave := True\<rparr>) (ml_aave (dep_legs d))
      | _ \<Rightarrow> [])"

definition marketFor :: "deployment \<Rightarrow> protocolId \<Rightarrow> string \<Rightarrow> marketConfig option" where
  "marketFor d p base = find (\<lambda>m. mk_base m = base) (marketsFor d p)"

definition defaultBaseFor :: "deployment \<Rightarrow> protocolId \<Rightarrow> string" where
  "defaultBaseFor d p =
     (case marketFor d p ''WETH'' of
        Some m \<Rightarrow> mk_base m
      | None \<Rightarrow> (case marketsFor d p of m # _ \<Rightarrow> mk_base m | [] \<Rightarrow> ''WETH''))"

definition gmxMarketAddresses :: "deployment \<Rightarrow> (string \<times> string) list" where
  "gmxMarketAddresses d =
     fold (\<lambda>m out. case mk_gmx m of Some a \<Rightarrow> AList.update (mk_base m) a out | None \<Rightarrow> out) (marketsFor d Gmx) []"

text \<open>A \<open>Set\<close> that keeps its order of insertion; the comparator of the sort puts \<open>WETH\<close> first.\<close>

definition addSeen :: "'a \<Rightarrow> 'a list \<Rightarrow> 'a list" where
  "addSeen x seen = (if x \<in> set seen then seen else seen @ [x])"

definition wethFirst :: "string \<Rightarrow> string \<Rightarrow> bool" where
  "wethFirst a b \<longleftrightarrow> a = ''WETH'' \<or> b \<noteq> ''WETH''"

definition activeBaseSymbols :: "deployment \<Rightarrow> protocolId list \<Rightarrow> string list" where
  "activeBaseSymbols d protocols =
     sortBy wethFirst (fold (\<lambda>p seen. fold (\<lambda>m. addSeen (mk_base m)) (marketsFor d p) seen) protocols [])"

definition resolveMarket :: "deployment \<Rightarrow> protocolId \<Rightarrow> string option \<Rightarrow> marketError + marketConfig" where
  "resolveMarket d p base =
     (let b = (case base of Some b \<Rightarrow> b | None \<Rightarrow> ''WETH'') in
      case marketFor d p b of None \<Rightarrow> Inl (NoMarket p b) | Some m \<Rightarrow> Inr m)"

section \<open>Stables with a market of their own\<close>

record stableMarket =
  st_symbol :: string
  st_token :: string
  st_decimals :: nat
  st_venue :: protocolId
  st_pool :: string
  st_stableIndex :: nat
  st_quoteIndex :: nat
  st_probeStableUnits :: int
  st_probeQuoteUnits :: int

definition probeUnits :: "nat \<Rightarrow> int" where
  "probeUnits decimals = 1000 * 10 ^ decimals"

definition stableMarketOf :: "deployment \<Rightarrow> string \<times> stableMarketLeg \<Rightarrow> stableMarket option" where
  "stableMarketOf d e =
     (case map_of (dep_tokens d) (fst e) of
        None \<Rightarrow> None
      | Some info \<Rightarrow>
          if toLower (td_address info) = toLower (usdcAddress d) then None
          else Some \<lparr>st_symbol = fst e, st_token = td_address info, st_decimals = td_decimals info,
                 st_venue = sm_venue (snd e), st_pool = sm_pool (snd e), st_stableIndex = sm_stableIndex (snd e),
                 st_quoteIndex = sm_quoteIndex (snd e), st_probeStableUnits = probeUnits (td_decimals info),
                 st_probeQuoteUnits = probeUnits (case map_of (dep_tokens d) ''USDC'' of Some t \<Rightarrow> td_decimals t | None \<Rightarrow> 0)\<rparr>)"

definition allMarkets :: "deployment \<Rightarrow> stableMarket list" where
  "allMarkets d = List.map_filter (stableMarketOf d) (dep_stableLegs d)"

definition marketPricedStables :: "deployment \<Rightarrow> protocolId list \<Rightarrow> string list option \<Rightarrow> stableMarket list" where
  "marketPricedStables d enabled tokens =
     filter (\<lambda>m. st_venue m \<in> set enabled
        \<and> (case tokens of None \<Rightarrow> True | Some ts \<Rightarrow> toLower (st_token m) \<in> set (map toLower ts))) (allMarkets d)"

definition stablesForProtocols :: "deployment \<Rightarrow> protocolId list \<Rightarrow> stableMarket list" where
  "stablesForProtocols d protocols = filter (\<lambda>m. st_venue m \<in> set protocols) (allMarkets d)"

definition stableMarketBySymbol :: "deployment \<Rightarrow> protocolId list \<Rightarrow> string \<Rightarrow> stableMarket option" where
  "stableMarketBySymbol d enabled symbol = find (\<lambda>m. st_symbol m = symbol) (marketPricedStables d enabled None)"

definition stableMarketFor :: "deployment \<Rightarrow> protocolId list \<Rightarrow> string \<Rightarrow> stableMarket option" where
  "stableMarketFor d enabled token =
     find (\<lambda>m. toLower (st_token m) = toLower token) (marketPricedStables d enabled None)"

definition isParStable :: "deployment \<Rightarrow> string \<Rightarrow> bool" where
  "isParStable d token \<longleftrightarrow> \<not> list_ex (\<lambda>m. toLower (st_token m) = toLower token) (allMarkets d)"

section \<open>The venues of a run\<close>

definition ALL_PROTOCOL_IDS :: "protocolId list" where
  "ALL_PROTOCOL_IDS = [Uniswap, Balancer, Curve, Aave, Gmx, Lst, Liquity, Lending]"

definition LOCAL_ONLY_PROTOCOL_IDS :: "protocolId list" where
  "LOCAL_ONLY_PROTOCOL_IDS = [Lst, Liquity, Lending]"

definition DEFAULT_PROTOCOL_IDS :: "protocolId list" where
  "DEFAULT_PROTOCOL_IDS = filter (\<lambda>p. p \<notin> set LOCAL_ONLY_PROTOCOL_IDS) ALL_PROTOCOL_IDS"

definition resolveEnabledProtocolIds :: "protocolId list \<Rightarrow> protocolId list" where
  "resolveEnabledProtocolIds ids =
     (let filtered = filter (\<lambda>p. p \<in> set ALL_PROTOCOL_IDS) ids
      in if filtered \<noteq> [] then filtered else DEFAULT_PROTOCOL_IDS)"

text \<open>\<open>adapter.stableToken\<close>; the venues without one give \<open>undefined\<close>.\<close>

definition stableTokenOf :: "deployment \<Rightarrow> protocolId \<Rightarrow> string option" where
  "stableTokenOf d p =
     (case p of Uniswap \<Rightarrow> Some (usdcAddress d) | Balancer \<Rightarrow> Some (dep_balancerStable d)
      | Curve \<Rightarrow> Some (dep_curveStable d) | Aave \<Rightarrow> Some (usdcAddress d) | Gmx \<Rightarrow> Some (usdcAddress d) | _ \<Rightarrow> None)"

text \<open>
  \<open>setActiveStables\<close> and \<open>setActiveBases\<close> of \<open>sdk/src/chain.ts\<close>: the tokens the accounting sweeps, the
  run's own first, each address once whatever its case.
\<close>

definition addAddress :: "string \<Rightarrow> string set \<times> string list \<Rightarrow> string set \<times> string list" where
  "addAddress a st =
     (let lower = toLower a
      in if lower \<in> fst st then st else (insert lower (fst st), snd st @ [a]))"

definition setActiveStables :: "deployment \<Rightarrow> string list \<Rightarrow> string list" where
  "setActiveStables d addresses = snd (fold addAddress (usdcAddress d # addresses) ({}, []))"

definition setActiveBases :: "string \<Rightarrow> string list \<Rightarrow> string list" where
  "setActiveBases weth addresses = snd (fold addAddress (weth # addresses) ({}, []))"

record venueSetup =
  vs_enabled :: "protocolId list"
  vs_stables :: "string list"
  vs_bases :: "string list"

definition venueStables :: "deployment \<Rightarrow> protocolId list \<Rightarrow> string list" where
  "venueStables d ids = List.map_filter (stableTokenOf d) ids @ map st_token (stablesForProtocols d ids)"

definition initProtocols :: "deployment \<Rightarrow> protocolId list \<Rightarrow> marketError + venueSetup" where
  "initProtocols d ids =
     (let enabled = resolveEnabledProtocolIds ids
      in bindR (mapR (tokenInfo d) (activeBaseSymbols d enabled)) (\<lambda>infos.
           bindR (tokenInfo d ''WETH'') (\<lambda>weth.
           Inr \<lparr>vs_enabled = enabled, vs_stables = setActiveStables d (venueStables d enabled),
             vs_bases = setActiveBases (ti_address weth) (map ti_address infos)\<rparr>)))"

text \<open>The tables the code falls back to when nothing was deployed locally.\<close>

definition forkTokens :: "(string \<times> tokenDef) list" where
  "forkTokens =
     [(''WETH'', \<lparr>td_address = ''0x82aF49447D8a07e3bd95BD0d56f35241523fBab1'', td_decimals = 18\<rparr>),
      (''USDC'', \<lparr>td_address = ''0xaf88d065e77c8cC2239327C5EDb3A432268e5831'', td_decimals = 6\<rparr>)]"

definition forkLegs :: marketLegs where
  "forkLegs =
     \<lparr>ml_uniswap = [(''WETH'', \<lparr>ul_pool = ''0xC6962004f452bE9203591991D15f6b388e09E8D0'', ul_fee = 500, ul_tickSpacing = 10\<rparr>)],
      ml_balancer = [(''WETH'', \<lparr>bl_poolId = ''0x3b106b7ae88c3f8869b5221d2bbae398afc26737000100000000000000000534'',
        bl_tokens = [''0x82aF49447D8a07e3bd95BD0d56f35241523fBab1'', ''0xaf88d065e77c8cC2239327C5EDb3A432268e5831'',
          ''0xFd086bC7CD5C481DCC9C85ebE478A1C0b69FCbb9''],
        bl_stable = ''0xaf88d065e77c8cC2239327C5EDb3A432268e5831''\<rparr>)],
      ml_curve = [(''WETH'', \<lparr>cl_pool = ''0x960ea3e3C7FB317332d990873d354E18d7645590'', cl_baseIndex = 2, cl_quoteIndex = 0,
        cl_stable = ''0xFd086bC7CD5C481DCC9C85ebE478A1C0b69FCbb9''\<rparr>)],
      ml_gmx = [(''WETH'', ''0x70d95587d40A2caf56bd97485aB3Eec10Bee6336'')],
      ml_aave = [(''WETH'', ())]\<rparr>"

definition forkDeployment :: deployment where
  "forkDeployment =
     \<lparr>dep_tokens = forkTokens, dep_legs = forkLegs, dep_stableLegs = [],
      dep_balancerStable = ''0xaf88d065e77c8cC2239327C5EDb3A432268e5831'',
      dep_curveStable = ''0xFd086bC7CD5C481DCC9C85ebE478A1C0b69FCbb9'', dep_lstListed = False\<rparr>"

section \<open>Looking a market up\<close>

lemma marketsFor_protocol: "m \<in> set (marketsFor d p) \<Longrightarrow> mk_protocol m = p \<and> mk_quote m = ''USDC''"
  by (cases p) (auto simp: marketsFor_def plainMarket_def)

lemma marketFor_Some: "marketFor d p base = Some m \<Longrightarrow> m \<in> set (marketsFor d p) \<and> mk_base m = base"
  by (auto simp: marketFor_def find_Some_iff)

lemma marketFor_base: "marketFor d p base = Some m \<Longrightarrow> mk_base m = base"
  by (simp add: marketFor_Some)

lemma marketFor_quote: "marketFor d p base = Some m \<Longrightarrow> mk_quote m = ''USDC''"
  using marketFor_Some marketsFor_protocol by blast

lemma marketFor_balancer_leg: "marketFor d Balancer base = Some m \<Longrightarrow> \<exists>l. mk_balancer m = Some l"
  by (drule marketFor_Some) (auto simp: marketsFor_def)

lemma marketFor_curve_leg: "marketFor d Curve base = Some m \<Longrightarrow> \<exists>l. mk_curve m = Some l"
  by (drule marketFor_Some) (auto simp: marketsFor_def)

section \<open>The sweep covers what the venues trade\<close>

lemma addAddress_inv:
  assumes "fst st = toLower ` set (snd st)" "distinct (map toLower (snd st))"
  shows "fst (addAddress a st) = toLower ` set (snd (addAddress a st))" "distinct (map toLower (snd (addAddress a st)))"
    "fst (addAddress a st) = insert (toLower a) (fst st)"
  using assms by (auto simp: addAddress_def Let_def)

lemma fold_addAddress:
  assumes "fst st = toLower ` set (snd st)" "distinct (map toLower (snd st))"
  shows "toLower ` set (snd (fold addAddress as st)) = toLower ` set (as @ snd st) \<and> distinct (map toLower (snd (fold addAddress as st)))"
  using assms
proof (induction as arbitrary: st)
  case (Cons a as)
  note inv = addAddress_inv [OF Cons.prems, of a]
  show ?case using Cons.IH [OF inv(1,2)] inv(1,3) Cons.prems(1) by auto
qed simp

lemma sweep:
  "toLower ` set (snd (fold addAddress as ({}, []))) = toLower ` set as" "distinct (map toLower (snd (fold addAddress as ({}, []))))"
  using fold_addAddress [of "({}, [])" as] by simp_all

lemma fold_addAddress_hd: "snd st \<noteq> [] \<Longrightarrow> snd (fold addAddress as st) \<noteq> [] \<and> hd (snd (fold addAddress as st)) = hd (snd st)"
proof (induction as arbitrary: st)
  case (Cons a as)
  have "snd (addAddress a st) \<noteq> []" "hd (snd (addAddress a st)) = hd (snd st)"
    using Cons.prems by (auto simp: addAddress_def Let_def)
  then show ?case using Cons.IH [of "addAddress a st"] by simp
qed simp

lemma sweep_hd: "\<exists>r. snd (fold addAddress (a # as) ({}, [])) = a # r"
proof -
  have "snd (addAddress a ({}, [])) = [a]" by (simp add: addAddress_def)
  then show ?thesis
    using fold_addAddress_hd [of "addAddress a ({}, [])" as] by (cases "snd (fold addAddress (a # as) ({}, []))") auto
qed

lemma set_addSeen [simp]: "set (addSeen x seen) = insert x (set seen)" "distinct seen \<Longrightarrow> distinct (addSeen x seen)"
  by (auto simp: addSeen_def)

lemma fold_addSeen:
  "set (fold (\<lambda>m. addSeen (f m)) ms seen) = f ` set ms \<union> set seen"
  "distinct seen \<Longrightarrow> distinct (fold (\<lambda>m. addSeen (f m)) ms seen)"
  by (induction ms arbitrary: seen) auto

lemma fold_markets:
  "set (fold (\<lambda>p seen. fold (\<lambda>m. addSeen (mk_base m)) (g p) seen) ps seen) = set seen \<union> (\<Union>p \<in> set ps. mk_base ` set (g p))"
  "distinct seen \<Longrightarrow> distinct (fold (\<lambda>p seen. fold (\<lambda>m. addSeen (mk_base m)) (g p) seen) ps seen)"
  by (induction ps arbitrary: seen) (auto simp: fold_addSeen)

lemma activeBaseSymbols_set:
  "set (activeBaseSymbols d ps) = (\<Union>p \<in> set ps. mk_base ` set (marketsFor d p))" "distinct (activeBaseSymbols d ps)"
  by (simp_all add: activeBaseSymbols_def fold_markets)

interpretation weth_order: comparator wethFirst "\<lambda>_. True"
  by unfold_locales (auto simp: wethFirst_def)

lemma activeBaseSymbols_weth_first:
  assumes "activeBaseSymbols d ps = a # r" "''WETH'' \<in> set (a # r)"
  shows "a = ''WETH''"
proof -
  have "sorted_wrt wethFirst (a # r)"
    using weth_order.sorted_sortBy unfolding assms(1) [symmetric] activeBaseSymbols_def by blast
  then show ?thesis using assms(2) by (auto simp: wethFirst_def)
qed

lemma allMarkets_not_usdc: "m \<in> set (allMarkets d) \<Longrightarrow> toLower (st_token m) \<noteq> toLower (usdcAddress d)"
  by (auto simp: allMarkets_def List.map_filter_def stableMarketOf_def split: option.splits if_splits)

lemma allMarkets_token: "m \<in> set (allMarkets d) \<Longrightarrow> \<exists>t. map_of (dep_tokens d) (st_symbol m) = Some t \<and> td_address t = st_token m \<and> td_decimals t = st_decimals m"
  by (auto simp: allMarkets_def List.map_filter_def stableMarketOf_def split: option.splits if_splits)

lemma stableMarketBySymbol_Some:
  "stableMarketBySymbol d ids s = Some m \<Longrightarrow> m \<in> set (allMarkets d) \<and> st_symbol m = s \<and> st_venue m \<in> set ids"
  by (auto simp: stableMarketBySymbol_def marketPricedStables_def find_Some_iff) (metis (no_types, lifting) mem_Collect_eq nth_mem set_filter)+

lemma initProtocols_Inr:
  assumes "initProtocols d ids = Inr v"
  obtains infos weth where "vs_enabled v = resolveEnabledProtocolIds ids"
    "mapR (tokenInfo d) (activeBaseSymbols d (vs_enabled v)) = Inr infos" "tokenInfo d ''WETH'' = Inr weth"
    "vs_stables v = setActiveStables d (venueStables d (vs_enabled v))" "vs_bases v = setActiveBases (ti_address weth) (map ti_address infos)"
  using assms by (auto simp: initProtocols_def Let_def result_simps)

text \<open>
  What a run's accounting sweeps covers what its venues trade: every stable a venue settles in or
  brings with it, and the base of every market, each address once whatever its case, USDC first; and
  no stable the run prices from a market is the dollar the prices are in.
\<close>

theorem sweep_covers_venues:
  assumes "initProtocols d ids = Inr v"
  shows "(\<exists>r. vs_stables v = usdcAddress d # r) \<and> distinct (map toLower (vs_stables v)) \<and> distinct (map toLower (vs_bases v))
    \<and> (\<forall>p \<in> set (vs_enabled v). (\<forall>t. stableTokenOf d p = Some t \<longrightarrow> toLower t \<in> toLower ` set (vs_stables v))
         \<and> (\<forall>m \<in> set (marketsFor d p). \<exists>i. tokenInfo d (mk_base m) = Inr i \<and> toLower (ti_address i) \<in> toLower ` set (vs_bases v)))
    \<and> (\<forall>m \<in> set (marketPricedStables d (vs_enabled v) None). toLower (st_token m) \<in> toLower ` set (vs_stables v)
         \<and> toLower (st_token m) \<noteq> toLower (usdcAddress d))"
proof -
  obtain infos and weth :: tokenInfo where v: "mapR (tokenInfo d) (activeBaseSymbols d (vs_enabled v)) = Inr infos"
    "vs_stables v = setActiveStables d (venueStables d (vs_enabled v))" "vs_bases v = setActiveBases (ti_address weth) (map ti_address infos)"
    using assms by (blast elim: initProtocols_Inr)
  have st: "toLower ` set (vs_stables v) = insert (toLower (usdcAddress d)) (toLower ` set (venueStables d (vs_enabled v)))"
    and ba: "toLower ` set (vs_bases v) = insert (toLower (ti_address weth)) (toLower ` ti_address ` set infos)"
    unfolding v(2,3) setActiveStables_def setActiveBases_def sweep by auto
  have dis: "distinct (map toLower (vs_stables v))" "distinct (map toLower (vs_bases v))"
    unfolding v(2,3) setActiveStables_def setActiveBases_def by (rule sweep)+
  have hd: "\<exists>r. vs_stables v = usdcAddress d # r"
    unfolding v(2) setActiveStables_def by (rule sweep_hd)
  have stable: "toLower t \<in> toLower ` set (vs_stables v)" if "p \<in> set (vs_enabled v)" "stableTokenOf d p = Some t" for p t
    unfolding st venueStables_def using that by (force simp: List.map_filter_def)
  have base: "\<exists>i. tokenInfo d (mk_base m) = Inr i \<and> toLower (ti_address i) \<in> toLower ` set (vs_bases v)"
    if "p \<in> set (vs_enabled v)" "m \<in> set (marketsFor d p)" for p m
  proof -
    have "mk_base m \<in> set (activeBaseSymbols d (vs_enabled v))" using that by (auto simp: activeBaseSymbols_set)
    then obtain i where "i \<in> set infos" "tokenInfo d (mk_base m) = Inr i"
      using v(1) by (auto simp: mapR_Inr_iff dest: list_all2_left)
    then show ?thesis unfolding ba by blast
  qed
  have priced: "toLower (st_token m) \<in> toLower ` set (vs_stables v) \<and> toLower (st_token m) \<noteq> toLower (usdcAddress d)"
    if "m \<in> set (marketPricedStables d (vs_enabled v) None)" for m
    using that allMarkets_not_usdc [of m d] unfolding st venueStables_def
    by (auto simp: marketPricedStables_def stablesForProtocols_def)
  show ?thesis using hd dis stable base priced by blast
qed

lemma sweep_covers_venues_witness:
  "\<exists>v. initProtocols forkDeployment [] = Inr v \<and> distinct (map toLower (vs_stables v))"
proof -
  have "\<exists>v. initProtocols forkDeployment [] = Inr v"
    by (simp add: initProtocols_def resolveEnabledProtocolIds_def DEFAULT_PROTOCOL_IDS_def ALL_PROTOCOL_IDS_def
        LOCAL_ONLY_PROTOCOL_IDS_def activeBaseSymbols_def marketsFor_def forkDeployment_def forkLegs_def forkTokens_def
        plainMarket_def addSeen_def tokenInfo_def Let_def)
  then show ?thesis using sweep_covers_venues by blast
qed

end
