(* ===== verification/Leaf_Actions.thy ===== *)
theory Leaf_Actions
  imports Markets Json Js_Strings
begin

text \<open>
  The actions of an agent, venue by venue (\<open>sdk/src/types.ts\<close>), and how each adapter takes one in from
  an untrusted object (\<open>parse\<close> of \<open>sdk/src/protocols/*.ts\<close>). A thrown error is \<open>Inl\<close>; \<open>Inr None\<close> is the
  adapter's \<open>null\<close>, "not mine". The wording of an error is data.
\<close>

type_synonym obj = "(string \<times> json) list"

section \<open>The actions\<close>

datatype aaveType = AaveSupply | AaveWithdraw | AaveBorrow | AaveRepay

datatype lendingType = LendingSupply | LendingWithdraw | LendingSupplyCollateral | LendingWithdrawCollateral
  | LendingBorrow | LendingRepay

text \<open>The fields in the order of the types; \<open>base\<close> and the other optional fields are options.\<close>

datatype leafBody =
    Swap string "string option" string "int option"
  | MintLiquidity "string option" int int string string "string option" "string option" "int option"
  | RemoveLiquidity "string option" string string "string option" "string option"
  | CollectFees "string option" string
  | CreatePool string string int string
  | BalancerSwap string "string option" string "int option"
  | CurveSwap string "string option" string "int option"
  | StableSwap string string string "int option"
  | AaveOp aaveType string string
  | GmxIncrease bool "string option" string string string "string option"
  | GmxDecrease bool "string option" string string string "string option"
  | GmxCancelOrder string
  | LstDeposit string
  | LstSwap string string "int option"
  | LstRequestWithdraw string
  | LstClaimWithdraw "string option"
  | LiquityOpenTrove string string "int option"
  | LiquityAdjustTrove "string option" "string option" "string option" "bool option" "int option"
  | LiquityCloseTrove
  | LiquityRedeem string "int option" "int option"
  | LiquityProvideToSP string
  | LiquityWithdrawFromSP string
  | LiquityLiquidate "string list option" "int option"
  | LiquitySwapEusd string string "int option"
  | CreateLendingMarket string string string string string
  | LendingOp lendingType string string
  | LendingLiquidate string string string

record leafAction =
  la_body :: leafBody
  la_priorityFee :: "string option"

definition leaf :: "leafBody \<Rightarrow> string option \<Rightarrow> leafAction" where
  "leaf b fee = \<lparr>la_body = b, la_priorityFee = fee\<rparr>"

fun aaveName :: "aaveType \<Rightarrow> string" where
  "aaveName AaveSupply = ''aaveSupply''"
| "aaveName AaveWithdraw = ''aaveWithdraw''"
| "aaveName AaveBorrow = ''aaveBorrow''"
| "aaveName AaveRepay = ''aaveRepay''"

fun lendingName :: "lendingType \<Rightarrow> string" where
  "lendingName LendingSupply = ''lendingSupply''"
| "lendingName LendingWithdraw = ''lendingWithdraw''"
| "lendingName LendingSupplyCollateral = ''lendingSupplyCollateral''"
| "lendingName LendingWithdrawCollateral = ''lendingWithdrawCollateral''"
| "lendingName LendingBorrow = ''lendingBorrow''"
| "lendingName LendingRepay = ''lendingRepay''"

text \<open>\<open>ACTION_TYPES_BY_PROTOCOL\<close> of \<open>sdk/src/action.ts\<close>: the vocabulary, by owning venue.\<close>

fun ACTION_TYPES_BY_PROTOCOL :: "protocolId \<Rightarrow> string list" where
  "ACTION_TYPES_BY_PROTOCOL Uniswap = [''swap'', ''mintLiquidity'', ''removeLiquidity'', ''collectFees'', ''createPool'']"
| "ACTION_TYPES_BY_PROTOCOL Balancer = [''balancerSwap'']"
| "ACTION_TYPES_BY_PROTOCOL Curve = [''curveSwap'', ''stableSwap'']"
| "ACTION_TYPES_BY_PROTOCOL Gmx = [''gmxIncrease'', ''gmxDecrease'', ''gmxCancelOrder'']"
| "ACTION_TYPES_BY_PROTOCOL Aave = [''aaveSupply'', ''aaveWithdraw'', ''aaveBorrow'', ''aaveRepay'']"
| "ACTION_TYPES_BY_PROTOCOL Lst = [''lstDeposit'', ''lstSwap'', ''lstRequestWithdraw'', ''lstClaimWithdraw'']"
| "ACTION_TYPES_BY_PROTOCOL Liquity = [''liquityOpenTrove'', ''liquityAdjustTrove'', ''liquityCloseTrove'', ''liquityRedeem'',
     ''liquityProvideToSP'', ''liquityWithdrawFromSP'', ''liquityLiquidate'', ''liquitySwapEusd'']"
| "ACTION_TYPES_BY_PROTOCOL Lending = [''createLendingMarket'', ''lendingSupply'', ''lendingWithdraw'', ''lendingSupplyCollateral'',
     ''lendingWithdrawCollateral'', ''lendingBorrow'', ''lendingRepay'', ''lendingLiquidate'']"

section \<open>Reading a field\<close>

datatype parseError =
    NotDecimal string | NotInteger string | NotAddress string | OutOfRange string | NoMarketFor protocolId string
  | TokenInNot string string | FeeTier int | SameTokens | NotSymbol string | UnknownStable string | AssetNot string
  | LltvTooHigh | NotMarketId | NotOrderKey | NotBoolean string | NotAddresses

definition isDecimal :: "string \<Rightarrow> bool" where
  "isDecimal s \<longleftrightarrow> s \<noteq> [] \<and> list_all isDigit s"

definition isHexDigit :: "char \<Rightarrow> bool" where
  "isHexDigit c \<longleftrightarrow> hexValue c \<noteq> None"

definition isHex :: "string \<Rightarrow> bool" where
  "isHex s \<longleftrightarrow> take 2 s = ''0x'' \<and> list_all isHexDigit (drop 2 s)"

definition isHexOf :: "nat \<Rightarrow> string \<Rightarrow> bool" where
  "isHexOf n s \<longleftrightarrow> isHex s \<and> length s = n + 2"

definition requireDecimal :: "obj \<Rightarrow> string \<Rightarrow> parseError + string" where
  "requireDecimal ob k = (case jget ob k of JStr s \<Rightarrow> if isDecimal s then Inr s else Inl (NotDecimal k) | _ \<Rightarrow> Inl (NotDecimal k))"

definition optionalDecimal :: "obj \<Rightarrow> string \<Rightarrow> parseError + string option" where
  "optionalDecimal ob k = (if jget ob k = JUndef then Inr None else bindR (requireDecimal ob k) (\<lambda>s. Inr (Some s)))"

definition requireInteger :: "obj \<Rightarrow> string \<Rightarrow> parseError + int" where
  "requireInteger ob k =
     (case jget ob k of JNum (Fin x) \<Rightarrow> if isInteger x then Inr \<lfloor>x\<rfloor> else Inl (NotInteger k) | _ \<Rightarrow> Inl (NotInteger k))"

definition optionalInteger :: "obj \<Rightarrow> string \<Rightarrow> (int \<Rightarrow> bool) \<Rightarrow> parseError + int option" where
  "optionalInteger ob k inRange =
     (if jget ob k = JUndef then Inr None
      else (case jget ob k of
        JNum (Fin x) \<Rightarrow> if isInteger x \<and> inRange \<lfloor>x\<rfloor> then Inr (Some \<lfloor>x\<rfloor>) else Inl (OutOfRange k)
      | _ \<Rightarrow> Inl (OutOfRange k)))"

definition optionalBoolean :: "obj \<Rightarrow> string \<Rightarrow> parseError + bool option" where
  "optionalBoolean ob k =
     (case jget ob k of JUndef \<Rightarrow> Inr None | JBool b \<Rightarrow> Inr (Some b) | _ \<Rightarrow> Inl (NotBoolean k))"

definition requireAddress :: "obj \<Rightarrow> string \<Rightarrow> parseError + string" where
  "requireAddress ob k = (case jget ob k of JStr s \<Rightarrow> if isHexOf 40 s then Inr s else Inl (NotAddress k) | _ \<Rightarrow> Inl (NotAddress k))"

definition requireAmount :: "obj \<Rightarrow> string \<Rightarrow> bool \<Rightarrow> parseError + string" where
  "requireAmount ob k allowMax = (if allowMax \<and> jget ob k = JStr ''max'' then Inr ''max'' else requireDecimal ob k)"

definition slippageRange :: "int \<Rightarrow> bool" where
  "slippageRange n \<longleftrightarrow> 0 \<le> n \<and> n \<le> 1000"

definition optionalSlippage :: "obj \<Rightarrow> parseError + int option" where
  "optionalSlippage ob = optionalInteger ob ''slippageBps'' slippageRange"

definition optionalBps :: "obj \<Rightarrow> parseError + int option" where
  "optionalBps ob = optionalInteger ob ''maxFeeBps'' (\<lambda>n. 0 < n \<and> n \<le> 10000)"

text \<open>\<open>addSlippage\<close> of the Uniswap adapter tells a fraction from a number out of range.\<close>

definition addSlippage :: "obj \<Rightarrow> parseError + int option" where
  "addSlippage ob =
     (if jget ob ''slippageBps'' = JUndef then Inr None
      else bindR (requireInteger ob ''slippageBps'') (\<lambda>n.
        throwIf (\<not> slippageRange n) (OutOfRange ''slippageBps'') (Inr (Some n))))"

definition withPriorityFee :: "obj \<Rightarrow> leafBody \<Rightarrow> parseError + leafAction option" where
  "withPriorityFee ob b = bindR (optionalDecimal ob ''maxPriorityFeePerGasWei'') (\<lambda>fee. Inr (Some (leaf b fee)))"

definition baseOf :: "obj \<Rightarrow> string" where
  "baseOf ob = (case jget ob ''base'' of JStr s \<Rightarrow> s | _ \<Rightarrow> ''WETH'')"

definition orWeth :: "string option \<Rightarrow> string" where
  "orWeth b = (case b of Some s \<Rightarrow> s | None \<Rightarrow> ''WETH'')"

definition unlessWeth :: "string \<Rightarrow> string option" where
  "unlessWeth b = (if b \<noteq> ''WETH'' then Some b else None)"

definition parseBase :: "deployment \<Rightarrow> protocolId \<Rightarrow> obj \<Rightarrow> parseError + (string \<times> marketConfig)" where
  "parseBase d p ob =
     (case marketFor d p (baseOf ob) of
        None \<Rightarrow> Inl (NoMarketFor p (baseOf ob))
      | Some m \<Rightarrow> Inr (baseOf ob, m))"

definition tokenInOf :: "obj \<Rightarrow> string \<Rightarrow> string \<Rightarrow> parseError + string" where
  "tokenInOf ob a b =
     (case jget ob ''tokenIn'' of JStr s \<Rightarrow> if s = a \<or> s = b then Inr s else Inl (TokenInNot a b) | _ \<Rightarrow> Inl (TokenInNot a b))"

section \<open>Uniswap, Balancer and Curve\<close>

definition ENABLED_FEE_TIERS :: "int list" where
  "ENABLED_FEE_TIERS = [100, 500, 3000, 10000]"

definition parseCreatePool :: "obj \<Rightarrow> parseError + leafAction option" where
  "parseCreatePool ob =
     bindR (requireAddress ob ''tokenA'') (\<lambda>a. bindR (requireAddress ob ''tokenB'') (\<lambda>b.
     bindR (requireInteger ob ''fee'') (\<lambda>fee.
     throwIf (fee \<notin> set ENABLED_FEE_TIERS) (FeeTier fee) (
     bindR (requireDecimal ob ''sqrtPriceX96'') (\<lambda>price.
     throwIf (toLower a = toLower b) SameTokens (withPriorityFee ob (CreatePool a b fee price)))))))"

definition parseUniSwap :: "deployment \<Rightarrow> obj \<Rightarrow> parseError + leafAction option" where
  "parseUniSwap d ob =
     bindR (parseBase d Uniswap ob) (\<lambda>(base, m).
     bindR (tokenInOf ob (mk_base m) (mk_quote m)) (\<lambda>t.
     bindR (requireDecimal ob ''amountIn'') (\<lambda>a.
     bindR (optionalDecimal ob ''maxPriorityFeePerGasWei'') (\<lambda>fee.
     bindR (addSlippage ob) (\<lambda>s. Inr (Some (leaf (Swap t (unlessWeth base) a s) fee)))))))"

definition parseMint :: "deployment \<Rightarrow> obj \<Rightarrow> parseError + leafAction option" where
  "parseMint d ob =
     bindR (parseBase d Uniswap ob) (\<lambda>(base, m).
     bindR (requireInteger ob ''tickLower'') (\<lambda>lo. bindR (requireInteger ob ''tickUpper'') (\<lambda>hi.
     bindR (if base = ''WETH''
            then bindR (requireDecimal ob ''amountWethDesired'') (\<lambda>w. bindR (requireDecimal ob ''amountUsdcDesired'') (\<lambda>u.
              Inr (MintLiquidity None lo hi w u None None)))
            else bindR (requireDecimal ob ''amountBaseDesired'') (\<lambda>b. bindR (requireDecimal ob ''amountQuoteDesired'') (\<lambda>q.
              Inr (MintLiquidity (Some base) lo hi ''0'' ''0'' (Some b) (Some q))))) (\<lambda>mk.
     bindR (optionalDecimal ob ''maxPriorityFeePerGasWei'') (\<lambda>fee.
     bindR (addSlippage ob) (\<lambda>s. Inr (Some (leaf (mk s) fee))))))))"

definition ownBase :: "obj \<Rightarrow> string option" where
  "ownBase ob = (case jget ob ''base'' of JStr s \<Rightarrow> unlessWeth s | _ \<Rightarrow> None)"

definition parseRemove :: "obj \<Rightarrow> parseError + leafAction option" where
  "parseRemove ob =
     bindR (requireDecimal ob ''tokenId'') (\<lambda>t. bindR (requireDecimal ob ''liquidity'') (\<lambda>l.
     bindR (optionalDecimal ob ''amountWethMin'') (\<lambda>w. bindR (optionalDecimal ob ''amountUsdcMin'') (\<lambda>u.
     withPriorityFee ob (RemoveLiquidity (ownBase ob) t l w u)))))"

definition parseCollect :: "obj \<Rightarrow> parseError + leafAction option" where
  "parseCollect ob = bindR (requireDecimal ob ''tokenId'') (\<lambda>t. withPriorityFee ob (CollectFees (ownBase ob) t))"

definition uniswapParse :: "deployment \<Rightarrow> obj \<Rightarrow> parseError + leafAction option" where
  "uniswapParse d ob =
     (if jget ob ''type'' = JStr ''createPool'' then parseCreatePool ob
      else if jget ob ''type'' = JStr ''swap'' then parseUniSwap d ob
      else if jget ob ''type'' = JStr ''mintLiquidity'' then parseMint d ob
      else if jget ob ''type'' = JStr ''removeLiquidity'' then parseRemove ob
      else if jget ob ''type'' = JStr ''collectFees'' then parseCollect ob
      else Inr None)"

text \<open>\<open>parse\<close> of the Balancer adapter, and the part of the Curve adapter's that is the same code.\<close>

definition parsePoolSwap :: "deployment \<Rightarrow> protocolId \<Rightarrow> (string \<Rightarrow> string option \<Rightarrow> string \<Rightarrow> int option \<Rightarrow> leafBody) \<Rightarrow> obj
    \<Rightarrow> parseError + leafAction option" where
  "parsePoolSwap d p mk ob =
     bindR (parseBase d p ob) (\<lambda>(base, m).
     bindR (tokenInOf ob (mk_base m) (mk_quote m)) (\<lambda>t.
     bindR (requireDecimal ob ''amountIn'') (\<lambda>a.
     bindR (optionalDecimal ob ''maxPriorityFeePerGasWei'') (\<lambda>fee.
     bindR (optionalSlippage ob) (\<lambda>s. Inr (Some (leaf (mk t (unlessWeth base) a s) fee)))))))"

definition balancerParse :: "deployment \<Rightarrow> obj \<Rightarrow> parseError + leafAction option" where
  "balancerParse d ob =
     (if jget ob ''type'' \<noteq> JStr ''balancerSwap'' then Inr None else parsePoolSwap d Balancer BalancerSwap ob)"

definition parseStableSwap :: "deployment \<Rightarrow> protocolId list \<Rightarrow> obj \<Rightarrow> parseError + leafAction option" where
  "parseStableSwap d ids ob =
     (case jget ob ''stable'' of
        JStr s \<Rightarrow>
          (case stableMarketBySymbol d ids s of
             None \<Rightarrow> Inl (UnknownStable s)
           | Some m \<Rightarrow>
               bindR (tokenInOf ob (st_symbol m) ''USDC'') (\<lambda>t.
               bindR (requireDecimal ob ''amountIn'') (\<lambda>a.
               bindR (optionalDecimal ob ''maxPriorityFeePerGasWei'') (\<lambda>fee.
               bindR (optionalSlippage ob) (\<lambda>sl. Inr (Some (leaf (StableSwap (st_symbol m) t a sl) fee)))))))
      | _ \<Rightarrow> Inl (NotSymbol ''stable''))"

definition curveParse :: "deployment \<Rightarrow> protocolId list \<Rightarrow> obj \<Rightarrow> parseError + leafAction option" where
  "curveParse d ids ob =
     (if jget ob ''type'' = JStr ''stableSwap'' then parseStableSwap d ids ob
      else if jget ob ''type'' \<noteq> JStr ''curveSwap'' then Inr None
      else parsePoolSwap d Curve CurveSwap ob)"


section \<open>Aave and GMX\<close>

definition aaveReserveSymbols :: "deployment \<Rightarrow> protocolId list \<Rightarrow> string list" where
  "aaveReserveSymbols d ids =
     map mk_base (marketsFor d Aave) @ [''USDC''] @ (if dep_lstListed d \<and> Lst \<in> set ids then [''LST''] else [])"

definition aaveTypes :: "aaveType list" where
  "aaveTypes = [AaveSupply, AaveWithdraw, AaveBorrow, AaveRepay]"

definition parseAsset :: "deployment \<Rightarrow> protocolId list \<Rightarrow> obj \<Rightarrow> parseError + string" where
  "parseAsset d ids ob =
     (case jget ob ''asset'' of
        JStr s \<Rightarrow> if s \<in> set (aaveReserveSymbols d ids) then Inr s else Inl (AssetNot s)
      | _ \<Rightarrow> Inl (NotSymbol ''asset''))"

definition aaveParse :: "deployment \<Rightarrow> protocolId list \<Rightarrow> obj \<Rightarrow> parseError + leafAction option" where
  "aaveParse d ids ob =
     (case find (\<lambda>t. jget ob ''type'' = JStr (aaveName t)) aaveTypes of
        None \<Rightarrow> Inr None
      | Some t \<Rightarrow>
          bindR (parseAsset d ids ob) (\<lambda>asset.
          bindR (requireAmount ob ''amount'' (t = AaveWithdraw \<or> t = AaveRepay)) (\<lambda>amount.
          withPriorityFee ob (AaveOp t asset amount))))"

definition parseCancel :: "obj \<Rightarrow> parseError + leafAction option" where
  "parseCancel ob =
     (case jget ob ''key'' of
        JStr s \<Rightarrow> if isHexOf 64 s then withPriorityFee ob (GmxCancelOrder s) else Inl NotOrderKey
      | _ \<Rightarrow> Inl NotOrderKey)"

definition requireBoolean :: "obj \<Rightarrow> string \<Rightarrow> parseError + bool" where
  "requireBoolean ob k = (case jget ob k of JBool b \<Rightarrow> Inr b | _ \<Rightarrow> Inl (NotBoolean k))"

definition requireNonEmpty :: "obj \<Rightarrow> string \<Rightarrow> parseError + string" where
  "requireNonEmpty ob k = (case jget ob k of JStr s \<Rightarrow> if s = [] then Inl (NotSymbol k) else Inr s | _ \<Rightarrow> Inl (NotSymbol k))"

definition hasGmxLeg :: "deployment \<Rightarrow> string \<Rightarrow> bool" where
  "hasGmxLeg d base = (case marketFor d Gmx base of Some m \<Rightarrow> mk_gmx m \<noteq> None | None \<Rightarrow> False)"

definition parseGmxOrder :: "deployment \<Rightarrow> bool \<Rightarrow> obj \<Rightarrow> parseError + leafAction option" where
  "parseGmxOrder d increase ob =
     bindR (requireBoolean ob ''isLong'') (\<lambda>isLong.
     bindR (requireNonEmpty ob ''collateral'') (\<lambda>collateral.
     bindR (requireDecimal ob ''sizeDeltaUsd'') (\<lambda>size'.
     throwIf (baseOf ob \<noteq> ''WETH'' \<and> \<not> hasGmxLeg d (baseOf ob)) (NoMarketFor Gmx (baseOf ob)) (
     bindR (requireDecimal ob (if increase then ''collateralAmount'' else ''collateralDeltaAmount'')) (\<lambda>amount.
     bindR (optionalDecimal ob ''acceptablePrice'') (\<lambda>price.
     withPriorityFee ob
       ((if increase then GmxIncrease else GmxDecrease) isLong (unlessWeth (baseOf ob)) collateral size' amount price)))))))"

definition gmxParse :: "deployment \<Rightarrow> obj \<Rightarrow> parseError + leafAction option" where
  "gmxParse d ob =
     (if jget ob ''type'' = JStr ''gmxCancelOrder'' then parseCancel ob
      else if jget ob ''type'' \<noteq> JStr ''gmxIncrease'' \<and> jget ob ''type'' \<noteq> JStr ''gmxDecrease'' then Inr None
      else parseGmxOrder d (jget ob ''type'' = JStr ''gmxIncrease'') ob)"

section \<open>The liquid-staking, CDP and lending venues\<close>

definition claimId :: "obj \<Rightarrow> parseError + string option" where
  "claimId ob = (if jget ob ''requestId'' = JStr ''all'' then Inr None else optionalDecimal ob ''requestId'')"

definition lstParse :: "obj \<Rightarrow> parseError + leafAction option" where
  "lstParse ob =
     (if jget ob ''type'' = JStr ''lstDeposit'' then
        bindR (requireDecimal ob ''amountWethWei'') (\<lambda>a. withPriorityFee ob (LstDeposit a))
      else if jget ob ''type'' = JStr ''lstSwap'' then
        bindR (tokenInOf ob ''WETH'' ''LST'') (\<lambda>t. bindR (requireDecimal ob ''amountIn'') (\<lambda>a.
        bindR (optionalSlippage ob) (\<lambda>s. withPriorityFee ob (LstSwap t a s))))
      else if jget ob ''type'' = JStr ''lstRequestWithdraw'' then
        bindR (requireDecimal ob ''amountLstWei'') (\<lambda>a. withPriorityFee ob (LstRequestWithdraw a))
      else if jget ob ''type'' = JStr ''lstClaimWithdraw'' then
        bindR (claimId ob) (\<lambda>r. withPriorityFee ob (LstClaimWithdraw r))
      else Inr None)"

definition parseOpen :: "obj \<Rightarrow> parseError + leafAction option" where
  "parseOpen ob =
     bindR (requireDecimal ob ''collateralWethWei'') (\<lambda>c. bindR (requireDecimal ob ''debtEusdWei'') (\<lambda>b.
     bindR (optionalBps ob) (\<lambda>f. withPriorityFee ob (LiquityOpenTrove c b f))))"

definition parseAdjust :: "obj \<Rightarrow> parseError + leafAction option" where
  "parseAdjust ob =
     bindR (optionalDecimal ob ''addCollateralWethWei'') (\<lambda>a.
     bindR (optionalDecimal ob ''withdrawCollateralWei'') (\<lambda>w.
     bindR (optionalDecimal ob ''debtChangeEusdWei'') (\<lambda>c.
     bindR (optionalBoolean ob ''isDebtIncrease'') (\<lambda>i.
     bindR (optionalBps ob) (\<lambda>f. withPriorityFee ob (LiquityAdjustTrove a w c i f))))))"

definition parseRedeem :: "obj \<Rightarrow> parseError + leafAction option" where
  "parseRedeem ob =
     bindR (requireDecimal ob ''amountEusdWei'') (\<lambda>a.
     bindR (optionalInteger ob ''maxIterations'' (\<lambda>n. 0 \<le> n)) (\<lambda>n.
     bindR (optionalBps ob) (\<lambda>f. withPriorityFee ob (LiquityRedeem a n f))))"

fun strings :: "json list \<Rightarrow> string list option" where
  "strings [] = Some []"
| "strings (JStr s # js) = map_option (\<lambda>r. s # r) (strings js)"
| "strings (_ # js) = None"

definition borrowersOf :: "obj \<Rightarrow> parseError + string list option" where
  "borrowersOf ob =
     (case jget ob ''borrowers'' of
        JUndef \<Rightarrow> Inr None
      | JArr js \<Rightarrow> (case strings js of None \<Rightarrow> Inl NotAddresses | Some ss \<Rightarrow> Inr (Some ss))
      | _ \<Rightarrow> Inl NotAddresses)"

definition parseLiquidate :: "obj \<Rightarrow> parseError + leafAction option" where
  "parseLiquidate ob =
     bindR (borrowersOf ob) (\<lambda>b. bindR (optionalInteger ob ''maxTroves'' (\<lambda>n. 0 < n)) (\<lambda>n.
     withPriorityFee ob (LiquityLiquidate b n)))"

definition liquityParse :: "obj \<Rightarrow> parseError + leafAction option" where
  "liquityParse ob =
     (if jget ob ''type'' = JStr ''liquityOpenTrove'' then parseOpen ob
      else if jget ob ''type'' = JStr ''liquityAdjustTrove'' then parseAdjust ob
      else if jget ob ''type'' = JStr ''liquityCloseTrove'' then withPriorityFee ob LiquityCloseTrove
      else if jget ob ''type'' = JStr ''liquityRedeem'' then parseRedeem ob
      else if jget ob ''type'' = JStr ''liquityProvideToSP'' then
        bindR (requireDecimal ob ''amountEusdWei'') (\<lambda>a. withPriorityFee ob (LiquityProvideToSP a))
      else if jget ob ''type'' = JStr ''liquityWithdrawFromSP'' then
        bindR (requireAmount ob ''amountEusdWei'' True) (\<lambda>a. withPriorityFee ob (LiquityWithdrawFromSP a))
      else if jget ob ''type'' = JStr ''liquityLiquidate'' then parseLiquidate ob
      else if jget ob ''type'' = JStr ''liquitySwapEusd'' then
        bindR (tokenInOf ob ''USDC'' ''EUSD'') (\<lambda>t. bindR (requireDecimal ob ''amountIn'') (\<lambda>a.
        bindR (optionalSlippage ob) (\<lambda>s. withPriorityFee ob (LiquitySwapEusd t a s))))
      else Inr None)"

definition ZERO_ADDRESS :: string where
  "ZERO_ADDRESS = ''0x0000000000000000000000000000000000000000''"

definition WAD :: int where
  "WAD = 10 ^ 18"

definition parseCreateMarket :: "obj \<Rightarrow> parseError + leafAction option" where
  "parseCreateMarket ob =
     bindR (requireDecimal ob ''lltv'') (\<lambda>lltv.
     throwIf (WAD \<le> int (undec lltv)) LltvTooHigh (
     bindR (requireAddress ob ''loanToken'') (\<lambda>l. bindR (requireAddress ob ''collateralToken'') (\<lambda>c.
     bindR (requireAddress ob ''oracle'') (\<lambda>orc.
     bindR (if jget ob ''irm'' = JUndef \<or> jget ob ''irm'' = JNull then Inr ZERO_ADDRESS else requireAddress ob ''irm'') (\<lambda>irm.
     withPriorityFee ob (CreateLendingMarket l c orc irm lltv)))))))"

definition lendingTypes :: "lendingType list" where
  "lendingTypes = [LendingSupply, LendingWithdraw, LendingSupplyCollateral, LendingWithdrawCollateral, LendingBorrow, LendingRepay]"

definition lendingParse :: "obj \<Rightarrow> parseError + leafAction option" where
  "lendingParse ob =
     (if \<not> list_ex (\<lambda>t. jget ob ''type'' = JStr t) (ACTION_TYPES_BY_PROTOCOL Lending) then Inr None
      else if jget ob ''type'' = JStr ''createLendingMarket'' then parseCreateMarket ob
      else (case jget ob ''marketId'' of
        JStr mid \<Rightarrow>
          throwIf (\<not> isHexOf 64 mid) NotMarketId
            (case find (\<lambda>t. jget ob ''type'' = JStr (lendingName t)) lendingTypes of
               None \<Rightarrow> bindR (requireAddress ob ''borrower'') (\<lambda>b. bindR (requireDecimal ob ''seizedAssets'') (\<lambda>s.
                 withPriorityFee ob (LendingLiquidate mid b s)))
             | Some t \<Rightarrow> bindR (requireAmount ob ''amount'' (t = LendingWithdraw \<or> t = LendingRepay)) (\<lambda>a.
                 withPriorityFee ob (LendingOp t mid a)))
      | _ \<Rightarrow> Inl NotMarketId))"

section \<open>The adapters\<close>

definition adapterParse :: "deployment \<Rightarrow> protocolId list \<Rightarrow> protocolId \<Rightarrow> obj \<Rightarrow> parseError + leafAction option" where
  "adapterParse d ids p ob =
     (case p of
        Uniswap \<Rightarrow> uniswapParse d ob | Balancer \<Rightarrow> balancerParse d ob | Curve \<Rightarrow> curveParse d ids ob
      | Aave \<Rightarrow> aaveParse d ids ob | Gmx \<Rightarrow> gmxParse d ob | Lst \<Rightarrow> lstParse ob | Liquity \<Rightarrow> liquityParse ob
      | Lending \<Rightarrow> lendingParse ob)"

datatype actionError = Bad parseError | UnknownType json | NoOwner

text \<open>\<open>parseLeafAction\<close> and \<open>adapterForAction\<close>: the first enabled adapter whose \<open>parse\<close> is not \<open>null\<close>.\<close>

fun firstParse :: "deployment \<Rightarrow> protocolId list \<Rightarrow> protocolId list \<Rightarrow> obj \<Rightarrow> parseError + (protocolId \<times> leafAction) option" where
  "firstParse d ids [] ob = Inr None"
| "firstParse d ids (p # ps) ob =
     bindR (adapterParse d ids p ob) (\<lambda>r. case r of Some a \<Rightarrow> Inr (Some (p, a)) | None \<Rightarrow> firstParse d ids ps ob)"

definition parseLeafAction :: "deployment \<Rightarrow> protocolId list \<Rightarrow> obj \<Rightarrow> actionError + leafAction" where
  "parseLeafAction d ids ob =
     (case firstParse d ids ids ob of
        Inl e \<Rightarrow> Inl (Bad e)
      | Inr None \<Rightarrow> Inl (UnknownType (jget ob ''type''))
      | Inr (Some (_, a)) \<Rightarrow> Inr a)"

text \<open>\<open>{...action}\<close>: the object an action is. A field that is \<open>undefined\<close> is one that is not there.\<close>

definition optStr :: "string option \<Rightarrow> json" where
  "optStr v = (case v of None \<Rightarrow> JUndef | Some s \<Rightarrow> JStr s)"

definition optNum :: "int option \<Rightarrow> json" where
  "optNum v = (case v of None \<Rightarrow> JUndef | Some n \<Rightarrow> JNum (Fin (of_int n)))"

definition optBool :: "bool option \<Rightarrow> json" where
  "optBool v = (case v of None \<Rightarrow> JUndef | Some b \<Rightarrow> JBool b)"

definition optArr :: "string list option \<Rightarrow> json" where
  "optArr v = (case v of None \<Rightarrow> JUndef | Some ss \<Rightarrow> JArr (map JStr ss))"

fun bodyObj :: "leafBody \<Rightarrow> obj" where
  "bodyObj (Swap t b a s) = [(''type'', JStr ''swap''), (''tokenIn'', JStr t), (''base'', optStr b), (''amountIn'', JStr a), (''slippageBps'', optNum s)]"
| "bodyObj (MintLiquidity b lo hi w u ba qa s) = [(''type'', JStr ''mintLiquidity''), (''base'', optStr b),
     (''tickLower'', JNum (Fin (of_int lo))), (''tickUpper'', JNum (Fin (of_int hi))), (''amountWethDesired'', JStr w),
     (''amountUsdcDesired'', JStr u), (''amountBaseDesired'', optStr ba), (''amountQuoteDesired'', optStr qa), (''slippageBps'', optNum s)]"
| "bodyObj (RemoveLiquidity b t l w u) = [(''type'', JStr ''removeLiquidity''), (''base'', optStr b), (''tokenId'', JStr t),
     (''liquidity'', JStr l), (''amountWethMin'', optStr w), (''amountUsdcMin'', optStr u)]"
| "bodyObj (CollectFees b t) = [(''type'', JStr ''collectFees''), (''base'', optStr b), (''tokenId'', JStr t)]"
| "bodyObj (CreatePool a b f p) = [(''type'', JStr ''createPool''), (''tokenA'', JStr a), (''tokenB'', JStr b),
     (''fee'', JNum (Fin (of_int f))), (''sqrtPriceX96'', JStr p)]"
| "bodyObj (BalancerSwap t b a s) = [(''type'', JStr ''balancerSwap''), (''tokenIn'', JStr t), (''base'', optStr b), (''amountIn'', JStr a), (''slippageBps'', optNum s)]"
| "bodyObj (CurveSwap t b a s) = [(''type'', JStr ''curveSwap''), (''tokenIn'', JStr t), (''base'', optStr b), (''amountIn'', JStr a), (''slippageBps'', optNum s)]"
| "bodyObj (StableSwap st t a s) = [(''type'', JStr ''stableSwap''), (''stable'', JStr st), (''tokenIn'', JStr t), (''amountIn'', JStr a), (''slippageBps'', optNum s)]"
| "bodyObj (AaveOp t asset amount) = [(''type'', JStr (aaveName t)), (''asset'', JStr asset), (''amount'', JStr amount)]"
| "bodyObj (GmxIncrease l b c s a p) = [(''type'', JStr ''gmxIncrease''), (''isLong'', JBool l), (''base'', optStr b), (''collateral'', JStr c),
     (''sizeDeltaUsd'', JStr s), (''collateralAmount'', JStr a), (''acceptablePrice'', optStr p)]"
| "bodyObj (GmxDecrease l b c s a p) = [(''type'', JStr ''gmxDecrease''), (''isLong'', JBool l), (''base'', optStr b), (''collateral'', JStr c),
     (''sizeDeltaUsd'', JStr s), (''collateralDeltaAmount'', JStr a), (''acceptablePrice'', optStr p)]"
| "bodyObj (GmxCancelOrder k) = [(''type'', JStr ''gmxCancelOrder''), (''key'', JStr k)]"
| "bodyObj (LstDeposit a) = [(''type'', JStr ''lstDeposit''), (''amountWethWei'', JStr a)]"
| "bodyObj (LstSwap t a s) = [(''type'', JStr ''lstSwap''), (''tokenIn'', JStr t), (''amountIn'', JStr a), (''slippageBps'', optNum s)]"
| "bodyObj (LstRequestWithdraw a) = [(''type'', JStr ''lstRequestWithdraw''), (''amountLstWei'', JStr a)]"
| "bodyObj (LstClaimWithdraw r) = [(''type'', JStr ''lstClaimWithdraw''), (''requestId'', optStr r)]"
| "bodyObj (LiquityOpenTrove c b f) = [(''type'', JStr ''liquityOpenTrove''), (''collateralWethWei'', JStr c), (''debtEusdWei'', JStr b), (''maxFeeBps'', optNum f)]"
| "bodyObj (LiquityAdjustTrove a w c i f) = [(''type'', JStr ''liquityAdjustTrove''), (''addCollateralWethWei'', optStr a),
     (''withdrawCollateralWei'', optStr w), (''debtChangeEusdWei'', optStr c), (''isDebtIncrease'', optBool i), (''maxFeeBps'', optNum f)]"
| "bodyObj LiquityCloseTrove = [(''type'', JStr ''liquityCloseTrove'')]"
| "bodyObj (LiquityRedeem a n f) = [(''type'', JStr ''liquityRedeem''), (''amountEusdWei'', JStr a), (''maxIterations'', optNum n), (''maxFeeBps'', optNum f)]"
| "bodyObj (LiquityProvideToSP a) = [(''type'', JStr ''liquityProvideToSP''), (''amountEusdWei'', JStr a)]"
| "bodyObj (LiquityWithdrawFromSP a) = [(''type'', JStr ''liquityWithdrawFromSP''), (''amountEusdWei'', JStr a)]"
| "bodyObj (LiquityLiquidate b n) = [(''type'', JStr ''liquityLiquidate''), (''borrowers'', optArr b), (''maxTroves'', optNum n)]"
| "bodyObj (LiquitySwapEusd t a s) = [(''type'', JStr ''liquitySwapEusd''), (''tokenIn'', JStr t), (''amountIn'', JStr a), (''slippageBps'', optNum s)]"
| "bodyObj (CreateLendingMarket l c orc irm lltv) = [(''type'', JStr ''createLendingMarket''), (''loanToken'', JStr l),
     (''collateralToken'', JStr c), (''oracle'', JStr orc), (''irm'', JStr irm), (''lltv'', JStr lltv)]"
| "bodyObj (LendingOp t mid a) = [(''type'', JStr (lendingName t)), (''marketId'', JStr mid), (''amount'', JStr a)]"
| "bodyObj (LendingLiquidate mid b s) = [(''type'', JStr ''lendingLiquidate''), (''marketId'', JStr mid), (''borrower'', JStr b), (''seizedAssets'', JStr s)]"

definition toObj :: "leafAction \<Rightarrow> obj" where
  "toObj a = bodyObj (la_body a) @ [(''maxPriorityFeePerGasWei'', optStr (la_priorityFee a))]"

definition adapterForAction :: "deployment \<Rightarrow> protocolId list \<Rightarrow> leafAction \<Rightarrow> actionError + protocolId" where
  "adapterForAction d ids a =
     (case firstParse d ids ids (toObj a) of
        Inl e \<Rightarrow> Inl (Bad e)
      | Inr None \<Rightarrow> Inl NoOwner
      | Inr (Some (p, _)) \<Rightarrow> Inr p)"

end
