(* ===== verification/Leaf_Roundtrip.thy ===== *)
theory Leaf_Roundtrip
  imports Leaf_Actions
begin

text \<open>
  What an adapter's \<open>parse\<close> lets through: every action it gives is well formed, it gives one exactly
  for the types of its vocabulary, and reading the action back as an object gives the same action.
\<close>

named_theorems parse_iff \<open>when reading a field succeeds\<close>

section \<open>Fields\<close>

abbreviation decOpt :: "string option \<Rightarrow> bool" where
  "decOpt v \<equiv> pred_option isDecimal v"

lemma requireDecimal_iff [parse_iff]: "requireDecimal ob k = Inr s \<longleftrightarrow> jget ob k = JStr s \<and> isDecimal s"
  by (auto simp: requireDecimal_def split: json.splits)

lemma optStr_simps [simp]: "optStr None = JUndef" "optStr (Some s) = JStr s"
  "optStr v = JUndef \<longleftrightarrow> v = None" "JUndef = optStr v \<longleftrightarrow> v = None" "optStr v = JStr s \<longleftrightarrow> v = Some s" "JStr s = optStr v \<longleftrightarrow> v = Some s"
  "optStr v = optStr w \<longleftrightarrow> v = w"
  by (auto simp: optStr_def split: option.splits)

lemma optNum_simps [simp]: "optNum None = JUndef" "optNum v = JUndef \<longleftrightarrow> v = None" "JUndef = optNum v \<longleftrightarrow> v = None" "optNum v = optNum w \<longleftrightarrow> v = w"
  by (auto simp: optNum_def split: option.splits)

lemma optionalDecimal_iff [parse_iff]: "optionalDecimal ob k = Inr v \<longleftrightarrow> jget ob k = optStr v \<and> decOpt v"
  by (cases v) (auto simp: optionalDecimal_def result_simps parse_iff)

lemma isInteger_floor: "isInteger x \<Longrightarrow> of_int \<lfloor>x\<rfloor> = x"
  by (simp add: isInteger_def)

lemma requireInteger_iff [parse_iff]: "requireInteger ob k = Inr n \<longleftrightarrow> jget ob k = JNum (Fin (of_int n))"
  by (auto simp: requireInteger_def isInteger_floor split: json.splits jsnum.splits)

lemma optionalInteger_iff [parse_iff]:
  "optionalInteger ob k P = Inr v \<longleftrightarrow> jget ob k = optNum v \<and> pred_option P v"
  by (cases v) (auto simp: optionalInteger_def optNum_def isInteger_floor split: json.splits jsnum.splits)

lemma optionalBoolean_iff [parse_iff]: "optionalBoolean ob k = Inr v \<longleftrightarrow> jget ob k = optBool v"
  by (cases v) (auto simp: optionalBoolean_def optBool_def split: json.splits)

lemma optBool_inj [simp]: "optBool v = optBool w \<longleftrightarrow> v = w"
  by (auto simp: optBool_def split: option.splits)

lemma requireAddress_iff [parse_iff]: "requireAddress ob k = Inr s \<longleftrightarrow> jget ob k = JStr s \<and> isHexOf 40 s"
  by (auto simp: requireAddress_def split: json.splits)

lemma requireAmount_iff [parse_iff]:
  "requireAmount ob k allowMax = Inr s \<longleftrightarrow> jget ob k = JStr s \<and> (isDecimal s \<or> allowMax \<and> s = ''max'')"
  by (auto simp: requireAmount_def parse_iff)

lemma tokenInOf_iff [parse_iff]: "tokenInOf ob a b = Inr t \<longleftrightarrow> jget ob ''tokenIn'' = JStr t \<and> (t = a \<or> t = b)"
  by (auto simp: tokenInOf_def split: json.splits)

lemma optionalSlippage_iff [parse_iff]:
  "optionalSlippage ob = Inr v \<longleftrightarrow> jget ob ''slippageBps'' = optNum v \<and> pred_option slippageRange v"
  by (simp add: optionalSlippage_def parse_iff)

lemma addSlippage_iff [parse_iff]:
  "addSlippage ob = Inr v \<longleftrightarrow> jget ob ''slippageBps'' = optNum v \<and> pred_option slippageRange v"
  by (cases v) (auto simp: addSlippage_def result_simps parse_iff optNum_def)

lemma optionalBps_iff [parse_iff]:
  "optionalBps ob = Inr v \<longleftrightarrow> jget ob ''maxFeeBps'' = optNum v \<and> pred_option (\<lambda>n. 0 < n \<and> n \<le> 10000) v"
  by (simp add: optionalBps_def parse_iff)

lemma requireBoolean_iff [parse_iff]: "requireBoolean ob k = Inr b \<longleftrightarrow> jget ob k = JBool b"
  by (auto simp: requireBoolean_def split: json.splits)

lemma requireNonEmpty_iff [parse_iff]: "requireNonEmpty ob k = Inr s \<longleftrightarrow> jget ob k = JStr s \<and> s \<noteq> []"
  by (auto simp: requireNonEmpty_def split: json.splits)

lemma claimId_iff [parse_iff]:
  "claimId ob = Inr v \<longleftrightarrow> (v = None \<and> jget ob ''requestId'' = JStr ''all'') \<or> (jget ob ''requestId'' = optStr v \<and> decOpt v)"
  by (auto simp: claimId_def parse_iff isDecimal_def isDigit_def)

lemma strings_map [simp]: "strings (map JStr ss) = Some ss"
  by (induction ss) auto

lemma map_JStr_eq [simp]: "map JStr xs = map JStr ys \<longleftrightarrow> xs = ys"
  by (metis strings_map option.inject)

lemma strings_iff: "strings js = Some ss \<longleftrightarrow> js = map JStr ss"
  by (induction js arbitrary: ss rule: strings.induct) auto

lemma borrowersOf_iff [parse_iff]: "borrowersOf ob = Inr v \<longleftrightarrow> jget ob ''borrowers'' = optArr v"
  by (cases v) (auto simp: borrowersOf_def optArr_def strings_iff split: json.splits option.splits)

lemma optArr_inj [simp]: "optArr v = optArr w \<longleftrightarrow> v = w"
  by (auto simp: optArr_def split: option.splits)

lemma parseAsset_iff [parse_iff]:
  "parseAsset d ids ob = Inr s \<longleftrightarrow> jget ob ''asset'' = JStr s \<and> s \<in> set (aaveReserveSymbols d ids)"
  by (auto simp: parseAsset_def split: json.splits)

lemma withPriorityFee_iff [parse_iff]:
  "withPriorityFee ob b = Inr r \<longleftrightarrow> (\<exists>fee. r = Some (leaf b fee) \<and> jget ob ''maxPriorityFeePerGasWei'' = optStr fee \<and> decOpt fee)"
  by (auto simp: withPriorityFee_def result_simps parse_iff)

lemma parseBase_iff [parse_iff]:
  "parseBase d p ob = Inr r \<longleftrightarrow> (\<exists>m. marketFor d p (baseOf ob) = Some m \<and> r = (baseOf ob, m))"
  by (auto simp: parseBase_def split: option.splits)

lemma unlessWeth_simps [simp]: "unlessWeth ''WETH'' = None" "b \<noteq> ''WETH'' \<Longrightarrow> unlessWeth b = Some b"
  "orWeth (unlessWeth b) = b" "unlessWeth b \<noteq> Some ''WETH''"
  by (auto simp: unlessWeth_def orWeth_def)

lemma unlessWeth_orWeth: "b \<noteq> Some ''WETH'' \<Longrightarrow> unlessWeth (orWeth b) = b"
  by (cases b) (auto simp: orWeth_def)

lemma baseOf_obj: "jget ob ''base'' = optStr b \<Longrightarrow> baseOf ob = orWeth b"
  by (cases b) (auto simp: baseOf_def orWeth_def)

lemma ownBase_obj: "jget ob ''base'' = optStr b \<Longrightarrow> b \<noteq> Some ''WETH'' \<Longrightarrow> ownBase ob = b"
  by (cases b) (auto simp: ownBase_def)

lemma ownBase_not_weth [simp]: "ownBase ob \<noteq> Some ''WETH''"
  by (auto simp: ownBase_def split: json.splits)

section \<open>Well-formed actions\<close>

definition venueBase :: "deployment \<Rightarrow> protocolId \<Rightarrow> string option \<Rightarrow> bool" where
  "venueBase d p b \<longleftrightarrow> b \<noteq> Some ''WETH'' \<and> marketFor d p (orWeth b) \<noteq> None"

definition poolSwapOk :: "deployment \<Rightarrow> protocolId \<Rightarrow> string \<Rightarrow> string option \<Rightarrow> string \<Rightarrow> int option \<Rightarrow> bool" where
  "poolSwapOk d p t b a s \<longleftrightarrow> venueBase d p b \<and> (t = orWeth b \<or> t = ''USDC'') \<and> isDecimal a \<and> pred_option slippageRange s"

definition gmxOrderOk :: "deployment \<Rightarrow> string option \<Rightarrow> string \<Rightarrow> string \<Rightarrow> string \<Rightarrow> string option \<Rightarrow> bool" where
  "gmxOrderOk d b c s a p \<longleftrightarrow>
     pred_option (\<lambda>x. x \<noteq> ''WETH'' \<and> hasGmxLeg d x) b \<and> c \<noteq> [] \<and> isDecimal s \<and> isDecimal a \<and> decOpt p"

fun bodyOk :: "deployment \<Rightarrow> protocolId list \<Rightarrow> leafBody \<Rightarrow> bool" where
  "bodyOk d ids (Swap t b a s) = poolSwapOk d Uniswap t b a s"
| "bodyOk d ids (MintLiquidity b lo hi w u ba qa s) =
     (venueBase d Uniswap b \<and> pred_option slippageRange s
      \<and> (case b of None \<Rightarrow> isDecimal w \<and> isDecimal u \<and> ba = None \<and> qa = None
         | Some _ \<Rightarrow> w = ''0'' \<and> u = ''0'' \<and> (\<exists>x y. ba = Some x \<and> qa = Some y \<and> isDecimal x \<and> isDecimal y)))"
| "bodyOk d ids (RemoveLiquidity b t l w u) = (b \<noteq> Some ''WETH'' \<and> isDecimal t \<and> isDecimal l \<and> decOpt w \<and> decOpt u)"
| "bodyOk d ids (CollectFees b t) = (b \<noteq> Some ''WETH'' \<and> isDecimal t)"
| "bodyOk d ids (CreatePool a b f p) =
     (isHexOf 40 a \<and> isHexOf 40 b \<and> toLower a \<noteq> toLower b \<and> f \<in> set ENABLED_FEE_TIERS \<and> isDecimal p)"
| "bodyOk d ids (BalancerSwap t b a s) = poolSwapOk d Balancer t b a s"
| "bodyOk d ids (CurveSwap t b a s) = poolSwapOk d Curve t b a s"
| "bodyOk d ids (StableSwap st t a s) =
     (stableMarketBySymbol d ids st \<noteq> None \<and> (t = st \<or> t = ''USDC'') \<and> isDecimal a \<and> pred_option slippageRange s)"
| "bodyOk d ids (AaveOp t asset a) =
     (asset \<in> set (aaveReserveSymbols d ids) \<and> (isDecimal a \<or> (t = AaveWithdraw \<or> t = AaveRepay) \<and> a = ''max''))"
| "bodyOk d ids (GmxIncrease l b c s a p) = gmxOrderOk d b c s a p"
| "bodyOk d ids (GmxDecrease l b c s a p) = gmxOrderOk d b c s a p"
| "bodyOk d ids (GmxCancelOrder k) = isHexOf 64 k"
| "bodyOk d ids (LstDeposit a) = isDecimal a"
| "bodyOk d ids (LstSwap t a s) = ((t = ''WETH'' \<or> t = ''LST'') \<and> isDecimal a \<and> pred_option slippageRange s)"
| "bodyOk d ids (LstRequestWithdraw a) = isDecimal a"
| "bodyOk d ids (LstClaimWithdraw r) = decOpt r"
| "bodyOk d ids (LiquityOpenTrove c b f) = (isDecimal c \<and> isDecimal b \<and> pred_option (\<lambda>n. 0 < n \<and> n \<le> 10000) f)"
| "bodyOk d ids (LiquityAdjustTrove a w c i f) = (decOpt a \<and> decOpt w \<and> decOpt c \<and> pred_option (\<lambda>n. 0 < n \<and> n \<le> 10000) f)"
| "bodyOk d ids LiquityCloseTrove = True"
| "bodyOk d ids (LiquityRedeem a n f) = (isDecimal a \<and> pred_option (\<lambda>n. 0 \<le> n) n \<and> pred_option (\<lambda>n. 0 < n \<and> n \<le> 10000) f)"
| "bodyOk d ids (LiquityProvideToSP a) = isDecimal a"
| "bodyOk d ids (LiquityWithdrawFromSP a) = (isDecimal a \<or> a = ''max'')"
| "bodyOk d ids (LiquityLiquidate b n) = pred_option (\<lambda>n. 0 < n) n"
| "bodyOk d ids (LiquitySwapEusd t a s) = ((t = ''USDC'' \<or> t = ''EUSD'') \<and> isDecimal a \<and> pred_option slippageRange s)"
| "bodyOk d ids (CreateLendingMarket l c orc irm lltv) =
     (isHexOf 40 l \<and> isHexOf 40 c \<and> isHexOf 40 orc \<and> isHexOf 40 irm \<and> isDecimal lltv \<and> int (undec lltv) < WAD)"
| "bodyOk d ids (LendingOp t mid a) =
     (isHexOf 64 mid \<and> (isDecimal a \<or> (t = LendingWithdraw \<or> t = LendingRepay) \<and> a = ''max''))"
| "bodyOk d ids (LendingLiquidate mid b s) = (isHexOf 64 mid \<and> isHexOf 40 b \<and> isDecimal s)"

definition actionOk :: "deployment \<Rightarrow> protocolId list \<Rightarrow> leafAction \<Rightarrow> bool" where
  "actionOk d ids a \<longleftrightarrow> bodyOk d ids (la_body a) \<and> decOpt (la_priorityFee a)"

fun ownerOf :: "leafBody \<Rightarrow> protocolId" where
  "ownerOf (Swap _ _ _ _) = Uniswap" | "ownerOf (MintLiquidity _ _ _ _ _ _ _ _) = Uniswap"
| "ownerOf (RemoveLiquidity _ _ _ _ _) = Uniswap" | "ownerOf (CollectFees _ _) = Uniswap" | "ownerOf (CreatePool _ _ _ _) = Uniswap"
| "ownerOf (BalancerSwap _ _ _ _) = Balancer" | "ownerOf (CurveSwap _ _ _ _) = Curve" | "ownerOf (StableSwap _ _ _ _) = Curve"
| "ownerOf (AaveOp _ _ _) = Aave" | "ownerOf (GmxIncrease _ _ _ _ _ _) = Gmx" | "ownerOf (GmxDecrease _ _ _ _ _ _) = Gmx"
| "ownerOf (GmxCancelOrder _) = Gmx" | "ownerOf (LstDeposit _) = Lst" | "ownerOf (LstSwap _ _ _) = Lst"
| "ownerOf (LstRequestWithdraw _) = Lst" | "ownerOf (LstClaimWithdraw _) = Lst" | "ownerOf (CreateLendingMarket _ _ _ _ _) = Lending"
| "ownerOf (LendingOp _ _ _) = Lending" | "ownerOf (LendingLiquidate _ _ _) = Lending" | "ownerOf _ = Liquity"

lemma leaf_simps [simp]: "la_body (leaf b f) = b" "la_priorityFee (leaf b f) = f" "leaf b f = leaf b' f' \<longleftrightarrow> b = b' \<and> f = f'"
  by (simp_all add: leaf_def)

lemma leaf_of: "a = leaf (la_body a) (la_priorityFee a)"
  by (simp add: leaf_def)


section \<open>What each adapter lets through\<close>

named_theorems parse_defs \<open>the parsers of the adapters\<close>
declare parseCreatePool_def [parse_defs] parseUniSwap_def [parse_defs] parseMint_def [parse_defs] parseRemove_def [parse_defs]
  parseCollect_def [parse_defs] parsePoolSwap_def [parse_defs] parseGmxOrder_def [parse_defs] parseOpen_def [parse_defs]
  parseAdjust_def [parse_defs] parseRedeem_def [parse_defs] parseLiquidate_def [parse_defs] parseCreateMarket_def [parse_defs]

lemma parsePoolSwap_iff:
  "parsePoolSwap d p mk ob = Inr r \<longleftrightarrow> (\<exists>t a s fee m. r = Some (leaf (mk t (unlessWeth (baseOf ob)) a s) fee)
     \<and> marketFor d p (baseOf ob) = Some m \<and> jget ob ''tokenIn'' = JStr t \<and> (t = mk_base m \<or> t = mk_quote m)
     \<and> jget ob ''amountIn'' = JStr a \<and> isDecimal a \<and> jget ob ''maxPriorityFeePerGasWei'' = optStr fee \<and> decOpt fee
     \<and> jget ob ''slippageBps'' = optNum s \<and> pred_option slippageRange s)"
  by (auto simp: parsePoolSwap_def result_simps parse_iff)

lemma venueBase_unless: "marketFor d p b = Some m \<Longrightarrow> venueBase d p (unlessWeth b)"
  by (simp add: venueBase_def)

lemma poolSwapOk_parsed:
  "marketFor d p (baseOf ob) = Some m \<Longrightarrow> t = mk_base m \<or> t = mk_quote m \<Longrightarrow> isDecimal a \<Longrightarrow> pred_option slippageRange s
   \<Longrightarrow> poolSwapOk d p t (unlessWeth (baseOf ob)) a s"
  using marketFor_base marketFor_quote by (auto simp: poolSwapOk_def venueBase_unless)

lemma parsePoolSwap_ok:
  assumes "parsePoolSwap d p mk ob = Inr r"
  obtains t a s fee where "r = Some (leaf (mk t (unlessWeth (baseOf ob)) a s) fee)" "poolSwapOk d p t (unlessWeth (baseOf ob)) a s" "decOpt fee"
  using assms poolSwapOk_parsed unfolding parsePoolSwap_iff by blast

lemma parseUniSwap_eq: "parseUniSwap d ob = Inr r \<longleftrightarrow> parsePoolSwap d Uniswap Swap ob = Inr r"
  by (auto simp: parseUniSwap_def parsePoolSwap_def result_simps parse_iff)

lemma parseMint_ok:
  assumes "parseMint d ob = Inr r"
  shows "\<exists>a. r = Some a \<and> actionOk d ids a \<and> ownerOf (la_body a) = Uniswap"
proof (cases "baseOf ob = ''WETH''")
  case True
  then show ?thesis
    using assms by (auto simp: parseMint_def result_simps parse_iff actionOk_def venueBase_def orWeth_def)
next
  case False
  then show ?thesis
    using assms by (auto simp: parseMint_def result_simps parse_iff actionOk_def venueBase_def orWeth_def)
qed

lemma uniswapParse_ok:
  assumes "uniswapParse d ob = Inr (Some a)"
  shows "actionOk d ids a \<and> ownerOf (la_body a) = Uniswap"
  using assms parseMint_ok [of d ob "Some a" ids]
  by (auto simp: uniswapParse_def parseUniSwap_eq parseCreatePool_def parseRemove_def parseCollect_def result_simps parse_iff
      actionOk_def split: if_splits elim!: parsePoolSwap_ok)

lemma balancerParse_ok: "balancerParse d ob = Inr (Some a) \<Longrightarrow> actionOk d ids a \<and> ownerOf (la_body a) = Balancer"
  by (auto simp: balancerParse_def actionOk_def split: if_splits elim!: parsePoolSwap_ok)

lemma parseStableSwap_ok:
  "parseStableSwap d ids ob = Inr r \<Longrightarrow> \<exists>a. r = Some a \<and> actionOk d ids a \<and> ownerOf (la_body a) = Curve"
  using stableMarketBySymbol_Some [of d ids]
  by (auto simp: parseStableSwap_def result_simps parse_iff actionOk_def split: json.splits option.splits)

lemma curveParse_ok: "curveParse d ids ob = Inr (Some a) \<Longrightarrow> actionOk d ids a \<and> ownerOf (la_body a) = Curve"
  by (auto simp: curveParse_def actionOk_def split: if_splits elim!: parsePoolSwap_ok dest!: parseStableSwap_ok)

lemma aaveParse_ok: "aaveParse d ids ob = Inr (Some a) \<Longrightarrow> actionOk d ids a \<and> ownerOf (la_body a) = Aave"
  by (auto simp: aaveParse_def result_simps parse_iff actionOk_def split: option.splits)

lemma gmxParse_ok: "gmxParse d ob = Inr (Some a) \<Longrightarrow> actionOk d ids a \<and> ownerOf (la_body a) = Gmx"
  by (auto simp: gmxParse_def parseCancel_def parseGmxOrder_def result_simps parse_iff actionOk_def gmxOrderOk_def unlessWeth_def
      split: if_splits json.splits)

lemma lstParse_ok: "lstParse ob = Inr (Some a) \<Longrightarrow> actionOk d ids a \<and> ownerOf (la_body a) = Lst"
  by (auto simp: lstParse_def result_simps parse_iff actionOk_def split: if_splits)

lemma liquityParse_ok: "liquityParse ob = Inr (Some a) \<Longrightarrow> actionOk d ids a \<and> ownerOf (la_body a) = Liquity"
  by (auto simp: liquityParse_def parse_defs result_simps parse_iff actionOk_def split: if_splits)

lemma zero_address_hex [simp]: "isHexOf 40 ZERO_ADDRESS"
  by (simp add: isHexOf_def isHex_def ZERO_ADDRESS_def isHexDigit_def hexValue_def)

lemma lendingParse_ok: "lendingParse ob = Inr (Some a) \<Longrightarrow> actionOk d ids a \<and> ownerOf (la_body a) = Lending"
  by (auto simp: lendingParse_def parseCreateMarket_def result_simps parse_iff actionOk_def split: if_splits json.splits option.splits)

lemma adapterParse_ok: "adapterParse d ids p ob = Inr (Some a) \<Longrightarrow> actionOk d ids a \<and> ownerOf (la_body a) = p"
  by (cases p) (auto simp: adapterParse_def uniswapParse_ok balancerParse_ok curveParse_ok aaveParse_ok gmxParse_ok lstParse_ok
      liquityParse_ok lendingParse_ok)


section \<open>The vocabulary\<close>

definition spoken :: "protocolId \<Rightarrow> obj \<Rightarrow> bool" where
  "spoken p ob \<longleftrightarrow> list_ex (\<lambda>t. jget ob ''type'' = JStr t) (ACTION_TYPES_BY_PROTOCOL p)"

lemma parsers_not_null [simp]:
  "parseCreatePool ob \<noteq> Inr None" "parseUniSwap d ob \<noteq> Inr None" "parseMint d ob \<noteq> Inr None" "parseRemove ob \<noteq> Inr None"
  "parseCollect ob \<noteq> Inr None" "parsePoolSwap d p mk ob \<noteq> Inr None" "parseStableSwap d ids ob \<noteq> Inr None"
  "parseCancel ob \<noteq> Inr None" "parseGmxOrder d i ob \<noteq> Inr None" "withPriorityFee ob b \<noteq> Inr None" "parseOpen ob \<noteq> Inr None"
  "parseAdjust ob \<noteq> Inr None" "parseRedeem ob \<noteq> Inr None" "parseLiquidate ob \<noteq> Inr None" "parseCreateMarket ob \<noteq> Inr None"
  by (auto simp: parse_defs parseStableSwap_def parseCancel_def result_simps parse_iff split: json.splits option.splits)

lemma lendingTypes_spoken: "spoken Lending ob \<Longrightarrow> jget ob ''type'' \<noteq> JStr ''createLendingMarket'' \<Longrightarrow>
    find (\<lambda>t. jget ob ''type'' = JStr (lendingName t)) lendingTypes = None \<longleftrightarrow> jget ob ''type'' = JStr ''lendingLiquidate''"
  by (auto simp: spoken_def lendingTypes_def find_None_iff)

lemma aaveTypes_spoken: "find (\<lambda>t. jget ob ''type'' = JStr (aaveName t)) aaveTypes = None \<longleftrightarrow> \<not> spoken Aave ob"
  by (auto simp: spoken_def aaveTypes_def find_None_iff)

lemma uniswap_null: "uniswapParse d ob = Inr None \<longleftrightarrow> \<not> spoken Uniswap ob"
  by (simp add: uniswapParse_def spoken_def)

lemma balancer_null: "balancerParse d ob = Inr None \<longleftrightarrow> \<not> spoken Balancer ob"
  by (simp add: balancerParse_def spoken_def)

lemma curve_null: "curveParse d ids ob = Inr None \<longleftrightarrow> \<not> spoken Curve ob"
  by (simp add: curveParse_def spoken_def)

lemma gmx_null: "gmxParse d ob = Inr None \<longleftrightarrow> \<not> spoken Gmx ob"
  by (simp add: gmxParse_def spoken_def)

lemma lst_null: "lstParse ob = Inr None \<longleftrightarrow> \<not> spoken Lst ob"
  by (simp add: lstParse_def spoken_def result_simps)

lemma liquity_null: "liquityParse ob = Inr None \<longleftrightarrow> \<not> spoken Liquity ob"
  by (simp add: liquityParse_def spoken_def result_simps)

lemma aave_null: "aaveParse d ids ob = Inr None \<longleftrightarrow> \<not> spoken Aave ob"
  unfolding aaveTypes_spoken [symmetric] by (auto simp: aaveParse_def result_simps split: option.splits)

lemma lending_null: "lendingParse ob = Inr None \<longleftrightarrow> \<not> spoken Lending ob"
  unfolding lendingParse_def spoken_def [symmetric] by (auto simp: result_simps split: json.splits option.splits)

lemma adapterParse_null: "adapterParse d ids p ob = Inr None \<longleftrightarrow> \<not> spoken p ob"
  by (cases p) (simp_all add: adapterParse_def uniswap_null balancer_null curve_null gmx_null lst_null liquity_null aave_null lending_null)

definition ownerOfType :: "string \<Rightarrow> protocolId option" where
  "ownerOfType t = map_of (concat (map (\<lambda>p. map (\<lambda>s. (s, p)) (ACTION_TYPES_BY_PROTOCOL p)) ALL_PROTOCOL_IDS)) t"

lemma ownerOfType: "t \<in> set (ACTION_TYPES_BY_PROTOCOL p) \<Longrightarrow> ownerOfType t = Some p"
proof -
  have "list_all (\<lambda>p. list_all (\<lambda>t. ownerOfType t = Some p) (ACTION_TYPES_BY_PROTOCOL p)) ALL_PROTOCOL_IDS" by code_simp
  moreover have "p \<in> set ALL_PROTOCOL_IDS" by (cases p) (simp_all add: ALL_PROTOCOL_IDS_def)
  ultimately show "t \<in> set (ACTION_TYPES_BY_PROTOCOL p) \<Longrightarrow> ownerOfType t = Some p" by (auto simp: list_all_iff)
qed

lemma spoken_by_one: "spoken p ob \<Longrightarrow> spoken q ob \<Longrightarrow> p = q"
  unfolding spoken_def list_ex_iff using ownerOfType by (metis json.inject(3) option.inject)

lemma firstParse_owner:
  assumes "adapterParse d ids p ob = Inr (Some a)" "p \<in> set ps"
  shows "firstParse d ids ps ob = Inr (Some (p, a))"
  using assms(2)
proof (induction ps)
  case (Cons q ps)
  have p: "spoken p ob" using adapterParse_null [of d ids p ob] assms(1) by auto
  show ?case
  proof (cases "q = p")
    case False
    then have "adapterParse d ids q ob = Inr None" using spoken_by_one [OF p] by (auto simp: adapterParse_null)
    then show ?thesis using Cons False by simp
  qed (use assms(1) in simp)
qed simp

lemma firstParse_Some: "firstParse d ids ps ob = Inr (Some (p, a)) \<Longrightarrow> p \<in> set ps \<and> adapterParse d ids p ob = Inr (Some a)"
  by (induction ps) (auto simp: result_simps split: option.splits)

lemma firstParse_None: "firstParse d ids ps ob = Inr None \<longleftrightarrow> \<not> list_ex (\<lambda>p. spoken p ob) ps"
  by (induction ps) (auto simp: result_simps adapterParse_null split: option.splits)

section \<open>Reading an action back\<close>

lemma toObj_leaf: "toObj (leaf b fee) = bodyObj b @ [(''maxPriorityFeePerGasWei'', optStr fee)]"
  by (simp add: toObj_def)

lemma parsePoolSwap_back:
  assumes "jget ob ''tokenIn'' = JStr t" "jget ob ''base'' = optStr b" "jget ob ''amountIn'' = JStr a" "jget ob ''slippageBps'' = optNum s"
    "jget ob ''maxPriorityFeePerGasWei'' = optStr fee" "poolSwapOk d p t b a s" "decOpt fee"
  shows "parsePoolSwap d p mk ob = Inr (Some (leaf (mk t b a s) fee))"
proof -
  obtain m where m: "marketFor d p (orWeth b) = Some m" using assms(6) by (auto simp: poolSwapOk_def venueBase_def)
  have "t = mk_base m \<or> t = mk_quote m" "unlessWeth (orWeth b) = b"
    using assms(6) marketFor_base [OF m] marketFor_quote [OF m] by (auto simp: poolSwapOk_def venueBase_def unlessWeth_orWeth)
  then show ?thesis
    unfolding parsePoolSwap_iff baseOf_obj [OF assms(2)] using assms m by (auto simp: poolSwapOk_def)
qed

lemma uniswap_back:
  assumes "bodyOk d ids b" "ownerOf b = Uniswap" "decOpt fee"
  shows "uniswapParse d (toObj (leaf b fee)) = Inr (Some (leaf b fee))"
proof (cases b)
  case (Swap t bs a s)
  then show ?thesis
    using assms by (simp add: uniswapParse_def toObj_leaf parseUniSwap_eq parsePoolSwap_back)
next
  case (MintLiquidity bs lo hi w u ba qa s)
  then have "baseOf (toObj (leaf b fee)) = orWeth bs" by (intro baseOf_obj) (simp add: toObj_leaf)
  then show ?thesis
    using assms MintLiquidity
    by (cases bs) (auto simp: uniswapParse_def parseMint_def toObj_leaf result_simps parse_iff venueBase_def orWeth_def)
next
  case (RemoveLiquidity bs t l w u)
  then have "ownBase (toObj (leaf b fee)) = bs" using assms(1) by (intro ownBase_obj) (simp_all add: toObj_leaf)
  then show ?thesis
    using assms RemoveLiquidity by (simp add: uniswapParse_def parseRemove_def toObj_leaf result_simps parse_iff)
next
  case (CollectFees bs t)
  then have "ownBase (toObj (leaf b fee)) = bs" using assms(1) by (intro ownBase_obj) (simp_all add: toObj_leaf)
  then show ?thesis
    using assms CollectFees by (simp add: uniswapParse_def parseCollect_def toObj_leaf result_simps parse_iff)
next
  case (CreatePool a b f p)
  then show ?thesis
    using assms by (simp add: uniswapParse_def parseCreatePool_def toObj_leaf result_simps parse_iff)
qed (use assms in simp_all)

lemma balancer_back:
  "bodyOk d ids b \<Longrightarrow> ownerOf b = Balancer \<Longrightarrow> decOpt fee \<Longrightarrow> balancerParse d (toObj (leaf b fee)) = Inr (Some (leaf b fee))"
  by (cases b) (simp_all add: balancerParse_def toObj_leaf parsePoolSwap_back)

lemma curve_back:
  assumes "bodyOk d ids b" "ownerOf b = Curve" "decOpt fee"
  shows "curveParse d ids (toObj (leaf b fee)) = Inr (Some (leaf b fee))"
proof (cases b)
  case (StableSwap st t a s)
  then show ?thesis
    using assms stableMarketBySymbol_Some [of d ids st]
    by (auto simp: curveParse_def parseStableSwap_def toObj_leaf result_simps parse_iff)
qed (use assms in \<open>simp_all add: curveParse_def toObj_leaf parsePoolSwap_back\<close>)

lemma aave_back:
  "bodyOk d ids b \<Longrightarrow> ownerOf b = Aave \<Longrightarrow> decOpt fee \<Longrightarrow> aaveParse d ids (toObj (leaf b fee)) = Inr (Some (leaf b fee))"
proof (cases b)
  case (AaveOp t s a)
  then show "bodyOk d ids b \<Longrightarrow> decOpt fee \<Longrightarrow> aaveParse d ids (toObj (leaf b fee)) = Inr (Some (leaf b fee))"
    by (cases t) (simp_all add: aaveParse_def aaveTypes_def toObj_leaf result_simps parse_iff)
qed simp_all

lemma gmx_back:
  assumes "bodyOk d ids b" "ownerOf b = Gmx" "decOpt fee"
  shows "gmxParse d (toObj (leaf b fee)) = Inr (Some (leaf b fee))"
proof (cases b)
  case (GmxIncrease l bs c s a p)
  then have "baseOf (toObj (leaf b fee)) = orWeth bs" by (intro baseOf_obj) (simp add: toObj_leaf)
  then show ?thesis
    using assms GmxIncrease
    by (cases bs) (auto simp: gmxParse_def parseGmxOrder_def toObj_leaf result_simps parse_iff orWeth_def gmxOrderOk_def)
next
  case (GmxDecrease l bs c s a p)
  then have "baseOf (toObj (leaf b fee)) = orWeth bs" by (intro baseOf_obj) (simp add: toObj_leaf)
  then show ?thesis
    using assms GmxDecrease
    by (cases bs) (auto simp: gmxParse_def parseGmxOrder_def toObj_leaf result_simps parse_iff orWeth_def gmxOrderOk_def)
qed (use assms in \<open>simp_all add: gmxParse_def parseCancel_def toObj_leaf parse_iff\<close>)

lemma lst_back:
  "bodyOk d ids b \<Longrightarrow> ownerOf b = Lst \<Longrightarrow> decOpt fee \<Longrightarrow> lstParse (toObj (leaf b fee)) = Inr (Some (leaf b fee))"
  by (cases b) (auto simp: lstParse_def toObj_leaf result_simps parse_iff)

lemma liquity_back:
  "bodyOk d ids b \<Longrightarrow> ownerOf b = Liquity \<Longrightarrow> decOpt fee \<Longrightarrow> liquityParse (toObj (leaf b fee)) = Inr (Some (leaf b fee))"
  by (cases b) (auto simp: liquityParse_def parseOpen_def parseAdjust_def parseRedeem_def parseLiquidate_def toObj_leaf result_simps parse_iff)

lemma lending_back:
  assumes "bodyOk d ids b" "ownerOf b = Lending" "decOpt fee"
  shows "lendingParse (toObj (leaf b fee)) = Inr (Some (leaf b fee))"
proof (cases b)
  case (LendingOp t mid a)
  then show ?thesis
    using assms by (cases t) (simp_all add: lendingParse_def lendingTypes_def toObj_leaf result_simps parse_iff)
qed (use assms in \<open>simp_all add: lendingParse_def lendingTypes_def parseCreateMarket_def toObj_leaf result_simps parse_iff\<close>)

lemma adapter_back:
  assumes "actionOk d ids a"
  shows "adapterParse d ids (ownerOf (la_body a)) (toObj a) = Inr (Some a)"
proof -
  note ok = assms [unfolded actionOk_def]
  note backs = uniswap_back [of d ids "la_body a" "la_priorityFee a"] balancer_back [of d ids "la_body a" "la_priorityFee a"]
    curve_back [of d ids "la_body a" "la_priorityFee a"] aave_back [of d ids "la_body a" "la_priorityFee a"]
    gmx_back [of d ids "la_body a" "la_priorityFee a"] lst_back [of d ids "la_body a" "la_priorityFee a"]
    liquity_back [of d ids "la_body a" "la_priorityFee a"] lending_back [of d ids "la_body a" "la_priorityFee a"]
  show ?thesis
    using backs ok by (cases "ownerOf (la_body a)") (simp_all add: adapterParse_def leaf_of [symmetric])
qed

lemma adapterForAction_ok:
  "actionOk d ids a \<Longrightarrow> ownerOf (la_body a) \<in> set ids \<Longrightarrow> adapterForAction d ids a = Inr (ownerOf (la_body a))"
  by (simp add: adapterForAction_def firstParse_owner [OF adapter_back])

lemma parsed_leaf_ok:
  assumes "parseLeafAction d ids ob = Inr a"
  shows "actionOk d ids a \<and> ownerOf (la_body a) \<in> set ids \<and> spoken (ownerOf (la_body a)) ob"
proof -
  obtain p where "firstParse d ids ids ob = Inr (Some (p, a))"
    using assms by (auto simp: parseLeafAction_def split: sum.splits option.splits)
  then have p: "p \<in> set ids" "adapterParse d ids p ob = Inr (Some a)" by (auto dest: firstParse_Some)
  then have "spoken p ob" using adapterParse_null [of d ids p ob] by auto
  then show ?thesis using adapterParse_ok [OF p(2)] p(1) by auto
qed

text \<open>
  C23. An action is read back from its own object as itself, by the one venue that owns it; that is
  how the venue of an action is looked up, so an action that parsed is never handed to another venue
  or to none.
\<close>

theorem action_reads_back:
  assumes "actionOk d ids a" "ownerOf (la_body a) \<in> set ids"
  shows "parseLeafAction d ids (toObj a) = Inr a \<and> adapterForAction d ids a = Inr (ownerOf (la_body a))"
  using assms by (simp add: parseLeafAction_def firstParse_owner [OF adapter_back] adapterForAction_ok)

text \<open>
  The vocabulary the agents are told is exact: an object is an unknown action exactly when no
  enabled venue lists its type, and no two venues list the same one.
\<close>

theorem vocabulary_exact:
  "(\<exists>t. parseLeafAction d ids ob = Inl (UnknownType t)) = (\<not> list_ex (\<lambda>p. spoken p ob) ids)
   \<and> distinct (concat (map ACTION_TYPES_BY_PROTOCOL ALL_PROTOCOL_IDS))"
proof -
  have "distinct (concat (map ACTION_TYPES_BY_PROTOCOL ALL_PROTOCOL_IDS))" by (simp add: ALL_PROTOCOL_IDS_def)
  moreover have "(\<exists>t. parseLeafAction d ids ob = Inl (UnknownType t)) \<longleftrightarrow> firstParse d ids ids ob = Inr None"
    unfolding parseLeafAction_def by (auto split: sum.splits option.splits)
  ultimately show ?thesis unfolding firstParse_None by blast
qed

section \<open>Applied\<close>

definition swapObj :: obj where
  "swapObj = [(''type'', JStr ''swap''), (''tokenIn'', JStr ''USDC''), (''amountIn'', JStr ''2500''), (''slippageBps'', JNum (Fin 50))]"

lemma swapObj_gets: "jget swapObj ''type'' = JStr ''swap''" "jget swapObj ''tokenIn'' = JStr ''USDC''" "jget swapObj ''amountIn'' = JStr ''2500''"
  "jget swapObj ''slippageBps'' = JNum (Fin 50)" "jget swapObj ''base'' = JUndef" "jget swapObj ''maxPriorityFeePerGasWei'' = JUndef"
  by (simp_all add: swapObj_def)

lemma fork_weth_market: "\<exists>m. marketFor forkDeployment Uniswap ''WETH'' = Some m"
  by (simp add: marketFor_def marketsFor_def forkDeployment_def plainMarket_def) (simp add: forkLegs_def)

lemma swapObj_parsed: "parseLeafAction forkDeployment [Uniswap] swapObj = Inr (leaf (Swap ''USDC'' None ''2500'' (Some 50)) None)"
proof -
  have "parsePoolSwap forkDeployment Uniswap Swap swapObj = Inr (Some (leaf (Swap ''USDC'' None ''2500'' (Some 50)) None))"
  proof (rule parsePoolSwap_back)
    show "poolSwapOk forkDeployment Uniswap ''USDC'' None ''2500'' (Some 50)"
      using fork_weth_market by (auto simp: poolSwapOk_def venueBase_def orWeth_def isDecimal_def isDigit_def slippageRange_def)
  qed (simp_all add: swapObj_gets optNum_def)
  then have "uniswapParse forkDeployment swapObj = Inr (Some (leaf (Swap ''USDC'' None ''2500'' (Some 50)) None))"
    by (simp add: uniswapParse_def swapObj_gets parseUniSwap_eq)
  then show ?thesis by (simp add: parseLeafAction_def adapterParse_def)
qed

lemma action_reads_back_witness:
  "adapterForAction forkDeployment [Curve, Lst] (leaf (LstDeposit ''12'') (Some ''7'')) = Inr Lst"
  using action_reads_back [of forkDeployment "[Curve, Lst]" "leaf (LstDeposit ''12'') (Some ''7'')"]
  by (simp add: actionOk_def isDecimal_def isDigit_def)

end
