(* ===== verification/Gmx_Cap.thy ===== *)
theory Gmx_Cap
  imports Prelude
begin

text \<open>
  The leverage cap checked before the exchange checks it (\<open>sdk/src/protocols/gmxLeverage.ts\<close>): the share
  of the cap an order would use at given prices, an increase's own share, and the refusal. A share
  is a real, \<open>None\<close> for \<open>Infinity\<close>; amounts are big integers with the run-time's truncating division.
  The wording of a refusal is data.
\<close>

definition GMX_KEEPER_CAP_USE :: real where
  "GMX_KEEPER_CAP_USE = 98 / 100"

definition GMX_RUNTIME_CAP_USE :: real where
  "GMX_RUNTIME_CAP_USE = 9 / 10"

definition FLOAT_PRECISION :: int where
  "FLOAT_PRECISION = 10 ^ 30"

definition SHARE_PRECISION :: int where
  "SHARE_PRECISION = 10 ^ 12"

definition applyFactor :: "int \<Rightarrow> int \<Rightarrow> int" where
  "applyFactor v factor = (v * factor) sdiv FLOAT_PRECISION"

definition share :: "int \<Rightarrow> int \<Rightarrow> real option" where
  "share required available =
     (if available \<le> 0 then None
      else Some (of_int ((required * SHARE_PRECISION) sdiv available) / of_int SHARE_PRECISION))"

record gmxCapPosition =
  cp_sizeInUsd :: int
  cp_collateralAmount :: int
  cp_pnlUsd :: int
  cp_pendingFeeAmount :: int
  cp_closeImpactUsd :: "int option"

record gmxCapMarket =
  cm_collateralPrice :: int
  cm_minCollateralFactor :: int
  cm_oiMultiplierFactor :: "int option"
  cm_openInterestUsd :: "int option"
  cm_feeFactor :: int
  cm_maxImpactFactorForLiquidations :: "int option"

datatype orderKind = Increase | Decrease

record gmxCapOrder =
  co_kind :: orderKind
  co_sizeDeltaUsd :: int
  co_collateralDeltaAmount :: int

datatype bindingTest = ByCollateral | ByEquity

record gmxCapUse =
  cu_sizeAfterUsd :: int
  cu_collateralAfterUsd :: "int option"
  cu_equityAfterUsd :: int
  cu_capUse :: "real option"
  cu_leverage :: "real option"
  cu_binding :: bindingTest

definition or0 :: "int option \<Rightarrow> int" where
  "or0 v = (case v of None \<Rightarrow> 0 | Some n \<Rightarrow> n)"

text \<open>\<open>Math.max\<close> and \<open>>\<close> on shares.\<close>

definition shareMax :: "real option \<Rightarrow> real option \<Rightarrow> real option" where
  "shareMax a b = (case (a, b) of (Some x, Some y) \<Rightarrow> Some (max x y) | _ \<Rightarrow> None)"

definition shareGt :: "real option \<Rightarrow> real option \<Rightarrow> bool" where
  "shareGt a b = (case (a, b) of (Some x, Some y) \<Rightarrow> y < x | (None, Some y) \<Rightarrow> True | _ \<Rightarrow> False)"

definition capResult :: "int \<Rightarrow> int \<Rightarrow> (int \<times> int) option \<Rightarrow> int \<Rightarrow> gmxCapUse" where
  "capResult sizeAfter factor collateral equityAfter =
     (let byEquity = share (applyFactor sizeAfter factor) equityAfter;
          byCollateral = (case collateral of Some (usd, f) \<Rightarrow> share (applyFactor sizeAfter f) usd | None \<Rightarrow> Some 0);
          capUse = shareMax byEquity byCollateral
      in \<lparr>cu_sizeAfterUsd = sizeAfter, cu_collateralAfterUsd = map_option fst collateral,
          cu_equityAfterUsd = equityAfter, cu_capUse = capUse,
          cu_leverage = map_option (\<lambda>u. u * (of_int FLOAT_PRECISION / of_int factor)) capUse,
          cu_binding = (if shareGt byCollateral byEquity then ByCollateral else ByEquity)\<rparr>)"

definition oiFactor :: "gmxCapMarket \<Rightarrow> int \<Rightarrow> int" where
  "oiFactor market openInterestAfter =
     (let multiplier = or0 (cm_oiMultiplierFactor market); factor = cm_minCollateralFactor market
      in if multiplier = 0 then factor
         else (let byOi = applyFactor (if 0 < openInterestAfter then openInterestAfter else 0) multiplier
               in if factor < byOi then byOi else factor))"

definition equityOf :: "gmxCapMarket \<Rightarrow> int \<Rightarrow> int \<Rightarrow> int \<Rightarrow> int" where
  "equityOf market collateralUsd pnlUsd size' =
     collateralUsd + pnlUsd - applyFactor size' (cm_feeFactor market)
     - applyFactor size' (or0 (cm_maxImpactFactorForLiquidations market))"

definition openPosition :: "gmxCapPosition option \<Rightarrow> gmxCapPosition option" where
  "openPosition position = (case position of Some p \<Rightarrow> if 0 < cp_sizeInUsd p then Some p else None | None \<Rightarrow> None)"

definition increaseUse :: "gmxCapOrder \<Rightarrow> gmxCapPosition option \<Rightarrow> gmxCapMarket \<Rightarrow> gmxCapUse option" where
  "increaseUse order pos market =
     (let price = cm_collateralPrice market; fee = cm_feeFactor market;
          field = (\<lambda>f. case pos of Some p \<Rightarrow> f p | None \<Rightarrow> 0);
          sizeAfter = field cp_sizeInUsd + co_sizeDeltaUsd order;
          collateralAfter = (field cp_collateralAmount - field cp_pendingFeeAmount + co_collateralDeltaAmount order) * price
            - applyFactor (co_sizeDeltaUsd order) fee;
          equityAfter = equityOf market collateralAfter (field cp_pnlUsd) sizeAfter
      in if co_sizeDeltaUsd order = 0 then None
         else Some (capResult sizeAfter (cm_minCollateralFactor market)
           (Some (collateralAfter, oiFactor market (or0 (cm_openInterestUsd market) + co_sizeDeltaUsd order))) equityAfter))"

definition decreaseUse :: "gmxCapOrder \<Rightarrow> gmxCapPosition \<Rightarrow> gmxCapMarket \<Rightarrow> gmxCapUse option" where
  "decreaseUse order pos market =
     (let price = cm_collateralPrice market; fee = cm_feeFactor market; delta = co_sizeDeltaUsd order
      in if cp_sizeInUsd pos \<le> delta then None
         else if delta = 0 \<and> co_collateralDeltaAmount order = 0 then None
         else
           (let withdrawn = (if cp_collateralAmount pos < co_collateralDeltaAmount order then cp_collateralAmount pos
                             else co_collateralDeltaAmount order);
                sizeAfter = cp_sizeInUsd pos - delta;
                realizedPnl = (cp_pnlUsd pos * delta) sdiv cp_sizeInUsd pos;
                lossPaid = (if realizedPnl < 0 then realizedPnl else 0);
                collateralTest = (cp_collateralAmount pos - withdrawn) * price + lossPaid;
                closeImpact = or0 (cp_closeImpactUsd pos);
                realizedImpact = (if closeImpact < 0 then (closeImpact * delta) sdiv cp_sizeInUsd pos else 0);
                collateralAfter = (cp_collateralAmount pos - withdrawn - cp_pendingFeeAmount pos) * price
                  - applyFactor delta fee + lossPaid + realizedImpact;
                equityAfter = equityOf market collateralAfter (cp_pnlUsd pos - realizedPnl) sizeAfter;
                testsCollateral = (0 < withdrawn \<or> delta = 0)
            in Some (capResult sizeAfter (cm_minCollateralFactor market)
                 (if testsCollateral then Some (collateralTest, oiFactor market (or0 (cm_openInterestUsd market) - delta)) else None)
                 equityAfter)))"

definition gmxCapUse :: "gmxCapOrder \<Rightarrow> gmxCapPosition option \<Rightarrow> gmxCapMarket \<Rightarrow> gmxCapUse option" where
  "gmxCapUse order position market =
     (if cm_minCollateralFactor market \<le> 0 then None
      else (case co_kind order of
        Increase \<Rightarrow> increaseUse order (openPosition position) market
      | Decrease \<Rightarrow> (case openPosition position of None \<Rightarrow> None | Some pos \<Rightarrow> decreaseUse order pos market)))"

definition gmxOwnCapUse :: "gmxCapOrder \<Rightarrow> gmxCapMarket \<Rightarrow> gmxCapUse option" where
  "gmxOwnCapUse order market = (if co_kind order \<noteq> Increase then None else gmxCapUse order None market)"

datatype capRefusal = OwnNoCollateral | OwnOver real | LeavesNone bindingTest | LeavesOver real bindingTest

definition gmxCapRefusal :: "gmxCapUse option \<Rightarrow> real \<Rightarrow> bool \<Rightarrow> capRefusal option" where
  "gmxCapRefusal use maxUse own =
     (case use of
        None \<Rightarrow> None
      | Some u \<Rightarrow>
          (case cu_capUse u of
             None \<Rightarrow> Some (if own then OwnNoCollateral else LeavesNone (cu_binding u))
           | Some c \<Rightarrow>
               if c \<le> maxUse then None
               else Some (if own then OwnOver (the (cu_leverage u)) else LeavesOver (the (cu_leverage u)) (cu_binding u))))"

section \<open>What is let through meets the exchange's own tests\<close>

lemma precision_pos [simp]: "0 < FLOAT_PRECISION" "0 < SHARE_PRECISION"
  by (simp_all add: FLOAT_PRECISION_def SHARE_PRECISION_def)

lemma applyFactor_nonneg: "0 \<le> v \<Longrightarrow> 0 \<le> f \<Longrightarrow> 0 \<le> applyFactor v f"
  by (simp add: applyFactor_def sdiv_nonneg pos_imp_zdiv_nonneg_iff)

lemma share_Some:
  assumes "share required available = Some u" "0 \<le> required"
  shows "0 < available" "u = of_int ((required * SHARE_PRECISION) div available) / of_int SHARE_PRECISION"
proof -
  show pos: "0 < available" using assms(1) by (simp add: share_def split: if_splits)
  have "0 \<le> required * SHARE_PRECISION" using assms(2) less_imp_le [OF precision_pos(2)] by (rule mult_nonneg_nonneg)
  then show "u = of_int ((required * SHARE_PRECISION) div available) / of_int SHARE_PRECISION"
    using assms(1) pos by (simp add: share_def sdiv_nonneg)
qed

lemma share_le:
  assumes s: "share required available = Some u" and u: "u \<le> 98 / 100" and r: "0 \<le> required"
  shows "0 < available \<and> required \<le> available"
proof -
  let ?q = "(required * SHARE_PRECISION) div available"
  note pos = share_Some(1) [OF s r]
  have "real_of_int ?q \<le> 98 / 100 * of_int SHARE_PRECISION"
    using u share_Some(2) [OF s r] by (simp add: pos_divide_le_eq)
  also have "\<dots> < of_int SHARE_PRECISION" by (simp add: SHARE_PRECISION_def)
  finally have "?q < SHARE_PRECISION" by linarith
  then have "available * (?q + 1) \<le> available * SHARE_PRECISION"
    using pos by (intro mult_left_mono) simp_all
  moreover have "required * SHARE_PRECISION < available * (?q + 1)"
    using mult_div_mod_eq [of available "required * SHARE_PRECISION"] pos_mod_bound [OF pos, of "required * SHARE_PRECISION"]
    unfolding distrib_left by linarith
  ultimately have "required * SHARE_PRECISION < available * SHARE_PRECISION" by linarith
  then show ?thesis using pos mult_less_cancel_right_pos [OF precision_pos(2)] by (metis less_imp_le)
qed

text \<open>What the exchange tests of the position an order leaves (\<open>isPositionLiquidatable\<close> and the collateral test).\<close>

definition withinCap :: "gmxCapUse \<Rightarrow> int \<Rightarrow> int option \<Rightarrow> bool" where
  "withinCap u factor oi \<longleftrightarrow>
     applyFactor (cu_sizeAfterUsd u) factor \<le> cu_equityAfterUsd u \<and> 0 < cu_equityAfterUsd u
     \<and> (case (oi, cu_collateralAfterUsd u) of (Some f, Some c) \<Rightarrow> applyFactor (cu_sizeAfterUsd u) f \<le> c | _ \<Rightarrow> True)"

lemma shareMax_Some: "shareMax a b = Some m \<longleftrightarrow> (\<exists>x y. a = Some x \<and> b = Some y \<and> m = max x y)"
  by (auto simp: shareMax_def split: option.splits)

lemma capResult_within:
  assumes "cu_capUse (capResult n f c e) = Some u" "u \<le> 98 / 100" "0 \<le> n" "0 \<le> f" "case c of Some (_, g) \<Rightarrow> 0 \<le> g | None \<Rightarrow> True"
  shows "withinCap (capResult n f c e) f (map_option snd c)"
proof -
  obtain x y where xy: "share (applyFactor n f) e = Some x"
    "(case c of Some (usd, g) \<Rightarrow> share (applyFactor n g) usd | None \<Rightarrow> Some 0) = Some y" "u = max x y"
    using assms(1) by (auto simp: capResult_def Let_def shareMax_Some)
  have "0 < e \<and> applyFactor n f \<le> e"
    using share_le [OF xy(1)] xy(3) assms(2,3,4) applyFactor_nonneg by auto
  moreover have "applyFactor n g \<le> usd" if "c = Some (usd, g)" for usd g
    using share_le [of "applyFactor n g" usd y] xy(2,3) assms(2,3,5) applyFactor_nonneg that by auto
  ultimately show ?thesis
    by (auto simp: withinCap_def capResult_def Let_def split: option.splits)
qed

lemma oiFactor_nonneg: "0 < cm_minCollateralFactor m \<Longrightarrow> 0 \<le> oiFactor m x"
  by (auto simp: oiFactor_def Let_def)

text \<open>The factor the exchange uses for the collateral of the order's side after it.\<close>

definition sideFactor :: "gmxCapOrder \<Rightarrow> gmxCapMarket \<Rightarrow> int" where
  "sideFactor order market = oiFactor market (or0 (cm_openInterestUsd market) +
     (if co_kind order = Increase then co_sizeDeltaUsd order else - co_sizeDeltaUsd order))"

lemma gmxCapUse_within:
  assumes "gmxCapUse order position market = Some u" "cu_capUse u = Some c" "c \<le> 98 / 100" "0 \<le> co_sizeDeltaUsd order"
  shows "withinCap u (cm_minCollateralFactor market) (Some (sideFactor order market))"
proof -
  have f: "0 < cm_minCollateralFactor market" using assms(1) by (auto simp: gmxCapUse_def split: if_splits)
  obtain n coll e where u: "u = capResult n (cm_minCollateralFactor market) coll e" "0 \<le> n"
    "\<forall>usd g. coll = Some (usd, g) \<longrightarrow> g = sideFactor order market"
  proof (cases "co_kind order")
    case Increase
    then show thesis
      using assms(1,4) f that
      by (auto simp: gmxCapUse_def increaseUse_def sideFactor_def Let_def openPosition_def split: if_splits option.splits)
  next
    case Decrease
    then show thesis
      using assms(1) f that
      by (auto simp: gmxCapUse_def decreaseUse_def sideFactor_def Let_def openPosition_def split: if_splits option.splits)
  qed
  have "withinCap u (cm_minCollateralFactor market) (map_option snd coll)"
    unfolding u(1)
  proof (rule capResult_within)
    show "cu_capUse (capResult n (cm_minCollateralFactor market) coll e) = Some c" using assms(2) u(1) by simp
    show "case coll of Some (_, g) \<Rightarrow> 0 \<le> g | None \<Rightarrow> True"
      using u(3) oiFactor_nonneg [OF f] by (auto simp: sideFactor_def split: option.split)
  qed (use assms(3) u(2) f in simp_all)
  then show ?thesis
    using u(3) by (cases coll) (auto simp: withinCap_def u(1) capResult_def Let_def)
qed

section \<open>The exchange's own tests\<close>

text \<open>
  What the exchange holds after it executed the order, in its own accounts: the collateral is what was
  held and what was posted, less what the position owed, what is taken out, the fee on the size
  traded, and the part of a loss or of a negative impact that closing realizes (a realized gain is
  paid out). All amounts are at the execution price and every division truncates.
\<close>

record exchangePosition =
  xp_sizeUsd :: int
  xp_collateralUsd :: int
  xp_pnlUsd :: int

definition nothingHeld :: gmxCapPosition where
  "nothingHeld = \<lparr>cp_sizeInUsd = 0, cp_collateralAmount = 0, cp_pnlUsd = 0, cp_pendingFeeAmount = 0,
     cp_closeImpactUsd = None\<rparr>"

definition heldPosition :: "gmxCapPosition option \<Rightarrow> gmxCapPosition" where
  "heldPosition position = (case position of Some p \<Rightarrow> if 0 < cp_sizeInUsd p then p else nothingHeld | None \<Rightarrow> nothingHeld)"

definition ofUsd :: "int \<Rightarrow> int \<Rightarrow> int" where
  "ofUsd usd factor = (usd * factor) sdiv 10 ^ 30"

definition taken :: "gmxCapOrder \<Rightarrow> gmxCapPosition \<Rightarrow> int" where
  "taken order p = min (co_collateralDeltaAmount order) (cp_collateralAmount p)"

definition closing :: "gmxCapOrder \<Rightarrow> gmxCapPosition \<Rightarrow> int \<Rightarrow> int" where
  "closing order p usd = (usd * co_sizeDeltaUsd order) sdiv cp_sizeInUsd p"

definition executed :: "gmxCapOrder \<Rightarrow> gmxCapPosition \<Rightarrow> gmxCapMarket \<Rightarrow> exchangePosition" where
  "executed order p market = (let
      price = cm_collateralPrice market; delta = co_sizeDeltaUsd order;
      kept = cp_collateralAmount p * price - cp_pendingFeeAmount p * price - ofUsd delta (cm_feeFactor market)
    in case co_kind order of
         Increase \<Rightarrow> \<lparr>xp_sizeUsd = cp_sizeInUsd p + delta,
             xp_collateralUsd = kept + co_collateralDeltaAmount order * price, xp_pnlUsd = cp_pnlUsd p\<rparr>
       | Decrease \<Rightarrow> \<lparr>xp_sizeUsd = cp_sizeInUsd p - delta,
             xp_collateralUsd = kept - taken order p * price + min 0 (closing order p (cp_pnlUsd p))
               + closing order p (min 0 (or0 (cp_closeImpactUsd p))),
             xp_pnlUsd = cp_pnlUsd p - closing order p (cp_pnlUsd p)\<rparr>)"

text \<open>\<open>isPositionLiquidatable\<close>'s equity: less the fee on the whole size and the worst impact it may count.\<close>

definition exchangeEquity :: "gmxCapMarket \<Rightarrow> exchangePosition \<Rightarrow> int" where
  "exchangeEquity market x = xp_collateralUsd x + xp_pnlUsd x - ofUsd (xp_sizeUsd x) (cm_feeFactor market)
     - ofUsd (xp_sizeUsd x) (or0 (cm_maxImpactFactorForLiquidations market))"

text \<open>
  \<open>willPositionCollateralBeSufficient\<close>: of an increase, the collateral it leaves; of a withdrawal, what
  stays before fees, less a realized loss; of a decrease that takes nothing out, nothing.
\<close>

definition testedCollateral :: "gmxCapOrder \<Rightarrow> gmxCapPosition \<Rightarrow> gmxCapMarket \<Rightarrow> int option" where
  "testedCollateral order p market = (case co_kind order of
     Increase \<Rightarrow> Some (xp_collateralUsd (executed order p market))
   | Decrease \<Rightarrow> if taken order p \<le> 0 \<and> co_sizeDeltaUsd order \<noteq> 0 then None
       else Some (cp_collateralAmount p * cm_collateralPrice market - taken order p * cm_collateralPrice market
         + min 0 (closing order p (cp_pnlUsd p))))"

definition exchangeFactor :: "gmxCapOrder \<Rightarrow> gmxCapMarket \<Rightarrow> int" where
  "exchangeFactor order market = (let
      before = or0 (cm_openInterestUsd market);
      after = (case co_kind order of Increase \<Rightarrow> before + co_sizeDeltaUsd order | Decrease \<Rightarrow> before - co_sizeDeltaUsd order)
    in max (cm_minCollateralFactor market) (ofUsd (max 0 after) (or0 (cm_oiMultiplierFactor market))))"

definition exchangeAccepts :: "gmxCapOrder \<Rightarrow> gmxCapPosition option \<Rightarrow> gmxCapMarket \<Rightarrow> bool" where
  "exchangeAccepts order position market \<longleftrightarrow> (let
      p = heldPosition position; x = executed order p market
    in 0 < exchangeEquity market x
       \<and> ofUsd (xp_sizeUsd x) (cm_minCollateralFactor market) \<le> exchangeEquity market x
       \<and> (case testedCollateral order p market of None \<Rightarrow> True
          | Some c \<Rightarrow> ofUsd (xp_sizeUsd x) (exchangeFactor order market) \<le> c))"

text \<open>
  The orders the cap applies to: none where no factor is set; an increase with size; a partial decrease
  that changes something.
\<close>

definition capApplies :: "gmxCapOrder \<Rightarrow> gmxCapPosition option \<Rightarrow> gmxCapMarket \<Rightarrow> bool" where
  "capApplies order position market \<longleftrightarrow> 0 < cm_minCollateralFactor market \<and>
     (case co_kind order of Increase \<Rightarrow> co_sizeDeltaUsd order \<noteq> 0
      | Decrease \<Rightarrow> co_sizeDeltaUsd order < cp_sizeInUsd (heldPosition position)
          \<and> (co_sizeDeltaUsd order \<noteq> 0 \<or> co_collateralDeltaAmount order \<noteq> 0))"

lemma ofUsd_applyFactor: "ofUsd = applyFactor"
  by (intro ext) (simp add: ofUsd_def applyFactor_def FLOAT_PRECISION_def)

lemma exchangeFactor_side: "0 < cm_minCollateralFactor market \<Longrightarrow> exchangeFactor order market = sideFactor order market"
  by (cases "co_kind order")
    (auto simp: exchangeFactor_def sideFactor_def oiFactor_def Let_def ofUsd_applyFactor max_def applyFactor_def)

lemma capResult_fields:
  "cu_sizeAfterUsd (capResult n f c e) = n" "cu_collateralAfterUsd (capResult n f c e) = map_option fst c"
  "cu_equityAfterUsd (capResult n f c e) = e"
  by (simp_all add: capResult_def Let_def)

lemma increase_executed:
  assumes "co_kind order = Increase" "0 < cm_minCollateralFactor market" "co_sizeDeltaUsd order \<noteq> 0"
  obtains u where "gmxCapUse order position market = Some u"
    "cu_sizeAfterUsd u = xp_sizeUsd (executed order (heldPosition position) market)"
    "cu_equityAfterUsd u = exchangeEquity market (executed order (heldPosition position) market)"
    "cu_collateralAfterUsd u = testedCollateral order (heldPosition position) market"
proof -
  have open1: "openPosition position = None \<and> heldPosition position = nothingHeld \<or>
      (\<exists>p. openPosition position = Some p \<and> heldPosition position = p)"
    by (auto simp: openPosition_def heldPosition_def split: option.splits)
  show thesis
    by (rule that [OF refl [THEN trans]], insert open1 assms)
      (auto simp: gmxCapUse_def increaseUse_def Let_def capResult_fields executed_def exchangeEquity_def
        testedCollateral_def equityOf_def ofUsd_applyFactor nothingHeld_def algebra_simps)
qed

lemma decrease_executed:
  assumes "co_kind order = Decrease" "capApplies order position market" "0 \<le> co_sizeDeltaUsd order"
  obtains u where "gmxCapUse order position market = Some u"
    "cu_sizeAfterUsd u = xp_sizeUsd (executed order (heldPosition position) market)"
    "cu_equityAfterUsd u = exchangeEquity market (executed order (heldPosition position) market)"
    "cu_collateralAfterUsd u = testedCollateral order (heldPosition position) market"
proof -
  define p where "p = heldPosition position"
  have p: "openPosition position = Some p" "0 < cp_sizeInUsd p"
    using assms by (auto simp: capApplies_def p_def openPosition_def heldPosition_def nothingHeld_def split: option.splits if_splits)
  show thesis
  proof (rule that)
    show "gmxCapUse order position market = Some (the (decreaseUse order p market))"
      using assms p by (auto simp: gmxCapUse_def capApplies_def decreaseUse_def Let_def p_def [symmetric])
  qed (use assms p in \<open>auto simp: capApplies_def decreaseUse_def Let_def capResult_fields executed_def exchangeEquity_def
      testedCollateral_def equityOf_def ofUsd_applyFactor taken_def closing_def min_def p_def [symmetric] algebra_simps\<close>)
qed

text \<open>
  C21. What the keeper lets through, the exchange never cancels for the cap. For an order the cap applies
  to and that is not refused, the position the exchange is left with passes the exchange's own tests at
  the same prices: positive equity of at least the required share of its size and, where collateral is
  tested, collateral that meets the factor of its side's open interest. The cap is left out of account
  exactly for the orders it does not apply to. So no order comes back free by missing the cap.
\<close>

theorem keeper_covers_cap:
  assumes "0 \<le> co_sizeDeltaUsd order" "gmxCapRefusal (gmxCapUse order position market) GMX_KEEPER_CAP_USE own = None"
  shows "if capApplies order position market then exchangeAccepts order position market
    else gmxCapUse order position market = None"
proof (cases "capApplies order position market")
  case True
  then have f: "0 < cm_minCollateralFactor market" by (simp add: capApplies_def)
  obtain u where u: "gmxCapUse order position market = Some u"
    "cu_sizeAfterUsd u = xp_sizeUsd (executed order (heldPosition position) market)"
    "cu_equityAfterUsd u = exchangeEquity market (executed order (heldPosition position) market)"
    "cu_collateralAfterUsd u = testedCollateral order (heldPosition position) market"
  proof (cases "co_kind order")
    case Increase
    then have "co_sizeDeltaUsd order \<noteq> 0" using True by (simp add: capApplies_def)
    with Increase f show ?thesis by (rule increase_executed) (rule that)
  next
    case Decrease
    then show ?thesis using True assms(1) by (rule decrease_executed) (rule that)
  qed
  from assms(2) obtain c where "cu_capUse u = Some c" "c \<le> 98 / 100"
    by (auto simp: u(1) gmxCapRefusal_def GMX_KEEPER_CAP_USE_def split: option.splits if_splits)
  then have "withinCap u (cm_minCollateralFactor market) (Some (sideFactor order market))"
    using gmxCapUse_within [OF u(1) _ _ assms(1)] by blast
  then show ?thesis using True
    by (simp add: withinCap_def exchangeAccepts_def Let_def u(2-4) ofUsd_applyFactor exchangeFactor_side [OF f]
        split: option.splits)
next
  case False
  then show ?thesis using assms(1)
    by (cases "co_kind order")
      (auto simp: capApplies_def gmxCapUse_def increaseUse_def decreaseUse_def Let_def openPosition_def
        heldPosition_def nothingHeld_def split: option.splits)
qed

text \<open>
  An increase with size and no collateral of its own is refused whatever the prices, the market
  and the share allowed, even as an add-on to a position with room to spare: being refused is never
  an option on the price.
\<close>

theorem empty_increase_refused:
  assumes "co_kind order = Increase" "0 < co_sizeDeltaUsd order" "co_collateralDeltaAmount order \<le> 0"
    and "0 < cm_minCollateralFactor market" "0 \<le> cm_feeFactor market" "0 \<le> cm_collateralPrice market"
  shows "gmxCapRefusal (gmxOwnCapUse order market) maxUse True = Some OwnNoCollateral"
proof -
  let ?c = "co_collateralDeltaAmount order * cm_collateralPrice market - applyFactor (co_sizeDeltaUsd order) (cm_feeFactor market)"
  have "?c \<le> 0"
    using applyFactor_nonneg [of "co_sizeDeltaUsd order" "cm_feeFactor market"] assms(2,3,5,6)
      mult_nonpos_nonneg [of "co_collateralDeltaAmount order" "cm_collateralPrice market"] by linarith
  then have "share r ?c = None" for r by (simp add: share_def)
  then show ?thesis
    using assms(1,2,4)
    by (simp add: gmxOwnCapUse_def gmxCapUse_def increaseUse_def openPosition_def Let_def capResult_def shareMax_def
        gmxCapRefusal_def split: option.split)
qed

section \<open>Applied\<close>

definition capMarket :: gmxCapMarket where
  "capMarket = \<lparr>cm_collateralPrice = 10 ^ 24, cm_minCollateralFactor = 198 * 10 ^ 27, cm_oiMultiplierFactor = None,
     cm_openInterestUsd = None, cm_feeFactor = 0, cm_maxImpactFactorForLiquidations = None\<rparr>"

definition capOrder :: "int \<Rightarrow> gmxCapOrder" where
  "capOrder n = \<lparr>co_kind = Increase, co_sizeDeltaUsd = 4000 * 10 ^ 30, co_collateralDeltaAmount = n\<rparr>"

lemma capOrder_share:
  "applyFactor (4000 * 10 ^ 30) (198 * 10 ^ 27) = 792 * 10 ^ 30" "applyFactor (4000 * 10 ^ 30) 0 = 0"
  "share (792 * 10 ^ 30) (1000 * 10 ^ 30) = Some (792 / 1000)"
  by (simp_all add: applyFactor_def share_def FLOAT_PRECISION_def SHARE_PRECISION_def sdiv_nonneg)

lemma capOrder_use:
  "gmxCapUse (capOrder 1000000000) None capMarket = Some
     \<lparr>cu_sizeAfterUsd = 4000 * 10 ^ 30, cu_collateralAfterUsd = Some (1000 * 10 ^ 30), cu_equityAfterUsd = 1000 * 10 ^ 30,
      cu_capUse = Some (792 / 1000), cu_leverage = Some (792 / 1000 * (of_int FLOAT_PRECISION / of_int (198 * 10 ^ 27))),
      cu_binding = ByEquity\<rparr>"
proof -
  have p: "(1000000000 :: int) * 10 ^ 24 = 1000 * 10 ^ 30" by simp
  show ?thesis
    unfolding gmxCapUse_def increaseUse_def capOrder_def capMarket_def openPosition_def Let_def capResult_def
      equityOf_def oiFactor_def or0_def
    by (simp only: gmxCapOrder.simps gmxCapMarket.simps orderKind.case option.case if_True refl add_0_left add_0_right
        diff_zero capOrder_share p) (simp add: shareMax_def shareGt_def capOrder_share [simplified])
qed

theorem keeper_covers_cap_witness:
  "gmxCapRefusal (gmxCapUse (capOrder 1000000000) None capMarket) GMX_KEEPER_CAP_USE False = None
   \<and> exchangeAccepts (capOrder 1000000000) None capMarket"
proof -
  have r: "gmxCapRefusal (gmxCapUse (capOrder 1000000000) None capMarket) GMX_KEEPER_CAP_USE False = None"
    by (simp add: capOrder_use gmxCapRefusal_def GMX_KEEPER_CAP_USE_def)
  have d: "0 \<le> co_sizeDeltaUsd (capOrder 1000000000)" "capApplies (capOrder 1000000000) None capMarket"
    by (simp_all add: capOrder_def capMarket_def capApplies_def)
  show ?thesis
    using keeper_covers_cap [OF d(1) r] r d(2) by simp
qed

lemma empty_increase_refused_witness:
  "gmxCapRefusal (gmxOwnCapUse (capOrder 0) capMarket) 1 True = Some OwnNoCollateral"
  by (rule empty_increase_refused) (simp_all add: capOrder_def capMarket_def)

end
