(* ===== verification/Js_Double.thy ===== *)
theory Js_Double
  imports Prelude
begin

text \<open>
  The numbers of JavaScript where the code turns them into big integers, which throws for one that
  is not finite. A finite number is the real it denotes, without the rounding; a result past the
  largest double is an infinity, and the two infinities and \<open>NaN\<close> behave as in IEEE arithmetic.
  The sign of zero is not kept: no divisor here is a computed zero.
\<close>

datatype jsdouble = Num real | PosInf | NegInf | NaN

definition ofReal :: "real \<Rightarrow> jsdouble" where
  "ofReal x = (if 2 ^ 1024 \<le> x then PosInf else if x \<le> - (2 ^ 1024) then NegInf else Num x)"

text \<open>\<open>Number(n)\<close>\<close>

definition ofBig :: "int \<Rightarrow> jsdouble" where
  "ofBig n = ofReal (of_int n)"

text \<open>The sign of a number that is not \<open>NaN\<close>, and an infinity (or \<open>NaN\<close>) by its sign.\<close>

fun signOf :: "jsdouble \<Rightarrow> real" where
  "signOf (Num x) = sgn x"
| "signOf PosInf = 1"
| "signOf NegInf = - 1"
| "signOf NaN = 0"

definition infinity :: "real \<Rightarrow> jsdouble" where
  "infinity s = (if 0 < s then PosInf else if s < 0 then NegInf else NaN)"

fun dMul :: "jsdouble \<Rightarrow> jsdouble \<Rightarrow> jsdouble" where
  "dMul (Num x) (Num y) = ofReal (x * y)"
| "dMul NaN b = NaN"
| "dMul a NaN = NaN"
| "dMul a b = infinity (signOf a * signOf b)"

fun dDiv :: "jsdouble \<Rightarrow> jsdouble \<Rightarrow> jsdouble" where
  "dDiv (Num x) (Num y) = (if y = 0 then infinity (sgn x) else ofReal (x / y))"
| "dDiv NaN b = NaN"
| "dDiv a NaN = NaN"
| "dDiv (Num x) b = Num 0"
| "dDiv a (Num y) = infinity (signOf a * (if y < 0 then - 1 else 1))"
| "dDiv a b = NaN"

fun dSub :: "jsdouble \<Rightarrow> jsdouble \<Rightarrow> jsdouble" where
  "dSub (Num x) (Num y) = ofReal (x - y)"
| "dSub NaN b = NaN"
| "dSub a NaN = NaN"
| "dSub (Num x) b = infinity (- signOf b)"
| "dSub a (Num y) = a"
| "dSub a b = (if a = b then NaN else a)"

text \<open>\<open>v > 0\<close> and \<open>Number.isFinite(v)\<close>\<close>

fun dPos :: "jsdouble \<Rightarrow> bool" where
  "dPos (Num x) = (0 < x)"
| "dPos PosInf = True"
| "dPos v = False"

fun dFinite :: "jsdouble \<Rightarrow> bool" where
  "dFinite (Num x) = True"
| "dFinite v = False"

text \<open>\<open>BigInt(Math.floor(v))\<close> and \<open>BigInt(Math.round(v))\<close>; \<open>None\<close>: it throws.\<close>

fun floorBig :: "jsdouble \<Rightarrow> int option" where
  "floorBig (Num x) = Some \<lfloor>x\<rfloor>"
| "floorBig v = None"

fun roundBig :: "jsdouble \<Rightarrow> int option" where
  "roundBig (Num x) = Some \<lfloor>x + 1 / 2\<rfloor>"
| "roundBig v = None"

section \<open>Numbers that are not negative\<close>

fun notNeg :: "jsdouble \<Rightarrow> bool" where
  "notNeg (Num x) = (0 \<le> x)"
| "notNeg NegInf = False"
| "notNeg v = True"

lemma notNeg_ofReal [intro]: "0 \<le> x \<Longrightarrow> notNeg (ofReal x)"
proof -
  assume "0 \<le> x"
  moreover have "- ((2 :: real) ^ 1024) < 0" by simp
  ultimately have "\<not> x \<le> - (2 ^ 1024)" by linarith
  then show ?thesis using \<open>0 \<le> x\<close> by (simp add: ofReal_def)
qed

lemma notNeg_ofBig [intro]: "0 \<le> n \<Longrightarrow> notNeg (ofBig n)"
  by (auto simp: ofBig_def)

lemma notNeg_infinity: "0 \<le> s \<Longrightarrow> notNeg (infinity s)"
  by (simp add: infinity_def)

lemma signOf_notNeg: "notNeg a \<Longrightarrow> 0 \<le> signOf a"
  by (cases a) auto

lemma notNeg_mul: "notNeg a \<Longrightarrow> notNeg b \<Longrightarrow> notNeg (dMul a b)"
  by (cases a; cases b) (auto simp: infinity_def sgn_if)

lemma notNeg_div: "notNeg a \<Longrightarrow> notNeg b \<Longrightarrow> notNeg (dDiv a b)"
  by (cases a; cases b) (auto simp: infinity_def sgn_if)

lemma dPos_notNeg: "dPos v \<Longrightarrow> notNeg v"
  by (cases v) auto

lemma floorBig_notNeg: "notNeg v \<Longrightarrow> floorBig v = Some n \<Longrightarrow> 0 \<le> n"
  by (cases v) auto

lemma ofReal_small: "\<bar>x\<bar> < 2 ^ 1024 \<Longrightarrow> ofReal x = Num x"
  by (auto simp: ofReal_def)

end
