(* ===== verification/Venue_Checks.thy ===== *)
theory Venue_Checks
  imports Leaf_Roundtrip Gmx_Cap Js_Double
begin

text \<open>
  What the runtime checks of an action before it sends it: \<open>validate\<close> of every adapter, against the
  agent's observation and balances. Amounts of an action are its decimal strings, read with \<open>BigInt\<close>;
  the integers of an observation, which the program itself wrote, are held as the numbers they denote.
  The prices and the GMX numbers, which the code turns into big integers, are doubles that may not be
  finite; the CDP's ratios and price are finite numbers.
  A refusal is \<open>Some\<close>, acceptance \<open>None\<close>; what may throw is \<open>Inl\<close>. The wording of a refusal is data.
\<close>

section \<open>Balances and observations\<close>

record balanceSnapshot =
  bs_ethWei :: int
  bs_wethWei :: int
  bs_usdcUnits :: int
  bs_bases :: "(string \<times> int) list option"
  bs_stables :: "(string \<times> int) list option"

definition stableBalanceOf :: "balanceSnapshot \<Rightarrow> string \<Rightarrow> int" where
  "stableBalanceOf b token =
     (case bs_stables b of
        None \<Rightarrow> bs_usdcUnits b
      | Some m \<Rightarrow> (case map_of m (toLower token) of None \<Rightarrow> bs_usdcUnits b | Some n \<Rightarrow> n))"

text \<open>\<open>balances.bases?.[base] ?? balances.wethWei\<close>\<close>

definition baseBalanceOf :: "balanceSnapshot \<Rightarrow> string \<Rightarrow> int" where
  "baseBalanceOf b base =
     (case bs_bases b of
        None \<Rightarrow> bs_wethWei b
      | Some m \<Rightarrow> (case map_of m base of None \<Rightarrow> bs_wethWei b | Some n \<Rightarrow> n))"

record uniswapObs =
  uo_price :: jsdouble
  uo_tickSpacing :: int
  uo_positions :: "(string \<times> int) list"
  uo_markets :: "(string \<times> jsdouble) list option"

record ammObs =
  am_price :: jsdouble
  am_markets :: "(string \<times> jsdouble) list option"

record gmxPositionObs =
  gp_isLong :: bool
  gp_collateral :: string
  gp_sizeUsd :: int
  gp_collateralAmount :: int
  gp_pnlUsd :: jsdouble
  gp_fundingOwedUsd :: "jsdouble option"

record gmxMarketObs =
  go_marketPriceUsd :: jsdouble
  go_position :: "gmxPositionObs option"
  go_positions :: "gmxPositionObs list option"
  go_maxLeverage :: "jsdouble option"

record gmxOrderObs =
  or_key :: string
  or_cancellable :: bool
  or_cancellableAtTime :: int

record gmxObs =
  gx_market :: gmxMarketObs
  gx_markets :: "(string \<times> gmxMarketObs) list option"
  gx_orders :: "gmxOrderObs list option"

record lstObs =
  lo_lstBalanceWei :: int
  lo_claimableWithdrawalWethWei :: int

record troveObs =
  tv_status :: int
  tv_collWei :: int
  tv_debtEusdWei :: int
  tv_netDebtEusdWei :: int

record liquityObs =
  lq_priceUsd :: real
  lq_recoveryMode :: bool
  lq_mcr :: real
  lq_ccr :: real
  lq_borrowingRateBps :: real
  lq_minNetDebtEusdWei :: int
  lq_gasCompensationEusdWei :: int
  lq_eusdBalanceWei :: int
  lq_spDepositEusdWei :: int
  lq_spEthGainWei :: int
  lq_trove :: "troveObs option"

record agentObservation =
  ob_runId :: string
  ob_round :: int
  ob_fairPrice :: jsdouble
  ob_fairPricesUsd :: "(string \<times> jsdouble) list option"
  ob_maxPriorityFee :: int
  ob_defaultPriorityFee :: int
  ob_uniswap :: "uniswapObs option"
  ob_balancer :: "ammObs option"
  ob_curve :: "ammObs option"
  ob_gmx :: "gmxObs option"
  ob_lst :: "lstObs option"
  ob_liquity :: "liquityObs option"
  ob_lending :: "string option"

datatype refusal =
    NotMine protocolId | NotPositive string | NoVenueMarket protocolId string | ExceedsBalance string | UniswapOff
  | TickOrder | TickAlignment | NotOwned | ExceedsLiquidity | NoStableMarket string | CollateralNotAccepted string
  | OverCap capRefusal | NoSuchOrder | NotYetCancellable int | NoObservation protocolId | NothingToClaim
  | BelowMinNetDebt | AlreadyActive | NoActiveTrove | IcrTooLow real real | AddAndWithdraw | NoChange | DirectionMissing
  | RepaysTooMuch | RecoveryForbidsWithdrawal | LiquidateNeedsTarget | VenueNotDeployed | MarketIdMissing
  | PriorityFeeTooHigh | EmptyBundle

datatype checkError = Js js_error | MarketErr marketError | ActionErr actionError

type_synonym checked = "checkError + refusal option"

definition refuseIf :: "bool \<Rightarrow> refusal \<Rightarrow> checked \<Rightarrow> checked" where
  "refuseIf c r rest = (if c then Inr (Some r) else rest)"

text \<open>\<open>BigInt(s)\<close>\<close>

definition bigOf :: "string \<Rightarrow> checkError + int" where
  "bigOf s = (case bigIntOf s of None \<Rightarrow> Inl (Js SyntaxErr) | Some n \<Rightarrow> Inr n)"

definition accept :: checked where
  "accept = Inr None"

section \<open>Swaps and liquidity\<close>

text \<open>The check the three spot venues share; \<open>stableLeg\<close> the token of the venue's stable leg.\<close>

definition checkSwap :: "deployment \<Rightarrow> protocolId \<Rightarrow> (marketConfig \<Rightarrow> checkError + string) \<Rightarrow> balanceSnapshot \<Rightarrow> string \<Rightarrow> string option
    \<Rightarrow> string \<Rightarrow> checked" where
  "checkSwap d p stableLeg bal tokenIn base amount =
     bindR (bigOf amount) (\<lambda>amountIn.
     refuseIf (amountIn \<le> 0) (NotPositive ''amountIn'')
       (case marketFor d p (orWeth base) of
          None \<Rightarrow> Inr (Some (NoVenueMarket p (orWeth base)))
        | Some m \<Rightarrow>
            bindR (if tokenIn = mk_base m then Inr (baseBalanceOf bal (orWeth base))
                   else bindR (stableLeg m) (\<lambda>s. Inr (stableBalanceOf bal s))) (\<lambda>balance.
            refuseIf (balance < amountIn) (ExceedsBalance ''amountIn'') accept)))"

definition uniStable :: "deployment \<Rightarrow> marketConfig \<Rightarrow> checkError + string" where
  "uniStable d m = Inr (usdcAddress d)"

definition balStable :: "marketConfig \<Rightarrow> checkError + string" where
  "balStable m = (case mk_balancer m of None \<Rightarrow> Inl (MarketErr (NoLeg Balancer (mk_key m))) | Some l \<Rightarrow> Inr (bl_stable l))"

definition curveStable :: "marketConfig \<Rightarrow> checkError + string" where
  "curveStable m = (case mk_curve m of None \<Rightarrow> Inl (MarketErr (NoLeg Curve (mk_key m))) | Some l \<Rightarrow> Inr (cl_stable l))"

text \<open>\<open>t % spacing !== 0\<close>; the remainder by zero is \<open>NaN\<close>, which is not zero.\<close>

definition misaligned :: "int \<Rightarrow> int \<Rightarrow> bool" where
  "misaligned t spacing \<longleftrightarrow> spacing = 0 \<or> t smod spacing \<noteq> 0"

definition checkMint :: "deployment \<Rightarrow> uniswapObs \<Rightarrow> balanceSnapshot \<Rightarrow> string option \<Rightarrow> int \<Rightarrow> int \<Rightarrow> string \<Rightarrow> string \<Rightarrow> checked" where
  "checkMint d uni bal base lo hi baseAmount quoteAmount =
     bindR (bigOf baseAmount) (\<lambda>b. bindR (bigOf quoteAmount) (\<lambda>q.
     refuseIf (b \<le> 0 \<and> q \<le> 0) (NotPositive ''LP desired amount'')
     (refuseIf (hi \<le> lo) TickOrder
     (refuseIf (misaligned lo (uo_tickSpacing uni) \<or> misaligned hi (uo_tickSpacing uni)) TickAlignment
     (refuseIf (baseBalanceOf bal (orWeth base) < b \<or> stableBalanceOf bal (usdcAddress d) < q) (ExceedsBalance ''LP desired amounts'')
      accept)))))"

definition ownedPosition :: "uniswapObs \<Rightarrow> string \<Rightarrow> (int \<Rightarrow> checked) \<Rightarrow> checked" where
  "ownedPosition uni tokenId rest = (case map_of (uo_positions uni) tokenId of None \<Rightarrow> Inr (Some NotOwned) | Some l \<Rightarrow> rest l)"

definition uniswapValidate :: "deployment \<Rightarrow> agentObservation \<Rightarrow> balanceSnapshot \<Rightarrow> leafBody \<Rightarrow> checked" where
  "uniswapValidate d obs bal a =
     (case ob_uniswap obs of
        None \<Rightarrow> Inr (Some UniswapOff)
      | Some uni \<Rightarrow>
          (case a of
             CreatePool _ _ _ price \<Rightarrow> bindR (bigOf price) (\<lambda>p. refuseIf (p \<le> 0) (NotPositive ''sqrtPriceX96'') accept)
           | Swap t b amt _ \<Rightarrow> checkSwap d Uniswap (uniStable d) bal t b amt
           | MintLiquidity b lo hi w u ba qa _ \<Rightarrow>
               checkMint d uni bal b lo hi (case ba of Some x \<Rightarrow> x | None \<Rightarrow> w) (case qa of Some x \<Rightarrow> x | None \<Rightarrow> u)
           | RemoveLiquidity _ t l _ _ \<Rightarrow> ownedPosition uni t (\<lambda>owned.
               bindR (bigOf l) (\<lambda>n. refuseIf (n \<le> 0) (NotPositive ''liquidity'') (refuseIf (owned < n) ExceedsLiquidity accept)))
           | CollectFees _ t \<Rightarrow> ownedPosition uni t (\<lambda>_. accept)
           | _ \<Rightarrow> Inr (Some NotOwned)))"

definition balancerValidate :: "deployment \<Rightarrow> balanceSnapshot \<Rightarrow> leafBody \<Rightarrow> checked" where
  "balancerValidate d bal a =
     (case a of BalancerSwap t b amt _ \<Rightarrow> checkSwap d Balancer balStable bal t b amt | _ \<Rightarrow> Inr (Some (NotMine Balancer)))"

definition validateStableSwap :: "deployment \<Rightarrow> protocolId list \<Rightarrow> balanceSnapshot \<Rightarrow> string \<Rightarrow> string \<Rightarrow> string \<Rightarrow> checked" where
  "validateStableSwap d ids bal which tokenIn amount =
     bindR (bigOf amount) (\<lambda>amountIn.
     refuseIf (amountIn \<le> 0) (NotPositive ''amountIn'')
       (case stableMarketBySymbol d ids which of
          None \<Rightarrow> Inr (Some (NoStableMarket which))
        | Some m \<Rightarrow>
            refuseIf ((if tokenIn = st_symbol m then stableBalanceOf bal (st_token m) else stableBalanceOf bal (usdcAddress d)) < amountIn)
              (ExceedsBalance ''amountIn'') accept))"

definition curveValidate :: "deployment \<Rightarrow> protocolId list \<Rightarrow> balanceSnapshot \<Rightarrow> leafBody \<Rightarrow> checked" where
  "curveValidate d ids bal a =
     (case a of
        StableSwap st t amt _ \<Rightarrow> validateStableSwap d ids bal st t amt
      | CurveSwap t b amt _ \<Rightarrow> checkSwap d Curve curveStable bal t b amt
      | _ \<Rightarrow> Inr (Some (NotMine Curve)))"

section \<open>Aave, GMX and liquid staking\<close>

definition aaveBalance :: "deployment \<Rightarrow> agentObservation \<Rightarrow> balanceSnapshot \<Rightarrow> string \<Rightarrow> int" where
  "aaveBalance d obs bal asset =
     (if asset = ''USDC'' then stableBalanceOf bal (usdcAddress d)
      else if asset = ''LST'' then (case ob_lst obs of None \<Rightarrow> 0 | Some l \<Rightarrow> lo_lstBalanceWei l)
      else baseBalanceOf bal asset)"

definition aaveValidate :: "deployment \<Rightarrow> agentObservation \<Rightarrow> balanceSnapshot \<Rightarrow> leafBody \<Rightarrow> checked" where
  "aaveValidate d obs bal a =
     (case a of
        AaveOp t asset amount \<Rightarrow>
          if amount = ''max'' then accept
          else bindR (bigOf amount) (\<lambda>n.
            refuseIf (n \<le> 0) (NotPositive ''amount'')
            (refuseIf ((t = AaveSupply \<or> t = AaveRepay) \<and> aaveBalance d obs bal asset < n) (ExceedsBalance ''amount'') accept))
      | _ \<Rightarrow> Inr (Some (NotMine Aave)))"

definition gmxAllowedCollateral :: "string \<Rightarrow> string list" where
  "gmxAllowedCollateral base = (if base = ''USDC'' then [''USDC''] else [base, ''USDC''])"

definition EXECUTION_FEE :: int where
  "EXECUTION_FEE = 30000000000000000"

definition GMX_ASSUMED_POSITION_FEE_FACTOR :: int where
  "GMX_ASSUMED_POSITION_FEE_FACTOR = 6 * 10 ^ 26"

definition GMX_MAX_LEVERAGE :: real where
  "GMX_MAX_LEVERAGE = 1 / 0.198"

text \<open>\<open>BigInt(Math.round(x))\<close>\<close>

definition bigRound :: "real \<Rightarrow> int" where
  "bigRound x = \<lfloor>x + 1 / 2\<rfloor>"

text \<open>The same of a double: it throws unless the number is finite.\<close>

definition roundOr :: "jsdouble \<Rightarrow> checkError + int" where
  "roundOr v = (case roundBig v of None \<Rightarrow> Inl (Js RangeError) | Some n \<Rightarrow> Inr n)"

definition toGmxPrice :: "jsdouble \<Rightarrow> nat \<Rightarrow> checkError + int" where
  "toGmxPrice usd tokenDecimals =
     bindR (roundOr (dMul usd (Num 1000000))) (\<lambda>usdScaled.
       if 30 < tokenDecimals then Inl (Js RangeError)
       else Inr ((usdScaled * 10 ^ (30 - tokenDecimals)) sdiv 1000000))"

definition validateCancel :: "agentObservation \<Rightarrow> string \<Rightarrow> checked" where
  "validateCancel obs key =
     (case ob_gmx obs of
        None \<Rightarrow> accept
      | Some g \<Rightarrow>
          (case gx_orders g of
             None \<Rightarrow> accept
           | Some orders \<Rightarrow>
               (case find (\<lambda>r. toLower (or_key r) = toLower key) orders of
                  None \<Rightarrow> Inr (Some NoSuchOrder)
                | Some r \<Rightarrow> refuseIf (\<not> or_cancellable r) (NotYetCancellable (or_cancellableAtTime r)) accept)))"

record gmxAction =
  ga_increase :: bool
  ga_base :: string
  ga_isLong :: bool
  ga_collateral :: string
  ga_size :: string
  ga_amount :: string

definition marketObsFor :: "deployment \<Rightarrow> gmxObs \<Rightarrow> string \<Rightarrow> gmxMarketObs option" where
  "marketObsFor d g base =
     (if base = ''WETH'' then Some (gx_market g)
      else (case gx_markets g of
        None \<Rightarrow> None
      | Some ms \<Rightarrow> map_of ms (case marketFor d Gmx base of Some m \<Rightarrow> mk_key m | None \<Rightarrow> base @ ''/USDC'')))"

text \<open>The amount of dollars \<open>v\<close>, at 30 decimals; 0 when it is not finite.\<close>

definition usdOf :: "jsdouble \<Rightarrow> checkError + int" where
  "usdOf v = (if dFinite v then bindR (roundOr (dMul v (Num 1000000))) (\<lambda>n. Inr (n * 10 ^ 24)) else Inr 0)"

definition observedPosition :: "gmxMarketObs \<Rightarrow> gmxAction \<Rightarrow> checkError + gmxCapPosition option" where
  "observedPosition m a =
     (let ps = (case go_positions m of Some ps \<Rightarrow> ps | None \<Rightarrow> (case go_position m of Some p \<Rightarrow> [p] | None \<Rightarrow> []))
      in case find (\<lambda>p. gp_isLong p = ga_isLong a \<and> gp_collateral p = ga_collateral a) ps of
           None \<Rightarrow> Inr None
         | Some p \<Rightarrow> bindR (usdOf (dSub (gp_pnlUsd p) (case gp_fundingOwedUsd p of Some f \<Rightarrow> f | None \<Rightarrow> Num 0))) (\<lambda>pnl.
             Inr (Some \<lparr>cp_sizeInUsd = gp_sizeUsd p, cp_collateralAmount = gp_collateralAmount p,
               cp_pnlUsd = pnl, cp_pendingFeeAmount = 0, cp_closeImpactUsd = None\<rparr>)))"

definition observedMarket :: "tokenInfo \<Rightarrow> gmxMarketObs \<Rightarrow> checkError + gmxCapMarket" where
  "observedMarket info m =
     (let maxLeverage = (case go_maxLeverage m of Some l \<Rightarrow> l | None \<Rightarrow> Num GMX_MAX_LEVERAGE)
      in bindR (toGmxPrice (if ti_kind info = Stable then Num 1 else go_marketPriceUsd m) (ti_decimals info)) (\<lambda>price.
         bindR (roundOr (dDiv (Num (10 ^ 12)) maxLeverage)) (\<lambda>factor.
           Inr \<lparr>cm_collateralPrice = price, cm_minCollateralFactor = factor * 10 ^ 18,
             cm_oiMultiplierFactor = None, cm_openInterestUsd = None, cm_feeFactor = GMX_ASSUMED_POSITION_FEE_FACTOR,
             cm_maxImpactFactorForLiquidations = None\<rparr>)))"

definition observedCapRefusal :: "deployment \<Rightarrow> agentObservation \<Rightarrow> gmxAction \<Rightarrow> checkError + capRefusal option" where
  "observedCapRefusal d obs a =
     (case ob_gmx obs of
        None \<Rightarrow> Inr None
      | Some g \<Rightarrow>
          (case marketObsFor d g (ga_base a) of
             None \<Rightarrow> Inr None
           | Some m \<Rightarrow>
               if \<not> dPos (go_marketPriceUsd m) then Inr None
               else bindR (bigOf (ga_amount a)) (\<lambda>amount.
                 if \<not> ga_increase a \<and> amount = 0 then Inr None
                 else (case tokenInfo d (ga_collateral a) of
                     Inl e \<Rightarrow> Inl (MarketErr e)
                   | Inr info \<Rightarrow>
                       bindR (observedPosition m a) (\<lambda>position.
                       bindR (bigOf (ga_size a)) (\<lambda>size'.
                       bindR (observedMarket info m) (\<lambda>market.
                       let order = \<lparr>co_kind = (if ga_increase a then Increase else Decrease), co_sizeDeltaUsd = size',
                                    co_collateralDeltaAmount = amount\<rparr>
                       in Inr (case gmxCapRefusal (gmxOwnCapUse order market) GMX_RUNTIME_CAP_USE True of
                            Some r \<Rightarrow> Some r
                          | None \<Rightarrow> gmxCapRefusal (gmxCapUse order position market) GMX_RUNTIME_CAP_USE False))))))))"

definition checkCollateral :: "deployment \<Rightarrow> balanceSnapshot \<Rightarrow> gmxAction \<Rightarrow> checked \<Rightarrow> checked" where
  "checkCollateral d bal a rest =
     (if \<not> ga_increase a then rest
      else bindR (bigOf (ga_amount a)) (\<lambda>n.
        refuseIf (n \<le> 0) (NotPositive ''collateralAmount'')
          (if ga_collateral a = ''USDC'' then refuseIf (stableBalanceOf bal (usdcAddress d) < n) (ExceedsBalance ''collateralAmount'') rest
           else if ga_collateral a = ''WETH'' then refuseIf (bs_ethWei bal < n + EXECUTION_FEE) (ExceedsBalance ''collateralAmount + execution fee'') rest
           else refuseIf ((case bs_bases bal of None \<Rightarrow> 0 | Some m \<Rightarrow> getOr 0 m (ga_collateral a)) < n) (ExceedsBalance ''collateralAmount'') rest)))"

definition validateGmxOrder :: "deployment \<Rightarrow> agentObservation \<Rightarrow> balanceSnapshot \<Rightarrow> gmxAction \<Rightarrow> checked" where
  "validateGmxOrder d obs bal a =
     refuseIf (ga_collateral a \<notin> set (gmxAllowedCollateral (ga_base a))) (CollateralNotAccepted (ga_collateral a))
     (bindR (bigOf (ga_size a)) (\<lambda>size'.
      refuseIf (size' \<le> 0) (NotPositive ''sizeDeltaUsd'')
      (checkCollateral d bal a
        (bindR (observedCapRefusal d obs a) (\<lambda>r. case r of Some c \<Rightarrow> Inr (Some (OverCap c)) | None \<Rightarrow> accept)))))"

definition gmxOrderOf :: "bool \<Rightarrow> bool \<Rightarrow> string option \<Rightarrow> string \<Rightarrow> string \<Rightarrow> string \<Rightarrow> gmxAction" where
  "gmxOrderOf inc l b c s amt =
     \<lparr>ga_increase = inc, ga_base = orWeth b, ga_isLong = l, ga_collateral = c, ga_size = s, ga_amount = amt\<rparr>"

definition gmxValidate :: "deployment \<Rightarrow> agentObservation \<Rightarrow> balanceSnapshot \<Rightarrow> leafBody \<Rightarrow> checked" where
  "gmxValidate d obs bal a =
     (case a of
        GmxCancelOrder k \<Rightarrow> validateCancel obs k
      | GmxIncrease l b c s amt _ \<Rightarrow> validateGmxOrder d obs bal (gmxOrderOf True l b c s amt)
      | GmxDecrease l b c s amt _ \<Rightarrow> validateGmxOrder d obs bal (gmxOrderOf False l b c s amt)
      | _ \<Rightarrow> Inr (Some (NotMine Gmx)))"

definition withLst :: "agentObservation \<Rightarrow> (lstObs \<Rightarrow> checked) \<Rightarrow> checked" where
  "withLst obs f = (case ob_lst obs of None \<Rightarrow> Inr (Some (NoObservation Lst)) | Some l \<Rightarrow> f l)"

definition lstValidate :: "agentObservation \<Rightarrow> balanceSnapshot \<Rightarrow> leafBody \<Rightarrow> checked" where
  "lstValidate obs bal a =
     (case a of
        LstDeposit amt \<Rightarrow> bindR (bigOf amt) (\<lambda>n. refuseIf (n \<le> 0) (NotPositive ''amountWethWei'')
          (refuseIf (baseBalanceOf bal ''WETH'' < n) (ExceedsBalance ''amountWethWei'') accept))
      | LstSwap t amt _ \<Rightarrow> bindR (bigOf amt) (\<lambda>n. refuseIf (n \<le> 0) (NotPositive ''amountIn'')
          (if t = ''WETH'' then refuseIf (baseBalanceOf bal ''WETH'' < n) (ExceedsBalance ''amountIn'') accept
           else withLst obs (\<lambda>l. refuseIf (lo_lstBalanceWei l < n) (ExceedsBalance ''amountIn'') accept)))
      | LstRequestWithdraw amt \<Rightarrow> bindR (bigOf amt) (\<lambda>n. refuseIf (n \<le> 0) (NotPositive ''amountLstWei'')
          (withLst obs (\<lambda>l. refuseIf (lo_lstBalanceWei l < n) (ExceedsBalance ''amountLstWei'') accept)))
      | LstClaimWithdraw r \<Rightarrow> withLst obs (\<lambda>l. refuseIf (r = None \<and> lo_claimableWithdrawalWethWei l \<le> 0) NothingToClaim accept)
      | _ \<Rightarrow> Inr (Some (NotMine Lst)))"


section \<open>The CDP and lending venues\<close>

definition NO_DEBT_RATIO :: real where
  "NO_DEBT_RATIO = 1000000"

definition borrowingFeeEusdWei :: "int \<Rightarrow> liquityObs \<Rightarrow> int" where
  "borrowingFeeEusdWei amount venue =
     (if lq_recoveryMode venue \<or> amount \<le> 0 then 0
      else (amount * bigRound (lq_borrowingRateBps venue * 10 ^ 14)) sdiv WAD)"

definition compositeDebtEusdWei :: "int \<Rightarrow> liquityObs \<Rightarrow> int" where
  "compositeDebtEusdWei requested venue =
     requested + borrowingFeeEusdWei requested venue + lq_gasCompensationEusdWei venue"

definition crOf :: "int \<Rightarrow> int \<Rightarrow> real \<Rightarrow> real" where
  "crOf collWei debtWei priceUsd =
     (if debtWei \<le> 0 then NO_DEBT_RATIO else (of_int collWei / 10 ^ 18 * priceUsd) / (of_int debtWei / 10 ^ 18))"

record troveChange =
  tc_add :: int
  tc_withdraw :: int
  tc_debtChange :: int
  tc_isDebtIncrease :: bool

definition newColl :: "troveObs \<Rightarrow> troveChange \<Rightarrow> int" where
  "newColl trove change = tv_collWei trove + tc_add change - tc_withdraw change"

definition drawn :: "troveChange \<Rightarrow> int" where
  "drawn change = (if tc_isDebtIncrease change then tc_debtChange change else 0)"

definition repaid :: "troveChange \<Rightarrow> int" where
  "repaid change = (if tc_isDebtIncrease change then 0 else tc_debtChange change)"

definition newDebt :: "liquityObs \<Rightarrow> troveObs \<Rightarrow> troveChange \<Rightarrow> int" where
  "newDebt venue trove change =
     tv_debtEusdWei trove + drawn change + borrowingFeeEusdWei (drawn change) venue - repaid change"

definition adjustedTroveCheck :: "liquityObs \<Rightarrow> troveObs \<Rightarrow> troveChange \<Rightarrow> checked" where
  "adjustedTroveCheck venue trove change =
     refuseIf (tv_netDebtEusdWei trove < repaid change) RepaysTooMuch
     (let oldIcr = crOf (tv_collWei trove) (tv_debtEusdWei trove) (lq_priceUsd venue);
          newIcr = crOf (newColl trove change) (newDebt venue trove change) (lq_priceUsd venue)
      in if lq_recoveryMode venue then
           refuseIf (0 < tc_withdraw change) RecoveryForbidsWithdrawal
           (refuseIf (0 < drawn change \<and> (newIcr < lq_ccr venue \<or> newIcr < oldIcr)) (IcrTooLow newIcr (lq_ccr venue)) accept)
         else refuseIf (newIcr < lq_mcr venue) (IcrTooLow newIcr (lq_mcr venue)) accept)"

definition withLiquity :: "agentObservation \<Rightarrow> (liquityObs \<Rightarrow> checked) \<Rightarrow> checked" where
  "withLiquity obs f = (case ob_liquity obs of None \<Rightarrow> Inr (Some (NoObservation Liquity)) | Some l \<Rightarrow> f l)"

definition activeTrove :: "agentObservation \<Rightarrow> (liquityObs \<Rightarrow> troveObs \<Rightarrow> checked) \<Rightarrow> checked" where
  "activeTrove obs f =
     (case ob_liquity obs of
        None \<Rightarrow> Inr (Some NoActiveTrove)
      | Some l \<Rightarrow> (case lq_trove l of None \<Rightarrow> Inr (Some NoActiveTrove) | Some t \<Rightarrow> refuseIf (tv_status t \<noteq> 1) NoActiveTrove (f l t)))"

definition eusdBalance :: "agentObservation \<Rightarrow> int" where
  "eusdBalance obs = (case ob_liquity obs of None \<Rightarrow> 0 | Some l \<Rightarrow> lq_eusdBalanceWei l)"

definition checkOpen :: "agentObservation \<Rightarrow> balanceSnapshot \<Rightarrow> string \<Rightarrow> string \<Rightarrow> checked" where
  "checkOpen obs bal collateral debt' =
     withLiquity obs (\<lambda>l. bindR (bigOf collateral) (\<lambda>coll. bindR (bigOf debt') (\<lambda>debt.
     refuseIf (coll \<le> 0) (NotPositive ''collateralWethWei'')
     (refuseIf (baseBalanceOf bal ''WETH'' < coll) (ExceedsBalance ''collateralWethWei'')
     (refuseIf (debt < lq_minNetDebtEusdWei l) BelowMinNetDebt
     (refuseIf (case lq_trove l of Some t \<Rightarrow> tv_status t = 1 | None \<Rightarrow> False) AlreadyActive
     (let icr = crOf coll (compositeDebtEusdWei debt l) (lq_priceUsd l);
          lowest = (if lq_recoveryMode l then lq_ccr l else lq_mcr l)
      in refuseIf (icr < lowest) (IcrTooLow icr lowest) accept)))))))"

definition amountOr0 :: "string option \<Rightarrow> string" where
  "amountOr0 v = (case v of Some s \<Rightarrow> s | None \<Rightarrow> ''0'')"

definition checkAdjust :: "agentObservation \<Rightarrow> balanceSnapshot \<Rightarrow> string option \<Rightarrow> string option \<Rightarrow> string option \<Rightarrow> bool option \<Rightarrow> checked" where
  "checkAdjust obs bal a w c inc =
     activeTrove obs (\<lambda>l t.
     bindR (bigOf (amountOr0 a)) (\<lambda>add. bindR (bigOf (amountOr0 w)) (\<lambda>withdraw. bindR (bigOf (amountOr0 c)) (\<lambda>debtChange.
     refuseIf (0 < add \<and> 0 < withdraw) AddAndWithdraw
     (refuseIf (add = 0 \<and> withdraw = 0 \<and> debtChange = 0) NoChange
     (refuseIf (baseBalanceOf bal ''WETH'' < add) (ExceedsBalance ''addCollateralWethWei'')
     (refuseIf (0 < debtChange \<and> inc = None) DirectionMissing
     (refuseIf (0 < debtChange \<and> inc = Some False \<and> eusdBalance obs < debtChange) (ExceedsBalance ''debtChangeEusdWei'')
     (refuseIf (tv_collWei t < withdraw) (ExceedsBalance ''withdrawCollateralWei'')
     (adjustedTroveCheck l t \<lparr>tc_add = add, tc_withdraw = withdraw, tc_debtChange = debtChange, tc_isDebtIncrease = (inc = Some True)\<rparr>))))))))))"

definition checkEusd :: "agentObservation \<Rightarrow> string \<Rightarrow> checked" where
  "checkEusd obs amount =
     bindR (bigOf amount) (\<lambda>n. refuseIf (n \<le> 0) (NotPositive ''amountEusdWei'')
       (refuseIf (eusdBalance obs < n) (ExceedsBalance ''amountEusdWei'') accept))"

definition checkWithdrawSP :: "liquityObs \<Rightarrow> string \<Rightarrow> checked" where
  "checkWithdrawSP l amount =
     (if amount = ''max'' then accept
      else bindR (bigOf amount) (\<lambda>n.
        refuseIf (n = 0 \<and> lq_spDepositEusdWei l = 0 \<and> lq_spEthGainWei l = 0) NothingToClaim
        (refuseIf (lq_spDepositEusdWei l < n) (ExceedsBalance ''amountEusdWei'') accept)))"

definition checkSwapEusd :: "agentObservation \<Rightarrow> balanceSnapshot \<Rightarrow> string \<Rightarrow> string \<Rightarrow> checked" where
  "checkSwapEusd obs bal tokenIn amount =
     bindR (bigOf amount) (\<lambda>n. refuseIf (n \<le> 0) (NotPositive ''amountIn'')
       (if tokenIn = ''EUSD'' then refuseIf (eusdBalance obs < n) (ExceedsBalance ''amountIn'') accept
        else refuseIf (bs_usdcUnits bal < n) (ExceedsBalance ''amountIn'') accept))"

definition liquityValidate :: "agentObservation \<Rightarrow> balanceSnapshot \<Rightarrow> leafBody \<Rightarrow> checked" where
  "liquityValidate obs bal a =
     (case a of
        LiquityOpenTrove c b _ \<Rightarrow> checkOpen obs bal c b
      | LiquityAdjustTrove ad w c i _ \<Rightarrow> checkAdjust obs bal ad w c i
      | LiquityCloseTrove \<Rightarrow> activeTrove obs (\<lambda>l t. refuseIf (eusdBalance obs < tv_netDebtEusdWei t) (ExceedsBalance ''netDebt'') accept)
      | LiquityRedeem amt _ _ \<Rightarrow> withLiquity obs (\<lambda>_. checkEusd obs amt)
      | LiquityProvideToSP amt \<Rightarrow> checkEusd obs amt
      | LiquityWithdrawFromSP amt \<Rightarrow> withLiquity obs (\<lambda>l. checkWithdrawSP l amt)
      | LiquityLiquidate b n \<Rightarrow>
          refuseIf ((case b of Some bs \<Rightarrow> bs = [] | None \<Rightarrow> True) \<and> (case n of Some k \<Rightarrow> k = 0 | None \<Rightarrow> True)) LiquidateNeedsTarget accept
      | LiquitySwapEusd t amt _ \<Rightarrow> checkSwapEusd obs bal t amt
      | _ \<Rightarrow> Inr (Some (NotMine Liquity)))"

definition lendingValidate :: "agentObservation \<Rightarrow> leafBody \<Rightarrow> checked" where
  "lendingValidate obs a =
     (case ob_lending obs of
        None \<Rightarrow> Inr (Some VenueNotDeployed)
      | Some singleton \<Rightarrow>
          refuseIf (singleton = []) VenueNotDeployed
          (case a of
             CreateLendingMarket _ _ _ _ _ \<Rightarrow> accept
           | LendingOp _ mid _ \<Rightarrow> refuseIf (mid = []) MarketIdMissing accept
           | LendingLiquidate mid _ _ \<Rightarrow> refuseIf (mid = []) MarketIdMissing accept
           | _ \<Rightarrow> Inr (Some MarketIdMissing)))"

definition adapterValidate :: "deployment \<Rightarrow> protocolId list \<Rightarrow> agentObservation \<Rightarrow> balanceSnapshot \<Rightarrow> protocolId \<Rightarrow> leafBody \<Rightarrow> checked" where
  "adapterValidate d ids obs bal p a =
     (case p of
        Uniswap \<Rightarrow> uniswapValidate d obs bal a | Balancer \<Rightarrow> balancerValidate d bal a | Curve \<Rightarrow> curveValidate d ids bal a
      | Aave \<Rightarrow> aaveValidate d obs bal a | Gmx \<Rightarrow> gmxValidate d obs bal a | Lst \<Rightarrow> lstValidate obs bal a
      | Liquity \<Rightarrow> liquityValidate obs bal a | Lending \<Rightarrow> lendingValidate obs a)"

text \<open>\<open>adapter.bundleable\<close>: every venue but GMX, whose orders wait for the keeper.\<close>

definition bundleable :: "protocolId \<Rightarrow> bool" where
  "bundleable p \<longleftrightarrow> p \<noteq> Gmx"

end
