(* ===== verification/Agent_Actions.thy ===== *)
theory Agent_Actions
  imports Venue_Checks "HOL-Library.Word"
begin

text \<open>
  An agent's action end to end (\<open>sdk/src/action.ts\<close>): \<open>parseAction\<close> takes an untrusted object in,
  \<open>validateAction\<close> checks it leg by leg against balances that earlier legs have already drawn on, and
  gives the transactions to build, with their priority fees and their place in a bundle.
  \<open>JSON.stringify\<close> is the parameter \<open>stringify\<close>.
\<close>

section \<open>Taking an action in\<close>

record rawTx =
  rt_to :: "string option"
  rt_data :: string
  rt_value :: "string option"

datatype agentAction =
    Noop "string option"
  | LeafAction leafAction
  | Bundle "leafAction list" "string option"
  | RawTx rawTx "string option"
  | RawBundle "rawTx list" "string option"

datatype intakeError =
    NotAnObject | BadAction actionError | BadField parseError | ActionsNotArray | ItemNotObject nat | NestedNoop | NestedBundle
  | NotBundleable json | TxNotObject | TxsNotArray | TxsEmpty | BadTo | BadData | EmptyCreationCode

text \<open>The properties of a value that is truthy and \<open>typeof "object"\<close>; an array has none of the names asked for.\<close>

definition asObject :: "json \<Rightarrow> obj option" where
  "asObject v = (case v of JObj r \<Rightarrow> Some r | JArr _ \<Rightarrow> Some [] | _ \<Rightarrow> None)"

definition liftField :: "parseError + 'a \<Rightarrow> intakeError + 'a" where
  "liftField r = (case r of Inl e \<Rightarrow> Inl (BadField e) | Inr x \<Rightarrow> Inr x)"

definition liftAction :: "actionError + 'a \<Rightarrow> intakeError + 'a" where
  "liftAction r = (case r of Inl e \<Rightarrow> Inl (BadAction e) | Inr x \<Rightarrow> Inr x)"

definition addPriorityFee :: "obj \<Rightarrow> intakeError + string option" where
  "addPriorityFee ob = liftField (optionalDecimal ob ''maxPriorityFeePerGasWei'')"

definition isDeploy :: "obj \<Rightarrow> bool" where
  "isDeploy ob \<longleftrightarrow> jget ob ''to'' = JUndef \<or> jget ob ''to'' = JNull"

definition hexField :: "obj \<Rightarrow> string \<Rightarrow> intakeError \<Rightarrow> intakeError + string" where
  "hexField ob k e = (case jget ob k of JStr s \<Rightarrow> if isHex s then Inr s else Inl e | _ \<Rightarrow> Inl e)"

definition parseRawTx :: "obj \<Rightarrow> intakeError + rawTx" where
  "parseRawTx ob =
     bindR (if isDeploy ob then Inr None else bindR (hexField ob ''to'' BadTo) (\<lambda>s. Inr (Some s))) (\<lambda>to'.
     bindR (hexField ob ''data'' BadData) (\<lambda>code.
     throwIf (isDeploy ob \<and> length code \<le> 2) EmptyCreationCode (
     bindR (liftField (optionalDecimal ob ''value'')) (\<lambda>v.
     Inr \<lparr>rt_to = to', rt_data = code, rt_value = v\<rparr>))))"

definition parseRawTxAction :: "obj \<Rightarrow> intakeError + agentAction" where
  "parseRawTxAction ob =
     (case asObject (jget ob ''tx'') of
        None \<Rightarrow> Inl TxNotObject
      | Some t \<Rightarrow> bindR (parseRawTx t) (\<lambda>tx. bindR (addPriorityFee ob) (\<lambda>fee. Inr (RawTx tx fee))))"

definition parseRawItem :: "nat \<times> json \<Rightarrow> intakeError + rawTx" where
  "parseRawItem e = (case asObject (snd e) of None \<Rightarrow> Inl (ItemNotObject (fst e)) | Some t \<Rightarrow> parseRawTx t)"

definition parseRawBundleAction :: "obj \<Rightarrow> intakeError + agentAction" where
  "parseRawBundleAction ob =
     (case jget ob ''txs'' of
        JArr js \<Rightarrow> throwIf (js = []) TxsEmpty
          (bindR (mapR parseRawItem (enumerate 0 js)) (\<lambda>txs. bindR (addPriorityFee ob) (\<lambda>fee. Inr (RawBundle txs fee))))
      | _ \<Rightarrow> Inl TxsNotArray)"

definition parseBundleItem :: "deployment \<Rightarrow> protocolId list \<Rightarrow> nat \<times> json \<Rightarrow> intakeError + leafAction" where
  "parseBundleItem d ids e =
     (case asObject (snd e) of
        None \<Rightarrow> Inl (ItemNotObject (fst e))
      | Some item \<Rightarrow>
          throwIf (jget item ''type'' = JStr ''noop'') NestedNoop (
          throwIf (jget item ''type'' = JStr ''bundle'') NestedBundle (
          bindR (liftAction (parseLeafAction d ids item)) (\<lambda>a.
          bindR (liftAction (adapterForAction d ids a)) (\<lambda>p.
          throwIf (\<not> bundleable p) (NotBundleable (jget item ''type'')) (Inr a))))))"

definition parseBundleAction :: "deployment \<Rightarrow> protocolId list \<Rightarrow> obj \<Rightarrow> intakeError + agentAction" where
  "parseBundleAction d ids ob =
     (case jget ob ''actions'' of
        JArr js \<Rightarrow> bindR (mapR (parseBundleItem d ids) (enumerate 0 js)) (\<lambda>as.
          bindR (addPriorityFee ob) (\<lambda>fee. Inr (Bundle as fee)))
      | _ \<Rightarrow> Inl ActionsNotArray)"

definition parseAction :: "deployment \<Rightarrow> protocolId list \<Rightarrow> json \<Rightarrow> intakeError + agentAction" where
  "parseAction d ids raw =
     (case asObject raw of
        None \<Rightarrow> Inl NotAnObject
      | Some ob \<Rightarrow>
          if jget ob ''type'' = JStr ''noop'' then Inr (Noop (case jget ob ''reason'' of JStr s \<Rightarrow> Some s | _ \<Rightarrow> None))
          else if jget ob ''type'' = JStr ''bundle'' then parseBundleAction d ids ob
          else if jget ob ''type'' = JStr ''rawTx'' then parseRawTxAction ob
          else if jget ob ''type'' = JStr ''rawBundle'' then parseRawBundleAction ob
          else bindR (liftAction (parseLeafAction d ids ob)) (\<lambda>a. Inr (LeafAction a)))"

section \<open>What a leg draws from the working balances\<close>

text \<open>\<open>cur > amount ? cur - amount : 0n\<close>\<close>

definition lessFloor :: "int \<Rightarrow> int \<Rightarrow> int" where
  "lessFloor cur amount = (if amount < cur then cur - amount else 0)"

definition onKey :: "string \<Rightarrow> (int \<Rightarrow> int) \<Rightarrow> (string \<times> int) list option \<Rightarrow> (string \<times> int) list option" where
  "onKey k f m = (case m of None \<Rightarrow> None | Some es \<Rightarrow> (case map_of es k of None \<Rightarrow> Some es | Some n \<Rightarrow> Some (AList.update k (f n) es)))"

definition spendBase :: "string \<Rightarrow> int \<Rightarrow> balanceSnapshot \<Rightarrow> balanceSnapshot" where
  "spendBase base amount w =
     w\<lparr>bs_wethWei := (if base = ''WETH'' then lessFloor (bs_wethWei w) amount else bs_wethWei w),
       bs_bases := onKey base (\<lambda>cur. lessFloor cur amount) (bs_bases w)\<rparr>"

definition creditBase :: "string \<Rightarrow> int \<Rightarrow> balanceSnapshot \<Rightarrow> balanceSnapshot" where
  "creditBase base amount w =
     w\<lparr>bs_wethWei := (if base = ''WETH'' then bs_wethWei w + amount else bs_wethWei w),
       bs_bases := map_option (\<lambda>m. AList.update base (getOr 0 m base + amount) m) (bs_bases w)\<rparr>"

definition isNativeStable :: "deployment \<Rightarrow> string \<Rightarrow> bool" where
  "isNativeStable d key \<longleftrightarrow> key = toLower (usdcAddress d)"

definition spendStable :: "deployment \<Rightarrow> string \<Rightarrow> int \<Rightarrow> balanceSnapshot \<Rightarrow> balanceSnapshot" where
  "spendStable d key amount w =
     w\<lparr>bs_usdcUnits := (if isNativeStable d key then lessFloor (bs_usdcUnits w) amount else bs_usdcUnits w),
       bs_stables := onKey key (\<lambda>cur. lessFloor cur amount) (bs_stables w)\<rparr>"

definition creditStable :: "deployment \<Rightarrow> string \<Rightarrow> int \<Rightarrow> balanceSnapshot \<Rightarrow> balanceSnapshot" where
  "creditStable d key amount w =
     w\<lparr>bs_usdcUnits := (if isNativeStable d key then bs_usdcUnits w + amount else bs_usdcUnits w),
       bs_stables := onKey key (\<lambda>cur. cur + amount) (bs_stables w)\<rparr>"

definition currentStable :: "string \<Rightarrow> balanceSnapshot \<Rightarrow> int" where
  "currentStable key w =
     (case bs_stables w of None \<Rightarrow> bs_usdcUnits w | Some m \<Rightarrow> (case map_of m key of None \<Rightarrow> bs_usdcUnits w | Some n \<Rightarrow> n))"

text \<open>\<open>next > 0n ? next : 0n\<close>\<close>

definition moveStable :: "deployment \<Rightarrow> string \<Rightarrow> int \<Rightarrow> balanceSnapshot \<Rightarrow> balanceSnapshot" where
  "moveStable d key delta w =
     w\<lparr>bs_usdcUnits := (if isNativeStable d key then max 0 (bs_usdcUnits w + delta) else bs_usdcUnits w),
       bs_stables := onKey key (\<lambda>cur. max 0 (cur + delta)) (bs_stables w)\<rparr>"

definition rescaleDecimals :: "int \<Rightarrow> nat \<Rightarrow> nat \<Rightarrow> int" where
  "rescaleDecimals amount from' to' =
     (if from' = to' then amount
      else if from' < to' then amount * 10 ^ (to' - from')
      else amount sdiv 10 ^ (from' - to'))"

text \<open>The price of the venue a swap leg runs on, in USDC for one base; the fair price when it shows none.\<close>

definition fallbackPrice :: "agentObservation \<Rightarrow> string \<Rightarrow> jsdouble" where
  "fallbackPrice obs base =
     (case ob_fairPricesUsd obs of
        None \<Rightarrow> ob_fairPrice obs
      | Some m \<Rightarrow> (case map_of m base of None \<Rightarrow> ob_fairPrice obs | Some p \<Rightarrow> p))"

definition pick :: "agentObservation \<Rightarrow> string \<Rightarrow> jsdouble option \<Rightarrow> (string \<times> jsdouble) list option \<Rightarrow> jsdouble" where
  "pick obs base own markets =
     (case (if base = ''WETH'' then own
            else (case markets of None \<Rightarrow> None | Some m \<Rightarrow> map_of m (base @ ''/USDC''))) of
        Some p \<Rightarrow> p | None \<Rightarrow> fallbackPrice obs base)"

definition swapVenuePrice :: "agentObservation \<Rightarrow> protocolId \<Rightarrow> string \<Rightarrow> jsdouble" where
  "swapVenuePrice obs p base =
     (case p of
        Uniswap \<Rightarrow> pick obs base (map_option uo_price (ob_uniswap obs)) (Option.bind (ob_uniswap obs) uo_markets)
      | Balancer \<Rightarrow> pick obs base (map_option am_price (ob_balancer obs)) (Option.bind (ob_balancer obs) am_markets)
      | Curve \<Rightarrow> pick obs base (map_option am_price (ob_curve obs)) (Option.bind (ob_curve obs) am_markets)
      | _ \<Rightarrow> fallbackPrice obs base)"

text \<open>What a swap is expected to bring, in the units of the token; \<open>BigInt\<close> throws where it is not finite.\<close>

definition stableOut :: "int \<Rightarrow> nat \<Rightarrow> jsdouble \<Rightarrow> int option" where
  "stableOut amount decimals price =
     floorBig (dMul (dMul (dDiv (ofBig amount) (Num (10 ^ decimals))) price) (Num 1000000))"

definition baseOut :: "int \<Rightarrow> nat \<Rightarrow> jsdouble \<Rightarrow> int option" where
  "baseOut amount decimals price =
     floorBig (dMul (dDiv (dDiv (ofBig amount) (Num 1000000)) price) (Num (10 ^ decimals)))"

text \<open>The credit of a swap: nothing at a price that is not positive.\<close>

definition credited :: "jsdouble \<Rightarrow> int option \<Rightarrow> (int \<Rightarrow> balanceSnapshot \<Rightarrow> balanceSnapshot) \<Rightarrow> balanceSnapshot
    \<Rightarrow> checkError + balanceSnapshot" where
  "credited price out credit w =
     (if dPos price then (case out of None \<Rightarrow> Inl (Js RangeError) | Some n \<Rightarrow> Inr (credit n w)) else Inr w)"

definition swapSpend :: "deployment \<Rightarrow> agentObservation \<Rightarrow> protocolId \<Rightarrow> string \<Rightarrow> string option \<Rightarrow> string \<Rightarrow> balanceSnapshot
    \<Rightarrow> checkError + balanceSnapshot" where
  "swapSpend d obs p tokenIn base amount w =
     bindR (bigOf amount) (\<lambda>amt.
     (case tokenInfo d (orWeth base) of
        Inl e \<Rightarrow> Inl (MarketErr e)
      | Inr info \<Rightarrow>
          (let b = orWeth base; key = toLower (case stableTokenOf d p of Some t \<Rightarrow> t | None \<Rightarrow> []);
               price = swapVenuePrice obs p b
           in if tokenIn = b then
                credited price (stableOut amt (ti_decimals info) price) (creditStable d key) (spendBase b amt w)
              else
                credited price (baseOut amt (ti_decimals info) price) (creditBase b) (spendStable d key amt w))))"

definition stableSwapSpend :: "deployment \<Rightarrow> protocolId list \<Rightarrow> string \<Rightarrow> string \<Rightarrow> string \<Rightarrow> balanceSnapshot \<Rightarrow> checkError + balanceSnapshot" where
  "stableSwapSpend d ids which tokenIn amount w =
     bindR (bigOf amount) (\<lambda>amt.
       Inr (case stableMarketBySymbol d ids which of
          None \<Rightarrow> w
        | Some m \<Rightarrow>
            (let inKey = toLower (if tokenIn = st_symbol m then st_token m else usdcAddress d);
                 outKey = toLower (if tokenIn = st_symbol m then usdcAddress d else st_token m);
                 decimalsOf = (\<lambda>k. if isNativeStable d k then 6 else st_decimals m)
             in moveStable d outKey (rescaleDecimals amt (decimalsOf inKey) (decimalsOf outKey)) (moveStable d inKey (- amt) w))))"

definition aaveSpend :: "deployment \<Rightarrow> aaveType \<Rightarrow> string \<Rightarrow> string \<Rightarrow> balanceSnapshot \<Rightarrow> checkError + balanceSnapshot" where
  "aaveSpend d t asset amount w =
     (let key = toLower (usdcAddress d); spend = (\<lambda>n. if kindOf asset = Stable then spendStable d key n w else spendBase asset n w)
      in case t of
           AaveSupply \<Rightarrow> bindR (bigOf amount) (\<lambda>n. Inr (spend n))
         | AaveRepay \<Rightarrow>
             if amount = ''max'' then Inr (spend (if kindOf asset = Stable then currentStable key w else baseBalanceOf w asset))
             else bindR (bigOf amount) (\<lambda>n. Inr (spend n))
         | _ \<Rightarrow> Inr w)"

definition applyLeafSpend :: "deployment \<Rightarrow> protocolId list \<Rightarrow> agentObservation \<Rightarrow> leafBody \<Rightarrow> balanceSnapshot \<Rightarrow> checkError + balanceSnapshot" where
  "applyLeafSpend d ids obs a w =
     (case a of
        Swap t b amt _ \<Rightarrow> swapSpend d obs Uniswap t b amt w
      | BalancerSwap t b amt _ \<Rightarrow> swapSpend d obs Balancer t b amt w
      | CurveSwap t b amt _ \<Rightarrow> swapSpend d obs Curve t b amt w
      | MintLiquidity b _ _ wa u ba qa _ \<Rightarrow>
          bindR (bigOf (case ba of Some x \<Rightarrow> x | None \<Rightarrow> wa)) (\<lambda>n.
          bindR (bigOf (case qa of Some x \<Rightarrow> x | None \<Rightarrow> u)) (\<lambda>q.
          Inr (spendStable d (toLower (usdcAddress d)) q (spendBase (orWeth b) n w))))
      | StableSwap st t amt _ \<Rightarrow> stableSwapSpend d ids st t amt w
      | LstDeposit amt \<Rightarrow> bindR (bigOf amt) (\<lambda>n. Inr (spendBase ''WETH'' n w))
      | LstSwap t amt _ \<Rightarrow> if t = ''WETH'' then bindR (bigOf amt) (\<lambda>n. Inr (spendBase ''WETH'' n w)) else Inr w
      | AaveOp t asset amt \<Rightarrow> aaveSpend d t asset amt w
      | _ \<Rightarrow> Inr w)"


section \<open>Validating\<close>

record validatedIntent =
  vi_action :: leafAction
  vi_protocol :: protocolId
  vi_priorityFeeWei :: int
  vi_bundleId :: "string option"
  vi_bundleIndex :: "nat option"

record validatedRawIntent =
  vr_tx :: rawTx
  vr_priorityFeeWei :: int
  vr_bundleId :: "string option"
  vr_bundleIndex :: "nat option"

datatype actionValidation =
    Accepted agentAction "validatedIntent list" "validatedRawIntent list"
  | Refused refusal

definition feeWei :: "agentObservation \<Rightarrow> string option \<Rightarrow> checkError + int" where
  "feeWei obs fee = (case fee of None \<Rightarrow> Inr (ob_defaultPriorityFee obs) | Some s \<Rightarrow> bigOf s)"

text \<open>The working copy the legs of a bundle draw on, one after the other.\<close>

definition workingCopy :: "balanceSnapshot \<Rightarrow> balanceSnapshot" where
  "workingCopy b = b\<lparr>bs_stables := Some (case bs_stables b of None \<Rightarrow> [] | Some m \<Rightarrow> m)\<rparr>"

definition intentOf :: "string option \<Rightarrow> nat \<Rightarrow> leafAction \<Rightarrow> protocolId \<Rightarrow> int \<Rightarrow> validatedIntent" where
  "intentOf bundleId i item p fee =
     \<lparr>vi_action = item, vi_protocol = p, vi_priorityFeeWei = fee, vi_bundleId = bundleId,
      vi_bundleIndex = map_option (\<lambda>_. i) bundleId\<rparr>"

definition liftOwner :: "actionError + 'a \<Rightarrow> checkError + 'a" where
  "liftOwner r = (case r of Inl e \<Rightarrow> Inl (ActionErr e) | Inr x \<Rightarrow> Inr x)"

fun checkItems :: "deployment \<Rightarrow> protocolId list \<Rightarrow> agentObservation \<Rightarrow> int option \<Rightarrow> string option \<Rightarrow> nat \<Rightarrow> balanceSnapshot
    \<Rightarrow> validatedIntent list \<Rightarrow> leafAction list \<Rightarrow> checkError + (refusal + (validatedIntent list \<times> balanceSnapshot))" where
  "checkItems d ids obs bundleFee bundleId i work acc [] = Inr (Inr (acc, work))"
| "checkItems d ids obs bundleFee bundleId i work acc (item # items) =
     bindR (case bundleFee of Some f \<Rightarrow> Inr f | None \<Rightarrow> feeWei obs (la_priorityFee item)) (\<lambda>fee.
     if ob_maxPriorityFee obs < fee then Inr (Inl PriorityFeeTooHigh)
     else bindR (liftOwner (adapterForAction d ids item)) (\<lambda>p.
       bindR (adapterValidate d ids obs work p (la_body item)) (\<lambda>r. case r of
         Some e \<Rightarrow> Inr (Inl e)
       | None \<Rightarrow> bindR (applyLeafSpend d ids obs (la_body item) work) (\<lambda>work'.
           checkItems d ids obs bundleFee bundleId (Suc i) work' (acc @ [intentOf bundleId i item p fee]) items))))"

definition validateLeafItems :: "deployment \<Rightarrow> protocolId list \<Rightarrow> agentAction \<Rightarrow> leafAction list \<Rightarrow> agentObservation \<Rightarrow> balanceSnapshot
    \<Rightarrow> int option \<Rightarrow> string option \<Rightarrow> checkError + actionValidation" where
  "validateLeafItems d ids original actions obs balances bundleFee bundleId =
     (if (case bundleFee of Some f \<Rightarrow> ob_maxPriorityFee obs < f | None \<Rightarrow> False) then Inr (Refused PriorityFeeTooHigh)
      else bindR (checkItems d ids obs bundleFee bundleId 0 (workingCopy balances) [] actions) (\<lambda>r. case r of
        Inl e \<Rightarrow> Inr (Refused e)
      | Inr (intents, _) \<Rightarrow> Inr (Accepted original intents [])))"

text \<open>\<open>(hash * 31 + code) >>> 0\<close> over the text, in base 16.\<close>

fun hexString :: "nat \<Rightarrow> string" where
  "hexString n =
     (let c = (if n mod 16 < 10 then char_of (48 + n mod 16) else char_of (87 + n mod 16))
      in if n < 16 then [c] else hexString (n div 16) @ [c])"

declare hexString.simps [simp del]

definition hash31 :: "string \<Rightarrow> 32 word" where
  "hash31 s = foldl (\<lambda>h c. h * 31 + of_nat (of_char c)) 0 s"

definition hashAction :: "(agentAction \<Rightarrow> string) \<Rightarrow> agentAction \<Rightarrow> string" where
  "hashAction stringify a = hexString (unat (hash31 (stringify a)))"

definition bundleIdOf :: "(agentAction \<Rightarrow> string) \<Rightarrow> agentObservation \<Rightarrow> agentAction \<Rightarrow> string" where
  "bundleIdOf stringify obs a = ob_runId obs @ '':'' @ decimalInt (ob_round obs) @ '':'' @ hashAction stringify a"

definition validateRawTxAction :: "agentObservation \<Rightarrow> rawTx \<Rightarrow> string option \<Rightarrow> checkError + actionValidation" where
  "validateRawTxAction obs tx fee =
     bindR (feeWei obs fee) (\<lambda>f.
     Inr (if ob_maxPriorityFee obs < f then Refused PriorityFeeTooHigh
          else Accepted (RawTx tx fee) [] [\<lparr>vr_tx = tx, vr_priorityFeeWei = f, vr_bundleId = None, vr_bundleIndex = None\<rparr>]))"

definition validateRawBundleAction :: "(agentAction \<Rightarrow> string) \<Rightarrow> agentObservation \<Rightarrow> rawTx list \<Rightarrow> string option
    \<Rightarrow> checkError + actionValidation" where
  "validateRawBundleAction stringify obs txs fee =
     bindR (feeWei obs fee) (\<lambda>f.
     Inr (if ob_maxPriorityFee obs < f then Refused PriorityFeeTooHigh
          else Accepted (RawBundle txs fee) []
            (map (\<lambda>(i, tx). \<lparr>vr_tx = tx, vr_priorityFeeWei = f, vr_bundleId = Some (bundleIdOf stringify obs (RawBundle txs fee)),
               vr_bundleIndex = Some i\<rparr>) (enumerate 0 txs))))"

definition validateAction :: "(agentAction \<Rightarrow> string) \<Rightarrow> deployment \<Rightarrow> protocolId list \<Rightarrow> agentAction \<Rightarrow> agentObservation \<Rightarrow> balanceSnapshot
    \<Rightarrow> checkError + actionValidation" where
  "validateAction stringify d ids action obs balances =
     (case action of
        Noop _ \<Rightarrow> Inr (Accepted action [] [])
      | RawTx tx fee \<Rightarrow> validateRawTxAction obs tx fee
      | RawBundle txs fee \<Rightarrow> validateRawBundleAction stringify obs txs fee
      | Bundle as fee \<Rightarrow>
          if as = [] then Inr (Refused EmptyBundle)
          else bindR (case fee of None \<Rightarrow> Inr None | Some s \<Rightarrow> bindR (bigOf s) (\<lambda>n. Inr (Some n))) (\<lambda>bundleFee.
            validateLeafItems d ids action as obs balances bundleFee (Some (bundleIdOf stringify obs action)))
      | LeafAction a \<Rightarrow> validateLeafItems d ids action [a] obs balances None None)"

section \<open>What an accepted action sends\<close>

definition legsOf :: "agentAction \<Rightarrow> leafAction list" where
  "legsOf a = (case a of LeafAction l \<Rightarrow> [l] | Bundle as _ \<Rightarrow> as | _ \<Rightarrow> [])"

definition txsOf :: "agentAction \<Rightarrow> rawTx list" where
  "txsOf a = (case a of RawTx t _ \<Rightarrow> [t] | RawBundle ts _ \<Rightarrow> ts | _ \<Rightarrow> [])"

definition bundleIdFor :: "(agentAction \<Rightarrow> string) \<Rightarrow> agentObservation \<Rightarrow> agentAction \<Rightarrow> string option" where
  "bundleIdFor stringify obs a =
     (case a of Bundle _ _ \<Rightarrow> Some (bundleIdOf stringify obs a) | RawBundle _ _ \<Rightarrow> Some (bundleIdOf stringify obs a) | _ \<Rightarrow> None)"

lemma checkItems_intents:
  assumes "checkItems d ids obs bf bid i work acc items = Inr (Inr (out, w'))"
    "case bf of Some f \<Rightarrow> f \<le> ob_maxPriorityFee obs | None \<Rightarrow> True"
  shows "\<exists>new. out = acc @ new \<and> map vi_action new = items \<and> list_all (\<lambda>v. vi_priorityFeeWei v \<le> ob_maxPriorityFee obs \<and> vi_bundleId v = bid
           \<and> adapterForAction d ids (vi_action v) = Inr (vi_protocol v)) new
         \<and> map vi_bundleIndex new = map (\<lambda>k. map_option (\<lambda>_. k) bid) [i..<i + length items]"
  using assms
proof (induction items arbitrary: i work acc)
  case (Cons item items)
  obtain fee p work' where step: "(case bf of Some f \<Rightarrow> Inr f | None \<Rightarrow> feeWei obs (la_priorityFee item)) = Inr fee"
    "fee \<le> ob_maxPriorityFee obs" "adapterForAction d ids item = Inr p"
    "checkItems d ids obs bf bid (Suc i) work' (acc @ [intentOf bid i item p fee]) items = Inr (Inr (out, w'))"
    using Cons.prems(1) by (auto simp: result_simps liftOwner_def split: if_splits option.splits sum.splits)
  obtain new where new: "out = (acc @ [intentOf bid i item p fee]) @ new" "map vi_action new = items"
    "list_all (\<lambda>v. vi_priorityFeeWei v \<le> ob_maxPriorityFee obs \<and> vi_bundleId v = bid \<and> adapterForAction d ids (vi_action v) = Inr (vi_protocol v)) new"
    "map vi_bundleIndex new = map (\<lambda>k. map_option (\<lambda>_. k) bid) [Suc i..<Suc i + length items]"
    using Cons.IH [OF step(4) Cons.prems(2)] by blast
  have idx: "[i..<i + length (item # items)] = i # [Suc i..<Suc i + length items]" by (subst upt_rec) simp
  show ?case
    unfolding idx using new step(2,3) by (intro exI [of _ "intentOf bid i item p fee # new"]) (simp add: intentOf_def)
qed simp

lemma validateLeafItems_accepted:
  assumes "validateLeafItems d ids orig as obs bal bf bid = Inr (Accepted a is rs)"
  shows "\<exists>w. checkItems d ids obs bf bid 0 (workingCopy bal) [] as = Inr (Inr (is, w)) \<and> a = orig \<and> rs = []
    \<and> (case bf of Some f \<Rightarrow> f \<le> ob_maxPriorityFee obs | None \<Rightarrow> True)"
  using assms by (auto simp: validateLeafItems_def result_simps split: if_splits option.splits sum.splits)

text \<open>
  C25. An accepted action is sent as it was asked and within the fee limit: one intent per leg (or per
  raw transaction), in the order given, each with a priority fee at most the configured maximum, on
  the venue that owns it, and, in a bundle, with the bundle's identifier and its place from 0.
\<close>

theorem accepted_action_sent:
  assumes "validateAction stringify d ids action obs bal = Inr (Accepted a is rs)"
  shows "a = action \<and> map vi_action is = legsOf action \<and> map vr_tx rs = txsOf action
    \<and> list_all (\<lambda>v. vi_priorityFeeWei v \<le> ob_maxPriorityFee obs \<and> vi_bundleId v = bundleIdFor stringify obs action
         \<and> adapterForAction d ids (vi_action v) = Inr (vi_protocol v)) is
    \<and> map vi_bundleIndex is = map (\<lambda>k. map_option (\<lambda>_. k) (bundleIdFor stringify obs action)) [0..<length is]
    \<and> list_all (\<lambda>v. vr_priorityFeeWei v \<le> ob_maxPriorityFee obs \<and> vr_bundleId v = bundleIdFor stringify obs action) rs
    \<and> map vr_bundleIndex rs = map (\<lambda>k. map_option (\<lambda>_. k) (bundleIdFor stringify obs action)) [0..<length rs]"
proof -
  have legs: ?thesis if leg: "validateLeafItems d ids action as obs bal bf bid = Inr (Accepted a is rs)" and parts: "legsOf action = as" "txsOf action = []"
    "bundleIdFor stringify obs action = bid" for as bf bid
  proof -
    obtain w where w: "checkItems d ids obs bf bid 0 (workingCopy bal) [] as = Inr (Inr (is, w))" "a = action" "rs = []"
      "case bf of Some f \<Rightarrow> f \<le> ob_maxPriorityFee obs | None \<Rightarrow> True"
      using validateLeafItems_accepted [OF leg] by blast
    have "map vi_action is = as" "map vi_bundleIndex is = map (\<lambda>k. map_option (\<lambda>_. k) bid) [0..<length as]"
      and l: "list_all (\<lambda>v. vi_priorityFeeWei v \<le> ob_maxPriorityFee obs \<and> vi_bundleId v = bid \<and> adapterForAction d ids (vi_action v) = Inr (vi_protocol v)) is"
      using checkItems_intents [OF w(1,4)] by auto
    moreover have "length is = length as" using arg_cong [OF calculation(1), of length] by simp
    ultimately show ?thesis using parts w(2,3) by simp
  qed
  show ?thesis
  proof (cases action)
    case (LeafAction l)
    then show ?thesis using assms by (intro legs [of "[l]" None None]) (simp_all add: validateAction_def legsOf_def txsOf_def bundleIdFor_def)
  next
    case (Bundle as fee)
    then obtain bf where "validateLeafItems d ids action as obs bal bf (Some (bundleIdOf stringify obs action)) = Inr (Accepted a is rs)"
      using assms by (auto simp: validateAction_def result_simps split: if_splits)
    then show ?thesis by (rule legs) (simp_all add: Bundle legsOf_def txsOf_def bundleIdFor_def)
  next
    case (RawBundle txs fee)
    then show ?thesis
      using assms by (auto simp: validateAction_def validateRawBundleAction_def result_simps legsOf_def txsOf_def bundleIdFor_def
          list_all_iff enumerate_eq_zip zip_map_fst_snd comp_def split_def split: if_splits intro: nth_equalityI)
  qed (use assms in \<open>auto simp: validateAction_def validateRawTxAction_def result_simps legsOf_def txsOf_def bundleIdFor_def split: if_splits\<close>)
qed

end
