(* ===== verification/Bundle_Ledger.thy ===== *)
theory Bundle_Ledger
  imports Agent_Actions
begin

text \<open>
  What validation promises of an accepted action: no leg of a bundle draws more of a base than the
  wallet holds once the earlier legs are counted (a ledger per base, which the working balances
  refine), a checked action never makes the runtime throw, a Trove is never opened or adjusted below
  its collateral requirement and a GMX order never sent over the runtime's share of the cap.
\<close>

section \<open>The working balances of one base\<close>

definition sweptBase :: "deployment \<Rightarrow> string \<Rightarrow> bool" where
  "sweptBase d b \<longleftrightarrow> kindOf b = Base \<and> list_ex (\<lambda>p. marketFor d p b \<noteq> None) [Uniswap, Balancer, Curve, Aave]"

definition held :: "balanceSnapshot \<Rightarrow> string \<Rightarrow> int" where
  "held w b = (case bs_bases w of Some m \<Rightarrow> getOr 0 m b | None \<Rightarrow> 0)"

text \<open>The snapshot carries every base the venues trade, and \<open>wethWei\<close> is \<open>bases.WETH\<close>.\<close>

definition covered :: "deployment \<Rightarrow> balanceSnapshot \<Rightarrow> bool" where
  "covered d w \<longleftrightarrow>
     (\<exists>m. bs_bases w = Some m \<and> map_of m ''WETH'' = Some (bs_wethWei w)
        \<and> (\<forall>b. sweptBase d b \<or> b = ''WETH'' \<longrightarrow> (\<exists>n. map_of m b = Some n \<and> 0 \<le> n)))"

lemma covered_held:
  assumes "covered d w" "sweptBase d b \<or> b = ''WETH''"
  shows "baseBalanceOf w b = held w b" "0 \<le> held w b"
proof -
  obtain m n where "bs_bases w = Some m" "map_of m b = Some n" "0 \<le> n"
    using assms unfolding covered_def by blast
  then show "baseBalanceOf w b = held w b" "0 \<le> held w b" by (simp_all add: baseBalanceOf_def held_def getOr_def)
qed

lemma lessFloor_nonneg [simp]: "0 \<le> lessFloor c n"
  by (simp add: lessFloor_def)

lemma lessFloor_enough: "n \<le> c \<Longrightarrow> lessFloor c n = c - n"
  by (simp add: lessFloor_def)

lemma onKey_Some: "onKey k f (Some es) = Some (case map_of es k of None \<Rightarrow> es | Some n \<Rightarrow> AList.update k (f n) es)"
  by (simp add: onKey_def split: option.split)

lemma spendBase_covered:
  assumes "covered d w"
  shows "covered d (spendBase b n w)"
proof -
  obtain m where m: "bs_bases w = Some m" "map_of m ''WETH'' = Some (bs_wethWei w)"
    "\<And>b. sweptBase d b \<or> b = ''WETH'' \<Longrightarrow> \<exists>n. map_of m b = Some n \<and> 0 \<le> n"
    using assms unfolding covered_def by blast
  let ?m = "case map_of m b of None \<Rightarrow> m | Some c \<Rightarrow> AList.update b (lessFloor c n) m"
  have "bs_bases (spendBase b n w) = Some ?m" by (simp add: spendBase_def m(1) onKey_Some)
  moreover have "map_of ?m ''WETH'' = Some (bs_wethWei (spendBase b n w))"
    using m(2) by (auto simp: spendBase_def split: option.split)
  moreover have "\<exists>k. map_of ?m c = Some k \<and> 0 \<le> k" if "sweptBase d c \<or> c = ''WETH''" for c
    using m(3) [OF that] by (auto split: option.split)
  ultimately show ?thesis unfolding covered_def by blast
qed

lemma creditBase_covered:
  assumes "covered d w" "0 \<le> n"
  shows "covered d (creditBase b n w)"
proof -
  obtain m where m: "bs_bases w = Some m" "map_of m ''WETH'' = Some (bs_wethWei w)"
    "\<And>b. sweptBase d b \<or> b = ''WETH'' \<Longrightarrow> \<exists>n. map_of m b = Some n \<and> 0 \<le> n"
    using assms(1) unfolding covered_def by blast
  let ?m = "AList.update b (getOr 0 m b + n) m"
  have "bs_bases (creditBase b n w) = Some ?m" by (simp add: creditBase_def m(1))
  moreover have "map_of ?m ''WETH'' = Some (bs_wethWei (creditBase b n w))"
    using m(2) by (auto simp: creditBase_def getOr_def)
  moreover have "\<exists>k. map_of ?m c = Some k \<and> 0 \<le> k" if "sweptBase d c \<or> c = ''WETH''" for c
    using m(3) [OF that] assms(2) by (auto simp: getOr_def)
  ultimately show ?thesis unfolding covered_def by blast
qed

lemma held_spendBase:
  assumes "covered d w" "b = c \<Longrightarrow> n \<le> held w b \<and> 0 \<le> n"
  shows "held (spendBase c n w) b = (if b = c then held w b - n else held w b)"
proof -
  obtain m where m: "bs_bases w = Some m" using assms(1) unfolding covered_def by blast
  show ?thesis
  proof (cases "map_of m c")
    case None
    then show ?thesis using assms(2) by (cases "b = c") (auto simp: held_def spendBase_def m onKey_Some getOr_def)
  next
    case (Some k)
    then show ?thesis using assms(2) by (auto simp: held_def spendBase_def m onKey_Some getOr_def lessFloor_enough)
  qed
qed

lemma held_creditBase: "covered d w \<Longrightarrow> held (creditBase c n w) b = (if b = c then held w b + n else held w b)"
  by (auto simp: held_def creditBase_def covered_def getOr_def split: option.splits)

lemma stable_frames [simp]:
  "held (spendStable d k n w) b = held w b" "held (creditStable d k n w) b = held w b" "held (moveStable d k n w) b = held w b"
  "covered d' (spendStable d k n w) = covered d' w" "covered d' (creditStable d k n w) = covered d' w"
  "covered d' (moveStable d k n w) = covered d' w"
  by (simp_all add: held_def covered_def spendStable_def creditStable_def moveStable_def)


section \<open>The ledger of a base\<close>

definition amountOf :: "string \<Rightarrow> int" where
  "amountOf s = int (undec s)"

definition decimalsOf :: "deployment \<Rightarrow> string \<Rightarrow> nat" where
  "decimalsOf d b = (case map_of (dep_tokens d) b of Some t \<Rightarrow> td_decimals t | None \<Rightarrow> 0)"

text \<open>What a leg takes of the base \<open>b\<close> and what it is expected to bring, when the wallet holds \<open>h\<close> of it.\<close>

definition swapFlow :: "deployment \<Rightarrow> agentObservation \<Rightarrow> protocolId \<Rightarrow> string \<Rightarrow> string \<Rightarrow> string option \<Rightarrow> string \<Rightarrow> int \<times> int" where
  "swapFlow d obs p b tokenIn base amount =
     (if orWeth base \<noteq> b then (0, 0)
      else if tokenIn = b then (amountOf amount, 0)
      else (0, case (dPos (swapVenuePrice obs p b), baseOut (amountOf amount) (decimalsOf d b) (swapVenuePrice obs p b)) of
          (True, Some n) \<Rightarrow> n | _ \<Rightarrow> 0))"

definition flow :: "deployment \<Rightarrow> agentObservation \<Rightarrow> string \<Rightarrow> int \<Rightarrow> leafBody \<Rightarrow> int \<times> int" where
  "flow d obs b h a =
     (case a of
        Swap t base amt _ \<Rightarrow> swapFlow d obs Uniswap b t base amt
      | BalancerSwap t base amt _ \<Rightarrow> swapFlow d obs Balancer b t base amt
      | CurveSwap t base amt _ \<Rightarrow> swapFlow d obs Curve b t base amt
      | MintLiquidity base _ _ w _ ba _ _ \<Rightarrow> (if orWeth base = b then amountOf (case ba of Some x \<Rightarrow> x | None \<Rightarrow> w) else 0, 0)
      | LstDeposit amt \<Rightarrow> (if b = ''WETH'' then amountOf amt else 0, 0)
      | LstSwap t amt _ \<Rightarrow> (if b = ''WETH'' \<and> t = ''WETH'' then amountOf amt else 0, 0)
      | AaveOp t asset amt \<Rightarrow>
          (if asset = b \<and> (t = AaveSupply \<or> t = AaveRepay) then if t = AaveRepay \<and> amt = ''max'' then h else amountOf amt else 0, 0)
      | LiquityOpenTrove c _ _ \<Rightarrow> (if b = ''WETH'' then amountOf c else 0, 0)
      | LiquityAdjustTrove ad _ _ _ _ \<Rightarrow> (if b = ''WETH'' then amountOf (amountOr0 ad) else 0, 0)
      | _ \<Rightarrow> (0, 0))"

text \<open>
  The legs whose spending validation counts: all but the CDP's that post collateral, the lending
  market's, whose tokens only its market names, and GMX orders, which no parsed bundle holds.
\<close>

definition countedLeg :: "leafBody \<Rightarrow> bool" where
  "countedLeg a = (case a of
     LiquityOpenTrove _ _ _ \<Rightarrow> False
   | LiquityAdjustTrove ad _ _ _ _ \<Rightarrow> amountOf (amountOr0 ad) = 0
   | _ \<Rightarrow> ownerOf a \<noteq> Lending \<and> ownerOf a \<noteq> Gmx)"

text \<open>The abstract account: a leg that takes more than is held stops it.\<close>

fun ledger :: "(int \<Rightarrow> 'a \<Rightarrow> int \<times> int) \<Rightarrow> int \<Rightarrow> 'a list \<Rightarrow> int option" where
  "ledger f h [] = Some h"
| "ledger f h (a # as) = (if fst (f h a) \<le> h then ledger f (h - fst (f h a) + snd (f h a)) as else None)"

lemma ledger_nonneg:
  "ledger f h as = Some h' \<Longrightarrow> 0 \<le> h \<Longrightarrow> (\<And>h a. a \<in> set as \<Longrightarrow> 0 \<le> snd (f h a)) \<Longrightarrow> 0 \<le> h'"
proof (induction as arbitrary: h)
  case (Cons a as)
  then have "fst (f h a) \<le> h" "ledger f (h - fst (f h a) + snd (f h a)) as = Some h'" by (auto split: if_splits)
  moreover have "0 \<le> snd (f h a)" using Cons.prems(3) by simp
  ultimately show ?case using Cons.IH [of "h - fst (f h a) + snd (f h a)"] Cons.prems(3) by auto
qed simp

section \<open>One leg\<close>

lemma bigOf_digits [simp]: "isDecimal s \<Longrightarrow> bigOf s = Inr (amountOf s)"
  by (simp add: bigOf_def isDecimal_def bigIntOf_digits amountOf_def)

lemma amountOf_nonneg [simp]: "0 \<le> amountOf s"
  by (simp add: amountOf_def)

lemma refuseIf_accept [simp]: "refuseIf c r rest = Inr None \<longleftrightarrow> \<not> c \<and> rest = Inr None" "accept = Inr None"
  by (auto simp: refuseIf_def accept_def)

lemma decimal_not_max [simp]: "\<not> isDecimal ''max''"
  by (simp add: isDecimal_def isDigit_def)

text \<open>What the leg does to the account of \<open>b\<close>.\<close>

definition legPosts :: "deployment \<Rightarrow> string \<Rightarrow> balanceSnapshot \<Rightarrow> balanceSnapshot \<Rightarrow> int \<times> int \<Rightarrow> bool" where
  "legPosts d b w w' fl \<longleftrightarrow> covered d w' \<and> fst fl \<le> held w b \<and> held w' b = held w b - fst fl + snd fl"

lemma baseOut_nonneg: "0 \<le> n \<Longrightarrow> dPos p \<Longrightarrow> baseOut n k p = Some m \<Longrightarrow> 0 \<le> m"
  unfolding baseOut_def by (erule floorBig_notNeg [rotated]) (intro notNeg_mul notNeg_div notNeg_ofBig dPos_notNeg; simp)

lemma usdc_not_base: "kindOf b = Base \<Longrightarrow> b \<noteq> ''USDC'' \<and> b \<noteq> ''LST''"
  by (auto simp: kindOf_def STABLE_SYMBOLS_def)

lemma swap_posts:
  assumes cov: "covered d w" and b: "sweptBase d b \<or> b = ''WETH''"
    and ok: "poolSwapOk d p t base amount s"
    and check: "checkSwap d p stableLeg w t base amount = Inr None"
    and spend: "swapSpend d obs p t base amount w = Inr w'"
  shows "legPosts d b w w' (swapFlow d obs p b t base amount)"
proof -
  let ?n = "amountOf amount" and ?c = "orWeth base"
  have dec: "isDecimal amount" using ok by (simp add: poolSwapOk_def)
  obtain info where info: "tokenInfo d ?c = Inr info" "ti_decimals info = decimalsOf d ?c"
    using spend dec by (auto simp: swapSpend_def decimalsOf_def tokenInfo_def split: sum.splits option.splits)
  obtain m where m: "marketFor d p ?c = Some m" using check dec by (auto simp: checkSwap_def split: option.splits)
  show ?thesis
  proof (cases "t = ?c")
    case True
    have le: "?n \<le> held w b" if "b = ?c"
      using check dec m True marketFor_base [OF m] covered_held(1) [OF cov b] that by (auto simp: checkSwap_def)
    define w1 where "w1 = spendBase ?c ?n w"
    have w1: "covered d w1" "held w1 b = (if b = ?c then held w b - ?n else held w b)"
      unfolding w1_def using spendBase_covered [OF cov] held_spendBase [OF cov] le by auto
    have "covered d w' = covered d w1 \<and> held w' b = held w1 b"
      using spend dec info True by (auto simp: swapSpend_def credited_def w1_def Let_def split: if_splits option.splits)
    then show ?thesis using w1 le True covered_held(2) [OF cov b] by (auto simp: legPosts_def swapFlow_def)
  next
    case False
    define key where "key = toLower (case stableTokenOf d p of Some t \<Rightarrow> t | None \<Rightarrow> [])"
    define w1 where "w1 = spendStable d key ?n w"
    let ?price = "swapVenuePrice obs p ?c"
    have w1: "covered d w1" "held w1 b = held w b" using cov by (simp_all add: w1_def)
    let ?out = "baseOut ?n (decimalsOf d ?c) ?price"
    have w': "w' = (case (dPos ?price, ?out) of (True, Some k) \<Rightarrow> creditBase ?c k w1 | _ \<Rightarrow> w1)"
      using spend dec info False by (auto simp: swapSpend_def credited_def w1_def key_def Let_def split: option.splits if_splits)
    have "covered d w'"
      using w1(1) creditBase_covered [OF w1(1)] baseOut_nonneg [of ?n ?price]
      by (auto simp: w' split: option.split bool.split)
    then show ?thesis
      using False w1 held_creditBase [OF w1(1)] covered_held(2) [OF cov b] by (auto simp: legPosts_def swapFlow_def w' split: option.split bool.split)
  qed
qed

lemma mint_posts:
  assumes cov: "covered d w" and b: "sweptBase d b \<or> b = ''WETH''"
    and dec: "isDecimal x" "isDecimal q"
    and check: "checkMint d uni w base lo hi x q = Inr None"
  shows "legPosts d b w (spendStable d k (amountOf q) (spendBase (orWeth base) (amountOf x) w)) (if orWeth base = b then amountOf x else 0, 0)"
proof -
  have le: "amountOf x \<le> held w b" if "b = orWeth base"
    using check dec covered_held(1) [OF cov b] that by (auto simp: checkMint_def)
  then show ?thesis
    using spendBase_covered [OF cov] held_spendBase [OF cov] covered_held(2) [OF cov b] by (auto simp: legPosts_def)
qed

lemma weth_posts:
  assumes cov: "covered d w" and b: "sweptBase d b \<or> b = ''WETH''" and le: "n \<le> baseBalanceOf w ''WETH''" "0 \<le> n"
  shows "legPosts d b w (spendBase ''WETH'' n w) (if b = ''WETH'' then n else 0, 0)"
  using spendBase_covered [OF cov] held_spendBase [OF cov, of b "''WETH''" n] le covered_held [OF cov b] covered_held(1) [OF cov, of "''WETH''"]
  by (auto simp: legPosts_def)

lemma idle_posts: "covered d w \<Longrightarrow> sweptBase d b \<or> b = ''WETH'' \<Longrightarrow> legPosts d b w w (0, 0)"
  using covered_held(2) by (simp add: legPosts_def)

lemma weth_base: "kindOf ''WETH'' = Base"
  by (simp add: kindOf_def STABLE_SYMBOLS_def)

lemma stable_asset: "kindOf ''USDC'' = Stable"
  by (simp add: kindOf_def STABLE_SYMBOLS_def)

lemma aave_spend_posts:
  assumes cov: "covered d w" and b: "sweptBase d b \<or> b = ''WETH''" and n: "0 \<le> n" "asset = b \<Longrightarrow> n \<le> held w b"
  shows "legPosts d b w (if kindOf asset = Stable then spendStable d k n w else spendBase asset n w) (if asset = b then n else 0, 0)"
proof -
  have kb: "kindOf b = Base" using b weth_base by (auto simp: sweptBase_def)
  show ?thesis
    using spendBase_covered [OF cov] held_spendBase [OF cov, of b asset n] n covered_held(2) [OF cov b] kb cov
    by (auto simp: legPosts_def)
qed

lemma aave_posts:
  assumes cov: "covered d w" and b: "sweptBase d b \<or> b = ''WETH''"
    and ok: "bodyOk d ids (AaveOp t asset amt)"
    and check: "aaveValidate d obs w (AaveOp t asset amt) = Inr None"
    and spend: "aaveSpend d t asset amt w = Inr w'"
  shows "legPosts d b w w' (flow d obs b (held w b) (AaveOp t asset amt))"
proof (cases "t = AaveSupply \<or> t = AaveRepay")
  case False
  then show ?thesis
    using spend idle_posts [OF cov b] by (cases t) (auto simp: aaveSpend_def flow_def)
next
  case True
  let ?k = "toLower (usdcAddress d)"
  have kb: "b \<noteq> ''USDC''" "b \<noteq> ''LST''" using b weth_base usdc_not_base by (auto simp: sweptBase_def)
  show ?thesis
  proof (cases "amt = ''max''")
    case False
    then have dec: "isDecimal amt" using ok by auto
    have "asset = b \<Longrightarrow> amountOf amt \<le> held w b"
      using check False dec True kb covered_held(1) [OF cov b] by (auto simp: aaveValidate_def aaveBalance_def)
    then have "legPosts d b w (if kindOf asset = Stable then spendStable d ?k (amountOf amt) w else spendBase asset (amountOf amt) w)
        (if asset = b then amountOf amt else 0, 0)"
      by (intro aave_spend_posts [OF cov b]) auto
    moreover have "w' = (if kindOf asset = Stable then spendStable d ?k (amountOf amt) w else spendBase asset (amountOf amt) w)"
      using spend dec True False by (auto simp: aaveSpend_def Let_def)
    ultimately show ?thesis using True False by (auto simp: flow_def)
  next
    case max: True
    then have t: "t = AaveRepay" using ok True by auto
    define n where "n = (if kindOf asset = Stable then currentStable ?k w else baseBalanceOf w asset)"
    have w': "w' = (if kindOf asset = Stable then spendStable d ?k n w else spendBase asset n w)"
      using spend t max by (auto simp: aaveSpend_def Let_def n_def)
    show ?thesis
    proof (cases "asset = b")
      case True
      then have "n = held w b" using kb covered_held(1) [OF cov b] b weth_base by (auto simp: n_def sweptBase_def)
      then have "legPosts d b w w' (if asset = b then n else 0, 0)"
        unfolding w' using covered_held(2) [OF cov b] by (intro aave_spend_posts [OF cov b]) auto
      then show ?thesis using True t max \<open>n = held w b\<close> by (simp add: flow_def)
    next
      case False
      then show ?thesis
        using False t max idle_posts [OF cov b] spendBase_covered [OF cov, of asset n] held_spendBase [OF cov, of b asset n]
        by (auto simp: w' flow_def legPosts_def)
    qed
  qed
qed


lemma leg_posts:
  assumes cov: "covered d w" and b: "sweptBase d b \<or> b = ''WETH''" and ok: "bodyOk d ids a" and counted: "countedLeg a"
    and check: "adapterValidate d ids obs w (ownerOf a) a = Inr None" and spend: "applyLeafSpend d ids obs a w = Inr w'"
  shows "legPosts d b w w' (flow d obs b (held w b) a)"
proof (cases a)
  case (Swap t base amt s)
  have "checkSwap d Uniswap (uniStable d) w t base amt = Inr None"
    using check Swap by (auto simp: adapterValidate_def uniswapValidate_def split: option.splits)
  then show ?thesis using swap_posts [OF cov b] ok spend Swap by (simp add: applyLeafSpend_def flow_def)
next
  case (BalancerSwap t base amt s)
  then show ?thesis
    using swap_posts [OF cov b] ok check spend by (simp add: adapterValidate_def balancerValidate_def applyLeafSpend_def flow_def)
next
  case (CurveSwap t base amt s)
  then show ?thesis
    using swap_posts [OF cov b] ok check spend by (simp add: adapterValidate_def curveValidate_def applyLeafSpend_def flow_def)
next
  case (MintLiquidity base lo hi wa u ba qa s)
  let ?x = "case ba of Some x \<Rightarrow> x | None \<Rightarrow> wa" and ?q = "case qa of Some x \<Rightarrow> x | None \<Rightarrow> u"
  have dec: "isDecimal ?x" "isDecimal ?q" using ok MintLiquidity by (auto split: option.splits)
  obtain uni where "checkMint d uni w base lo hi ?x ?q = Inr None"
    using check MintLiquidity by (auto simp: adapterValidate_def uniswapValidate_def split: option.splits)
  moreover have "w' = spendStable d (toLower (usdcAddress d)) (amountOf ?q) (spendBase (orWeth base) (amountOf ?x) w)"
    using spend MintLiquidity dec by (simp add: applyLeafSpend_def)
  ultimately show ?thesis using mint_posts [OF cov b dec] MintLiquidity by (simp add: flow_def)
next
  case (StableSwap st t amt s)
  then have "covered d w' \<and> held w' b = held w b"
    using spend ok cov by (auto simp: applyLeafSpend_def stableSwapSpend_def Let_def split: option.splits)
  then show ?thesis using StableSwap covered_held(2) [OF cov b] by (simp add: legPosts_def flow_def)
next
  case (AaveOp t asset amt)
  then show ?thesis using aave_posts [OF cov b, of ids] ok check spend by (simp add: adapterValidate_def applyLeafSpend_def)
next
  case (LstDeposit amt)
  then have "w' = spendBase ''WETH'' (amountOf amt) w" "amountOf amt \<le> baseBalanceOf w ''WETH''"
    using check spend ok by (auto simp: adapterValidate_def lstValidate_def applyLeafSpend_def)
  then show ?thesis using weth_posts [OF cov b] LstDeposit by (simp add: flow_def)
next
  case (LstSwap t amt s)
  show ?thesis
  proof (cases "t = ''WETH''")
    case True
    then have "w' = spendBase ''WETH'' (amountOf amt) w" "amountOf amt \<le> baseBalanceOf w ''WETH''"
      using check spend ok LstSwap by (auto simp: adapterValidate_def lstValidate_def applyLeafSpend_def)
    then show ?thesis using weth_posts [OF cov b] LstSwap True by (simp add: flow_def)
  next
    case False
    then show ?thesis using spend LstSwap idle_posts [OF cov b] by (simp add: applyLeafSpend_def flow_def)
  qed
qed (use spend counted idle_posts [OF cov b] in \<open>auto simp: applyLeafSpend_def flow_def countedLeg_def\<close>)

section \<open>A bundle against the ledger\<close>

lemma checkItems_ledger:
  assumes "checkItems d ids obs bf bid i work acc items = Inr (Inr (out, w'))" "covered d work"
    and b: "sweptBase d b \<or> b = ''WETH''" and "\<forall>a \<in> set items. actionOk d ids a \<and> ownerOf (la_body a) \<in> set ids \<and> countedLeg (la_body a)"
  shows "ledger (\<lambda>h a. flow d obs b h (la_body a)) (held work b) items = Some (held w' b) \<and> covered d w'"
  using assms(1,2,4)
proof (induction items arbitrary: i work acc)
  case (Cons item items)
  have item: "actionOk d ids item" "adapterForAction d ids item = Inr (ownerOf (la_body item))"
    using Cons.prems(3) by (auto intro: adapterForAction_ok)
  obtain acc' work2 where step: "adapterValidate d ids obs work (ownerOf (la_body item)) (la_body item) = Inr None"
    "applyLeafSpend d ids obs (la_body item) work = Inr work2"
    "checkItems d ids obs bf bid (Suc i) work2 acc' items = Inr (Inr (out, w'))"
    using Cons.prems(1) by (auto simp: result_simps liftOwner_def item(2) split: if_splits option.splits sum.splits)
  have posts: "legPosts d b work work2 (flow d obs b (held work b) (la_body item))"
    using leg_posts [OF Cons.prems(2) b _ _ step(1,2)] item(1) Cons.prems(3) by (simp add: actionOk_def)
  have "ledger (\<lambda>h a. flow d obs b h (la_body a)) (held work2 b) items = Some (held w' b) \<and> covered d w'"
    using Cons.IH [OF step(3)] posts Cons.prems(3) by (simp add: legPosts_def)
  then show ?case using posts by (simp add: legPosts_def)
qed simp

lemma workingCopy_frames [simp]: "covered d (workingCopy w) = covered d w" "held (workingCopy w) b = held w b"
  by (simp_all add: workingCopy_def covered_def held_def)

text \<open>
  C26. The legs of an accepted bundle never draw more of a base than the wallet holds, when they are legs
  whose spending validation counts (swaps, liquidity, staking, Aave and the CDP's that post no
  collateral; not the CDP's that post collateral, nor a lending market's): on the ledger that starts
  from the wallet's holding, takes what each leg spends and adds what each swap is expected to bring, no
  leg is short, whatever the order. A bundle that holds an uncounted leg has no such promise
  (\<open>cdp_legs_not_counted\<close>).
\<close>

theorem bundle_refines_ledger:
  assumes "validateAction stringify d ids (Bundle as fee) obs bal = Inr (Accepted a is rs)"
    and "covered d bal" "sweptBase d b \<or> b = ''WETH''" "list_all (\<lambda>a. actionOk d ids a \<and> ownerOf (la_body a) \<in> set ids) as"
    and "list_all (\<lambda>a. countedLeg (la_body a)) as"
  shows "\<exists>h. ledger (\<lambda>h a. flow d obs b h (la_body a)) (held bal b) as = Some h \<and> 0 \<le> h"
proof -
  obtain bf bid where "validateLeafItems d ids (Bundle as fee) as obs bal bf bid = Inr (Accepted a is rs)"
    using assms(1) by (auto simp: validateAction_def result_simps split: if_splits)
  then obtain w where "checkItems d ids obs bf bid 0 (workingCopy bal) [] as = Inr (Inr (is, w))"
    using validateLeafItems_accepted by blast
  from checkItems_ledger [OF this _ assms(3)] assms(2,4,5)
  have "ledger (\<lambda>h a. flow d obs b h (la_body a)) (held bal b) as = Some (held w b) \<and> covered d w"
    by (simp add: list_all_iff)
  then show ?thesis using covered_held(2) assms(3) by blast
qed

section \<open>Legs that are not counted\<close>

text \<open>
  The CDP's legs take WETH and eUSD too, and are bundleable, but \<open>applyLeafSpend\<close> leaves them to its
  \<open>default\<close>, which its comment says consumes nothing: two of them pass over the same balance.
\<close>

definition cdpTrove :: troveObs where
  "cdpTrove = \<lparr>tv_status = 1, tv_collWei = 10 ^ 19, tv_debtEusdWei = 2000 * 10 ^ 18, tv_netDebtEusdWei = 1800 * 10 ^ 18\<rparr>"

definition cdpObs :: agentObservation where
  "cdpObs = \<lparr>ob_runId = ''r'', ob_round = 1, ob_fairPrice = Num 2000, ob_fairPricesUsd = None, ob_maxPriorityFee = 10,
     ob_defaultPriorityFee = 1, ob_uniswap = None, ob_balancer = None, ob_curve = None, ob_gmx = None, ob_lst = None,
     ob_liquity = Some \<lparr>lq_priceUsd = 2000, lq_recoveryMode = False, lq_mcr = 11 / 10, lq_ccr = 3 / 2, lq_borrowingRateBps = 50,
       lq_minNetDebtEusdWei = 1800 * 10 ^ 18, lq_gasCompensationEusdWei = 200 * 10 ^ 18, lq_eusdBalanceWei = 0, lq_spDepositEusdWei = 0,
       lq_spEthGainWei = 0, lq_trove = Some cdpTrove\<rparr>, ob_lending = None\<rparr>"

definition cdpBalances :: balanceSnapshot where
  "cdpBalances = \<lparr>bs_ethWei = 0, bs_wethWei = 7, bs_usdcUnits = 0, bs_bases = Some [(''WETH'', 7)], bs_stables = None\<rparr>"

definition topUp :: leafAction where
  "topUp = leaf (LiquityAdjustTrove (Some ''7'') None None None None) None"

lemma topUp_ok: "actionOk forkDeployment [Liquity] topUp" "ownerOf (la_body topUp) = Liquity"
  by (simp_all add: topUp_def actionOk_def isDecimal_def isDigit_def)

lemma topUp_checked: "adapterValidate forkDeployment [Liquity] cdpObs (workingCopy cdpBalances) Liquity (la_body topUp) = Inr None"
  by (simp add: adapterValidate_def liquityValidate_def topUp_def checkAdjust_def activeTrove_def cdpObs_def cdpTrove_def amountOr0_def
      isDecimal_def isDigit_def amountOf_def undec_def workingCopy_def cdpBalances_def baseBalanceOf_def adjustedTroveCheck_def
      repaid_def drawn_def newColl_def newDebt_def borrowingFeeEusdWei_def crOf_def Let_def)

text \<open>
  Two top-ups of 7 wei pass over a balance of 7 wei, though on the ledger that counts them the second
  is short.
\<close>

lemma cdp_legs_not_counted:
  "(\<exists>is w. checkItems forkDeployment [Liquity] cdpObs None None 0 (workingCopy cdpBalances) [] [topUp, topUp] = Inr (Inr (is, w)) \<and> length is = 2)
    \<and> ledger (\<lambda>h a. flow forkDeployment cdpObs ''WETH'' h (la_body a)) (held cdpBalances ''WETH'') [topUp, topUp] = None"
proof
  have "adapterForAction forkDeployment [Liquity] topUp = Inr Liquity"
    using adapterForAction_ok [OF topUp_ok(1)] topUp_ok(2) by simp
  moreover have "applyLeafSpend forkDeployment [Liquity] cdpObs (la_body topUp) (workingCopy cdpBalances) = Inr (workingCopy cdpBalances)"
    by (simp add: applyLeafSpend_def topUp_def)
  moreover have "feeWei cdpObs (la_priorityFee topUp) = Inr 1" "ob_maxPriorityFee cdpObs = 10"
    by (simp_all add: feeWei_def topUp_def cdpObs_def)
  ultimately show "\<exists>is w. checkItems forkDeployment [Liquity] cdpObs None None 0 (workingCopy cdpBalances) [] [topUp, topUp]
      = Inr (Inr (is, w)) \<and> length is = 2" using topUp_checked by (simp add: liftOwner_def)
  have "amountOf ''7'' = 7" by (simp add: amountOf_def undec_def)
  then show "ledger (\<lambda>h a. flow forkDeployment cdpObs ''WETH'' h (la_body a)) (held cdpBalances ''WETH'') [topUp, topUp] = None"
    by (simp add: flow_def topUp_def amountOr0_def held_def cdpBalances_def getOr_def)
qed


section \<open>Applied\<close>

definition deposit :: "string \<Rightarrow> leafAction" where
  "deposit n = leaf (LstDeposit n) None"

lemma deposit_ok: "isDecimal n \<Longrightarrow> actionOk d ids (deposit n)" "ownerOf (la_body (deposit n)) = Lst"
  by (simp_all add: deposit_def actionOk_def)

lemma digit_amounts: "isDecimal ''3''" "isDecimal ''4''" "amountOf ''3'' = 3" "amountOf ''4'' = 4"
  by (simp_all add: isDecimal_def isDigit_def amountOf_def undec_def)

lemma fork_market_weth: "marketFor forkDeployment p b \<noteq> None \<Longrightarrow> b = ''WETH''"
  by (cases p) (auto simp: marketFor_def marketsFor_def forkDeployment_def forkLegs_def plainMarket_def split: if_splits)

lemma cdpBalances_covered: "covered forkDeployment cdpBalances"
proof -
  have "sweptBase forkDeployment b \<Longrightarrow> b = ''WETH''" for b
    using fork_market_weth by (auto simp: sweptBase_def)
  then show ?thesis by (auto simp: covered_def cdpBalances_def)
qed

lemma deposits_accepted:
  "validateAction stringify forkDeployment [Lst] (Bundle [deposit ''3'', deposit ''4''] None) cdpObs cdpBalances
   = Inr (Accepted (Bundle [deposit ''3'', deposit ''4''] None)
       [intentOf (Some (bundleIdOf stringify cdpObs (Bundle [deposit ''3'', deposit ''4''] None))) 0 (deposit ''3'') Lst 1,
        intentOf (Some (bundleIdOf stringify cdpObs (Bundle [deposit ''3'', deposit ''4''] None))) 1 (deposit ''4'') Lst 1] [])"
proof -
  have own: "isDecimal n \<Longrightarrow> adapterForAction forkDeployment [Lst] (deposit n) = Inr Lst" for n
    using adapterForAction_ok [OF deposit_ok(1) [of n forkDeployment "[Lst]"]] deposit_ok(2) by simp
  have spend: "applyLeafSpend forkDeployment [Lst] cdpObs (la_body (deposit n)) w = Inr (spendBase ''WETH'' (amountOf n) w)"
    if "isDecimal n" for n w using that by (simp add: applyLeafSpend_def deposit_def)
  have fee: "feeWei cdpObs (la_priorityFee (deposit n)) = Inr 1" "ob_maxPriorityFee cdpObs = 10" for n
    by (simp_all add: feeWei_def deposit_def cdpObs_def)
  have check: "adapterValidate forkDeployment [Lst] cdpObs w Lst (la_body (deposit n)) = Inr None"
    if "isDecimal n" "0 < amountOf n" "amountOf n \<le> baseBalanceOf w ''WETH''" for n w
    using that by (simp add: adapterValidate_def lstValidate_def deposit_def)
  have bal: "baseBalanceOf (workingCopy cdpBalances) ''WETH'' = 7" "baseBalanceOf (spendBase ''WETH'' 3 (workingCopy cdpBalances)) ''WETH'' = 4"
    by (simp_all add: baseBalanceOf_def workingCopy_def cdpBalances_def spendBase_def onKey_def lessFloor_def)
  show ?thesis
    using check [of "''3''" "workingCopy cdpBalances"] check [of "''4''" "spendBase ''WETH'' 3 (workingCopy cdpBalances)"]
      own [OF digit_amounts(1)] own [OF digit_amounts(2)] spend [OF digit_amounts(1)] spend [OF digit_amounts(2)]
    by (simp add: validateAction_def validateLeafItems_def fee digit_amounts liftOwner_def bal)
qed

lemma accepted_action_sent_witness:
  "map vi_bundleIndex [intentOf (Some (bundleIdOf (\<lambda>_. []) cdpObs (Bundle [deposit ''3'', deposit ''4''] None))) 0 (deposit ''3'') Lst 1,
     intentOf (Some (bundleIdOf (\<lambda>_. []) cdpObs (Bundle [deposit ''3'', deposit ''4''] None))) 1 (deposit ''4'') Lst 1] = [Some 0, Some 1]"
  using accepted_action_sent [OF deposits_accepted [of "\<lambda>_. []"]] by (simp add: bundleIdFor_def)

lemma bundle_refines_ledger_witness:
  "\<exists>h. ledger (\<lambda>h a. flow forkDeployment cdpObs ''WETH'' h (la_body a)) 7 [deposit ''3'', deposit ''4''] = Some h \<and> 0 \<le> h"
  using bundle_refines_ledger [OF deposits_accepted [of "\<lambda>_. []"] cdpBalances_covered, of "''WETH''"]
  by (simp add: deposit_ok digit_amounts held_def cdpBalances_def getOr_def countedLeg_def deposit_def actionOk_def del: ledger.simps)

end
