(* ===== verification/Action_Safety.thy ===== *)
theory Action_Safety
  imports Bundle_Ledger
begin

text \<open>
  From an untrusted object to a checked action: what parsing promises of every action, raw
  transactions included, that checking a parsed action never throws, and what the CDP and GMX checks
  leave the agent with.
\<close>

section \<open>What parsing promises\<close>

definition rawOk :: "rawTx \<Rightarrow> bool" where
  "rawOk t \<longleftrightarrow> isHex (rt_data t) \<and> decOpt (rt_value t)
     \<and> (case rt_to t of None \<Rightarrow> 2 < length (rt_data t) | Some s \<Rightarrow> isHex s)"

definition legOk :: "deployment \<Rightarrow> protocolId list \<Rightarrow> leafAction \<Rightarrow> bool" where
  "legOk d ids a \<longleftrightarrow> actionOk d ids a \<and> ownerOf (la_body a) \<in> set ids"

definition agentActionOk :: "deployment \<Rightarrow> protocolId list \<Rightarrow> agentAction \<Rightarrow> bool" where
  "agentActionOk d ids a =
     (case a of
        Noop _ \<Rightarrow> True
      | LeafAction l \<Rightarrow> legOk d ids l
      | Bundle as fee \<Rightarrow> list_all (\<lambda>l. legOk d ids l \<and> ownerOf (la_body l) \<noteq> Gmx) as \<and> decOpt fee
      | RawTx t fee \<Rightarrow> rawOk t \<and> decOpt fee
      | RawBundle ts fee \<Rightarrow> ts \<noteq> [] \<and> list_all rawOk ts \<and> decOpt fee)"

lemma liftField_Inr [simp]: "liftField r = Inr x \<longleftrightarrow> r = Inr x"
  by (simp add: liftField_def split: sum.split)

lemma liftAction_Inr [simp]: "liftAction r = Inr x \<longleftrightarrow> r = Inr x"
  by (simp add: liftAction_def split: sum.split)

lemma addPriorityFee_Inr: "addPriorityFee ob = Inr fee \<Longrightarrow> decOpt fee"
  by (simp add: addPriorityFee_def parse_iff)

lemma hexField_iff: "hexField ob k e = Inr s \<longleftrightarrow> jget ob k = JStr s \<and> isHex s"
  by (auto simp: hexField_def split: json.splits)

lemma parseRawTx_ok: "parseRawTx ob = Inr t \<Longrightarrow> rawOk t"
  by (auto simp: parseRawTx_def rawOk_def result_simps parse_iff hexField_iff split: if_splits)

lemma mapR_all: "mapR f xs = Inr ys \<Longrightarrow> (\<And>x y. f x = Inr y \<Longrightarrow> P y) \<Longrightarrow> list_all P ys"
  by (auto simp: mapR_Inr_iff list_all_iff dest: list_all2_right)

lemma parseRawItem_ok: "parseRawItem e = Inr t \<Longrightarrow> rawOk t"
  by (auto simp: parseRawItem_def intro: parseRawTx_ok split: option.splits)

lemma parseBundleItem_ok:
  assumes "parseBundleItem d ids e = Inr l"
  shows "legOk d ids l \<and> ownerOf (la_body l) \<noteq> Gmx"
proof -
  obtain item p where "parseLeafAction d ids item = Inr l" "adapterForAction d ids l = Inr p" "bundleable p"
    using assms by (auto simp: parseBundleItem_def result_simps split: option.splits)
  then show ?thesis
    using parsed_leaf_ok [of d ids item l] adapterForAction_ok [of d ids l] by (auto simp: legOk_def bundleable_def)
qed

text \<open>
  C22. Every action that parses is well formed, whatever the object it came from: each leg's amounts
  are decimal, its slippage in range, its market, stable and asset exist and its venue is enabled; no
  bundle holds a GMX order; a raw transaction has hex data, a decimal value, a hex address, or no
  address and then creation code; and every priority fee is decimal.
\<close>

theorem parsed_actions_ok:
  assumes "parseAction d ids raw = Inr a"
  shows "agentActionOk d ids a"
proof -
  obtain ob where ob: "asObject raw = Some ob" using assms by (auto simp: parseAction_def split: option.splits)
  have legs: "agentActionOk d ids a" if "parseBundleAction d ids ob = Inr a"
    using that mapR_all [OF _ parseBundleItem_ok]
    by (auto simp: parseBundleAction_def agentActionOk_def result_simps addPriorityFee_Inr split: json.splits)
  have raws: "agentActionOk d ids a" if "parseRawBundleAction ob = Inr a"
    using that mapR_all [OF _ parseRawItem_ok] mapR_length [of parseRawItem]
    by (auto simp: parseRawBundleAction_def agentActionOk_def result_simps addPriorityFee_Inr split: json.splits) fastforce
  have raw: "agentActionOk d ids a" if "parseRawTxAction ob = Inr a"
    using that parseRawTx_ok
    by (auto simp: parseRawTxAction_def agentActionOk_def result_simps addPriorityFee_Inr split: option.splits)
  show ?thesis
    using assms legs raws raw parsed_leaf_ok [of d ids ob]
    by (auto simp: parseAction_def ob result_simps legOk_def split: if_splits) (simp_all add: agentActionOk_def legOk_def)
qed

section \<open>Checking never throws\<close>

definition tokensListed :: "deployment \<Rightarrow> bool" where
  "tokensListed d \<longleftrightarrow> (\<forall>s. s \<in> {''WETH'', ''USDC''} \<or> list_ex (\<lambda>p. marketFor d p s \<noteq> None) [Uniswap, Balancer, Curve, Gmx]
     \<longrightarrow> (\<exists>t. map_of (dep_tokens d) s = Some t \<and> td_decimals t \<le> 30))"

text \<open>
  Numbers \<open>BigInt\<close> takes. Of a GMX market: a price that is not infinite and whose millionths are a
  finite double, a leverage that is neither zero nor \<open>NaN\<close> nor so small that its inverse overflows, and
  a PnL that does not overflow. (A price that is \<open>NaN\<close> or not positive is judged by no market.)
\<close>

definition fits :: "real \<Rightarrow> bool" where
  "fits x \<longleftrightarrow> \<bar>x\<bar> < 2 ^ 1024"

definition positionFits :: "gmxPositionObs \<Rightarrow> bool" where
  "positionFits p = (case (gp_pnlUsd p, case gp_fundingOwedUsd p of Some f \<Rightarrow> f | None \<Rightarrow> Num 0) of
     (Num x, Num y) \<Rightarrow> fits ((x - y) * 1000000) | _ \<Rightarrow> True)"

definition marketFits :: "gmxMarketObs \<Rightarrow> bool" where
  "marketFits m \<longleftrightarrow>
     (case go_marketPriceUsd m of Num x \<Rightarrow> fits (x * 1000000) | PosInf \<Rightarrow> False | _ \<Rightarrow> True)
     \<and> (case go_maxLeverage m of Some (Num l) \<Rightarrow> l \<noteq> 0 \<and> fits (10 ^ 12 / l) | Some NaN \<Rightarrow> False | _ \<Rightarrow> True)
     \<and> list_all positionFits (case go_positions m of Some ps \<Rightarrow> ps | None \<Rightarrow> (case go_position m of Some p \<Rightarrow> [p] | None \<Rightarrow> []))"

definition gmxNumbersFit :: "agentObservation \<Rightarrow> bool" where
  "gmxNumbersFit obs = (case ob_gmx obs of None \<Rightarrow> True | Some g \<Rightarrow>
     list_all marketFits (gx_market g # (case gx_markets g of None \<Rightarrow> [] | Some ms \<Rightarrow> map snd ms)))"

text \<open>Of a swap: an estimated output that is a finite double at each step, at the venue's price.\<close>

definition swapFits :: "deployment \<Rightarrow> agentObservation \<Rightarrow> protocolId \<Rightarrow> string \<Rightarrow> string option \<Rightarrow> string \<Rightarrow> bool" where
  "swapFits d obs p t base amount = (let
      n = real_of_int (amountOf amount); scale = 10 ^ decimalsOf d (orWeth base)
    in case swapVenuePrice obs p (orWeth base) of
         Num x \<Rightarrow> 0 < x \<longrightarrow> fits n \<and>
           (if t = orWeth base then fits (n / scale * x) \<and> fits (n / scale * x * 1000000)
            else fits (n / 1000000 / x) \<and> fits (n / 1000000 / x * scale))
       | PosInf \<Rightarrow> t \<noteq> orWeth base \<and> fits n
       | _ \<Rightarrow> True)"

definition estimateFits :: "deployment \<Rightarrow> agentObservation \<Rightarrow> leafBody \<Rightarrow> bool" where
  "estimateFits d obs a = (case a of
     Swap t b amt _ \<Rightarrow> swapFits d obs Uniswap t b amt
   | BalancerSwap t b amt _ \<Rightarrow> swapFits d obs Balancer t b amt
   | CurveSwap t b amt _ \<Rightarrow> swapFits d obs Curve t b amt
   | _ \<Rightarrow> True)"

lemma ofReal_fits: "fits x \<Longrightarrow> ofReal x = Num x"
  by (simp add: fits_def ofReal_small)

lemma fits_div: "fits x \<Longrightarrow> 1 \<le> y \<Longrightarrow> fits (x / y)"
proof -
  assume x: "fits x" and y: "1 \<le> y"
  have "\<bar>x\<bar> / y \<le> \<bar>x\<bar> / 1" by (rule divide_left_mono) (use y in simp_all)
  then show ?thesis using x y by (simp add: fits_def abs_divide)
qed

lemma isOk_checked [simp]: "isOk rest \<Longrightarrow> isOk (refuseIf c r rest)" "isOk accept"
  by (simp_all add: refuseIf_def accept_def)

lemma isOk_bind_dec: "isDecimal s \<Longrightarrow> isOk (f (amountOf s)) \<Longrightarrow> isOk (bindR (bigOf s) f)"
  by simp

lemma checkSwap_returns:
  assumes "poolSwapOk d p t b amt s" "\<And>m. marketFor d p (orWeth b) = Some m \<Longrightarrow> isOk (stableLeg m)"
  shows "isOk (checkSwap d p stableLeg bal t b amt)"
proof -
  obtain m where m: "marketFor d p (orWeth b) = Some m" using assms(1) by (auto simp: poolSwapOk_def venueBase_def)
  then obtain s where "stableLeg m = Inr s" using assms(2) by (auto simp: isOk_iff)
  then show ?thesis using assms(1) m by (simp add: checkSwap_def poolSwapOk_def)
qed

lemma mint_amounts: "bodyOk d ids (MintLiquidity b lo hi w u ba qa s) \<Longrightarrow>
    isDecimal (case ba of Some x \<Rightarrow> x | None \<Rightarrow> w) \<and> isDecimal (case qa of Some x \<Rightarrow> x | None \<Rightarrow> u)"
  by (auto split: option.splits)

lemma ownedPosition_returns: "(\<And>l. isOk (f l)) \<Longrightarrow> isOk (ownedPosition uni t f)"
  by (simp add: ownedPosition_def split: option.split)

lemma uniswap_returns: "bodyOk d ids a \<Longrightarrow> ownerOf a = Uniswap \<Longrightarrow> isOk (uniswapValidate d obs bal a)"
proof (cases a)
  case (MintLiquidity b lo hi w u ba qa s)
  then show "bodyOk d ids a \<Longrightarrow> isOk (uniswapValidate d obs bal a)"
    using mint_amounts [of d ids b lo hi w u ba qa s]
    by (auto simp: uniswapValidate_def checkMint_def split: option.split)
qed (auto simp: uniswapValidate_def uniStable_def intro!: checkSwap_returns ownedPosition_returns split: option.split)

lemma balancer_returns: "bodyOk d ids a \<Longrightarrow> ownerOf a = Balancer \<Longrightarrow> isOk (balancerValidate d bal a)"
  by (cases a) (auto simp: balancerValidate_def balStable_def intro!: checkSwap_returns dest: marketFor_balancer_leg)

lemma curve_returns: "bodyOk d ids a \<Longrightarrow> ownerOf a = Curve \<Longrightarrow> isOk (curveValidate d ids bal a)"
  by (cases a) (auto simp: curveValidate_def curveStable_def validateStableSwap_def intro!: checkSwap_returns dest: marketFor_curve_leg
      split: option.split)

lemma aave_returns: "bodyOk d ids a \<Longrightarrow> ownerOf a = Aave \<Longrightarrow> isOk (aaveValidate d obs bal a)"
  by (cases a) (auto simp: aaveValidate_def)

lemma lst_returns: "bodyOk d ids a \<Longrightarrow> ownerOf a = Lst \<Longrightarrow> isOk (lstValidate obs bal a)"
  by (cases a) (auto simp: lstValidate_def withLst_def split: option.split)

lemma zero_decimal [simp]: "isDecimal ''0''"
  by (simp add: isDecimal_def isDigit_def)

lemma amountOr0_decimal: "decOpt v \<Longrightarrow> isDecimal (amountOr0 v)"
  by (cases v) (simp_all add: amountOr0_def)

lemma liquity_returns: "bodyOk d ids a \<Longrightarrow> ownerOf a = Liquity \<Longrightarrow> isOk (liquityValidate obs bal a)"
  by (cases a) (auto simp: liquityValidate_def withLiquity_def activeTrove_def checkOpen_def checkAdjust_def checkEusd_def checkWithdrawSP_def
      checkSwapEusd_def adjustedTroveCheck_def Let_def amountOr0_decimal split: option.split)

lemma lending_returns: "isOk (lendingValidate obs a)"
  by (cases a) (auto simp: lendingValidate_def split: option.split)


lemma isOk_bind_pure: "isOk (bindR r (\<lambda>x. Inr (f x))) = isOk r"
  by (cases r) simp_all

lemma leverage_fits:
  assumes "marketFits m"
  shows "isOk (roundOr (dDiv (Num (10 ^ 12)) (case go_maxLeverage m of Some l \<Rightarrow> l | None \<Rightarrow> Num GMX_MAX_LEVERAGE)))"
proof (cases "go_maxLeverage m")
  case None
  have "fits (10 ^ 12 / GMX_MAX_LEVERAGE)"
  proof -
    have "(10 :: real) ^ 12 * (198 / 1000) < 2 ^ 40" by simp
    also have "\<dots> \<le> (2 :: real) ^ 1024" by (rule power_increasing) simp_all
    finally show ?thesis by (simp add: fits_def GMX_MAX_LEVERAGE_def)
  qed
  then show ?thesis using None by (simp add: roundOr_def ofReal_fits GMX_MAX_LEVERAGE_def)
next
  case (Some l)
  then show ?thesis using assms by (cases l) (auto simp: marketFits_def roundOr_def ofReal_fits)
qed

lemma observedMarket_returns:
  assumes "ti_decimals info \<le> 30" "marketFits m" "dPos (go_marketPriceUsd m)"
  shows "isOk (observedMarket info m)"
proof -
  have "fits (1000000 :: real)"
  proof -
    have "(1000000 :: real) < 2 ^ 20" by simp
    also have "\<dots> \<le> (2 :: real) ^ 1024" by (rule power_increasing) simp_all
    finally show ?thesis by (simp add: fits_def)
  qed
  then have one: "isOk (toGmxPrice (Num 1) (ti_decimals info))"
    using assms(1) by (simp add: toGmxPrice_def roundOr_def ofReal_fits)
  have "isOk (toGmxPrice (go_marketPriceUsd m) (ti_decimals info))"
    using assms by (cases "go_marketPriceUsd m") (auto simp: toGmxPrice_def roundOr_def ofReal_fits marketFits_def)
  then have "isOk (toGmxPrice (if ti_kind info = Stable then Num 1 else go_marketPriceUsd m) (ti_decimals info))"
    using one by simp
  then show ?thesis using leverage_fits [OF assms(2)]
    by (auto simp: observedMarket_def Let_def isOk_iff)
qed

lemma find_all: "list_all P xs \<Longrightarrow> find Q xs = Some x \<Longrightarrow> P x"
  by (auto simp: find_Some_iff list_all_length)

lemma finite_difference: "dFinite (dSub a b) \<Longrightarrow> \<exists>x y. a = Num x \<and> b = Num y"
  by (cases a; cases b) (auto simp: infinity_def split: if_splits)

lemma observedPosition_returns:
  assumes "marketFits m"
  shows "isOk (observedPosition m a)"
proof -
  have "isOk (usdOf (dSub (gp_pnlUsd p) (case gp_fundingOwedUsd p of Some f \<Rightarrow> f | None \<Rightarrow> Num 0)))" if "positionFits p" for p
  proof -
    have fine: "fits (x - y)" if "fits ((x - y) * 1000000)" for x y
      using fits_div [OF that, of 1000000] by (simp only: nonzero_mult_div_cancel_right)
    show ?thesis
    proof (cases "dFinite (dSub (gp_pnlUsd p) (case gp_fundingOwedUsd p of Some f \<Rightarrow> f | None \<Rightarrow> Num 0))")
      case True
      then obtain x y where xy: "gp_pnlUsd p = Num x" "(case gp_fundingOwedUsd p of Some f \<Rightarrow> f | None \<Rightarrow> Num 0) = Num y"
        using finite_difference by blast
      then have "fits ((x - y) * 1000000)" using that by (simp add: positionFits_def)
      then show ?thesis using fine xy by (simp add: usdOf_def roundOr_def ofReal_fits)
    qed (simp add: usdOf_def)
  qed
  moreover have "list_all positionFits (case go_positions m of Some ps \<Rightarrow> ps | None \<Rightarrow> (case go_position m of Some p \<Rightarrow> [p] | None \<Rightarrow> []))"
    using assms by (simp add: marketFits_def)
  ultimately show ?thesis
    unfolding observedPosition_def Let_def using find_all [of positionFits]
    by (auto simp: isOk_bind_pure split: option.split)
qed

lemma marketObsFor_fits:
  assumes "gmxNumbersFit obs" "ob_gmx obs = Some g" "marketObsFor d g base = Some m"
  shows "marketFits m"
proof -
  have "m \<in> set (gx_market g # (case gx_markets g of None \<Rightarrow> [] | Some ms \<Rightarrow> map snd ms))"
    using assms(3) by (auto simp: marketObsFor_def dest: map_of_SomeD split: if_splits option.splits) (metis image_eqI map_of_SomeD snd_conv)+
  then show ?thesis using assms(1,2) by (auto simp: gmxNumbersFit_def list_all_iff)
qed

lemma gmx_collateral_listed:
  assumes "tokensListed d" "gmxOrderOk d b c s amt p" "c \<in> set (gmxAllowedCollateral (orWeth b))"
  shows "\<exists>t. map_of (dep_tokens d) c = Some t \<and> td_decimals t \<le> 30"
proof -
  have "c \<in> {''WETH'', ''USDC''} \<or> marketFor d Gmx c \<noteq> None"
    using assms(2,3) by (cases b) (auto simp: gmxAllowedCollateral_def gmxOrderOk_def orWeth_def hasGmxLeg_def split: if_splits option.splits)
  then show ?thesis using assms(1) unfolding tokensListed_def by auto
qed

lemma gmxOrder_returns:
  assumes "tokensListed d" "gmxNumbersFit obs" "gmxOrderOk d b c s amt p"
  shows "isOk (validateGmxOrder d obs bal (gmxOrderOf inc l b c s amt))"
proof (cases "c \<in> set (gmxAllowedCollateral (orWeth b))")
  case False
  then show ?thesis by (simp add: validateGmxOrder_def gmxOrderOf_def refuseIf_def)
next
  case True
  let ?a = "gmxOrderOf inc l b c s amt"
  have dec: "isDecimal s" "isDecimal amt" using assms(3) by (auto simp: gmxOrderOk_def)
  obtain t where t: "map_of (dep_tokens d) c = Some t" "td_decimals t \<le> 30" using gmx_collateral_listed [OF assms(1,3) True] by blast
  then obtain info where info: "tokenInfo d c = Inr info" "ti_decimals info \<le> 30" by (simp add: tokenInfo_def)
  have cap: "isOk (observedCapRefusal d obs ?a)"
  proof (cases "ob_gmx obs")
    case (Some g)
    show ?thesis
    proof (cases "marketObsFor d g (orWeth b)")
      case m: (Some m)
      note fit = marketObsFor_fits [OF assms(2) Some m]
      obtain pos where pos: "observedPosition m ?a = Inr pos" using observedPosition_returns [OF fit] by (auto simp: isOk_iff)
      show ?thesis
        using observedMarket_returns [OF info(2) fit] dec info(1) Some m pos
        by (auto simp: observedCapRefusal_def gmxOrderOf_def isOk_bind_pure Let_def)
    qed (simp add: observedCapRefusal_def Some gmxOrderOf_def)
  qed (simp add: observedCapRefusal_def)
  then obtain r where r: "observedCapRefusal d obs ?a = Inr r" by (auto simp: isOk_iff)
  have "isOk (checkCollateral d bal ?a rest)" if "isOk rest" for rest
    using that dec by (simp add: checkCollateral_def gmxOrderOf_def)
  moreover have "isOk (case r of None \<Rightarrow> accept | Some c \<Rightarrow> Inr (Some (OverCap c)))" by (simp split: option.split)
  ultimately show ?thesis
    using dec r True by (simp add: validateGmxOrder_def gmxOrderOf_def)
qed

lemma gmx_returns:
  assumes "tokensListed d" "gmxNumbersFit obs" "bodyOk d ids a" "ownerOf a = Gmx"
  shows "isOk (gmxValidate d obs bal a)"
  using assms gmxOrder_returns [OF assms(1,2)]
  by (cases a) (auto simp: gmxValidate_def validateCancel_def split: option.split)

lemma adapterValidate_returns:
  assumes "tokensListed d" "gmxNumbersFit obs" "bodyOk d ids a"
  shows "isOk (adapterValidate d ids obs bal (ownerOf a) a)"
  using assms uniswap_returns balancer_returns curve_returns aave_returns lst_returns liquity_returns lending_returns gmx_returns
  unfolding adapterValidate_def by (cases "ownerOf a") auto

lemma floorBig_fits: "fits x \<Longrightarrow> floorBig (ofReal x) \<noteq> None"
  by (simp add: ofReal_fits)

lemma stableOut_returns:
  assumes "fits (of_int n)" "fits (of_int n / 10 ^ k * x)" "fits (of_int n / 10 ^ k * x * 1000000)"
  shows "stableOut n k (Num x) \<noteq> None"
proof -
  have "fits (of_int n / 10 ^ k)" using fits_div [OF assms(1), of "10 ^ k"] by simp
  then show ?thesis using assms by (simp add: stableOut_def ofBig_def ofReal_fits)
qed

lemma baseOut_returns:
  assumes "fits (of_int n)" "fits (of_int n / 1000000 / x)" "fits (of_int n / 1000000 / x * 10 ^ k)" "0 < x"
  shows "baseOut n k (Num x) \<noteq> None"
proof -
  have "fits (of_int n / 1000000)" using fits_div [OF assms(1), of 1000000] by simp
  then show ?thesis using assms by (simp add: baseOut_def ofBig_def ofReal_fits)
qed

lemma baseOut_at_infinity: "fits (of_int n) \<Longrightarrow> baseOut n k PosInf \<noteq> None"
  using fits_div [of "of_int n" 1000000] by (simp add: baseOut_def ofBig_def ofReal_fits fits_def)

lemma swap_out_returns:
  assumes "swapFits d obs p t base amount" "dPos (swapVenuePrice obs p (orWeth base))"
  shows "(if t = orWeth base then stableOut (amountOf amount) (decimalsOf d (orWeth base)) (swapVenuePrice obs p (orWeth base))
    else baseOut (amountOf amount) (decimalsOf d (orWeth base)) (swapVenuePrice obs p (orWeth base))) \<noteq> None"
proof (cases "swapVenuePrice obs p (orWeth base)")
  case (Num x)
  have pos: "0 < x" using assms(2) by (simp add: Num)
  note fit = assms(1) [unfolded swapFits_def Let_def Num jsdouble.case, rule_format, OF pos]
  show ?thesis
  proof (cases "t = orWeth base")
    case True
    then show ?thesis using stableOut_returns [OF conjunct1 [OF fit]] fit by (simp only: Num simp_thms if_True)
  next
    case False
    then show ?thesis using baseOut_returns [OF conjunct1 [OF fit]] fit pos by (simp only: Num simp_thms if_False)
  qed
next
  case PosInf
  then show ?thesis using assms baseOut_at_infinity by (simp add: swapFits_def Let_def)
qed (use assms(2) in simp_all)

lemma swapSpend_returns:
  assumes "tokensListed d" "poolSwapOk d p t b amt s" "p \<in> {Uniswap, Balancer, Curve}" "swapFits d obs p t b amt"
  shows "isOk (swapSpend d obs p t b amt w)"
proof -
  have "list_ex (\<lambda>p. marketFor d p (orWeth b) \<noteq> None) [Uniswap, Balancer, Curve, Gmx]"
    using assms(2,3) by (auto simp: poolSwapOk_def venueBase_def)
  then obtain tk where tk: "map_of (dep_tokens d) (orWeth b) = Some tk" using assms(1) unfolding tokensListed_def by blast
  then obtain info where info: "tokenInfo d (orWeth b) = Inr info" "ti_decimals info = decimalsOf d (orWeth b)"
    by (simp add: tokenInfo_def decimalsOf_def)
  define price where "price = swapVenuePrice obs p (orWeth b)"
  have out: "\<exists>k. (if t = orWeth b then stableOut (amountOf amt) (ti_decimals info) price
      else baseOut (amountOf amt) (ti_decimals info) price) = Some k" if "dPos price"
    using swap_out_returns [OF assms(4)] that by (auto simp: info(2) price_def)
  have dec: "isDecimal amt" using assms(2) by (simp add: poolSwapOk_def)
  show ?thesis
  proof (cases "dPos price")
    case True
    then show ?thesis using dec info(1) out
      by (cases "t = orWeth b") (auto simp: swapSpend_def Let_def credited_def simp flip: price_def)
  next
    case False
    then show ?thesis using dec info(1) by (simp add: swapSpend_def Let_def credited_def flip: price_def)
  qed
qed

lemma aaveSpend_returns: "bodyOk d ids (AaveOp t asset amt) \<Longrightarrow> isOk (aaveSpend d t asset amt w)"
  by (cases t) (auto simp: aaveSpend_def Let_def)

lemma applyLeafSpend_returns:
  assumes "tokensListed d" "bodyOk d ids a" "estimateFits d obs a"
  shows "isOk (applyLeafSpend d ids obs a w)"
proof (cases a)
  case (MintLiquidity b lo hi wa u ba qa s)
  then show ?thesis using assms(2) mint_amounts [of d ids b lo hi wa u ba qa s] by (simp add: applyLeafSpend_def)
next
  case (AaveOp t asset amt)
  then show ?thesis using assms(2) aaveSpend_returns [of d ids t asset amt] by (simp add: applyLeafSpend_def)
qed (use assms(2,3) in \<open>simp_all add: applyLeafSpend_def stableSwapSpend_def estimateFits_def swapSpend_returns [OF assms(1)]\<close>)

lemma feeWei_returns: "decOpt fee \<Longrightarrow> isOk (feeWei obs fee)"
  by (cases fee) (simp_all add: feeWei_def)

lemma checkItems_returns:
  assumes "tokensListed d" "gmxNumbersFit obs" "list_all (\<lambda>l. legOk d ids l \<and> estimateFits d obs (la_body l)) items"
  shows "isOk (checkItems d ids obs bf bid i work acc items)"
  using assms(3)
proof (induction items arbitrary: i work acc)
  case (Cons item items)
  have item: "bodyOk d ids (la_body item)" "decOpt (la_priorityFee item)" "adapterForAction d ids item = Inr (ownerOf (la_body item))"
    using Cons.prems adapterForAction_ok [of d ids item] by (auto simp: legOk_def actionOk_def)
  obtain fee where fee: "(case bf of Some f \<Rightarrow> Inr f | None \<Rightarrow> feeWei obs (la_priorityFee item)) = Inr fee"
    using feeWei_returns [OF item(2)] by (cases bf) (auto simp: isOk_iff)
  obtain r where r: "adapterValidate d ids obs work (ownerOf (la_body item)) (la_body item) = Inr r"
    using adapterValidate_returns [OF assms(1,2) item(1)] by (auto simp: isOk_iff)
  obtain w where w: "applyLeafSpend d ids obs (la_body item) work = Inr w"
    using applyLeafSpend_returns [OF assms(1) item(1)] Cons.prems by (auto simp: isOk_iff)
  show ?case
    using Cons.IH Cons.prems by (simp add: fee item(3) liftOwner_def r w split: option.split)
qed simp

text \<open>
  C24. A parsed action is checked without an exception, whatever the agent's balances, when three things
  hold of the run: the deployment lists the tokens it trades; the GMX numbers of the observation are
  ones \<open>BigInt\<close> takes (a finite price, a leverage that is not zero); and every swap leg's estimated
  output is a finite double at the observed price. It is then accepted or refused with a reason, so
  nothing else an agent writes in an action stops its runtime at the check.
\<close>

theorem parsed_action_never_throws:
  assumes "agentActionOk d ids a" "tokensListed d" "gmxNumbersFit obs"
    and "list_all (\<lambda>l. estimateFits d obs (la_body l)) (legsOf a)"
  shows "isOk (validateAction stringify d ids a obs bal)"
proof -
  have items: "isOk (validateLeafItems d ids orig as obs bal bf bid)"
    if legs: "list_all (legOk d ids) as" "list_all (\<lambda>l. estimateFits d obs (la_body l)) as" for orig as bf bid
  proof -
    have "list_all (\<lambda>l. legOk d ids l \<and> estimateFits d obs (la_body l)) as" using legs by (simp add: list_all_iff)
    from checkItems_returns [OF assms(2,3) this, of bf bid 0 "workingCopy bal" "[]"]
    obtain r where "checkItems d ids obs bf bid 0 (workingCopy bal) [] as = Inr r" by (auto simp: isOk_iff)
    then show ?thesis by (auto simp: validateLeafItems_def split: option.split sum.split)
  qed
  show ?thesis
  proof (cases a)
    case (Bundle as fee)
    then have "list_all (legOk d ids) as" "decOpt fee" "list_all (\<lambda>l. estimateFits d obs (la_body l)) as"
      using assms(1,4) by (auto simp: agentActionOk_def list_all_iff legsOf_def)
    then show ?thesis using items Bundle by (cases fee) (simp_all add: validateAction_def)
  next
    case (RawTx t fee)
    then show ?thesis using assms(1) feeWei_returns [of fee obs]
      by (auto simp: validateAction_def validateRawTxAction_def agentActionOk_def isOk_bindR isOk_iff)
  next
    case (RawBundle ts fee)
    then show ?thesis using assms(1) feeWei_returns [of fee obs]
      by (auto simp: validateAction_def validateRawBundleAction_def agentActionOk_def isOk_bindR isOk_iff)
  qed (use assms(1,4) items in \<open>simp_all add: validateAction_def agentActionOk_def legsOf_def\<close>)
qed


section \<open>What the CDP and GMX checks leave\<close>

lemma crOf_floor: "0 < debt \<Longrightarrow> lowest \<le> crOf coll debt price \<longleftrightarrow> lowest * of_int debt \<le> of_int coll * price"
  by (simp add: crOf_def divide_simps)

text \<open>What an adjustment leaves of a Trove, in the run's mode.\<close>

definition troveSafe :: "liquityObs \<Rightarrow> troveObs \<Rightarrow> troveChange \<Rightarrow> bool" where
  "troveSafe l t change \<longleftrightarrow>
     0 \<le> newColl t change \<and> tv_debtEusdWei t - tv_netDebtEusdWei t \<le> newDebt l t change
     \<and> (if lq_recoveryMode l then tc_withdraw change \<le> 0
          \<and> (0 < drawn change \<and> 0 < newDebt l t change \<longrightarrow>
               lq_ccr l * of_int (newDebt l t change) \<le> of_int (newColl t change) * lq_priceUsd l
               \<and> crOf (tv_collWei t) (tv_debtEusdWei t) (lq_priceUsd l) \<le> crOf (newColl t change) (newDebt l t change) (lq_priceUsd l))
        else 0 < newDebt l t change \<longrightarrow> lq_mcr l * of_int (newDebt l t change) \<le> of_int (newColl t change) * lq_priceUsd l)"

lemma borrowingFee_nonneg: "0 \<le> lq_borrowingRateBps l \<Longrightarrow> 0 \<le> borrowingFeeEusdWei n l"
proof -
  assume "0 \<le> lq_borrowingRateBps l"
  then have "0 \<le> bigRound (lq_borrowingRateBps l * 10 ^ 14)" by (simp add: bigRound_def)
  then show ?thesis
    by (auto simp: borrowingFeeEusdWei_def WAD_def sdiv_nonneg pos_imp_zdiv_nonneg_iff)
qed

text \<open>
  An adjustment the runtime sends leaves a Trove the chain will not refuse on what was observed:
  collateral not below zero, debt not below the gas compensation, and a ratio at least the minimum;
  in Recovery Mode no collateral comes out and new debt leaves the ratio at least the critical one and
  no lower than before. The ratio counts the borrowing fee.
\<close>

theorem adjusted_trove_safe:
  assumes "liquityValidate obs bal (LiquityAdjustTrove a w c inc fee) = Inr None" "decOpt a" "decOpt w" "decOpt c"
    and "ob_liquity obs = Some l" "lq_trove l = Some t" "0 \<le> lq_borrowingRateBps l"
    and "change = \<lparr>tc_add = amountOf (amountOr0 a), tc_withdraw = amountOf (amountOr0 w), tc_debtChange = amountOf (amountOr0 c),
      tc_isDebtIncrease = (inc = Some True)\<rparr>"
  shows "troveSafe l t change"
proof -
  have check: "adjustedTroveCheck l t change = Inr None" "tc_withdraw change \<le> tv_collWei t" "0 \<le> tc_add change" "0 \<le> tc_debtChange change"
    using assms(1-6,8) by (auto simp: liquityValidate_def checkAdjust_def activeTrove_def amountOr0_decimal)
  have debt: "tv_debtEusdWei t - tv_netDebtEusdWei t \<le> newDebt l t change"
    using check(1,4) borrowingFee_nonneg [OF assms(7), of "drawn change"]
    by (auto simp: adjustedTroveCheck_def newDebt_def drawn_def repaid_def split: if_splits)
  have coll: "0 \<le> newColl t change" using check(2,3) by (simp add: newColl_def)
  show ?thesis
  proof (cases "lq_recoveryMode l")
    case True
    then show ?thesis
      using check(1) coll debt crOf_floor [of "newDebt l t change" "lq_ccr l" "newColl t change" "lq_priceUsd l"]
      by (auto simp: troveSafe_def adjustedTroveCheck_def Let_def not_less)
  next
    case False
    then show ?thesis
      using check(1) coll debt crOf_floor [of "newDebt l t change" "lq_mcr l" "newColl t change" "lq_priceUsd l"]
      by (auto simp: troveSafe_def adjustedTroveCheck_def Let_def not_less)
  qed
qed

lemma withinCap_at_runtime:
  assumes "gmxCapRefusal use GMX_RUNTIME_CAP_USE own = None" "use = gmxCapUse order position market" "use = Some u" "0 \<le> co_sizeDeltaUsd order"
  shows "withinCap u (cm_minCollateralFactor market) (Some (sideFactor order market)) \<and> (\<exists>c. cu_capUse u = Some c \<and> c \<le> 9 / 10)"
proof -
  obtain c where "cu_capUse u = Some c" "c \<le> 9 / 10"
    using assms(1,3) by (auto simp: gmxCapRefusal_def GMX_RUNTIME_CAP_USE_def split: option.splits if_splits)
  then show ?thesis using gmxCapUse_within [of order position market u c] assms(2-4) by auto
qed

text \<open>
  An increase the runtime sends stays within nine tenths of the leverage cap at the observed
  price, on its own collateral and on the position it adds to, which then meets the exchange's own
  equity and collateral requirement there.
\<close>

theorem sent_increase_within_cap:
  assumes "gmxValidate d obs bal (GmxIncrease isLong b coll s amt p) = Inr None" "isDecimal s" "isDecimal amt"
    and "ob_gmx obs = Some g" "marketObsFor d g (orWeth b) = Some m" "dPos (go_marketPriceUsd m)"
    and "a = gmxOrderOf True isLong b coll s amt" "tokenInfo d coll = Inr info" "observedMarket info m = Inr market"
    and "observedPosition m a = Inr position" "0 < cm_minCollateralFactor market"
    and "order = \<lparr>co_kind = Increase, co_sizeDeltaUsd = amountOf s, co_collateralDeltaAmount = amountOf amt\<rparr>"
  shows "case (gmxCapUse order None market, gmxCapUse order position market) of
      (Some own, Some u) \<Rightarrow> list_all (\<lambda>v. withinCap v (cm_minCollateralFactor market) (Some (sideFactor order market))
          \<and> (\<exists>c. cu_capUse v = Some c \<and> c \<le> 9 / 10)) [own, u]
    | _ \<Rightarrow> False"
proof -
  have pos: "0 < amountOf s" and cap: "observedCapRefusal d obs a = Inr None"
    using assms(1-3,7) by (auto simp: gmxValidate_def validateGmxOrder_def gmxOrderOf_def checkCollateral_def isOk_bind_pure
        bindR_eq_Inr split: if_splits option.splits)
  have none: "gmxCapRefusal (gmxOwnCapUse order market) GMX_RUNTIME_CAP_USE True = None"
    "gmxCapRefusal (gmxCapUse order position market) GMX_RUNTIME_CAP_USE False = None"
    using cap assms(2-10,12) by (auto simp: observedCapRefusal_def gmxOrderOf_def Let_def split: option.splits)
  have own: "gmxOwnCapUse order market = gmxCapUse order None market" by (simp add: gmxOwnCapUse_def assms(12))
  obtain u v where uv: "gmxCapUse order None market = Some u" "gmxCapUse order position market = Some v"
    using assms(11,12) pos by (auto simp: gmxCapUse_def increaseUse_def Let_def)
  have "0 \<le> co_sizeDeltaUsd order" using pos assms(12) by simp
  then show ?thesis
    using withinCap_at_runtime [OF none(1) own] withinCap_at_runtime [OF none(2) refl] uv own by simp
qed


section \<open>Applied\<close>

lemma parsed_actions_ok_witness:
  "\<exists>a. parseAction forkDeployment [Uniswap] (JObj swapObj) = Inr a \<and> agentActionOk forkDeployment [Uniswap] a"
proof -
  have p: "parseAction forkDeployment [Uniswap] (JObj swapObj) = Inr (LeafAction (leaf (Swap ''USDC'' None ''2500'' (Some 50)) None))"
    by (simp add: parseAction_def asObject_def swapObj_gets swapObj_parsed liftAction_def)
  then show ?thesis using parsed_actions_ok [OF p] by blast
qed

lemma fork_lists_tokens: "tokensListed forkDeployment"
proof -
  have "s = ''WETH''" if "list_ex (\<lambda>p. marketFor forkDeployment p s \<noteq> None) [Uniswap, Balancer, Curve, Gmx]" for s
    using that fork_market_weth by auto
  then show ?thesis unfolding tokensListed_def by (auto simp: forkDeployment_def forkTokens_def)
qed

lemma deposit_estimate: "estimateFits d obs (la_body (deposit n))"
  by (simp add: estimateFits_def deposit_def)

lemma parsed_action_never_throws_witness:
  "isOk (validateAction (\<lambda>_. []) forkDeployment [Lst] (Bundle [deposit ''3'', deposit ''4''] None) cdpObs cdpBalances)"
  by (rule parsed_action_never_throws)
    (simp_all add: fork_lists_tokens gmxNumbersFit_def cdpObs_def agentActionOk_def legOk_def deposit_ok digit_amounts
      legsOf_def deposit_estimate)

definition topUpChange :: troveChange where
  "topUpChange = \<lparr>tc_add = 7, tc_withdraw = 0, tc_debtChange = 0, tc_isDebtIncrease = False\<rparr>"

lemma adjusted_trove_safe_witness: "troveSafe (the (ob_liquity cdpObs)) cdpTrove topUpChange"
proof (rule adjusted_trove_safe)
  show "liquityValidate cdpObs (workingCopy cdpBalances) (LiquityAdjustTrove (Some ''7'') None None None None) = Inr None"
    using topUp_checked by (simp add: adapterValidate_def topUp_def)
  show "topUpChange = \<lparr>tc_add = amountOf (amountOr0 (Some ''7'')), tc_withdraw = amountOf (amountOr0 None),
      tc_debtChange = amountOf (amountOr0 None), tc_isDebtIncrease = (None = Some True)\<rparr>"
    by (simp add: topUpChange_def amountOr0_def amountOf_def undec_def)
qed (simp_all add: cdpObs_def cdpTrove_def isDecimal_def isDigit_def)


definition perpMarket :: gmxMarketObs where
  "perpMarket = \<lparr>go_marketPriceUsd = Num 2000, go_position = None, go_positions = None, go_maxLeverage = Some (Num 5)\<rparr>"

definition perpObs :: agentObservation where
  "perpObs = cdpObs\<lparr>ob_gmx := Some \<lparr>gx_market = perpMarket, gx_markets = None, gx_orders = None\<rparr>\<rparr>"

definition perpAction :: gmxAction where
  "perpAction = gmxOrderOf True True None ''USDC'' ''4000000000000000000000000000000000'' ''1000000000''"

definition perpOrder :: gmxCapOrder where
  "perpOrder = \<lparr>co_kind = Increase, co_sizeDeltaUsd = 4000 * 10 ^ 30, co_collateralDeltaAmount = 1000000000\<rparr>"

definition perpCap :: gmxCapMarket where
  "perpCap = \<lparr>cm_collateralPrice = 10 ^ 24, cm_minCollateralFactor = 200000000000 * 10 ^ 18, cm_oiMultiplierFactor = None,
     cm_openInterestUsd = None, cm_feeFactor = 6 * 10 ^ 26, cm_maxImpactFactorForLiquidations = None\<rparr>"

lemma perp_digits: "isDecimal ''4000000000000000000000000000000000''" "isDecimal ''1000000000''"
  "amountOf ''4000000000000000000000000000000000'' = 4000 * 10 ^ 30" "amountOf ''1000000000'' = 1000000000"
  by (simp_all add: isDecimal_def isDigit_def amountOf_def undec_def)

lemma small_fits: "\<bar>x\<bar> \<le> 2 ^ 50 \<Longrightarrow> ofReal x = Num x"
proof -
  assume "\<bar>x\<bar> \<le> 2 ^ 50"
  also have "(2 :: real) ^ 50 < 2 ^ 1024" by (rule power_strict_increasing) simp_all
  finally show ?thesis by (rule ofReal_small)
qed

definition usdcInfo :: tokenInfo where
  "usdcInfo = (case tokenInfo forkDeployment ''USDC'' of Inr i \<Rightarrow> i)"

lemma perp_token: "tokenInfo forkDeployment ''USDC'' = Inr usdcInfo" "ti_kind usdcInfo = Stable" "ti_decimals usdcInfo = 6"
  by (simp_all add: usdcInfo_def tokenInfo_def forkDeployment_def forkTokens_def kindOf_def STABLE_SYMBOLS_def)

lemma perp_market: "observedMarket usdcInfo perpMarket = Inr perpCap"
  by (simp add: observedMarket_def perpMarket_def perp_token toGmxPrice_def roundOr_def small_fits sdiv_nonneg perpCap_def
      GMX_ASSUMED_POSITION_FEE_FACTOR_def)

lemma perp_held: "observedPosition perpMarket a = Inr None"
  by (simp add: observedPosition_def perpMarket_def)

lemma perp_share:
  "applyFactor (4000 * 10 ^ 30) (6 * 10 ^ 26) = 24 * 10 ^ 29" "applyFactor (4000 * 10 ^ 30) (200000000000 * 10 ^ 18) = 800 * 10 ^ 30"
  "applyFactor (4000 * 10 ^ 30) 0 = 0"
  "share (800 * 10 ^ 30) (9976 * 10 ^ 29) = Some (160384923817 / 200000000000)"
  "share (800 * 10 ^ 30) (9952 * 10 ^ 29) = Some (8038585209 / 10000000000)"
  by (simp_all add: applyFactor_def share_def FLOAT_PRECISION_def SHARE_PRECISION_def sdiv_nonneg)

lemma perp_use: "\<exists>u c. gmxCapUse perpOrder None perpCap = Some u \<and> cu_capUse u = Some c \<and> c \<le> 9 / 10"
proof -
  have after: "(1000000000 :: int) * 10 ^ 24 - 24 * 10 ^ 29 = 9976 * 10 ^ 29" "(9976 :: int) * 10 ^ 29 - 24 * 10 ^ 29 = 9952 * 10 ^ 29" by simp_all
  have "cu_capUse (capResult (4000 * 10 ^ 30) (200000000000 * 10 ^ 18) (Some (9976 * 10 ^ 29, 200000000000 * 10 ^ 18)) (9952 * 10 ^ 29))
      = Some (max (8038585209 / 10000000000) (160384923817 / 200000000000))"
    unfolding capResult_def Let_def prod.case option.case perp_share(2) perp_share(4,5) by (simp add: shareMax_def)
  moreover have "gmxCapUse perpOrder None perpCap
      = Some (capResult (4000 * 10 ^ 30) (200000000000 * 10 ^ 18) (Some (9976 * 10 ^ 29, 200000000000 * 10 ^ 18)) (9952 * 10 ^ 29))"
    unfolding gmxCapUse_def increaseUse_def perpOrder_def perpCap_def openPosition_def Let_def equityOf_def oiFactor_def or0_def
    by (simp only: gmxCapOrder.simps gmxCapMarket.simps orderKind.case option.case if_True refl add_0_left add_0_right
        diff_zero perp_share after) simp
  moreover have "max (8038585209 / 10000000000) (160384923817 / 200000000000) \<le> (9 / 10 :: real)" by simp
  ultimately show ?thesis by blast
qed

lemma perp_accepted:
  "gmxValidate forkDeployment perpObs (cdpBalances\<lparr>bs_usdcUnits := 1000000000\<rparr>)
     (GmxIncrease True None ''USDC'' ''4000000000000000000000000000000000'' ''1000000000'' None) = Inr None"
proof -
  obtain u c where u: "gmxCapUse perpOrder None perpCap = Some u" "cu_capUse u = Some c" "c \<le> 9 / 10" using perp_use by blast
  have order: "\<lparr>co_kind = Increase, co_sizeDeltaUsd = amountOf ''4000000000000000000000000000000000'', co_collateralDeltaAmount = amountOf ''1000000000''\<rparr> = perpOrder"
    by (simp add: perpOrder_def perp_digits)
  have own: "gmxOwnCapUse perpOrder m = gmxCapUse perpOrder None m" for m by (simp add: gmxOwnCapUse_def perpOrder_def)
  have "observedCapRefusal forkDeployment perpObs perpAction = Inr None"
    using perp_market unfolding observedCapRefusal_def
    by (simp add: perpObs_def marketObsFor_def perpAction_def gmxOrderOf_def orWeth_def perp_digits(1,2) order own u perp_token(1) perp_held
        gmxCapRefusal_def GMX_RUNTIME_CAP_USE_def Let_def) (use u(3) in \<open>simp add: perpMarket_def u\<close>)
  then show ?thesis
    by (simp add: gmxValidate_def validateGmxOrder_def perpAction_def gmxOrderOf_def orWeth_def gmxAllowedCollateral_def perp_digits
        checkCollateral_def stableBalanceOf_def cdpBalances_def)
qed

lemma sent_increase_within_cap_witness:
  "\<exists>u. gmxCapUse perpOrder None perpCap = Some u \<and> withinCap u (200000000000 * 10 ^ 18) (Some (sideFactor perpOrder perpCap))"
proof -
  have "case (gmxCapUse perpOrder None perpCap, gmxCapUse perpOrder None perpCap) of
      (Some own, Some u) \<Rightarrow> list_all (\<lambda>v. withinCap v (cm_minCollateralFactor perpCap) (Some (sideFactor perpOrder perpCap))
          \<and> (\<exists>c. cu_capUse v = Some c \<and> c \<le> 9 / 10)) [own, u]
    | _ \<Rightarrow> False"
  proof (rule sent_increase_within_cap [OF perp_accepted perp_digits(1,2) _ _ _ _ perp_token(1) perp_market perp_held])
    show "ob_gmx perpObs = Some \<lparr>gx_market = perpMarket, gx_markets = None, gx_orders = None\<rparr>" by (simp add: perpObs_def)
    show "marketObsFor forkDeployment \<lparr>gx_market = perpMarket, gx_markets = None, gx_orders = None\<rparr> (orWeth None) = Some perpMarket"
      by (simp add: marketObsFor_def orWeth_def)
  qed (simp_all add: perpMarket_def perpAction_def perpCap_def perpOrder_def perp_digits)
  then show ?thesis by (auto simp: perpCap_def split: option.splits)
qed

end
