(* ===== verification/Stress_Events.thy ===== *)
theory Stress_Events
  imports Prelude
begin

text \<open>
  The market stress overlay (\<open>core/src/realtime/events.ts\<close>): what an event of a schedule is, its
  trapezoid envelope, and everything the schedule answers about a block: the price overlay, the
  depth and depeg targets the coordinator reconciles venues against, the change of the price walk,
  the lean of the order flow, the point events of a caught-up range and the token launches' cumulative
  targets. Block counts are \<open>int\<close>, every other number is \<open>real\<close>. How a schedule is drawn is in
  \<open>Stress_Schedule\<close>, how its configuration is read in \<open>Stress_Config\<close>.
\<close>

section \<open>Events\<close>

datatype stressEventType =
  Spike | Crash | LstSlash | Whale | LiquidityPull | EusdDepeg | Depeg | CexDrift | VolBurst |
  FlowTrend | TokenLaunch

datatype eventKind = OverlayKind | PointKind | StateKind | ProcessKind

fun EVENT_KIND :: "stressEventType \<Rightarrow> eventKind" where
  "EVENT_KIND Spike = OverlayKind"
| "EVENT_KIND Crash = OverlayKind"
| "EVENT_KIND LstSlash = PointKind"
| "EVENT_KIND Whale = PointKind"
| "EVENT_KIND LiquidityPull = StateKind"
| "EVENT_KIND EusdDepeg = StateKind"
| "EVENT_KIND Depeg = StateKind"
| "EVENT_KIND CexDrift = ProcessKind"
| "EVENT_KIND VolBurst = ProcessKind"
| "EVENT_KIND FlowTrend = ProcessKind"
| "EVENT_KIND TokenLaunch = ProcessKind"

definition isPointEvent :: "stressEventType \<Rightarrow> bool" where
  "isPointEvent t \<longleftrightarrow> EVENT_KIND t = PointKind"

definition isPriceOverlay :: "stressEventType \<Rightarrow> bool" where
  "isPriceOverlay t \<longleftrightarrow> EVENT_KIND t = OverlayKind"

datatype side = Buy | Sell

datatype whaleVenue = UniswapVenue | BalancerVenue | CurveVenue

record resolvedTokenLaunch =
  rl_index :: nat
  rl_liquidityUsdc :: real
  rl_waveUsdcMult :: real
  rl_waveBlockUsdcMult :: "real option"
  rl_dud :: bool
  rl_sellBackFrac :: real
  rl_priceCeilingMult :: "real option"
  rl_rampBlocks :: "int option"

record resolvedStressEvent =
  ev_type :: stressEventType
  ev_base :: string
  ev_stable :: "string option"
  ev_magnitude :: real
  ev_side :: "side option"
  ev_kappaMult :: "real option"
  ev_persist :: bool
  ev_repriceAnchor :: bool
  ev_trendCorrelation :: "real option"
  ev_persistBlocks :: "real option"
  ev_venue :: "whaleVenue option"
  ev_launches :: "resolvedTokenLaunch list option"
  ev_startBlock :: int
  ev_rampBlocks :: int
  ev_holdBlocks :: int
  ev_decayBlocks :: int
  ev_endBlock :: int
  ev_flippedFrom :: "stressEventType option"
  ev_recoverFrac :: "real option"

definition TOKEN_LAUNCH_LEAD_BLOCKS :: int where "TOKEN_LAUNCH_LEAD_BLOCKS = 2"

section \<open>The envelope\<close>

definition stressEnvelope :: "resolvedStressEvent \<Rightarrow> int \<Rightarrow> real" where
  "stressEnvelope ev blockIndex = (let
      t = blockIndex - ev_startBlock ev;
      r = ev_rampBlocks ev; h = ev_holdBlocks ev; d = ev_decayBlocks ev;
      residual = (case ev_recoverFrac ev of None \<Rightarrow> 0 | Some f \<Rightarrow> 1 - f)
    in if t < 0 then 0
       else if t < r then (if r = 0 then 1 else of_int (t + 1) / of_int r)
       else if t < r + h then 1
       else if ev_persist ev then 1
       else if t < r + h + d
       then (if d = 0 then 1 else 1 - ((1 - residual) * of_int (t - (r + h) + 1)) / of_int d)
       else residual)"

text \<open>A window as the schedule makes them: no negative segment, a recovered share of at most one.\<close>

definition wellShaped :: "resolvedStressEvent \<Rightarrow> bool" where
  "wellShaped ev \<longleftrightarrow> 0 \<le> ev_rampBlocks ev \<and> 0 \<le> ev_holdBlocks ev \<and> 0 \<le> ev_decayBlocks ev \<and>
    (case ev_recoverFrac ev of None \<Rightarrow> True | Some f \<Rightarrow> 0 \<le> f \<and> f \<le> 1)"

lemma ramp_share:
  assumes "0 \<le> t" "t < (r :: int)"
  shows "0 < (of_int (t + 1) / of_int r :: real)" "(of_int (t + 1) / of_int r :: real) \<le> 1"
  using assms by (simp_all add: field_simps flip: of_int_add)

lemma decay_share:
  assumes "0 \<le> x" "x \<le> (1 :: real)" "0 \<le> t" "t < (d :: int)"
  shows "0 \<le> 1 - ((1 - x) * of_int (t + 1)) / of_int d" "1 - ((1 - x) * of_int (t + 1)) / of_int d \<le> 1"
    "x \<le> 1 - ((1 - x) * of_int (t + 1)) / of_int d"
proof -
  have s: "0 \<le> (of_int (t + 1) / of_int d :: real)" "(of_int (t + 1) / of_int d :: real) \<le> 1"
    using ramp_share [OF assms(3,4)] by simp_all
  have "(1 - x) * (of_int (t + 1) / of_int d) \<le> (1 - x) * 1"
    by (rule mult_left_mono [OF s(2)]) (use assms(2) in simp)
  moreover have "0 \<le> (1 - x) * (of_int (t + 1) / of_int d)"
    by (rule mult_nonneg_nonneg [OF _ s(1)]) (use assms(2) in simp)
  ultimately show "0 \<le> 1 - ((1 - x) * of_int (t + 1)) / of_int d" "1 - ((1 - x) * of_int (t + 1)) / of_int d \<le> 1"
    "x \<le> 1 - ((1 - x) * of_int (t + 1)) / of_int d"
    using assms(1) by simp_all
qed

lemma envelope_range:
  assumes "wellShaped ev"
  shows "0 \<le> stressEnvelope ev b" "stressEnvelope ev b \<le> 1"
proof -
  define t where "t = b - ev_startBlock ev"
  define x where "x = (case ev_recoverFrac ev of None \<Rightarrow> 0 | Some f \<Rightarrow> 1 - f)"
  have x: "0 \<le> x" "x \<le> 1" using assms by (auto simp: x_def wellShaped_def split: option.splits)
  have "0 \<le> stressEnvelope ev b \<and> stressEnvelope ev b \<le> 1"
    using ramp_share [of t "ev_rampBlocks ev"] x
      decay_share [OF x, of "t - (ev_rampBlocks ev + ev_holdBlocks ev)" "ev_decayBlocks ev"]
    by (auto simp: stressEnvelope_def Let_def simp flip: t_def x_def)
  then show "0 \<le> stressEnvelope ev b" "stressEnvelope ev b \<le> 1" by simp_all
qed

section \<open>What the schedule answers\<close>

definition hasEvents :: "resolvedStressEvent list \<Rightarrow> bool" where
  "hasEvents events \<longleftrightarrow> length events > 0"

definition hasLiquidityPull :: "resolvedStressEvent list \<Rightarrow> bool" where
  "hasLiquidityPull events \<longleftrightarrow> list_ex (\<lambda>ev. ev_type ev = LiquidityPull) events"

definition hasEusdDepeg :: "resolvedStressEvent list \<Rightarrow> bool" where
  "hasEusdDepeg events \<longleftrightarrow> list_ex (\<lambda>ev. ev_type ev = EusdDepeg) events"

text \<open>A \<open>Set\<close> iterates in the order its elements were first added.\<close>

definition addSeen :: "'a list \<Rightarrow> 'a \<Rightarrow> 'a list" where
  "addSeen s a = (if a \<in> set s then s else s @ [a])"

definition depegStables :: "resolvedStressEvent list \<Rightarrow> string list" where
  "depegStables events = foldl (\<lambda>seen ev. case ev_stable ev of
      None \<Rightarrow> seen
    | Some s \<Rightarrow> if ev_type ev \<noteq> Depeg \<or> s = [] then seen else addSeen seen s) [] events"

definition depegFractionAt :: "resolvedStressEvent list \<Rightarrow> string \<Rightarrow> int \<Rightarrow> real" where
  "depegFractionAt events stableSym blockIndex = foldl (\<lambda>sold ev.
      if ev_type ev \<noteq> Depeg \<or> ev_stable ev \<noteq> Some stableSym then sold
      else let e = stressEnvelope ev blockIndex in
        if e = 0 then sold else sold + ev_magnitude ev * e) 0 events"

definition eusdDepegFractionAt :: "resolvedStressEvent list \<Rightarrow> int \<Rightarrow> real" where
  "eusdDepegFractionAt events blockIndex = foldl (\<lambda>sold ev.
      if ev_type ev \<noteq> EusdDepeg then sold
      else let e = stressEnvelope ev blockIndex in
        if e = 0 then sold else sold + ev_magnitude ev * e) 0 events"

definition liquidityPullBases :: "resolvedStressEvent list \<Rightarrow> string list" where
  "liquidityPullBases events =
    foldl addSeen [] (map ev_base (filter (\<lambda>ev. ev_type ev = LiquidityPull) events))"

definition liquidityPullVenues ::
  "resolvedStressEvent list \<Rightarrow> (whaleVenue \<Rightarrow> string) \<Rightarrow> string list \<Rightarrow> string list" where
  "liquidityPullVenues events nameOf enabled = (let
      asked = map ev_venue (filter (\<lambda>ev. ev_type ev = LiquidityPull) events)
    in if None \<in> set asked then enabled
       else filter (\<lambda>v. v \<in> set (map (\<lambda>a. nameOf (the a)) asked)) enabled)"

definition inWindow :: "resolvedStressEvent \<Rightarrow> int \<Rightarrow> bool" where
  "inWindow ev blockIndex \<longleftrightarrow> blockIndex \<ge> ev_startBlock ev \<and> blockIndex < ev_endBlock ev"

definition activeIn :: "resolvedStressEvent list \<Rightarrow> int \<Rightarrow> (stressEventType \<Rightarrow> bool) \<Rightarrow> resolvedStressEvent option" where
  "activeIn events blockIndex accept =
    List.find (\<lambda>ev. accept (ev_type ev) \<and> inWindow ev blockIndex) events"

definition activeEventAt :: "resolvedStressEvent list \<Rightarrow> int \<Rightarrow> resolvedStressEvent option" where
  "activeEventAt events blockIndex = activeIn events blockIndex (\<lambda>_. True)"

definition activePriceEventAt :: "resolvedStressEvent list \<Rightarrow> int \<Rightarrow> resolvedStressEvent option" where
  "activePriceEventAt events blockIndex = activeIn events blockIndex isPriceOverlay"

definition pointEventsAt :: "resolvedStressEvent list \<Rightarrow> int \<Rightarrow> int \<Rightarrow> resolvedStressEvent list" where
  "pointEventsAt events fromIndex toIndex = filter (\<lambda>ev.
    isPointEvent (ev_type ev) \<and> ev_startBlock ev \<ge> fromIndex \<and> ev_startBlock ev \<le> toIndex) events"

text \<open>A \<open>Record\<close> of multipliers by base: the factor of an event, layered on what is there or on 1.\<close>

definition layer :: "(string \<times> real) list \<Rightarrow> string \<Rightarrow> real \<Rightarrow> (string \<times> real) list" where
  "layer m base factor = AList.update base (getOr 1 m base * factor) m"

definition depthMultiplierAt :: "resolvedStressEvent list \<Rightarrow> int \<Rightarrow> (string \<times> real) list" where
  "depthMultiplierAt events blockIndex = foldl (\<lambda>byBase ev.
      if ev_type ev \<noteq> LiquidityPull then byBase
      else let e = stressEnvelope ev blockIndex in
        if e = 0 then byBase else layer byBase (ev_base ev) (1 - ev_magnitude ev * e)) [] events"

record ouOverride =
  ov_driftAdd :: real
  ov_kappaMult :: real
  ov_vol :: "(real \<times> real) option"

text \<open>\<open>vol\<close> is the pair of the peak and the envelope.\<close>

definition ouOverrideOne :: "int \<Rightarrow> string \<Rightarrow> ouOverride \<Rightarrow> resolvedStressEvent \<Rightarrow> ouOverride" where
  "ouOverrideOne blockIndex base ov ev =
    (if ev_base ev \<noteq> base then ov
     else if ev_type ev = VolBurst then
       (let e = stressEnvelope ev blockIndex in
        if e = 0 then ov
        else if (case ov_vol ov of None \<Rightarrow> True
                 | Some (peak, envelope) \<Rightarrow> ev_magnitude ev * e > peak * envelope)
        then ov\<lparr>ov_vol := Some (ev_magnitude ev, e)\<rparr> else ov)
     else if ev_type ev \<noteq> CexDrift then ov
     else (let e = stressEnvelope ev blockIndex in
        if e = 0 then ov
        else ov\<lparr>ov_driftAdd := ov_driftAdd ov +
                  (if ev_side ev = Some Sell then - 1 else 1) * ev_magnitude ev * e,
                ov_kappaMult := (case ev_kappaMult ev of
                    None \<Rightarrow> ov_kappaMult ov
                  | Some k \<Rightarrow> ov_kappaMult ov * (1 + (k - 1) * e))\<rparr>))"

definition ouOverrideAt :: "resolvedStressEvent list \<Rightarrow> int \<Rightarrow> string \<Rightarrow> ouOverride" where
  "ouOverrideAt events blockIndex base = foldl (ouOverrideOne blockIndex base)
    \<lparr>ov_driftAdd = 0, ov_kappaMult = 1, ov_vol = None\<rparr> events"

text \<open>The steps a drift has taken up to a block, multiplied together.\<close>

definition driftSteps :: "resolvedStressEvent \<Rightarrow> int \<Rightarrow> real \<Rightarrow> real" where
  "driftSteps ev blockIndex acc = (let
      sign = (if ev_side ev = Some Sell then - 1 else 1);
      last = min blockIndex (ev_endBlock ev - 1)
    in foldl (\<lambda>acc t. acc * (1 + sign * ev_magnitude ev * stressEnvelope ev t)) acc
         [ev_startBlock ev..last])"

definition anchorMultiplierAt :: "resolvedStressEvent list \<Rightarrow> int \<Rightarrow> string \<Rightarrow> real" where
  "anchorMultiplierAt events blockIndex base = foldl (\<lambda>acc ev.
      if ev_type ev \<noteq> CexDrift \<or> \<not> ev_repriceAnchor ev then acc
      else if ev_base ev \<noteq> base then acc
      else driftSteps ev blockIndex acc) 1 events"

record flowTrendOverride =
  ft_sizeMult :: real
  ft_trendCorrelation :: "real option"
  ft_persistBlocks :: "real option"

definition maxOpt :: "real option \<Rightarrow> real option \<Rightarrow> real option" where
  "maxOpt cur new = (case new of None \<Rightarrow> cur
     | Some x \<Rightarrow> Some (max (case cur of None \<Rightarrow> 0 | Some c \<Rightarrow> c) x))"

definition flowTrendAt :: "resolvedStressEvent list \<Rightarrow> int \<Rightarrow> flowTrendOverride" where
  "flowTrendAt events blockIndex = foldl (\<lambda>ft ev.
      if ev_type ev \<noteq> FlowTrend then ft
      else let e = stressEnvelope ev blockIndex in
        if e = 0 then ft
        else \<lparr>ft_sizeMult = ft_sizeMult ft * (1 + (ev_magnitude ev - 1) * e),
              ft_trendCorrelation = maxOpt (ft_trendCorrelation ft) (ev_trendCorrelation ev),
              ft_persistBlocks = maxOpt (ft_persistBlocks ft) (ev_persistBlocks ev)\<rparr>)
    \<lparr>ft_sizeMult = 1, ft_trendCorrelation = None, ft_persistBlocks = None\<rparr> events"

record overlayState =
  os_wethMult :: real
  os_usdcPx :: real
  os_baseMults :: "(string \<times> real) list"

definition overlaySign :: "resolvedStressEvent \<Rightarrow> real" where
  "overlaySign ev = (if ev_type ev = Crash then - 1 else 1)"

definition overlayAt :: "resolvedStressEvent list \<Rightarrow> int \<Rightarrow> overlayState" where
  "overlayAt events blockIndex = (let
      baseMults = foldl (\<lambda>m ev.
        if \<not> isPriceOverlay (ev_type ev) then m
        else let e = stressEnvelope ev blockIndex in
          if e = 0 then m else layer m (ev_base ev) (1 + overlaySign ev * ev_magnitude ev * e)) [] events
    in \<lparr>os_wethMult = getOr 1 baseMults ''WETH'', os_usdcPx = 1, os_baseMults = baseMults\<rparr>)"

text \<open>\<open>withOuOverride\<close>, on the parameters of a walk that may have no volatility.\<close>

record walkParams =
  wp_kappa :: real
  wp_drift :: real
  wp_volatility :: "real option"

definition withOuOverride :: "walkParams \<Rightarrow> ouOverride \<Rightarrow> walkParams" where
  "withOuOverride params ov =
    (if ov_driftAdd ov = 0 \<and> ov_kappaMult ov = 1 \<and> ov_vol ov = None then params
     else let out = params\<lparr>wp_kappa := wp_kappa params * ov_kappaMult ov,
                           wp_drift := wp_drift params + ov_driftAdd ov\<rparr>
       in (case (ov_vol ov, wp_volatility params) of
             (Some (peak, envelope), Some v) \<Rightarrow> out\<lparr>wp_volatility := Some (v + (peak - v) * envelope)\<rparr>
           | _ \<Rightarrow> out))"

section \<open>Token launches\<close>

definition hasTokenLaunch :: "resolvedStressEvent list \<Rightarrow> bool" where
  "hasTokenLaunch events \<longleftrightarrow> list_ex (\<lambda>ev. ev_type ev = TokenLaunch) events"

definition launchesOf :: "resolvedStressEvent \<Rightarrow> resolvedTokenLaunch list" where
  "launchesOf ev = (case ev_launches ev of None \<Rightarrow> [] | Some ls \<Rightarrow> ls)"

definition tokenLaunches ::
  "resolvedStressEvent list \<Rightarrow> (nat \<times> resolvedStressEvent \<times> resolvedTokenLaunch) list" where
  "tokenLaunches events = concat (map (\<lambda>(eventIndex, event).
      if ev_type event \<noteq> TokenLaunch then []
      else map (\<lambda>launch. (eventIndex, event, launch)) (launchesOf event)) (enumerate 0 events))"

record tokenLaunchTarget =
  tl_eventIndex :: nat
  tl_launch :: resolvedTokenLaunch
  tl_listed :: bool
  tl_buyFrac :: real
  tl_buyBlocks :: int
  tl_rampIndex :: int
  tl_sellBackFrac :: real
  tl_justClosed :: bool

definition launchSellBackFrac :: "resolvedTokenLaunch \<Rightarrow> int \<Rightarrow> int \<Rightarrow> int \<Rightarrow> int \<Rightarrow> real" where
  "launchSellBackFrac launch t ramp hold decay =
    (if rl_dud launch then 0
     else let decayT = t - (ramp + hold);
              frac = (if decayT < 0 then 0 else if decay = 0 then 1
                      else min 1 (of_int (decayT + 1) / of_int decay))
          in rl_sellBackFrac launch * frac)"

definition launchTarget :: "nat \<Rightarrow> resolvedStressEvent \<Rightarrow> int \<Rightarrow> resolvedTokenLaunch \<Rightarrow> tokenLaunchTarget" where
  "launchTarget eventIndex ev blockIndex launch = (let
      t = blockIndex - ev_startBlock ev - TOKEN_LAUNCH_LEAD_BLOCKS;
      r = (case rl_rampBlocks launch of None \<Rightarrow> ev_rampBlocks ev | Some r \<Rightarrow> r);
      buyFrac = (if t < 0 then 0 else if t < r then (if r = 0 then 1 else of_int (t + 1) / of_int r) else 1);
      buyBlocks = (if t < 0 then 0 else min (t + 1) r)
    in \<lparr>tl_eventIndex = eventIndex, tl_launch = launch, tl_listed = (blockIndex \<ge> ev_startBlock ev),
        tl_buyFrac = (if rl_dud launch then 0 else buyFrac),
        tl_buyBlocks = (if rl_dud launch then 0 else buyBlocks),
        tl_rampIndex = t,
        tl_sellBackFrac = launchSellBackFrac launch t r (ev_holdBlocks ev) (ev_decayBlocks ev),
        tl_justClosed = (blockIndex = ev_endBlock ev)\<rparr>)"

definition tokenLaunchTargetsAt :: "resolvedStressEvent list \<Rightarrow> int \<Rightarrow> tokenLaunchTarget list" where
  "tokenLaunchTargetsAt events blockIndex = concat (map (\<lambda>(eventIndex, ev).
      if ev_type ev \<noteq> TokenLaunch then []
      else map (launchTarget eventIndex ev blockIndex) (launchesOf ev)) (enumerate 0 events))"

section \<open>The shape of a window\<close>

definition residualOf :: "resolvedStressEvent \<Rightarrow> real" where
  "residualOf ev = (if ev_persist ev then 1 else case ev_recoverFrac ev of None \<Rightarrow> 0 | Some f \<Rightarrow> 1 - f)"

abbreviation bodyBlocks :: "resolvedStressEvent \<Rightarrow> int" where
  "bodyBlocks ev \<equiv> ev_rampBlocks ev + ev_holdBlocks ev + ev_decayBlocks ev"

lemma envelope_before: "b < ev_startBlock ev \<Longrightarrow> stressEnvelope ev b = 0"
  by (simp add: stressEnvelope_def)

lemma envelope_after:
  "wellShaped ev \<Longrightarrow> ev_startBlock ev + bodyBlocks ev \<le> b \<Longrightarrow> stressEnvelope ev b = residualOf ev"
  by (auto simp: stressEnvelope_def residualOf_def wellShaped_def Let_def)

lemma envelope_ramp:
  "0 \<le> t \<Longrightarrow> t < ev_rampBlocks ev \<Longrightarrow>
    stressEnvelope ev (ev_startBlock ev + t) = of_int (t + 1) / of_int (ev_rampBlocks ev)"
  by (simp add: stressEnvelope_def Let_def)

lemma envelope_hold:
  "0 \<le> ev_rampBlocks ev \<Longrightarrow> ev_rampBlocks ev \<le> t \<Longrightarrow> t < ev_rampBlocks ev + ev_holdBlocks ev \<Longrightarrow>
    stressEnvelope ev (ev_startBlock ev + t) = 1"
  by (simp add: stressEnvelope_def Let_def)

text \<open>
  The trapezoid: nothing before the window, a rise that starts on the window's first block and is
  complete on its last ramp block, the full size while it holds, and a decay whose last block is
  already at the level that stays, so no block jumps when the window closes.
\<close>

theorem envelope_trapezoid:
  assumes "wellShaped ev" "0 < ev_rampBlocks ev" "0 < ev_decayBlocks ev" "\<not> ev_persist ev"
  shows "stressEnvelope ev (ev_startBlock ev - 1) = 0 \<and>
    stressEnvelope ev (ev_startBlock ev) = 1 / of_int (ev_rampBlocks ev) \<and>
    stressEnvelope ev (ev_startBlock ev + ev_rampBlocks ev - 1) = 1 \<and>
    stressEnvelope ev (ev_startBlock ev + bodyBlocks ev - 1) = residualOf ev \<and>
    stressEnvelope ev (ev_startBlock ev + bodyBlocks ev) = residualOf ev"
  using assms by (auto simp: stressEnvelope_def residualOf_def wellShaped_def Let_def split: option.splits)

section \<open>The overlay\<close>

definition overlayFactor :: "int \<Rightarrow> resolvedStressEvent \<Rightarrow> real" where
  "overlayFactor b ev = (if isPriceOverlay (ev_type ev)
     then 1 + overlaySign ev * ev_magnitude ev * stressEnvelope ev b else 1)"

lemma getOr_layer: "getOr 1 (layer m base f) k = (if k = base then getOr 1 m k * f else getOr 1 m k)"
  by (simp add: layer_def getOr_def)

lemma overlay_fold:
  "getOr 1 (foldl (\<lambda>m ev.
        if \<not> isPriceOverlay (ev_type ev) then m
        else let e = stressEnvelope ev b in
          if e = 0 then m else layer m (ev_base ev) (1 + overlaySign ev * ev_magnitude ev * e)) m0 events) base =
    getOr 1 m0 base * prod_list (map (overlayFactor b) (filter (\<lambda>ev. ev_base ev = base) events))"
  by (induction events arbitrary: m0)
    (auto simp: Let_def getOr_layer overlayFactor_def mult.assoc)

text \<open>
  The price of a base is moved by the product of the factors of its own price events, whatever
  order the schedule lists them in; other events, and events of other bases, do not touch it.
\<close>

lemma overlay_product:
  "getOr 1 (os_baseMults (overlayAt events b)) base =
    prod_list (map (overlayFactor b) (filter (\<lambda>ev. ev_base ev = base) events))"
  by (simp add: overlayAt_def Let_def overlay_fold)

lemma overlay_weth: "os_wethMult (overlayAt events b) = getOr 1 (os_baseMults (overlayAt events b)) ''WETH''"
  by (simp add: overlayAt_def Let_def)

text \<open>An event that cannot turn a price negative: a fall smaller than the price itself.\<close>

definition boundedFall :: "resolvedStressEvent \<Rightarrow> bool" where
  "boundedFall ev \<longleftrightarrow> 0 \<le> ev_magnitude ev \<and> (ev_type ev = Crash \<longrightarrow> ev_magnitude ev < 1)"

lemma overlayFactor_pos:
  assumes "wellShaped ev" "boundedFall ev"
  shows "0 < overlayFactor b ev"
proof -
  note e = envelope_range [OF assms(1), of b]
  show ?thesis
  proof (cases "ev_type ev = Crash")
    case True
    have "ev_magnitude ev * stressEnvelope ev b \<le> ev_magnitude ev * 1"
      using e assms(2) by (intro mult_left_mono) (simp_all add: boundedFall_def)
    then show ?thesis using True assms(2) by (simp add: overlayFactor_def overlaySign_def boundedFall_def)
  next
    case False
    have "0 \<le> ev_magnitude ev * stressEnvelope ev b" using e assms(2) by (simp add: boundedFall_def)
    then show ?thesis using False by (simp add: overlayFactor_def overlaySign_def)
  qed
qed

lemma prod_list_pos: "(\<And>x. x \<in> set xs \<Longrightarrow> 0 < f x) \<Longrightarrow> 0 < (prod_list (map f xs) :: real)"
  by (induction xs) auto

text \<open>
  Every base's price multiplier is the product of the factors of that base's price events, and it is
  positive on every block when no fall is as large as the price.
\<close>

theorem overlay_positive:
  assumes "list_all wellShaped events" "list_all boundedFall events"
  shows "getOr 1 (os_baseMults (overlayAt events b)) base =
      prod_list (map (overlayFactor b) (filter (\<lambda>ev. ev_base ev = base) events))
    \<and> 0 < getOr 1 (os_baseMults (overlayAt events b)) base"
  using assms unfolding overlay_product
  by (auto simp: list_all_iff intro!: prod_list_pos overlayFactor_pos)

text \<open>What a window leaves behind once it closed, and that every other block is untouched.\<close>

lemma overlayFactor_outside:
  "wellShaped ev \<Longrightarrow> residualOf ev = 0 \<Longrightarrow> b < ev_startBlock ev \<or> ev_startBlock ev + bodyBlocks ev \<le> b \<Longrightarrow>
    overlayFactor b ev = 1"
  by (auto simp: overlayFactor_def envelope_before envelope_after)

section \<open>The walk and its anchor\<close>

definition driftFactor :: "int \<Rightarrow> string \<Rightarrow> resolvedStressEvent \<Rightarrow> real" where
  "driftFactor b base ev = (if ev_type ev = CexDrift \<and> ev_base ev = base
     then (if ev_side ev = Some Sell then - 1 else 1) * ev_magnitude ev * stressEnvelope ev b else 0)"

lemma drift_fold:
  "ov_driftAdd (foldl (ouOverrideOne b base) ov events) =
    ov_driftAdd ov + sum_list (map (driftFactor b base) events)"
  by (induction events arbitrary: ov)
    (auto simp: ouOverrideOne_def driftFactor_def Let_def split: option.splits)

lemma driftAdd_sum: "ov_driftAdd (ouOverrideAt events b base) = sum_list (map (driftFactor b base) events)"
  by (simp add: ouOverrideAt_def drift_fold)

definition repriced :: "string \<Rightarrow> resolvedStressEvent \<Rightarrow> bool" where
  "repriced base ev \<longleftrightarrow> ev_type ev = CexDrift \<and> ev_repriceAnchor ev \<and> ev_base ev = base"

lemma foldl_factor: "foldl (\<lambda>acc t. acc * f t) (a :: real) xs = a * prod_list (map f xs)"
  by (induction xs arbitrary: a) (simp_all add: mult.assoc)

lemma driftSteps_eq:
  "driftSteps ev b a = a * driftSteps ev b 1"
  by (simp add: driftSteps_def Let_def foldl_factor)

lemma anchor_fold:
  "foldl (\<lambda>acc ev.
      if ev_type ev \<noteq> CexDrift \<or> \<not> ev_repriceAnchor ev then acc
      else if ev_base ev \<noteq> base then acc
      else driftSteps ev b acc) a events =
    a * prod_list (map (\<lambda>ev. driftSteps ev b 1) (filter (repriced base) events))"
proof (induction events arbitrary: a)
  case Nil
  then show ?case by simp
next
  case (Cons ev events)
  show ?case
    using Cons.IH [of a] Cons.IH [of "driftSteps ev b a"] driftSteps_eq [of ev b a]
    by (auto simp: repriced_def mult.assoc)
qed

lemma anchor_product:
  "anchorMultiplierAt events b base = prod_list (map (\<lambda>ev. driftSteps ev b 1) (filter (repriced base) events))"
  unfolding anchorMultiplierAt_def anchor_fold by simp

lemma driftSteps_step:
  assumes "inWindow ev b" "repriced base ev"
  shows "driftSteps ev b 1 = driftSteps ev (b - 1) 1 * (1 + driftFactor b base ev)"
proof -
  have "[ev_startBlock ev..b] = [ev_startBlock ev..b - 1] @ [b]"
    using assms(1) upto_rec2 by (simp add: inWindow_def)
  then show ?thesis
    using assms by (simp add: driftSteps_def Let_def foldl_factor driftFactor_def repriced_def inWindow_def)
qed

lemma driftSteps_idle:
  assumes "\<not> inWindow ev b"
  shows "driftSteps ev b 1 = driftSteps ev (b - 1) 1"
  using assms by (auto simp: driftSteps_def Let_def inWindow_def)

text \<open>The step one drift asks of its base on a block, and the drifts the walk reads on a block.\<close>

definition driftStep :: "int \<Rightarrow> resolvedStressEvent \<Rightarrow> real" where
  "driftStep b ev = (case ev_side ev of Some Sell \<Rightarrow> - (ev_magnitude ev * stressEnvelope ev b)
     | _ \<Rightarrow> ev_magnitude ev * stressEnvelope ev b)"

definition driftsAt :: "resolvedStressEvent list \<Rightarrow> int \<Rightarrow> string \<Rightarrow> resolvedStressEvent list" where
  "driftsAt events b base =
    filter (\<lambda>ev. ev_type ev = CexDrift \<and> ev_base ev = base \<and> stressEnvelope ev b \<noteq> 0) events"

lemma driftStep_factor: "ev_type ev = CexDrift \<Longrightarrow> ev_base ev = base \<Longrightarrow> driftFactor b base ev = driftStep b ev"
  by (auto simp: driftFactor_def driftStep_def split: option.splits side.splits)

lemma driftAdd_driftsAt:
  "ov_driftAdd (ouOverrideAt events b base) = sum_list (map (driftStep b) (driftsAt events b base))"
  unfolding driftAdd_sum driftsAt_def
  by (induction events) (auto simp: driftFactor_def driftStep_def split: option.splits side.splits)

lemma anchor_step:
  "anchorMultiplierAt events b base = anchorMultiplierAt events (b - 1) base *
    prod_list (map (\<lambda>ev. 1 + driftStep b ev) (filter (\<lambda>ev. repriced base ev \<and> inWindow ev b) events))"
  unfolding anchor_product
proof (induction events)
  case Nil
  then show ?case by simp
next
  case (Cons ev events)
  show ?case
    using Cons.IH driftSteps_step [of ev b base] driftSteps_idle [of ev b] driftStep_factor [of ev base b]
    by (auto simp: repriced_def)
qed

lemma anchor_unstarted: "list_all (\<lambda>ev. b < ev_startBlock ev) events \<Longrightarrow> anchorMultiplierAt events b base = 1"
  unfolding anchor_product by (induction events) (auto simp: driftSteps_def Let_def)

lemma zero_steps:
  "(\<And>ev. ev \<in> set events \<Longrightarrow> P ev \<Longrightarrow> f ev = (1 :: real)) \<Longrightarrow> prod_list (map f (filter P events)) = 1"
  by (induction events) auto

lemma lone_step:
  assumes "filter P events = [x]" "Q x" "\<And>e. e \<in> set events \<Longrightarrow> Q e \<Longrightarrow> \<not> P e \<Longrightarrow> f e = (1 :: real)"
  shows "prod_list (map f (filter Q events)) = f x"
  using assms
proof (induction events)
  case Nil
  then show ?case by simp
next
  case (Cons e events)
  show ?case
  proof (cases "P e")
    case True
    with Cons.prems(1) have e: "e = x" "filter P events = []" by auto
    then have "prod_list (map f (filter Q events)) = 1"
      using Cons.prems(3) by (intro zero_steps) (auto simp: filter_empty_conv)
    with e Cons.prems(2) show ?thesis by simp
  next
    case False
    with Cons show ?thesis by auto
  qed
qed

text \<open>
  C34. What the anchor and the walk do with the drifts of a base, on any schedule. From block to block
  the level the price reverts to is multiplied by one plus the step of every drift that reprices and
  is in its window, nothing else moves it, and it is the run's own before any event started. The
  walk's added drift is the sum of the steps of every drift with an effect on the block. So on a
  block where the walk reads one drift only, which reprices and is in its window, the anchor takes
  exactly the step of the walk; where it reads none the anchor stands still. Two drifts that
  overlap multiply in the anchor and add in the walk, and one that does not reprice moves the walk only.
\<close>

theorem anchor_follows_drift:
  "anchorMultiplierAt events b base = anchorMultiplierAt events (b - 1) base *
      prod_list (map (\<lambda>ev. 1 + driftStep b ev) (filter (\<lambda>ev. ev_type ev = CexDrift \<and> ev_base ev = base \<and>
        ev_repriceAnchor ev \<and> ev_startBlock ev \<le> b \<and> b < ev_endBlock ev) events)) \<and>
    ov_driftAdd (ouOverrideAt events b base) = sum_list (map (driftStep b) (driftsAt events b base)) \<and>
    (list_all (\<lambda>ev. b < ev_startBlock ev) events \<longrightarrow> anchorMultiplierAt events b base = 1) \<and>
    (\<forall>ev. driftsAt events b base = [ev] \<longrightarrow> ev_repriceAnchor ev \<longrightarrow> ev_startBlock ev \<le> b \<longrightarrow> b < ev_endBlock ev \<longrightarrow>
      anchorMultiplierAt events b base =
        anchorMultiplierAt events (b - 1) base * (1 + ov_driftAdd (ouOverrideAt events b base))) \<and>
    (driftsAt events b base = [] \<longrightarrow> anchorMultiplierAt events b base = anchorMultiplierAt events (b - 1) base)"
proof -
  let ?open = "\<lambda>ev. ev_type ev = CexDrift \<and> ev_base ev = base \<and> ev_repriceAnchor ev \<and> ev_startBlock ev \<le> b \<and> b < ev_endBlock ev"
  have step: "anchorMultiplierAt events b base = anchorMultiplierAt events (b - 1) base *
      prod_list (map (\<lambda>ev. 1 + driftStep b ev) (filter ?open events))"
    using anchor_step [of events b base] by (simp add: repriced_def inWindow_def conj_ac)
  have still: "1 + driftStep b ev = 1" if "stressEnvelope ev b = 0" for ev
    using that by (simp add: driftStep_def split: option.splits side.splits)
  have none: "prod_list (map (\<lambda>ev. 1 + driftStep b ev) (filter ?open events)) = 1" if "driftsAt events b base = []"
    using that still by (intro zero_steps) (auto simp: driftsAt_def filter_empty_conv)
  have lone: "prod_list (map (\<lambda>ev. 1 + driftStep b ev) (filter ?open events)) = 1 + driftStep b ev"
    if one: "driftsAt events b base = [ev]" and reads: "ev_repriceAnchor ev" "ev_startBlock ev \<le> b" "b < ev_endBlock ev" for ev
  proof (rule lone_step [OF one [unfolded driftsAt_def]])
    have "ev \<in> set (driftsAt events b base)" using one by simp
    then show "?open ev" using reads by (auto simp: driftsAt_def)
  qed (use still reads in auto)
  show ?thesis
    using step none lone driftAdd_driftsAt [of events b base] anchor_unstarted [of b events base] by auto
qed

section \<open>A launch's targets\<close>

definition launchRamp :: "resolvedStressEvent \<Rightarrow> resolvedTokenLaunch \<Rightarrow> int" where
  "launchRamp ev launch = (case rl_rampBlocks launch of None \<Rightarrow> ev_rampBlocks ev | Some r \<Rightarrow> r)"

definition launchOk :: "resolvedStressEvent \<Rightarrow> resolvedTokenLaunch \<Rightarrow> bool" where
  "launchOk ev launch \<longleftrightarrow> 0 \<le> launchRamp ev launch \<and> 0 \<le> ev_holdBlocks ev \<and> 0 \<le> ev_decayBlocks ev \<and>
    0 \<le> rl_sellBackFrac launch \<and> rl_sellBackFrac launch \<le> 1"

definition soldShare :: "int \<Rightarrow> int \<Rightarrow> real" where
  "soldShare decayT decay = (if decayT < 0 then 0 else if decay = 0 then 1
     else min 1 (of_int (decayT + 1) / of_int decay))"

lemma soldShare_range: "0 \<le> decay \<Longrightarrow> 0 \<le> soldShare t decay \<and> soldShare t decay \<le> 1"
  by (auto simp: soldShare_def)

lemma soldShare_mono: "0 \<le> decay \<Longrightarrow> s \<le> t \<Longrightarrow> soldShare s decay \<le> soldShare t decay"
  by (auto simp: soldShare_def min_def divide_right_mono)

lemma launchSellBackFrac_share:
  "launchSellBackFrac launch t r h d =
    (if rl_dud launch then 0 else rl_sellBackFrac launch * soldShare (t - (r + h)) d)"
  by (simp add: launchSellBackFrac_def soldShare_def Let_def)

text \<open>
  A launch's targets only ever rise, so a driver that misses blocks is late and never has to undo:
  the tokens bought and the share sold back are non-decreasing in the block, stay within the wave's
  ramp and the share drawn, and nothing is sold back before everything was bought.
\<close>

theorem launch_targets_cumulative:
  assumes ok: "launchOk ev launch" and "b \<le> c"
  shows "tl_buyBlocks (launchTarget i ev b launch) \<le> tl_buyBlocks (launchTarget i ev c launch) \<and>
    tl_sellBackFrac (launchTarget i ev b launch) \<le> tl_sellBackFrac (launchTarget i ev c launch) \<and>
    0 \<le> tl_buyBlocks (launchTarget i ev c launch) \<and>
    tl_buyBlocks (launchTarget i ev c launch) \<le> launchRamp ev launch \<and>
    0 \<le> tl_sellBackFrac (launchTarget i ev c launch) \<and>
    tl_sellBackFrac (launchTarget i ev c launch) \<le> rl_sellBackFrac launch \<and>
    (tl_sellBackFrac (launchTarget i ev c launch) = 0 \<or>
     tl_buyBlocks (launchTarget i ev c launch) = launchRamp ev launch \<and>
     tl_buyFrac (launchTarget i ev c launch) = 1)"
proof -
  define r where "r = launchRamp ev launch"
  define tb where "tb = b - ev_startBlock ev - TOKEN_LAUNCH_LEAD_BLOCKS"
  define tc where "tc = c - ev_startBlock ev - TOKEN_LAUNCH_LEAD_BLOCKS"
  have r: "0 \<le> r" and h: "0 \<le> ev_holdBlocks ev" and d: "0 \<le> ev_decayBlocks ev"
    and f: "0 \<le> rl_sellBackFrac launch" "rl_sellBackFrac launch \<le> 1"
    using ok by (simp_all add: launchOk_def r_def)
  have le: "tb \<le> tc" using assms(2) by (simp add: tb_def tc_def)
  have blocks: "tl_buyBlocks (launchTarget i ev x launch) = (if rl_dud launch \<or> t < 0 then 0 else min (t + 1) r)"
    if "t = x - ev_startBlock ev - TOKEN_LAUNCH_LEAD_BLOCKS" for x t
    by (simp add: launchTarget_def Let_def that r_def launchRamp_def)
  have frac: "tl_buyFrac (launchTarget i ev x launch) = (if rl_dud launch then 0 else if t < 0 then 0
      else if t < r then (if r = 0 then 1 else of_int (t + 1) / of_int r) else 1)"
    if "t = x - ev_startBlock ev - TOKEN_LAUNCH_LEAD_BLOCKS" for x t
    by (simp add: launchTarget_def Let_def that r_def launchRamp_def)
  have sold: "tl_sellBackFrac (launchTarget i ev x launch) = (if rl_dud launch then 0
      else rl_sellBackFrac launch * soldShare (t - (r + ev_holdBlocks ev)) (ev_decayBlocks ev))"
    if "t = x - ev_startBlock ev - TOKEN_LAUNCH_LEAD_BLOCKS" for x t
    by (simp add: launchTarget_def Let_def that r_def launchRamp_def launchSellBackFrac_share)
  note at_b = blocks [OF tb_def] frac [OF tb_def] sold [OF tb_def]
  note at_c = blocks [OF tc_def] frac [OF tc_def] sold [OF tc_def]
  have share: "0 \<le> soldShare t (ev_decayBlocks ev)" "soldShare t (ev_decayBlocks ev) \<le> 1" for t
    using soldShare_range [OF d] by auto
  have "soldShare (tb - (r + ev_holdBlocks ev)) (ev_decayBlocks ev) \<le>
      soldShare (tc - (r + ev_holdBlocks ev)) (ev_decayBlocks ev)"
    using soldShare_mono [OF d] le by simp
  then have sell: "tl_sellBackFrac (launchTarget i ev b launch) \<le> tl_sellBackFrac (launchTarget i ev c launch)"
    unfolding at_b at_c using f by (simp add: mult_left_mono)
  have sold0: "soldShare (tc - (r + ev_holdBlocks ev)) (ev_decayBlocks ev) = 0 \<or> r \<le> tc"
    using h by (auto simp: soldShare_def)
  show ?thesis
    using sell le r f share sold0 unfolding at_b at_c r_def [symmetric]
    by (auto simp: mult_left_le)
qed

end
