(* ===== verification/Stress_Schedule.thy ===== *)
theory Stress_Schedule
  imports Stress_Events Rng Formatting
begin

text \<open>
  How a stress schedule is drawn and placed (\<open>core/src/realtime/events.ts\<close>): the draws of every
  configured entry in list order, the pairing of followers with their anchors, the placement of
  windows and the resolved events. A random stream is the sequence of its draws, and every
  function that draws takes the stream and the position it has reached and returns the position
  after it. The streams of a scenario are the parameter \<open>fromSeed\<close>: the draws of the stream named by
  a salt (\<open>Rng.fromSeed(seed, salt)\<close>, modelled in \<open>Rng\<close> as \<open>drawAt\<close>). The canonical JSON text of a
  configuration, which is only hashed, is the parameter \<open>canonical\<close>.
\<close>

type_synonym draws = "nat \<Rightarrow> real"

section \<open>Configuration\<close>

datatype blockCount = FixedBlocks int | DrawnBlocks int int

datatype whaleSide = SideIs side | SideRandom

datatype venueChoice = VenueIs whaleVenue | VenueRandom

record stressEventConfig =
  sc_type :: stressEventType
  sc_base :: "string option"
  sc_magnitudeRange :: "real \<times> real"
  sc_stable :: "string option"
  sc_side :: "whaleSide option"
  sc_kappaMultRange :: "(real \<times> real) option"
  sc_persist :: bool
  sc_repriceAnchor :: bool
  sc_repriceAnchorProb :: "real option"
  sc_flipProb :: "real option"
  sc_recoverFrac :: "(real \<times> real) option"
  sc_trendCorrelation :: "real option"
  sc_persistBlocks :: "real option"
  sc_venue :: "venueChoice option"
  sc_tokenCount :: "(int \<times> int) option"
  sc_liquidityUsdc :: "(real \<times> real) option"
  sc_waveUsdcMult :: "(real \<times> real) option"
  sc_dudProb :: "(real \<times> real) option"
  sc_sellBackFrac :: "(real \<times> real) option"
  sc_waveStopProb :: "real option"
  sc_wavePriceCeiling :: "(real \<times> real) option"
  sc_windowFrac :: "real \<times> real"
  sc_alignWith :: "stressEventType option"
  sc_count :: "(int \<times> int) option"
  sc_minGapBlocks :: "int option"
  sc_rampBlocks :: blockCount
  sc_holdBlocks :: blockCount
  sc_decayBlocks :: blockCount

definition WHALE_VENUES :: "whaleVenue list" where
  "WHALE_VENUES = [UniswapVenue, BalancerVenue, CurveVenue]"

definition POINT_EVENT_SPAN :: int where "POINT_EVENT_SPAN = 1"

definition STRESS_SEED_SALT :: "32 word" where "STRESS_SEED_SALT = 0x53545253"

definition lerp :: "real \<Rightarrow> real \<Rightarrow> real \<Rightarrow> real" where
  "lerp a b t = a + (b - a) * t"

fun isDrawn :: "blockCount \<Rightarrow> bool" where
  "isDrawn (FixedBlocks _) = False"
| "isDrawn (DrawnBlocks _ _) = True"

definition usesVariation :: "stressEventConfig \<Rightarrow> bool" where
  "usesVariation c \<longleftrightarrow> sc_count c \<noteq> None \<or> isDrawn (sc_rampBlocks c) \<or> isDrawn (sc_holdBlocks c) \<or>
    isDrawn (sc_decayBlocks c) \<or> sc_flipProb c \<noteq> None \<or> sc_recoverFrac c \<noteq> None \<or>
    sc_venue c = Some VenueRandom \<or> sc_repriceAnchorProb c \<noteq> None \<or> sc_waveStopProb c \<noteq> None \<or>
    sc_wavePriceCeiling c \<noteq> None"

definition codes :: "string \<Rightarrow> nat list" where
  "codes s = map of_char s"

definition configDigest :: "(stressEventConfig list \<Rightarrow> string) \<Rightarrow> stressEventConfig list \<Rightarrow> 32 word" where
  "configDigest canonical configs =
    foldl (\<lambda>h c. (h XOR of_nat c) * 0x01000193) 0x811c9dc5 (codes (canonical configs))"

section \<open>Drawing\<close>

definition drawInt :: "draws \<Rightarrow> int \<times> int \<Rightarrow> nat \<Rightarrow> int \<times> nat" where
  "drawInt u bounds p = (case bounds of (lo, hi) \<Rightarrow>
     (min hi (max lo \<lfloor>lerp (of_int lo) (of_int (hi + 1)) (u p)\<rfloor>), Suc p))"

definition drawBlockCount :: "draws \<Rightarrow> blockCount \<Rightarrow> nat \<Rightarrow> int \<times> nat" where
  "drawBlockCount u v p = (case v of FixedBlocks n \<Rightarrow> (n, p) | DrawnBlocks lo hi \<Rightarrow> drawInt u (lo, hi) p)"

fun blockCountMax :: "blockCount \<Rightarrow> int" where
  "blockCountMax (FixedBlocks n) = n"
| "blockCountMax (DrawnBlocks lo hi) = hi"

definition leadBlocks :: "stressEventType \<Rightarrow> int" where
  "leadBlocks t = (if t = TokenLaunch then TOKEN_LAUNCH_LEAD_BLOCKS else 0)"

definition maxSpan :: "stressEventConfig \<Rightarrow> int" where
  "maxSpan c = (if isPointEvent (sc_type c) then POINT_EVENT_SPAN
     else leadBlocks (sc_type c) + blockCountMax (sc_rampBlocks c) + blockCountMax (sc_holdBlocks c) +
       blockCountMax (sc_decayBlocks c))"

definition drawIf :: "bool \<Rightarrow> draws \<Rightarrow> nat \<Rightarrow> real option \<times> nat" where
  "drawIf c u p = (if c then (Some (u p), Suc p) else (None, p))"

definition orZero :: "(real \<times> real) option \<Rightarrow> real \<times> real" where
  "orZero r = (case r of None \<Rightarrow> (0, 0) | Some x \<Rightarrow> x)"

text \<open>The five draws of one token, in their order.\<close>

definition drawTokenLaunch :: "stressEventConfig \<Rightarrow> draws \<Rightarrow> nat \<Rightarrow> nat \<Rightarrow> resolvedTokenLaunch" where
  "drawTokenLaunch c u p i = (let
      (liquidityLo, liquidityHi) = orZero (sc_liquidityUsdc c);
      (waveLo, waveHi) = orZero (sc_waveUsdcMult c);
      (dudLo, dudHi) = orZero (sc_dudProb c);
      (sellLo, sellHi) = orZero (sc_sellBackFrac c);
      liquidityUsdc = mathRound (lerp liquidityLo liquidityHi (u p));
      dudProb = lerp dudLo dudHi (u (p + 1));
      dudDraw = u (p + 2);
      waveUsdcMult = lerp waveLo waveHi (u (p + 3));
      sellBackFrac = lerp sellLo sellHi (u (p + 4));
      dud = (dudDraw < dudProb \<or> waveUsdcMult \<le> 0)
    in \<lparr>rl_index = i, rl_liquidityUsdc = liquidityUsdc,
        rl_waveUsdcMult = (if dud then 0 else waveUsdcMult), rl_waveBlockUsdcMult = None,
        rl_dud = dud, rl_sellBackFrac = sellBackFrac, rl_priceCeilingMult = None, rl_rampBlocks = None\<rparr>)"

definition drawTokenLaunches :: "stressEventConfig \<Rightarrow> draws \<Rightarrow> nat \<Rightarrow> resolvedTokenLaunch list \<times> nat" where
  "drawTokenLaunches c u p = (let
      (count, p1) = drawInt u (case sc_tokenCount c of None \<Rightarrow> (1, 1) | Some r \<Rightarrow> r) p
    in (map (\<lambda>i. drawTokenLaunch c u (p1 + 5 * i) i) [0..<nat count], p1 + 5 * nat count))"

record drawnWindow =
  dw_magnitude :: real
  dw_startU :: real
  dw_side :: "side option"
  dw_kappaMult :: "real option"
  dw_launches :: "resolvedTokenLaunch list option"
  dw_flipped :: bool
  dw_recoverFrac :: "real option"
  dw_venue :: "whaleVenue option"
  dw_repriceAnchor :: bool
  dw_rampBlocks :: int
  dw_holdBlocks :: int
  dw_decayBlocks :: int
  dw_span :: int

definition below :: "real option \<Rightarrow> real option \<Rightarrow> bool" where
  "below d prob = (case (d, prob) of (Some x, Some q) \<Rightarrow> x < q | _ \<Rightarrow> False)"

definition drawWindow :: "stressEventConfig \<Rightarrow> draws \<Rightarrow> nat \<Rightarrow> drawnWindow \<times> nat" where
  "drawWindow c u p0 = (let
      magnitude = lerp (fst (sc_magnitudeRange c)) (snd (sc_magnitudeRange c)) (u p0);
      startU = u (Suc p0);
      sided = (sc_type c = Whale \<or> sc_type c = CexDrift);
      (sideDraw, p1) = drawIf sided u (Suc (Suc p0));
      side = (case sideDraw of None \<Rightarrow> None
        | Some x \<Rightarrow> Some (case sc_side c of Some (SideIs s) \<Rightarrow> s | _ \<Rightarrow> if x < 1 / 2 then Buy else Sell));
      (kappaDraw, p2) = drawIf (sc_type c = CexDrift) u p1;
      kappaMult = (case (kappaDraw, sc_kappaMultRange c) of
          (Some x, Some (lo, hi)) \<Rightarrow> Some (lerp lo hi x) | _ \<Rightarrow> None);
      (launches, p3) = (if sc_type c = TokenLaunch
        then (case drawTokenLaunches c u p2 of (ls, p) \<Rightarrow> (Some ls, p)) else (None, p2));
      (flipDraw, p4) = drawIf (sc_flipProb c \<noteq> None) u p3;
      (recoverDraw, p5) = drawIf (sc_recoverFrac c \<noteq> None) u p4;
      recoverFrac = (case (recoverDraw, sc_recoverFrac c) of
          (Some x, Some (lo, hi)) \<Rightarrow> Some (lerp lo hi x) | _ \<Rightarrow> None);
      (venueDraw, p6) = drawIf (sc_venue c = Some VenueRandom) u p5;
      (repriceDraw, p7) = drawIf (sc_repriceAnchorProb c \<noteq> None) u p6;
      (ramp, p8) = drawBlockCount u (sc_rampBlocks c) p7;
      (hold, p9) = drawBlockCount u (sc_holdBlocks c) p8;
      (decay, p10) = drawBlockCount u (sc_decayBlocks c) p9;
      span = (if isPointEvent (sc_type c) then POINT_EVENT_SPAN
        else leadBlocks (sc_type c) + ramp + hold + decay)
    in (\<lparr>dw_magnitude = magnitude, dw_startU = startU, dw_side = side, dw_kappaMult = kappaMult,
         dw_launches = launches,
         dw_flipped = below flipDraw (sc_flipProb c),
         dw_recoverFrac = recoverFrac,
         dw_venue = (case venueDraw of None \<Rightarrow> None
           | Some x \<Rightarrow> Some (WHALE_VENUES ! nat (min (int (length WHALE_VENUES) - 1)
               \<lfloor>x * of_nat (length WHALE_VENUES)\<rfloor>))),
         dw_repriceAnchor = (sc_repriceAnchor c \<or> below repriceDraw (sc_repriceAnchorProb c)),
         dw_rampBlocks = ramp, dw_holdBlocks = hold, dw_decayBlocks = decay, dw_span = span\<rparr>, p10))"

text \<open>Memoryless wave lengths and secret price ceilings, each token from a stream of its own.\<close>

definition waveLengthMean :: "real \<Rightarrow> int \<Rightarrow> real" where
  "waveLengthMean stopProb cap = (if \<not> stopProb > 0 then of_int cap
     else (1 - (1 - stopProb) ^ nat cap) / stopProb)"

definition waveLengthFrom :: "real \<Rightarrow> real \<Rightarrow> int \<Rightarrow> int" where
  "waveLengthFrom u stopProb cap = (if stopProb \<ge> 1 then min 1 cap
     else max 1 (min cap (1 + \<lfloor>ln (1 - u) / ln (1 - stopProb)\<rfloor>)))"

definition launchListOf :: "drawnWindow \<Rightarrow> resolvedTokenLaunch list" where
  "launchListOf w = (case dw_launches w of None \<Rightarrow> [] | Some ls \<Rightarrow> ls)"

definition waveOf :: "real \<Rightarrow> real \<Rightarrow> int \<Rightarrow> real \<Rightarrow> resolvedTokenLaunch \<Rightarrow> resolvedTokenLaunch" where
  "waveOf avg stopProb cap x l = (let
      rampBlocks = waveLengthFrom x stopProb cap;
      waveBlockUsdcMult = (if rl_dud l then 0 else rl_waveUsdcMult l / avg)
    in l\<lparr>rl_waveUsdcMult := waveBlockUsdcMult * of_int rampBlocks,
         rl_waveBlockUsdcMult := Some waveBlockUsdcMult, rl_rampBlocks := Some rampBlocks\<rparr>)"

definition rampOf :: "resolvedTokenLaunch \<Rightarrow> int" where
  "rampOf l = (case rl_rampBlocks l of None \<Rightarrow> 0 | Some r \<Rightarrow> r)"

definition drawWaveLengths :: "real \<Rightarrow> (nat \<Rightarrow> real) \<Rightarrow> drawnWindow \<Rightarrow> drawnWindow" where
  "drawWaveLengths stopProb uniform w = (let
      cap = dw_rampBlocks w;
      avg = waveLengthMean stopProb cap;
      launches = map (\<lambda>(j, l). waveOf avg stopProb cap (uniform j) l) (enumerate 0 (launchListOf w));
      longest = fold max (map rampOf (filter (\<lambda>l. \<not> rl_dud l) launches)) 0
    in w\<lparr>dw_launches := Some launches, dw_span := dw_span w + (longest - dw_rampBlocks w),
         dw_rampBlocks := longest\<rparr>)"

definition drawPriceCeilings :: "real \<times> real \<Rightarrow> (nat \<Rightarrow> real) \<Rightarrow> drawnWindow \<Rightarrow> drawnWindow" where
  "drawPriceCeilings bounds uniform w =
    w\<lparr>dw_launches := Some (map (\<lambda>(j, l). l\<lparr>rl_priceCeilingMult := Some (lerp (fst bounds) (snd bounds) (uniform j))\<rparr>)
        (enumerate 0 (launchListOf w)))\<rparr>"

section \<open>Anchors\<close>

datatype stressError =
    NeedsFixedLength
  | BadWindowBase
  | StartsPastRun nat
  | NoSuchAnchor nat
  | ChainedAlign nat nat
  | CountAndAlign nat
  | WindowsDoNotFitRange nat
  | WindowsDoNotFitRun nat
  | FollowerTooLong nat int

text \<open>The nearest entry of the type above, else the first below.\<close>

definition nearestAbove :: "stressEventConfig list \<Rightarrow> stressEventType \<Rightarrow> nat \<Rightarrow> nat option" where
  "nearestAbove configs t i = List.find (\<lambda>j. sc_type (configs ! j) = t) (rev [0..<i])"

definition firstBelow :: "stressEventConfig list \<Rightarrow> stressEventType \<Rightarrow> nat \<Rightarrow> nat option" where
  "firstBelow configs t i = List.find (\<lambda>j. sc_type (configs ! j) = t) [Suc i..<length configs]"

definition resolveAnchor :: "stressEventConfig list \<Rightarrow> nat \<Rightarrow> stressError + nat option" where
  "resolveAnchor configs i = (let c = configs ! i in
    case sc_alignWith c of
      None \<Rightarrow> Inr None
    | Some t \<Rightarrow>
        (case (case nearestAbove configs t i of Some j \<Rightarrow> Some j | None \<Rightarrow> firstBelow configs t i) of
           None \<Rightarrow> Inl (NoSuchAnchor i)
         | Some a \<Rightarrow>
             throwIf (sc_alignWith (configs ! a) \<noteq> None) (ChainedAlign i a)
             (throwIf (sc_count c \<noteq> None) (CountAndAlign i)
             (Inr (Some a)))))"

section \<open>Placement\<close>

definition gapOf :: "stressEventConfig \<Rightarrow> int" where
  "gapOf c = (case sc_minGapBlocks c of None \<Rightarrow> 0 | Some g \<Rightarrow> g)"

definition stepsOf :: "int list \<Rightarrow> int \<Rightarrow> int list" where
  "stepsOf reach gap = map (\<lambda>(k, r). if Suc k < length reach then r + gap else r) (enumerate 0 reach)"

text \<open>The first loop: every window at its draw over the slack, after the windows already laid.\<close>

fun layStarts :: "real \<Rightarrow> real \<Rightarrow> real list \<Rightarrow> int list \<Rightarrow> int \<Rightarrow> int list" where
  "layStarts lo slack (u # us) (s # steps) laid =
     \<lfloor>lo + u * slack + of_int laid + 1 / 2\<rfloor> # layStarts lo slack us steps (laid + s)"
| "layStarts lo slack _ _ laid = []"

text \<open>The second loop, from the last window down: a start no later than its limit. The limit of a
  window is the start of the next less what it occupies; the last one's is given.\<close>

fun pullIn :: "int list \<Rightarrow> int list \<Rightarrow> int \<Rightarrow> int list" where
  "pullIn [] steps limit = []"
| "pullIn (x # xs) steps limit = (case pullIn xs (tl steps) limit of
     [] \<Rightarrow> [min x limit]
   | y # ys \<Rightarrow> min x (y - hd steps) # y # ys)"

definition placeWindows ::
  "nat \<Rightarrow> stressEventConfig \<Rightarrow> stressEventConfig list \<Rightarrow> int list \<Rightarrow> real list \<Rightarrow> int \<Rightarrow> real \<Rightarrow>
    stressError + int list" where
  "placeWindows index c followers reach startUs runBlocks windowBaseBlocks = (let
      gap = gapOf c;
      most = (case sc_count c of None \<Rightarrow> 0 | Some (_, hi) \<Rightarrow> hi);
      longest = fold max (map maxSpan followers) (maxSpan c);
      lo = fst (sc_windowFrac c) * windowBaseBlocks;
      hi = snd (sc_windowFrac c) * windowBaseBlocks
    in throwIf (of_int ((most - 1) * (longest + gap)) > hi - lo) (WindowsDoNotFitRange index)
      (throwIf (most * longest + (most - 1) * gap > runBlocks) (WindowsDoNotFitRun index)
      (if reach = [] then Inr []
       else let
           steps = stepsOf reach gap;
           slack = hi - lo - of_int (sum_list (butlast steps));
           starts = layStarts lo slack (sort startUs) steps 0
         in Inr (pullIn starts steps (runBlocks - last reach)))))"

section \<open>Resolving\<close>

definition resolveWindow :: "stressEventConfig \<Rightarrow> drawnWindow \<Rightarrow> int \<Rightarrow> resolvedStressEvent" where
  "resolveWindow c w startBlock = \<lparr>
     ev_type = (if dw_flipped w then (if sc_type c = Crash then Spike else Crash) else sc_type c),
     ev_base = (case sc_base c of None \<Rightarrow> ''WETH'' | Some b \<Rightarrow> b),
     ev_stable = sc_stable c,
     ev_magnitude = dw_magnitude w,
     ev_side = dw_side w,
     ev_kappaMult = dw_kappaMult w,
     ev_persist = sc_persist c,
     ev_repriceAnchor = dw_repriceAnchor w,
     ev_trendCorrelation = (if sc_type c = FlowTrend then sc_trendCorrelation c else None),
     ev_persistBlocks = (if sc_type c = FlowTrend then sc_persistBlocks c else None),
     ev_venue =
       (if sc_type c = Whale then Some (case dw_venue w of Some v \<Rightarrow> v
          | None \<Rightarrow> (case sc_venue c of Some (VenueIs v) \<Rightarrow> v | _ \<Rightarrow> UniswapVenue))
        else if sc_type c = LiquidityPull
        then (case sc_venue c of Some (VenueIs v) \<Rightarrow> Some v | _ \<Rightarrow> None) else None),
     ev_launches = dw_launches w,
     ev_startBlock = startBlock,
     ev_rampBlocks = dw_rampBlocks w,
     ev_holdBlocks = dw_holdBlocks w,
     ev_decayBlocks = dw_decayBlocks w,
     ev_endBlock = startBlock + dw_span w,
     ev_flippedFrom = (if dw_flipped w then Some (sc_type c) else None),
     ev_recoverFrac = dw_recoverFrac w\<rparr>"

section \<open>The schedule\<close>

fun drawWindows :: "stressEventConfig \<Rightarrow> draws \<Rightarrow> nat \<Rightarrow> nat \<Rightarrow> drawnWindow list \<times> nat" where
  "drawWindows c u 0 p = ([], p)"
| "drawWindows c u (Suc k) p = (let (w, p1) = drawWindow c u p; (ws, p2) = drawWindows c u k p1
    in (w # ws, p2))"

definition tokenStream :: "string \<Rightarrow> 32 word \<Rightarrow> nat \<Rightarrow> nat \<Rightarrow> nat \<Rightarrow> 32 word" where
  "tokenStream kind salt i k j = fnv1a32 (codes (kind @ '':'' @ decimal (unat salt) @ '':'' @
     decimal i @ '':'' @ decimal k @ '':'' @ decimal j))"

text \<open>How many windows an entry draws: the most its anchor can open.\<close>

definition slotsOf :: "stressEventConfig list \<Rightarrow> nat option list \<Rightarrow> nat \<Rightarrow> nat" where
  "slotsOf configs anchorOf i = (let lead = (case anchorOf ! i of None \<Rightarrow> configs ! i | Some a \<Rightarrow> configs ! a)
    in case sc_count lead of None \<Rightarrow> 1 | Some (_, hi) \<Rightarrow> nat hi)"

definition withLengths ::
  "(32 word \<Rightarrow> draws) \<Rightarrow> 32 word \<Rightarrow> stressEventConfig \<Rightarrow> nat \<Rightarrow> drawnWindow list \<Rightarrow> drawnWindow list" where
  "withLengths fromSeed salt c i windows = (case sc_waveStopProb c of
      None \<Rightarrow> windows
    | Some q \<Rightarrow> if sc_type c \<noteq> TokenLaunch then windows
        else map (\<lambda>(k, w). drawWaveLengths q
          (\<lambda>j. fromSeed (tokenStream ''launch-length'' salt i k j) 0) w) (enumerate 0 windows))"

definition withCeilings ::
  "(32 word \<Rightarrow> draws) \<Rightarrow> 32 word \<Rightarrow> stressEventConfig \<Rightarrow> nat \<Rightarrow> drawnWindow list \<Rightarrow> drawnWindow list" where
  "withCeilings fromSeed salt c i windows = (case sc_wavePriceCeiling c of
      None \<Rightarrow> windows
    | Some r \<Rightarrow> if sc_type c \<noteq> TokenLaunch then windows
        else map (\<lambda>(k, w). drawPriceCeilings r
          (\<lambda>j. fromSeed (tokenStream ''launch-ceiling'' salt i k j) 0) w) (enumerate 0 windows))"

text \<open>One entry: its count, its windows at their most, then the token streams.\<close>

definition drawCount :: "draws \<Rightarrow> stressEventConfig \<Rightarrow> nat \<Rightarrow> int option \<times> nat" where
  "drawCount u c p = (case sc_count c of None \<Rightarrow> (None, p)
     | Some r \<Rightarrow> (case drawInt u r p of (n, q) \<Rightarrow> (Some n, q)))"

definition drawEntry ::
  "(32 word \<Rightarrow> draws) \<Rightarrow> 32 word \<Rightarrow> stressEventConfig list \<Rightarrow> nat option list \<Rightarrow> nat \<Rightarrow> nat \<Rightarrow>
    (int option \<times> drawnWindow list) \<times> nat" where
  "drawEntry fromSeed salt configs anchorOf i p = (let
      u = fromSeed salt;
      c = configs ! i;
      (count, p1) = drawCount u c p;
      (windows, p2) = drawWindows c u (slotsOf configs anchorOf i) p1
    in ((count, withCeilings fromSeed salt c i (withLengths fromSeed salt c i windows)), p2))"

fun drawEntries ::
  "(32 word \<Rightarrow> draws) \<Rightarrow> 32 word \<Rightarrow> stressEventConfig list \<Rightarrow> nat option list \<Rightarrow> nat list \<Rightarrow> nat \<Rightarrow>
    (int option \<times> drawnWindow list) list \<times> nat" where
  "drawEntries fromSeed salt configs anchorOf [] p = ([], p)"
| "drawEntries fromSeed salt configs anchorOf (i # is1) p = (let
      (d, p1) = drawEntry fromSeed salt configs anchorOf i p;
      (ds, p2) = drawEntries fromSeed salt configs anchorOf is1 p1
    in (d # ds, p2))"

definition countOf :: "nat option list \<Rightarrow> (int option \<times> drawnWindow list) list \<Rightarrow> nat \<Rightarrow> int" where
  "countOf anchorOf drawn i =
    (case fst (drawn ! (case anchorOf ! i of None \<Rightarrow> i | Some a \<Rightarrow> a)) of None \<Rightarrow> 1 | Some n \<Rightarrow> n)"

definition followersOf :: "nat option list \<Rightarrow> nat \<Rightarrow> nat list" where
  "followersOf anchorOf i = filter (\<lambda>j. anchorOf ! j = Some i) [0..<length anchorOf]"

definition reachOf :: "(int option \<times> drawnWindow list) list \<Rightarrow> nat list \<Rightarrow> nat \<Rightarrow> drawnWindow \<Rightarrow> int" where
  "reachOf drawn followers k w = fold max (map (\<lambda>j. dw_span (snd (drawn ! j) ! k)) followers) (dw_span w)"

text \<open>The second pass, for one entry.\<close>

definition placeEntry ::
  "stressEventConfig list \<Rightarrow> nat option list \<Rightarrow> (int option \<times> drawnWindow list) list \<Rightarrow> int \<Rightarrow> real \<Rightarrow>
    nat \<Rightarrow> stressError + int list" where
  "placeEntry configs anchorOf drawn runBlocks windowBaseBlocks i = (let c = configs ! i in
    if anchorOf ! i \<noteq> None then Inr []
    else let windows = List.take (nat (countOf anchorOf drawn i)) (snd (drawn ! i)) in
      case sc_count c of
        None \<Rightarrow> (let
            w = hd windows;
            maxStart = max 0 (runBlocks - dw_span w);
            startFrac = lerp (fst (sc_windowFrac c)) (snd (sc_windowFrac c)) (dw_startU w)
          in Inr [max 0 (min \<lfloor>startFrac * windowBaseBlocks + 1 / 2\<rfloor> maxStart)])
      | Some _ \<Rightarrow> (let followers = followersOf anchorOf i in
          placeWindows i c (map (\<lambda>j. configs ! j) followers)
            (map (\<lambda>(k, w). reachOf drawn followers k w) (enumerate 0 windows))
            (map dw_startU windows) runBlocks windowBaseBlocks))"

text \<open>The third pass: a follower takes its anchor's starts, if its own windows end within the run.\<close>

definition followEntry ::
  "nat option list \<Rightarrow> (int option \<times> drawnWindow list) list \<Rightarrow> int \<Rightarrow> int list list \<Rightarrow> nat \<Rightarrow>
    stressError + int list" where
  "followEntry anchorOf drawn runBlocks starts i = (case anchorOf ! i of
      None \<Rightarrow> Inr (starts ! i)
    | Some a \<Rightarrow> mapR (\<lambda>(k, start).
        throwIf (start + dw_span (snd (drawn ! i) ! k) > runBlocks) (FollowerTooLong i start) (Inr start))
        (enumerate 0 (starts ! a)))"

definition scheduleSalt ::
  "(stressEventConfig list \<Rightarrow> string) \<Rightarrow> bool option \<Rightarrow> stressEventConfig list \<Rightarrow> 32 word" where
  "scheduleSalt canonical saltWithEventList configs =
    (if (case saltWithEventList of Some b \<Rightarrow> b | None \<Rightarrow> list_ex usesVariation configs)
     then STRESS_SEED_SALT XOR configDigest canonical configs else STRESS_SEED_SALT)"

definition eventSchedule ::
  "(32 word \<Rightarrow> draws) \<Rightarrow> (stressEventConfig list \<Rightarrow> string) \<Rightarrow> bool option \<Rightarrow> stressEventConfig list \<Rightarrow>
    int \<Rightarrow> real \<Rightarrow> stressError + resolvedStressEvent list" where
  "eventSchedule fromSeed canonical saltWithEventList configs runBlocks windowBaseBlocks =
    throwIf (configs \<noteq> [] \<and> runBlocks \<le> 0) NeedsFixedLength
    (throwIf (\<not> windowBaseBlocks > 0 \<or> windowBaseBlocks > of_int runBlocks) BadWindowBase
    (bindR (mapR (\<lambda>(i, c). throwIf (snd (sc_windowFrac c) * windowBaseBlocks > of_int runBlocks + 1 / 1000000)
        (StartsPastRun i) (Inr ())) (enumerate 0 configs)) (\<lambda>_.
     bindR (mapR (resolveAnchor configs) [0..<length configs]) (\<lambda>anchorOf. let
        salt = scheduleSalt canonical saltWithEventList configs;
        drawn = fst (drawEntries fromSeed salt configs anchorOf [0..<length configs] 0)
      in bindR (mapR (placeEntry configs anchorOf drawn runBlocks windowBaseBlocks) [0..<length configs]) (\<lambda>placed.
         bindR (mapR (followEntry anchorOf drawn runBlocks placed) [0..<length configs]) (\<lambda>starts.
           Inr (concat (map (\<lambda>i. map (\<lambda>(k, start).
               resolveWindow (configs ! i) (snd (drawn ! i) ! k) start) (enumerate 0 (starts ! i)))
             [0..<length configs]))))))))"

section \<open>Placement keeps windows apart and inside the run\<close>

fun spaced :: "int list \<Rightarrow> int list \<Rightarrow> bool" where
  "spaced (x # y # ys) (s # steps) \<longleftrightarrow> x + s \<le> y \<and> spaced (y # ys) steps"
| "spaced _ _ \<longleftrightarrow> True"

fun laidAbove :: "int \<Rightarrow> int list \<Rightarrow> int list \<Rightarrow> bool" where
  "laidAbove laid (x # xs) (s # steps) \<longleftrightarrow> laid \<le> x \<and> laidAbove (laid + s) xs steps"
| "laidAbove laid _ _ \<longleftrightarrow> True"

lemma length_pullIn [simp]: "length (pullIn xs steps limit) = length xs"
  by (induction xs steps limit rule: pullIn.induct) (auto split: list.splits)

lemma pullIn_Nil [simp]: "pullIn xs steps limit = [] \<longleftrightarrow> xs = []"
  by (metis length_0_conv length_pullIn)

lemma length_layStarts [simp]: "length (layStarts lo slack us steps laid) = min (length us) (length steps)"
  by (induction lo slack us steps laid rule: layStarts.induct) auto

lemma pullIn_spaced: "length steps = length xs \<Longrightarrow> spaced (pullIn xs steps limit) steps"
proof (induction xs steps limit rule: pullIn.induct)
  case (2 x xs steps limit)
  obtain s steps' where steps: "steps = s # steps'" using 2(2) by (cases steps) auto
  have ih: "spaced (pullIn xs steps' limit) steps'" using 2 steps by simp
  show ?case
  proof (cases "pullIn xs steps' limit")
    case Nil
    then show ?thesis by (simp add: steps)
  next
    case (Cons y ys)
    with ih show ?thesis by (simp add: steps)
  qed
qed simp

lemma pullIn_last: "xs \<noteq> [] \<Longrightarrow> last (pullIn xs steps limit) \<le> limit"
proof (induction xs steps limit rule: pullIn.induct)
  case (2 x xs steps limit)
  show ?case
  proof (cases "pullIn xs (tl steps) limit")
    case Nil
    then show ?thesis by simp
  next
    case (Cons y ys)
    then have "xs \<noteq> []" by auto
    with 2 Cons show ?thesis by simp
  qed
qed simp

lemma pullIn_le: "list_all2 (\<le>) (pullIn xs steps limit) xs"
proof (induction xs steps limit rule: pullIn.induct)
  case (2 x xs steps limit)
  then show ?case by (cases "pullIn xs (tl steps) limit") auto
qed simp

lemma pullIn_above:
  assumes "laidAbove laid xs steps" "length steps = length xs" "laid + sum_list (butlast steps) \<le> limit"
  shows "laidAbove laid (pullIn xs steps limit) steps"
  using assms
proof (induction xs steps limit arbitrary: laid rule: pullIn.induct)
  case (2 x xs steps limit)
  obtain s steps' where steps: "steps = s # steps'" using 2(3) by (cases steps) auto
  show ?case
  proof (cases xs)
    case Nil
    with 2(2-4) steps show ?thesis by simp
  next
    case (Cons x' xs')
    then have "laidAbove (laid + s) (pullIn xs steps' limit) steps'"
      using 2(1) [of "laid + s"] 2(2-4) steps by (cases steps') (auto simp: add.assoc)
    moreover obtain y ys where "pullIn xs steps' limit = y # ys" using Cons
      by (cases "pullIn xs steps' limit") (auto simp del: pullIn.simps)
    moreover obtain s' steps'' where "steps' = s' # steps''" using 2(3) steps Cons by (cases steps') auto
    ultimately show ?thesis using 2(2) steps by simp
  qed
qed simp

lemma layStarts_above:
  assumes "0 \<le> lo" "0 \<le> slack" "list_all (\<lambda>u. 0 \<le> u) us"
  shows "laidAbove laid (layStarts lo slack us steps laid) steps"
  using assms
proof (induction lo slack us steps laid rule: layStarts.induct)
  case (1 lo slack u us s steps laid)
  have "0 \<le> lo + u * slack" using 1 by simp
  then have "laid \<le> \<lfloor>lo + u * slack + of_int laid + 1 / 2\<rfloor>" by (simp add: le_floor_iff)
  with 1 show ?case by simp
qed auto

lemma layStarts_below:
  assumes "0 \<le> slack" "list_all (\<lambda>u. u \<le> 1) us" "list_all (\<lambda>s. 0 \<le> s) steps" "length us = length steps"
    and "lo + slack + of_int (laid + sum_list (butlast steps)) \<le> hi"
  shows "list_all (\<lambda>x. of_int x \<le> hi + 1 / 2) (layStarts lo slack us steps laid)"
  using assms
proof (induction lo slack us steps laid rule: layStarts.induct)
  case (1 lo slack u us s steps laid)
  have us: "u * slack \<le> slack" using 1(2,3) mult_right_mono [of u 1 slack] by simp
  have "0 \<le> sum_list (butlast (s # steps))"
    using 1(4) by (intro sum_list_nonneg) (auto simp: list_all_iff dest: in_set_butlastD split: if_splits)
  then have "lo + u * slack + of_int laid + 1 / 2 \<le> hi + 1 / 2" using us 1(6) by simp
  then have "of_int \<lfloor>lo + u * slack + of_int laid + 1 / 2\<rfloor> \<le> hi + 1 / 2" by linarith
  moreover have "list_all (\<lambda>x. of_int x \<le> hi + 1 / 2) (layStarts lo slack us steps (laid + s))"
  proof (cases steps)
    case Nil
    then show ?thesis by (cases us) auto
  next
    case (Cons a list)
    with 1 show ?thesis by (intro 1(1)) (auto simp: add.assoc)
  qed
  ultimately show ?case by simp
qed auto

lemma layStarts_spaced:
  "0 \<le> slack \<Longrightarrow> sorted us \<Longrightarrow> spaced (layStarts lo slack us steps laid) steps"
proof (induction lo slack us steps laid rule: layStarts.induct)
  case (1 lo slack u us s steps laid)
  show ?case
  proof (cases "us = [] \<or> steps = []")
    case True
    then show ?thesis by (auto simp: neq_Nil_conv split: list.splits)
  next
    case False
    then obtain u' us' s' steps' where e: "us = u' # us'" "steps = s' # steps'"
      by (auto simp: neq_Nil_conv)
    have "u * slack \<le> u' * slack" using 1(2,3) e by (intro mult_right_mono) auto
    then have "lo + u * slack + of_int laid + 1 / 2 + of_int s \<le> lo + u' * slack + of_int (laid + s) + 1 / 2"
      by simp
    then have "\<lfloor>lo + u * slack + of_int laid + 1 / 2\<rfloor> + s \<le> \<lfloor>lo + u' * slack + of_int (laid + s) + 1 / 2\<rfloor>"
      by (metis floor_add_int floor_mono)
    with 1 e show ?thesis by simp
  qed
qed auto

text \<open>
  What a placement promises: each window's blocks and the gap fit before the next one starts, no
  window starts before the run or ends after it, and none starts after the range its starts may fall in.
\<close>

definition placedApart :: "int list \<Rightarrow> int list \<Rightarrow> int \<Rightarrow> int \<Rightarrow> bool" where
  "placedApart starts reach gap runBlocks \<longleftrightarrow> length starts = length reach \<and>
    (\<forall>k. Suc k < length starts \<longrightarrow> starts ! k + reach ! k + gap \<le> starts ! Suc k) \<and>
    (\<forall>k < length starts. 0 \<le> starts ! k \<and> starts ! k + reach ! k \<le> runBlocks)"

lemma spaced_nth:
  "spaced xs steps \<Longrightarrow> length steps = length xs \<Longrightarrow> Suc k < length xs \<Longrightarrow> xs ! k + steps ! k \<le> xs ! Suc k"
proof (induction xs steps arbitrary: k rule: spaced.induct)
  case (1 x y ys s steps)
  then show ?case by (cases k) auto
qed auto

lemma laidAbove_nth:
  "laidAbove laid xs steps \<Longrightarrow> length steps = length xs \<Longrightarrow> list_all (\<lambda>s. 0 \<le> s) steps \<Longrightarrow> k < length xs \<Longrightarrow>
    laid \<le> xs ! k"
proof (induction laid xs steps arbitrary: k rule: laidAbove.induct)
  case (1 laid x xs s steps)
  show ?case
  proof (cases k)
    case 0
    then show ?thesis using 1 by simp
  next
    case (Suc j)
    then have "laid + s \<le> xs ! j" using 1 by auto
    moreover have "0 \<le> s" using 1 by simp
    ultimately show ?thesis using Suc by simp
  qed
qed auto

lemma length_stepsOf [simp]: "length (stepsOf reach gap) = length reach"
  by (simp add: stepsOf_def)

lemma stepsOf_nth:
  "k < length reach \<Longrightarrow> stepsOf reach gap ! k = (if Suc k < length reach then reach ! k + gap else reach ! k)"
  by (simp add: stepsOf_def nth_enumerate_eq)

lemma stepsOf_eq: "reach \<noteq> [] \<Longrightarrow> stepsOf reach gap = map (\<lambda>r. r + gap) (butlast reach) @ [last reach]"
proof (rule nth_equalityI)
  fix k assume ne: "reach \<noteq> []" and "k < length (stepsOf reach gap)"
  then have k: "k < length reach" by simp
  show "stepsOf reach gap ! k = (map (\<lambda>r. r + gap) (butlast reach) @ [last reach]) ! k"
  proof (cases "Suc k < length reach")
    case True
    moreover from True have "k < length reach - 1" by simp
    ultimately show ?thesis by (simp add: stepsOf_nth nth_append nth_butlast)
  next
    case False
    then have "k = length reach - 1" using k by simp
    with ne show ?thesis by (simp add: stepsOf_nth nth_append last_conv_nth)
  qed
qed simp

lemma butlast_stepsOf: "butlast (stepsOf reach gap) = map (\<lambda>r. r + gap) (butlast reach)"
  by (cases "reach = []") (simp_all add: stepsOf_eq, simp add: stepsOf_def)

lemma sum_le_most:
  "list_all (\<lambda>r. r \<le> (m :: int)) xs \<Longrightarrow> sum_list xs \<le> int (length xs) * m"
  by (induction xs) (auto simp: algebra_simps)

lemma step_sum_bound:
  assumes "list_all (\<lambda>r. 0 \<le> r \<and> r \<le> longest) reach" "0 \<le> gap" "0 \<le> longest" "int (length reach) \<le> most" "reach \<noteq> []"
  shows "sum_list (butlast (stepsOf reach gap)) \<le> (most - 1) * (longest + gap)"
proof -
  have "sum_list (map (\<lambda>r. r + gap) (butlast reach)) \<le> int (length (butlast reach)) * (longest + gap)"
    using sum_le_most [of "longest + gap" "map (\<lambda>r. r + gap) (butlast reach)"] assms(1)
    by (auto simp: list_all_iff dest: in_set_butlastD)
  also have "\<dots> \<le> (most - 1) * (longest + gap)"
    using assms by (intro mult_right_mono) (auto simp: of_nat_diff Suc_le_eq)
  finally show ?thesis by (simp add: butlast_stepsOf)
qed

lemma fold_max_ge1: "(x :: int) \<le> fold max ys x"
  by (induction ys arbitrary: x) (auto intro: order_trans [OF max.cobounded2])

lemma fold_max_ge2: "y \<in> set ys \<Longrightarrow> y \<le> fold max ys (x :: int)"
  by (induction ys arbitrary: x) (auto intro: order_trans [OF max.cobounded1 fold_max_ge1])

definition entryLongest :: "stressEventConfig \<Rightarrow> stressEventConfig list \<Rightarrow> int" where
  "entryLongest c followers = fold max (map maxSpan followers) (maxSpan c)"

definition countMost :: "stressEventConfig \<Rightarrow> int" where
  "countMost c = (case sc_count c of None \<Rightarrow> 0 | Some (_, hi) \<Rightarrow> hi)"

lemma list_all_le_trans:
  "list_all (\<lambda>x. of_int x \<le> (h :: real)) ys \<Longrightarrow> list_all2 (\<le>) xs ys \<Longrightarrow> list_all (\<lambda>x. of_int x \<le> h) xs"
proof (induction xs arbitrary: ys)
  case (Cons x xs)
  from Cons.prems obtain y ys' where y: "ys = y # ys'" "x \<le> y" "list_all2 (\<le>) xs ys'"
    by (auto simp: list_all2_Cons1)
  then have "real_of_int x \<le> real_of_int y" by simp
  with Cons y show ?case by (auto intro: order_trans)
qed simp

lemma placeWindows_apart:
  assumes place: "placeWindows index c followers reach startUs runBlocks base = Inr starts"
    and reach: "list_all (\<lambda>r. 0 \<le> r \<and> r \<le> entryLongest c followers) reach" "int (length reach) \<le> countMost c"
    and us: "length startUs = length reach" "list_all (\<lambda>u. 0 \<le> u \<and> u \<le> 1) startUs"
    and gap: "0 \<le> gapOf c" and lo: "0 \<le> fst (sc_windowFrac c) * base"
  shows "placedApart starts reach (gapOf c) runBlocks \<and>
    list_all (\<lambda>x. of_int x \<le> snd (sc_windowFrac c) * base + 1 / 2) starts"
proof (cases "reach = []")
  case True
  with place show ?thesis by (auto simp: placeWindows_def Let_def placedApart_def)
next
  case False
  define gap where "gap = gapOf c"
  define longest where "longest = entryLongest c followers"
  define most where "most = countMost c"
  define lo where "lo = fst (sc_windowFrac c) * base"
  define hi where "hi = snd (sc_windowFrac c) * base"
  define steps where "steps = stepsOf reach gap"
  define slack where "slack = hi - lo - of_int (sum_list (butlast steps))"
  define us where "us = sort startUs"
  define xs where "xs = layStarts lo slack us steps 0"
  have fits: "of_int ((most - 1) * (longest + gap)) \<le> hi - lo" "most * longest + (most - 1) * gap \<le> runBlocks"
    and starts: "starts = pullIn xs steps (runBlocks - last reach)"
    using place False
    by (auto simp: placeWindows_def Let_def throwIf_def xs_def us_def slack_def steps_def hi_def lo_def
        most_def longest_def gap_def countMost_def entryLongest_def split: if_splits)
  have reach': "list_all (\<lambda>r. 0 \<le> r \<and> r \<le> longest) reach" "int (length reach) \<le> most"
    using reach by (simp_all add: longest_def most_def)
  obtain r0 where "r0 \<in> set reach" using False by (cases reach) auto
  then have longest0: "0 \<le> longest" using reach'(1) by (force simp: list_all_iff)
  have gap0: "0 \<le> gap" using assms(6) by (simp add: gap_def)
  note sum = step_sum_bound [OF reach'(1) gap0 longest0 reach'(2) False, folded steps_def]
  have slack0: "0 \<le> slack" using sum fits(1) unfolding slack_def by linarith
  have len: "length us = length reach" "length steps = length reach" "length xs = length reach"
    using assms(4) by (simp_all add: us_def steps_def xs_def)
  have us01: "list_all (\<lambda>u. 0 \<le> u) us" "list_all (\<lambda>u. u \<le> 1) us"
    using assms(5) by (auto simp: us_def list_all_iff)
  have steps0: "list_all (\<lambda>s. 0 \<le> s) steps"
    using reach'(1) gap0 by (auto simp: list_all_length steps_def stepsOf_nth)
  have lastr: "0 \<le> last reach" "last reach \<le> longest"
    using reach'(1) False by (auto simp: list_all_iff)
  have limit: "sum_list (butlast steps) \<le> runBlocks - last reach"
  proof -
    have "sum_list (butlast steps) + last reach \<le> (most - 1) * (longest + gap) + longest"
      using sum lastr(2) by simp
    also have "\<dots> = most * longest + (most - 1) * gap" by (simp add: algebra_simps)
    finally show ?thesis using fits(2) by simp
  qed
  have spaced: "spaced starts steps" unfolding starts by (rule pullIn_spaced) (simp add: len)
  have "0 \<le> lo" using assms(7) by (simp add: lo_def)
  then have above: "laidAbove 0 starts steps"
    unfolding starts using layStarts_above [OF _ slack0 us01(1), of lo 0 steps] limit
    by (intro pullIn_above) (simp_all add: xs_def len)
  have lens: "length starts = length reach" by (simp add: starts len)
  have step_le: "reach ! k + (if Suc k < length reach then gap else 0) = steps ! k" if "k < length reach" for k
    using that by (simp add: steps_def stepsOf_nth)
  have apart: "starts ! k + reach ! k + gap \<le> starts ! Suc k" if "Suc k < length starts" for k
    using spaced_nth [OF spaced _ that] step_le [of k] that lens len by simp
  have lo_start: "0 \<le> starts ! k" if "k < length starts" for k
    using laidAbove_nth [OF above _ steps0 that] len lens by simp
  have inside: "starts ! k + reach ! k \<le> runBlocks" if k: "k < length starts" for k
    using k
  proof (induction "length starts - k" arbitrary: k)
    case 0
    then show ?case by simp
  next
    case (Suc n)
    show ?case
    proof (cases "Suc k < length starts")
      case True
      then have "starts ! Suc k + reach ! Suc k \<le> runBlocks" using Suc by simp
      moreover have "0 \<le> reach ! Suc k" using reach'(1) True lens by (auto simp: list_all_length)
      ultimately show ?thesis using apart [OF True] gap0 by simp
    next
      case False
      then have k: "k = length reach - 1" using Suc.prems lens by simp
      have "last starts \<le> runBlocks - last reach"
        unfolding starts using \<open>reach \<noteq> []\<close> len by (intro pullIn_last) auto
      moreover have "starts \<noteq> []" using lens \<open>reach \<noteq> []\<close> by auto
      ultimately show ?thesis using k lens \<open>reach \<noteq> []\<close> by (simp add: last_conv_nth)
    qed
  qed
  have "list_all (\<lambda>x. of_int x \<le> hi + 1 / 2) xs"
    unfolding xs_def using slack0 us01(2) steps0 len
    by (intro layStarts_below) (simp_all add: slack_def)
  moreover have "list_all2 (\<le>) starts xs" unfolding starts by (rule pullIn_le)
  ultimately have "list_all (\<lambda>x. of_int x \<le> hi + 1 / 2) starts"
    by (rule list_all_le_trans)
  then show ?thesis
    using lens apart lo_start inside by (simp add: placedApart_def gap_def hi_def)
qed

section \<open>What a draw can give\<close>

fun blocksOk :: "blockCount \<Rightarrow> bool" where
  "blocksOk (FixedBlocks n) \<longleftrightarrow> 0 \<le> n"
| "blocksOk (DrawnBlocks lo hi) \<longleftrightarrow> 0 \<le> lo \<and> lo \<le> hi"

definition optOk :: "('a \<Rightarrow> bool) \<Rightarrow> 'a option \<Rightarrow> bool" where
  "optOk P v = (case v of None \<Rightarrow> True | Some x \<Rightarrow> P x)"

lemma optOk_simps [simp]: "optOk P None" "optOk P (Some x) \<longleftrightarrow> P x"
  by (simp_all add: optOk_def)

text \<open>An entry in the ranges the parser accepts.\<close>

definition configOk :: "stressEventConfig \<Rightarrow> bool" where
  "configOk c \<longleftrightarrow>
    0 \<le> fst (sc_magnitudeRange c) \<and> fst (sc_magnitudeRange c) \<le> snd (sc_magnitudeRange c) \<and>
    0 \<le> fst (sc_windowFrac c) \<and> fst (sc_windowFrac c) \<le> snd (sc_windowFrac c) \<and>
    blocksOk (sc_rampBlocks c) \<and> blocksOk (sc_holdBlocks c) \<and> blocksOk (sc_decayBlocks c) \<and>
    optOk (\<lambda>(lo, hi). 0 \<le> lo \<and> lo \<le> hi \<and> hi \<le> 1) (sc_recoverFrac c) \<and>
    optOk (\<lambda>(lo, hi). 0 \<le> lo \<and> lo \<le> hi) (sc_count c) \<and>
    optOk (\<lambda>g. 0 \<le> g) (sc_minGapBlocks c) \<and>
    optOk (\<lambda>q. 0 < q \<and> q < 1 \<and> sc_type c = TokenLaunch \<and> 1 \<le> blockCountMax (sc_rampBlocks c) \<and> \<not> isDrawn (sc_rampBlocks c))
      (sc_waveStopProb c)"

definition uniformDraws :: "draws \<Rightarrow> bool" where
  "uniformDraws u \<longleftrightarrow> (\<forall>n. 0 \<le> u n \<and> u n < 1)"

lemma lerp_range:
  assumes "a \<le> b" "0 \<le> t" "t \<le> 1"
  shows "a \<le> lerp a b t" "lerp a b t \<le> b"
proof -
  have "0 \<le> (b - a) * t" "(b - a) * t \<le> (b - a) * 1"
    using assms by (simp, intro mult_left_mono) auto
  then show "a \<le> lerp a b t" "lerp a b t \<le> b" by (simp_all add: lerp_def)
qed

lemma drawInt_range: "lo \<le> hi \<Longrightarrow> lo \<le> fst (drawInt u (lo, hi) p) \<and> fst (drawInt u (lo, hi) p) \<le> hi"
  by (auto simp: drawInt_def)

text \<open>Every value of the range is met: the draw is \<open>lo + k\<close> exactly on the \<open>k\<close>-th of the equal parts of [0, 1).\<close>

lemma drawInt_exact:
  assumes "lo \<le> hi" "0 \<le> u p" "u p < 1"
  shows "fst (drawInt u (lo, hi) p) = lo + \<lfloor>u p * of_int (hi + 1 - lo)\<rfloor>"
proof -
  have e: "\<lfloor>lerp (of_int lo) (of_int (hi + 1)) (u p)\<rfloor> = lo + \<lfloor>u p * of_int (hi + 1 - lo)\<rfloor>"
  proof -
    have "lerp (of_int lo) (of_int (hi + 1)) (u p) = u p * of_int (hi + 1 - lo) + of_int lo"
      by (simp add: lerp_def algebra_simps)
    then show ?thesis using floor_add_int [of "u p * of_int (hi + 1 - lo)" lo] by linarith
  qed
  have "0 \<le> \<lfloor>u p * of_int (hi + 1 - lo)\<rfloor>" using assms by simp
  moreover have "u p * of_int (hi + 1 - lo) < 1 * of_int (hi + 1 - lo)"
    using assms by (intro mult_strict_right_mono) auto
  then have "\<lfloor>u p * of_int (hi + 1 - lo)\<rfloor> < hi + 1 - lo" by (simp add: floor_less_iff)
  ultimately show ?thesis unfolding drawInt_def prod.case fst_conv e by simp
qed

lemma drawBlockCount_range:
  "blocksOk v \<Longrightarrow> 0 \<le> fst (drawBlockCount u v p) \<and> fst (drawBlockCount u v p) \<le> blockCountMax v"
proof (cases v)
  case (DrawnBlocks lo hi)
  assume "blocksOk v"
  with DrawnBlocks drawInt_range [of lo hi u p] show ?thesis by (simp add: drawBlockCount_def)
qed (simp add: drawBlockCount_def)

lemma drawBlockCount_fixed: "\<not> isDrawn v \<Longrightarrow> fst (drawBlockCount u v p) = blockCountMax v"
  by (cases v) (simp_all add: drawBlockCount_def)

text \<open>A drawn window of an entry: its segments and its size in the entry's ranges, its span its own.\<close>

definition windowOk :: "stressEventConfig \<Rightarrow> drawnWindow \<Rightarrow> bool" where
  "windowOk c w \<longleftrightarrow>
    fst (sc_magnitudeRange c) \<le> dw_magnitude w \<and> dw_magnitude w \<le> snd (sc_magnitudeRange c) \<and>
    0 \<le> dw_startU w \<and> dw_startU w \<le> 1 \<and>
    0 \<le> dw_rampBlocks w \<and> dw_rampBlocks w \<le> blockCountMax (sc_rampBlocks c) \<and>
    0 \<le> dw_holdBlocks w \<and> dw_holdBlocks w \<le> blockCountMax (sc_holdBlocks c) \<and>
    0 \<le> dw_decayBlocks w \<and> dw_decayBlocks w \<le> blockCountMax (sc_decayBlocks c) \<and>
    optOk (\<lambda>f. 0 \<le> f \<and> f \<le> 1) (dw_recoverFrac w) \<and>
    (dw_flipped w \<longrightarrow> sc_flipProb c \<noteq> None) \<and>
    dw_span w = (if isPointEvent (sc_type c) then POINT_EVENT_SPAN
      else leadBlocks (sc_type c) + dw_rampBlocks w + dw_holdBlocks w + dw_decayBlocks w)"

lemma drawWindow_ok:
  assumes "configOk c" "uniformDraws u"
  shows "windowOk c (fst (drawWindow c u p))"
proof -
  have u: "0 \<le> u n" "u n \<le> 1" for n using assms(2) by (auto simp: uniformDraws_def less_imp_le)
  have rf: "optOk (\<lambda>f. 0 \<le> f \<and> f \<le> 1) (case (fst (drawIf (sc_recoverFrac c \<noteq> None) u q), sc_recoverFrac c) of
      (Some x, Some (lo, hi)) \<Rightarrow> Some (lerp lo hi x) | _ \<Rightarrow> None)" for q
  proof (cases "sc_recoverFrac c")
    case None
    then show ?thesis by (simp add: drawIf_def)
  next
    case (Some r)
    obtain lo hi where r: "r = (lo, hi)" by fastforce
    with Some assms(1) have "0 \<le> lo" "lo \<le> hi" "hi \<le> 1" by (simp_all add: configOk_def)
    then show ?thesis using Some r lerp_range [of lo hi "u q"] u by (auto simp: drawIf_def)
  qed
  have m: "fst (sc_magnitudeRange c) \<le> snd (sc_magnitudeRange c)" using assms(1) by (simp add: configOk_def)
  note seg = drawBlockCount_range [of "sc_rampBlocks c" u] drawBlockCount_range [of "sc_holdBlocks c" u]
    drawBlockCount_range [of "sc_decayBlocks c" u]
  have b: "blocksOk (sc_rampBlocks c)" "blocksOk (sc_holdBlocks c)" "blocksOk (sc_decayBlocks c)"
    using assms(1) by (simp_all add: configOk_def)
  have flips: "below d (sc_flipProb c) \<longrightarrow> sc_flipProb c \<noteq> None" for d
    by (auto simp: below_def split: option.splits)
  show ?thesis
    using rf lerp_range [OF m u(1) u(2)] u seg b flips
    by (simp add: drawWindow_def Let_def case_prod_unfold windowOk_def)
qed

lemma waveLengthFrom_range: "1 \<le> cap \<Longrightarrow> 1 \<le> waveLengthFrom u q cap \<and> waveLengthFrom u q cap \<le> cap"
  by (auto simp: waveLengthFrom_def)

lemma fold_max_bounds: "(\<And>y. y \<in> set ys \<Longrightarrow> y \<le> (m :: int)) \<Longrightarrow> x \<le> m \<Longrightarrow> fold max ys x \<le> m"
  by (induction ys arbitrary: x) auto

lemma drawWaveLengths_ok:
  assumes w: "windowOk c w" and cap: "1 \<le> dw_rampBlocks w" and type: "sc_type c = TokenLaunch"
  shows "windowOk c (drawWaveLengths q f w)"
proof -
  let ?launches = "map (\<lambda>(j, l). waveOf (waveLengthMean q (dw_rampBlocks w)) q (dw_rampBlocks w) (f j) l)
    (enumerate 0 (launchListOf w))"
  let ?longest = "fold max (map rampOf (filter (\<lambda>l. \<not> rl_dud l) ?launches)) 0"
  have "0 \<le> ?longest" by (rule fold_max_ge1)
  moreover have "?longest \<le> dw_rampBlocks w"
    using cap waveLengthFrom_range [OF cap]
    by (intro fold_max_bounds) (auto simp: waveOf_def rampOf_def Let_def)
  ultimately show ?thesis
    using w type by (simp add: windowOk_def drawWaveLengths_def Let_def isPointEvent_def)
qed

lemma drawPriceCeilings_ok: "windowOk c w \<Longrightarrow> windowOk c (drawPriceCeilings r f w)"
  by (simp add: windowOk_def drawPriceCeilings_def)

lemma drawWindows_ok:
  "configOk c \<Longrightarrow> uniformDraws u \<Longrightarrow> length (fst (drawWindows c u k p)) = k \<and>
    list_all (windowOk c) (fst (drawWindows c u k p))"
  using drawWindow_ok [of c u] by (induction k arbitrary: p) (simp_all add: case_prod_unfold Let_def)

lemma drawWindow_fixed_ramp:
  "\<not> isDrawn (sc_rampBlocks c) \<Longrightarrow> dw_rampBlocks (fst (drawWindow c u p)) = blockCountMax (sc_rampBlocks c)"
  by (simp add: drawWindow_def Let_def case_prod_unfold drawBlockCount_fixed)

lemma drawWindows_fixed_ramp:
  "\<not> isDrawn (sc_rampBlocks c) \<Longrightarrow>
    list_all (\<lambda>w. dw_rampBlocks w = blockCountMax (sc_rampBlocks c)) (fst (drawWindows c u k p))"
  using drawWindow_fixed_ramp [of c u] by (induction k arbitrary: p) (simp_all add: case_prod_unfold Let_def)

lemma enumerate_all:
  assumes "list_all P ws" "\<And>k w. P w \<Longrightarrow> w \<in> set ws \<Longrightarrow> Q (f k w)"
  shows "list_all Q (map (\<lambda>(k, w). f k w) (enumerate n ws))"
  using assms by (auto simp: list_all_iff enumerate_eq_zip dest: set_zip_rightD)

lemma withLengths_ok:
  assumes ok: "configOk c" and ws: "list_all (windowOk c) ws"
    and ramp: "\<not> isDrawn (sc_rampBlocks c) \<Longrightarrow> list_all (\<lambda>w. dw_rampBlocks w = blockCountMax (sc_rampBlocks c)) ws"
  shows "list_all (windowOk c) (withLengths fromSeed salt c i ws)"
proof (cases "sc_waveStopProb c")
  case None
  with ws show ?thesis by (simp add: withLengths_def)
next
  case (Some q)
  then have t: "sc_type c = TokenLaunch" "\<not> isDrawn (sc_rampBlocks c)" "1 \<le> blockCountMax (sc_rampBlocks c)"
    using ok by (simp_all add: configOk_def)
  have "list_all (\<lambda>w. windowOk c w \<and> 1 \<le> dw_rampBlocks w) ws"
    using ws ramp [OF t(2)] t(3) by (auto simp: list_all_iff)
  then have "list_all (windowOk c) (map (\<lambda>(k, w).
      drawWaveLengths q (\<lambda>j. fromSeed (tokenStream ''launch-length'' salt i k j) 0) w) (enumerate 0 ws))"
    by (rule enumerate_all) (simp add: drawWaveLengths_ok t(1))
  then show ?thesis using Some t(1) by (simp add: withLengths_def)
qed

lemma withCeilings_ok:
  assumes ws: "list_all (windowOk c) ws"
  shows "list_all (windowOk c) (withCeilings fromSeed salt c i ws)"
proof (cases "sc_wavePriceCeiling c")
  case (Some r)
  have "list_all (windowOk c) (map (\<lambda>(k, w).
      drawPriceCeilings r (\<lambda>j. fromSeed (tokenStream ''launch-ceiling'' salt i k j) 0) w) (enumerate 0 ws))"
    by (rule enumerate_all [OF ws]) (rule drawPriceCeilings_ok)
  with Some ws show ?thesis by (simp add: withCeilings_def)
qed (simp add: withCeilings_def ws)

lemma length_with [simp]:
  "length (withLengths fromSeed salt c i ws) = length ws" "length (withCeilings fromSeed salt c i ws) = length ws"
  by (auto simp: withLengths_def withCeilings_def split: option.split)

lemma drawEntry_ok:
  assumes ok: "configOk (configs ! i)" and u: "\<And>s. uniformDraws (fromSeed s)"
  shows "length (snd (fst (drawEntry fromSeed salt configs anchorOf i p))) = slotsOf configs anchorOf i \<and>
    list_all (windowOk (configs ! i)) (snd (fst (drawEntry fromSeed salt configs anchorOf i p))) \<and>
    (case sc_count (configs ! i) of None \<Rightarrow> fst (fst (drawEntry fromSeed salt configs anchorOf i p)) = None
     | Some (lo, hi) \<Rightarrow> (\<exists>n. fst (fst (drawEntry fromSeed salt configs anchorOf i p)) = Some n \<and> lo \<le> n \<and> n \<le> hi))"
proof -
  let ?c = "configs ! i"
  define p1 where "p1 = snd (drawCount (fromSeed salt) ?c p)"
  define ws where "ws = fst (drawWindows ?c (fromSeed salt) (slotsOf configs anchorOf i) p1)"
  have eq: "fst (drawEntry fromSeed salt configs anchorOf i p) = (fst (drawCount (fromSeed salt) ?c p),
      withCeilings fromSeed salt ?c i (withLengths fromSeed salt ?c i ws))"
    by (simp add: drawEntry_def Let_def case_prod_unfold p1_def ws_def)
  have ws: "length ws = slotsOf configs anchorOf i" "list_all (windowOk ?c) ws"
    using drawWindows_ok [OF ok u] by (simp_all add: ws_def)
  have ramp: "list_all (\<lambda>w. dw_rampBlocks w = blockCountMax (sc_rampBlocks ?c)) ws"
    if "\<not> isDrawn (sc_rampBlocks ?c)"
    using drawWindows_fixed_ramp [OF that] by (simp add: ws_def)
  have "case sc_count ?c of None \<Rightarrow> fst (drawCount (fromSeed salt) ?c p) = None
     | Some (lo, hi) \<Rightarrow> (\<exists>n. fst (drawCount (fromSeed salt) ?c p) = Some n \<and> lo \<le> n \<and> n \<le> hi)"
  proof (cases "sc_count ?c")
    case (Some r)
    obtain lo hi where r: "r = (lo, hi)" by fastforce
    with Some ok have "lo \<le> hi" by (simp add: configOk_def)
    with drawInt_range [of lo hi "fromSeed salt" p] Some r show ?thesis
      by (simp add: drawCount_def case_prod_unfold)
  qed (simp add: drawCount_def)
  then show ?thesis
    unfolding eq fst_conv snd_conv using ws withCeilings_ok [OF withLengths_ok [OF ok ws(2) ramp]] by simp
qed

section \<open>The schedule as a whole\<close>

lemma drawEntries_nth:
  "length (fst (drawEntries fromSeed salt configs anchorOf is1 p)) = length is1 \<and>
    (\<forall>n < length is1. \<exists>q. fst (drawEntries fromSeed salt configs anchorOf is1 p) ! n =
      fst (drawEntry fromSeed salt configs anchorOf (is1 ! n) q))"
proof (induction is1 arbitrary: p)
  case Nil
  then show ?case by simp
next
  case (Cons i is1)
  let ?p1 = "snd (drawEntry fromSeed salt configs anchorOf i p)"
  have eq: "fst (drawEntries fromSeed salt configs anchorOf (i # is1) p) =
      fst (drawEntry fromSeed salt configs anchorOf i p) # fst (drawEntries fromSeed salt configs anchorOf is1 ?p1)"
    by (simp add: Let_def case_prod_unfold)
  show ?case
    unfolding eq using Cons.IH [of ?p1] by (auto simp: nth_Cons split: nat.splits)
qed

text \<open>What the passes after the draws rely on.\<close>

definition drawnOk :: "stressEventConfig list \<Rightarrow> nat option list \<Rightarrow> (int option \<times> drawnWindow list) list \<Rightarrow> bool" where
  "drawnOk configs anchorOf drawn \<longleftrightarrow> length drawn = length configs \<and>
    (\<forall>i < length configs. length (snd (drawn ! i)) = slotsOf configs anchorOf i \<and>
      list_all (windowOk (configs ! i)) (snd (drawn ! i)) \<and>
      (case sc_count (configs ! i) of None \<Rightarrow> fst (drawn ! i) = None
       | Some (lo, hi) \<Rightarrow> (\<exists>n. fst (drawn ! i) = Some n \<and> lo \<le> n \<and> n \<le> hi)))"

lemma drawn_ok:
  assumes "list_all configOk configs" "\<And>s. uniformDraws (fromSeed s)"
  shows "drawnOk configs anchorOf (fst (drawEntries fromSeed salt configs anchorOf [0..<length configs] 0))"
  unfolding drawnOk_def
proof (intro conjI allI impI)
  let ?ds = "fst (drawEntries fromSeed salt configs anchorOf [0..<length configs] 0)"
  note n = drawEntries_nth [of fromSeed salt configs anchorOf "[0..<length configs]" 0]
  show "length ?ds = length configs" using n by simp
  fix i assume i: "i < length configs"
  then obtain q where q: "?ds ! i = fst (drawEntry fromSeed salt configs anchorOf i q)"
    using n by (metis (no_types, lifting) add_0 diff_zero length_upt nth_upt)
  have ok: "configOk (configs ! i)" using assms(1) i by (simp add: list_all_length)
  note d = drawEntry_ok [where fromSeed = fromSeed and salt = salt and anchorOf = anchorOf and p = q, OF ok assms(2), folded q]
  show "length (snd (?ds ! i)) = slotsOf configs anchorOf i" using d by blast
  show "list_all (windowOk (configs ! i)) (snd (?ds ! i))" using d by blast
  show "case sc_count (configs ! i) of None \<Rightarrow> fst (?ds ! i) = None
     | Some (lo, hi) \<Rightarrow> (\<exists>n. fst (?ds ! i) = Some n \<and> lo \<le> n \<and> n \<le> hi)" using d by blast
qed

lemma maxSpan_nonneg: "configOk c \<Longrightarrow> 0 \<le> maxSpan c"
proof -
  assume ok: "configOk c"
  have "blocksOk v \<Longrightarrow> 0 \<le> blockCountMax v" for v by (cases v) auto
  with ok show ?thesis
    by (simp add: maxSpan_def configOk_def POINT_EVENT_SPAN_def leadBlocks_def TOKEN_LAUNCH_LEAD_BLOCKS_def)
qed

lemma windowOk_span: "windowOk c w \<Longrightarrow> 0 \<le> dw_span w \<and> dw_span w \<le> maxSpan c"
  by (auto simp: windowOk_def maxSpan_def POINT_EVENT_SPAN_def leadBlocks_def TOKEN_LAUNCH_LEAD_BLOCKS_def)

lemma fold_max_mono:
  "list_all2 (\<le>) xs ys \<Longrightarrow> (x :: int) \<le> y \<Longrightarrow> fold max xs x \<le> fold max ys y"
  by (induction xs ys arbitrary: x y rule: list_all2_induct) (auto intro: max.mono)

lemma no_pair: "(\<forall>a b. x \<noteq> Some (a, b)) \<longleftrightarrow> x = None"
  by (cases x) auto

text \<open>Anchors as the resolution gives them: an entry that is itself no follower, of the type asked for.\<close>

lemma find_Some_props: "List.find P xs = Some x \<Longrightarrow> x \<in> set xs \<and> P x"
  by (auto simp: find_Some_iff)

lemma resolveAnchor_Some:
  assumes "resolveAnchor configs i = Inr (Some a)"
  shows "i < length configs \<longrightarrow> a < length configs" "sc_alignWith (configs ! a) = None"
    "sc_count (configs ! i) = None" "sc_alignWith (configs ! i) = Some (sc_type (configs ! a))" "a \<noteq> i"
  using assms
  by (auto simp: resolveAnchor_def Let_def nearestAbove_def firstBelow_def throwIf_def no_pair
      split: option.splits if_splits dest!: find_Some_props)

lemma resolveAnchor_None: "resolveAnchor configs i = Inr None \<Longrightarrow> sc_alignWith (configs ! i) = None"
  by (auto simp: resolveAnchor_def Let_def throwIf_def split: option.splits if_splits)

definition anchorsOk :: "stressEventConfig list \<Rightarrow> nat option list \<Rightarrow> bool" where
  "anchorsOk configs anchorOf \<longleftrightarrow> mapR (resolveAnchor configs) [0..<length configs] = Inr anchorOf"

lemma anchorsOk_nth:
  assumes "anchorsOk configs anchorOf"
  shows "length anchorOf = length configs"
    "i < length configs \<Longrightarrow> resolveAnchor configs i = Inr (anchorOf ! i)"
  using assms by (auto simp: anchorsOk_def mapR_Inr_iff list_all2_conv_all_nth)

lemma anchor_facts:
  assumes "anchorsOk configs anchorOf" "i < length configs" "anchorOf ! i = Some a"
  shows "a < length configs" "anchorOf ! a = None" "sc_count (configs ! i) = None"
proof -
  have r: "resolveAnchor configs i = Inr (Some a)" using anchorsOk_nth(2) [OF assms(1,2)] assms(3) by simp
  show a: "a < length configs" using resolveAnchor_Some(1) [OF r] assms(2) by simp
  show "sc_count (configs ! i) = None" by (rule resolveAnchor_Some(3) [OF r])
  have "resolveAnchor configs a = Inr (anchorOf ! a)" by (rule anchorsOk_nth(2) [OF assms(1) a])
  with resolveAnchor_Some(2) [OF r] show "anchorOf ! a = None" by (simp add: resolveAnchor_def Let_def)
qed

text \<open>Starts of an entry's windows, none before the run, each ending in it or, for one longer than the run, at its first block.\<close>

definition startsOk ::
  "stressEventConfig list \<Rightarrow> nat option list \<Rightarrow> (int option \<times> drawnWindow list) list \<Rightarrow> int \<Rightarrow> nat \<Rightarrow>
    int list \<Rightarrow> bool" where
  "startsOk configs anchorOf drawn runBlocks i starts \<longleftrightarrow> length starts \<le> length (snd (drawn ! i)) \<and>
    (\<forall>k < length starts. 0 \<le> starts ! k \<and>
      (starts ! k + dw_span (snd (drawn ! i) ! k) \<le> runBlocks \<or>
       starts ! k = 0 \<and> sc_count (configs ! i) = None \<and> anchorOf ! i = None))"

definition entryWindows :: "nat option list \<Rightarrow> (int option \<times> drawnWindow list) list \<Rightarrow> nat \<Rightarrow> drawnWindow list" where
  "entryWindows anchorOf drawn i = List.take (nat (countOf anchorOf drawn i)) (snd (drawn ! i))"

definition entryReach :: "nat option list \<Rightarrow> (int option \<times> drawnWindow list) list \<Rightarrow> nat \<Rightarrow> int list" where
  "entryReach anchorOf drawn i = map (\<lambda>(k, w). reachOf drawn (followersOf anchorOf i) k w)
     (enumerate 0 (entryWindows anchorOf drawn i))"

lemma entryReach_nth:
  "k < length (entryWindows anchorOf drawn i) \<Longrightarrow>
    entryReach anchorOf drawn i ! k = reachOf drawn (followersOf anchorOf i) k (snd (drawn ! i) ! k)"
  by (simp add: entryReach_def nth_enumerate_eq entryWindows_def)

lemma length_entryReach [simp]: "length (entryReach anchorOf drawn i) = length (entryWindows anchorOf drawn i)"
  by (simp add: entryReach_def)

lemma placeEntry_counted:
  assumes d: "drawnOk configs anchorOf drawn" and an: "anchorsOk configs anchorOf"
    and ok: "list_all configOk configs" and i: "i < length configs" and base: "0 < base"
    and lead: "anchorOf ! i = None" and count: "sc_count (configs ! i) = Some (lo, hi)"
    and place: "placeEntry configs anchorOf drawn runBlocks base i = Inr starts"
  shows "placedApart starts (entryReach anchorOf drawn i) (gapOf (configs ! i)) runBlocks \<and>
    list_all (\<lambda>x. of_int x \<le> snd (sc_windowFrac (configs ! i)) * base + 1 / 2) starts \<and>
    (\<exists>n. fst (drawn ! i) = Some n \<and> lo \<le> n \<and> n \<le> hi \<and> length starts = nat n)"
proof -
  let ?c = "configs ! i"
  let ?fs = "followersOf anchorOf i"
  let ?ws = "entryWindows anchorOf drawn i"
  have ci: "configOk ?c" using ok i by (simp add: list_all_length)
  obtain n where n: "fst (drawn ! i) = Some n" "lo \<le> n" "n \<le> hi"
    using d i count unfolding drawnOk_def by fastforce
  have len: "length (snd (drawn ! i)) = nat hi"
    using d i count lead by (simp add: drawnOk_def slotsOf_def Let_def)
  have "0 \<le> lo" using ci count by (simp add: configOk_def)
  then have lws: "length ?ws = nat n" using n len lead by (simp add: entryWindows_def countOf_def)
  have wok: "windowOk ?c (snd (drawn ! i) ! k)" if "k < nat hi" for k
    using d i len that unfolding drawnOk_def by (auto simp: list_all_length)
  have follower: "j < length configs \<and> anchorOf ! j = Some i" if "j \<in> set ?fs" for j
    using that anchorsOk_nth(1) [OF an] by (auto simp: followersOf_def)
  have fok: "windowOk (configs ! j) (snd (drawn ! j) ! k)" if "j \<in> set ?fs" "k < nat hi" for j k
  proof -
    have j: "j < length configs" "anchorOf ! j = Some i" using follower that by blast+
    then have "length (snd (drawn ! j)) = nat hi" using d count by (simp add: drawnOk_def slotsOf_def Let_def)
    with d j that show ?thesis unfolding drawnOk_def by (auto simp: list_all_length)
  qed
  have reach: "0 \<le> reachOf drawn ?fs k (snd (drawn ! i) ! k) \<and>
      reachOf drawn ?fs k (snd (drawn ! i) ! k) \<le> entryLongest ?c (map (\<lambda>j. configs ! j) ?fs)"
    if k: "k < nat hi" for k
  proof
    show "0 \<le> reachOf drawn ?fs k (snd (drawn ! i) ! k)"
      unfolding reachOf_def using windowOk_span [OF wok [OF k]] by (auto intro: order_trans [OF _ fold_max_ge1])
    have "list_all2 (\<le>) (map (\<lambda>j. dw_span (snd (drawn ! j) ! k)) ?fs) (map maxSpan (map (\<lambda>j. configs ! j) ?fs))"
      using windowOk_span [OF fok] k by (auto simp: list_all2_conv_all_nth)
    then show "reachOf drawn ?fs k (snd (drawn ! i) ! k) \<le> entryLongest ?c (map (\<lambda>j. configs ! j) ?fs)"
      unfolding reachOf_def entryLongest_def
      by (rule fold_max_mono) (use windowOk_span [OF wok [OF k]] in simp)
  qed
  have reaches: "list_all (\<lambda>r. 0 \<le> r \<and> r \<le> entryLongest ?c (map (\<lambda>j. configs ! j) ?fs)) (entryReach anchorOf drawn i)"
    using reach n(3) lws by (auto simp: list_all_length entryReach_nth)
  have us: "list_all (\<lambda>u. 0 \<le> u \<and> u \<le> 1) (map dw_startU ?ws)"
  proof -
    have "list_all (windowOk ?c) (snd (drawn ! i))" using d i by (simp add: drawnOk_def)
    then show ?thesis by (auto simp: list_all_iff entryWindows_def windowOk_def dest: in_set_takeD)
  qed
  have pl: "placeWindows i ?c (map (\<lambda>j. configs ! j) ?fs) (entryReach anchorOf drawn i) (map dw_startU ?ws) runBlocks base = Inr starts"
    using place lead count by (simp add: placeEntry_def Let_def entryReach_def entryWindows_def)
  have gap: "0 \<le> gapOf ?c" using ci by (auto simp: gapOf_def configOk_def split: option.splits)
  have lo0: "0 \<le> fst (sc_windowFrac ?c) * base" using ci base by (simp add: configOk_def)
  have most: "int (length (entryReach anchorOf drawn i)) \<le> countMost ?c"
    using n \<open>0 \<le> lo\<close> lws count by (simp add: countMost_def)
  have "placedApart starts (entryReach anchorOf drawn i) (gapOf ?c) runBlocks \<and>
    list_all (\<lambda>x. of_int x \<le> snd (sc_windowFrac ?c) * base + 1 / 2) starts"
    by (rule placeWindows_apart [OF pl reaches most _ us gap lo0]) simp
  then show ?thesis using n lws by (auto simp: placedApart_def)
qed

lemma placeEntry_starts:
  assumes d: "drawnOk configs anchorOf drawn" and an: "anchorsOk configs anchorOf"
    and ok: "list_all configOk configs" and i: "i < length configs" and base: "0 < base"
    and place: "placeEntry configs anchorOf drawn runBlocks base i = Inr starts"
  shows "startsOk configs anchorOf drawn runBlocks i starts"
proof (cases "anchorOf ! i")
  case (Some a)
  with place show ?thesis by (simp add: placeEntry_def startsOk_def Let_def)
next
  case None
  show ?thesis
  proof (cases "sc_count (configs ! i)")
    case (Some r)
    obtain lo hi where r: "r = (lo, hi)" by fastforce
    note p = placeEntry_counted [OF d an ok i base None Some [unfolded r] place]
    have len: "length starts = length (entryWindows anchorOf drawn i)" using p by (simp add: placedApart_def)
    have "starts ! k + dw_span (snd (drawn ! i) ! k) \<le> runBlocks \<and> 0 \<le> starts ! k" if k: "k < length starts" for k
    proof -
      have "dw_span (snd (drawn ! i) ! k) \<le> entryReach anchorOf drawn i ! k"
        using k len by (simp add: entryReach_nth reachOf_def fold_max_ge1)
      with p k show ?thesis by (auto simp: placedApart_def)
    qed
    then show ?thesis using len by (simp add: startsOk_def entryWindows_def)
  next
    case none: None
    have "fst (drawn ! i) = None" "length (snd (drawn ! i)) = 1"
      using d i none None by (auto simp: drawnOk_def slotsOf_def Let_def)
    then obtain w where w: "snd (drawn ! i) = [w]" by (auto simp: length_Suc_conv)
    with place None none \<open>fst (drawn ! i) = None\<close> show ?thesis
      by (auto simp: placeEntry_def Let_def countOf_def startsOk_def)
  qed
qed

lemma followEntry_starts:
  assumes d: "drawnOk configs anchorOf drawn" and an: "anchorsOk configs anchorOf" and i: "i < length configs"
    and placed: "\<And>a. a < length configs \<Longrightarrow> startsOk configs anchorOf drawn runBlocks a (placed ! a)"
    and follow: "followEntry anchorOf drawn runBlocks placed i = Inr starts"
  shows "startsOk configs anchorOf drawn runBlocks i starts"
proof (cases "anchorOf ! i")
  case None
  with follow have "placed ! i = starts" by (simp add: followEntry_def)
  with placed [OF i] show ?thesis by simp
next
  case (Some a)
  note f = anchor_facts [OF an i Some]
  have "length (snd (drawn ! a)) = length (snd (drawn ! i))"
    using d i f(1,2) Some by (simp add: drawnOk_def slotsOf_def Let_def)
  moreover have starts: "starts = placed ! a" and
    ends: "\<forall>k < length (placed ! a). placed ! a ! k + dw_span (snd (drawn ! i) ! k) \<le> runBlocks"
    using follow Some
    by (auto simp: followEntry_def mapR_Inr_iff list_all2_conv_all_nth nth_enumerate_eq throwIf_def
        intro!: nth_equalityI split: if_splits)
  ultimately show ?thesis
    using placed [OF f(1)] by (auto simp: startsOk_def)
qed

text \<open>
  The one entry whose window may not fit: it has no count and follows no other entry, so nothing
  checks its length against the run, and it can be configured longer than the run.
\<close>

definition mayOutlast :: "stressEventConfig \<Rightarrow> int \<Rightarrow> bool" where
  "mayOutlast c runBlocks \<longleftrightarrow> sc_count c = None \<and> sc_alignWith c = None \<and> runBlocks < maxSpan c"

text \<open>An event as the schedule promises it: a trapezoid of the configured entry, inside the run.\<close>

definition eventOf :: "stressEventConfig \<Rightarrow> int \<Rightarrow> resolvedStressEvent \<Rightarrow> bool" where
  "eventOf c runBlocks ev \<longleftrightarrow> wellShaped ev \<and>
    fst (sc_magnitudeRange c) \<le> ev_magnitude ev \<and> ev_magnitude ev \<le> snd (sc_magnitudeRange c) \<and>
    ev_rampBlocks ev \<le> blockCountMax (sc_rampBlocks c) \<and> ev_holdBlocks ev \<le> blockCountMax (sc_holdBlocks c) \<and>
    ev_decayBlocks ev \<le> blockCountMax (sc_decayBlocks c) \<and>
    0 \<le> ev_startBlock ev \<and> ev_startBlock ev \<le> ev_endBlock ev \<and>
    ev_endBlock ev - ev_startBlock ev \<le> maxSpan c \<and>
    (ev_endBlock ev \<le> runBlocks \<or> mayOutlast c runBlocks \<and> ev_startBlock ev = 0) \<and>
    (ev_type ev = Crash \<longrightarrow> sc_type c = Crash \<or> sc_flipProb c \<noteq> None)"

lemma resolveWindow_event:
  assumes "windowOk c w" "0 \<le> start"
    "start + dw_span w \<le> runBlocks \<or> start = 0 \<and> sc_count c = None \<and> sc_alignWith c = None"
  shows "eventOf c runBlocks (resolveWindow c w start)"
  using assms windowOk_span [OF assms(1)]
  by (auto simp: eventOf_def mayOutlast_def resolveWindow_def windowOk_def wellShaped_def optOk_def
      split: option.splits)

lemma eventSchedule_passes:
  assumes "eventSchedule fromSeed canonical salted configs runBlocks base = Inr events"
  obtains anchorOf drawn placed starts where
    "0 < base" "anchorsOk configs anchorOf"
    "drawn = fst (drawEntries fromSeed (scheduleSalt canonical salted configs) configs anchorOf [0..<length configs] 0)"
    "mapR (placeEntry configs anchorOf drawn runBlocks base) [0..<length configs] = Inr placed"
    "mapR (followEntry anchorOf drawn runBlocks placed) [0..<length configs] = Inr starts"
    "events = concat (map (\<lambda>i. map (\<lambda>(k, start). resolveWindow (configs ! i) (snd (drawn ! i) ! k) start)
       (enumerate 0 (starts ! i))) [0..<length configs])"
  using assms
  by (auto simp: eventSchedule_def anchorsOk_def bindR_eq_Inr Let_def)

text \<open>
  Whatever the seed draws, a schedule that is accepted opens every window on a block of the run and
  with the configured shape: each event comes from an entry of the list, its size and segments are
  in that entry's ranges, and it ends inside the run; the one exception is the window of an entry with
  no count and no alignWith that is configured longer than the run, which starts with the run.
\<close>

theorem schedule_events_inside:
  assumes sched: "eventSchedule fromSeed canonical salted configs runBlocks base = Inr events"
    and ok: "list_all configOk configs" and uniform: "\<And>s. uniformDraws (fromSeed s)"
  shows "list_all (\<lambda>ev. list_ex (\<lambda>c. eventOf c runBlocks ev) configs) events"
proof -
  obtain anchorOf drawn placed starts where p: "0 < base" "anchorsOk configs anchorOf"
    "drawn = fst (drawEntries fromSeed (scheduleSalt canonical salted configs) configs anchorOf [0..<length configs] 0)"
    "mapR (placeEntry configs anchorOf drawn runBlocks base) [0..<length configs] = Inr placed"
    "mapR (followEntry anchorOf drawn runBlocks placed) [0..<length configs] = Inr starts"
    "events = concat (map (\<lambda>i. map (\<lambda>(k, start). resolveWindow (configs ! i) (snd (drawn ! i) ! k) start)
       (enumerate 0 (starts ! i))) [0..<length configs])"
    by (rule eventSchedule_passes [OF sched])
  have d: "drawnOk configs anchorOf drawn" unfolding p(3) by (rule drawn_ok [OF ok uniform])
  have pl: "placeEntry configs anchorOf drawn runBlocks base i = Inr (placed ! i)"
    and fo: "followEntry anchorOf drawn runBlocks placed i = Inr (starts ! i)" if "i < length configs" for i
    using p(4,5) that by (auto simp: mapR_Inr_iff list_all2_conv_all_nth)
  have st: "startsOk configs anchorOf drawn runBlocks i (starts ! i)" if i: "i < length configs" for i
    by (rule followEntry_starts [OF d p(2) i placeEntry_starts [OF d p(2) ok _ p(1) pl] fo [OF i]])
  have "list_ex (\<lambda>c. eventOf c runBlocks ev) configs" if ev: "ev \<in> set events" for ev
  proof -
    from ev obtain i k where i: "i < length configs" and k: "k < length (starts ! i)"
      and ev: "ev = resolveWindow (configs ! i) (snd (drawn ! i) ! k) (starts ! i ! k)"
      by (auto simp: p(6) in_set_enumerate_eq)
    have "k < length (snd (drawn ! i))" using st [OF i] k by (simp add: startsOk_def)
    then have "windowOk (configs ! i) (snd (drawn ! i) ! k)" using d i by (auto simp: drawnOk_def list_all_length)
    moreover have "sc_alignWith (configs ! i) = None" if "anchorOf ! i = None"
      using anchorsOk_nth(2) [OF p(2) i] that by (auto intro: resolveAnchor_None)
    ultimately have "eventOf (configs ! i) runBlocks ev"
      unfolding ev using st [OF i] k by (intro resolveWindow_event) (auto simp: startsOk_def)
    with i show ?thesis by (auto simp: list_ex_length)
  qed
  then show ?thesis by (simp add: list_all_iff)
qed

text \<open>
  C32. The episodes of one entry never run into each other: an entry with a count opens the number of
  windows it drew, in its range, each with its longest follower and the gap done before the next one
  starts, none before the run and none cut by its end.
\<close>

theorem episodes_never_overlap:
  assumes sched: "eventSchedule fromSeed canonical salted configs runBlocks base = Inr events"
    and ok: "list_all configOk configs" and uniform: "\<And>s. uniformDraws (fromSeed s)"
    and i: "i < length configs" and count: "sc_count (configs ! i) = Some (lo, hi)"
  shows "\<exists>anchorOf drawn starts. anchorsOk configs anchorOf \<and>
    drawn = fst (drawEntries fromSeed (scheduleSalt canonical salted configs) configs anchorOf [0..<length configs] 0) \<and>
    placeEntry configs anchorOf drawn runBlocks base i = Inr starts \<and>
    lo \<le> int (length starts) \<and> int (length starts) \<le> hi \<and>
    placedApart starts (entryReach anchorOf drawn i) (gapOf (configs ! i)) runBlocks \<and>
    set (map (\<lambda>(k, start). resolveWindow (configs ! i) (snd (drawn ! i) ! k) start) (enumerate 0 starts)) \<subseteq> set events"
proof -
  obtain anchorOf drawn placed starts where p: "0 < base" "anchorsOk configs anchorOf"
    "drawn = fst (drawEntries fromSeed (scheduleSalt canonical salted configs) configs anchorOf [0..<length configs] 0)"
    "mapR (placeEntry configs anchorOf drawn runBlocks base) [0..<length configs] = Inr placed"
    "mapR (followEntry anchorOf drawn runBlocks placed) [0..<length configs] = Inr starts"
    "events = concat (map (\<lambda>i. map (\<lambda>(k, start). resolveWindow (configs ! i) (snd (drawn ! i) ! k) start)
       (enumerate 0 (starts ! i))) [0..<length configs])"
    by (rule eventSchedule_passes [OF sched])
  have d: "drawnOk configs anchorOf drawn" unfolding p(3) by (rule drawn_ok [OF ok uniform])
  have pl: "placeEntry configs anchorOf drawn runBlocks base i = Inr (placed ! i)"
    and fo: "followEntry anchorOf drawn runBlocks placed i = Inr (starts ! i)"
    using p(4,5) i by (auto simp: mapR_Inr_iff list_all2_conv_all_nth)
  have lead: "anchorOf ! i = None"
    using anchor_facts(3) [OF p(2) i] count by (cases "anchorOf ! i") auto
  then have same: "starts ! i = placed ! i" using fo by (simp add: followEntry_def)
  note c = placeEntry_counted [OF d p(2) ok i p(1) lead count pl]
  have "0 \<le> lo" using ok i count by (auto simp: list_all_length configOk_def)
  moreover have "set (map (\<lambda>(k, start). resolveWindow (configs ! i) (snd (drawn ! i) ! k) start)
      (enumerate 0 (placed ! i))) \<subseteq> set events"
    unfolding p(6) same [symmetric] using i by auto
  ultimately show ?thesis using p(2,3) pl c by (intro exI [of _ anchorOf] exI [of _ drawn] exI [of _ "placed ! i"]) auto
qed

section \<open>How much of the stream an entry takes\<close>

definition orNone :: "'a option \<Rightarrow> nat" where
  "orNone v = (if v \<noteq> None then 1 else 0)"

definition launchTokens :: "stressEventConfig \<Rightarrow> int \<times> int" where
  "launchTokens c = (case sc_tokenCount c of None \<Rightarrow> (1, 1) | Some r \<Rightarrow> r)"

text \<open>The draws of one window, for an entry whose number of tokens is not a range.\<close>

definition windowDraws :: "stressEventConfig \<Rightarrow> nat" where
  "windowDraws c = 2 + (if sc_type c = Whale \<or> sc_type c = CexDrift then 1 else 0) +
    (if sc_type c = CexDrift then 1 else 0) +
    (if sc_type c = TokenLaunch then 1 + 5 * nat (fst (launchTokens c)) else 0) +
    orNone (sc_flipProb c) + orNone (sc_recoverFrac c) +
    (if sc_venue c = Some VenueRandom then 1 else 0) + orNone (sc_repriceAnchorProb c) +
    (if isDrawn (sc_rampBlocks c) then 1 else 0) + (if isDrawn (sc_holdBlocks c) then 1 else 0) +
    (if isDrawn (sc_decayBlocks c) then 1 else 0)"

definition fixedTokens :: "stressEventConfig \<Rightarrow> bool" where
  "fixedTokens c \<longleftrightarrow> sc_type c \<noteq> TokenLaunch \<or> fst (launchTokens c) = snd (launchTokens c)"

lemma drawBlockCount_pos: "snd (drawBlockCount u v p) = p + (if isDrawn v then 1 else 0)"
  by (cases v) (simp_all add: drawBlockCount_def drawInt_def)

lemma drawIf_pos: "snd (drawIf b u p) = p + (if b then 1 else 0)"
  by (simp add: drawIf_def)

lemma drawTokenLaunches_pos:
  assumes "fst (launchTokens c) = snd (launchTokens c)"
  shows "snd (drawTokenLaunches c u p) = p + (1 + 5 * nat (fst (launchTokens c)))"
proof -
  obtain lo hi where r: "launchTokens c = (lo, hi)" by fastforce
  with assms have "lo = hi" by simp
  with r show ?thesis
    by (simp add: drawTokenLaunches_def launchTokens_def drawInt_def case_prod_unfold Let_def)
qed

lemma drawWindow_pos:
  assumes "fixedTokens c"
  shows "snd (drawWindow c u p) = p + windowDraws c"
  using assms drawTokenLaunches_pos [of c u]
  by (simp add: drawWindow_def Let_def case_prod_unfold drawBlockCount_pos drawIf_pos windowDraws_def
      fixedTokens_def orNone_def)

lemma drawWindows_pos: "fixedTokens c \<Longrightarrow> snd (drawWindows c u k p) = p + k * windowDraws c"
  by (induction k arbitrary: p) (simp_all add: case_prod_unfold Let_def drawWindow_pos)

lemma drawEntry_pos:
  "fixedTokens (configs ! i) \<Longrightarrow> snd (drawEntry fromSeed salt configs anchorOf i p) =
    p + orNone (sc_count (configs ! i)) + slotsOf configs anchorOf i * windowDraws (configs ! i)"
  by (simp add: drawEntry_def Let_def case_prod_unfold drawWindows_pos drawCount_def orNone_def
      drawInt_def split: option.split)

text \<open>
  What an entry draws never moves the entries after it: the place in the stream where each entry
  starts is a number the list alone determines, the same for every seed and every outcome, as long
  as no launch lists a varying number of tokens.
\<close>

theorem draws_fixed_by_list:
  assumes "list_all fixedTokens configs" "list_all (\<lambda>i. i < length configs) is1"
  shows "snd (drawEntries fromSeed salt configs anchorOf is1 p) = p + sum_list (map (\<lambda>i.
    orNone (sc_count (configs ! i)) + slotsOf configs anchorOf i * windowDraws (configs ! i)) is1)"
  using assms
proof (induction is1 arbitrary: p)
  case Nil
  then show ?case by simp
next
  case (Cons i is1)
  from Cons.prems have "i < length configs" by simp
  with Cons.prems(1) have "fixedTokens (configs ! i)" by (simp add: list_all_length)
  with Cons show ?case by (simp add: Let_def case_prod_unfold drawEntry_pos)
qed

section \<open>Wave lengths\<close>

lemma length_exceeds:
  assumes q: "0 < q" "q < 1" and u: "u < (1 :: real)" and n: "1 \<le> n" "int n < cap"
  shows "int n < waveLengthFrom u q cap \<longleftrightarrow> 1 - (1 - q) ^ n \<le> u"
proof -
  have ln: "ln (1 - q) < 0" using q by simp
  have "int n < waveLengthFrom u q cap \<longleftrightarrow> int n \<le> \<lfloor>ln (1 - u) / ln (1 - q)\<rfloor>"
    using q n by (auto simp: waveLengthFrom_def)
  also have "\<dots> \<longleftrightarrow> real n \<le> ln (1 - u) / ln (1 - q)" by (simp add: le_floor_iff)
  also have "\<dots> \<longleftrightarrow> ln (1 - u) \<le> real n * ln (1 - q)" using ln by (simp add: le_divide_eq)
  also have "\<dots> \<longleftrightarrow> ln (1 - u) \<le> ln ((1 - q) ^ n)" using q by (simp add: ln_realpow)
  also have "\<dots> \<longleftrightarrow> 1 - u \<le> (1 - q) ^ n" using q u by (subst ln_le_cancel_iff) auto
  finally show ?thesis by auto
qed

lemma length_mean: "0 < q \<Longrightarrow> waveLengthMean q cap = (\<Sum>n < nat cap. (1 - q) ^ n)"
  using geometric_sum [of "1 - q" "nat cap"] by (simp add: waveLengthMean_def field_simps)

text \<open>
  Wave lengths are memoryless: a wave runs past \<open>n\<close> blocks exactly when its uniform draw is at least
  \<open>1 - (1 - q) ^ n\<close>, so with probability \<open>(1 - q) ^ n\<close> below the cap, whatever came before; and the mean
  the wave's size is scaled by is the sum of those probabilities, its expected length.
\<close>

theorem wave_length_memoryless:
  assumes "0 < q" "q < 1" "0 \<le> u" "u < 1" "int n < cap"
  shows "(int n < waveLengthFrom u q cap \<longleftrightarrow> 1 - (1 - q) ^ n \<le> u) \<and>
    1 \<le> waveLengthFrom u q cap \<and> waveLengthFrom u q cap \<le> cap \<and>
    waveLengthMean q cap = (\<Sum>m < nat cap. (1 - q) ^ m)"
proof -
  have cap: "1 \<le> cap" using assms(5) by simp
  have "int n < waveLengthFrom u q cap \<longleftrightarrow> 1 - (1 - q) ^ n \<le> u"
  proof (cases "n = 0")
    case True
    with waveLengthFrom_range [OF cap, of u q] assms(3) show ?thesis by simp
  next
    case False
    with length_exceeds [OF assms(1,2,4) _ assms(5)] show ?thesis by simp
  qed
  with waveLengthFrom_range [OF cap, of u q] length_mean [OF assms(1)] show ?thesis by simp
qed

end
