(* ===== verification/Stress_Config.thy ===== *)
theory Stress_Config
  imports Stress_Schedule Json Js_Strings
begin

text \<open>
  Reading the stress events of a run's configuration (\<open>core/src/realtime/events.ts\<close>,
  \<open>parseStressEvents\<close>): every check of an entry in the order the code makes it, and that what passes
  is what the schedule relies on. An error names the entry and the field; its wording is not kept.
  \<open>JSON.parse\<close> is the parameter \<open>jsonParse\<close> (\<open>None\<close> where it throws). A number literal beyond the range
  of a double, which \<open>JSON.parse\<close> reads as an infinity, fails \<open>Number.isFinite\<close> here as in the code;
  \<open>kappaMultRange\<close>, whose bounds the code does not test for it, is read with finite bounds only.
\<close>

section \<open>Values\<close>

datatype configError = BadJson | NotAnArray | NotAnObject nat | FieldError nat string

fun typeOfName :: "string \<Rightarrow> stressEventType option" where
  "typeOfName n =
    (if n = ''spike'' then Some Spike else if n = ''crash'' then Some Crash
     else if n = ''lstSlash'' then Some LstSlash else if n = ''whale'' then Some Whale
     else if n = ''liquidityPull'' then Some LiquidityPull else if n = ''eusdDepeg'' then Some EusdDepeg
     else if n = ''depeg'' then Some Depeg else if n = ''cexDrift'' then Some CexDrift
     else if n = ''volBurst'' then Some VolBurst else if n = ''flowTrend'' then Some FlowTrend
     else if n = ''tokenLaunch'' then Some TokenLaunch else None)"

definition eventTypeOf :: "json \<Rightarrow> stressEventType option" where
  "eventTypeOf v = (case v of JStr n \<Rightarrow> typeOfName n | _ \<Rightarrow> None)"

record rangeBounds =
  rb_min :: "real option"
  rb_max :: "real option"
  rb_exclusiveMin :: bool
  rb_exclusiveMax :: bool

definition atLeast :: "real \<Rightarrow> rangeBounds" where
  "atLeast m = \<lparr>rb_min = Some m, rb_max = None, rb_exclusiveMin = False, rb_exclusiveMax = False\<rparr>"

definition moreThan :: "real \<Rightarrow> rangeBounds" where
  "moreThan m = \<lparr>rb_min = Some m, rb_max = None, rb_exclusiveMin = True, rb_exclusiveMax = False\<rparr>"

definition unitRange :: rangeBounds where
  "unitRange = \<lparr>rb_min = Some 0, rb_max = Some 1, rb_exclusiveMin = False, rb_exclusiveMax = False\<rparr>"

definition parseRange :: "configError \<Rightarrow> rangeBounds \<Rightarrow> json \<Rightarrow> configError + real \<times> real" where
  "parseRange e bounds v = (case v of
     JArr [JNum (Fin lo), JNum (Fin hi)] \<Rightarrow>
       throwIf (lo > hi) e
       (throwIf (case rb_min bounds of None \<Rightarrow> False
          | Some m \<Rightarrow> if rb_exclusiveMin bounds then lo \<le> m else lo < m) e
       (throwIf (case rb_max bounds of None \<Rightarrow> False
          | Some m \<Rightarrow> if rb_exclusiveMax bounds then hi \<ge> m else hi > m) e
       (Inr (lo, hi))))
   | _ \<Rightarrow> Inl e)"

definition parseIntRange :: "configError \<Rightarrow> rangeBounds \<Rightarrow> json \<Rightarrow> configError + int \<times> int" where
  "parseIntRange e bounds v = bindR (parseRange e bounds v) (\<lambda>(lo, hi).
     throwIf (\<not> isInteger lo \<or> \<not> isInteger hi) e (Inr (\<lfloor>lo\<rfloor>, \<lfloor>hi\<rfloor>)))"

definition parseNonNegInt :: "configError \<Rightarrow> json \<Rightarrow> configError + int" where
  "parseNonNegInt e v = (case v of
     JNum (Fin x) \<Rightarrow> throwIf (\<not> isInteger x \<or> x < 0) e (Inr \<lfloor>x\<rfloor>)
   | _ \<Rightarrow> Inl e)"

definition parseProbability :: "configError \<Rightarrow> json \<Rightarrow> configError + real" where
  "parseProbability e v = (case v of
     JNum (Fin x) \<Rightarrow> throwIf (\<not> (x \<ge> 0 \<and> x \<le> 1)) e (Inr x)
   | _ \<Rightarrow> Inl e)"

definition parseBlockCount :: "configError \<Rightarrow> json \<Rightarrow> configError + blockCount" where
  "parseBlockCount e v = (case v of
     JArr _ \<Rightarrow> bindR (parseIntRange e (atLeast 0) v) (\<lambda>(lo, hi). Inr (DrawnBlocks lo hi))
   | _ \<Rightarrow> bindR (parseNonNegInt e v) (\<lambda>n. Inr (FixedBlocks n)))"

fun shortest :: "blockCount \<Rightarrow> int" where
  "shortest (FixedBlocks n) = n"
| "shortest (DrawnBlocks lo hi) = lo"

section \<open>One entry\<close>

text \<open>A field that may be absent: nothing, or what its checks make of it.\<close>

definition optField :: "json \<Rightarrow> (json \<Rightarrow> configError + 'a) \<Rightarrow> configError + 'a option" where
  "optField v f = (if v = JUndef then Inr None else bindR (f v) (\<lambda>x. Inr (Some x)))"

type_synonym fields = "(string \<times> json) list"

definition LAUNCH_RANGES :: "string list" where
  "LAUNCH_RANGES = [''tokenCount'', ''liquidityUsdc'', ''waveUsdcMult'', ''dudProb'', ''sellBackFrac'']"

text \<open>The ranges of a launch: all of them for a \<open>tokenLaunch\<close>, none for anything else.\<close>

record launchRanges =
  lr_tokenCount :: "int \<times> int"
  lr_liquidityUsdc :: "real \<times> real"
  lr_waveUsdcMult :: "real \<times> real"
  lr_dudProb :: "real \<times> real"
  lr_sellBackFrac :: "real \<times> real"

definition checkLaunchKeys :: "nat \<Rightarrow> stressEventType \<Rightarrow> fields \<Rightarrow> configError + unit" where
  "checkLaunchKeys i t r =
    (if t = TokenLaunch
     then throwIf (jget r ''magnitudeRange'' \<noteq> JUndef) (FieldError i ''magnitudeRange'')
       (bindR (mapR (\<lambda>k. throwIf (jget r k = JUndef) (FieldError i k) (Inr ())) LAUNCH_RANGES) (\<lambda>_. Inr ()))
     else bindR (mapR (\<lambda>k. throwIf (jget r k \<noteq> JUndef) (FieldError i k) (Inr ())) LAUNCH_RANGES) (\<lambda>_. Inr ()))"

definition parseLaunchRanges :: "nat \<Rightarrow> stressEventType \<Rightarrow> fields \<Rightarrow> configError + launchRanges option" where
  "parseLaunchRanges i t r =
    (if t \<noteq> TokenLaunch then Inr None
     else
       bindR (parseRange (FieldError i ''tokenCount'') (atLeast 1) (jget r ''tokenCount'')) (\<lambda>(lo, hi).
       bindR (parseRange (FieldError i ''liquidityUsdc'') (moreThan 0) (jget r ''liquidityUsdc'')) (\<lambda>liquidity.
       bindR (parseRange (FieldError i ''waveUsdcMult'') (atLeast 0) (jget r ''waveUsdcMult'')) (\<lambda>wave.
       bindR (parseRange (FieldError i ''dudProb'') unitRange (jget r ''dudProb'')) (\<lambda>dud.
       bindR (parseRange (FieldError i ''sellBackFrac'') unitRange (jget r ''sellBackFrac'')) (\<lambda>sellBack.
       throwIf (\<not> isInteger lo \<or> \<not> isInteger hi) (FieldError i ''tokenCount'')
         (Inr (Some \<lparr>lr_tokenCount = (\<lfloor>lo\<rfloor>, \<lfloor>hi\<rfloor>), lr_liquidityUsdc = liquidity, lr_waveUsdcMult = wave,
                     lr_dudProb = dud, lr_sellBackFrac = sellBack\<rparr>))))))))"

definition parseWaveStopProb :: "nat \<Rightarrow> stressEventType \<Rightarrow> fields \<Rightarrow> configError + real option" where
  "parseWaveStopProb i t r = optField (jget r ''waveStopProb'') (\<lambda>v.
     throwIf (t \<noteq> TokenLaunch) (FieldError i ''waveStopProb'')
     (case v of
        JNum (Fin q) \<Rightarrow>
          throwIf (\<not> (q > 0 \<and> q < 1)) (FieldError i ''waveStopProb'')
          (case jget r ''rampBlocks'' of
             JNum (Fin b) \<Rightarrow> throwIf (\<not> isInteger b \<or> b < 1) (FieldError i ''rampBlocks'') (Inr q)
           | _ \<Rightarrow> Inl (FieldError i ''rampBlocks''))
      | _ \<Rightarrow> Inl (FieldError i ''waveStopProb'')))"

definition parseWavePriceCeiling ::
  "nat \<Rightarrow> stressEventType \<Rightarrow> fields \<Rightarrow> configError + (real \<times> real) option" where
  "parseWavePriceCeiling i t r = optField (jget r ''wavePriceCeiling'') (\<lambda>v.
     throwIf (t \<noteq> TokenLaunch) (FieldError i ''wavePriceCeiling'')
       (parseRange (FieldError i ''wavePriceCeiling'') (moreThan 1) v))"

definition parseStable :: "nat \<Rightarrow> stressEventType \<Rightarrow> fields \<Rightarrow> configError + string option" where
  "parseStable i t r =
    (if t = Depeg
     then (case jget r ''stable'' of
             JStr s \<Rightarrow> throwIf (length s = 0) (FieldError i ''stable'') (Inr (Some s))
           | _ \<Rightarrow> Inl (FieldError i ''stable''))
     else throwIf (jget r ''stable'' \<noteq> JUndef) (FieldError i ''stable'') (Inr None))"

definition parseAlignWith :: "nat \<Rightarrow> stressEventType \<Rightarrow> fields \<Rightarrow> configError + stressEventType option" where
  "parseAlignWith i t r = optField (jget r ''alignWith'') (\<lambda>v. case eventTypeOf v of
     None \<Rightarrow> Inl (FieldError i ''alignWith'')
   | Some a \<Rightarrow> throwIf (a = t) (FieldError i ''alignWith'') (Inr a))"

definition sideOfName :: "string \<Rightarrow> whaleSide option" where
  "sideOfName n = (if n = ''buy'' then Some (SideIs Buy) else if n = ''sell'' then Some (SideIs Sell)
     else if n = ''random'' then Some SideRandom else None)"

definition parseSide :: "nat \<Rightarrow> stressEventType \<Rightarrow> fields \<Rightarrow> configError + whaleSide option" where
  "parseSide i t r = optField (jget r ''side'') (\<lambda>v.
     throwIf (t \<noteq> Whale \<and> t \<noteq> CexDrift) (FieldError i ''side'')
     (case (case v of JStr n \<Rightarrow> sideOfName n | _ \<Rightarrow> None) of
        None \<Rightarrow> Inl (FieldError i ''side'') | Some s \<Rightarrow> Inr s))"

definition parsePersist :: "nat \<Rightarrow> stressEventType \<Rightarrow> fields \<Rightarrow> configError + bool" where
  "parsePersist i t r = (let v = jget r ''persist'' in
    if v = JUndef then Inr False
    else throwIf (t \<noteq> Depeg \<and> t \<noteq> EusdDepeg) (FieldError i ''persist'')
      (case v of
         JBool b \<Rightarrow> throwIf (b \<and> jget r ''decayBlocks'' \<noteq> JNum (Fin 0)) (FieldError i ''persist'') (Inr b)
       | _ \<Rightarrow> Inl (FieldError i ''persist'')))"

definition parseRepriceAnchor :: "nat \<Rightarrow> stressEventType \<Rightarrow> fields \<Rightarrow> configError + bool" where
  "parseRepriceAnchor i t r = (let v = jget r ''repriceAnchor'' in
    if v = JUndef then Inr False
    else throwIf (t \<noteq> CexDrift) (FieldError i ''repriceAnchor'')
      (case v of JBool b \<Rightarrow> Inr b | _ \<Rightarrow> Inl (FieldError i ''repriceAnchor'')))"

definition parseRepriceProb :: "nat \<Rightarrow> stressEventType \<Rightarrow> fields \<Rightarrow> configError + real option" where
  "parseRepriceProb i t r = optField (jget r ''repriceAnchorProb'') (\<lambda>v.
     throwIf (t \<noteq> CexDrift) (FieldError i ''repriceAnchorProb'')
     (throwIf (jget r ''repriceAnchor'' \<noteq> JUndef) (FieldError i ''repriceAnchor'')
     (parseProbability (FieldError i ''repriceAnchorProb'') v)))"

definition isShock :: "stressEventType \<Rightarrow> bool" where
  "isShock t \<longleftrightarrow> t = Crash \<or> t = Spike"

definition parseFlipProb :: "nat \<Rightarrow> stressEventType \<Rightarrow> fields \<Rightarrow> configError + real option" where
  "parseFlipProb i t r = optField (jget r ''flipProb'') (\<lambda>v.
     throwIf (\<not> isShock t) (FieldError i ''flipProb'') (parseProbability (FieldError i ''flipProb'') v))"

definition parseRecoverFrac :: "nat \<Rightarrow> stressEventType \<Rightarrow> fields \<Rightarrow> configError + (real \<times> real) option" where
  "parseRecoverFrac i t r = optField (jget r ''recoverFrac'') (\<lambda>v.
     throwIf (\<not> isShock t) (FieldError i ''recoverFrac'')
       (parseRange (FieldError i ''recoverFrac'') unitRange v))"

definition parseCount :: "nat \<Rightarrow> fields \<Rightarrow> configError + (int \<times> int) option" where
  "parseCount i r = optField (jget r ''count'') (\<lambda>v.
     bindR (parseIntRange (FieldError i ''count'') (atLeast 0) v) (\<lambda>c.
       throwIf (jget r ''alignWith'' \<noteq> JUndef) (FieldError i ''count'') (Inr c)))"

definition parseMinGap :: "nat \<Rightarrow> fields \<Rightarrow> configError + int option" where
  "parseMinGap i r = optField (jget r ''minGapBlocks'') (\<lambda>v.
     throwIf (jget r ''count'' = JUndef) (FieldError i ''minGapBlocks'')
       (parseNonNegInt (FieldError i ''minGapBlocks'') v))"

definition parseKappa :: "nat \<Rightarrow> stressEventType \<Rightarrow> fields \<Rightarrow> configError + (real \<times> real) option" where
  "parseKappa i t r = optField (jget r ''kappaMultRange'') (\<lambda>v.
     throwIf (t \<noteq> CexDrift) (FieldError i ''kappaMultRange'')
     (case v of
        JArr [JNum (Fin lo), JNum (Fin hi)] \<Rightarrow>
          throwIf (lo < 0 \<or> hi < lo) (FieldError i ''kappaMultRange'') (Inr (lo, hi))
      | _ \<Rightarrow> Inl (FieldError i ''kappaMultRange'')))"

definition parseTrendCorrelation :: "nat \<Rightarrow> stressEventType \<Rightarrow> fields \<Rightarrow> configError + real option" where
  "parseTrendCorrelation i t r = optField (jget r ''trendCorrelation'') (\<lambda>v.
     throwIf (t \<noteq> FlowTrend) (FieldError i ''trendCorrelation'')
     (case v of JNum (Fin x) \<Rightarrow> throwIf (x < 0 \<or> x > 1) (FieldError i ''trendCorrelation'') (Inr x)
      | _ \<Rightarrow> Inl (FieldError i ''trendCorrelation'')))"

definition parsePersistBlocks :: "nat \<Rightarrow> stressEventType \<Rightarrow> fields \<Rightarrow> configError + real option" where
  "parsePersistBlocks i t r = optField (jget r ''persistBlocks'') (\<lambda>v.
     throwIf (t \<noteq> FlowTrend) (FieldError i ''persistBlocks'')
     (case v of JNum (Fin x) \<Rightarrow> throwIf (\<not> isInteger x \<or> x < 1) (FieldError i ''persistBlocks'') (Inr x)
      | _ \<Rightarrow> Inl (FieldError i ''persistBlocks'')))"

definition venueOfName :: "string \<Rightarrow> venueChoice option" where
  "venueOfName n = (if n = ''uniswap'' then Some (VenueIs UniswapVenue)
     else if n = ''balancer'' then Some (VenueIs BalancerVenue)
     else if n = ''curve'' then Some (VenueIs CurveVenue)
     else if n = ''random'' then Some VenueRandom else None)"

definition parseVenue :: "nat \<Rightarrow> stressEventType \<Rightarrow> fields \<Rightarrow> configError + venueChoice option" where
  "parseVenue i t r = optField (jget r ''venue'') (\<lambda>v.
     throwIf (t \<noteq> Whale \<and> t \<noteq> LiquidityPull) (FieldError i ''venue'')
     (throwIf (v = JStr ''random'' \<and> t \<noteq> Whale) (FieldError i ''venue'')
     (case (case v of JStr n \<Rightarrow> venueOfName n | _ \<Rightarrow> None) of
        None \<Rightarrow> Inl (FieldError i ''venue'') | Some s \<Rightarrow> Inr s)))"

definition parseBase :: "nat \<Rightarrow> fields \<Rightarrow> configError + string option" where
  "parseBase i r = optField (jget r ''base'') (\<lambda>v. case v of JStr s \<Rightarrow> Inr s | _ \<Rightarrow> Inl (FieldError i ''base''))"

definition magnitudeBounds :: "stressEventType \<Rightarrow> rangeBounds" where
  "magnitudeBounds t = (if t = LstSlash \<or> t = LiquidityPull \<or> t = EusdDepeg \<or> t = Depeg
     then \<lparr>rb_min = Some 0, rb_max = Some 1, rb_exclusiveMin = True, rb_exclusiveMax = True\<rparr>
     else moreThan 0)"

definition parseMagnitude :: "nat \<Rightarrow> stressEventType \<Rightarrow> fields \<Rightarrow> configError + real \<times> real" where
  "parseMagnitude i t r = (if t = TokenLaunch then Inr (0, 0)
     else parseRange (FieldError i ''magnitudeRange'') (magnitudeBounds t) (jget r ''magnitudeRange''))"

definition orZeroJson :: "json \<Rightarrow> json" where
  "orZeroJson v = (if v = JUndef \<or> v = JNull then JNum (Fin 0) else v)"

definition parseSegment :: "nat \<Rightarrow> stressEventType \<Rightarrow> fields \<Rightarrow> string \<Rightarrow> configError + blockCount" where
  "parseSegment i t r k = parseBlockCount (FieldError i k)
     (if isPointEvent t then orZeroJson (jget r k) else jget r k)"

definition parseOne :: "bool \<Rightarrow> nat \<Rightarrow> json \<Rightarrow> configError + stressEventConfig" where
  "parseOne beyondRun i raw = (case raw of JObj r \<Rightarrow>
     (case eventTypeOf (jget r ''type'') of None \<Rightarrow> Inl (FieldError i ''type'') | Some t \<Rightarrow>
      bindR (checkLaunchKeys i t r) (\<lambda>_.
      bindR (parseLaunchRanges i t r) (\<lambda>launch.
      bindR (parseWaveStopProb i t r) (\<lambda>waveStop.
      bindR (parseWavePriceCeiling i t r) (\<lambda>ceiling.
      bindR (parseStable i t r) (\<lambda>stableSym.
      bindR (parseAlignWith i t r) (\<lambda>align.
      bindR (parseSide i t r) (\<lambda>side.
      bindR (parsePersist i t r) (\<lambda>persist.
      bindR (parseRepriceAnchor i t r) (\<lambda>reprice.
      bindR (parseRepriceProb i t r) (\<lambda>repriceProb.
      bindR (parseFlipProb i t r) (\<lambda>flip.
      bindR (parseRecoverFrac i t r) (\<lambda>recover.
      bindR (parseCount i r) (\<lambda>count.
      bindR (parseMinGap i r) (\<lambda>gap.
      bindR (parseKappa i t r) (\<lambda>kappa.
      bindR (parseTrendCorrelation i t r) (\<lambda>trend.
      bindR (parsePersistBlocks i t r) (\<lambda>persistBlocks.
      bindR (parseVenue i t r) (\<lambda>venue.
      bindR (parseBase i r) (\<lambda>base.
      bindR (parseMagnitude i t r) (\<lambda>magnitude.
      bindR (parseRange (FieldError i ''windowFrac'') (if beyondRun then atLeast 0 else unitRange)
        (jget r ''windowFrac'')) (\<lambda>windowFrac.
      bindR (parseSegment i t r ''rampBlocks'') (\<lambda>ramp.
      bindR (parseSegment i t r ''holdBlocks'') (\<lambda>hold.
      bindR (parseSegment i t r ''decayBlocks'') (\<lambda>decay.
      throwIf (\<not> isPointEvent t \<and> shortest ramp + shortest hold + shortest decay \<le> 0) (FieldError i '''')
      (Inr \<lparr>sc_type = t, sc_base = base, sc_magnitudeRange = magnitude, sc_stable = stableSym,
        sc_side = side, sc_kappaMultRange = kappa, sc_persist = persist, sc_repriceAnchor = reprice,
        sc_repriceAnchorProb = repriceProb, sc_flipProb = flip, sc_recoverFrac = recover,
        sc_trendCorrelation = trend, sc_persistBlocks = persistBlocks, sc_venue = venue,
        sc_tokenCount = map_option lr_tokenCount launch,
        sc_liquidityUsdc = map_option lr_liquidityUsdc launch,
        sc_waveUsdcMult = map_option lr_waveUsdcMult launch,
        sc_dudProb = map_option lr_dudProb launch,
        sc_sellBackFrac = map_option lr_sellBackFrac launch,
        sc_waveStopProb = waveStop, sc_wavePriceCeiling = ceiling, sc_windowFrac = windowFrac,
        sc_alignWith = align, sc_count = count, sc_minGapBlocks = gap,
        sc_rampBlocks = ramp, sc_holdBlocks = hold, sc_decayBlocks = decay\<rparr>))))))))))))))))))))))))))
   | _ \<Rightarrow> Inl (NotAnObject i))"

definition parseStressEvents ::
  "(string \<Rightarrow> json option) \<Rightarrow> bool \<Rightarrow> string option \<Rightarrow> configError + stressEventConfig list" where
  "parseStressEvents jsonParse beyondRun txt = (case txt of None \<Rightarrow> Inr []
   | Some s \<Rightarrow> if trim s = [] then Inr []
     else (case jsonParse s of
         None \<Rightarrow> Inl BadJson
       | Some (JArr vs) \<Rightarrow> mapR (\<lambda>(i, raw). parseOne beyondRun i raw) (enumerate 0 vs)
       | Some _ \<Rightarrow> Inl NotAnArray))"

section \<open>What passes\<close>

lemma parseRange_iff:
  "parseRange e bounds v = Inr (lo, hi) \<longleftrightarrow> v = JArr [JNum (Fin lo), JNum (Fin hi)] \<and> lo \<le> hi \<and>
    (case rb_min bounds of None \<Rightarrow> True | Some m \<Rightarrow> if rb_exclusiveMin bounds then m < lo else m \<le> lo) \<and>
    (case rb_max bounds of None \<Rightarrow> True | Some m \<Rightarrow> if rb_exclusiveMax bounds then hi < m else hi \<le> m)"
  by (auto simp: parseRange_def split: json.splits list.splits jsnum.splits option.splits if_splits)

lemma parseRange_facts:
  "parseRange e (atLeast m) v = Inr r \<Longrightarrow> m \<le> fst r \<and> fst r \<le> snd r"
  "parseRange e (moreThan m) v = Inr r \<Longrightarrow> m < fst r \<and> fst r \<le> snd r"
  "parseRange e unitRange v = Inr r \<Longrightarrow> 0 \<le> fst r \<and> fst r \<le> snd r \<and> snd r \<le> 1"
  by (cases r; auto simp: parseRange_iff atLeast_def moreThan_def unitRange_def)+

lemma optField_iff: "optField v f = Inr r \<longleftrightarrow> (case r of None \<Rightarrow> v = JUndef | Some x \<Rightarrow> v \<noteq> JUndef \<and> f v = Inr x)"
  by (cases r) (auto simp: optField_def bindR_eq_Inr)

lemma parseIntRange_facts:
  "parseIntRange e (atLeast 0) v = Inr (lo, hi) \<Longrightarrow> 0 \<le> lo \<and> lo \<le> hi"
  by (auto simp: parseIntRange_def bindR_eq_Inr floor_mono dest!: parseRange_facts)

lemma parseNonNegInt_facts: "parseNonNegInt e v = Inr n \<Longrightarrow> 0 \<le> n \<and> v = JNum (Fin (of_int n))"
  by (auto simp: parseNonNegInt_def isInteger_def split: json.splits jsnum.splits)

lemma parseBlockCount_ok: "parseBlockCount e v = Inr b \<Longrightarrow> blocksOk b"
  by (auto simp: parseBlockCount_def bindR_eq_Inr split: json.splits
      dest!: parseIntRange_facts parseNonNegInt_facts)

lemma parseMagnitude_ok: "parseMagnitude i t r = Inr m \<Longrightarrow> 0 \<le> fst m \<and> fst m \<le> snd m"
  by (cases m) (auto simp: parseMagnitude_def parseRange_iff magnitudeBounds_def moreThan_def split: if_splits)

lemma parseRecover_ok:
  "parseRecoverFrac i t r = Inr v \<Longrightarrow> optOk (\<lambda>(lo, hi). 0 \<le> lo \<and> lo \<le> hi \<and> hi \<le> 1) v"
  by (auto simp: parseRecoverFrac_def optField_iff split: option.splits dest!: parseRange_facts)

lemma parseCount_ok: "parseCount i r = Inr v \<Longrightarrow> optOk (\<lambda>(lo, hi). 0 \<le> lo \<and> lo \<le> hi) v"
  by (auto simp: parseCount_def optField_iff bindR_eq_Inr split: option.splits dest!: parseIntRange_facts)

lemma parseMinGap_ok: "parseMinGap i r = Inr v \<Longrightarrow> optOk (\<lambda>g. 0 \<le> g) v"
  by (auto simp: parseMinGap_def optField_iff split: option.splits dest!: parseNonNegInt_facts)

lemma parseWaveStop_ok:
  assumes "parseWaveStopProb i t r = Inr v" "parseSegment i t r ''rampBlocks'' = Inr ramp"
  shows "optOk (\<lambda>q. 0 < q \<and> q < 1 \<and> t = TokenLaunch \<and> 1 \<le> blockCountMax ramp \<and> \<not> isDrawn ramp) v"
proof (cases v)
  case (Some q)
  with assms(1) obtain b where b: "jget r ''rampBlocks'' = JNum (Fin b)" "isInteger b" "1 \<le> b"
    and q: "0 < q" "q < 1" "t = TokenLaunch"
    by (auto simp: parseWaveStopProb_def optField_iff split: json.splits jsnum.splits)
  have "ramp = FixedBlocks \<lfloor>b\<rfloor>"
    using assms(2) b q(3) by (simp add: parseSegment_def isPointEvent_def parseBlockCount_def parseNonNegInt_def)
  with Some q b(3) show ?thesis by (simp add: le_floor_iff)
qed simp

text \<open>What the parser accepts, the schedule can rely on.\<close>

lemma parseOne_ok: "parseOne beyondRun i raw = Inr c \<Longrightarrow> configOk c"
  by (cases beyondRun)
    (auto simp: parseOne_def bindR_eq_Inr configOk_def parseSegment_def
      split: json.splits option.splits
      dest: parseMagnitude_ok parseRecover_ok parseCount_ok parseMinGap_ok parseBlockCount_ok
        parseRange_facts parseWaveStop_ok [unfolded parseSegment_def])

lemma parseStressEvents_ok:
  assumes "parseStressEvents jsonParse beyondRun txt = Inr configs"
  shows "list_all configOk configs"
proof (cases "txt = None \<or> (\<exists>s. txt = Some s \<and> trim s = [])")
  case True
  with assms show ?thesis by (auto simp: parseStressEvents_def)
next
  case False
  with assms obtain vs where "mapR (\<lambda>(i, raw). parseOne beyondRun i raw) (enumerate 0 vs) = Inr configs"
    by (auto simp: parseStressEvents_def split: option.splits json.splits)
  then have "list_all2 (\<lambda>(i, raw) c. parseOne beyondRun i raw = Inr c) (enumerate 0 vs) configs"
    by (simp add: mapR_Inr_iff case_prod_unfold)
  then show ?thesis by (auto simp: list_all_iff dest: list_all2_right parseOne_ok)
qed

section \<open>From the configuration to the price\<close>

text \<open>
  C30. A configured stress list is safe to run: when the parser accepts it and the schedule is made,
  every event of the schedule has the size and shape some entry configures, starts no earlier than the
  run and ends inside it. The one exception is the entry \<open>mayOutlast\<close> names: with no count and no
  alignWith nothing checks its length, so when its longest window is longer than the run a window of
  it may end after the run, and such a window starts with the run (\<open>long_window_past_run\<close> below).
\<close>

theorem accepted_events_inside:
  assumes parse: "parseStressEvents jsonParse beyondRun txt = Inr configs"
    and sched: "eventSchedule fromSeed canonical salted configs runBlocks base = Inr events"
    and uniform: "\<And>s. uniformDraws (fromSeed s)"
  shows "list_all (\<lambda>ev. list_ex (\<lambda>c. eventOf c runBlocks ev) configs) events"
  by (rule schedule_events_inside [OF sched parseStressEvents_ok [OF parse] uniform])

text \<open>An entry that can only fall by less than the whole price.\<close>

definition fallsShort :: "stressEventConfig \<Rightarrow> bool" where
  "fallsShort c \<longleftrightarrow> (sc_type c = Crash \<or> sc_flipProb c \<noteq> None \<longrightarrow> snd (sc_magnitudeRange c) < 1)"

text \<open>
  C31. From the configuration to the price: for an accepted list whose crashes, and whose shocks that
  may turn into one, are smaller than the price, the fair price of every base is multiplied by a
  positive number on every block, whatever the seed.
\<close>

theorem accepted_overlay_positive:
  assumes parse: "parseStressEvents jsonParse beyondRun txt = Inr configs"
    and sched: "eventSchedule fromSeed canonical salted configs runBlocks base = Inr events"
    and uniform: "\<And>s. uniformDraws (fromSeed s)"
    and falls: "list_all fallsShort configs"
  shows "0 < getOr 1 (os_baseMults (overlayAt events b)) token \<and> 0 < os_wethMult (overlayAt events b)"
proof -
  note ok = parseStressEvents_ok [OF parse]
  have ev: "wellShaped ev \<and> boundedFall ev" if mem: "ev \<in> set events" for ev
  proof -
    obtain c where c: "c \<in> set configs" "eventOf c runBlocks ev"
      using schedule_events_inside [OF sched ok uniform] mem unfolding list_all_iff list_ex_iff by blast
    then have "configOk c" "fallsShort c" using ok falls by (auto simp: list_all_iff)
    with c(2) show ?thesis by (auto simp: eventOf_def boundedFall_def configOk_def fallsShort_def)
  qed
  then have "0 < getOr 1 (os_baseMults (overlayAt events b)) k" for k
    using overlay_positive [of events b k] by (simp add: list_all_iff)
  then show ?thesis by (simp add: overlay_weth)
qed

text \<open>
  The bound matters: the parser also accepts a fall larger than the price, and then the price is
  multiplied by a negative number, whatever the seed draws.
\<close>

definition wholePriceCrash :: json where
  "wholePriceCrash = JObj [(''type'', JStr ''crash''),
    (''magnitudeRange'', JArr [JNum (Fin 2), JNum (Fin 2)]),
    (''windowFrac'', JArr [JNum (Fin 0), JNum (Fin 0)]),
    (''rampBlocks'', JNum (Fin 0)), (''holdBlocks'', JNum (Fin 1)), (''decayBlocks'', JNum (Fin 0))]"

definition wholePriceConfig :: stressEventConfig where
  "wholePriceConfig = \<lparr>sc_type = Crash, sc_base = None, sc_magnitudeRange = (2, 2), sc_stable = None,
     sc_side = None, sc_kappaMultRange = None, sc_persist = False, sc_repriceAnchor = False,
     sc_repriceAnchorProb = None, sc_flipProb = None, sc_recoverFrac = None, sc_trendCorrelation = None,
     sc_persistBlocks = None, sc_venue = None, sc_tokenCount = None, sc_liquidityUsdc = None,
     sc_waveUsdcMult = None, sc_dudProb = None, sc_sellBackFrac = None, sc_waveStopProb = None,
     sc_wavePriceCeiling = None, sc_windowFrac = (0, 0), sc_alignWith = None, sc_count = None,
     sc_minGapBlocks = None, sc_rampBlocks = FixedBlocks 0, sc_holdBlocks = FixedBlocks 1,
     sc_decayBlocks = FixedBlocks 0\<rparr>"

lemmas parse_defs = parseOne_def eventTypeOf_def checkLaunchKeys_def LAUNCH_RANGES_def parseLaunchRanges_def
  parseWaveStopProb_def parseWavePriceCeiling_def parseStable_def parseAlignWith_def parseSide_def
  parsePersist_def parseRepriceAnchor_def parseRepriceProb_def parseFlipProb_def parseRecoverFrac_def
  parseCount_def parseMinGap_def parseKappa_def parseTrendCorrelation_def parsePersistBlocks_def
  parseVenue_def parseBase_def parseMagnitude_def magnitudeBounds_def moreThan_def atLeast_def
  parseRange_def parseIntRange_def unitRange_def parseSegment_def isPointEvent_def parseBlockCount_def
  parseNonNegInt_def optField_def

lemma wholePrice_accepted: "parseOne False i wholePriceCrash = Inr wholePriceConfig"
  by (simp add: parse_defs wholePriceCrash_def wholePriceConfig_def)

lemma wholePrice_window:
  "resolveWindow wholePriceConfig (fst (drawWindow wholePriceConfig u p)) 0 =
    \<lparr>ev_type = Crash, ev_base = ''WETH'', ev_stable = None, ev_magnitude = 2, ev_side = None,
     ev_kappaMult = None, ev_persist = False, ev_repriceAnchor = False, ev_trendCorrelation = None,
     ev_persistBlocks = None, ev_venue = None, ev_launches = None, ev_startBlock = 0, ev_rampBlocks = 0,
     ev_holdBlocks = 1, ev_decayBlocks = 0, ev_endBlock = 1, ev_flippedFrom = None, ev_recoverFrac = None\<rparr>"
  by (simp add: wholePriceConfig_def resolveWindow_def drawWindow_def Let_def drawIf_def lerp_def
      drawBlockCount_def isPointEvent_def leadBlocks_def below_def)

theorem accepted_crash_negative:
  "parseOne False 0 wholePriceCrash = Inr wholePriceConfig \<and>
   os_wethMult (overlayAt [resolveWindow wholePriceConfig (fst (drawWindow wholePriceConfig u p)) 0] 0) = - 1"
  unfolding wholePrice_window
  by (simp add: wholePrice_accepted overlayAt_def isPriceOverlay_def stressEnvelope_def overlaySign_def
      layer_def getOr_def)

text \<open>
  A launch that lists two or three tokens takes a number of draws its own outcome decides, so the
  entries after it are drawn from another place of the stream.
\<close>

definition launchConfig :: stressEventConfig where
  "launchConfig = wholePriceConfig\<lparr>sc_type := TokenLaunch, sc_tokenCount := Some (2, 3)\<rparr>"

lemma launch_draws_vary:
  "snd (drawWindow launchConfig (\<lambda>_. 0) 0) \<noteq> snd (drawWindow launchConfig (\<lambda>_. 1 / 2) 0)"
  by (simp add: launchConfig_def wholePriceConfig_def drawWindow_def Let_def drawIf_def drawTokenLaunches_def
      drawInt_def lerp_def drawBlockCount_def case_prod_unfold)

text \<open>A single window longer than the run is placed at its start and ends after it, without an error.\<close>

definition longConfig :: stressEventConfig where
  "longConfig = wholePriceConfig\<lparr>sc_holdBlocks := FixedBlocks 200\<rparr>"

lemma long_window_past_run:
  "placeEntry [longConfig] [None] [(None, [fst (drawWindow longConfig u p)])] 100 100 0 = Inr [0] \<and>
   ev_endBlock (resolveWindow longConfig (fst (drawWindow longConfig u p)) 0) = 200"
  by (simp add: longConfig_def wholePriceConfig_def placeEntry_def countOf_def resolveWindow_def drawWindow_def
      Let_def drawIf_def lerp_def drawBlockCount_def isPointEvent_def leadBlocks_def)

section \<open>The properties at work\<close>

text \<open>Up to two crashes of ten to twenty per cent in the middle of a hundred blocks, drawn low.\<close>

definition exampleCrash :: json where
  "exampleCrash = JObj [(''type'', JStr ''crash''),
    (''magnitudeRange'', JArr [JNum (Fin (1 / 10)), JNum (Fin (1 / 5))]),
    (''count'', JArr [JNum (Fin 1), JNum (Fin 2)]), (''minGapBlocks'', JNum (Fin 5)),
    (''windowFrac'', JArr [JNum (Fin (1 / 10)), JNum (Fin (4 / 5))]),
    (''rampBlocks'', JNum (Fin 2)), (''holdBlocks'', JArr [JNum (Fin 1), JNum (Fin 3)]),
    (''decayBlocks'', JNum (Fin 3))]"

definition exampleConfig :: stressEventConfig where
  "exampleConfig = wholePriceConfig\<lparr>sc_magnitudeRange := (1 / 10, 1 / 5), sc_count := Some (1, 2),
     sc_minGapBlocks := Some 5, sc_windowFrac := (1 / 10, 4 / 5), sc_rampBlocks := FixedBlocks 2,
     sc_holdBlocks := DrawnBlocks 1 3, sc_decayBlocks := FixedBlocks 3\<rparr>"

definition exampleEvent :: resolvedStressEvent where
  "exampleEvent = \<lparr>ev_type = Crash, ev_base = ''WETH'', ev_stable = None, ev_magnitude = 1 / 10,
     ev_side = None, ev_kappaMult = None, ev_persist = False, ev_repriceAnchor = False,
     ev_trendCorrelation = None, ev_persistBlocks = None, ev_venue = None, ev_launches = None,
     ev_startBlock = 10, ev_rampBlocks = 2, ev_holdBlocks = 1, ev_decayBlocks = 3, ev_endBlock = 16,
     ev_flippedFrom = None, ev_recoverFrac = None\<rparr>"

definition lowDraws :: "32 word \<Rightarrow> draws" where
  "lowDraws salt n = 0"

lemma lowDraws_uniform: "uniformDraws (lowDraws s)"
  by (simp add: uniformDraws_def lowDraws_def)

lemma example_parsed: "parseOne False i exampleCrash = Inr exampleConfig"
  by (simp add: parse_defs exampleCrash_def exampleConfig_def wholePriceConfig_def)

lemma example_events_parsed:
  "parseStressEvents (\<lambda>_. Some (JArr [exampleCrash])) False (Some ''x'') = Inr [exampleConfig]"
proof -
  have "trim ''x'' \<noteq> []" by code_simp
  then show ?thesis by (simp add: parseStressEvents_def example_parsed)
qed

lemma example_window:
  "fst (drawWindow exampleConfig (lowDraws s) p) = \<lparr>dw_magnitude = 1 / 10, dw_startU = 0, dw_side = None,
     dw_kappaMult = None, dw_launches = None, dw_flipped = False, dw_recoverFrac = None, dw_venue = None,
     dw_repriceAnchor = False, dw_rampBlocks = 2, dw_holdBlocks = 1, dw_decayBlocks = 3, dw_span = 6\<rparr>"
  by (simp add: exampleConfig_def wholePriceConfig_def drawWindow_def Let_def drawIf_def lerp_def
      drawBlockCount_def drawInt_def isPointEvent_def leadBlocks_def below_def lowDraws_def)

lemma example_entry:
  "fst (drawEntry lowDraws s [exampleConfig] [None] 0 p) =
    (Some 1, [fst (drawWindow exampleConfig (lowDraws s) 0), fst (drawWindow exampleConfig (lowDraws s) 0)])"
proof -
  have w: "fst (drawWindow exampleConfig (lowDraws s) q) = fst (drawWindow exampleConfig (lowDraws s) 0)" for q
    unfolding example_window ..
  have fields: "sc_count exampleConfig = Some (1, 2)" "sc_waveStopProb exampleConfig = None"
    "sc_wavePriceCeiling exampleConfig = None"
    by (simp_all add: exampleConfig_def wholePriceConfig_def)
  show ?thesis
    using w by (simp add: drawEntry_def slotsOf_def drawCount_def withLengths_def withCeilings_def fields Let_def
        case_prod_unfold drawInt_def lerp_def lowDraws_def numeral_2_eq_2)
qed

lemma example_schedule:
  "eventSchedule lowDraws canonical None [exampleConfig] 100 100 = Inr [exampleEvent]"
proof -
  have fields: "sc_count exampleConfig = Some (1, 2)" "sc_alignWith exampleConfig = None"
    "sc_windowFrac exampleConfig = (1 / 10, 4 / 5)" "sc_minGapBlocks exampleConfig = Some 5"
    by (simp_all add: exampleConfig_def wholePriceConfig_def)
  have span: "maxSpan exampleConfig = 8"
    by (simp add: maxSpan_def exampleConfig_def wholePriceConfig_def isPointEvent_def leadBlocks_def)
  let ?s = "scheduleSalt canonical None [exampleConfig]"
  let ?w = "fst (drawWindow exampleConfig (lowDraws ?s) 0)"
  obtain q where drawn: "drawEntry lowDraws ?s [exampleConfig] [None] 0 0 = ((Some 1, [?w, ?w]), q)"
    using example_entry [of ?s 0] by (metis prod.collapse)
  have place: "placeEntry [exampleConfig] [None] [(Some 1, [w, w])] 100 100 0 = Inr [10]"
    if "w = fst (drawWindow exampleConfig (lowDraws s) 0)" for w s
    unfolding that example_window
    by (simp add: placeEntry_def countOf_def followersOf_def placeWindows_def fields span reachOf_def
        gapOf_def stepsOf_def throwIf_def Let_def)
  have event: "resolveWindow exampleConfig (fst (drawWindow exampleConfig (lowDraws s) 0)) 10 = exampleEvent" for s
    unfolding example_window by (simp add: resolveWindow_def exampleConfig_def wholePriceConfig_def exampleEvent_def)
  show ?thesis
    by (simp add: eventSchedule_def fields resolveAnchor_def drawn place [OF refl] followEntry_def event)
qed

lemma accepted_events_inside_witness:
  "list_all (\<lambda>ev. list_ex (\<lambda>c. eventOf c 100 ev) [exampleConfig]) [exampleEvent] \<and> ev_endBlock exampleEvent = 16"
  using accepted_events_inside [OF example_events_parsed example_schedule lowDraws_uniform]
  by (simp add: exampleEvent_def)

lemma accepted_overlay_positive_witness:
  "0 < os_wethMult (overlayAt [exampleEvent] 12) \<and> os_wethMult (overlayAt [exampleEvent] 12) = 9 / 10"
proof -
  have "list_all fallsShort [exampleConfig]"
    by (simp add: fallsShort_def exampleConfig_def wholePriceConfig_def)
  from accepted_overlay_positive [OF example_events_parsed example_schedule lowDraws_uniform this]
  have "0 < os_wethMult (overlayAt [exampleEvent] 12)" by blast
  then show ?thesis
    by (simp add: overlayAt_def isPriceOverlay_def stressEnvelope_def overlaySign_def layer_def getOr_def exampleEvent_def)
qed

lemma example_ok: "list_all configOk [exampleConfig]"
  by (rule parseStressEvents_ok [OF example_events_parsed])

lemma episodes_never_overlap_witness:
  "\<exists>anchorOf drawn starts. anchorsOk [exampleConfig] anchorOf \<and>
    drawn = fst (drawEntries lowDraws (scheduleSalt (\<lambda>_. []) None [exampleConfig]) [exampleConfig] anchorOf [0..<1] 0) \<and>
    placeEntry [exampleConfig] anchorOf drawn 100 100 0 = Inr starts \<and>
    1 \<le> int (length starts) \<and> placedApart starts (entryReach anchorOf drawn 0) 5 100"
proof -
  have fields: "sc_count exampleConfig = Some (1, 2)" "sc_minGapBlocks exampleConfig = Some 5"
    by (simp_all add: exampleConfig_def wholePriceConfig_def)
  from episodes_never_overlap [OF example_schedule [of "\<lambda>_. []"] example_ok lowDraws_uniform, of 0 1 2]
  show ?thesis by (force simp: fields gapOf_def)
qed

lemma draws_fixed_by_list_witness:
  "snd (drawEntries lowDraws 0 [exampleConfig] [None] [0] 0) = 7"
  using draws_fixed_by_list [of "[exampleConfig]" "[0]" lowDraws 0 "[None]" 0]
  by (simp add: fixedTokens_def orNone_def slotsOf_def windowDraws_def exampleConfig_def wholePriceConfig_def)

lemma wave_length_memoryless_witness:
  "(int 2 < waveLengthFrom (4 / 5) (1 / 2) 8) \<and> waveLengthMean (1 / 2) 2 = 3 / 2"
  using wave_length_memoryless [of "1 / 2" "4 / 5" 2 8] wave_length_memoryless [of "1 / 2" "4 / 5" 1 2]
  by (simp add: power2_eq_square numeral_2_eq_2)

lemma anchor_follows_drift_witness:
  "anchorMultiplierAt [exampleEvent\<lparr>ev_type := CexDrift, ev_repriceAnchor := True\<rparr>] 11 ''WETH'' =
    anchorMultiplierAt [exampleEvent\<lparr>ev_type := CexDrift, ev_repriceAnchor := True\<rparr>] 10 ''WETH'' * (1 + 1 / 10)"
  using anchor_follows_drift [of "[exampleEvent\<lparr>ev_type := CexDrift, ev_repriceAnchor := True\<rparr>]" 11 "''WETH''"]
  by (simp add: exampleEvent_def driftsAt_def driftAdd_sum driftFactor_def stressEnvelope_def)

definition exampleLaunch :: resolvedTokenLaunch where
  "exampleLaunch = \<lparr>rl_index = 0, rl_liquidityUsdc = 1000, rl_waveUsdcMult = 2, rl_waveBlockUsdcMult = None,
     rl_dud = False, rl_sellBackFrac = 1 / 2, rl_priceCeilingMult = None, rl_rampBlocks = Some 4\<rparr>"

lemma launch_targets_cumulative_witness:
  "tl_buyBlocks (launchTarget 0 exampleEvent 13 exampleLaunch) = 2 \<and>
   tl_buyBlocks (launchTarget 0 exampleEvent 13 exampleLaunch) \<le> tl_buyBlocks (launchTarget 0 exampleEvent 14 exampleLaunch)"
  using launch_targets_cumulative [of exampleEvent exampleLaunch 13 14 0]
  by (simp add: launchOk_def launchRamp_def exampleLaunch_def exampleEvent_def launchTarget_def
      TOKEN_LAUNCH_LEAD_BLOCKS_def)

lemma envelope_trapezoid_witness:
  "stressEnvelope exampleEvent 9 = 0 \<and> stressEnvelope exampleEvent 10 = 1 / 2 \<and> stressEnvelope exampleEvent 15 = 0"
  using envelope_trapezoid [of exampleEvent]
  by (simp add: exampleEvent_def wellShaped_def residualOf_def)

end
