(* ===== verification/Point_Events.thy ===== *)
theory Point_Events
  imports Stress_Events Epoch_Extent
begin

text \<open>
  The point events of the block handler (\<open>core/src/realtime/coordinator.ts\<close>, the loop of \<open>onBlock\<close>
  over \<open>pointEventsAt\<close>): a pass covers the blocks since the last pass, and slashes the vault or sends
  the whale print of every point event that starts on one of them. The passes are those of the pump in
  \<open>Epoch_Extent\<close>, the schedule is that of \<open>Stress_Events\<close>.
\<close>

section \<open>What a pass does\<close>





section \<open>What the run owes\<close>











section \<open>The property at work\<close>



end
