(* ===== verification/Gmx_Insolvency.thy ===== *)
theory Gmx_Insolvency
  imports Js_Strings "HOL-Library.Product_Lexorder"
begin

text \<open>
  Who pays for an insolvent close (\<open>sdk/src/protocols/gmxInsolvency.ts\<close>): the ledger over the
  exchange's events, the charge at a boundary, its pruning and its checkpoint. Decoding a log is the
  parameter \<open>decode\<close>: the exchange's own events carry the items the code reads unguarded, the items
  it guards with \<open>??\<close> are optional. The position key, a hash, is the parameter \<open>posKey\<close>. A \<open>Life\<close> is
  changed only where it is the last of its key's list, and its \<open>open\<close> never, so the copy a pending
  decrease keeps is the object as far as it is read; the set of counted lives holds their places.
\<close>

section \<open>Events and lives\<close>

record gmxEvent =
  geName :: string
  geAccount :: string
  geMarket :: string
  geCollateralToken :: string
  geIsLong :: bool
  gePositionKey :: string
  geOrderKey :: string
  geSizeInUsd :: int
  geSizeDeltaUsd :: int
  geBasePnlUsd :: "int option"
  geRemainingCostUsd :: "int option"
  geStep :: "string option"

record 'raw ledgerLog =
  glRaw :: 'raw
  glBlock :: "int option"
  glIndex :: "int option"
  glTx :: "string option"

record insolventClose =
  icAccount :: string
  icMarket :: string
  icCollateralToken :: string
  icIsLong :: bool
  icPositionKey :: string
  icOrderKey :: string
  icBlock :: int
  icTx :: string
  icShortfallUsd :: real
  icBasePnlUsd :: real
  icStep :: string
  icOpenedAt :: "int option"

record life =
  lfPositionKey :: string
  lfAccount :: string
  lfMarket :: string
  lfIsLong :: bool
  lfOpen :: "int option"
  lfClose :: "int option"
  lfRealised :: "(int \<times> real) list"

record openPosition =
  opAccount :: string
  opMarket :: string
  opCollateralToken :: string
  opIsLong :: bool
  opBasePnlUsd :: real

record shortfallCharge =
  scChargedUsd :: real
  scShortfallUsd :: real
  scCoverUsd :: real

record insolvencyLedger =
  ilAccounts :: "string list option"
  ilLives :: "(string \<times> life list) list"
  ilShortfalls :: "insolventClose list"

abbreviation lc :: "string \<Rightarrow> string" where
  "lc \<equiv> toLower"

definition toUsd :: "int \<Rightarrow> real" where
  "toUsd v = of_int (v sdiv 10 ^ 18) / 10 ^ 12"

definition orZero :: "int option \<Rightarrow> int" where
  "orZero v = (case v of None \<Rightarrow> 0 | Some n \<Rightarrow> n)"

definition accountMarket :: "string \<Rightarrow> string \<Rightarrow> string" where
  "accountMarket account market = lc account @ ''|'' @ lc market"

definition overlaps :: "int option \<Rightarrow> int option \<Rightarrow> int option \<Rightarrow> int \<Rightarrow> bool" where
  "overlaps opened shut from1 to1 \<longleftrightarrow>
    (case opened of None \<Rightarrow> True | Some b \<Rightarrow> b \<le> to1) \<and>
    (case shut of None \<Rightarrow> True
     | Some c \<Rightarrow> (case from1 of None \<Rightarrow> True | Some f \<Rightarrow> c \<ge> f))"

section \<open>Ingesting\<close>

definition newInsolvency :: "string list option \<Rightarrow> insolvencyLedger" where
  "newInsolvency accounts = \<lparr>ilAccounts = accounts, ilLives = [], ilShortfalls = []\<rparr>"

definition trackedAccount :: "insolvencyLedger \<Rightarrow> string \<Rightarrow> bool" where
  "trackedAccount L account \<longleftrightarrow>
    (case ilAccounts L of None \<Rightarrow> True | Some s \<Rightarrow> lc account \<in> set s)"

definition trackAlso :: "string \<Rightarrow> insolvencyLedger \<Rightarrow> insolvencyLedger" where
  "trackAlso account L = L\<lparr>ilAccounts := map_option (\<lambda>s. List.insert (lc account) s) (ilAccounts L)\<rparr>"

definition livesOf :: "insolvencyLedger \<Rightarrow> string \<Rightarrow> life list" where
  "livesOf L k = getOr [] (ilLives L) k"

definition currentLife :: "insolvencyLedger \<Rightarrow> string \<Rightarrow> life option" where
  "currentLife L positionKey = (let ls = livesOf L (lc positionKey) in
    if ls \<noteq> [] \<and> lfClose (last ls) = None then Some (last ls) else None)"

definition newLife :: "insolvencyLedger \<Rightarrow> gmxEvent \<Rightarrow> int option \<Rightarrow> insolvencyLedger" where
  "newLife L e opened = (let
      lf = \<lparr>lfPositionKey = gePositionKey e, lfAccount = lc (geAccount e), lfMarket = lc (geMarket e),
            lfIsLong = geIsLong e, lfOpen = opened, lfClose = None, lfRealised = []\<rparr>;
      k = lc (gePositionKey e)
    in L\<lparr>ilLives := AList.update k (livesOf L k @ [lf]) (ilLives L)\<rparr>)"

definition onIncrease :: "insolvencyLedger \<Rightarrow> gmxEvent \<Rightarrow> int \<Rightarrow> insolvencyLedger" where
  "onIncrease L e block =
    (if \<not> trackedAccount L (geAccount e) then L
     else case currentLife L (gePositionKey e) of
       Some _ \<Rightarrow> L
     | None \<Rightarrow> newLife L e (if geSizeInUsd e = geSizeDeltaUsd e then Some block else None))"

definition decreaseLife :: "gmxEvent \<Rightarrow> int \<Rightarrow> life \<Rightarrow> life" where
  "decreaseLife e block lf = lf\<lparr>
     lfRealised := lfRealised lf @ [(block, toUsd (orZero (geBasePnlUsd e)))],
     lfClose := (if geSizeInUsd e = 0 then Some block else lfClose lf)\<rparr>"

definition onDecrease :: "insolvencyLedger \<Rightarrow> gmxEvent \<Rightarrow> int \<Rightarrow> insolvencyLedger \<times> life option" where
  "onDecrease L e block =
    (if \<not> trackedAccount L (geAccount e) then (L, None)
     else let
       L1 = (case currentLife L (gePositionKey e) of Some _ \<Rightarrow> L | None \<Rightarrow> newLife L e None);
       k = lc (gePositionKey e);
       ls = livesOf L1 k;
       lf = decreaseLife e block (last ls)
     in (L1\<lparr>ilLives := AList.update k (butlast ls @ [lf]) (ilLives L1)\<rparr>, Some lf))"

definition recordInsolvent ::
  "insolvencyLedger \<Rightarrow> gmxEvent \<Rightarrow> gmxEvent \<Rightarrow> life option \<Rightarrow> int \<Rightarrow> string
    \<Rightarrow> insolvencyLedger \<times> insolventClose option" where
  "recordInsolvent L insolvent decrease lifeOpt block tx = (case lifeOpt of
     None \<Rightarrow> (L, None)
   | Some lf \<Rightarrow> (let rec = \<lparr>
        icAccount = geAccount decrease, icMarket = geMarket decrease,
        icCollateralToken = geCollateralToken decrease, icIsLong = geIsLong decrease,
        icPositionKey = gePositionKey decrease, icOrderKey = geOrderKey insolvent,
        icBlock = block, icTx = tx,
        icShortfallUsd = toUsd (orZero (geRemainingCostUsd insolvent)),
        icBasePnlUsd = toUsd (orZero (geBasePnlUsd insolvent)),
        icStep = (case geStep insolvent of None \<Rightarrow> [] | Some s \<Rightarrow> s),
        icOpenedAt = lfOpen lf\<rparr>
      in (L\<lparr>ilShortfalls := ilShortfalls L @ [rec]\<rparr>, Some rec)))"

record ingestState =
  isLedger :: insolvencyLedger
  isInsolvent :: "(string \<times> gmxEvent) list"
  isDecrease :: "(string \<times> (gmxEvent \<times> life option)) list"
  isOut :: "insolventClose list"

definition pushRecord ::
  "ingestState \<Rightarrow> insolvencyLedger \<times> insolventClose option \<Rightarrow> ingestState" where
  "pushRecord S r = S\<lparr>isLedger := fst r,
     isOut := (case snd r of None \<Rightarrow> isOut S | Some rec \<Rightarrow> isOut S @ [rec])\<rparr>"

definition ingestEvent :: "ingestState \<Rightarrow> gmxEvent \<Rightarrow> int \<Rightarrow> string \<Rightarrow> ingestState" where
  "ingestEvent S e block tx = (let key = tx @ ''|'' @ geOrderKey e in
    if geName e = ''PositionIncrease''
    then S\<lparr>isLedger := onIncrease (isLedger S) e block\<rparr>
    else if geName e = ''PositionDecrease''
    then let (L, lf) = onDecrease (isLedger S) e block in
      (case map_of (isInsolvent S) key of
         Some insolvent \<Rightarrow>
           pushRecord (S\<lparr>isInsolvent := AList.delete key (isInsolvent S)\<rparr>)
             (recordInsolvent L insolvent e lf block tx)
       | None \<Rightarrow> S\<lparr>isLedger := L, isDecrease := AList.update key (e, lf) (isDecrease S)\<rparr>)
    else if geName e = ''InsolventClose''
    then (case map_of (isDecrease S) key of
         Some (decrease, lf) \<Rightarrow>
           pushRecord (S\<lparr>isDecrease := AList.delete key (isDecrease S)\<rparr>)
             (recordInsolvent (isLedger S) e decrease lf block tx)
       | None \<Rightarrow> S\<lparr>isInsolvent := AList.update key e (isInsolvent S)\<rparr>)
    else S)"

definition blockOf :: "'raw ledgerLog \<Rightarrow> int" where
  "blockOf g = orZero (glBlock g)"

definition ingestLog :: "('raw \<Rightarrow> gmxEvent option) \<Rightarrow> ingestState \<Rightarrow> 'raw ledgerLog \<Rightarrow> ingestState" where
  "ingestLog decode S g = (case decode (glRaw g) of
     None \<Rightarrow> S
   | Some e \<Rightarrow> ingestEvent S e (blockOf g)
       (case glTx g of None \<Rightarrow> ''0x'' | Some t \<Rightarrow> t))"

definition ingestLogs ::
  "('raw \<Rightarrow> gmxEvent option) \<Rightarrow> insolvencyLedger \<Rightarrow> 'raw ledgerLog list \<Rightarrow> ingestState" where
  "ingestLogs decode L logs =
    foldl (ingestLog decode) \<lparr>isLedger = L, isInsolvent = [], isDecrease = [], isOut = []\<rparr>
      (sort_key (\<lambda>g. (blockOf g, orZero (glIndex g))) logs)"

section \<open>The charge at a boundary\<close>

definition marketShortfalls :: "insolvencyLedger \<Rightarrow> int \<Rightarrow> (string \<times> insolventClose list) list" where
  "marketShortfalls L block = foldl (\<lambda>m s.
     if icBlock s > block then m
     else let k = accountMarket (icAccount s) (icMarket s) in
       AList.update k (getOr [] m k @ [s]) m) [] (ilShortfalls L)"

definition positionKeyOf :: "(string \<Rightarrow> string \<Rightarrow> string \<Rightarrow> bool \<Rightarrow> string) \<Rightarrow> openPosition \<Rightarrow> string" where
  "positionKeyOf posKey p = lc (posKey (opAccount p) (opMarket p) (opCollateralToken p) (opIsLong p))"

definition openPnlMap ::
  "(string \<Rightarrow> string \<Rightarrow> string \<Rightarrow> bool \<Rightarrow> string) \<Rightarrow> openPosition list \<Rightarrow> (string \<times> real) list" where
  "openPnlMap posKey open1 =
    foldl (\<lambda>m p. AList.update (positionKeyOf posKey p) (opBasePnlUsd p) m) [] open1"

definition closedBy :: "int \<Rightarrow> life \<Rightarrow> int option" where
  "closedBy block lf = (case lfClose lf of
     None \<Rightarrow> None | Some c \<Rightarrow> if c \<le> block then Some c else None)"

definition opposes :: "string \<Rightarrow> string \<Rightarrow> int \<Rightarrow> insolventClose \<Rightarrow> life \<Rightarrow> bool" where
  "opposes account market block s lf \<longleftrightarrow>
    lfAccount lf = account \<and> lfMarket lf = market \<and> lfIsLong lf \<noteq> icIsLong s \<and>
    (case lfOpen lf of None \<Rightarrow> True | Some b \<Rightarrow> b \<le> block) \<and>
    overlaps (lfOpen lf) (closedBy block lf) (icOpenedAt s) (icBlock s)"

definition realisedBy :: "int \<Rightarrow> life \<Rightarrow> real \<Rightarrow> real" where
  "realisedBy block lf cover =
    foldl (\<lambda>c (b, usd). if b \<le> block then c + usd else c) cover (lfRealised lf)"

text \<open>Every life with its place: its key and its index in the key's list.\<close>

definition listedLives :: "insolvencyLedger \<Rightarrow> ((string \<times> nat) \<times> life) list" where
  "listedLives L = concat (map (\<lambda>(k, ls). map (\<lambda>(i, lf). ((k, i), lf)) (List.enumerate 0 ls)) (ilLives L))"

record coverState =
  csCover :: real
  csCounted :: "(string \<times> nat) list"
  csSeen :: "string list"

definition coverLife ::
  "string \<Rightarrow> string \<Rightarrow> int \<Rightarrow> (string \<times> real) list \<Rightarrow> insolventClose
    \<Rightarrow> coverState \<Rightarrow> (string \<times> nat) \<times> life \<Rightarrow> coverState" where
  "coverLife account market block openPnl s S = (\<lambda>(place, lf).
    if place \<in> set (csCounted S) \<or> \<not> opposes account market block s lf then S
    else let cover = realisedBy block lf (csCover S) in
      if closedBy block lf = None
      then \<lparr>csCover = cover + getOr 0 openPnl (fst place), csCounted = place # csCounted S,
            csSeen = fst place # csSeen S\<rparr>
      else S\<lparr>csCover := cover, csCounted := place # csCounted S\<rparr>)"

definition coverOpen ::
  "(string \<Rightarrow> string \<Rightarrow> string \<Rightarrow> bool \<Rightarrow> string) \<Rightarrow> insolvencyLedger \<Rightarrow> string \<Rightarrow> string \<Rightarrow> insolventClose
    \<Rightarrow> coverState \<Rightarrow> openPosition \<Rightarrow> coverState" where
  "coverOpen posKey L account market s S p =
    (if lc (opAccount p) \<noteq> account \<or> lc (opMarket p) \<noteq> market \<or> opIsLong p = icIsLong s then S
     else let key = positionKeyOf posKey p in
       if key \<in> set (csSeen S) \<or> key \<in> set (keys (ilLives L)) then S
       else S\<lparr>csSeen := key # csSeen S, csCover := csCover S + opBasePnlUsd p\<rparr>)"

definition coverStep ::
  "(string \<Rightarrow> string \<Rightarrow> string \<Rightarrow> bool \<Rightarrow> string) \<Rightarrow> insolvencyLedger \<Rightarrow> int \<Rightarrow> openPosition list
    \<Rightarrow> string \<Rightarrow> string \<Rightarrow> coverState \<Rightarrow> insolventClose \<Rightarrow> coverState" where
  "coverStep posKey L block open1 account market S s =
    foldl (coverOpen posKey L account market s)
      (foldl (coverLife account market block (openPnlMap posKey open1) s) S (listedLives L)) open1"

definition chargeStep ::
  "(string \<Rightarrow> string \<Rightarrow> string \<Rightarrow> bool \<Rightarrow> string) \<Rightarrow> insolvencyLedger \<Rightarrow> int \<Rightarrow> openPosition list
    \<Rightarrow> (string \<times> shortfallCharge) list \<Rightarrow> string \<times> insolventClose list \<Rightarrow> (string \<times> shortfallCharge) list" where
  "chargeStep posKey L block open1 res = (\<lambda>(k, shortfalls). let
      parts = splitOn CHR ''|'' k; account = parts ! 0; market = parts ! 1;
      shortfallUsd = foldl (\<lambda>n s. n + icShortfallUsd s) 0 shortfalls;
      cover = csCover (foldl (coverStep posKey L block open1 account market)
        \<lparr>csCover = 0, csCounted = [], csSeen = []\<rparr> shortfalls);
      coverUsd = max 0 cover;
      prev = getOr \<lparr>scChargedUsd = 0, scShortfallUsd = 0, scCoverUsd = 0\<rparr> res account
    in AList.update account
      \<lparr>scChargedUsd = scChargedUsd prev + min shortfallUsd coverUsd,
       scShortfallUsd = scShortfallUsd prev + shortfallUsd,
       scCoverUsd = scCoverUsd prev + coverUsd\<rparr> res)"

definition chargesAt ::
  "(string \<Rightarrow> string \<Rightarrow> string \<Rightarrow> bool \<Rightarrow> string) \<Rightarrow> insolvencyLedger \<Rightarrow> int \<Rightarrow> openPosition list
    \<Rightarrow> (string \<times> shortfallCharge) list" where
  "chargesAt posKey L block open1 =
    foldl (chargeStep posKey L block open1) [] (marketShortfalls L block)"

section \<open>Pruning and the checkpoint\<close>

definition openLast :: "life list \<Rightarrow> life option" where
  "openLast ls = (if ls \<noteq> [] \<and> lfClose (last ls) = None then Some (last ls) else None)"

definition mayOverlapLater :: "life \<Rightarrow> int \<Rightarrow> life list \<Rightarrow> bool" where
  "mayOverlapLater lf close others = (case openLast others of
     None \<Rightarrow> False
   | Some other \<Rightarrow> lfAccount other = lfAccount lf \<and> lfMarket other = lfMarket lf \<and>
       lfIsLong other \<noteq> lfIsLong lf \<and>
       (case lfOpen other of None \<Rightarrow> True | Some b \<Rightarrow> b \<le> close))"

definition matters :: "insolvencyLedger \<Rightarrow> (string \<times> life list) list \<Rightarrow> int \<Rightarrow> life \<Rightarrow> bool" where
  "matters L lives block lf = (case lfClose lf of
     None \<Rightarrow> True
   | Some c \<Rightarrow> c > block \<or>
       list_ex (\<lambda>s. accountMarket (icAccount s) (icMarket s) = accountMarket (lfAccount lf) (lfMarket lf) \<and>
         icIsLong s \<noteq> lfIsLong lf \<and>
         overlaps (lfOpen lf) (lfClose lf) (icOpenedAt s) (icBlock s)) (ilShortfalls L) \<or>
       list_ex (\<lambda>(_, others). mayOverlapLater lf c others) lives)"

text \<open>
  The loop changes the map it walks: a list that comes out empty is deleted, one that shrinks is
  replaced in place, and the lists after it are filtered against what is left.
\<close>

definition pruneKey ::
  "insolvencyLedger \<Rightarrow> int \<Rightarrow> (string \<times> life list) list \<Rightarrow> string \<Rightarrow> (string \<times> life list) list" where
  "pruneKey L block lives k = (let
      ls = getOr [] lives k; kept = filter (matters L lives block) ls
    in if kept = [] then AList.delete k lives
       else if length kept \<noteq> length ls then AList.update k kept lives else lives)"

definition pruneLedger :: "int \<Rightarrow> insolvencyLedger \<Rightarrow> insolvencyLedger" where
  "pruneLedger block L = L\<lparr>ilLives := foldl (pruneKey L block) (ilLives L) (keys (ilLives L))\<rparr>"

record insolvencyState =
  stLives :: "life list"
  stShortfalls :: "insolventClose list"

definition insolvencySnapshot :: "insolvencyLedger \<Rightarrow> insolvencyState" where
  "insolvencySnapshot L = \<lparr>stLives = concat (map snd (ilLives L)), stShortfalls = ilShortfalls L\<rparr>"

definition insolvencyRestore :: "insolvencyState \<Rightarrow> insolvencyLedger \<Rightarrow> insolvencyLedger" where
  "insolvencyRestore st L = L\<lparr>
     ilLives := foldl (\<lambda>m lf. let k = lc (lfPositionKey lf) in
       AList.update k (getOr [] m k @ [lf]) m) [] (stLives st),
     ilShortfalls := stShortfalls st\<rparr>"

end
