(* ===== verification/Gmx_Shortfall.thy ===== *)
theory Gmx_Shortfall
  imports Gmx_Insolvency
begin

text \<open>
  The rule an insolvent close is charged by, written as sums
  (\<open>sdk/src/protocols/gmxInsolvency.ts\<close>, the comment at its head), and that the loops of \<open>chargesAt\<close>
  compute it: the set of lives already counted, the positions already seen and the grouping by
  account and market only keep each life and each position from counting twice.
\<close>

section \<open>The rule\<close>

text \<open>The insolvent closes of an account in a market that a boundary has reached.\<close>

definition hitsBy :: "insolvencyLedger \<Rightarrow> int \<Rightarrow> string \<Rightarrow> string \<Rightarrow> insolventClose list" where
  "hitsBy L block account market =
    filter (\<lambda>s. icBlock s \<le> block \<and> lc (icAccount s) = account \<and> lc (icMarket s) = market) (ilShortfalls L)"

definition shortfallOf :: "insolvencyLedger \<Rightarrow> int \<Rightarrow> string \<Rightarrow> string \<Rightarrow> real" where
  "shortfallOf L block account market = (\<Sum>s\<leftarrow>hitsBy L block account market. icShortfallUsd s)"

text \<open>What a life is worth at a boundary: realised up to it, and unrealised if it is open there.\<close>

definition lifeWorth :: "(string \<times> real) list \<Rightarrow> int \<Rightarrow> string \<Rightarrow> life \<Rightarrow> real" where
  "lifeWorth pnl block k lf =
    (\<Sum>(b, usd)\<leftarrow>lfRealised lf. if b \<le> block then usd else 0) +
    (if closedBy block lf = None then getOr 0 pnl k else 0)"

definition facesAny :: "insolventClose list \<Rightarrow> string \<Rightarrow> string \<Rightarrow> int \<Rightarrow> life \<Rightarrow> bool" where
  "facesAny hits account market block lf \<longleftrightarrow> list_ex (\<lambda>s. opposes account market block s lf) hits"

text \<open>A position open at the boundary that the ledger has seen no event of.\<close>

definition unseenOpposite ::
  "(string \<Rightarrow> string \<Rightarrow> string \<Rightarrow> bool \<Rightarrow> string) \<Rightarrow> insolvencyLedger \<Rightarrow> insolventClose list
    \<Rightarrow> string \<Rightarrow> string \<Rightarrow> openPosition \<Rightarrow> bool" where
  "unseenOpposite posKey L hits account market p \<longleftrightarrow>
    lc (opAccount p) = account \<and> lc (opMarket p) = market \<and>
    positionKeyOf posKey p \<notin> set (keys (ilLives L)) \<and>
    list_ex (\<lambda>s. opIsLong p \<noteq> icIsLong s) hits"

definition coverOf ::
  "(string \<Rightarrow> string \<Rightarrow> string \<Rightarrow> bool \<Rightarrow> string) \<Rightarrow> insolvencyLedger \<Rightarrow> int \<Rightarrow> openPosition list
    \<Rightarrow> string \<Rightarrow> string \<Rightarrow> real" where
  "coverOf posKey L block open1 account market = (let hits = hitsBy L block account market in
     (\<Sum>(k, ls)\<leftarrow>ilLives L. \<Sum>lf\<leftarrow>ls.
        if facesAny hits account market block lf then lifeWorth (openPnlMap posKey open1) block k lf else 0) +
     (\<Sum>p\<leftarrow>open1. if unseenOpposite posKey L hits account market p then opBasePnlUsd p else 0))"

definition marketsHit :: "insolvencyLedger \<Rightarrow> int \<Rightarrow> string \<Rightarrow> string set" where
  "marketsHit L block account =
    (lc \<circ> icMarket) ` {s \<in> set (ilShortfalls L). icBlock s \<le> block \<and> lc (icAccount s) = account}"

definition chargeRule ::
  "(string \<Rightarrow> string \<Rightarrow> string \<Rightarrow> bool \<Rightarrow> string) \<Rightarrow> insolvencyLedger \<Rightarrow> int \<Rightarrow> openPosition list
    \<Rightarrow> string \<Rightarrow> shortfallCharge" where
  "chargeRule posKey L block open1 account = (let
      S = shortfallOf L block account; W = (\<lambda>m. max 0 (coverOf posKey L block open1 account m));
      M = marketsHit L block account
    in \<lparr>scChargedUsd = (\<Sum>m\<in>M. min (S m) (W m)), scShortfallUsd = (\<Sum>m\<in>M. S m),
        scCoverUsd = (\<Sum>m\<in>M. W m)\<rparr>)"

section \<open>The ledger's invariant\<close>

definition plain :: "string \<Rightarrow> bool" where
  "plain s \<longleftrightarrow> CHR ''|'' \<notin> set s"

definition livesOk :: "string \<Rightarrow> life list \<Rightarrow> bool" where
  "livesOk k ls \<longleftrightarrow> ls \<noteq> [] \<and> list_all (\<lambda>lf. lc (lfPositionKey lf) = k) ls \<and>
    list_all (\<lambda>lf. lfClose lf \<noteq> None) (butlast ls)"

definition insolvencyInv :: "insolvencyLedger \<Rightarrow> bool" where
  "insolvencyInv L \<longleftrightarrow> distinct (keys (ilLives L)) \<and>
    list_all (\<lambda>(k, ls). livesOk k ls) (ilLives L) \<and>
    list_all (\<lambda>s. plain (icAccount s) \<and> plain (icMarket s)) (ilShortfalls L)"

lemma lowerChar_bar: "lowerChar c = CHR ''|'' \<longleftrightarrow> c = CHR ''|''"
proof (cases "65 \<le> (of_char c :: nat) \<and> (of_char c :: nat) \<le> 90")
  case True
  define n where "n = (of_char c :: nat)"
  have n: "65 \<le> n" "n \<le> 90" using True by (simp_all add: n_def)
  have "(of_char (lowerChar c) :: nat) = n + 32"
    using n by (simp add: lowerChar_def Let_def flip: n_def)
  moreover have "(of_char CHR ''|'' :: nat) = 124" by simp
  ultimately have "lowerChar c \<noteq> CHR ''|''" "c \<noteq> CHR ''|''"
    using n by (auto simp: n_def)
  then show ?thesis by simp
next
  case False
  then have "lowerChar c = c" by (simp only: lowerChar_def Let_def if_False)
  then show ?thesis by simp
qed

lemma plain_lc [simp]: "plain (lc s) \<longleftrightarrow> plain s"
proof -
  have "CHR ''|'' \<in> set (lc s) \<longleftrightarrow> CHR ''|'' \<in> set s"
    unfolding toLower_def set_map image_iff using lowerChar_bar by metis
  then show ?thesis by (simp only: plain_def)
qed

lemma accountMarket_parts:
  assumes "plain account" "plain market"
  shows "splitOn CHR ''|'' (accountMarket account market) = [lc account, lc market]"
proof -
  have "CHR ''|'' \<notin> set (lc account)" "CHR ''|'' \<notin> set (lc market)"
    using assms plain_lc by (simp_all add: plain_def)
  then show ?thesis
    using splitOn_append [of "CHR ''|''" "lc account" "lc market"]
    by (simp add: accountMarket_def splitOn_plain)
qed

lemma accountMarket_eq:
  assumes "plain a" "plain m" "plain a'" "plain m'"
  shows "accountMarket a m = accountMarket a' m' \<longleftrightarrow> lc a = lc a' \<and> lc m = lc m'"
proof
  assume "accountMarket a m = accountMarket a' m'"
  then have "[lc a, lc m] = [lc a', lc m']"
    using accountMarket_parts [OF assms(1,2)] accountMarket_parts [OF assms(3,4)] by metis
  then show "lc a = lc a' \<and> lc m = lc m'" by blast
next
  assume "lc a = lc a' \<and> lc m = lc m'"
  then show "accountMarket a m = accountMarket a' m'" unfolding accountMarket_def by metis
qed

lemma fold_add: "foldl (\<lambda>n s. n + f s) c xs = c + (\<Sum>s\<leftarrow>xs. (f s :: real))"
  by (induction xs arbitrary: c) auto

lemma realisedBy_sum:
  "realisedBy block lf cover = cover + (\<Sum>(b, usd)\<leftarrow>lfRealised lf. if b \<le> block then usd else 0)"
proof -
  have "foldl (\<lambda>c (b, usd). if b \<le> block then c + usd else c) cover xs =
      cover + (\<Sum>(b, usd)\<leftarrow>xs. if b \<le> block then usd else 0)" for xs :: "(int \<times> real) list"
    by (induction xs arbitrary: cover) auto
  then show ?thesis by (simp add: realisedBy_def)
qed

section \<open>The loops\<close>

definition facedLives ::
  "((string \<times> nat) \<times> life) list \<Rightarrow> string \<Rightarrow> string \<Rightarrow> int \<Rightarrow> insolventClose \<Rightarrow> (string \<times> nat) set" where
  "facedLives xs account market block s =
    {place. \<exists>lf. (place, lf) \<in> set xs \<and> opposes account market block s lf}"

lemma coverLife_fold:
  assumes "distinct (map fst xs)"
    and "foldl (coverLife account market block pnl s) S xs = R"
  shows "csCover R = csCover S + (\<Sum>(place, lf)\<leftarrow>xs.
      if place \<notin> set (csCounted S) \<and> opposes account market block s lf
      then lifeWorth pnl block (fst place) lf else 0) \<and>
    set (csCounted R) = set (csCounted S) \<union> facedLives xs account market block s \<and>
    set (csSeen S) \<subseteq> set (csSeen R) \<and>
    set (csSeen R) \<subseteq> set (csSeen S) \<union> (fst \<circ> fst) ` set xs"
  using assms
proof (induction xs arbitrary: S)
  case Nil
  then show ?case by (simp add: facedLives_def)
next
  case (Cons x xs)
  obtain place lf where x: "x = (place, lf)" by (cases x)
  let ?S = "coverLife account market block pnl s S x"
  have d: "distinct (map fst xs)" "place \<notin> fst ` set xs" using Cons.prems by (auto simp: x)
  have c: "set (csCounted ?S) = set (csCounted S) \<union>
      (if opposes account market block s lf then {place} else {})"
    by (auto simp: coverLife_def x Let_def)
  have rest: "(\<Sum>(pl, l)\<leftarrow>xs. if pl \<notin> set (csCounted ?S) \<and> opposes account market block s l
        then lifeWorth pnl block (fst pl) l else 0) =
      (\<Sum>(pl, l)\<leftarrow>xs. if pl \<notin> set (csCounted S) \<and> opposes account market block s l
        then lifeWorth pnl block (fst pl) l else 0)"
    by (rule arg_cong [where f = sum_list], rule map_cong [OF refl])
       (use d(2) in \<open>auto simp: c image_iff split: prod.splits\<close>)
  have head: "csCover ?S = csCover S + (if place \<notin> set (csCounted S) \<and> opposes account market block s lf
      then lifeWorth pnl block (fst place) lf else 0)"
    by (simp add: coverLife_def x Let_def realisedBy_sum lifeWorth_def)
  have seen: "set (csSeen S) \<subseteq> set (csSeen ?S)" "set (csSeen ?S) \<subseteq> insert (fst place) (set (csSeen S))"
    by (auto simp: coverLife_def x Let_def)
  have faced: "facedLives (x # xs) account market block s =
      (if opposes account market block s lf then {place} else {}) \<union> facedLives xs account market block s"
    by (auto simp: facedLives_def x)
  note IH = Cons.IH [OF d(1), of ?S]
  have run: "foldl (coverLife account market block pnl s) ?S xs = R" using Cons.prems(2) by simp
  note IH = IH [OF run]
  show ?case
  proof (intro conjI)
    show "csCover R = csCover S + (\<Sum>(place, lf)\<leftarrow>x # xs.
      if place \<notin> set (csCounted S) \<and> opposes account market block s lf
      then lifeWorth pnl block (fst place) lf else 0)"
      using IH rest head by (simp add: x)
    show "set (csCounted R) = set (csCounted S) \<union> facedLives (x # xs) account market block s"
      using IH unfolding c faced by auto
    show "set (csSeen S) \<subseteq> set (csSeen R)" using IH seen by auto
    show "set (csSeen R) \<subseteq> set (csSeen S) \<union> (fst \<circ> fst) ` set (x # xs)"
      using IH seen(2) by (force simp: x)
  qed
qed

definition facing :: "(string \<Rightarrow> string \<Rightarrow> string \<Rightarrow> bool \<Rightarrow> string) \<Rightarrow> insolvencyLedger \<Rightarrow> string \<Rightarrow> string
    \<Rightarrow> insolventClose \<Rightarrow> openPosition \<Rightarrow> bool" where
  "facing posKey L account market s p \<longleftrightarrow> unseenOpposite posKey L [s] account market p"

lemma coverOpen_fold:
  assumes "distinct (map (positionKeyOf posKey) ps)"
    and "foldl (coverOpen posKey L account market s) S ps = R"
  shows "csCover R = csCover S + (\<Sum>p\<leftarrow>ps.
      if positionKeyOf posKey p \<notin> set (csSeen S) \<and> facing posKey L account market s p
      then opBasePnlUsd p else 0) \<and>
    csCounted R = csCounted S \<and>
    set (csSeen R) = set (csSeen S) \<union>
      positionKeyOf posKey ` {p \<in> set ps. facing posKey L account market s p}"
  using assms
proof (induction ps arbitrary: S)
  case Nil
  then show ?case by simp
next
  case (Cons p ps)
  let ?k = "positionKeyOf posKey"
  let ?S = "coverOpen posKey L account market s S p"
  have d: "distinct (map ?k ps)" "?k p \<notin> ?k ` set ps" using Cons.prems by auto
  have step: "?S = (if ?k p \<notin> set (csSeen S) \<and> facing posKey L account market s p
      then S\<lparr>csSeen := ?k p # csSeen S, csCover := csCover S + opBasePnlUsd p\<rparr> else S)"
    by (auto simp: coverOpen_def facing_def unseenOpposite_def Let_def)
  have rest: "(\<Sum>q\<leftarrow>ps. if ?k q \<notin> set (csSeen ?S) \<and> facing posKey L account market s q
        then opBasePnlUsd q else 0) =
      (\<Sum>q\<leftarrow>ps. if ?k q \<notin> set (csSeen S) \<and> facing posKey L account market s q
        then opBasePnlUsd q else 0)"
    by (rule arg_cong [where f = sum_list], rule map_cong [OF refl])
       (use d(2) in \<open>auto simp: step image_iff\<close>)
  have run: "foldl (coverOpen posKey L account market s) ?S ps = R" using Cons.prems(2) by simp
  note IH = Cons.IH [OF d(1) run]
  have fs: "{q \<in> set (p # ps). facing posKey L account market s q} =
      (if facing posKey L account market s p then {p} else {}) \<union>
      {q \<in> set ps. facing posKey L account market s q}" by auto
  show ?case
    unfolding fs using IH rest by (auto simp: step)
qed

text \<open>
  After the closes \<open>ss\<close>: every life facing one of them is counted once, and every unseen position.
\<close>

definition lifeTerm ::
  "(string \<times> real) list \<Rightarrow> string \<Rightarrow> string \<Rightarrow> int \<Rightarrow> insolventClose list \<Rightarrow> (string \<times> nat) \<times> life \<Rightarrow> real" where
  "lifeTerm pnl account market block ss = (\<lambda>(place, lf).
     if facesAny ss account market block lf then lifeWorth pnl block (fst place) lf else 0)"

definition openTerm ::
  "(string \<Rightarrow> string \<Rightarrow> string \<Rightarrow> bool \<Rightarrow> string) \<Rightarrow> insolvencyLedger \<Rightarrow> string \<Rightarrow> string
    \<Rightarrow> insolventClose list \<Rightarrow> openPosition \<Rightarrow> real" where
  "openTerm posKey L account market ss p =
    (if unseenOpposite posKey L ss account market p then opBasePnlUsd p else 0)"

lemma distinct_places: "distinct (keys xs) \<Longrightarrow>
    distinct (map fst (concat (map (\<lambda>(k, ls). map (\<lambda>(i, lf). ((k, i), lf)) (List.enumerate 0 ls)) xs)))"
proof -
  have one: "map fst (map (\<lambda>(i, lf). ((k, i), lf)) (List.enumerate n ls)) =
      map (Pair k) [n..<n + length ls]" for k n and ls :: "'b list"
    by (induction ls arbitrary: n) (simp_all add: upt_conv_Cons del: upt_Suc)
  have "map fst (concat (map (\<lambda>(k, ls). map (\<lambda>(i, lf). ((k, i), lf)) (List.enumerate 0 ls)) xs)) =
      concat (map (\<lambda>(k, ls). map (Pair k) [0..<length ls]) xs)"
    by (induction xs) (auto simp: one simp del: map_map)
  moreover have "distinct (concat (map (\<lambda>(k, ls). map (Pair k) [0..<length ls]) xs))"
    if "distinct (keys xs)"
    using that by (induction xs) (auto simp: distinct_map inj_on_def image_iff)
  ultimately show "distinct (keys xs) \<Longrightarrow> ?thesis" by simp
qed

lemma listed_sum:
  "(\<Sum>x\<leftarrow>listedLives L. f (fst (fst x)) (snd x)) = (\<Sum>(k, ls)\<leftarrow>ilLives L. \<Sum>lf\<leftarrow>ls. (f k lf :: real))"
proof -
  have one: "(\<Sum>x\<leftarrow>map (\<lambda>(i, lf). ((k, i), lf)) (List.enumerate n ls). f (fst (fst x)) (snd x)) =
      (\<Sum>lf\<leftarrow>ls. f k lf)" for k n ls
    by (induction ls arbitrary: n) simp_all
  have "(\<Sum>x\<leftarrow>concat (map (\<lambda>(k, ls). map (\<lambda>(i, lf). ((k, i), lf)) (List.enumerate 0 ls)) xs).
        f (fst (fst x)) (snd x)) = (\<Sum>(k, ls)\<leftarrow>xs. \<Sum>lf\<leftarrow>ls. f k lf)" for xs
    by (induction xs) (auto simp: one simp del: map_map)
  then show ?thesis by (simp add: listedLives_def)
qed

lemma listed_keys: "(fst \<circ> fst) ` set (listedLives L) \<subseteq> set (keys (ilLives L))"
  by (force simp: listedLives_def)

lemma cover_fold:
  assumes "distinct (keys (ilLives L))" "distinct (map (positionKeyOf posKey) open1)"
    and "foldl (coverStep posKey L block open1 account market)
      \<lparr>csCover = 0, csCounted = [], csSeen = []\<rparr> ss = R"
  shows "csCover R =
      (\<Sum>x\<leftarrow>listedLives L. lifeTerm (openPnlMap posKey open1) account market block ss x) +
      (\<Sum>p\<leftarrow>open1. openTerm posKey L account market ss p) \<and>
    set (csCounted R) = {place. \<exists>lf. (place, lf) \<in> set (listedLives L) \<and> facesAny ss account market block lf} \<and>
    set (csSeen R) \<subseteq> set (keys (ilLives L)) \<union>
      positionKeyOf posKey ` {p \<in> set open1. unseenOpposite posKey L ss account market p} \<and>
    positionKeyOf posKey ` {p \<in> set open1. unseenOpposite posKey L ss account market p} \<subseteq> set (csSeen R)"
  using assms(3)
proof (induction ss arbitrary: R rule: rev_induct)
  case Nil
  then show ?case
    by (auto simp: lifeTerm_def openTerm_def facesAny_def unseenOpposite_def split_def)
next
  case (snoc s ss)
  let ?pnl = "openPnlMap posKey open1" and ?key = "positionKeyOf posKey"
  let ?init = "\<lparr>csCover = 0, csCounted = [], csSeen = []\<rparr>"
  define A where "A = foldl (coverStep posKey L block open1 account market) ?init ss"
  define B where "B = foldl (coverLife account market block ?pnl s) A (listedLives L)"
  have R: "foldl (coverOpen posKey L account market s) B open1 = R"
  proof -
    have "coverStep posKey L block open1 account market A s = R"
      using snoc.prems by (simp add: A_def)
    then show ?thesis by (simp add: B_def coverStep_def)
  qed
  note IA = snoc.IH [OF A_def [symmetric]]
  have dl: "distinct (map fst (listedLives L))"
    unfolding listedLives_def by (rule distinct_places [OF assms(1)])
  note IB = coverLife_fold [OF dl B_def [symmetric]]
  note IR = coverOpen_fold [OF assms(2) R]
  have counted: "place \<in> set (csCounted A) \<longleftrightarrow> facesAny ss account market block lf"
    if "(place, lf) \<in> set (listedLives L)" for place lf
  proof -
    have one: "lf' = lf" if "(place, lf') \<in> set (listedLives L)" for lf'
      using eq_key_imp_eq_value [OF dl that \<open>(place, lf) \<in> _\<close>] .
    have "place \<in> set (csCounted A) \<longleftrightarrow>
        (\<exists>lf'. (place, lf') \<in> set (listedLives L) \<and> facesAny ss account market block lf')"
      using IA by simp
    with one that show ?thesis by blast
  qed
  have lives: "(\<Sum>x\<leftarrow>listedLives L. lifeTerm ?pnl account market block ss x) +
      (\<Sum>(place, lf)\<leftarrow>listedLives L. if place \<notin> set (csCounted A) \<and> opposes account market block s lf
        then lifeWorth ?pnl block (fst place) lf else 0) =
      (\<Sum>x\<leftarrow>listedLives L. lifeTerm ?pnl account market block (ss @ [s]) x)"
    unfolding sum_list_addf [symmetric]
    by (rule arg_cong [where f = sum_list], rule map_cong [OF refl])
       (auto simp: lifeTerm_def facesAny_def counted)
  have seenB: "?key p \<in> set (csSeen B) \<longleftrightarrow> unseenOpposite posKey L ss account market p"
    if "p \<in> set open1" "?key p \<notin> set (keys (ilLives L))" for p
  proof -
    have inj: "q = p" if "q \<in> set open1" "?key q = ?key p" for q
      using assms(2) that \<open>p \<in> set open1\<close> by (auto simp: distinct_map dest: inj_onD)
    have "?key p \<in> set (csSeen B) \<longleftrightarrow> ?key p \<in> set (csSeen A)"
      using IB listed_keys [of L] that(2) by blast
    also have "\<dots> \<longleftrightarrow> (\<exists>q \<in> set open1. ?key q = ?key p \<and> unseenOpposite posKey L ss account market q)"
      using IA that(2) by (auto 4 3)
    finally show ?thesis using inj that(1) by blast
  qed
  have opens: "(\<Sum>p\<leftarrow>open1. openTerm posKey L account market ss p) +
      (\<Sum>p\<leftarrow>open1. if ?key p \<notin> set (csSeen B) \<and> facing posKey L account market s p
        then opBasePnlUsd p else 0) =
      (\<Sum>p\<leftarrow>open1. openTerm posKey L account market (ss @ [s]) p)"
    unfolding sum_list_addf [symmetric]
    by (rule arg_cong [where f = sum_list], rule map_cong [OF refl])
       (use seenB in \<open>auto simp: openTerm_def facing_def unseenOpposite_def\<close>)
  have un: "unseenOpposite posKey L (ss @ [s]) account market p \<longleftrightarrow>
      unseenOpposite posKey L ss account market p \<or> facing posKey L account market s p" for p
    by (auto simp: unseenOpposite_def facing_def)
  show ?case
  proof (intro conjI)
    show "csCover R =
      (\<Sum>x\<leftarrow>listedLives L. lifeTerm ?pnl account market block (ss @ [s]) x) +
      (\<Sum>p\<leftarrow>open1. openTerm posKey L account market (ss @ [s]) p)"
      using IA IB IR lives opens by simp
    have "set (csCounted R) = set (csCounted A) \<union> facedLives (listedLives L) account market block s"
      using IB IR by simp
    then show "set (csCounted R) = {place. \<exists>lf. (place, lf) \<in> set (listedLives L) \<and>
        facesAny (ss @ [s]) account market block lf}"
      using IA by (auto simp: facedLives_def facesAny_def)
    show "set (csSeen R) \<subseteq> set (keys (ilLives L)) \<union>
      ?key ` {p \<in> set open1. unseenOpposite posKey L (ss @ [s]) account market p}"
      using IA IB IR listed_keys [of L] unfolding un by blast
    show "?key ` {p \<in> set open1. unseenOpposite posKey L (ss @ [s]) account market p} \<subseteq> set (csSeen R)"
      using IA IB IR unfolding un by blast
  qed
qed

lemma cover_rule:
  assumes "distinct (keys (ilLives L))" "distinct (map (positionKeyOf posKey) open1)"
  shows "csCover (foldl (coverStep posKey L block open1 account market)
      \<lparr>csCover = 0, csCounted = [], csSeen = []\<rparr> (hitsBy L block account market)) =
    coverOf posKey L block open1 account market"
  using cover_fold [OF assms refl, of block account market "hitsBy L block account market"]
    listed_sum [of "\<lambda>k lf. if facesAny (hitsBy L block account market) account market block lf
      then lifeWorth (openPnlMap posKey open1) block k lf else 0" L]
  by (simp add: coverOf_def Let_def lifeTerm_def openTerm_def split_def)

section \<open>Accounts and markets\<close>

lemma marketShortfalls_spec:
  "distinct (keys (marketShortfalls L block)) \<and>
   (\<forall>k. getOr [] (marketShortfalls L block) k =
     filter (\<lambda>s. icBlock s \<le> block \<and> accountMarket (icAccount s) (icMarket s) = k) (ilShortfalls L)) \<and>
   set (keys (marketShortfalls L block)) =
     (\<lambda>s. accountMarket (icAccount s) (icMarket s)) ` {s \<in> set (ilShortfalls L). icBlock s \<le> block}"
proof -
  define step where "step = (\<lambda>m (s :: insolventClose). if icBlock s > block then m
     else let k = accountMarket (icAccount s) (icMarket s) in AList.update k (getOr [] m k @ [s]) m)"
  have "distinct (keys (foldl step [] xs)) \<and>
      (\<forall>k. getOr [] (foldl step [] xs) k =
        filter (\<lambda>s. icBlock s \<le> block \<and> accountMarket (icAccount s) (icMarket s) = k) xs) \<and>
      set (keys (foldl step [] xs)) =
        (\<lambda>s. accountMarket (icAccount s) (icMarket s)) ` {s \<in> set xs. icBlock s \<le> block}" for xs
  proof (induction xs rule: rev_induct)
    case (snoc s xs)
    have e: "{t \<in> set (xs @ [s]). icBlock t \<le> block} =
        (if icBlock s \<le> block then {s} else {}) \<union> {t \<in> set xs. icBlock t \<le> block}" by auto
    show ?case using snoc unfolding e by (auto simp: step_def Let_def)
  qed simp
  note gen = this [of "ilShortfalls L"]
  have "marketShortfalls L block = foldl step [] (ilShortfalls L)"
    by (simp only: marketShortfalls_def step_def)
  then show ?thesis by (rule ssubst) (rule gen)
qed

definition noCharge :: shortfallCharge where
  "noCharge = \<lparr>scChargedUsd = 0, scShortfallUsd = 0, scCoverUsd = 0\<rparr>"

definition accountPart :: "string \<Rightarrow> string" where
  "accountPart k = splitOn CHR ''|'' k ! 0"

definition marketPart :: "string \<Rightarrow> string" where
  "marketPart k = splitOn CHR ''|'' k ! 1"

lemma parts_accountMarket:
  assumes "plain account" "plain market"
  shows "accountPart (accountMarket account market) = lc account"
    and "marketPart (accountMarket account market) = lc market"
  by (simp_all add: accountPart_def marketPart_def accountMarket_parts [OF assms])

text \<open>One group's share of its account's charge.\<close>

definition groupCover ::
  "(string \<Rightarrow> string \<Rightarrow> string \<Rightarrow> bool \<Rightarrow> string) \<Rightarrow> insolvencyLedger \<Rightarrow> int \<Rightarrow> openPosition list
    \<Rightarrow> string \<times> insolventClose list \<Rightarrow> real" where
  "groupCover posKey L block open1 = (\<lambda>(k, ss). max 0 (csCover
     (foldl (coverStep posKey L block open1 (accountPart k) (marketPart k))
       \<lparr>csCover = 0, csCounted = [], csSeen = []\<rparr> ss)))"

definition groupShortfall :: "string \<times> insolventClose list \<Rightarrow> real" where
  "groupShortfall = (\<lambda>(k, ss). \<Sum>s\<leftarrow>ss. icShortfallUsd s)"

lemma chargeStep_fold:
  fixes posKey L block open1
  defines "C \<equiv> groupCover posKey L block open1"
  assumes "foldl (chargeStep posKey L block open1) [] gs = R"
  shows "set (keys R) = accountPart ` fst ` set gs \<and>
    (\<forall>a. getOr noCharge R a = \<lparr>
      scChargedUsd = (\<Sum>g\<leftarrow>filter (\<lambda>g. accountPart (fst g) = a) gs. min (groupShortfall g) (C g)),
      scShortfallUsd = (\<Sum>g\<leftarrow>filter (\<lambda>g. accountPart (fst g) = a) gs. groupShortfall g),
      scCoverUsd = (\<Sum>g\<leftarrow>filter (\<lambda>g. accountPart (fst g) = a) gs. C g)\<rparr>)"
  using assms(2)
proof (induction gs arbitrary: R rule: rev_induct)
  case Nil
  then show ?case by (simp add: noCharge_def)
next
  case (snoc g gs)
  obtain k ss where g: "g = (k, ss)" by (cases g)
  define Q where "Q = foldl (chargeStep posKey L block open1) [] gs"
  note IH = snoc.IH [OF Q_def [symmetric]]
  have R: "R = AList.update (accountPart k)
      \<lparr>scChargedUsd = scChargedUsd (getOr noCharge Q (accountPart k)) + min (groupShortfall g) (C g),
       scShortfallUsd = scShortfallUsd (getOr noCharge Q (accountPart k)) + groupShortfall g,
       scCoverUsd = scCoverUsd (getOr noCharge Q (accountPart k)) + C g\<rparr> Q"
  proof -
    have "R = chargeStep posKey L block open1 Q g" using snoc.prems by (simp add: Q_def)
    then show ?thesis
    by (simp add: g chargeStep_def C_def groupCover_def groupShortfall_def noCharge_def fold_add Let_def
        accountPart_def marketPart_def)
  qed
  show ?case
  proof (intro conjI allI)
    show "set (keys R) = accountPart ` fst ` set (gs @ [g])"
      unfolding R using IH by (simp add: g insert_commute)
    fix a
    show "getOr noCharge R a = \<lparr>
      scChargedUsd = (\<Sum>g\<leftarrow>filter (\<lambda>g. accountPart (fst g) = a) (gs @ [g]). min (groupShortfall g) (C g)),
      scShortfallUsd = (\<Sum>g\<leftarrow>filter (\<lambda>g. accountPart (fst g) = a) (gs @ [g]). groupShortfall g),
      scCoverUsd = (\<Sum>g\<leftarrow>filter (\<lambda>g. accountPart (fst g) = a) (gs @ [g]). C g)\<rparr>"
      unfolding R using IH by (simp add: g)
  qed
qed

lemma closes_plain:
  assumes "insolvencyInv L" "s \<in> set (ilShortfalls L)"
  shows "plain (icAccount s)" "plain (icMarket s)"
  using assms by (auto simp: insolvencyInv_def list_all_iff)

lemma group_key:
  assumes "insolvencyInv L" "(k, ss) \<in> set (marketShortfalls L block)"
  shows "\<exists>s \<in> set (ilShortfalls L). icBlock s \<le> block \<and> k = accountMarket (icAccount s) (icMarket s) \<and>
    accountPart k = lc (icAccount s) \<and> marketPart k = lc (icMarket s)"
    and "ss = hitsBy L block (accountPart k) (marketPart k)"
proof -
  have "k \<in> set (keys (marketShortfalls L block))" using assms(2) by force
  then obtain s where s: "s \<in> set (ilShortfalls L)" "icBlock s \<le> block"
    "k = accountMarket (icAccount s) (icMarket s)"
    using marketShortfalls_spec [of L block] by auto
  have parts: "accountPart k = lc (icAccount s)" "marketPart k = lc (icMarket s)"
    using parts_accountMarket [OF closes_plain [OF assms(1) s(1)]] s(3) by simp_all
  then show "\<exists>s \<in> set (ilShortfalls L). icBlock s \<le> block \<and> k = accountMarket (icAccount s) (icMarket s) \<and>
      accountPart k = lc (icAccount s) \<and> marketPart k = lc (icMarket s)" using s by blast
  have "ss = getOr [] (marketShortfalls L block) k"
    using assms(2) marketShortfalls_spec [of L block] by (simp add: getOr_def)
  also have "\<dots> = filter (\<lambda>t. icBlock t \<le> block \<and> accountMarket (icAccount t) (icMarket t) = k) (ilShortfalls L)"
    using marketShortfalls_spec [of L block] by blast
  also have "\<dots> = hitsBy L block (accountPart k) (marketPart k)"
    unfolding hitsBy_def
    by (rule filter_cong [OF refl])
       (simp add: parts s(3) accountMarket_eq closes_plain [OF assms(1)] s(1)
          parts_accountMarket [OF closes_plain [OF assms(1) s(1)]])
  finally show "ss = hitsBy L block (accountPart k) (marketPart k)" .
qed

lemma groups_sum:
  assumes "insolvencyInv L"
    and f: "\<And>k ss. (k, ss) \<in> set (marketShortfalls L block) \<Longrightarrow> accountPart k = a \<Longrightarrow>
      f (k, ss) = (F (marketPart k) :: real)"
  shows "(\<Sum>g\<leftarrow>filter (\<lambda>g. accountPart (fst g) = a) (marketShortfalls L block). f g) =
    (\<Sum>m\<in>marketsHit L block a. F m)"
proof -
  let ?gs = "filter (\<lambda>g. accountPart (fst g) = a) (marketShortfalls L block)"
  have d: "distinct ?gs"
    using marketShortfalls_spec [of L block] by (auto simp: distinct_map)
  have inj: "inj_on (\<lambda>g. marketPart (fst g)) (set ?gs)"
  proof (rule inj_onI)
    fix g h assume g: "g \<in> set ?gs" and h: "h \<in> set ?gs" and m: "marketPart (fst g) = marketPart (fst h)"
    obtain k ss k' ss' where gh: "g = (k, ss)" "h = (k', ss')" by (cases g, cases h)
    have gk: "(k, ss) \<in> set (marketShortfalls L block)" "(k', ss') \<in> set (marketShortfalls L block)"
      using g h by (simp_all add: gh)
    obtain s :: insolventClose where s: "k = accountMarket (icAccount s) (icMarket s)"
      "accountPart k = lc (icAccount s)" "marketPart k = lc (icMarket s)"
      using group_key(1) [OF assms(1) gk(1)] by blast
    obtain t :: insolventClose where t: "k' = accountMarket (icAccount t) (icMarket t)"
      "accountPart k' = lc (icAccount t)" "marketPart k' = lc (icMarket t)"
      using group_key(1) [OF assms(1) gk(2)] by blast
    have "k = k'" using s t g h m by (simp add: accountMarket_def gh)
    then show "g = h"
      using group_key(2) [OF assms(1) gk(1)] group_key(2) [OF assms(1) gk(2)] by (simp add: gh)
  qed
  have img: "(\<lambda>g. marketPart (fst g)) ` set ?gs = marketsHit L block a"
  proof (intro set_eqI iffI)
    fix m assume "m \<in> (\<lambda>g. marketPart (fst g)) ` set ?gs"
    then obtain k ss where "(k, ss) \<in> set (marketShortfalls L block)" "accountPart k = a" "m = marketPart k"
      by auto
    then show "m \<in> marketsHit L block a"
      using group_key(1) [OF assms(1)] by (fastforce simp: marketsHit_def)
  next
    fix m assume "m \<in> marketsHit L block a"
    then obtain s where s: "s \<in> set (ilShortfalls L)" "icBlock s \<le> block" "lc (icAccount s) = a" "m = lc (icMarket s)"
      by (auto simp: marketsHit_def)
    let ?k = "accountMarket (icAccount s) (icMarket s)"
    have "?k \<in> set (keys (marketShortfalls L block))"
      using s marketShortfalls_spec [of L block] by blast
    then obtain ss where "(?k, ss) \<in> set (marketShortfalls L block)" by auto
    moreover have "accountPart ?k = a" "marketPart ?k = m"
      using parts_accountMarket [OF closes_plain [OF assms(1) s(1)]] s by simp_all
    ultimately show "m \<in> (\<lambda>g. marketPart (fst g)) ` set ?gs" by force
  qed
  have "(\<Sum>g\<leftarrow>?gs. f g) = (\<Sum>g\<in>set ?gs. f g)"
    by (rule sum_list_distinct_conv_sum_set [OF d])
  also have "\<dots> = (\<Sum>g\<in>set ?gs. F (marketPart (fst g)))"
    by (rule sum.cong [OF refl]) (use f in auto)
  also have "\<dots> = (\<Sum>m\<in>marketsHit L block a. F m)"
    unfolding img [symmetric] using sum.reindex [OF inj, of F] by (simp add: comp_def)
  finally show ?thesis .
qed

text \<open>Which accounts are charged and by how much, for any ledger in order.\<close>

lemma chargesAt_rule:
  assumes "insolvencyInv L" "distinct (map (positionKeyOf posKey) open1)"
  shows "map_of (chargesAt posKey L block open1) a =
    (if marketsHit L block a = {} then None else Some (chargeRule posKey L block open1 a))"
proof -
  let ?R = "chargesAt posKey L block open1" and ?gs = "marketShortfalls L block"
  let ?C = "groupCover posKey L block open1"
  note run = chargeStep_fold [OF chargesAt_def [symmetric], of posKey L block open1]
  have d: "distinct (keys (ilLives L))" using assms(1) by (simp add: insolvencyInv_def)
  have S: "groupShortfall (k, ss) = shortfallOf L block a (marketPart k)"
    if "(k, ss) \<in> set ?gs" "accountPart k = a" for k ss
    using group_key(2) [OF assms(1) that(1)] that(2) by (simp add: groupShortfall_def shortfallOf_def)
  have W: "?C (k, ss) = max 0 (coverOf posKey L block open1 a (marketPart k))"
    if "(k, ss) \<in> set ?gs" "accountPart k = a" for k ss
  proof -
    have ss: "ss = hitsBy L block a (marketPart k)" using group_key(2) [OF assms(1) that(1)] that(2) by simp
    show ?thesis
      using cover_rule [OF d assms(2), of block a "marketPart k"] that(2) ss by (simp add: groupCover_def)
  qed
  have vals: "getOr noCharge ?R a = chargeRule posKey L block open1 a"
  proof -
    have "(\<Sum>g\<leftarrow>filter (\<lambda>g. accountPart (fst g) = a) ?gs. min (groupShortfall g) (?C g)) =
        (\<Sum>m\<in>marketsHit L block a. min (shortfallOf L block a m) (max 0 (coverOf posKey L block open1 a m)))"
      by (rule groups_sum [OF assms(1)]) (simp add: S W)
    moreover have "(\<Sum>g\<leftarrow>filter (\<lambda>g. accountPart (fst g) = a) ?gs. groupShortfall g) =
        (\<Sum>m\<in>marketsHit L block a. shortfallOf L block a m)"
      by (rule groups_sum [OF assms(1)]) (simp add: S)
    moreover have "(\<Sum>g\<leftarrow>filter (\<lambda>g. accountPart (fst g) = a) ?gs. ?C g) =
        (\<Sum>m\<in>marketsHit L block a. max 0 (coverOf posKey L block open1 a m))"
      by (rule groups_sum [OF assms(1)]) (simp add: W)
    ultimately show ?thesis using run by (simp add: chargeRule_def Let_def)
  qed
  have "set (keys ?R) = {a. marketsHit L block a \<noteq> {}}"
  proof (intro set_eqI iffI)
    fix b assume "b \<in> set (keys ?R)"
    then obtain k ss where "(k, ss) \<in> set ?gs" "b = accountPart k" using run by auto
    then show "b \<in> {a. marketsHit L block a \<noteq> {}}"
      using group_key(1) [OF assms(1)] by (fastforce simp: marketsHit_def)
  next
    fix b assume "b \<in> {a. marketsHit L block a \<noteq> {}}"
    then obtain s where s: "s \<in> set (ilShortfalls L)" "icBlock s \<le> block" "lc (icAccount s) = b"
      by (auto simp: marketsHit_def)
    let ?k = "accountMarket (icAccount s) (icMarket s)"
    have "?k \<in> set (keys ?gs)" using s marketShortfalls_spec [of L block] by blast
    moreover have "accountPart ?k = b"
      using parts_accountMarket [OF closes_plain [OF assms(1) s(1)]] s(3) by simp
    ultimately have "b \<in> accountPart ` set (keys ?gs)" by blast
    then have "b \<in> accountPart ` fst ` set ?gs" by (simp only: set_map)
    then show "b \<in> set (keys ?R)" using run by blast
  qed
  then have keys: "a \<in> set (keys ?R) \<longleftrightarrow> marketsHit L block a \<noteq> {}" by blast
  show ?thesis
  proof (cases "map_of ?R a")
    case None
    then show ?thesis using keys in_keys_iff [of a ?R] by simp
  next
    case (Some c)
    then have "c = chargeRule posKey L block open1 a" using vals by (simp only: getOr_def option.case)
    then show ?thesis using Some keys in_keys_iff [of a ?R] by simp
  qed
qed

end
