(* ===== verification/Gmx_Run.thy ===== *)
theory Gmx_Run
  imports Gmx_Shortfall
begin

text \<open>
  The insolvency ledger over a run (\<open>sdk/src/protocols/gmxInsolvency.ts\<close>): what a ledger that has
  read past a boundary, one that was pruned at the boundaries before it and one that was restored
  from a checkpoint still answer. The charge depends on the ledger only through each key's sum.
\<close>

section \<open>What a charge depends on\<close>

definition keyCover :: "(string \<times> real) list \<Rightarrow> insolvencyLedger \<Rightarrow> int \<Rightarrow> string \<Rightarrow> string \<Rightarrow> string \<Rightarrow> real" where
  "keyCover pnl L block account market k = (\<Sum>lf\<leftarrow>livesOf L k.
     if facesAny (hitsBy L block account market) account market block lf then lifeWorth pnl block k lf else 0)"

lemma livesOf_mem: "distinct (keys (ilLives L)) \<Longrightarrow> (k, ls) \<in> set (ilLives L) \<Longrightarrow> livesOf L k = ls"
  by (simp add: livesOf_def getOr_def)

lemma livesOf_absent: "k \<notin> set (keys (ilLives L)) \<Longrightarrow> livesOf L k = []"
  by (simp add: livesOf_def getOr_def map_of_eq_None_iff [THEN iffD2] split: option.splits)

lemma livesOf_present:
  assumes "insolvencyInv L"
  shows "k \<in> set (keys (ilLives L)) \<longleftrightarrow> livesOf L k \<noteq> []"
proof
  assume "k \<in> set (keys (ilLives L))"
  then obtain ls where "(k, ls) \<in> set (ilLives L)" by auto
  with assms show "livesOf L k \<noteq> []"
    by (auto simp: insolvencyInv_def list_all_iff livesOk_def livesOf_mem)
qed (use livesOf_absent in blast)

lemma livesOf_ok:
  assumes "insolvencyInv L" "livesOf L k \<noteq> []"
  shows "livesOk k (livesOf L k)"
proof -
  obtain ls where "(k, ls) \<in> set (ilLives L)"
    using assms livesOf_present [OF assms(1), of k] by auto
  with assms show ?thesis by (auto simp: insolvencyInv_def list_all_iff livesOf_mem)
qed

lemma coverOf_keys:
  assumes "insolvencyInv L" "finite K" "set (keys (ilLives L)) \<subseteq> K"
  shows "coverOf posKey L block open1 account market =
    (\<Sum>k\<in>K. keyCover (openPnlMap posKey open1) L block account market k) +
    (\<Sum>p\<leftarrow>open1. if unseenOpposite posKey L (hitsBy L block account market) account market p
      then opBasePnlUsd p else 0)"
proof -
  let ?c = "keyCover (openPnlMap posKey open1) L block account market"
  have d: "distinct (keys (ilLives L))" using assms(1) by (simp add: insolvencyInv_def)
  have "(\<Sum>(k, ls)\<leftarrow>ilLives L. \<Sum>lf\<leftarrow>ls.
      if facesAny (hitsBy L block account market) account market block lf
      then lifeWorth (openPnlMap posKey open1) block k lf else 0) = (\<Sum>(k, ls)\<leftarrow>ilLives L. ?c k)"
    by (rule arg_cong [where f = sum_list], rule map_cong [OF refl])
       (use livesOf_mem [OF d] in \<open>auto simp: keyCover_def\<close>)
  also have "\<dots> = (\<Sum>k\<leftarrow>keys (ilLives L). ?c k)" by (simp add: split_def comp_def)
  also have "\<dots> = (\<Sum>k\<in>set (keys (ilLives L)). ?c k)"
    by (rule sum_list_distinct_conv_sum_set [OF d])
  also have "\<dots> = (\<Sum>k\<in>K. ?c k)"
    by (rule sum.mono_neutral_left [OF assms(2,3)]) (auto simp: keyCover_def livesOf_absent)
  finally show ?thesis by (simp add: coverOf_def Let_def)
qed

lemma charges_cong:
  assumes inv: "insolvencyInv L" "insolvencyInv L'"
    and closes: "filter (\<lambda>s. icBlock s \<le> block) (ilShortfalls L) = filter (\<lambda>s. icBlock s \<le> block) (ilShortfalls L')"
    and lives: "\<And>account market k. keyCover (openPnlMap posKey open1) L block account market k =
      keyCover (openPnlMap posKey open1) L' block account market k"
    and known: "\<And>p. p \<in> set open1 \<Longrightarrow> positionKeyOf posKey p \<in> set (keys (ilLives L)) \<longleftrightarrow>
      positionKeyOf posKey p \<in> set (keys (ilLives L'))"
    and d: "distinct (map (positionKeyOf posKey) open1)"
  shows "map_of (chargesAt posKey L block open1) = map_of (chargesAt posKey L' block open1)"
proof
  fix a
  have hits: "hitsBy L block account market = hitsBy L' block account market" for account market
  proof -
    have "hitsBy M block account market = filter (\<lambda>s. lc (icAccount s) = account \<and> lc (icMarket s) = market)
        (filter (\<lambda>s. icBlock s \<le> block) (ilShortfalls M))" for M
      by (simp add: hitsBy_def conj_ac)
    then show ?thesis by (simp only: closes)
  qed
  have mh: "marketsHit L block a = marketsHit L' block a"
  proof -
    have "marketsHit M block a = (lc \<circ> icMarket) ` {s \<in> set (filter (\<lambda>s. icBlock s \<le> block) (ilShortfalls M)).
        lc (icAccount s) = a}" for M
      by (auto simp: marketsHit_def)
    then show ?thesis by (simp only: closes)
  qed
  let ?K = "set (keys (ilLives L)) \<union> set (keys (ilLives L'))"
  have "coverOf posKey L block open1 account market = coverOf posKey L' block open1 account market"
    for account market
  proof -
    have "(\<Sum>p\<leftarrow>open1. if unseenOpposite posKey L (hitsBy L block account market) account market p
          then opBasePnlUsd p else 0) =
        (\<Sum>p\<leftarrow>open1. if unseenOpposite posKey L' (hitsBy L' block account market) account market p
          then opBasePnlUsd p else 0)"
      by (rule arg_cong [where f = sum_list], rule map_cong [OF refl])
         (use known in \<open>simp add: unseenOpposite_def hits\<close>)
    moreover have "(\<Sum>k\<in>?K. keyCover (openPnlMap posKey open1) L block account market k) =
        (\<Sum>k\<in>?K. keyCover (openPnlMap posKey open1) L' block account market k)"
      by (simp only: lives)
    ultimately show ?thesis
      using coverOf_keys [OF inv(1), of ?K posKey block open1 account market]
        coverOf_keys [OF inv(2), of ?K posKey block open1 account market] by simp
  qed
  then have "chargeRule posKey L block open1 a = chargeRule posKey L' block open1 a"
    by (simp add: chargeRule_def mh shortfallOf_def hits Let_def)
  then show "map_of (chargesAt posKey L block open1) a = map_of (chargesAt posKey L' block open1) a"
    using chargesAt_rule [OF inv(1) d] chargesAt_rule [OF inv(2) d] mh by simp
qed

section \<open>The steps\<close>

lemma livesOf_update: "livesOf (L\<lparr>ilLives := AList.update k ls (ilLives L)\<rparr>) k' =
    (if k' = k then ls else livesOf L k')"
  by (simp add: livesOf_def)

lemma ok_update:
  assumes "insolvencyInv L" "livesOk k ls"
  shows "insolvencyInv (L\<lparr>ilLives := AList.update k ls (ilLives L)\<rparr>)"
proof -
  have d: "distinct (keys (ilLives L))" using assms(1) by (simp add: insolvencyInv_def)
  have "livesOk k' ls'" if "(k', ls') \<in> set (AList.update k ls (ilLives L))" for k' ls'
  proof -
    have "map_of (AList.update k ls (ilLives L)) k' = Some ls'"
      using map_of_eq_Some_iff_mem [OF distinct_keys_upd [OF d]] that by blast
    then have "k' = k \<and> ls' = ls \<or> (k', ls') \<in> set (ilLives L)"
      by (auto split: if_splits dest: map_of_SomeD)
    then show ?thesis using assms by (auto simp: insolvencyInv_def list_all_iff)
  qed
  then show ?thesis using assms distinct_keys_upd [OF d] by (auto simp: insolvencyInv_def list_all_iff)
qed

lemma currentLife_iff:
  "currentLife L pk = Some lf \<longleftrightarrow> livesOf L (lc pk) \<noteq> [] \<and> lf = last (livesOf L (lc pk)) \<and> lfClose lf = None"
  by (auto simp: currentLife_def Let_def)

lemma currentLife_None:
  "currentLife L pk = None \<longleftrightarrow> livesOf L (lc pk) = [] \<or> lfClose (last (livesOf L (lc pk))) \<noteq> None"
  by (auto simp: currentLife_def Let_def)

definition freshLife :: "gmxEvent \<Rightarrow> int option \<Rightarrow> life" where
  "freshLife e opened = \<lparr>lfPositionKey = gePositionKey e, lfAccount = lc (geAccount e),
     lfMarket = lc (geMarket e), lfIsLong = geIsLong e, lfOpen = opened, lfClose = None, lfRealised = []\<rparr>"

lemma newLife_eq: "newLife L e opened =
    L\<lparr>ilLives := AList.update (lc (gePositionKey e)) (livesOf L (lc (gePositionKey e)) @ [freshLife e opened]) (ilLives L)\<rparr>"
  by (simp add: newLife_def freshLife_def Let_def)

lemma livesOf_newLife [simp]: "livesOf (newLife L e opened) k =
    (if k = lc (gePositionKey e) then livesOf L k @ [freshLife e opened] else livesOf L k)"
  by (simp add: newLife_eq livesOf_update)

lemma newLife_frames [simp]:
  "ilShortfalls (newLife L e opened) = ilShortfalls L" "ilAccounts (newLife L e opened) = ilAccounts L"
  by (simp_all add: newLife_eq)

lemma closed_before:
  assumes "insolvencyInv L" "currentLife L pk = None"
  shows "\<forall>lf \<in> set (livesOf L (lc pk)). lfClose lf \<noteq> None"
proof (cases "livesOf L (lc pk) = []")
  case False
  then have "set (livesOf L (lc pk)) = insert (last (livesOf L (lc pk))) (set (butlast (livesOf L (lc pk))))"
    by (metis append_butlast_last_id list.set(1) list.simps(15) set_append sup_commute Un_insert_left sup_bot_left)
  then show ?thesis
    using livesOf_ok [OF assms(1) False] assms(2) False
    by (auto simp: livesOk_def list_all_iff currentLife_None)
qed simp

lemma newLife_inv:
  assumes "insolvencyInv L" "currentLife L (gePositionKey e) = None"
  shows "insolvencyInv (newLife L e opened)"
  unfolding newLife_eq
proof (rule ok_update [OF assms(1)])
  let ?ls = "livesOf L (lc (gePositionKey e))"
  have "list_all (\<lambda>lf. lc (lfPositionKey lf) = lc (gePositionKey e)) ?ls"
    using livesOf_ok [OF assms(1), of "lc (gePositionKey e)"] by (cases "?ls = []") (auto simp: livesOk_def)
  then show "livesOk (lc (gePositionKey e)) (?ls @ [freshLife e opened])"
    using closed_before [OF assms] by (auto simp: livesOk_def freshLife_def list_all_iff)
qed

text \<open>The position of an event as the ledger sees it after opening a life where there is none.\<close>

definition decreaseBase :: "insolvencyLedger \<Rightarrow> gmxEvent \<Rightarrow> insolvencyLedger" where
  "decreaseBase L e = (case currentLife L (gePositionKey e) of Some _ \<Rightarrow> L | None \<Rightarrow> newLife L e None)"

lemma decreaseBase_current:
  assumes "insolvencyInv L"
  shows "insolvencyInv (decreaseBase L e)" "livesOf (decreaseBase L e) (lc (gePositionKey e)) \<noteq> []"
    "lfClose (last (livesOf (decreaseBase L e) (lc (gePositionKey e)))) = None"
  using assms newLife_inv [OF assms]
  by (auto simp: decreaseBase_def currentLife_iff freshLife_def split: option.splits)

lemma onDecrease_eq: "onDecrease L e block =
    (if \<not> trackedAccount L (geAccount e) then (L, None)
     else let L1 = decreaseBase L e; k = lc (gePositionKey e); ls = livesOf L1 k;
       lf = decreaseLife e block (last ls)
     in (L1\<lparr>ilLives := AList.update k (butlast ls @ [lf]) (ilLives L1)\<rparr>, Some lf))"
  by (simp add: onDecrease_def decreaseBase_def Let_def)

lemma decrease_ok:
  assumes "livesOk k ls"
  shows "livesOk k (butlast ls @ [decreaseLife e block (last ls)])"
proof -
  have "ls \<noteq> []" using assms by (simp add: livesOk_def)
  then have "last ls \<in> set ls" "set (butlast ls) \<subseteq> set ls" by (auto dest: in_set_butlastD)
  then show ?thesis using assms by (auto simp: livesOk_def decreaseLife_def list_all_iff)
qed

lemma onDecrease_inv:
  assumes "insolvencyInv L"
  shows "insolvencyInv (fst (onDecrease L e block))"
  using assms decreaseBase_current [OF assms, of e] livesOf_ok ok_update decrease_ok
  by (simp add: onDecrease_eq Let_def)

lemma onIncrease_inv: "insolvencyInv L \<Longrightarrow> insolvencyInv (onIncrease L e block)"
  by (auto simp: onIncrease_def newLife_inv split: option.splits)

lemma decreaseBase_frames [simp]:
  "ilShortfalls (decreaseBase L e) = ilShortfalls L" "ilAccounts (decreaseBase L e) = ilAccounts L"
  by (auto simp: decreaseBase_def split: option.splits)

lemma step_frames [simp]:
  "ilShortfalls (onIncrease L e block) = ilShortfalls L" "ilAccounts (onIncrease L e block) = ilAccounts L"
  "ilShortfalls (fst (onDecrease L e block)) = ilShortfalls L"
  "ilAccounts (fst (onDecrease L e block)) = ilAccounts L"
  by (auto simp: onIncrease_def onDecrease_eq Let_def split: option.splits)

section \<open>The invariant over a batch\<close>

definition plainEvents :: "('raw \<Rightarrow> gmxEvent option) \<Rightarrow> bool" where
  "plainEvents decode \<longleftrightarrow> (\<forall>raw e. decode raw = Some e \<longrightarrow> plain (geAccount e) \<and> plain (geMarket e))"

definition pendingPlain :: "ingestState \<Rightarrow> bool" where
  "pendingPlain S \<longleftrightarrow> (\<forall>(key, e, lf) \<in> set (isDecrease S). plain (geAccount e) \<and> plain (geMarket e))"

lemma pushRecord_frames [simp]:
  "isLedger (pushRecord S r) = fst r" "isInsolvent (pushRecord S r) = isInsolvent S"
  "isDecrease (pushRecord S r) = isDecrease S"
  by (simp_all add: pushRecord_def)

lemma set_delete: "x \<in> set (AList.delete k m) \<Longrightarrow> x \<in> set m"
  by (auto simp: AList.delete_eq)

lemma set_update_mem: "x \<in> set (AList.update k v m) \<Longrightarrow> x \<in> set m \<or> x = (k, v)"
  by (induction m) (auto split: if_splits)

lemma record_shortfalls: "ilShortfalls (fst (recordInsolvent L i d lf block tx)) =
    ilShortfalls L @ (case snd (recordInsolvent L i d lf block tx) of None \<Rightarrow> [] | Some r \<Rightarrow> [r])"
  by (auto simp: recordInsolvent_def Let_def split: option.splits)

lemma record_frames [simp]: "ilLives (fst (recordInsolvent L i d lf block tx)) = ilLives L"
  "ilAccounts (fst (recordInsolvent L i d lf block tx)) = ilAccounts L"
  "livesOf (fst (recordInsolvent L i d lf block tx)) k = livesOf L k"
  by (auto simp: recordInsolvent_def Let_def livesOf_def split: option.splits)

lemma record_Some: "snd (recordInsolvent L i d lf block tx) = Some r \<Longrightarrow>
    icAccount r = geAccount d \<and> icMarket r = geMarket d \<and> icIsLong r = geIsLong d \<and>
    icBlock r = block \<and> (\<exists>l. lf = Some l \<and> icOpenedAt r = lfOpen l)"
  by (auto simp: recordInsolvent_def Let_def split: option.splits)

lemma record_inv:
  assumes "insolvencyInv L" "plain (geAccount d)" "plain (geMarket d)"
  shows "insolvencyInv (fst (recordInsolvent L i d lf block tx))"
  using assms record_Some [of L i d lf block tx]
  by (auto simp: insolvencyInv_def record_shortfalls split: option.splits)

text \<open>
  Every event is one of four: it changes nothing but what is pending, it opens or changes a life, or
  it adds a record for a decrease event and the life that event was applied to.
\<close>

inductive ledgerStep :: "gmxEvent \<Rightarrow> int \<Rightarrow> ingestState \<Rightarrow> ingestState \<Rightarrow> bool" for e block where
  increase: "isLedger S' = onIncrease (isLedger S) e block \<Longrightarrow> isDecrease S' = isDecrease S \<Longrightarrow>
    geName e = ''PositionIncrease'' \<Longrightarrow> ledgerStep e block S S'"
| decrease: "onDecrease (isLedger S) e block = (L, lf) \<Longrightarrow> isLedger S' = L \<Longrightarrow>
    geName e = ''PositionDecrease'' \<Longrightarrow>
    isDecrease S' = AList.update key (e, lf) (isDecrease S) \<Longrightarrow> ledgerStep e block S S'"
| decreaseRecord: "onDecrease (isLedger S) e block = (L, lf) \<Longrightarrow> geName e = ''PositionDecrease'' \<Longrightarrow>
    isLedger S' = fst (recordInsolvent L i e lf block tx) \<Longrightarrow> isDecrease S' = isDecrease S \<Longrightarrow>
    ledgerStep e block S S'"
| closeRecord: "map_of (isDecrease S) key = Some (d, lf) \<Longrightarrow>
    isLedger S' = fst (recordInsolvent (isLedger S) i d lf block tx) \<Longrightarrow>
    isDecrease S' = AList.delete key (isDecrease S) \<Longrightarrow> ledgerStep e block S S'"
| idle: "isLedger S' = isLedger S \<Longrightarrow> isDecrease S' = isDecrease S \<Longrightarrow> ledgerStep e block S S'"

lemma ingestEvent_step: "ledgerStep e block S (ingestEvent S e block tx)"
proof (cases "geName e = ''PositionIncrease''")
  case True
  then show ?thesis by (intro increase) (simp_all add: ingestEvent_def Let_def)
next
  case inc: False
  show ?thesis
  proof (cases "geName e = ''PositionDecrease''")
    case True
    obtain L lf where od: "onDecrease (isLedger S) e block = (L, lf)" by (cases "onDecrease (isLedger S) e block")
    show ?thesis
    proof (cases "map_of (isInsolvent S) (tx @ ''|'' @ geOrderKey e)")
      case None
      then show ?thesis
        using True od by (intro decrease [OF od]) (simp_all add: ingestEvent_def Let_def)
    next
      case (Some i)
      then show ?thesis
        using True od by (intro decreaseRecord [OF od, where i = i and tx = tx]) (simp_all add: ingestEvent_def Let_def)
    qed
  next
    case dec: False
    show ?thesis
    proof (cases "geName e = ''InsolventClose''")
      case True
      show ?thesis
      proof (cases "map_of (isDecrease S) (tx @ ''|'' @ geOrderKey e)")
        case None
        then show ?thesis using True by (intro idle) (simp_all add: ingestEvent_def Let_def)
      next
        case (Some a)
        obtain d lf where a: "a = (d, lf)" by (cases a)
        show ?thesis
          using True Some a
          by (intro closeRecord [where key = "tx @ ''|'' @ geOrderKey e" and i = e and tx = tx])
            (simp_all add: ingestEvent_def Let_def)
      qed
    next
      case False
      then show ?thesis using inc dec by (intro idle) (simp_all add: ingestEvent_def Let_def)
    qed
  qed
qed

lemma step_inv:
  assumes "ledgerStep e block S S'" "insolvencyInv (isLedger S)" "pendingPlain S"
    "plain (geAccount e)" "plain (geMarket e)"
  shows "insolvencyInv (isLedger S') \<and> pendingPlain S'"
  using assms(1)
proof cases
  case (increase)
  then show ?thesis using assms by (simp add: onIncrease_inv pendingPlain_def)
next
  case (decrease L lf key)
  then have "insolvencyInv L" using onDecrease_inv [OF assms(2), of e block] by simp
  then show ?thesis
    using assms decrease by (auto simp: pendingPlain_def dest!: set_update_mem)
next
  case (decreaseRecord L lf i tx)
  then have "insolvencyInv L" using onDecrease_inv [OF assms(2), of e block] by simp
  then show ?thesis using assms decreaseRecord by (simp add: record_inv pendingPlain_def)
next
  case (closeRecord key d lf i tx)
  then have "plain (geAccount d)" "plain (geMarket d)"
    using assms(3) by (auto simp: pendingPlain_def dest!: map_of_SomeD)
  then show ?thesis
    using assms closeRecord by (auto simp: record_inv pendingPlain_def dest: set_delete)
next
  case idle
  then show ?thesis using assms by (simp add: pendingPlain_def)
qed

definition startState :: "insolvencyLedger \<Rightarrow> ingestState" where
  "startState L = \<lparr>isLedger = L, isInsolvent = [], isDecrease = [], isOut = []\<rparr>"

definition chainOrder :: "'raw ledgerLog list \<Rightarrow> 'raw ledgerLog list" where
  "chainOrder logs = sort_key (\<lambda>g. (blockOf g, orZero (glIndex g))) logs"

lemma ingestLogs_eq: "ingestLogs decode L logs = foldl (ingestLog decode) (startState L) (chainOrder logs)"
  by (simp add: ingestLogs_def startState_def chainOrder_def)

lemma set_chainOrder [simp]: "set (chainOrder logs) = set logs"
  by (simp add: chainOrder_def)

lemma ingestLog_cases:
  "ingestLog decode S g = S \<and> decode (glRaw g) = None \<or>
   (\<exists>e. decode (glRaw g) = Some e \<and> ledgerStep e (blockOf g) S (ingestLog decode S g))"
  by (cases "decode (glRaw g)") (auto simp: ingestLog_def intro: ingestEvent_step)

lemma fold_inv:
  assumes "plainEvents decode" "insolvencyInv (isLedger S)" "pendingPlain S"
  shows "insolvencyInv (isLedger (foldl (ingestLog decode) S gs)) \<and> pendingPlain (foldl (ingestLog decode) S gs)"
  using assms(2,3)
proof (induction gs arbitrary: S)
  case (Cons g gs)
  have "insolvencyInv (isLedger (ingestLog decode S g)) \<and> pendingPlain (ingestLog decode S g)"
    using ingestLog_cases [of decode S g] step_inv Cons.prems assms(1) by (metis plainEvents_def)
  then show ?case using Cons.IH by simp
qed simp

lemma ingestLogs_inv:
  assumes "plainEvents decode" "insolvencyInv L"
  shows "insolvencyInv (isLedger (ingestLogs decode L logs))"
  using fold_inv [OF assms(1), of "startState L"] assms(2)
  by (simp add: ingestLogs_eq startState_def pendingPlain_def)

lemma newInsolvency_inv: "insolvencyInv (newInsolvency accounts)"
  by (simp add: insolvencyInv_def newInsolvency_def)

section \<open>A ledger that has read past the boundary\<close>

text \<open>
  An event of a position whose opening the ledger has seen: it opens one, or its life is open.
\<close>

definition seenOpen :: "insolvencyLedger \<Rightarrow> gmxEvent \<Rightarrow> bool" where
  "seenOpen L e \<longleftrightarrow> \<not> trackedAccount L (geAccount e) \<or> currentLife L (gePositionKey e) \<noteq> None \<or>
    (if geName e = ''PositionIncrease'' then geSizeInUsd e = geSizeDeltaUsd e
     else geName e \<noteq> ''PositionDecrease'')"

fun opensSeen :: "('raw \<Rightarrow> gmxEvent option) \<Rightarrow> ingestState \<Rightarrow> 'raw ledgerLog list \<Rightarrow> bool" where
  "opensSeen decode S [] = True"
| "opensSeen decode S (g # gs) =
     ((case decode (glRaw g) of None \<Rightarrow> True | Some e \<Rightarrow> seenOpen (isLedger S) e) \<and>
      opensSeen decode (ingestLog decode S g) gs)"

text \<open>The lives of a key as a boundary sees them.\<close>

definition bornBy :: "int \<Rightarrow> life \<Rightarrow> bool" where
  "bornBy block lf \<longleftrightarrow> (case lfOpen lf of None \<Rightarrow> True | Some b \<Rightarrow> b \<le> block)"

definition lifeAt :: "int \<Rightarrow> life \<Rightarrow> life" where
  "lifeAt block lf = lf\<lparr>lfClose := closedBy block lf,
     lfRealised := filter (\<lambda>(b, usd). b \<le> block) (lfRealised lf)\<rparr>"

definition viewAt :: "int \<Rightarrow> life list \<Rightarrow> life list" where
  "viewAt block ls = map (lifeAt block) (filter (bornBy block) ls)"

lemma viewAt_append [simp]: "viewAt block (xs @ ys) = viewAt block xs @ viewAt block ys"
  by (simp add: viewAt_def)

lemma lifeAt_simps [simp]:
  "closedBy block (lifeAt block lf) = closedBy block lf" "bornBy block (lifeAt block lf) = bornBy block lf"
  "opposes account market block s (lifeAt block lf) = opposes account market block s lf"
  "lifeWorth pnl block k (lifeAt block lf) = lifeWorth pnl block k lf"
proof -
  show c: "closedBy block (lifeAt block lf) = closedBy block lf"
    by (auto simp: lifeAt_def closedBy_def split: option.splits)
  show "bornBy block (lifeAt block lf) = bornBy block lf" by (simp add: lifeAt_def bornBy_def)
  show "opposes account market block s (lifeAt block lf) = opposes account market block s lf"
    unfolding opposes_def c by (simp add: lifeAt_def)
  have "(\<Sum>(b, usd)\<leftarrow>filter (\<lambda>(b, usd). b \<le> block) xs. if b \<le> block then usd else 0) =
      (\<Sum>(b, usd)\<leftarrow>xs. if b \<le> block then usd else 0)" for xs :: "(int \<times> real) list"
    by (induction xs) auto
  then show "lifeWorth pnl block k (lifeAt block lf) = lifeWorth pnl block k lf"
    unfolding lifeWorth_def c by (simp add: lifeAt_def)
qed

lemma view_sum:
  "(\<Sum>lf\<leftarrow>ls. if facesAny hits account market block lf then lifeWorth pnl block k lf else 0) =
   (\<Sum>lf\<leftarrow>viewAt block ls. if facesAny hits account market block lf then lifeWorth pnl block k lf else 0)"
proof (induction ls)
  case (Cons lf ls)
  have "\<not> facesAny hits account market block lf" if "\<not> bornBy block lf"
    using that by (auto simp: facesAny_def opposes_def bornBy_def list_ex_iff split: option.splits)
  moreover have "facesAny hits account market block (lifeAt block lf) = facesAny hits account market block lf"
    by (simp add: facesAny_def)
  ultimately show ?case using Cons by (auto simp: viewAt_def)
qed (simp add: viewAt_def)

definition readAhead :: "int \<Rightarrow> insolvencyLedger \<Rightarrow> insolvencyLedger \<Rightarrow> bool" where
  "readAhead block L L' \<longleftrightarrow>
    filter (\<lambda>s. icBlock s \<le> block) (ilShortfalls L) = filter (\<lambda>s. icBlock s \<le> block) (ilShortfalls L') \<and>
    (\<forall>k. viewAt block (livesOf L k) = viewAt block (livesOf L' k) \<and>
      (livesOf L k \<noteq> [] \<longrightarrow> livesOf L' k \<noteq> []))"

lemma readAhead_refl: "readAhead block L L"
  by (simp add: readAhead_def)

lemma readAhead_trans: "readAhead block L M \<Longrightarrow> readAhead block M N \<Longrightarrow> readAhead block L N"
  by (simp add: readAhead_def)

lemma readAhead_record:
  assumes "readAhead block L M" "block < b"
  shows "readAhead block L (fst (recordInsolvent M i d lf b tx))"
  using assms record_Some [of M i d lf b tx]
  by (auto simp: readAhead_def record_shortfalls split: option.splits)

lemma view_decrease:
  assumes "ls \<noteq> []" "lfClose (last ls) = None" "block < b"
  shows "viewAt block (butlast ls @ [decreaseLife e b (last ls)]) = viewAt block ls"
proof -
  have "lifeAt block (decreaseLife e b lf) = lifeAt block lf" "bornBy block (decreaseLife e b lf) = bornBy block lf"
    if "lfClose lf = None" for lf
    using that assms(3) by (auto simp: lifeAt_def decreaseLife_def closedBy_def bornBy_def)
  then have "viewAt block [decreaseLife e b (last ls)] = viewAt block [last ls]"
    using assms(2) by (simp add: viewAt_def)
  then have "viewAt block (butlast ls @ [decreaseLife e b (last ls)]) = viewAt block (butlast ls @ [last ls])"
    by simp
  then show ?thesis using assms(1) by simp
qed

lemma step_ahead:
  assumes "ledgerStep e b S S'" "block < b" "seenOpen (isLedger S) e"
  shows "readAhead block (isLedger S) (isLedger S')"
proof -
  have inc: "readAhead block L (onIncrease L e b)" if "seenOpen L e" "geName e = ''PositionIncrease''" for L
    using that assms(2)
    by (auto simp: readAhead_def onIncrease_def seenOpen_def viewAt_def bornBy_def freshLife_def split: option.splits)
  have dec: "readAhead block L (fst (onDecrease L e b))" if seen: "seenOpen L e" "geName e = ''PositionDecrease''" for L
  proof (cases "trackedAccount L (geAccount e)")
    case True
    then obtain lf where cur: "currentLife L (gePositionKey e) = Some lf" using seen by (auto simp: seenOpen_def)
    let ?k = "lc (gePositionKey e)"
    have ls: "livesOf L ?k \<noteq> []" "lfClose (last (livesOf L ?k)) = None" using cur by (auto simp: currentLife_iff)
    have "decreaseBase L e = L" by (simp add: decreaseBase_def cur)
    then show ?thesis
      using True view_decrease [OF ls assms(2), of e] by (auto simp: onDecrease_eq readAhead_def livesOf_update Let_def)
  qed (simp add: onDecrease_eq readAhead_refl)
  show ?thesis using assms(1)
  proof cases
    case increase
    then show ?thesis using inc assms(3) by simp
  next
    case (decrease L lf key)
    then show ?thesis using dec [of "isLedger S"] assms(3) by simp
  next
    case (decreaseRecord L lf i tx)
    then show ?thesis using dec [of "isLedger S"] assms(3) readAhead_record assms(2) by simp
  next
    case (closeRecord key d lf i tx)
    then show ?thesis using readAhead_record [OF readAhead_refl assms(2)] by simp
  qed (simp add: readAhead_refl)
qed

lemma fold_ahead:
  assumes "\<forall>g \<in> set gs. block < blockOf g" "opensSeen decode S gs"
  shows "readAhead block (isLedger S) (isLedger (foldl (ingestLog decode) S gs))"
  using assms
proof (induction gs arbitrary: S)
  case (Cons g gs)
  have "readAhead block (isLedger S) (isLedger (ingestLog decode S g))"
    using ingestLog_cases [of decode S g] step_ahead [of _ "blockOf g" S _ block] Cons.prems
    by (auto simp: readAhead_refl)
  moreover have "readAhead block (isLedger (ingestLog decode S g))
      (isLedger (foldl (ingestLog decode) (ingestLog decode S g) gs))"
    by (rule Cons.IH) (use Cons.prems in auto)
  ultimately show ?case using readAhead_trans by auto
qed (simp add: readAhead_refl)

text \<open>
  A position open at the boundary whose key the ledger knows has a life open there: the exchange's
  reader and its events agree.
\<close>

definition agreesAt ::
  "(string \<Rightarrow> string \<Rightarrow> string \<Rightarrow> bool \<Rightarrow> string) \<Rightarrow> insolvencyLedger \<Rightarrow> int \<Rightarrow> openPosition list \<Rightarrow> bool" where
  "agreesAt posKey L block open1 \<longleftrightarrow> distinct (map (positionKeyOf posKey) open1) \<and>
    list_all (\<lambda>p. livesOf L (positionKeyOf posKey p) = [] \<or>
      list_ex (\<lambda>lf. bornBy block lf \<and> closedBy block lf = None) (livesOf L (positionKeyOf posKey p))) open1"

lemma ahead_charges:
  assumes "insolvencyInv L" "insolvencyInv L'" "readAhead block L L'" "agreesAt posKey L' block open1"
  shows "map_of (chargesAt posKey L block open1) = map_of (chargesAt posKey L' block open1)"
proof (rule charges_cong [OF assms(1,2)])
  note ra = assms(3) [unfolded readAhead_def]
  show closes: "filter (\<lambda>s. icBlock s \<le> block) (ilShortfalls L) =
      filter (\<lambda>s. icBlock s \<le> block) (ilShortfalls L')" using ra by simp
  have hits: "hitsBy L block account market = hitsBy L' block account market" for account market
  proof -
    have "hitsBy M block account market = filter (\<lambda>s. lc (icAccount s) = account \<and> lc (icMarket s) = market)
        (filter (\<lambda>s. icBlock s \<le> block) (ilShortfalls M))" for M
      by (simp add: hitsBy_def conj_ac)
    then show ?thesis by (simp only: closes)
  qed
  show "keyCover (openPnlMap posKey open1) L block account market k =
      keyCover (openPnlMap posKey open1) L' block account market k" for account market k
    unfolding keyCover_def hits by (subst (1 2) view_sum) (simp add: ra)
  show "positionKeyOf posKey p \<in> set (keys (ilLives L)) \<longleftrightarrow>
      positionKeyOf posKey p \<in> set (keys (ilLives L'))" if "p \<in> set open1" for p
  proof
    assume "positionKeyOf posKey p \<in> set (keys (ilLives L'))"
    then obtain lf where "lf \<in> set (livesOf L' (positionKeyOf posKey p))" "bornBy block lf"
    proof -
      assume k: "positionKeyOf posKey p \<in> set (keys (ilLives L'))"
      have "livesOf L' (positionKeyOf posKey p) \<noteq> []" using k livesOf_present [OF assms(2)] by blast
      then have "list_ex (\<lambda>lf. bornBy block lf \<and> closedBy block lf = None) (livesOf L' (positionKeyOf posKey p))"
        using assms(4) \<open>p \<in> set open1\<close> unfolding agreesAt_def list_all_iff by blast
      then show thesis using that by (auto simp: list_ex_iff)
    qed
    then have "viewAt block (livesOf L' (positionKeyOf posKey p)) \<noteq> []"
      by (auto simp: viewAt_def filter_empty_conv)
    then have "viewAt block (livesOf L (positionKeyOf posKey p)) \<noteq> []" using ra by simp
    then show "positionKeyOf posKey p \<in> set (keys (ilLives L))"
      using livesOf_present [OF assms(1)] by (auto simp: viewAt_def)
  qed (use ra livesOf_present [OF assms(1)] livesOf_present [OF assms(2)] in blast)
  show "distinct (map (positionKeyOf posKey) open1)" using assms(4) by (simp add: agreesAt_def)
qed

section \<open>Pruning\<close>

text \<open>A closed life that faces no recorded close and can face no later one.\<close>

definition deadLife :: "int \<Rightarrow> insolvencyLedger \<Rightarrow> life \<Rightarrow> bool" where
  "deadLife block L lf \<longleftrightarrow> \<not> matters L (ilLives L) block lf"

definition sameLasts :: "(string \<times> life list) list \<Rightarrow> (string \<times> life list) list \<Rightarrow> bool" where
  "sameLasts m m' \<longleftrightarrow> (\<forall>k. openLast (getOr [] m k) = openLast (getOr [] m' k))"

lemma mayOverlap_last: "mayOverlapLater lf c others \<longleftrightarrow> (\<exists>other. openLast others = Some other \<and>
    lfAccount other = lfAccount lf \<and> lfMarket other = lfMarket lf \<and> lfIsLong other \<noteq> lfIsLong lf \<and>
    (case lfOpen other of None \<Rightarrow> True | Some b \<Rightarrow> b \<le> c))"
  by (auto simp: mayOverlapLater_def split: option.splits)

lemma overlap_keys:
  assumes "distinct (keys m)"
  shows "list_ex (\<lambda>(_, others). mayOverlapLater lf c others) m \<longleftrightarrow>
    (\<exists>k. mayOverlapLater lf c (getOr [] m k))"
proof
  assume "list_ex (\<lambda>(_, others). mayOverlapLater lf c others) m"
  then obtain k others where "(k, others) \<in> set m" "mayOverlapLater lf c others" by (auto simp: list_ex_iff)
  then show "\<exists>k. mayOverlapLater lf c (getOr [] m k)" using assms by (auto simp: getOr_def intro!: exI [of _ k])
next
  assume "\<exists>k. mayOverlapLater lf c (getOr [] m k)"
  then obtain k where "mayOverlapLater lf c (getOr [] m k)" by blast
  then show "list_ex (\<lambda>(_, others). mayOverlapLater lf c others) m"
    by (auto simp: getOr_def list_ex_iff mayOverlapLater_def openLast_def split: option.splits if_splits
        dest!: map_of_SomeD)
qed

lemma matters_same:
  assumes "sameLasts m m'" "distinct (keys m)" "distinct (keys m')"
  shows "matters L m block lf = matters L m' block lf"
proof -
  have "(\<exists>k. mayOverlapLater lf c (getOr [] m k)) \<longleftrightarrow> (\<exists>k. mayOverlapLater lf c (getOr [] m' k))" for c
    using assms(1) by (simp add: sameLasts_def mayOverlap_last)
  then show ?thesis
    by (auto simp: matters_def overlap_keys [OF assms(2)] overlap_keys [OF assms(3)] split: option.splits)
qed

lemma last_filter: "ls \<noteq> [] \<Longrightarrow> P (last ls) \<Longrightarrow> filter P ls \<noteq> [] \<and> last (filter P ls) = last ls"
  by (induction ls rule: rev_induct) auto

lemma openLast_filter:
  assumes "\<And>lf. lfClose lf = None \<Longrightarrow> P lf" "\<forall>lf \<in> set (butlast ls). lfClose lf \<noteq> None"
  shows "openLast (filter P ls) = openLast ls"
proof (cases "ls \<noteq> [] \<and> lfClose (last ls) = None")
  case True
  then show ?thesis using last_filter [of ls P] assms(1) by (simp add: openLast_def)
next
  case False
  have "lfClose lf \<noteq> None" if "lf \<in> set ls" for lf
  proof (cases "ls = []")
    case ne: False
    have "lf \<in> set (butlast ls @ [last ls])" using that ne by simp
    then have "lf \<in> set (butlast ls) \<or> lf = last ls" by (simp del: append_butlast_last_id) blast
    then show ?thesis
    proof
      assume "lf \<in> set (butlast ls)"
      then show ?thesis using assms(2) by simp
    next
      assume "lf = last ls"
      then show ?thesis using False ne by simp
    qed
  qed (use that in simp)
  moreover have "set (filter P ls) \<subseteq> set ls" by auto
  ultimately have "\<forall>lf \<in> set (filter P ls). lfClose lf \<noteq> None" by blast
  then have "openLast (filter P ls) = None" unfolding openLast_def by (metis last_in_set)
  moreover have "openLast ls = None" using False by (simp add: openLast_def)
  ultimately show ?thesis by simp
qed

lemma matters_open: "lfClose lf = None \<Longrightarrow> matters L m block lf"
  by (simp add: matters_def)

lemma pruneKey_lookup:
  assumes "distinct (keys m)"
  shows "getOr [] (pruneKey L block m k) k' =
    (if k' = k then filter (matters L m block) (getOr [] m k) else getOr [] m k')"
    and "distinct (keys (pruneKey L block m k))"
proof -
  have full: "filter Q ls = ls" if "length (filter Q ls) = length ls" for Q and ls :: "life list"
    using that by (simp add: filter_id_conv) (metis length_filter_less less_irrefl)
  show "getOr [] (pruneKey L block m k) k' =
      (if k' = k then filter (matters L m block) (getOr [] m k) else getOr [] m k')"
    by (auto simp: pruneKey_def Let_def getOr_def map_of_delete delete_conv' intro: full [symmetric]
        split: option.splits)
  show "distinct (keys (pruneKey L block m k))"
    using assms by (auto simp: pruneKey_def Let_def distinct_delete)
qed

text \<open>
  What the loop leaves of a key's list is what matters in the ledger before it began: the last open
  life of a key is never dropped, and the rest of the question does not change under the loop.
\<close>

definition pruning :: "insolvencyLedger \<Rightarrow> (string \<times> life list) list \<Rightarrow> bool" where
  "pruning L m \<longleftrightarrow> distinct (keys m) \<and> sameLasts m (ilLives L) \<and>
    (\<forall>k. \<forall>lf \<in> set (butlast (getOr [] m k)). lfClose lf \<noteq> None)"

lemma butlast_filter: "set (butlast (filter P ls)) \<subseteq> set (butlast ls)"
proof -
  have "butlast (filter P ls) = filter P (butlast ls) \<or> butlast (filter P ls) = butlast (filter P (butlast ls))"
    by (induction ls rule: rev_induct) (auto simp: butlast_append)
  then show ?thesis by (metis (no_types, lifting) filter_is_subset in_set_butlastD subset_iff)
qed

lemma pruneKey_step:
  assumes "distinct (keys (ilLives L))" "pruning L m"
  shows "getOr [] (pruneKey L block m k) k' =
      (if k' = k then filter (matters L (ilLives L) block) (getOr [] m k) else getOr [] m k')"
    and "pruning L (pruneKey L block m k)"
proof -
  have m: "distinct (keys m)" "sameLasts m (ilLives L)"
    "\<And>k lf. lf \<in> set (butlast (getOr [] m k)) \<Longrightarrow> lfClose lf \<noteq> None"
    using assms(2) by (auto simp: pruning_def)
  have look: "getOr [] (pruneKey L block m k) k' =
      (if k' = k then filter (matters L (ilLives L) block) (getOr [] m k) else getOr [] m k')" for k'
  proof -
    have "matters L m block = matters L (ilLives L) block"
      by (rule ext) (rule matters_same [OF m(2,1) assms(1)])
    then show ?thesis using pruneKey_lookup(1) [OF m(1), of L block k k'] by (simp only:)
  qed
  then show "getOr [] (pruneKey L block m k) k' =
      (if k' = k then filter (matters L (ilLives L) block) (getOr [] m k) else getOr [] m k')" .
  have "lfClose lf \<noteq> None" if lf: "lf \<in> set (butlast (getOr [] (pruneKey L block m k) k'))" for k' lf
  proof -
    have "lf \<in> set (butlast (getOr [] m k'))"
      using lf butlast_filter [of "matters L (ilLives L) block" "getOr [] m k"]
      unfolding look by (auto split: if_splits)
    then show ?thesis by (rule m(3))
  qed
  moreover have "openLast (filter (matters L (ilLives L) block) (getOr [] m k)) = openLast (getOr [] m k)"
    by (rule openLast_filter) (simp_all add: matters_open m(3))
  then have "sameLasts (pruneKey L block m k) (ilLives L)"
    using m(2) by (simp add: sameLasts_def look)
  ultimately show "pruning L (pruneKey L block m k)"
    using pruneKey_lookup(2) [OF m(1)] unfolding pruning_def by blast
qed

lemma prune_fold:
  assumes "distinct (keys (ilLives L))" "distinct ks" "pruning L m"
  shows "pruning L (foldl (pruneKey L block) m ks) \<and>
    (\<forall>k. getOr [] (foldl (pruneKey L block) m ks) k =
      (if k \<in> set ks then filter (matters L (ilLives L) block) (getOr [] m k) else getOr [] m k))"
  using assms(2,3)
proof (induction ks arbitrary: m)
  case (Cons k ks)
  note step = pruneKey_step [OF assms(1) Cons.prems(2), of block k]
  show ?case using Cons.IH [OF _ step(2)] Cons.prems(1) step(1) by auto
qed simp

lemma inv_pruning: "insolvencyInv L \<Longrightarrow> pruning L (ilLives L)"
proof -
  assume inv: "insolvencyInv L"
  have "lfClose lf \<noteq> None" if "lf \<in> set (butlast (livesOf L k))" for k lf
    using livesOf_ok [OF inv, of k] that by (cases "livesOf L k = []") (auto simp: livesOk_def list_all_iff)
  then show ?thesis
    using inv unfolding pruning_def insolvencyInv_def sameLasts_def livesOf_def by blast
qed

lemma livesOf_prune:
  assumes "insolvencyInv L"
  shows "livesOf (pruneLedger block L) k = filter (\<lambda>lf. \<not> deadLife block L lf) (livesOf L k)"
proof -
  have d: "distinct (keys (ilLives L))" using assms by (simp add: insolvencyInv_def)
  have "getOr [] (ilLives L) k = []" if "k \<notin> set (keys (ilLives L))"
    using livesOf_absent [OF that] by (simp add: livesOf_def)
  then show ?thesis
    using prune_fold [OF d d inv_pruning [OF assms], of block]
    by (simp add: pruneLedger_def livesOf_def deadLife_def)
qed

lemma prune_frames [simp]:
  "ilShortfalls (pruneLedger block L) = ilShortfalls L" "ilAccounts (pruneLedger block L) = ilAccounts L"
  by (simp_all add: pruneLedger_def)

lemma prune_nonempty:
  assumes "\<forall>x \<in> set m. snd x \<noteq> []"
  shows "\<forall>x \<in> set (foldl (pruneKey L block) m ks). snd x \<noteq> []"
  using assms
proof (induction ks arbitrary: m)
  case (Cons k ks)
  have "\<forall>x \<in> set (pruneKey L block m k). snd x \<noteq> []"
    using Cons.prems by (auto simp: pruneKey_def Let_def dest!: set_update_mem dest: set_delete)
  then show ?case using Cons.IH by simp
qed simp

lemma pruneLedger_inv:
  assumes "insolvencyInv L"
  shows "insolvencyInv (pruneLedger block L)"
proof -
  let ?P = "pruneLedger block L"
  have d: "distinct (keys (ilLives L))" using assms by (simp add: insolvencyInv_def)
  have dp: "distinct (keys (ilLives ?P))"
    using prune_fold [OF d d inv_pruning [OF assms], of block] by (simp add: pruneLedger_def pruning_def)
  have "\<forall>x \<in> set (ilLives L). snd x \<noteq> []"
    using assms by (auto simp: insolvencyInv_def list_all_iff livesOk_def)
  then have ne: "\<forall>x \<in> set (ilLives ?P). snd x \<noteq> []"
    using prune_nonempty [of "ilLives L"] by (simp add: pruneLedger_def)
  have "livesOk k ls" if "(k, ls) \<in> set (ilLives ?P)" for k ls
  proof -
    have "ls \<noteq> []" using ne that by auto
    moreover have ls: "ls = filter (\<lambda>lf. \<not> deadLife block L lf) (livesOf L k)"
      using livesOf_prune [OF assms] livesOf_mem [OF dp that] by simp
    moreover have "livesOf L k \<noteq> []" using calculation by auto
    then have "livesOk k (livesOf L k)" by (rule livesOf_ok [OF assms])
    ultimately show ?thesis
      using butlast_filter [of "\<lambda>lf. \<not> deadLife block L lf" "livesOf L k"]
      by (auto simp: livesOk_def list_all_iff)
  qed
  then show ?thesis using assms dp by (auto simp: insolvencyInv_def list_all_iff)
qed

end
