(* ===== verification/Gmx_Pruned.thy ===== *)
theory Gmx_Pruned
  imports Gmx_Run
begin

text \<open>
  The live scorer's ledger, pruned at every boundary, against the sweep's, which is not
  (\<open>sdk/src/protocols/gmxInsolvency.ts\<close>, \<open>core/src/realtime/gmxShortfall.ts\<close>): they charge the same as
  long as every position was opened under the ledger's eyes, and not otherwise.
\<close>

section \<open>A pruned ledger beside a full one\<close>

text \<open>\<open>D\<close> are the lives that were pruned; each is dead in the full ledger.\<close>

definition prunedOf :: "int \<Rightarrow> life set \<Rightarrow> insolvencyLedger \<Rightarrow> insolvencyLedger \<Rightarrow> bool" where
  "prunedOf block D F P \<longleftrightarrow> ilShortfalls P = ilShortfalls F \<and> ilAccounts P = ilAccounts F \<and>
    (\<forall>lf \<in> D. deadLife block F lf) \<and>
    (\<forall>k. livesOf P k = filter (\<lambda>lf. lf \<notin> D) (livesOf F k))"

lemma dead_iff: "deadLife block L lf \<longleftrightarrow> (\<exists>c. lfClose lf = Some c \<and> c \<le> block \<and>
    \<not> list_ex (\<lambda>s. accountMarket (icAccount s) (icMarket s) = accountMarket (lfAccount lf) (lfMarket lf) \<and>
        icIsLong s \<noteq> lfIsLong lf \<and> overlaps (lfOpen lf) (lfClose lf) (icOpenedAt s) (icBlock s)) (ilShortfalls L) \<and>
    \<not> list_ex (\<lambda>(_, others). mayOverlapLater lf c others) (ilLives L))"
  by (auto simp: deadLife_def matters_def split: option.splits)

lemma dead_closed: "deadLife block L lf \<Longrightarrow> \<exists>c. lfClose lf = Some c \<and> c \<le> block"
  by (auto simp: dead_iff)

definition facesClose :: "life \<Rightarrow> insolventClose \<Rightarrow> bool" where
  "facesClose lf s \<longleftrightarrow> accountMarket (icAccount s) (icMarket s) = accountMarket (lfAccount lf) (lfMarket lf) \<and>
    icIsLong s \<noteq> lfIsLong lf \<and> overlaps (lfOpen lf) (lfClose lf) (icOpenedAt s) (icBlock s)"

lemma dead_char:
  assumes "distinct (keys (ilLives L))"
  shows "deadLife block L lf \<longleftrightarrow> (\<exists>c. lfClose lf = Some c \<and> c \<le> block \<and>
    (\<forall>s \<in> set (ilShortfalls L). \<not> facesClose lf s) \<and> (\<forall>k. \<not> mayOverlapLater lf c (livesOf L k)))"
  unfolding dead_iff overlap_keys [OF assms] by (auto simp: facesClose_def livesOf_def list_ex_iff)

lemma pruned_closed:
  assumes "prunedOf block D F P" "lf \<in> D"
  shows "\<exists>c. lfClose lf = Some c \<and> c \<le> block"
proof -
  have "deadLife block F lf" using assms by (simp add: prunedOf_def)
  then show ?thesis by (rule dead_closed)
qed

lemma pruned_open: "prunedOf block D F P \<Longrightarrow> lfClose lf = None \<Longrightarrow> lf \<notin> D"
  using pruned_closed by fastforce

lemma pruned_last:
  assumes "prunedOf block D F P"
  shows "openLast (livesOf F k) = Some lf \<Longrightarrow> openLast (livesOf P k) = Some lf"
proof -
  assume o: "openLast (livesOf F k) = Some lf"
  then have ls: "livesOf F k \<noteq> []" "lf = last (livesOf F k)" "lfClose lf = None"
    by (auto simp: openLast_def split: if_splits)
  then have "last (livesOf F k) \<notin> D" using pruned_open [OF assms] by simp
  then show ?thesis
    using last_filter [OF ls(1), of "\<lambda>lf. lf \<notin> D"] assms ls by (simp add: prunedOf_def openLast_def)
qed

lemma openLast_eq:
  assumes "insolvencyInv F" "prunedOf block D F P"
  shows "openLast (livesOf P k) = openLast (livesOf F k)"
proof -
  have bl: "\<forall>lf \<in> set (butlast (livesOf F k)). lfClose lf \<noteq> None"
    using livesOf_ok [OF assms(1), of k] by (cases "livesOf F k = []") (auto simp: livesOk_def list_all_iff)
  have "lf \<notin> D" if "lfClose lf = None" for lf
    by (rule pruned_open [OF assms(2) that])
  then show ?thesis
    using openLast_filter [of "\<lambda>lf. lf \<notin> D" "livesOf F k"] bl assms(2) by (simp add: prunedOf_def)
qed

lemma current_openLast: "currentLife L pk = openLast (livesOf L (lc pk))"
  by (simp add: currentLife_def openLast_def Let_def)

text \<open>The side a position key stands for, which the exchange's events of the key agree on.\<close>

definition keyedEvents ::
  "('raw \<Rightarrow> gmxEvent option) \<Rightarrow> (string \<Rightarrow> string \<times> string \<times> bool) \<Rightarrow> bool" where
  "keyedEvents decode side \<longleftrightarrow> (\<forall>raw e. decode raw = Some e \<longrightarrow>
     side (lc (gePositionKey e)) = (lc (geAccount e), lc (geMarket e), geIsLong e))"

definition cleanLife :: "life \<Rightarrow> bool" where
  "cleanLife lf \<longleftrightarrow> lc (lfAccount lf) = lfAccount lf \<and> lc (lfMarket lf) = lfMarket lf \<and>
    plain (lfAccount lf) \<and> plain (lfMarket lf)"

definition keyedLives :: "(string \<Rightarrow> string \<times> string \<times> bool) \<Rightarrow> insolvencyLedger \<Rightarrow> bool" where
  "keyedLives side L \<longleftrightarrow> (\<forall>k. \<forall>lf \<in> set (livesOf L k). side k = (lfAccount lf, lfMarket lf, lfIsLong lf) \<and>
     cleanLife lf)"

text \<open>A decrease still waiting for its close: its life is of its side and opened after every dead one it faces.\<close>

definition pendingFree :: "life set \<Rightarrow> (string \<times> (gmxEvent \<times> life option)) list \<Rightarrow> bool" where
  "pendingFree D pend \<longleftrightarrow> (\<forall>(key, e, l) \<in> set pend. \<forall>lf \<in> D. \<forall>l'. l = Some l' \<longrightarrow>
     lc (geAccount e) = lc (lfAccount lf) \<longrightarrow> lc (geMarket e) = lc (lfMarket lf) \<longrightarrow> geIsLong e \<noteq> lfIsLong lf \<longrightarrow>
     (\<exists>o1 c. lfOpen l' = Some o1 \<and> lfClose lf = Some c \<and> c < o1))"

definition twins :: "int \<Rightarrow> life set \<Rightarrow> (string \<Rightarrow> string \<times> string \<times> bool) \<Rightarrow> ingestState \<Rightarrow> ingestState \<Rightarrow> bool" where
  "twins block D side S T \<longleftrightarrow> prunedOf block D (isLedger S) (isLedger T) \<and>
    isInsolvent S = isInsolvent T \<and> isDecrease S = isDecrease T \<and> isOut S = isOut T \<and>
    insolvencyInv (isLedger S) \<and> insolvencyInv (isLedger T) \<and> pendingPlain S \<and>
    keyedLives side (isLedger S) \<and> pendingFree D (isDecrease S) \<and> (\<forall>lf \<in> D. cleanLife lf)"

lemma tracked_same: "prunedOf block D F P \<Longrightarrow> trackedAccount P a = trackedAccount F a"
  by (simp add: prunedOf_def trackedAccount_def)

lemma dead_push:
  assumes "insolvencyInv L" "deadLife block L lf" "block < b" "currentLife L (gePositionKey e) = None"
  shows "deadLife block (newLife L e (Some b)) lf"
proof -
  have d: "distinct (keys (ilLives L))" "distinct (keys (ilLives (newLife L e (Some b))))"
    using assms(1) newLife_inv [OF assms(1,4)] by (simp_all add: insolvencyInv_def)
  obtain c where c: "lfClose lf = Some c" "c \<le> block" using dead_closed [OF assms(2)] by blast
  have "\<not> mayOverlapLater lf c (livesOf L k @ [freshLife e (Some b)])" for k
    using c assms(3) by (auto simp: mayOverlapLater_def openLast_def freshLife_def)
  then show ?thesis
    using assms(2) c unfolding dead_char [OF d(1)] dead_char [OF d(2)] by auto
qed

lemma pruned_push:
  assumes "prunedOf block D F P" "insolvencyInv F" "block < b" "currentLife F (gePositionKey e) = None"
  shows "prunedOf block D (newLife F e (Some b)) (newLife P e (Some b))"
proof -
  have "freshLife e (Some b) \<notin> D"
    by (rule pruned_open [OF assms(1)]) (simp add: freshLife_def)
  then show ?thesis
    using assms dead_push [OF assms(2) _ assms(3,4)] by (auto simp: prunedOf_def)
qed

lemma pruned_decrease:
  fixes e
  assumes "prunedOf block D F P" "insolvencyInv F" "block < b" "currentLife F pk = Some lf"
  defines "k \<equiv> lc pk"
  defines "G \<equiv> \<lambda>L. L\<lparr>ilLives := AList.update k (butlast (livesOf L k) @ [decreaseLife e b (last (livesOf L k))]) (ilLives L)\<rparr>"
  shows "prunedOf block D (G F) (G P)"
proof -
  have F: "livesOf F k \<noteq> []" "lf = last (livesOf F k)" "lfClose lf = None"
    using assms(4) by (auto simp: currentLife_iff k_def)
  have nd: "lf \<notin> D" by (rule pruned_open [OF assms(1) F(3)])
  have nd2: "decreaseLife e b lf \<notin> D"
  proof
    assume "decreaseLife e b lf \<in> D"
    then obtain c where "lfClose (decreaseLife e b lf) = Some c" "c \<le> block"
      using pruned_closed [OF assms(1)] by blast
    then show False using assms(3) F(3) by (simp add: decreaseLife_def split: if_splits)
  qed
  obtain us where us: "livesOf F k = us @ [lf]" using F(1,2) by (metis append_butlast_last_id)
  have P: "livesOf P k = filter (\<lambda>x. x \<notin> D) us @ [lf]" using assms(1) nd by (simp add: prunedOf_def us)
  have lists: "livesOf (G P) k' = filter (\<lambda>x. x \<notin> D) (livesOf (G F) k')" for k'
    using assms(1) nd nd2 by (simp add: G_def livesOf_update us P prunedOf_def)
  have inv: "insolvencyInv (G F)"
    unfolding G_def by (rule ok_update [OF assms(2)]) (rule decrease_ok [OF livesOf_ok [OF assms(2) F(1)]])
  have d: "distinct (keys (ilLives F))" "distinct (keys (ilLives (G F)))"
    using assms(2) inv by (simp_all add: insolvencyInv_def)
  have "deadLife block (G F) x" if "x \<in> D" for x
  proof -
    have dx: "deadLife block F x" using assms(1) that by (simp add: prunedOf_def)
    obtain c where c: "lfClose x = Some c" "c \<le> block" using dead_closed [OF dx] by blast
    have "\<not> mayOverlapLater x c (us @ [lf])"
      using dx c us unfolding dead_char [OF d(1)] by (metis option.inject)
    then have "\<not> mayOverlapLater x c (us @ [decreaseLife e b lf])"
      using F(3) by (auto simp: mayOverlapLater_def openLast_def decreaseLife_def)
    then show ?thesis
      using dx c unfolding dead_char [OF d(1)] dead_char [OF d(2)] by (auto simp: G_def livesOf_update us)
  qed
  moreover have "ilShortfalls (G P) = ilShortfalls (G F)" "ilAccounts (G P) = ilAccounts (G F)"
    using assms(1) by (simp_all add: G_def prunedOf_def)
  ultimately show ?thesis using lists by (auto simp: prunedOf_def)
qed

lemma pruned_record:
  assumes "prunedOf block D F P" "insolvencyInv F"
    and free: "\<And>lf l'. lf \<in> D \<Longrightarrow> (l :: life option) = Some l' \<Longrightarrow> lc (geAccount d) = lc (lfAccount lf) \<Longrightarrow>
      lc (geMarket d) = lc (lfMarket lf) \<Longrightarrow> geIsLong d \<noteq> lfIsLong lf \<Longrightarrow>
      \<exists>o1 c. lfOpen l' = Some o1 \<and> lfClose lf = Some c \<and> c < o1"
    and plain: "plain (geAccount d)" "plain (geMarket d)" "\<And>lf. lf \<in> D \<Longrightarrow> plain (lfAccount lf) \<and> plain (lfMarket lf)"
  shows "prunedOf block D (fst (recordInsolvent F i d l b tx)) (fst (recordInsolvent P i d l b tx))"
proof -
  let ?F = "fst (recordInsolvent F i d l b tx)"
  have d: "distinct (keys (ilLives F))" "distinct (keys (ilLives ?F))" using assms(2) by (simp_all add: insolvencyInv_def)
  have "deadLife block ?F x" if x: "x \<in> D" for x
  proof -
    have dx: "deadLife block F x" using assms(1) x by (simp add: prunedOf_def)
    have "\<not> facesClose x r" if rr: "snd (recordInsolvent F i d l b tx) = Some r" for r
    proof
      assume f: "facesClose x r"
      obtain l' where r: "icAccount r = geAccount d" "icMarket r = geMarket d" "icIsLong r = geIsLong d"
        "l = Some l'" "icOpenedAt r = lfOpen l'"
        using record_Some [OF rr] by auto
      have "lc (geAccount d) = lc (lfAccount x) \<and> lc (geMarket d) = lc (lfMarket x)"
        using f r accountMarket_eq [OF plain(1,2)] plain(3) [OF x] by (simp add: facesClose_def)
      moreover have "geIsLong d \<noteq> lfIsLong x" using f r by (simp add: facesClose_def)
      ultimately obtain o1 c where "lfOpen l' = Some o1" "lfClose x = Some c" "c < o1"
        using free [OF x r(4)] by blast
      then show False using f r by (simp add: facesClose_def overlaps_def)
    qed
    then show ?thesis
      using dx unfolding dead_char [OF d(1)] dead_char [OF d(2)] by (auto simp: record_shortfalls split: option.splits)
  qed
  moreover have "snd (recordInsolvent P i d l b tx) = snd (recordInsolvent F i d l b tx)"
    by (simp add: recordInsolvent_def Let_def split: option.splits)
  ultimately show ?thesis
    using assms(1) by (auto simp: prunedOf_def record_shortfalls)
qed

section \<open>The same events on both\<close>

lemma keyed_push:
  assumes "keyedLives side L" "side (lc (gePositionKey e)) = (lc (geAccount e), lc (geMarket e), geIsLong e)"
    "plain (geAccount e)" "plain (geMarket e)"
  shows "keyedLives side (newLife L e opened)"
  using assms by (auto simp: keyedLives_def freshLife_def cleanLife_def)

lemma keyed_decrease:
  assumes "keyedLives side L" "livesOf L k \<noteq> []"
  shows "keyedLives side (L\<lparr>ilLives := AList.update k
    (butlast (livesOf L k) @ [decreaseLife e b (last (livesOf L k))]) (ilLives L)\<rparr>)"
proof -
  let ?good = "\<lambda>k lf. side k = (lfAccount lf, lfMarket lf, lfIsLong lf) \<and> cleanLife lf"
  have good: "?good k lf" if "lf \<in> set (livesOf L k)" for k lf
    using assms(1) that by (simp add: keyedLives_def)
  have "?good k (decreaseLife e b (last (livesOf L k)))"
    using good [of "last (livesOf L k)" k] assms(2) by (simp add: decreaseLife_def cleanLife_def)
  moreover have "?good k lf" if "lf \<in> set (butlast (livesOf L k))" for lf
    by (rule good) (rule in_set_butlastD [OF that])
  ultimately show ?thesis
    using good by (auto simp: keyedLives_def livesOf_update)
qed

lemma pending_update:
  assumes "pendingFree D pend" "pendingFree D [(key, e, l)]"
  shows "pendingFree D (AList.update key (e, l) pend)"
  using assms unfolding pendingFree_def by (auto dest!: set_update_mem)

lemma pending_delete: "pendingFree D pend \<Longrightarrow> pendingFree D (AList.delete key pend)"
  unfolding pendingFree_def by (auto dest!: set_delete)

text \<open>What a decrease does where its life is open on both ledgers.\<close>

lemma twin_decrease:
  assumes p: "prunedOf block D F P" "insolvencyInv F" "insolvencyInv P" "keyedLives side F"
      "\<forall>lf \<in> D. cleanLife lf"
    and e: "block < b" "seenOpen F e" "geName e = ''PositionDecrease''"
      "side (lc (gePositionKey e)) = (lc (geAccount e), lc (geMarket e), geIsLong e)"
    and od: "onDecrease F e b = (F', lf)" "onDecrease P e b = (P', lf')"
  shows "prunedOf block D F' P' \<and> lf' = lf \<and> keyedLives side F' \<and> pendingFree D [(key, e, lf)]"
proof (cases "trackedAccount F (geAccount e)")
  case False
  then have "F' = F" "P' = P" "lf = None" "lf' = None"
    using od tracked_same [OF p(1)] by (simp_all add: onDecrease_eq)
  then show ?thesis using p by (simp add: pendingFree_def)
next
  case True
  let ?k = "lc (gePositionKey e)"
  obtain cl where cur: "currentLife F (gePositionKey e) = Some cl" using e True by (auto simp: seenOpen_def)
  have curP: "currentLife P (gePositionKey e) = Some cl"
    using cur openLast_eq [OF p(2,1)] by (simp add: current_openLast)
  have cl: "livesOf F ?k \<noteq> []" "cl = last (livesOf F ?k)" "lfClose cl = None"
    and clP: "livesOf P ?k \<noteq> []" "cl = last (livesOf P ?k)"
    using cur curP by (auto simp: currentLife_iff)
  have F': "F' = F\<lparr>ilLives := AList.update ?k (butlast (livesOf F ?k) @ [decreaseLife e b (last (livesOf F ?k))]) (ilLives F)\<rparr>"
    and lf: "lf = Some (decreaseLife e b cl)"
    using od(1) True cur cl(2) by (simp_all add: onDecrease_eq decreaseBase_def Let_def)
  have P': "P' = P\<lparr>ilLives := AList.update ?k (butlast (livesOf P ?k) @ [decreaseLife e b (last (livesOf P ?k))]) (ilLives P)\<rparr>"
    and lf': "lf' = Some (decreaseLife e b cl)"
    using od(2) True curP clP(2) tracked_same [OF p(1)] by (simp_all add: onDecrease_eq decreaseBase_def Let_def)
  have "\<exists>o1 c. lfOpen cl = Some o1 \<and> lfClose x = Some c \<and> c < o1"
    if x: "x \<in> D" "lc (geAccount e) = lc (lfAccount x)" "lc (geMarket e) = lc (lfMarket x)" "geIsLong e \<noteq> lfIsLong x" for x
  proof -
    have dx: "deadLife block F x" using p(1) x by (simp add: prunedOf_def)
    obtain c where c: "lfClose x = Some c" "c \<le> block" using dead_closed [OF dx] by blast
    have d: "distinct (keys (ilLives F))" using p(2) by (simp add: insolvencyInv_def)
    have "\<not> mayOverlapLater x c (livesOf F ?k)"
      using dx c unfolding dead_char [OF d] by auto
    moreover have "openLast (livesOf F ?k) = Some cl" using cl by (simp add: openLast_def)
    moreover have "cl \<in> set (livesOf F ?k)" using cl by simp
    then have "side ?k = (lfAccount cl, lfMarket cl, lfIsLong cl)" using p(4) by (simp add: keyedLives_def)
    then have "lfAccount cl = lfAccount x" "lfMarket cl = lfMarket x" "lfIsLong cl \<noteq> lfIsLong x"
      using e(4) x p(5) by (auto simp: cleanLife_def)
    ultimately show ?thesis using c by (auto simp: mayOverlapLater_def split: option.splits)
  qed
  then have "pendingFree D [(key, e, lf)]" by (auto simp: pendingFree_def lf decreaseLife_def)
  moreover have "keyedLives side F'" unfolding F' by (rule keyed_decrease [OF p(4) cl(1)])
  moreover have "prunedOf block D F' P'" unfolding F' P' by (rule pruned_decrease [OF p(1,2) e(1) cur])
  ultimately show ?thesis using lf lf' by simp
qed

lemma twin_increase:
  assumes p: "prunedOf block D F P" "insolvencyInv F" "keyedLives side F"
    and e: "block < b" "seenOpen F e" "geName e = ''PositionIncrease''" "plain (geAccount e)" "plain (geMarket e)"
      "side (lc (gePositionKey e)) = (lc (geAccount e), lc (geMarket e), geIsLong e)"
  shows "prunedOf block D (onIncrease F e b) (onIncrease P e b) \<and> keyedLives side (onIncrease F e b)"
proof (cases "trackedAccount F (geAccount e) \<and> currentLife F (gePositionKey e) = None")
  case False
  have "currentLife P (gePositionKey e) = currentLife F (gePositionKey e)"
    using openLast_eq [OF p(2,1)] by (simp add: current_openLast)
  then have "onIncrease F e b = F" "onIncrease P e b = P"
    using False tracked_same [OF p(1)] by (auto simp: onIncrease_def split: option.splits)
  then show ?thesis using p by simp
next
  case True
  have cur: "currentLife P (gePositionKey e) = None"
    using openLast_eq [OF p(2,1)] True by (simp add: current_openLast)
  have "geSizeInUsd e = geSizeDeltaUsd e" using e(2,3) True by (simp add: seenOpen_def)
  then have "onIncrease F e b = newLife F e (Some b)" "onIncrease P e b = newLife P e (Some b)"
    using True cur tracked_same [OF p(1)] by (simp_all add: onIncrease_def)
  then show ?thesis
    using pruned_push [OF p(1,2) e(1)] keyed_push [OF p(3) e(6,4,5)] True by simp
qed

lemma out_pushRecord [simp]: "isOut (pushRecord S r) =
    isOut S @ (case snd r of None \<Rightarrow> [] | Some c \<Rightarrow> [c])"
  by (simp add: pushRecord_def split: option.splits)

lemma record_same: "snd (recordInsolvent P i d l b tx) = snd (recordInsolvent F i d l b tx)"
  by (simp add: recordInsolvent_def Let_def split: option.splits)

lemma keyed_record: "keyedLives side L \<Longrightarrow> keyedLives side (fst (recordInsolvent L i d l b tx))"
  by (simp add: keyedLives_def)

lemma twin_record:
  assumes "prunedOf block D F P" "insolvencyInv F" "pendingFree D [(key, d, l)]"
    "plain (geAccount d)" "plain (geMarket d)" "\<forall>lf \<in> D. cleanLife lf"
  shows "prunedOf block D (fst (recordInsolvent F i d l b tx)) (fst (recordInsolvent P i d l b tx))"
  by (rule pruned_record [OF assms(1,2)]) (use assms in \<open>auto simp: pendingFree_def cleanLife_def\<close>)

lemma twins_step:
  assumes t: "twins block D side S T"
    and e: "block < b" "seenOpen (isLedger S) e" "plain (geAccount e)" "plain (geMarket e)"
      "side (lc (gePositionKey e)) = (lc (geAccount e), lc (geMarket e), geIsLong e)"
  shows "twins block D side (ingestEvent S e b tx) (ingestEvent T e b tx)"
proof -
  let ?F = "isLedger S" and ?P = "isLedger T" and ?key = "tx @ ''|'' @ geOrderKey e"
  have same: "isDecrease T = isDecrease S" "isInsolvent T = isInsolvent S" "isOut T = isOut S"
    using t by (simp_all add: twins_def)
  have t': "prunedOf block D ?F ?P" "insolvencyInv ?F" "insolvencyInv ?P" "pendingPlain S"
    "keyedLives side ?F" "pendingFree D (isDecrease S)" "\<forall>lf \<in> D. cleanLife lf"
    using t unfolding twins_def by blast+
  have inv: "insolvencyInv (isLedger (ingestEvent S e b tx)) \<and> pendingPlain (ingestEvent S e b tx)"
    by (rule step_inv [OF ingestEvent_step]) (use t' e in auto)
  have "pendingPlain T" using t' same by (simp add: pendingPlain_def)
  then have inv': "insolvencyInv (isLedger (ingestEvent T e b tx)) \<and> pendingPlain (ingestEvent T e b tx)"
    using step_inv [OF ingestEvent_step, of T e b tx] t' e by blast
  show ?thesis
  proof (cases "geName e = ''PositionIncrease''")
    case True
    then show ?thesis
      using t' inv inv' twin_increase [of block D ?F ?P side b e] e by (simp add: same twins_def ingestEvent_def Let_def)
  next
    case inc: False
    show ?thesis
    proof (cases "geName e = ''PositionDecrease''")
      case True
      obtain F1 lf where od: "onDecrease ?F e b = (F1, lf)" by (cases "onDecrease ?F e b")
      obtain P1 lf' where od': "onDecrease ?P e b = (P1, lf')" by (cases "onDecrease ?P e b")
      have tw: "prunedOf block D F1 P1 \<and> lf' = lf \<and> keyedLives side F1 \<and> pendingFree D [(?key, e, lf)]"
        by (rule twin_decrease [OF t'(1,2,3,5,7) e(1,2) True e(5) od od'])
      have invF: "insolvencyInv F1" using onDecrease_inv [of ?F e b] od t' by simp
      show ?thesis
      proof (cases "map_of (isInsolvent S) ?key")
        case None
        then show ?thesis
          using True od od' tw t' inv inv'
          by (simp add: same twins_def ingestEvent_def Let_def pending_update)
      next
        case (Some i)
        then show ?thesis
          using True od od' tw t' inv inv' twin_record [OF _ invF, of block D P1 ?key e lf i b tx] e
          by (simp add: same twins_def ingestEvent_def Let_def keyed_record
              record_same [of P1 i e lf b tx F1])
      qed
    next
      case dec: False
      show ?thesis
      proof (cases "geName e = ''InsolventClose''")
        case True
        show ?thesis
        proof (cases "map_of (isDecrease S) ?key")
          case None
          then show ?thesis
            using True t' inv inv' by (simp add: same twins_def ingestEvent_def Let_def)
        next
          case (Some a)
          obtain d lf where a: "a = (d, lf)" by (cases a)
          have mem: "(?key, d, lf) \<in> set (isDecrease S)" using Some a map_of_SomeD by fastforce
          have "pendingFree D [(?key, d, lf)]" "plain (geAccount d)" "plain (geMarket d)"
            using t' mem by (fastforce simp: pendingFree_def pendingPlain_def)+
          then show ?thesis
            using True Some a t' inv inv' twin_record [of block D ?F ?P ?key d lf e b tx]
            by (simp add: same twins_def ingestEvent_def Let_def keyed_record pending_delete
                record_same [of ?P e d lf b tx ?F])
        qed
      next
        case False
        then show ?thesis using t' inc dec by (simp add: same twins_def ingestEvent_def Let_def)
      qed
    qed
  qed
qed

section \<open>Whole runs\<close>

text \<open>A script: a batch of logs, then a boundary. The live ledger is pruned there, the sweep's is not.\<close>

definition liveRun :: "('raw \<Rightarrow> gmxEvent option) \<Rightarrow> insolvencyLedger
    \<Rightarrow> ('raw ledgerLog list \<times> int) list \<Rightarrow> insolvencyLedger" where
  "liveRun decode L script =
    foldl (\<lambda>L (logs, boundary). pruneLedger boundary (isLedger (ingestLogs decode L logs))) L script"

definition sweepRun :: "('raw \<Rightarrow> gmxEvent option) \<Rightarrow> insolvencyLedger
    \<Rightarrow> ('raw ledgerLog list \<times> int) list \<Rightarrow> insolvencyLedger" where
  "sweepRun decode L script = foldl (\<lambda>L (logs, boundary). isLedger (ingestLogs decode L logs)) L script"

text \<open>Boundaries do not fall, a batch is past the boundary before it, and every opening is seen.\<close>

fun goodScript :: "('raw \<Rightarrow> gmxEvent option) \<Rightarrow> insolvencyLedger \<Rightarrow> int
    \<Rightarrow> ('raw ledgerLog list \<times> int) list \<Rightarrow> bool" where
  "goodScript decode L block [] = True"
| "goodScript decode L block ((logs, boundary) # script) =
     (list_all (\<lambda>g. block < blockOf g) logs \<and> block \<le> boundary \<and>
      opensSeen decode (startState L) (chainOrder logs) \<and>
      goodScript decode (isLedger (ingestLogs decode L logs)) boundary script)"

definition lastBoundary :: "int \<Rightarrow> ('raw ledgerLog list \<times> int) list \<Rightarrow> int" where
  "lastBoundary block script = (if script = [] then block else snd (last script))"

lemma twins_fold:
  assumes "twins block D side S T" "\<forall>g \<in> set gs. block < blockOf g" "opensSeen decode S gs"
    "plainEvents decode" "keyedEvents decode side"
  shows "twins block D side (foldl (ingestLog decode) S gs) (foldl (ingestLog decode) T gs)"
  using assms(1-3)
proof (induction gs arbitrary: S T)
  case (Cons g gs)
  have "twins block D side (ingestLog decode S g) (ingestLog decode T g)"
  proof (cases "decode (glRaw g)")
    case None
    then show ?thesis using Cons.prems(1) by (simp add: ingestLog_def)
  next
    case (Some e)
    have "plain (geAccount e)" "plain (geMarket e)"
      using assms(4) Some unfolding plainEvents_def by blast+
    moreover have "side (lc (gePositionKey e)) = (lc (geAccount e), lc (geMarket e), geIsLong e)"
      using assms(5) Some unfolding keyedEvents_def by blast
    ultimately show ?thesis
      using twins_step [OF Cons.prems(1), of "blockOf g" e] Cons.prems(2,3) Some by (simp add: ingestLog_def)
  qed
  then show ?case using Cons.IH Cons.prems by simp
qed simp

definition pairOk :: "int \<Rightarrow> (string \<Rightarrow> string \<times> string \<times> bool) \<Rightarrow> insolvencyLedger \<Rightarrow> insolvencyLedger \<Rightarrow> bool" where
  "pairOk block side F P \<longleftrightarrow> insolvencyInv F \<and> insolvencyInv P \<and> keyedLives side F \<and>
    (\<exists>D. prunedOf block D F P \<and> (\<forall>lf \<in> D. cleanLife lf))"

lemma pair_batch:
  assumes "pairOk block side F P" "\<forall>g \<in> set logs. block < blockOf g"
    "opensSeen decode (startState F) (chainOrder logs)" "plainEvents decode" "keyedEvents decode side"
  shows "pairOk block side (isLedger (ingestLogs decode F logs)) (isLedger (ingestLogs decode P logs))"
proof -
  obtain D where "prunedOf block D F P" "\<forall>lf \<in> D. cleanLife lf" using assms(1) by (auto simp: pairOk_def)
  then have "twins block D side (startState F) (startState P)"
    using assms(1) by (simp add: twins_def pairOk_def startState_def pendingPlain_def pendingFree_def)
  then have "twins block D side (ingestLogs decode F logs) (ingestLogs decode P logs)"
    unfolding ingestLogs_eq by (rule twins_fold) (use assms in auto)
  then show ?thesis unfolding twins_def pairOk_def by blast
qed

lemma dead_later: "deadLife block L lf \<Longrightarrow> block \<le> boundary \<Longrightarrow> deadLife boundary L lf"
  by (auto simp: dead_iff)

lemma dead_both:
  assumes "prunedOf block D F P" "insolvencyInv F" "insolvencyInv P"
  shows "deadLife boundary P lf = deadLife boundary F lf"
proof -
  have d: "distinct (keys (ilLives F))" "distinct (keys (ilLives P))" using assms by (simp_all add: insolvencyInv_def)
  show ?thesis
    unfolding dead_char [OF d(1)] dead_char [OF d(2)]
    using openLast_eq [OF assms(2,1)] assms(1) by (simp add: mayOverlap_last prunedOf_def)
qed

lemma pair_prune:
  assumes "pairOk block side F P" "block \<le> boundary"
  shows "pairOk boundary side F (pruneLedger boundary P)"
proof -
  obtain D where D: "prunedOf block D F P" "\<forall>lf \<in> D. cleanLife lf" using assms(1) by (auto simp: pairOk_def)
  have inv: "insolvencyInv F" "insolvencyInv P" "keyedLives side F" using assms(1) by (simp_all add: pairOk_def)
  define E where "E = {lf. deadLife boundary F lf \<and> cleanLife lf}"
  have clean: "cleanLife lf" if "lf \<in> set (livesOf F k)" for lf k
    using inv(3) that by (simp add: keyedLives_def)
  have sub: "D \<subseteq> E"
    using D dead_later [OF _ assms(2)] by (auto simp: E_def prunedOf_def)
  have "livesOf (pruneLedger boundary P) k = filter (\<lambda>lf. lf \<notin> E) (livesOf F k)" for k
  proof -
    have "livesOf (pruneLedger boundary P) k =
        filter (\<lambda>lf. \<not> deadLife boundary F lf) (filter (\<lambda>lf. lf \<notin> D) (livesOf F k))"
      using livesOf_prune [OF inv(2)] D(1) dead_both [OF D(1) inv(1,2)] by (simp add: prunedOf_def)
    also have "\<dots> = filter (\<lambda>lf. lf \<notin> E) (livesOf F k)"
      unfolding filter_filter by (rule filter_cong [OF refl]) (use clean sub in \<open>auto simp: E_def\<close>)
    finally show ?thesis .
  qed
  then have "prunedOf boundary E F (pruneLedger boundary P)"
    using D(1) by (auto simp: prunedOf_def E_def)
  then show ?thesis using inv pruneLedger_inv [OF inv(2)] by (auto simp: pairOk_def E_def)
qed

lemma pair_run:
  assumes "pairOk block side F P" "goodScript decode F block script" "plainEvents decode" "keyedEvents decode side"
  shows "pairOk (lastBoundary block script) side (sweepRun decode F script) (liveRun decode P script)"
  using assms(1,2)
proof (induction script arbitrary: block F P)
  case (Cons b script)
  obtain logs boundary where b: "b = (logs, boundary)" by (cases b)
  let ?F = "isLedger (ingestLogs decode F logs)" and ?P = "isLedger (ingestLogs decode P logs)"
  have "pairOk block side ?F ?P"
    by (rule pair_batch [OF Cons.prems(1) _ _ assms(3,4)]) (use Cons.prems(2) in \<open>auto simp: b list_all_iff\<close>)
  then have "pairOk boundary side ?F (pruneLedger boundary ?P)"
    by (rule pair_prune) (use Cons.prems(2) in \<open>simp add: b\<close>)
  then have "pairOk (lastBoundary boundary script) side (sweepRun decode ?F script)
      (liveRun decode (pruneLedger boundary ?P) script)"
    by (rule Cons.IH) (use Cons.prems(2) in \<open>simp add: b\<close>)
  then show ?case by (simp add: b sweepRun_def liveRun_def lastBoundary_def split: if_splits)
qed (simp add: sweepRun_def liveRun_def lastBoundary_def)

lemma pair_refl: "insolvencyInv L \<Longrightarrow> keyedLives side L \<Longrightarrow> pairOk block side L L"
  by (auto simp: pairOk_def prunedOf_def intro!: exI [of _ "{}"])

lemma dead_no_cover:
  assumes "deadLife block L lf" "block \<le> boundary" "cleanLife lf" "insolvencyInv L"
  shows "\<not> facesAny (hitsBy L boundary account market) account market boundary lf"
proof
  assume "facesAny (hitsBy L boundary account market) account market boundary lf"
  then obtain s where s: "s \<in> set (ilShortfalls L)" "lc (icAccount s) = account" "lc (icMarket s) = market"
    "opposes account market boundary s lf"
    by (auto simp: facesAny_def hitsBy_def list_ex_iff)
  obtain c where c: "lfClose lf = Some c" "c \<le> block" using dead_closed [OF assms(1)] by blast
  have "closedBy boundary lf = lfClose lf" using c assms(2) by (simp add: closedBy_def)
  then have "facesClose lf s"
    using s(2-4) assms(3) by (auto simp: facesClose_def opposes_def accountMarket_def cleanLife_def)
  moreover have "\<not> facesClose lf s"
    using assms(1,4) s(1) by (auto simp: dead_iff facesClose_def list_ex_iff)
  ultimately show False by simp
qed

lemma pair_charges:
  assumes "pairOk block side F P" "block \<le> boundary" "agreesAt posKey F boundary open1"
  shows "map_of (chargesAt posKey P boundary open1) = map_of (chargesAt posKey F boundary open1)"
proof -
  obtain D where D: "prunedOf block D F P" "\<forall>lf \<in> D. cleanLife lf" using assms(1) by (auto simp: pairOk_def)
  have inv: "insolvencyInv F" "insolvencyInv P" using assms(1) by (simp_all add: pairOk_def)
  have same: "ilShortfalls P = ilShortfalls F" using D(1) by (simp add: prunedOf_def)
  show ?thesis
  proof (rule charges_cong [OF inv(2,1)])
    have hits: "hitsBy P boundary account market = hitsBy F boundary account market" for account market
      by (simp add: hitsBy_def same)
    show "keyCover (openPnlMap posKey open1) P boundary account market k =
        keyCover (openPnlMap posKey open1) F boundary account market k" for account market k
    proof -
      let ?f = "facesAny (hitsBy F boundary account market) account market boundary"
      have drop: "(\<Sum>lf\<leftarrow>filter (\<lambda>lf. lf \<notin> D) ls. if ?f lf then g lf else 0) =
          (\<Sum>lf\<leftarrow>ls. if ?f lf then g lf else 0)" for ls and g :: "life \<Rightarrow> real"
      proof (induction ls)
        case (Cons lf ls)
        have "\<not> ?f lf" if "lf \<in> D"
          using dead_no_cover [OF _ assms(2) _ inv(1)] D that by (simp add: prunedOf_def)
        then show ?case using Cons by auto
      qed simp
      have "livesOf P k = filter (\<lambda>lf. lf \<notin> D) (livesOf F k)" using D(1) by (simp add: prunedOf_def)
      then show ?thesis by (simp add: keyCover_def hits drop)
    qed
    show "positionKeyOf posKey p \<in> set (keys (ilLives P)) \<longleftrightarrow>
        positionKeyOf posKey p \<in> set (keys (ilLives F))" if p: "p \<in> set open1" for p
    proof -
      let ?k = "positionKeyOf posKey p"
      have lists: "livesOf P ?k = filter (\<lambda>lf. lf \<notin> D) (livesOf F ?k)" using D(1) by (simp add: prunedOf_def)
      have "livesOf P ?k \<noteq> []" if ne: "livesOf F ?k \<noteq> []"
      proof -
        have "list_ex (\<lambda>lf. bornBy boundary lf \<and> closedBy boundary lf = None) (livesOf F ?k)"
          using assms(3) p ne unfolding agreesAt_def list_all_iff by blast
        then obtain lf where lf: "lf \<in> set (livesOf F ?k)" "closedBy boundary lf = None" by (auto simp: list_ex_iff)
        have "lf \<notin> D"
        proof
          assume "lf \<in> D"
          then obtain c where "lfClose lf = Some c" "c \<le> block" using pruned_closed [OF D(1)] by blast
          then show False using lf(2) assms(2) by (simp add: closedBy_def)
        qed
        then show ?thesis using lf(1) lists by (auto simp: filter_empty_conv)
      qed
      then show ?thesis
        using lists livesOf_present [OF inv(1), of ?k] livesOf_present [OF inv(2), of ?k] by auto
    qed
    show "distinct (map (positionKeyOf posKey) open1)" using assms(3) by (simp add: agreesAt_def)
  qed (simp add: same)
qed

end
