(* ===== verification/Gmx_Tracker.thy ===== *)
theory Gmx_Tracker
  imports Gmx_Run
begin

text \<open>
  Feeding the insolvency ledger from the chain (\<open>core/src/realtime/gmxShortfall.ts\<close>): logs are read
  in chunks, and the two halves of an insolvent close are matched within a chunk, so nothing is
  lost at the chunk ends because the halves are in one transaction. The reads are the parameter
  \<open>read\<close>.
\<close>

section \<open>The tracker\<close>

record 'raw rpcLog =
  rpRaw :: 'raw
  rpBlock :: "int option"
  rpIndex :: "int option"
  rpTx :: "string option"
  rpRemoved :: bool

definition GMX_LOG_CHUNK_BLOCKS :: int where "GMX_LOG_CHUNK_BLOCKS = 2000"

record shortfallTracker =
  gtLedger :: insolvencyLedger
  gtScannedThrough :: int

definition newShortfallTracker :: "int \<Rightarrow> string list \<Rightarrow> shortfallTracker" where
  "newShortfallTracker fromBlock accounts =
    \<lparr>gtLedger = newInsolvency (Some (remdups (map lc accounts))), gtScannedThrough = fromBlock - 1\<rparr>"

definition shortfallTrack :: "string \<Rightarrow> shortfallTracker \<Rightarrow> shortfallTracker" where
  "shortfallTrack account T = T\<lparr>gtLedger := trackAlso account (gtLedger T)\<rparr>"

definition parsedLogs :: "'raw rpcLog list \<Rightarrow> 'raw ledgerLog list" where
  "parsedLogs logs = map (\<lambda>g. \<lparr>glRaw = rpRaw g, glBlock = rpBlock g, glIndex = rpIndex g, glTx = rpTx g\<rparr>)
    (filter (\<lambda>g. \<not> rpRemoved g) logs)"

text \<open>The closes the callback is told of come back beside the tracker, and the error that ended it.\<close>

function syncShortfalls :: "('raw \<Rightarrow> gmxEvent option) \<Rightarrow> (int \<Rightarrow> int \<Rightarrow> 'e + 'raw rpcLog list) \<Rightarrow> int
    \<Rightarrow> shortfallTracker \<Rightarrow> insolventClose list \<Rightarrow> shortfallTracker \<times> insolventClose list \<times> 'e option" where
  "syncShortfalls decode read block T told =
    (if gtScannedThrough T < block
     then (let first = gtScannedThrough T + 1; last = min block (first + GMX_LOG_CHUNK_BLOCKS - 1) in
       case read first last of
         Inl e \<Rightarrow> (T, told, Some e)
       | Inr logs \<Rightarrow> (let S = ingestLogs decode (gtLedger T) (parsedLogs logs) in
           syncShortfalls decode read block \<lparr>gtLedger = isLedger S, gtScannedThrough = last\<rparr> (told @ isOut S)))
     else (T, told, None))"
  by pat_completeness auto
termination
  by (relation "measure (\<lambda>(decode, read, block, T, told). nat (block - gtScannedThrough T))")
    (auto simp: GMX_LOG_CHUNK_BLOCKS_def)

definition startAfter :: "int \<Rightarrow> shortfallTracker \<Rightarrow> shortfallTracker" where
  "startAfter block T = T\<lparr>gtScannedThrough := max (gtScannedThrough T) block\<rparr>"

definition shortfallSnapshot :: "shortfallTracker \<Rightarrow> int \<times> insolvencyState" where
  "shortfallSnapshot T = (gtScannedThrough T, insolvencySnapshot (gtLedger T))"

definition shortfallRestore :: "int \<times> insolvencyState \<Rightarrow> shortfallTracker \<Rightarrow> shortfallTracker" where
  "shortfallRestore st T = \<lparr>gtLedger = insolvencyRestore (snd st) (gtLedger T), gtScannedThrough = fst st\<rparr>"

declare syncShortfalls.simps [simp del]

section \<open>Matching within a transaction\<close>

definition txOf :: "'raw ledgerLog \<Rightarrow> string" where
  "txOf g = (case glTx g of None \<Rightarrow> ''0x'' | Some t \<Rightarrow> t)"

text \<open>Two states that agree for the transactions still to come.\<close>

definition agreeFor :: "string set \<Rightarrow> insolventClose list \<Rightarrow> ingestState \<Rightarrow> ingestState \<Rightarrow> bool" where
  "agreeFor txs told S T \<longleftrightarrow> isLedger S = isLedger T \<and> isOut S = told @ isOut T \<and>
    (\<forall>tx \<in> txs. \<forall>order. map_of (isInsolvent S) (tx @ ''|'' @ order) = map_of (isInsolvent T) (tx @ ''|'' @ order) \<and>
      map_of (isDecrease S) (tx @ ''|'' @ order) = map_of (isDecrease T) (tx @ ''|'' @ order))"

lemma agree_step:
  assumes "agreeFor txs told S T" "tx \<in> txs"
  shows "agreeFor txs told (ingestEvent S e b tx) (ingestEvent T e b tx)"
proof -
  define key where "key = tx @ ''|'' @ geOrderKey e"
  have same: "isLedger T = isLedger S" "isOut S = told @ isOut T"
    "map_of (isInsolvent T) key = map_of (isInsolvent S) key"
    "map_of (isDecrease T) key = map_of (isDecrease S) key"
    using assms by (simp_all add: agreeFor_def key_def)
  have later: "map_of (isInsolvent S) (tx' @ ''|'' @ order) = map_of (isInsolvent T) (tx' @ ''|'' @ order)"
    "map_of (isDecrease S) (tx' @ ''|'' @ order) = map_of (isDecrease T) (tx' @ ''|'' @ order)"
    if "tx' \<in> txs" for tx' order
    using assms(1) that by (simp_all add: agreeFor_def)
  have look: "agreeFor txs told S' T'"
    if "isLedger S' = isLedger T'" "isOut S' = told @ isOut T'"
      "\<And>k. map_of (isInsolvent S) k = map_of (isInsolvent T) k \<Longrightarrow>
        map_of (isInsolvent S') k = map_of (isInsolvent T') k"
      "\<And>k. map_of (isDecrease S) k = map_of (isDecrease T) k \<Longrightarrow>
        map_of (isDecrease S') k = map_of (isDecrease T') k" for S' T'
    unfolding agreeFor_def using that later by blast
  note ev = ingestEvent_def [of _ e b tx, folded key_def] 
  show ?thesis
  proof (cases "geName e = ''PositionIncrease''")
    case True
    then show ?thesis by (intro look) (simp_all add: ingestEvent_def same)
  next
    case inc: False
    show ?thesis
    proof (cases "geName e = ''PositionDecrease''")
      case True
      then show ?thesis
        by (intro look) (simp_all add: ev Let_def same split_def delete_conv' pushRecord_def
            split: option.splits)
    next
      case dec: False
      show ?thesis
      proof (cases "geName e = ''InsolventClose''")
        case True
        then show ?thesis
          by (intro look) (simp_all add: ev Let_def same split_def delete_conv' pushRecord_def
              split: option.splits)
      next
        case False
        then show ?thesis using inc dec by (intro look) (simp_all add: ingestEvent_def same)
      qed
    qed
  qed
qed

lemma agree_fold:
  assumes "agreeFor txs told S T" "txOf ` set gs \<subseteq> txs"
  shows "agreeFor txs told (foldl (ingestLog decode) S gs) (foldl (ingestLog decode) T gs)"
  using assms
proof (induction gs arbitrary: S T)
  case (Cons g gs)
  have "agreeFor txs told (ingestLog decode S g) (ingestLog decode T g)"
    using agree_step [OF Cons.prems(1), of "txOf g"] Cons.prems
    by (simp add: ingestLog_def txOf_def split: option.splits)
  then show ?case using Cons by simp
qed simp

text \<open>What is pending is of transactions already read.\<close>

definition pendingFrom :: "string set \<Rightarrow> ingestState \<Rightarrow> bool" where
  "pendingFrom txs S \<longleftrightarrow> set (keys (isInsolvent S)) \<union> set (keys (isDecrease S)) \<subseteq>
    {tx @ ''|'' @ order | tx order. tx \<in> txs}"

lemma keys_step:
  assumes "m' = m \<or> m' = AList.delete k m \<or> (\<exists>v. m' = AList.update k v m)"
  shows "set (keys m') \<subseteq> insert k (set (keys m))"
  using assms by (auto simp: AList.delete_keys keys_upd simp del: set_map split: if_splits)

lemma pending_step:
  assumes "pendingFrom txs S" "tx \<in> txs"
  shows "pendingFrom txs (ingestEvent S e b tx)"
proof -
  let ?k = "tx @ ''|'' @ geOrderKey e" and ?S = "ingestEvent S e b tx"
  have "isInsolvent ?S = isInsolvent S \<or> isInsolvent ?S = AList.delete ?k (isInsolvent S) \<or>
      (\<exists>v. isInsolvent ?S = AList.update ?k v (isInsolvent S))"
    unfolding ingestEvent_def Let_def by (simp add: split_def split: option.splits) blast
  then have "set (keys (isInsolvent ?S)) \<subseteq> insert ?k (set (keys (isInsolvent S)))" by (rule keys_step)
  moreover have "isDecrease ?S = isDecrease S \<or> isDecrease ?S = AList.delete ?k (isDecrease S) \<or>
      (\<exists>v. isDecrease ?S = AList.update ?k v (isDecrease S))"
    unfolding ingestEvent_def Let_def by (simp add: split_def split: option.splits) blast
  then have "set (keys (isDecrease ?S)) \<subseteq> insert ?k (set (keys (isDecrease S)))" by (rule keys_step)
  ultimately show ?thesis using assms unfolding pendingFrom_def by blast
qed

lemma pending_fold:
  assumes "pendingFrom txs S" "txOf ` set gs \<subseteq> txs"
  shows "pendingFrom txs (foldl (ingestLog decode) S gs)"
  using assms
proof (induction gs arbitrary: S)
  case (Cons g gs)
  have "pendingFrom txs (ingestLog decode S g)"
    using pending_step [OF Cons.prems(1), of "txOf g"] Cons.prems
    by (simp add: ingestLog_def txOf_def split: option.splits)
  then show ?case using Cons by simp
qed simp

lemma key_tx:
  assumes "tx @ ''|'' @ order = tx' @ ''|'' @ order'" "plain tx" "plain tx'"
  shows "tx = tx'"
proof -
  have "splitOn CHR ''|'' (tx @ ''|'' @ order) ! 0 = tx" if "plain tx" for tx order
    using splitOn_append [of "CHR ''|''" tx order] that by (simp add: plain_def)
  then show ?thesis using assms by metis
qed

lemma agree_start:
  assumes "pendingFrom txs S" "txs \<inter> txs' = {}" "\<forall>tx \<in> txs \<union> txs'. plain tx"
  shows "agreeFor txs' (isOut S) S (startState (isLedger S))"
proof -
  have "tx @ ''|'' @ order \<notin> set (keys (isInsolvent S)) \<union> set (keys (isDecrease S))" if tx: "tx \<in> txs'" for tx order
  proof
    assume "tx @ ''|'' @ order \<in> set (keys (isInsolvent S)) \<union> set (keys (isDecrease S))"
    then obtain tx' order' where "tx' \<in> txs" "tx @ ''|'' @ order = tx' @ ''|'' @ order'"
      using assms(1) unfolding pendingFrom_def by blast
    then show False using key_tx assms(2,3) tx by blast
  qed
  then have "map_of (isInsolvent S) (tx @ ''|'' @ order) = None \<and> map_of (isDecrease S) (tx @ ''|'' @ order) = None"
    if "tx \<in> txs'" for tx order
    using that by (simp add: map_of_eq_None_iff)
  then show ?thesis by (simp add: agreeFor_def startState_def)
qed

text \<open>One batch or two, when no transaction is in both.\<close>

lemma ingest_split:
  fixes decode and L
  assumes "chainOrder logs = chainOrder xs @ chainOrder ys"
    and "txOf ` set xs \<inter> txOf ` set ys = {}" "\<forall>tx \<in> txOf ` (set xs \<union> set ys). plain tx"
  defines "A \<equiv> ingestLogs decode L xs"
  shows "isLedger (ingestLogs decode L logs) = isLedger (ingestLogs decode (isLedger A) ys)"
    and "isOut (ingestLogs decode L logs) = isOut A @ isOut (ingestLogs decode (isLedger A) ys)"
proof -
  have "pendingFrom (txOf ` set xs) (startState L)" by (simp add: pendingFrom_def startState_def)
  then have "pendingFrom (txOf ` set xs) A"
    unfolding A_def ingestLogs_eq by (rule pending_fold) simp
  then have "agreeFor (txOf ` set ys) (isOut A) A (startState (isLedger A))"
    by (rule agree_start) (use assms(2,3) in auto)
  then have "agreeFor (txOf ` set ys) (isOut A) (foldl (ingestLog decode) A (chainOrder ys))
      (foldl (ingestLog decode) (startState (isLedger A)) (chainOrder ys))"
    by (rule agree_fold) simp
  moreover have "ingestLogs decode L logs = foldl (ingestLog decode) A (chainOrder ys)"
    by (simp add: ingestLogs_eq assms(1) A_def)
  ultimately show "isLedger (ingestLogs decode L logs) = isLedger (ingestLogs decode (isLedger A) ys)"
    and "isOut (ingestLogs decode L logs) = isOut A @ isOut (ingestLogs decode (isLedger A) ys)"
    by (simp_all add: agreeFor_def ingestLogs_eq)
qed

section \<open>Chunks\<close>

definition rpBlockOf :: "'raw rpcLog \<Rightarrow> int" where
  "rpBlockOf g = orZero (rpBlock g)"

definition readsLogs :: "(int \<Rightarrow> int \<Rightarrow> 'e + 'raw rpcLog list) \<Rightarrow> 'raw rpcLog list \<Rightarrow> bool" where
  "readsLogs read chain \<longleftrightarrow> (\<forall>a b. a \<le> b \<longrightarrow>
    read a b = Inr (filter (\<lambda>g. a \<le> rpBlockOf g \<and> rpBlockOf g \<le> b) chain))"

text \<open>A transaction is in one block, and its hash is hexadecimal.\<close>

definition minedOnce :: "'raw rpcLog list \<Rightarrow> bool" where
  "minedOnce chain \<longleftrightarrow> list_all (\<lambda>g. plain (txOf g) \<and>
    list_all (\<lambda>h. txOf g = txOf h \<longrightarrow> blockOf g = blockOf h) (parsedLogs chain)) (parsedLogs chain)"

abbreviation logsIn :: "int \<Rightarrow> int \<Rightarrow> 'raw ledgerLog list \<Rightarrow> 'raw ledgerLog list" where
  "logsIn a b logs \<equiv> filter (\<lambda>g. a < blockOf g \<and> blockOf g \<le> b) logs"

lemma parsed_filter: "parsedLogs (filter (\<lambda>g. a \<le> rpBlockOf g \<and> rpBlockOf g \<le> b) chain) =
    filter (\<lambda>g. a \<le> blockOf g \<and> blockOf g \<le> b) (parsedLogs chain)"
  by (induction chain) (auto simp: parsedLogs_def rpBlockOf_def blockOf_def)

lemma chainOrder_split:
  assumes "a \<le> b" "b \<le> c"
  shows "chainOrder (logsIn a c logs) = chainOrder (logsIn a b logs) @ chainOrder (logsIn b c logs)"
proof -
  let ?f = "\<lambda>g. (blockOf g, orZero (glIndex g))"
  have split: "logsIn a c gs = logsIn a b gs @ logsIn b c gs" if "sorted (map ?f gs)" for gs :: "'a ledgerLog list"
    using that
  proof (induction gs)
    case (Cons g gs)
    have "logsIn a b gs = []" if "b < blockOf g"
      using that Cons.prems by (auto simp: filter_empty_conv less_eq_prod_def)
    with Cons assms show ?case by auto
  qed simp
  show ?thesis
    using split [OF sorted_sort_key, of logs] by (simp add: chainOrder_def filter_sort)
qed

lemma ranges_ingested:
  fixes decode and L
  assumes "minedOnce chain" "a \<le> b" "b \<le> c"
  defines "A \<equiv> ingestLogs decode L (logsIn a b (parsedLogs chain))"
  shows "isLedger (ingestLogs decode L (logsIn a c (parsedLogs chain))) =
      isLedger (ingestLogs decode (isLedger A) (logsIn b c (parsedLogs chain))) \<and>
    isOut (ingestLogs decode L (logsIn a c (parsedLogs chain))) =
      isOut A @ isOut (ingestLogs decode (isLedger A) (logsIn b c (parsedLogs chain)))"
proof -
  have once: "blockOf g = blockOf h"
    if "g \<in> set (parsedLogs chain)" "h \<in> set (parsedLogs chain)" "txOf g = txOf h" for g h
    using assms(1) that unfolding minedOnce_def list_all_iff by blast
  have "txOf ` set (logsIn a b (parsedLogs chain)) \<inter> txOf ` set (logsIn b c (parsedLogs chain)) = {}"
  proof (rule equals0I)
    fix tx assume "tx \<in> txOf ` set (logsIn a b (parsedLogs chain)) \<inter> txOf ` set (logsIn b c (parsedLogs chain))"
    then obtain g h where g: "g \<in> set (logsIn a b (parsedLogs chain))"
      and h: "h \<in> set (logsIn b c (parsedLogs chain))" and t: "txOf g = txOf h" by blast
    have "blockOf g = blockOf h" by (rule once [OF _ _ t]) (use g h in simp_all)
    with g h show False by simp
  qed
  moreover have "\<forall>tx \<in> txOf ` (set (logsIn a b (parsedLogs chain)) \<union> set (logsIn b c (parsedLogs chain))). plain tx"
  proof -
    have "plain (txOf g)" if "g \<in> set (parsedLogs chain)" for g
      using assms(1) that unfolding minedOnce_def list_all_iff by blast
    then show ?thesis by auto
  qed
  ultimately show ?thesis
    unfolding A_def by (intro conjI ingest_split [OF chainOrder_split [OF assms(2,3)]])
qed

text \<open>The loop, whatever its chunks, ingests the range once.\<close>

lemma sync_reads:
  fixes decode
  assumes "readsLogs read chain" "minedOnce chain" "gtScannedThrough T \<le> b"
  defines "S \<equiv> ingestLogs decode (gtLedger T) (logsIn (gtScannedThrough T) b (parsedLogs chain))"
  shows "syncShortfalls decode read b T told =
    (\<lparr>gtLedger = isLedger S, gtScannedThrough = b\<rparr>, told @ isOut S, None)"
  using assms(3) unfolding S_def
proof (induction "nat (b - gtScannedThrough T)" arbitrary: T told rule: less_induct)
  case less
  let ?logs = "parsedLogs chain" and ?s = "gtScannedThrough T"
  show ?case
  proof (cases "?s < b")
    case False
    with less.prems have "?s = b" by simp
    then show ?thesis
      by (simp add: syncShortfalls.simps [of decode read b T] ingestLogs_def)
  next
    case True
    define c where "c = min b (?s + 1 + GMX_LOG_CHUNK_BLOCKS - 1)"
    have c: "?s < c" "c \<le> b" using True by (auto simp: c_def GMX_LOG_CHUNK_BLOCKS_def)
    define A where "A = ingestLogs decode (gtLedger T) (logsIn ?s c ?logs)"
    have "parsedLogs (filter (\<lambda>g. ?s + 1 \<le> rpBlockOf g \<and> rpBlockOf g \<le> c) chain) = logsIn ?s c ?logs"
      using parsed_filter [of "?s + 1" c chain] by (simp add: add1_zle_eq)
    moreover have "read (?s + 1) c = Inr (filter (\<lambda>g. ?s + 1 \<le> rpBlockOf g \<and> rpBlockOf g \<le> c) chain)"
      using assms(1) c by (simp add: readsLogs_def)
    ultimately have "syncShortfalls decode read b T told =
        syncShortfalls decode read b \<lparr>gtLedger = isLedger A, gtScannedThrough = c\<rparr> (told @ isOut A)"
      using True by (simp add: syncShortfalls.simps [of decode read b T] Let_def c_def A_def)
    also have "\<dots> = (\<lparr>gtLedger = isLedger (ingestLogs decode (isLedger A) (logsIn c b ?logs)),
          gtScannedThrough = b\<rparr>, (told @ isOut A) @ isOut (ingestLogs decode (isLedger A) (logsIn c b ?logs)), None)"
      using less.hyps [of "\<lparr>gtLedger = isLedger A, gtScannedThrough = c\<rparr>" "told @ isOut A"] c by simp
    finally show ?thesis
      using ranges_ingested [OF assms(2), of ?s c b decode "gtLedger T"] c by (simp add: A_def)
  qed
qed

definition syncAll :: "('raw \<Rightarrow> gmxEvent option) \<Rightarrow> (int \<Rightarrow> int \<Rightarrow> 'e + 'raw rpcLog list)
    \<Rightarrow> shortfallTracker \<times> insolventClose list \<Rightarrow> int list \<Rightarrow> shortfallTracker \<times> insolventClose list" where
  "syncAll decode read = foldl (\<lambda>(T, told) b.
     let (T', told', err) = syncShortfalls decode read b T told in (T', told'))"

text \<open>
  C37. Syncing at every block or once at the end gives the same ledger and tells of the same closes
  in the same order, wherever the chunks end.
\<close>

theorem shortfalls_synced_once:
  assumes "readsLogs read chain" "minedOnce chain" "sorted (gtScannedThrough T # bs)" "bs \<noteq> []"
  shows "syncAll decode read (T, told) bs =
    (fst (syncShortfalls decode read (last bs) T told), fst (snd (syncShortfalls decode read (last bs) T told)))"
  using assms(3,4)
proof (induction bs arbitrary: T told)
  case (Cons b bs)
  let ?logs = "parsedLogs chain" and ?s = "gtScannedThrough T"
  have sb: "?s \<le> b" using Cons.prems by simp
  define A where "A = ingestLogs decode (gtLedger T) (logsIn ?s b ?logs)"
  let ?T = "\<lparr>gtLedger = isLedger A, gtScannedThrough = b\<rparr>"
  have one: "syncShortfalls decode read b T told = (?T, told @ isOut A, None)"
    unfolding A_def by (rule sync_reads [OF assms(1,2) sb])
  show ?case
  proof (cases "bs = []")
    case True
    then show ?thesis using one by (simp add: syncAll_def)
  next
    case False
    have le: "b \<le> last bs" using Cons.prems False by simp
    have "syncAll decode read (T, told) (b # bs) = syncAll decode read (?T, told @ isOut A) bs"
      using one by (simp add: syncAll_def)
    also have "\<dots> = (fst (syncShortfalls decode read (last bs) ?T (told @ isOut A)),
        fst (snd (syncShortfalls decode read (last bs) ?T (told @ isOut A))))"
      by (rule Cons.IH) (use Cons.prems False in auto)
    also have "\<dots> = (fst (syncShortfalls decode read (last bs) T told),
        fst (snd (syncShortfalls decode read (last bs) T told)))"
      using sync_reads [OF assms(1,2), of ?T "last bs" decode "told @ isOut A"]
        sync_reads [OF assms(1,2), of T "last bs" decode told] sb le
        ranges_ingested [OF assms(2) sb le, of decode "gtLedger T"]
      by (simp add: A_def)
    finally show ?thesis using False by simp
  qed
qed simp

end
