(* ===== verification/Gmx_Charges.thy ===== *)
theory Gmx_Charges
  imports Gmx_Pruned Gmx_Tracker
begin

text \<open>
  What the insolvency ledger promises (\<open>sdk/src/protocols/gmxInsolvency.ts\<close>): the charge follows its
  rule and its limits, the two readers of a boundary charge alike, a checkpoint loses nothing; and
  the runs in which the readers do not agree.
\<close>

lemma sweepRun_inv:
  assumes "plainEvents decode" "insolvencyInv L"
  shows "insolvencyInv (sweepRun decode L script)"
  using assms(2)
proof (induction script arbitrary: L)
  case (Cons b script)
  then show ?case
    using ingestLogs_inv [OF assms(1)] by (cases b) (simp add: sweepRun_def)
qed (simp add: sweepRun_def)

lemma liveRun_inv:
  assumes "plainEvents decode" "insolvencyInv L"
  shows "insolvencyInv (liveRun decode L script)"
  using assms(2)
proof (induction script arbitrary: L)
  case (Cons b script)
  then show ?case
    using ingestLogs_inv [OF assms(1)] pruneLedger_inv by (cases b) (simp add: liveRun_def)
qed (simp add: liveRun_def)

section \<open>The charge against its rule\<close>

text \<open>
  The rule as the head of the file states it, in its own terms. The liquidations of an account in a
  market that a boundary has reached; when a leg hedged one: the account's, in its market, on the other
  side, opened no later than the liquidation and not closed (by the boundary) before the liquidated
  position had opened, an unknown opening being before every block; and what a leg is worth.
\<close>

definition dueCloses :: "insolvencyLedger \<Rightarrow> int \<Rightarrow> string \<Rightarrow> string \<Rightarrow> insolventClose list" where
  "dueCloses L block account market =
    filter (\<lambda>s. icBlock s \<le> block \<and> lc (icAccount s) = account \<and> lc (icMarket s) = market) (ilShortfalls L)"

definition hedged :: "int \<Rightarrow> insolventClose \<Rightarrow> life \<Rightarrow> bool" where
  "hedged block s lf \<longleftrightarrow> lfAccount lf = lc (icAccount s) \<and> lfMarket lf = lc (icMarket s) \<and>
    lfIsLong lf = (\<not> icIsLong s) \<and>
    (case lfOpen lf of None \<Rightarrow> True | Some opened \<Rightarrow> opened \<le> icBlock s) \<and>
    (case (lfClose lf, icOpenedAt s) of (Some shut, Some opened) \<Rightarrow> opened \<le> shut \<or> block < shut | _ \<Rightarrow> True)"

definition unrealised ::
  "(string \<Rightarrow> string \<Rightarrow> string \<Rightarrow> bool \<Rightarrow> string) \<Rightarrow> openPosition list \<Rightarrow> string \<Rightarrow> real" where
  "unrealised posKey open1 k = (\<Sum>p\<leftarrow>open1. if positionKeyOf posKey p = k then opBasePnlUsd p else 0)"

definition legWorth ::
  "(string \<Rightarrow> string \<Rightarrow> string \<Rightarrow> bool \<Rightarrow> string) \<Rightarrow> openPosition list \<Rightarrow> int \<Rightarrow> string \<Rightarrow> life \<Rightarrow> real" where
  "legWorth posKey open1 block k lf =
    (\<Sum>(b, usd)\<leftarrow>lfRealised lf. if b \<le> block then usd else 0) +
    (case lfClose lf of None \<Rightarrow> unrealised posKey open1 k
     | Some shut \<Rightarrow> if block < shut then unrealised posKey open1 k else 0)"

definition hedgeWorth ::
  "(string \<Rightarrow> string \<Rightarrow> string \<Rightarrow> bool \<Rightarrow> string) \<Rightarrow> insolvencyLedger \<Rightarrow> int \<Rightarrow> openPosition list
    \<Rightarrow> string \<Rightarrow> string \<Rightarrow> real" where
  "hedgeWorth posKey L block open1 account market =
    (\<Sum>(k, ls)\<leftarrow>ilLives L. \<Sum>lf\<leftarrow>ls.
      if list_ex (\<lambda>s. hedged block s lf) (dueCloses L block account market)
      then legWorth posKey open1 block k lf else 0) +
    (\<Sum>p\<leftarrow>open1. if lc (opAccount p) = account \<and> lc (opMarket p) = market \<and>
        positionKeyOf posKey p \<notin> fst ` set (ilLives L) \<and>
        list_ex (\<lambda>s. opIsLong p = (\<not> icIsLong s)) (dueCloses L block account market)
      then opBasePnlUsd p else 0)"

lemma dueCloses_hits: "dueCloses = hitsBy"
  by (simp add: fun_eq_iff dueCloses_def hitsBy_def)

lemma hedged_opposes:
  assumes "s \<in> set (hitsBy L block account market)"
  shows "opposes account market block s lf \<longleftrightarrow> hedged block s lf"
proof -
  have s: "icBlock s \<le> block" "lc (icAccount s) = account" "lc (icMarket s) = market"
    using assms by (auto simp: hitsBy_def)
  then show ?thesis
    by (auto simp: opposes_def hedged_def overlaps_def closedBy_def split: option.splits)
qed

lemma facesAny_hedged:
  "facesAny (hitsBy L block account market) account market block lf \<longleftrightarrow>
    list_ex (\<lambda>s. hedged block s lf) (hitsBy L block account market)"
  unfolding facesAny_def list_ex_iff using hedged_opposes by blast

lemma openPnlMap_snoc:
  "openPnlMap posKey (ps @ [p]) = AList.update (positionKeyOf posKey p) (opBasePnlUsd p) (openPnlMap posKey ps)"
  by (simp add: openPnlMap_def)

lemma unrealised_absent: "k \<notin> positionKeyOf posKey ` set ps \<Longrightarrow> unrealised posKey ps k = 0"
  unfolding unrealised_def by (induction ps) auto

lemma openPnl_unrealised:
  assumes "distinct (map (positionKeyOf posKey) open1)"
  shows "getOr 0 (openPnlMap posKey open1) k = unrealised posKey open1 k"
  using assms
proof (induction open1 rule: rev_induct)
  case Nil
  then show ?case by (simp add: openPnlMap_def unrealised_def getOr_def)
next
  case (snoc p ps)
  have step: "unrealised posKey (ps @ [p]) k =
      unrealised posKey ps k + (if positionKeyOf posKey p = k then opBasePnlUsd p else 0)"
    by (simp add: unrealised_def)
  show ?case
  proof (cases "positionKeyOf posKey p = k")
    case True
    then have "unrealised posKey ps k = 0" using snoc.prems by (intro unrealised_absent) auto
    with True step show ?thesis by (simp add: openPnlMap_snoc getOr_def update_conv')
  next
    case False
    then have "getOr 0 (openPnlMap posKey (ps @ [p])) k = getOr 0 (openPnlMap posKey ps) k"
      by (simp add: openPnlMap_snoc getOr_def update_conv')
    with False step snoc show ?thesis by simp
  qed
qed

lemma lifeWorth_leg:
  assumes "distinct (map (positionKeyOf posKey) open1)"
  shows "lifeWorth (openPnlMap posKey open1) block = legWorth posKey open1 block"
  using openPnl_unrealised [OF assms]
  by (simp add: fun_eq_iff lifeWorth_def legWorth_def closedBy_def not_less split: option.split)

lemma coverOf_hedgeWorth:
  assumes "distinct (map (positionKeyOf posKey) open1)"
  shows "coverOf posKey L block open1 account market = hedgeWorth posKey L block open1 account market"
proof -
  have "unseenOpposite posKey L (hitsBy L block account market) account market p \<longleftrightarrow>
      lc (opAccount p) = account \<and> lc (opMarket p) = market \<and> positionKeyOf posKey p \<notin> fst ` set (ilLives L) \<and>
      list_ex (\<lambda>s. opIsLong p = (\<not> icIsLong s)) (hitsBy L block account market)" for p
    by (auto simp: unseenOpposite_def list_ex_iff)
  then show ?thesis
    by (simp add: coverOf_def hedgeWorth_def facesAny_hedged dueCloses_hits lifeWorth_leg [OF assms] Let_def
        cong: if_cong)
qed

text \<open>
  C35. The charge of every account at every boundary is the rule's, for the ledger it is asked of,
  the sweep's or the live one: nothing for an account with no liquidation by then; else, for each market
  it was liquidated in, the reported shortfalls up to the worth (never below zero) of its legs on the
  other side whose life met a liquidated position's, each leg once, and of its open positions on
  the other side that the ledger saw no event of, summed over the markets. The legs are those the
  ledger holds: the live ledger has dropped what it pruned, and C36 says when that makes no difference
  (\<open>early_prune_forgives\<close> below is a run where it does). The exchange's addresses hold no bar, and no two
  of the open positions read at the boundary have one key.
\<close>

theorem charges_follow_rule:
  assumes "plainEvents decode" "distinct (map (positionKeyOf posKey) open1)"
    and "L \<in> {liveRun decode (newInsolvency accounts) script, sweepRun decode (newInsolvency accounts) script}"
  shows "map_of (chargesAt posKey L block open1) a = (let
      markets = (lc \<circ> icMarket) ` {s \<in> set (ilShortfalls L). icBlock s \<le> block \<and> lc (icAccount s) = a};
      S = (\<lambda>m. \<Sum>s\<leftarrow>dueCloses L block a m. icShortfallUsd s);
      W = (\<lambda>m. max 0 (hedgeWorth posKey L block open1 a m))
    in if markets = {} then None
       else Some \<lparr>scChargedUsd = (\<Sum>m\<in>markets. min (S m) (W m)), scShortfallUsd = (\<Sum>m\<in>markets. S m),
          scCoverUsd = (\<Sum>m\<in>markets. W m)\<rparr>)"
proof -
  have "insolvencyInv L"
    using assms(3) liveRun_inv [OF assms(1) newInsolvency_inv] sweepRun_inv [OF assms(1) newInsolvency_inv] by auto
  from chargesAt_rule [OF this assms(2)] show ?thesis
    by (simp add: chargeRule_def shortfallOf_def marketsHit_def dueCloses_hits coverOf_hedgeWorth [OF assms(2)] Let_def)
qed

definition oneSided ::
  "insolvencyLedger \<Rightarrow> int \<Rightarrow> openPosition list \<Rightarrow> string \<Rightarrow> bool" where
  "oneSided L block open1 account \<longleftrightarrow> list_all (\<lambda>s. icBlock s \<le> block \<and> lc (icAccount s) = account \<longrightarrow>
     list_all (\<lambda>(k, ls). list_all (\<lambda>lf. lfAccount lf = account \<and> lfMarket lf = lc (icMarket s) \<longrightarrow>
       lfIsLong lf = icIsLong s) ls) (ilLives L) \<and>
     list_all (\<lambda>p. lc (opAccount p) = account \<and> lc (opMarket p) = lc (icMarket s) \<longrightarrow>
       opIsLong p = icIsLong s) open1) (ilShortfalls L)"

lemma sum_list_zero: "(\<And>x. x \<in> set xs \<Longrightarrow> f x = (0 :: real)) \<Longrightarrow> (\<Sum>x\<leftarrow>xs. f x) = 0"
  by (induction xs) auto

lemma oneSided_cover:
  assumes "oneSided L block open1 account"
  shows "coverOf posKey L block open1 account market = 0"
proof -
  let ?hits = "hitsBy L block account market"
  have lives: "\<not> facesAny ?hits account market block lf" if "(k, ls) \<in> set (ilLives L)" "lf \<in> set ls" for k ls lf
    using assms that by (fastforce simp: facesAny_def hitsBy_def opposes_def oneSided_def list_all_iff list_ex_iff)
  have opens: "\<not> unseenOpposite posKey L ?hits account market p" if "p \<in> set open1" for p
    using assms that by (fastforce simp: unseenOpposite_def hitsBy_def oneSided_def list_all_iff list_ex_iff)
  have "(\<Sum>(k, ls)\<leftarrow>ilLives L. \<Sum>lf\<leftarrow>ls. if facesAny ?hits account market block lf
      then lifeWorth (openPnlMap posKey open1) block k lf else 0) = 0"
    by (rule sum_list_zero) (use lives in \<open>auto intro!: sum_list_zero\<close>)
  moreover have "(\<Sum>p\<leftarrow>open1. if unseenOpposite posKey L ?hits account market p then opBasePnlUsd p else 0) = 0"
    by (rule sum_list_zero) (use opens in auto)
  ultimately show ?thesis unfolding coverOf_def Let_def by simp
qed

text \<open>
  C38. A charge is never more than the shortfalls nor than the cover they are met from, and an
  account whose positions in the markets it was liquidated in were all on the liquidated side
  pays nothing.
\<close>

theorem charge_limits:
  assumes "plainEvents decode" "distinct (map (positionKeyOf posKey) open1)"
    and "L = liveRun decode (newInsolvency accounts) script"
    and "map_of (chargesAt posKey L block open1) a = Some c"
  shows "scChargedUsd c \<le> scShortfallUsd c \<and> scChargedUsd c \<le> scCoverUsd c \<and> 0 \<le> scCoverUsd c \<and>
    (oneSided L block open1 a \<longrightarrow> scChargedUsd c \<le> 0 \<and> scCoverUsd c = 0)"
proof -
  have inv: "insolvencyInv L" using liveRun_inv [OF assms(1) newInsolvency_inv] assms(3) by simp
  have c: "c = chargeRule posKey L block open1 a"
    using chargesAt_rule [OF inv assms(2), of block a] assms(4) by (simp split: if_splits)
  let ?S = "shortfallOf L block a" and ?W = "\<lambda>m. max 0 (coverOf posKey L block open1 a m)"
  have "(\<Sum>m\<in>marketsHit L block a. min (?S m) (?W m)) \<le> (\<Sum>m\<in>marketsHit L block a. ?S m)"
    "(\<Sum>m\<in>marketsHit L block a. min (?S m) (?W m)) \<le> (\<Sum>m\<in>marketsHit L block a. ?W m)"
    "0 \<le> (\<Sum>m\<in>marketsHit L block a. ?W m)"
    by (auto intro: sum_mono sum_nonneg)
  moreover have "(\<Sum>m\<in>marketsHit L block a. ?W m) = 0" if "oneSided L block open1 a"
    using oneSided_cover [OF that] by simp
  ultimately show ?thesis by (auto simp: c chargeRule_def Let_def)
qed

text \<open>
  C36. The live ledger, pruned at every boundary and already past this one, charges what the
  sweep's does, which was never pruned and has read no further. It is so for a run both read from the
  start, from an empty ledger, in batches of blocks past the boundary before (\<open>goodScript\<close>): every
  position is seen opening, none is found already open by its first event (\<open>opensSeen\<close>), also by what
  the live ledger read ahead; the events of a position key are of one account, market and side
  (\<open>keyedEvents\<close>); and an open position read at the boundary has a key of its own and is open there by the
  ledger too, or unknown to it (\<open>agreesAt\<close>). Without those it fails: \<open>early_prune_forgives\<close> below is a run
  whose ledger starts after a position was opened, where live and sweep charge differently.
\<close>

theorem live_and_sweep_charge_alike:
  assumes "plainEvents decode" "keyedEvents decode side"
    and "goodScript decode (newInsolvency accounts) start script"
    and "swept = sweepRun decode (newInsolvency accounts) script"
    and "live = isLedger (ingestLogs decode (liveRun decode (newInsolvency accounts) script) ahead)"
    and "lastBoundary start script \<le> block" "list_all (\<lambda>g. block < blockOf g) ahead"
    and "opensSeen decode (startState swept) (chainOrder ahead)"
    and "agreesAt posKey (isLedger (ingestLogs decode swept ahead)) block open1"
  shows "map_of (chargesAt posKey live block open1) = map_of (chargesAt posKey swept block open1)"
proof -
  let ?L = "newInsolvency accounts" and ?F = "isLedger (ingestLogs decode swept ahead)"
  have "keyedLives side ?L" by (simp add: keyedLives_def livesOf_def newInsolvency_def)
  then have "pairOk (lastBoundary start script) side swept (liveRun decode ?L script)"
    unfolding assms(4) by (intro pair_run [OF pair_refl [OF newInsolvency_inv] assms(3,1,2)])
  then have p: "pairOk (lastBoundary start script) side ?F live"
    unfolding assms(5) by (rule pair_batch) (use assms in \<open>auto simp: list_all_iff\<close>)
  have inv: "insolvencyInv swept" unfolding assms(4) by (rule sweepRun_inv [OF assms(1) newInsolvency_inv])
  have "readAhead block swept ?F"
    using fold_ahead [of "chainOrder ahead" block decode "startState swept"] assms(7,8)
    by (simp add: ingestLogs_eq startState_def list_all_iff)
  then have "map_of (chargesAt posKey swept block open1) = map_of (chargesAt posKey ?F block open1)"
    by (rule ahead_charges [OF inv ingestLogs_inv [OF assms(1) inv] _ assms(9)])
  with pair_charges [OF p assms(6,9)] show ?thesis by simp
qed

section \<open>The checkpoint\<close>

lemma restore_key:
  assumes "ls \<noteq> []" "\<forall>lf \<in> set ls. lc (lfPositionKey lf) = k" "k \<notin> set (keys m)"
  shows "foldl (\<lambda>m lf. let k = lc (lfPositionKey lf) in AList.update k (getOr [] m k @ [lf]) m) m ls = m @ [(k, ls)]"
  using assms(1,2)
proof (induction ls rule: rev_induct)
  case (snoc lf ls)
  have new: "getOr [] m k = []" using assms(3) by (simp add: getOr_def map_of_eq_None_iff [THEN iffD2])
  show ?case
  proof (cases "ls = []")
    case True
    then show ?thesis using snoc.prems new upd_fresh [OF assms(3)] by (simp add: Let_def)
  next
    case False
    have get: "getOr [] (m @ [(k, ls)]) k = ls"
      using assms(3) by (simp add: getOr_def map_add_Some_iff map_of_eq_None_iff [THEN iffD2] map_add_def)
    have "AList.update k v (m @ [(k, w)]) = m @ [(k, v)]" for v w
      using assms(3) by (induction m) auto
    then show ?thesis using snoc False get by (simp add: Let_def)
  qed
qed simp

lemma restore_lives:
  assumes "distinct (keys (m @ xs))" "list_all (\<lambda>(k, ls). livesOk k ls) xs"
  shows "foldl (\<lambda>m lf. let k = lc (lfPositionKey lf) in AList.update k (getOr [] m k @ [lf]) m) m
    (concat (map snd xs)) = m @ xs"
  using assms
proof (induction xs arbitrary: m)
  case (Cons x xs)
  obtain k ls where x: "x = (k, ls)" by (cases x)
  have "foldl (\<lambda>m lf. let k = lc (lfPositionKey lf) in AList.update k (getOr [] m k @ [lf]) m) m ls = m @ [(k, ls)]"
    by (rule restore_key) (use Cons.prems in \<open>auto simp: x livesOk_def list_all_iff\<close>)
  then show ?case using Cons.IH [of "m @ [(k, ls)]"] Cons.prems by (simp add: x)
qed simp

text \<open>A ledger restored from its checkpoint is the ledger that was checkpointed.\<close>

theorem insolvency_checkpoint:
  assumes "plainEvents decode" "L = liveRun decode (newInsolvency accounts) script"
  shows "insolvencyRestore (insolvencySnapshot L) (newInsolvency (ilAccounts L)) = L"
proof -
  have inv: "insolvencyInv L" using liveRun_inv [OF assms(1) newInsolvency_inv] assms(2) by simp
  have "foldl (\<lambda>m lf. let k = lc (lfPositionKey lf) in AList.update k (getOr [] m k @ [lf]) m) []
      (concat (map snd (ilLives L))) = [] @ ilLives L"
    by (rule restore_lives) (use inv in \<open>simp_all add: insolvencyInv_def\<close>)
  then show ?thesis
    by (simp add: insolvencyRestore_def insolvencySnapshot_def newInsolvency_def)
qed

section \<open>An example\<close>

text \<open>
  An account opens a short at 10 and a long at 11, sells the short at 20 for 100 dollars, and is
  liquidated out of the long at 40, 50 dollars short. The log's content is its number.
\<close>

definition exEvent :: "string \<Rightarrow> bool \<Rightarrow> string \<Rightarrow> int \<Rightarrow> int \<Rightarrow> int \<Rightarrow> int \<Rightarrow> gmxEvent" where
  "exEvent name isLong key size1 delta pnl cost = \<lparr>geName = name, geAccount = ''0xaa'', geMarket = ''0xbb'',
     geCollateralToken = ''0xcc'', geIsLong = isLong, gePositionKey = key, geOrderKey = ''0x1'',
     geSizeInUsd = size1, geSizeDeltaUsd = delta, geBasePnlUsd = Some pnl, geRemainingCostUsd = Some cost,
     geStep = None\<rparr>"

definition exEvents :: "gmxEvent list" where
  "exEvents = [exEvent ''PositionIncrease'' False ''0xs'' 1000 1000 0 0,
     exEvent ''PositionIncrease'' True ''0xl'' 1000 1000 0 0,
     exEvent ''PositionDecrease'' False ''0xs'' 0 1000 (100 * 10 ^ 30) 0,
     exEvent ''PositionDecrease'' True ''0xl'' 0 1000 (-50 * 10 ^ 30) 0,
     exEvent ''InsolventClose'' True ''0xl'' 0 0 0 (50 * 10 ^ 30)]"

definition exDecode :: "nat \<Rightarrow> gmxEvent option" where
  "exDecode n = (if n < 5 then Some (exEvents ! n) else None)"

definition exSide :: "string \<Rightarrow> string \<times> string \<times> bool" where
  "exSide k = (''0xaa'', ''0xbb'', k = ''0xl'')"

definition exLog :: "nat \<Rightarrow> int \<Rightarrow> nat ledgerLog" where
  "exLog n b = \<lparr>glRaw = n, glBlock = Some b, glIndex = Some (int n), glTx = Some ''0x7''\<rparr>"

definition exPosKey :: "string \<Rightarrow> string \<Rightarrow> string \<Rightarrow> bool \<Rightarrow> string" where
  "exPosKey account market token isLong = (if isLong then ''0xl'' else ''0xs'')"

lemma five_cases: "n < 5 \<Longrightarrow> n = 0 \<or> n = 1 \<or> n = 2 \<or> n = 3 \<or> n = (4 :: nat)"
  by arith

lemma exDecode_events:
  assumes "exDecode n = Some e"
  shows "e \<in> set exEvents"
  using assms by (auto simp: exDecode_def exEvents_def split: if_splits dest!: five_cases)

lemma ex_plain: "plainEvents exDecode"
  unfolding plainEvents_def using exDecode_events
  by (fastforce simp: exEvents_def exEvent_def plain_def)

lemma ex_keyed: "keyedEvents exDecode exSide"
  unfolding keyedEvents_def
proof (intro allI impI)
  fix n e assume "exDecode n = Some e"
  then have "e \<in> set exEvents" by (rule exDecode_events)
  then show "exSide (lc (gePositionKey e)) = (lc (geAccount e), lc (geMarket e), geIsLong e)"
    by (auto simp: exEvents_def exEvent_def exSide_def toLower_def lowerChar_def Let_def)
qed

definition exScript :: "(nat ledgerLog list \<times> int) list" where
  "exScript = [([exLog 0 10, exLog 1 11, exLog 2 20], 30), ([exLog 4 40, exLog 3 40], 50)]"

definition exLedger :: insolvencyLedger where
  "exLedger = liveRun exDecode (newInsolvency None) exScript"

lemma exLedger_closes: "chargesAt exPosKey exLedger 50 [] =
    [(''0xaa'', \<lparr>scChargedUsd = 50, scShortfallUsd = 50, scCoverUsd = 100\<rparr>)]"
  by code_simp

lemma exLedger_reads: "exLedger = \<lparr>ilAccounts = None,
    ilLives = [(''0xs'', [\<lparr>lfPositionKey = ''0xs'', lfAccount = ''0xaa'', lfMarket = ''0xbb'', lfIsLong = False,
        lfOpen = Some 10, lfClose = Some 20, lfRealised = [(20, 100)]\<rparr>])],
    ilShortfalls = [\<lparr>icAccount = ''0xaa'', icMarket = ''0xbb'', icCollateralToken = ''0xcc'', icIsLong = True,
      icPositionKey = ''0xl'', icOrderKey = ''0x1'', icBlock = 40, icTx = ''0x7'', icShortfallUsd = 50,
      icBasePnlUsd = 0, icStep = [], icOpenedAt = Some 11\<rparr>]\<rparr>"
  by code_simp

lemma exLedger_lower: "lc ''0xaa'' = ''0xaa''" "lc ''0xbb'' = ''0xbb''"
  by code_simp+

lemma charges_follow_rule_witness:
  "map_of (chargesAt exPosKey exLedger 50 []) ''0xaa'' =
    Some \<lparr>scChargedUsd = min 50 (max 0 100), scShortfallUsd = 50, scCoverUsd = max 0 100\<rparr>"
proof -
  have due: "dueCloses exLedger 50 ''0xaa'' ''0xbb'' = ilShortfalls exLedger"
    by (simp add: exLedger_reads dueCloses_def exLedger_lower)
  have worth: "hedgeWorth exPosKey exLedger 50 [] ''0xaa'' ''0xbb'' = 100"
    unfolding hedgeWorth_def due unfolding exLedger_reads
    by (simp add: hedged_def legWorth_def unrealised_def exLedger_lower)
  have markets: "(lc \<circ> icMarket) ` {s \<in> set (ilShortfalls exLedger). icBlock s \<le> 50 \<and> lc (icAccount s) = ''0xaa''} =
      {''0xbb''}"
    unfolding exLedger_reads by (force simp: image_iff exLedger_lower)
  have "map_of (chargesAt exPosKey exLedger 50 []) ''0xaa'' =
      Some \<lparr>scChargedUsd = min (\<Sum>s\<leftarrow>dueCloses exLedger 50 ''0xaa'' ''0xbb''. icShortfallUsd s)
          (max 0 (hedgeWorth exPosKey exLedger 50 [] ''0xaa'' ''0xbb'')),
        scShortfallUsd = (\<Sum>s\<leftarrow>dueCloses exLedger 50 ''0xaa'' ''0xbb''. icShortfallUsd s),
        scCoverUsd = max 0 (hedgeWorth exPosKey exLedger 50 [] ''0xaa'' ''0xbb'')\<rparr>"
    using charges_follow_rule [OF ex_plain, of exPosKey "[]" exLedger None exScript 50 "''0xaa''"]
    unfolding Let_def markets by (simp add: exLedger_def)
  moreover have "(\<Sum>s\<leftarrow>dueCloses exLedger 50 ''0xaa'' ''0xbb''. icShortfallUsd s) = 50"
    unfolding due by (simp add: exLedger_reads)
  ultimately show ?thesis using worth by simp
qed

lemma charge_limits_witness:
  "\<exists>c. map_of (chargesAt exPosKey exLedger 50 []) ''0xaa'' = Some c \<and> scChargedUsd c \<le> scCoverUsd c"
proof -
  obtain c where c: "map_of (chargesAt exPosKey exLedger 50 []) ''0xaa'' = Some c"
    by (simp add: exLedger_closes)
  show ?thesis using charge_limits [OF ex_plain _ exLedger_def c] c by simp
qed

lemma ex_script_good: "goodScript exDecode (newInsolvency None) 0 exScript"
  by code_simp

lemma ex_ahead_seen:
  "opensSeen exDecode (startState (sweepRun exDecode (newInsolvency None) exScript)) (chainOrder [exLog 0 60])"
  by code_simp

lemma live_and_sweep_charge_alike_witness:
  "map_of (chargesAt exPosKey (isLedger (ingestLogs exDecode
      (liveRun exDecode (newInsolvency None) exScript) [exLog 0 60])) 55 []) =
    map_of (chargesAt exPosKey (sweepRun exDecode (newInsolvency None) exScript) 55 [])"
  by (rule live_and_sweep_charge_alike [OF ex_plain ex_keyed ex_script_good refl refl _ _ ex_ahead_seen])
    (simp_all add: lastBoundary_def exScript_def exLog_def blockOf_def orZero_def agreesAt_def)

lemma insolvency_checkpoint_witness:
  "insolvencyRestore (insolvencySnapshot exLedger) (newInsolvency (ilAccounts exLedger)) = exLedger \<and>
    ilShortfalls exLedger \<noteq> []"
  using insolvency_checkpoint [OF ex_plain exLedger_def] exLedger_closes
  by (auto simp: chargesAt_def marketShortfalls_def)

definition exChain :: "nat rpcLog list" where
  "exChain = map (\<lambda>(n, b, tx). \<lparr>rpRaw = n, rpBlock = Some b, rpIndex = Some (int n), rpTx = Some tx, rpRemoved = False\<rparr>)
    [(0, 10, ''0xa''), (1, 11, ''0xb''), (2, 20, ''0xc''), (3, 2500, ''0xd''), (4, 2500, ''0xd'')]"

definition exRead :: "int \<Rightarrow> int \<Rightarrow> unit + nat rpcLog list" where
  "exRead a b = Inr (filter (\<lambda>g. a \<le> rpBlockOf g \<and> rpBlockOf g \<le> b) exChain)"

lemma shortfalls_synced_once_witness:
  "syncAll exDecode exRead (newShortfallTracker 1 [''0xAA''], []) [15, 2400, 2600] =
    (fst (syncShortfalls exDecode exRead 2600 (newShortfallTracker 1 [''0xAA'']) []),
     fst (snd (syncShortfalls exDecode exRead 2600 (newShortfallTracker 1 [''0xAA'']) [])))"
proof -
  have "readsLogs exRead exChain" by (simp add: readsLogs_def exRead_def)
  moreover have "minedOnce exChain" by code_simp
  moreover have "sorted (gtScannedThrough (newShortfallTracker 1 [''0xAA'']) # [15, 2400, 2600])"
    by (simp add: newShortfallTracker_def)
  ultimately show ?thesis
    using shortfalls_synced_once [of exRead exChain "newShortfallTracker 1 [''0xAA'']" "[15, 2400, 2600]" exDecode "[]"]
    by simp
qed

section \<open>Where the readers part\<close>

text \<open>
  A ledger that starts after a position was opened (\<open>startAfter\<close>, or an agent registered mid-period)
  and sees nothing of it until it is liquidated treats it as open since before the ledger began. The
  sweep then finds the winning leg and charges it; the live ledger dropped that leg at the boundary
  before, because pruning asks only for the opposite positions it has seen.
\<close>

definition lateScript :: "(nat ledgerLog list \<times> int) list" where
  "lateScript = [([exLog 0 10, exLog 2 20], 30), ([exLog 3 40, exLog 4 40], 50)]"

lemma early_prune_forgives:
  "chargesAt exPosKey (sweepRun exDecode (newInsolvency None) lateScript) 50 [] =
     [(''0xaa'', \<lparr>scChargedUsd = 50, scShortfallUsd = 50, scCoverUsd = 100\<rparr>)] \<and>
   chargesAt exPosKey (liveRun exDecode (newInsolvency None) lateScript) 50 [] =
     [(''0xaa'', \<lparr>scChargedUsd = 0, scShortfallUsd = 50, scCoverUsd = 0\<rparr>)]"
  by code_simp

end
