(* ===== verification/Registrations.thy ===== *)
theory Registrations
  imports Formatting
begin

text \<open>
  Participants that register while a run is going (\<open>core/src/realtime/registrations.ts\<close>, what the
  coordinator does with a poll of it in \<open>core/src/realtime/coordinator.ts\<close>): which entries of the
  registrations file are new against the ids and the addresses the run knows, and the owners after
  them. Reading and parsing the file is not modelled.
\<close>

record registration =
  rgId :: string
  rgAddress :: string
  rgParticipant :: "string option"
  rgDescription :: "string option"

datatype ignoreReason = DuplicateEntry | IdTaken string | AddressTaken string

record registrationDiff =
  rdAdded :: "registration list"
  rdIgnored :: "(registration \<times> ignoreReason) list"

text \<open>Whom an address belongs to: the role of a participant is \<open>agent\<close>.\<close>

record txOwner =
  toOwnerId :: string
  toRole :: string

text \<open>One pass over the entries, with the ids and addresses the file has named so far.\<close>

record diffState =
  dfDiff :: registrationDiff
  dfSeenIds :: "string list"
  dfSeenAddresses :: "string list"

definition ignoreEntry :: "registration \<Rightarrow> ignoreReason \<Rightarrow> diffState \<Rightarrow> diffState" where
  "ignoreEntry e why S = S\<lparr>dfDiff := (dfDiff S)\<lparr>rdIgnored := rdIgnored (dfDiff S) @ [(e, why)]\<rparr>\<rparr>"

definition diffEntry :: "string list \<Rightarrow> (string \<Rightarrow> string option) \<Rightarrow> diffState \<Rightarrow> registration \<Rightarrow> diffState" where
  "diffEntry ids addresses S e = (let lower = toLower (rgAddress e) in
    if rgId e \<in> set (dfSeenIds S) \<or> lower \<in> set (dfSeenAddresses S) then ignoreEntry e DuplicateEntry S
    else let S = S\<lparr>dfSeenIds := rgId e # dfSeenIds S, dfSeenAddresses := lower # dfSeenAddresses S\<rparr> in
      if rgId e \<in> set ids \<and> addresses lower = Some (rgId e) then S
      else if rgId e \<in> set ids then ignoreEntry e (IdTaken (rgId e)) S
      else (case addresses lower of
          Some owner \<Rightarrow> ignoreEntry e (AddressTaken owner) S
        | None \<Rightarrow> S\<lparr>dfDiff := (dfDiff S)\<lparr>rdAdded := rdAdded (dfDiff S) @ [e]\<rparr>\<rparr>))"

definition diffRegistrations ::
  "registration list \<Rightarrow> string list \<Rightarrow> (string \<Rightarrow> string option) \<Rightarrow> registrationDiff" where
  "diffRegistrations entries ids addresses = dfDiff (foldl (diffEntry ids addresses)
    \<lparr>dfDiff = \<lparr>rdAdded = [], rdIgnored = []\<rparr>, dfSeenIds = [], dfSeenAddresses = []\<rparr> entries)"

section \<open>What a poll registers\<close>

text \<open>
  The agents' ids and the owners by lowercase address. An entry whose funding throws is left out of
  both and stays for a later poll.
\<close>

record field =
  fiIds :: "string list"
  fiOwners :: "(string \<times> txOwner) list"

definition registerExternalAgent :: "registration \<Rightarrow> field \<Rightarrow> field" where
  "registerExternalAgent reg F = F\<lparr>fiIds := fiIds F @ [rgId reg],
     fiOwners := AList.update (toLower (rgAddress reg)) \<lparr>toOwnerId = rgId reg, toRole = ''agent''\<rparr> (fiOwners F)\<rparr>"

definition pollRegistrations :: "registration list \<Rightarrow> (registration \<Rightarrow> bool) \<Rightarrow> field \<Rightarrow> field" where
  "pollRegistrations entries funded F = foldl (\<lambda>F reg. if funded reg then registerExternalAgent reg F else F) F
    (rdAdded (diffRegistrations entries (fiIds F) (\<lambda>a. map_option toOwnerId (map_of (fiOwners F) a))))"

section \<open>A registration takes nothing from anyone\<close>

definition diffOk :: "string list \<Rightarrow> (string \<Rightarrow> string option) \<Rightarrow> diffState \<Rightarrow> bool" where
  "diffOk ids addresses S \<longleftrightarrow>
    list_all (\<lambda>e. rgId e \<notin> set ids \<and> addresses (toLower (rgAddress e)) = None) (rdAdded (dfDiff S)) \<and>
    distinct (map (\<lambda>e. toLower (rgAddress e)) (rdAdded (dfDiff S))) \<and> distinct (map rgId (rdAdded (dfDiff S))) \<and>
    set (map (\<lambda>e. toLower (rgAddress e)) (rdAdded (dfDiff S))) \<subseteq> set (dfSeenAddresses S) \<and>
    set (map rgId (rdAdded (dfDiff S))) \<subseteq> set (dfSeenIds S)"

lemma diffEntry_ok: "diffOk ids addresses S \<Longrightarrow> diffOk ids addresses (diffEntry ids addresses S e)"
  by (auto simp: diffOk_def diffEntry_def ignoreEntry_def Let_def split: option.splits)

lemma diffRegistrations_ok:
  "list_all (\<lambda>e. rgId e \<notin> set ids \<and> addresses (toLower (rgAddress e)) = None)
      (rdAdded (diffRegistrations entries ids addresses)) \<and>
    distinct (map (\<lambda>e. toLower (rgAddress e)) (rdAdded (diffRegistrations entries ids addresses)))"
proof -
  have "diffOk ids addresses (foldl (diffEntry ids addresses) S entries)" if "diffOk ids addresses S" for S
    using that by (induction entries arbitrary: S) (simp_all add: diffEntry_ok)
  then show ?thesis by (simp add: diffRegistrations_def diffOk_def)
qed

text \<open>The owners only grow: an address keeps the owner it has, and a new one is an agent's.\<close>

definition ownersGrow :: "(string \<times> txOwner) list \<Rightarrow> (string \<times> txOwner) list \<Rightarrow> bool" where
  "ownersGrow before after \<longleftrightarrow> (\<forall>a o1. map_of before a = Some o1 \<longrightarrow> map_of after a = Some o1)"

lemma ownersGrow_refl [simp]: "ownersGrow owners owners"
  by (simp add: ownersGrow_def)

lemma ownersGrow_trans: "ownersGrow a b \<Longrightarrow> ownersGrow b c \<Longrightarrow> ownersGrow a c"
  by (simp add: ownersGrow_def)

lemma register_all_grow:
  assumes "\<And>e. e \<in> set regs \<Longrightarrow> map_of (fiOwners F) (toLower (rgAddress e)) = None"
    and "distinct (map (\<lambda>e. toLower (rgAddress e)) regs)"
  shows "ownersGrow (fiOwners F)
    (fiOwners (foldl (\<lambda>F reg. if funded reg then registerExternalAgent reg F else F) F regs))"
  using assms
proof (induction regs arbitrary: F)
  case Nil
  then show ?case by simp
next
  case (Cons r regs)
  define G where "G = (if funded r then registerExternalAgent r F else F)"
  have r: "map_of (fiOwners F) (toLower (rgAddress r)) = None" using Cons.prems(1) by simp
  have owners: "map_of (fiOwners G) a = (if funded r \<and> a = toLower (rgAddress r)
      then Some \<lparr>toOwnerId = rgId r, toRole = ''agent''\<rparr> else map_of (fiOwners F) a)" for a
    by (simp add: G_def registerExternalAgent_def)
  have one: "ownersGrow (fiOwners F) (fiOwners G)" using r by (simp add: ownersGrow_def owners)
  have fresh: "map_of (fiOwners G) (toLower (rgAddress e)) = None" if "e \<in> set regs" for e
  proof -
    have "f r \<noteq> f e" if "distinct (map f (r # regs))" "e \<in> set regs" for f :: "registration \<Rightarrow> string"
      using that by (induction regs) auto
    from this [OF Cons.prems(2) that] have "toLower (rgAddress e) \<noteq> toLower (rgAddress r)" by simp
    then show ?thesis using Cons.prems(1) that by (simp add: owners)
  qed
  have "distinct (map (\<lambda>e. toLower (rgAddress e)) regs)" using Cons.prems(2) by simp
  from ownersGrow_trans [OF one Cons.IH [OF fresh this]] show ?case by (simp add: G_def)
qed

lemma poll_grow: "ownersGrow (fiOwners F) (fiOwners (pollRegistrations entries funded F))"
  unfolding pollRegistrations_def
proof (rule register_all_grow)
  let ?known = "\<lambda>a. map_option toOwnerId (map_of (fiOwners F) a)"
  note D = diffRegistrations_ok [of "fiIds F" ?known entries]
  show "map_of (fiOwners F) (toLower (rgAddress e)) = None"
    if "e \<in> set (rdAdded (diffRegistrations entries (fiIds F) ?known))" for e
    using conjunct1 [OF D, unfolded list_all_iff] that by (auto dest: bspec)
  show "distinct (map (\<lambda>e. toLower (rgAddress e)) (rdAdded (diffRegistrations entries (fiIds F) ?known)))"
    by (rule conjunct2 [OF D])
qed

end
