(* ===== verification/Derived_Senders.thy ===== *)
theory Derived_Senders
  imports Js_Strings Registrations
begin

text \<open>
  Transactions from addresses an agent's wallet funded (\<open>core/src/realtime/derivedSenders.ts\<close>), and
  whose a mined transaction is (\<open>core/src/realtime/coordinator.ts\<close>, where it writes a block's rows). The
  run's owners are an association list from lowercase addresses, which grows when a participant
  registers; every operation is given the owners as they are when it runs. The Transfer event's
  selector, a hash, is the parameter \<open>transferTopic\<close>.
\<close>

section \<open>The ledger\<close>

datatype fundedVia = ViaEth | ViaToken | ViaCreate

record derivedSender =
  dsAddress :: string
  dsOwnerId :: string
  dsFundedBy :: string
  dsFundedAtBlock :: int
  dsVia :: fundedVia
  dsTxCount :: nat

record txLog =
  tlAddress :: string
  tlTopics :: "string list"
  tlData :: "string option"

record minedTx =
  mtFrom :: string
  mtTo :: "string option"
  mtValue :: int
  mtBlock :: int
  mtContractAddress :: "string option"
  mtLogs :: "txLog list"

definition ZERO_ADDRESS :: string where
  "ZERO_ADDRESS = ''0x0000000000000000000000000000000000000000''"

definition agentOf :: "(string \<times> txOwner) list \<Rightarrow> string \<Rightarrow> string option" where
  "agentOf owners a = (case map_of owners a of
     None \<Rightarrow> None | Some o1 \<Rightarrow> if toRole o1 = ''agent'' then Some (toOwnerId o1) else None)"

definition isKnown :: "(string \<times> txOwner) list \<Rightarrow> string \<Rightarrow> bool" where
  "isKnown owners a \<longleftrightarrow> map_of owners a \<noteq> None"

definition lastChars :: "nat \<Rightarrow> string \<Rightarrow> string" where
  "lastChars n s = drop (length s - n) s"

definition topicAddress :: "string \<Rightarrow> string" where
  "topicAddress topic = toLower (''0x'' @ lastChars 40 topic)"

definition transferredSomething :: "string option \<Rightarrow> bool" where
  "transferredSomething data \<longleftrightarrow> (case data of
     None \<Rightarrow> False
   | Some s \<Rightarrow> s \<noteq> [] \<and> s \<noteq> ''0x'' \<and> (case bigIntOf s of None \<Rightarrow> False | Some n \<Rightarrow> n > 0))"

text \<open>The Map of derived addresses, and the tokens that count once they have been asked for.\<close>

record derivedLedger =
  dlDerived :: "(string \<times> derivedSender) list"
  dlTokens :: "string list option"

definition newDerived :: derivedLedger where
  "newDerived = \<lparr>dlDerived = [], dlTokens = None\<rparr>"

definition senderOf :: "derivedLedger \<Rightarrow> string \<Rightarrow> derivedSender option" where
  "senderOf L a = map_of (dlDerived L) (toLower a)"

definition ownerOf :: "(string \<times> txOwner) list \<Rightarrow> derivedLedger \<Rightarrow> string \<Rightarrow> string option" where
  "ownerOf owners L address = (let a = toLower address in
     case agentOf owners a of
       Some o1 \<Rightarrow> Some o1
     | None \<Rightarrow> map_option dsOwnerId (map_of (dlDerived L) a))"

definition fund :: "(string \<times> txOwner) list \<Rightarrow> string \<Rightarrow> string \<Rightarrow> string \<Rightarrow> fundedVia \<Rightarrow> int
    \<Rightarrow> derivedLedger \<Rightarrow> derivedLedger" where
  "fund owners recipient fundedBy ownerId via block L = (let to1 = toLower recipient in
     if to1 = ZERO_ADDRESS \<or> to1 = fundedBy then L
     else if isKnown owners to1 \<or> to1 \<in> set (keys (dlDerived L)) then L
     else L\<lparr>dlDerived := AList.update to1
       \<lparr>dsAddress = to1, dsOwnerId = ownerId, dsFundedBy = fundedBy, dsFundedAtBlock = block,
        dsVia = via, dsTxCount = 0\<rparr> (dlDerived L)\<rparr>)"

definition truthy :: "string option \<Rightarrow> bool" where
  "truthy s \<longleftrightarrow> s \<noteq> None \<and> s \<noteq> Some []"

definition observeLog :: "(string \<times> txOwner) list \<Rightarrow> string \<Rightarrow> string list \<Rightarrow> string \<Rightarrow> int
    \<Rightarrow> derivedLedger \<Rightarrow> txLog \<Rightarrow> derivedLedger" where
  "observeLog owners transferTopic tokens ownerId block L log1 =
    (if toLower (tlAddress log1) \<notin> set tokens then L
     else if length (tlTopics log1) \<noteq> 3 \<or> tlTopics log1 ! 0 \<noteq> transferTopic then L
     else if \<not> transferredSomething (tlData log1) then L
     else let src = topicAddress (tlTopics log1 ! 1) in
       if ownerOf owners L src \<noteq> Some ownerId then L
       else fund owners (topicAddress (tlTopics log1 ! 2)) src ownerId ViaToken block L)"

definition countTx :: "string \<Rightarrow> derivedLedger \<Rightarrow> derivedLedger" where
  "countTx a L = (case map_of (dlDerived L) a of
     None \<Rightarrow> L
   | Some d \<Rightarrow> L\<lparr>dlDerived := AList.update a (d\<lparr>dsTxCount := dsTxCount d + 1\<rparr>) (dlDerived L)\<rparr>)"

definition observe :: "(string \<times> txOwner) list \<Rightarrow> string \<Rightarrow> string list \<Rightarrow> minedTx \<Rightarrow> string
    \<Rightarrow> derivedLedger \<Rightarrow> derivedLedger" where
  "observe owners transferTopic trackedTokens tx ownerId L0 = (let
      a = toLower (mtFrom tx);
      L1 = countTx a L0;
      L2 = (if mtValue tx > 0 \<and> truthy (mtTo tx)
            then fund owners (the (mtTo tx)) a ownerId ViaEth (mtBlock tx) L1 else L1);
      L3 = (if truthy (mtContractAddress tx)
            then fund owners (the (mtContractAddress tx)) a ownerId ViaCreate (mtBlock tx) L2 else L2);
      tokens = (case dlTokens L3 of None \<Rightarrow> trackedTokens | Some t \<Rightarrow> t)
    in foldl (observeLog owners transferTopic tokens ownerId (mtBlock tx)) (L3\<lparr>dlTokens := Some tokens\<rparr>) (mtLogs tx))"

definition ownerByAddress :: "derivedLedger \<Rightarrow> (string \<times> string) list" where
  "ownerByAddress L = foldl (\<lambda>m (_, d). AList.update (dsAddress d) (dsOwnerId d) m) [] (dlDerived L)"

definition byOwner :: "derivedLedger \<Rightarrow> (string \<times> derivedSender list) list" where
  "byOwner L = foldl (\<lambda>out (_, d). if dsTxCount d = 0 then out
     else AList.update (dsOwnerId d) (getOr [] out (dsOwnerId d) @ [d]) out) [] (dlDerived L)"

definition derivedSnapshot :: "derivedLedger \<Rightarrow> derivedSender list" where
  "derivedSnapshot L = map snd (dlDerived L)"

definition derivedRestore :: "derivedSender list \<Rightarrow> derivedLedger \<Rightarrow> derivedLedger" where
  "derivedRestore entries L = L\<lparr>dlDerived :=
     foldl (\<lambda>m d. AList.update (toLower (dsAddress d)) d m) [] entries\<rparr>"

section \<open>Whose a mined transaction is\<close>

text \<open>
  The row of a mined transaction: what was submitted decides first, then the registered owners, then
  the derived senders; an unknown sender is its own, under the role \<open>external\<close>.
\<close>

definition rowOwner :: "(string \<times> txOwner) list \<Rightarrow> derivedLedger \<Rightarrow> txOwner option \<Rightarrow> string \<Rightarrow> txOwner" where
  "rowOwner owners L submitted address = (let
      a = toLower address;
      derived = (if submitted = None \<and> map_of owners a = None then senderOf L a else None)
    in case submitted of
         Some o1 \<Rightarrow> o1
       | None \<Rightarrow> (case map_of owners a of
           Some o1 \<Rightarrow> o1
         | None \<Rightarrow> (case derived of
             Some d \<Rightarrow> \<lparr>toOwnerId = dsOwnerId d, toRole = ''agent''\<rparr>
           | None \<Rightarrow> \<lparr>toOwnerId = a, toRole = ''external''\<rparr>)))"

definition logRow :: "(string \<times> txOwner) list \<Rightarrow> string \<Rightarrow> string list
    \<Rightarrow> derivedLedger \<times> txOwner list \<Rightarrow> minedTx \<times> txOwner option \<Rightarrow> derivedLedger \<times> txOwner list" where
  "logRow owners transferTopic trackedTokens = (\<lambda>(L, rows) (tx, submitted). let
      o1 = rowOwner owners L submitted (mtFrom tx)
    in (if toRole o1 = ''agent'' then observe owners transferTopic trackedTokens tx (toOwnerId o1) L else L,
        rows @ [o1]))"

section \<open>Every derived sender leads back to a wallet\<close>

text \<open>
  The hops of an owner from an address to a wallet registered to that owner. An address on the way
  may since have been registered to somebody else.
\<close>

fun walletOf :: "nat \<Rightarrow> (string \<times> txOwner) list \<Rightarrow> (string \<times> derivedSender) list \<Rightarrow> string \<Rightarrow> string \<Rightarrow> string option" where
  "walletOf 0 owners m o1 a = (if agentOf owners a = Some o1 then Some a else None)"
| "walletOf (Suc n) owners m o1 a =
     (if agentOf owners a = Some o1 then Some a
      else case map_of m a of
          None \<Rightarrow> None
        | Some d \<Rightarrow> if dsOwnerId d = o1 then walletOf n owners m o1 (dsFundedBy d) else None)"

text \<open>
  A derived sender: kept under its own address and funded by its owner's wallet or by a sender of the
  same owner derived before it.
\<close>

definition hopOk :: "(string \<times> txOwner) list \<Rightarrow> (string \<times> derivedSender) list \<Rightarrow> string \<times> derivedSender \<Rightarrow> bool" where
  "hopOk owners before e = (case e of (a, d) \<Rightarrow>
     dsAddress d = a \<and> toLower a = a \<and> a \<noteq> ZERO_ADDRESS \<and>
     (agentOf owners (dsFundedBy d) = Some (dsOwnerId d) \<or>
      map_option dsOwnerId (map_of before (dsFundedBy d)) = Some (dsOwnerId d)))"

fun hopsOk :: "(string \<times> txOwner) list \<Rightarrow> (string \<times> derivedSender) list \<Rightarrow> (string \<times> derivedSender) list \<Rightarrow> bool" where
  "hopsOk owners before [] = True"
| "hopsOk owners before (e # es) \<longleftrightarrow> hopOk owners before e \<and> fst e \<notin> set (keys before) \<and>
     hopsOk owners (before @ [e]) es"

abbreviation derivedInv :: "(string \<times> txOwner) list \<Rightarrow> derivedLedger \<Rightarrow> bool" where
  "derivedInv owners L \<equiv> hopsOk owners [] (dlDerived L)"

lemma hopsOk_append: "hopsOk owners before (xs @ ys) \<longleftrightarrow> hopsOk owners before xs \<and> hopsOk owners (before @ xs) ys"
  by (induction xs arbitrary: before) auto

lemma hopsOk_distinct: "hopsOk owners before xs \<Longrightarrow> distinct (keys before) \<Longrightarrow> distinct (keys (before @ xs))"
proof (induction xs arbitrary: before)
  case (Cons e xs)
  then show ?case using Cons.IH [of "before @ [e]"] by simp
qed simp

lemma hopsOk_member:
  assumes "hopsOk owners before xs" "e \<in> set xs"
  shows "dsAddress (snd e) = fst e \<and> toLower (fst e) = fst e \<and> fst e \<noteq> ZERO_ADDRESS"
  using assms by (induction xs arbitrary: before) (auto simp: hopOk_def)

text \<open>Counting a transaction changes nothing the hops speak of.\<close>

definition ownersIn :: "(string \<times> derivedSender) list \<Rightarrow> (string \<times> string) list" where
  "ownersIn m = map (\<lambda>(a, d). (a, dsOwnerId d)) m"

lemma ownersIn_lookup: "map_option dsOwnerId (map_of m a) = map_of (ownersIn m) a"
  by (simp add: ownersIn_def map_of_map)

lemma ownersIn_keys: "keys (ownersIn m) = keys m"
  by (simp add: ownersIn_def split_def)

lemma hopsOk_count:
  assumes "hopsOk owners before xs" "ownersIn before = ownersIn before'"
  shows "hopsOk owners before' (map (\<lambda>(a, d). (a, if a = k then d\<lparr>dsTxCount := f d\<rparr> else d)) xs)"
  using assms
proof (induction xs arbitrary: before before')
  case (Cons e xs)
  obtain a d where e: "e = (a, d)" by (cases e)
  let ?d = "if a = k then d\<lparr>dsTxCount := f d\<rparr> else d"
  have ks: "keys before' = keys before" using Cons.prems(2) ownersIn_keys by metis
  have "hopOk owners before' (a, ?d)"
    using Cons.prems by (simp add: e hopOk_def ownersIn_lookup)
  moreover have own: "ownersIn (before @ [(a, d)]) = ownersIn (before' @ [(a, ?d)])"
    using Cons.prems(2) by (simp add: ownersIn_def)
  have "hopsOk owners (before' @ [(a, ?d)]) (map (\<lambda>(a, d). (a, if a = k then d\<lparr>dsTxCount := f d\<rparr> else d)) xs)"
    by (rule Cons.IH [OF _ own]) (use Cons.prems(1) in \<open>simp add: e\<close>)
  moreover have "a \<notin> set (keys before')" using Cons.prems(1) ks by (simp add: e del: set_map)
  ultimately show ?case by (simp add: e)
qed simp

lemma update_present: "distinct (keys m) \<Longrightarrow> map_of m k = Some d \<Longrightarrow>
    AList.update k v m = map (\<lambda>(a, x). (a, if a = k then v else x)) m"
proof (induction m)
  case (Cons e m)
  have "map (\<lambda>(a, x). (a, if a = k then v else x)) m = m" if "k \<notin> fst ` set m"
    using that by (intro map_idI) (auto simp: image_iff)
  then show ?case using Cons by (cases e) (auto split: if_splits)
qed simp

lemma countTx_inv:
  assumes "derivedInv owners L"
  shows "derivedInv owners (countTx a L)"
proof (cases "map_of (dlDerived L) a")
  case None
  then show ?thesis using assms by (simp add: countTx_def)
next
  case (Some d)
  have dist: "distinct (keys (dlDerived L))" using hopsOk_distinct [OF assms] by simp
  have one: "x = d" if "(a, x) \<in> set (dlDerived L)" for x
    using map_of_eq_Some_iff_mem [OF dist, of a x] that Some by simp
  have "AList.update a (d\<lparr>dsTxCount := dsTxCount d + 1\<rparr>) (dlDerived L) =
      map (\<lambda>(k, x). (k, if k = a then d\<lparr>dsTxCount := dsTxCount d + 1\<rparr> else x)) (dlDerived L)"
    by (rule update_present [OF dist Some])
  also have "\<dots> = map (\<lambda>(k, x). (k, if k = a then x\<lparr>dsTxCount := dsTxCount x + 1\<rparr> else x)) (dlDerived L)"
    by (rule map_cong [OF refl]) (auto dest: one)
  finally show ?thesis
    using hopsOk_count [OF assms refl, of a "\<lambda>d. dsTxCount d + 1"] Some by (simp add: countTx_def)
qed

lemma ownerOf_lower: "ownerOf owners L (toLower a) = ownerOf owners L a"
  by (simp add: ownerOf_def Let_def)

lemma fund_inv:
  assumes "derivedInv owners L" "ownerOf owners L fundedBy = Some ownerId" "toLower fundedBy = fundedBy"
  shows "derivedInv owners (fund owners recipient fundedBy ownerId via block L)"
proof -
  have "agentOf owners fundedBy = Some ownerId \<or>
      map_option dsOwnerId (map_of (dlDerived L) fundedBy) = Some ownerId"
    using assms(2,3) by (auto simp: ownerOf_def Let_def split: option.splits)
  then show ?thesis
    using assms(1) by (auto simp: fund_def Let_def upd_fresh hopsOk_append hopOk_def)
qed

text \<open>New owners leave what was derived before them in order.\<close>

lemma agentOf_grow: "ownersGrow owners owners' \<Longrightarrow> agentOf owners a = Some o1 \<Longrightarrow> agentOf owners' a = Some o1"
  by (auto simp: ownersGrow_def agentOf_def split: option.splits if_splits)

lemma hopsOk_grow: "ownersGrow owners owners' \<Longrightarrow> hopsOk owners before xs \<Longrightarrow> hopsOk owners' before xs"
  by (induction xs arbitrary: before) (auto simp: hopOk_def dest: agentOf_grow)

text \<open>What an address was found to be it stays.\<close>

definition ownersKept :: "(string \<times> txOwner) list \<Rightarrow> derivedLedger \<Rightarrow> derivedLedger \<Rightarrow> bool" where
  "ownersKept owners L L' \<longleftrightarrow> (\<forall>a o1. ownerOf owners L a = Some o1 \<longrightarrow> ownerOf owners L' a = Some o1)"

lemma ownersKept_refl [simp]: "ownersKept owners L L"
  by (simp add: ownersKept_def)

lemma ownersKept_trans: "ownersKept owners L M \<Longrightarrow> ownersKept owners M N \<Longrightarrow> ownersKept owners L N"
  by (simp add: ownersKept_def)

lemma fund_kept: "ownersKept owners L (fund owners recipient fundedBy ownerId via block L)"
  by (auto simp: ownersKept_def ownerOf_def fund_def Let_def upd_fresh map_add_def split: option.splits
      dest!: map_of_SomeD)

lemma countTx_owner: "ownerOf owners (countTx x L) a = ownerOf owners L a"
  by (auto simp: ownerOf_def countTx_def Let_def split: option.splits)

lemma tokens_frame: "ownerOf owners (L\<lparr>dlTokens := t\<rparr>) a = ownerOf owners L a"
  by (simp add: ownerOf_def Let_def split: option.splits)

lemma topicAddress_lower: "toLower (topicAddress t) = topicAddress t"
  by (simp add: topicAddress_def)

lemma observeLog_ok:
  assumes "derivedInv owners L"
  shows "derivedInv owners (observeLog owners topic1 tokens ownerId block L g) \<and>
    ownersKept owners L (observeLog owners topic1 tokens ownerId block L g)"
  using assms fund_inv [OF assms _ topicAddress_lower] fund_kept
  by (simp add: observeLog_def Let_def)

lemma logs_ok:
  assumes "derivedInv owners L"
  shows "derivedInv owners (foldl (observeLog owners topic1 tokens ownerId block) L gs) \<and>
    ownersKept owners L (foldl (observeLog owners topic1 tokens ownerId block) L gs)"
  using assms
proof (induction gs arbitrary: L)
  case (Cons g gs)
  then show ?case using observeLog_ok [OF Cons.prems, of topic1 tokens ownerId block g] Cons.IH ownersKept_trans
    by (metis foldl_Cons)
qed simp

lemma observe_ok:
  assumes "derivedInv owners L" "ownerOf owners L (mtFrom tx) = Some ownerId"
  shows "derivedInv owners (observe owners topic1 tracked tx ownerId L) \<and>
    ownersKept owners L (observe owners topic1 tracked tx ownerId L)"
proof -
  let ?a = "toLower (mtFrom tx)"
  define L1 where "L1 = countTx ?a L"
  define L2 where "L2 = (if mtValue tx > 0 \<and> truthy (mtTo tx)
    then fund owners (the (mtTo tx)) ?a ownerId ViaEth (mtBlock tx) L1 else L1)"
  define L3 where "L3 = (if truthy (mtContractAddress tx)
    then fund owners (the (mtContractAddress tx)) ?a ownerId ViaCreate (mtBlock tx) L2 else L2)"
  have 1: "derivedInv owners L1" "ownerOf owners L1 ?a = Some ownerId" "ownersKept owners L L1"
    using countTx_inv [OF assms(1)] assms(2) by (simp_all add: L1_def countTx_owner ownerOf_lower ownersKept_def)
  have 2: "derivedInv owners L2" "ownersKept owners L1 L2"
    using fund_inv [OF 1(1,2)] 1(1) fund_kept by (simp_all add: L2_def)
  have own2: "ownerOf owners L2 ?a = Some ownerId" using 1(2) 2(2) by (simp add: ownersKept_def)
  have 3: "derivedInv owners L3" "ownersKept owners L2 L3"
    using fund_inv [OF 2(1) own2] 2(1) fund_kept by (simp_all add: L3_def)
  define tokens where "tokens = (case dlTokens L3 of None \<Rightarrow> tracked | Some t \<Rightarrow> t)"
  have 4: "derivedInv owners (L3\<lparr>dlTokens := Some tokens\<rparr>)" "ownersKept owners L3 (L3\<lparr>dlTokens := Some tokens\<rparr>)"
    using 3(1) by (simp_all add: ownersKept_def tokens_frame)
  have run: "observe owners topic1 tracked tx ownerId L =
      foldl (observeLog owners topic1 tokens ownerId (mtBlock tx)) (L3\<lparr>dlTokens := Some tokens\<rparr>) (mtLogs tx)"
    by (simp add: observe_def L1_def L2_def L3_def tokens_def Let_def)
  show ?thesis
    unfolding run using logs_ok [OF 4(1)] 1(3) 2(2) 3(2) 4(2) ownersKept_trans by metis
qed

text \<open>A transaction submitted for an agent comes from a wallet of that agent.\<close>

definition submittedOk :: "(string \<times> txOwner) list \<Rightarrow> minedTx \<times> txOwner option \<Rightarrow> bool" where
  "submittedOk owners = (\<lambda>(tx, submitted). case submitted of
     None \<Rightarrow> True
   | Some o1 \<Rightarrow> toRole o1 = ''agent'' \<longrightarrow> agentOf owners (toLower (mtFrom tx)) = Some (toOwnerId o1))"

lemma rowOwner_owner:
  assumes "toRole (rowOwner owners L submitted (mtFrom tx)) = ''agent''" "submittedOk owners (tx, submitted)"
  shows "ownerOf owners L (mtFrom tx) = Some (toOwnerId (rowOwner owners L submitted (mtFrom tx)))"
  using assms
  by (auto simp: rowOwner_def submittedOk_def ownerOf_def senderOf_def agentOf_def Let_def split: option.splits)

lemma rows_ok:
  assumes "derivedInv owners L" "list_all (submittedOk owners) txs"
  shows "derivedInv owners (fst (foldl (logRow owners topic1 tracked) (L, rows) txs)) \<and>
    ownersKept owners L (fst (foldl (logRow owners topic1 tracked) (L, rows) txs))"
  using assms
proof (induction txs arbitrary: L rows)
  case (Cons t txs)
  obtain tx submitted where t: "t = (tx, submitted)" by (cases t)
  obtain L' rows' where step: "logRow owners topic1 tracked (L, rows) t = (L', rows')"
    by (cases "logRow owners topic1 tracked (L, rows) t")
  have "derivedInv owners L' \<and> ownersKept owners L L'"
    using step Cons.prems observe_ok [OF Cons.prems(1)] rowOwner_owner [of owners L submitted tx]
    by (auto simp: logRow_def t Let_def split: if_splits)
  then show ?case using Cons.IH [of L' rows'] Cons.prems ownersKept_trans by (auto simp: step)
qed simp

section \<open>What the ledger promises\<close>

lemma walletOf_more: "walletOf n owners m o1 a = Some w \<Longrightarrow> n \<le> k \<Longrightarrow> walletOf k owners m o1 a = Some w"
proof (induction n arbitrary: a k)
  case 0
  then show ?case by (cases k) (auto split: if_splits)
next
  case (Suc n)
  then obtain j where "k = Suc j" "n \<le> j" by (cases k) auto
  with Suc show ?case by (auto split: if_splits option.splits)
qed

lemma walletOf_registered: "walletOf n owners m o1 a = Some w \<Longrightarrow> agentOf owners w = Some o1"
  by (induction n arbitrary: a) (auto split: if_splits option.splits)

lemma hops_end:
  assumes "hopsOk owners [] m" "m = pre @ (a, d) # post"
  shows "\<exists>w. walletOf (Suc (length pre)) owners m (dsOwnerId d) a = Some w"
  using assms(2)
proof (induction "length pre" arbitrary: pre a d post rule: less_induct)
  case less
  have ok: "hopOk owners pre (a, d)" using assms(1) less.prems by (simp add: hopsOk_append)
  have dist: "distinct (keys m)" using hopsOk_distinct [OF assms(1)] by simp
  have "(a, d) \<in> set m" using less.prems by simp
  then have look: "map_of m a = Some d" using map_of_eq_Some_iff_mem [OF dist] by blast
  show ?case
  proof (cases "agentOf owners (dsFundedBy d) = Some (dsOwnerId d)")
    case True
    then have "walletOf (length pre) owners m (dsOwnerId d) (dsFundedBy d) = Some (dsFundedBy d)"
      by (cases "length pre") auto
    then show ?thesis using look by simp
  next
    case False
    then obtain e where e: "map_of pre (dsFundedBy d) = Some e" "dsOwnerId e = dsOwnerId d"
      using ok by (auto simp: hopOk_def)
    obtain p q where pq: "pre = p @ (dsFundedBy d, e) # q"
      using map_of_SomeD [OF e(1)] by (metis split_list)
    have "\<exists>w. walletOf (Suc (length p)) owners m (dsOwnerId e) (dsFundedBy d) = Some w"
      by (rule less.hyps [of p "dsFundedBy d" e "q @ (a, d) # post"]) (simp_all add: pq less.prems)
    then obtain w where w: "walletOf (Suc (length p)) owners m (dsOwnerId d) (dsFundedBy d) = Some w"
      using e(2) by auto
    have "walletOf (length pre) owners m (dsOwnerId d) (dsFundedBy d) = Some w"
      by (rule walletOf_more [OF w]) (simp add: pq)
    then show ?thesis using look by simp
  qed
qed

lemma newDerived_inv: "derivedInv owners newDerived"
  by (simp add: newDerived_def)

text \<open>A transaction derives no address the run knows when it is written down.\<close>

definition newUnknown :: "(string \<times> txOwner) list \<Rightarrow> derivedLedger \<Rightarrow> derivedLedger \<Rightarrow> bool" where
  "newUnknown owners L L' \<longleftrightarrow> (\<forall>b. b \<in> set (keys (dlDerived L')) \<longrightarrow> b \<in> set (keys (dlDerived L)) \<or> \<not> isKnown owners b)"

lemma newUnknown_trans: "newUnknown owners L M \<Longrightarrow> newUnknown owners M N \<Longrightarrow> newUnknown owners L N"
  unfolding newUnknown_def by blast

lemma newUnknown_same: "set (keys (dlDerived L')) = set (keys (dlDerived L)) \<Longrightarrow> newUnknown owners L L'"
  by (simp only: newUnknown_def) blast

lemma fund_unknown: "newUnknown owners L (fund owners recipient fundedBy ownerId via block L)"
  by (simp add: newUnknown_def fund_def Let_def)

lemma countTx_unknown: "newUnknown owners L (countTx a L)"
proof (rule newUnknown_same)
  show "set (keys (dlDerived (countTx a L))) = set (keys (dlDerived L))"
  proof (cases "map_of (dlDerived L) a")
    case None
    then show ?thesis by (simp add: countTx_def)
  next
    case (Some d)
    then have "a \<in> set (keys (dlDerived L))" using in_keys_iff by fastforce
    with Some show ?thesis by (simp add: countTx_def insert_absorb)
  qed
qed

lemma logs_unknown: "newUnknown owners L (foldl (observeLog owners topic1 tokens ownerId block) L gs)"
proof (induction gs arbitrary: L)
  case Nil
  show ?case by (rule newUnknown_same) simp
next
  case (Cons g gs)
  have "newUnknown owners L (observeLog owners topic1 tokens ownerId block L g)"
    using fund_unknown newUnknown_same by (auto simp: observeLog_def Let_def)
  from newUnknown_trans [OF this Cons.IH] show ?case by simp
qed

lemma observe_unknown: "newUnknown owners L (observe owners topic1 tracked tx ownerId L)"
proof -
  have tokens: "newUnknown owners M N" if "newUnknown owners (M\<lparr>dlTokens := t\<rparr>) N" for M N t
    using that by (simp add: newUnknown_def)
  have opt: "newUnknown owners M (if c then fund owners r f ownerId via block M else M)" for c r f via block M
    using fund_unknown newUnknown_same by auto
  show ?thesis
    unfolding observe_def Let_def
    by (rule newUnknown_trans [OF countTx_unknown newUnknown_trans [OF opt newUnknown_trans [OF opt tokens [OF logs_unknown]]]])
qed

lemma logRow_unknown: "newUnknown owners L (fst (logRow owners topic1 tracked (L, rows) row))"
  using observe_unknown newUnknown_same by (auto simp: logRow_def Let_def case_prod_unfold)

section \<open>A run in which participants register\<close>

text \<open>What happens to the attribution while a run goes on: a row is written, or registrations are polled.\<close>

datatype attributionEvent = Mined minedTx "txOwner option" | Polled "registration list" "registration \<Rightarrow> bool"

record attribution =
  atField :: field
  atLedger :: derivedLedger
  atRows :: "txOwner list"

definition attribute :: "string \<Rightarrow> string list \<Rightarrow> attribution \<Rightarrow> attributionEvent \<Rightarrow> attribution" where
  "attribute transferTopic tracked S ev = (case ev of
     Mined tx submitted \<Rightarrow>
       (case logRow (fiOwners (atField S)) transferTopic tracked (atLedger S, atRows S) (tx, submitted) of
          (L, rows) \<Rightarrow> S\<lparr>atLedger := L, atRows := rows\<rparr>)
   | Polled entries funded \<Rightarrow> S\<lparr>atField := pollRegistrations entries funded (atField S)\<rparr>)"

definition attributionStart :: "field \<Rightarrow> attribution" where
  "attributionStart F = \<lparr>atField = F, atLedger = newDerived, atRows = []\<rparr>"

definition submittedEvent :: "(string \<times> txOwner) list \<Rightarrow> attributionEvent \<Rightarrow> bool" where
  "submittedEvent owners ev = (case ev of Mined tx submitted \<Rightarrow> submittedOk owners (tx, submitted) | Polled _ _ \<Rightarrow> True)"

lemma submittedOk_grow: "ownersGrow owners owners' \<Longrightarrow> submittedOk owners t \<Longrightarrow> submittedOk owners' t"
  by (auto simp: submittedOk_def dest: agentOf_grow split: prod.splits option.splits)

lemma attribute_ok:
  assumes "ownersGrow owners (fiOwners (atField S))" "derivedInv (fiOwners (atField S)) (atLedger S)"
    and "submittedEvent owners ev"
  shows "ownersGrow owners (fiOwners (atField (attribute topic1 tracked S ev))) \<and>
    derivedInv (fiOwners (atField (attribute topic1 tracked S ev))) (atLedger (attribute topic1 tracked S ev))"
proof (cases ev)
  case (Mined tx submitted)
  have sub: "list_all (submittedOk (fiOwners (atField S))) [(tx, submitted)]"
    using submittedOk_grow [OF assms(1)] assms(3) by (simp add: submittedEvent_def Mined)
  show ?thesis
    using rows_ok [OF assms(2) sub, of topic1 tracked "atRows S"] assms(1)
    by (simp add: attribute_def Mined case_prod_unfold)
next
  case (Polled entries funded)
  note g = poll_grow [of "atField S" entries funded]
  show ?thesis
    using ownersGrow_trans [OF assms(1) g] hopsOk_grow [OF g assms(2)] by (simp add: attribute_def Polled)
qed

lemma attributions_ok:
  assumes "ownersGrow owners (fiOwners (atField S))" "derivedInv (fiOwners (atField S)) (atLedger S)"
    and "list_all (submittedEvent owners) events"
  shows "ownersGrow owners (fiOwners (atField (foldl (attribute topic1 tracked) S events))) \<and>
    derivedInv (fiOwners (atField (foldl (attribute topic1 tracked) S events)))
      (atLedger (foldl (attribute topic1 tracked) S events))"
  using assms
proof (induction events arbitrary: S)
  case (Cons ev events)
  show ?case
    using Cons.IH [of "attribute topic1 tracked S ev"] Cons.prems attribute_ok [OF Cons.prems(1,2), of ev topic1 tracked]
    by simp
qed simp

lemma sender_wallet:
  assumes "derivedInv owners L" "senderOf L a = Some d"
  shows "toLower a \<noteq> ZERO_ADDRESS \<and>
    (\<exists>w. walletOf (length (dlDerived L)) owners (dlDerived L) (dsOwnerId d) (toLower a) = Some w \<and>
      agentOf owners w = Some (dsOwnerId d))"
proof -
  have "(toLower a, d) \<in> set (dlDerived L)" using assms(2) map_of_SomeD by (fastforce simp: senderOf_def)
  then obtain p q where pq: "dlDerived L = p @ (toLower a, d) # q" by (metis split_list)
  obtain w where w: "walletOf (Suc (length p)) owners (dlDerived L) (dsOwnerId d) (toLower a) = Some w"
    using hops_end [OF assms(1) pq] by blast
  have "walletOf (length (dlDerived L)) owners (dlDerived L) (dsOwnerId d) (toLower a) = Some w"
    by (rule walletOf_more [OF w]) (simp add: pq)
  then show ?thesis
    using walletOf_registered hopsOk_member [OF assms(1), of "(toLower a, d)"] pq by fastforce
qed

text \<open>
  C39. While rows are written and participants register, in any order: a registration never changes
  whom an address belongs to; a derived sender always leads back, by hops the ledger recorded for its
  owner, to a wallet registered to that owner; a row that the run did not submit itself is an agent's only
  when the sender is registered to that agent at that moment or, when the run does not know the sender
  at all, when such hops lead to that agent's wallet; and writing a row derives no address the run
  knows at that moment. Whatever the run submitted for an agent was sent from a wallet that was the
  agent's from the start. A derived address that registers later keeps its old entry, so the entry
  itself may be of an address the run has come to know: see \<open>late_registration_flagged\<close> below.
\<close>

theorem derived_leads_to_wallet:
  assumes "list_all (submittedEvent (fiOwners F)) events"
    and "S = foldl (attribute transferTopic tracked) (attributionStart F) events"
    and "owners = fiOwners (atField S)" "L = atLedger S"
  shows "(\<forall>b o1. map_of (fiOwners F) b = Some o1 \<longrightarrow> map_of owners b = Some o1) \<and>
    (\<forall>d. senderOf L a = Some d \<longrightarrow> toLower a \<noteq> ZERO_ADDRESS \<and>
      (\<exists>w. walletOf (length (dlDerived L)) owners (dlDerived L) (dsOwnerId d) (toLower a) = Some w \<and>
        agentOf owners w = Some (dsOwnerId d))) \<and>
    (\<forall>o1. toRole (rowOwner owners L None a) = ''agent'' \<longrightarrow> o1 = toOwnerId (rowOwner owners L None a) \<longrightarrow>
      agentOf owners (toLower a) = Some o1 \<or> \<not> isKnown owners (toLower a) \<and>
      (\<exists>w. walletOf (length (dlDerived L)) owners (dlDerived L) o1 (toLower a) = Some w \<and> agentOf owners w = Some o1)) \<and>
    (\<forall>tx submitted b. b \<in> set (keys (dlDerived (atLedger (attribute transferTopic tracked S (Mined tx submitted))))) \<longrightarrow>
      b \<in> set (keys (dlDerived L)) \<or> \<not> isKnown owners b)"
proof -
  have "ownersGrow (fiOwners F) owners \<and> derivedInv owners L"
    using attributions_ok [of "fiOwners F" "attributionStart F" events transferTopic tracked] assms newDerived_inv
    by (simp add: attributionStart_def)
  then have grow: "ownersGrow (fiOwners F) owners" and inv: "derivedInv owners L" by simp_all
  have row: "agentOf owners (toLower a) = Some o1 \<or> \<not> isKnown owners (toLower a) \<and> (\<exists>d. senderOf L a = Some d \<and> dsOwnerId d = o1)"
    if "toRole (rowOwner owners L None a) = ''agent''" "o1 = toOwnerId (rowOwner owners L None a)" for o1
    using that by (auto simp: rowOwner_def agentOf_def isKnown_def senderOf_def Let_def split: option.splits)
  have new: "newUnknown owners L (atLedger (attribute transferTopic tracked S (Mined tx submitted)))" for tx submitted
    using logRow_unknown [of owners L transferTopic tracked "atRows S" "(tx, submitted)"] assms(3,4)
    by (simp add: attribute_def case_prod_unfold)
  show ?thesis
  proof (intro conjI allI impI)
    show "map_of owners b = Some o1" if "map_of (fiOwners F) b = Some o1" for b o1
      using grow that by (simp add: ownersGrow_def)
    show "toLower a \<noteq> ZERO_ADDRESS" if "senderOf L a = Some d" for d
      using sender_wallet [OF inv that] by simp
    show "\<exists>w. walletOf (length (dlDerived L)) owners (dlDerived L) (dsOwnerId d) (toLower a) = Some w \<and>
        agentOf owners w = Some (dsOwnerId d)" if "senderOf L a = Some d" for d
      using sender_wallet [OF inv that] by simp
    show "agentOf owners (toLower a) = Some o1 \<or> \<not> isKnown owners (toLower a) \<and>
      (\<exists>w. walletOf (length (dlDerived L)) owners (dlDerived L) o1 (toLower a) = Some w \<and> agentOf owners w = Some o1)"
      if "toRole (rowOwner owners L None a) = ''agent''" "o1 = toOwnerId (rowOwner owners L None a)" for o1
      using row [OF that] sender_wallet [OF inv, of a] by auto
    show "b \<in> set (keys (dlDerived L)) \<or> \<not> isKnown owners b"
      if "b \<in> set (keys (dlDerived (atLedger (attribute transferTopic tracked S (Mined tx submitted)))))" for tx submitted b
      using new that unfolding newUnknown_def by blast
  qed
qed

definition tokensFresh :: "string list \<Rightarrow> derivedLedger \<Rightarrow> bool" where
  "tokensFresh tracked L \<longleftrightarrow> dlTokens L = None \<or> dlTokens L = Some tracked"

lemma fund_tokens [simp]: "dlTokens (fund owners r f ownerId via block L) = dlTokens L"
  by (simp add: fund_def Let_def)

lemma countTx_tokens [simp]: "dlTokens (countTx a L) = dlTokens L"
  by (simp add: countTx_def split: option.splits)

lemma observeLog_tokens [simp]: "dlTokens (observeLog owners topic1 tokens ownerId block L g) = dlTokens L"
  by (simp add: observeLog_def Let_def)

lemma logs_tokens [simp]: "dlTokens (foldl (observeLog owners topic1 tokens ownerId block) L gs) = dlTokens L"
  by (induction gs arbitrary: L) simp_all

lemma observe_tokens: "tokensFresh tracked L \<Longrightarrow> tokensFresh tracked (observe owners topic1 tracked tx ownerId L)"
  by (auto simp: observe_def tokensFresh_def Let_def)

lemma rows_tokens:
  "tokensFresh tracked L \<Longrightarrow> tokensFresh tracked (fst (foldl (logRow owners topic1 tracked) (L, rows) txs))"
proof (induction txs arbitrary: L rows)
  case (Cons t txs)
  obtain L' rows' where step: "logRow owners topic1 tracked (L, rows) t = (L', rows')"
    by (cases "logRow owners topic1 tracked (L, rows) t")
  have "tokensFresh tracked L'"
    using step observe_tokens [OF Cons.prems] Cons.prems by (cases t) (auto simp: logRow_def Let_def split: if_splits)
  then show ?case using Cons.IH by (simp add: step)
qed simp

lemma fund_token_free: "fund owners r f ownerId via block (L\<lparr>dlTokens := t\<rparr>) = (fund owners r f ownerId via block L)\<lparr>dlTokens := t\<rparr>"
  by (simp add: fund_def Let_def)

lemma countTx_token_free: "countTx a (L\<lparr>dlTokens := t\<rparr>) = (countTx a L)\<lparr>dlTokens := t\<rparr>"
  by (simp add: countTx_def split: option.splits)

lemma observe_same:
  assumes "tokensFresh tracked L" "dlDerived L' = dlDerived L" "tokensFresh tracked L'"
  shows "observe owners topic1 tracked tx ownerId L' = observe owners topic1 tracked tx ownerId L"
proof -
  have L': "L' = L\<lparr>dlTokens := dlTokens L'\<rparr>" using assms(2) by simp
  have free: "observe owners topic1 tracked tx ownerId (L\<lparr>dlTokens := t\<rparr>) =
      observe owners topic1 tracked tx ownerId (L\<lparr>dlTokens := Some tracked\<rparr>)" if "t = None \<or> t = Some tracked" for t
    using that by (auto simp: observe_def Let_def fund_token_free countTx_token_free)
  have "observe owners topic1 tracked tx ownerId L = observe owners topic1 tracked tx ownerId (L\<lparr>dlTokens := dlTokens L\<rparr>)"
    by simp
  then show ?thesis
    using free [of "dlTokens L"] free [of "dlTokens L'"] assms(1,3) L' by (metis tokensFresh_def)
qed

lemma rows_same:
  assumes "tokensFresh tracked L" "dlDerived L' = dlDerived L" "tokensFresh tracked L'"
  shows "snd (foldl (logRow owners topic1 tracked) (L', rows) txs) =
      snd (foldl (logRow owners topic1 tracked) (L, rows) txs) \<and>
    dlDerived (fst (foldl (logRow owners topic1 tracked) (L', rows) txs)) =
      dlDerived (fst (foldl (logRow owners topic1 tracked) (L, rows) txs))"
  using assms
proof (induction txs arbitrary: L L' rows)
  case (Cons t txs)
  obtain tx submitted where t: "t = (tx, submitted)" by (cases t)
  have own: "rowOwner owners L' submitted (mtFrom tx) = rowOwner owners L submitted (mtFrom tx)"
  proof -
    have "senderOf L' = senderOf L" using Cons.prems(2) by (simp add: senderOf_def fun_eq_iff)
    then show ?thesis by (simp only: rowOwner_def)
  qed
  let ?o = "rowOwner owners L submitted (mtFrom tx)"
  let ?step = "\<lambda>L. if toRole ?o = ''agent'' then observe owners topic1 tracked tx (toOwnerId ?o) L else L"
  have steps: "logRow owners topic1 tracked (L, rows) t = (?step L, rows @ [?o])"
    "logRow owners topic1 tracked (L', rows) t = (?step L', rows @ [?o])"
    by (simp_all add: logRow_def t own Let_def)
  have "tokensFresh tracked (?step L)" "dlDerived (?step L') = dlDerived (?step L)" "tokensFresh tracked (?step L')"
    using Cons.prems observe_same [OF Cons.prems] observe_tokens by simp_all
  then show ?case unfolding foldl_Cons steps by (rule Cons.IH)
qed simp

lemma restore_derived:
  assumes "distinct (keys m)" "\<forall>e \<in> set m. toLower (dsAddress (snd e)) = fst e" "set (keys m) \<inter> set (keys acc) = {}"
  shows "foldl (\<lambda>m d. AList.update (toLower (dsAddress d)) d m) acc (map snd m) = acc @ m"
  using assms
proof (induction m arbitrary: acc)
  case (Cons e m)
  have "AList.update (fst e) (snd e) acc = acc @ [e]" using Cons.prems(3) upd_fresh [of "fst e" acc "snd e"] by auto
  moreover have "foldl (\<lambda>m d. AList.update (toLower (dsAddress d)) d m) (acc @ [e]) (map snd m) = (acc @ [e]) @ m"
    by (rule Cons.IH) (use Cons.prems in auto)
  ultimately show ?case using Cons.prems(2) by simp
qed simp

text \<open>
  C40. A period resumed from its checkpoint attributes every later transaction as the one that was
  never stopped would have.
\<close>

theorem resumed_attribution:
  assumes "list_all (submittedOk owners) before"
    and "L = fst (foldl (logRow owners transferTopic tracked) (newDerived, []) before)"
  shows "snd (foldl (logRow owners transferTopic tracked) (derivedRestore (derivedSnapshot L) newDerived, []) later) =
    snd (foldl (logRow owners transferTopic tracked) (L, []) later)"
proof -
  have inv: "derivedInv owners L" using rows_ok [OF newDerived_inv assms(1)] assms(2) by simp
  have "toLower (dsAddress (snd e)) = fst e" if "e \<in> set (dlDerived L)" for e
    using hopsOk_member [OF inv that] by simp
  then have "dlDerived (derivedRestore (derivedSnapshot L) newDerived) = dlDerived L"
    using restore_derived [of "dlDerived L" "[]"] hopsOk_distinct [OF inv]
    by (simp add: derivedRestore_def derivedSnapshot_def)
  moreover have "tokensFresh tracked (derivedRestore (derivedSnapshot L) newDerived)"
    by (simp add: tokensFresh_def derivedRestore_def newDerived_def)
  moreover have "tokensFresh tracked L"
    unfolding assms(2) by (rule rows_tokens) (simp add: tokensFresh_def newDerived_def)
  ultimately show ?thesis using rows_same by blast
qed

section \<open>An example\<close>

definition exOwners :: "(string \<times> txOwner) list" where
  "exOwners = [(''0xaa'', \<lparr>toOwnerId = ''alice'', toRole = ''agent''\<rparr>),
     (''0xf1'', \<lparr>toOwnerId = ''flow'', toRole = ''flow''\<rparr>)]"

definition exTx :: "string \<Rightarrow> string \<Rightarrow> int \<Rightarrow> minedTx \<times> txOwner option" where
  "exTx from1 to1 v = (\<lparr>mtFrom = from1, mtTo = Some to1, mtValue = v, mtBlock = 1, mtContractAddress = None,
     mtLogs = []\<rparr>, None)"

definition exTxs :: "(minedTx \<times> txOwner option) list" where
  "exTxs = [exTx ''0xAA'' ''0xBB'' 5, exTx ''0xbb'' ''0xCC'' 3, exTx ''0xcc'' ''0xf1'' 1, exTx ''0xdd'' ''0xee'' 1]"

lemma exTxs_rows: "snd (foldl (logRow exOwners ''t'' []) (newDerived, []) exTxs) =
    [\<lparr>toOwnerId = ''alice'', toRole = ''agent''\<rparr>, \<lparr>toOwnerId = ''alice'', toRole = ''agent''\<rparr>,
     \<lparr>toOwnerId = ''alice'', toRole = ''agent''\<rparr>, \<lparr>toOwnerId = ''0xdd'', toRole = ''external''\<rparr>]"
  by code_simp

definition exDerived :: derivedLedger where
  "exDerived = fst (foldl (logRow exOwners ''t'' []) (newDerived, []) exTxs)"

lemma exTxs_ok: "list_all (submittedOk exOwners) exTxs"
  by code_simp

lemma exDerived_cc: "senderOf exDerived ''0xCC'' = Some \<lparr>dsAddress = ''0xcc'', dsOwnerId = ''alice'',
    dsFundedBy = ''0xbb'', dsFundedAtBlock = 1, dsVia = ViaEth, dsTxCount = 1\<rparr>"
  by code_simp

text \<open>The same rows, after which the second hop registers as an agent of its own and sends once more.\<close>

definition exField :: field where
  "exField = \<lparr>fiIds = [''alice''], fiOwners = exOwners\<rparr>"

definition exRegistration :: registration where
  "exRegistration = \<lparr>rgId = ''bob'', rgAddress = ''0xCC'', rgParticipant = None, rgDescription = None\<rparr>"

definition exEvents :: "attributionEvent list" where
  "exEvents = map (\<lambda>(tx, submitted). Mined tx submitted) exTxs @
     [Polled [exRegistration] (\<lambda>_. True), Mined (fst (exTx ''0xCC'' ''0x99'' 1)) None]"

definition exAttribution :: attribution where
  "exAttribution = foldl (attribute ''t'' []) (attributionStart exField) exEvents"

lemma exEvents_ok: "list_all (submittedEvent (fiOwners exField)) exEvents"
  by code_simp

lemma exAttribution_cc: "senderOf (atLedger exAttribution) ''0xCC'' = Some \<lparr>dsAddress = ''0xcc'', dsOwnerId = ''alice'',
    dsFundedBy = ''0xbb'', dsFundedAtBlock = 1, dsVia = ViaEth, dsTxCount = 2\<rparr>"
  by code_simp

text \<open>
  The row written after the registration is the new agent's, but the map of derived owners (which the
  post-run checks read for rows of the role external only) and the report of derived senders
  still name the old owner, and the report counts the registered agent's own transaction against it.
\<close>

lemma late_registration_flagged:
  "atRows exAttribution ! 4 = \<lparr>toOwnerId = ''bob'', toRole = ''agent''\<rparr> \<and>
   map_of (ownerByAddress (atLedger exAttribution)) ''0xcc'' = Some ''alice'' \<and>
   map (\<lambda>(o1, ds). (o1, map (\<lambda>d. (dsAddress d, dsTxCount d)) ds)) (byOwner (atLedger exAttribution)) =
     [(''alice'', [(''0xbb'', 1), (''0xcc'', 2)])]"
  by code_simp

lemma derived_leads_to_wallet_witness:
  "\<exists>w. walletOf (length (dlDerived (atLedger exAttribution))) (fiOwners (atField exAttribution))
      (dlDerived (atLedger exAttribution)) ''alice'' (toLower ''0xCC'') = Some w \<and>
    agentOf (fiOwners (atField exAttribution)) w = Some ''alice''"
proof -
  let ?d = "the (senderOf (atLedger exAttribution) ''0xCC'')"
  have "senderOf (atLedger exAttribution) ''0xCC'' = Some ?d" by (simp add: exAttribution_cc)
  then have "\<exists>w. walletOf (length (dlDerived (atLedger exAttribution))) (fiOwners (atField exAttribution))
      (dlDerived (atLedger exAttribution)) (dsOwnerId ?d) (toLower ''0xCC'') = Some w \<and>
    agentOf (fiOwners (atField exAttribution)) w = Some (dsOwnerId ?d)"
    using derived_leads_to_wallet [OF exEvents_ok exAttribution_def refl refl, of "''0xCC''"] by blast
  then show ?thesis by (simp only: exAttribution_cc option.sel derivedSender.simps)
qed

lemma resumed_attribution_witness:
  "snd (foldl (logRow exOwners ''t'' []) (derivedRestore (derivedSnapshot exDerived) newDerived, []) exTxs) =
    snd (foldl (logRow exOwners ''t'' []) (exDerived, []) exTxs)"
  by (rule resumed_attribution [OF exTxs_ok exDerived_def])

end
