(* ===== verification/Spec2Isabelle.thy ===== *)
theory Spec2Isabelle
  imports Ranking Lp_Tracker Epoch_Extent Segment_Recovery Schedule Gated_Miner Rng Tick_Math Fee_Auction
    Matrix_Resume Timetable Roster_Report Action_Safety Stress_Config Point_Events Gmx_Charges Derived_Senders
begin

text \<open>
  A verification development for the Eris agent simulator: a fork of a chain on which agents trade
  against real DeFi contracts, block by block, under fair prices and stress events drawn from a
  seed, and at the end of which they are ranked by what they earned. The development models the
  simulator's own logic, the code of \<open>src/core\<close> and \<open>src/sdk\<close> that decides something, and leaves the
  contracts, the node and the operating system outside as parameters.

  \<^bold>\<open>The program and its parts.\<close> A coordinator mines or follows blocks. Before a run it derives what is
  random from seeds (the plan of regimes, the price streams, the stress schedule). At every block it
  publishes an observation to the agents, reads their actions as untrusted objects, checks them
  against balances and caps, and sends what passes as transactions ordered by the fee they pay. At
  evaluation boundaries it values every agent, including the positions the agent minted itself. A
  long period is cut into segments at day boundaries so that a crash costs one segment. After a run
  the series are cut into epochs, an epoch's profit is standardised over the agents, and a matrix of
  epochs gives the standings; the movements of value between registered agents are reported beside
  them.

  \<^bold>\<open>Which theory models what.\<close>

  \<^descr> \<^bold>\<open>Shared\<close>. \<open>Prelude\<close>: the sum type of a function that may throw with its two loops, Maps as
  association lists in insertion order, \<open>sort\<close> as a stable insertion sort over a comparator (locale
  \<open>comparator\<close>, interpreted where the code sorts), the division of big integers, possibly
  non-finite numbers. \<open>Json\<close>: values taken in as \<open>unknown\<close>. \<open>Formatting\<close> and \<open>Js_Strings\<close>: decimal
  strings, dates, splitting and testing of text. \<open>Js_Double\<close>: doubles with their non-finite values and
  \<open>BigInt\<close> of one, which throws.

  \<^descr> \<^bold>\<open>Scoring\<close>. \<open>Deviation_Score\<close> and \<open>Ranking\<close>: \<open>scoring/deviationScore.ts\<close>. \<open>Epoch_Value\<close>:
  \<open>scoring/epochPnl.ts\<close>, \<open>endowmentV0.ts\<close>, \<open>practiceReturn.ts\<close>. \<open>Matrix_Standings\<close>, \<open>Matrix_Resume\<close>, \<open>Timetable\<close>: the modules of the same
  names under \<open>core/src/backtest\<close>. They show that an epoch that counts is standardised to mean 50 and
  deviation 10, that a score is the weighted mean over exactly the epochs that count, that the ranks
  are those of the comparison the code sorts by, and that a resumed matrix runs exactly the rest of
  its plan.

  \<^descr> \<^bold>\<open>Time\<close>. \<open>Epoch_Extent\<close>: \<open>epochExtent.ts\<close> and the guards of \<open>onBlock\<close> in \<open>realtime/coordinator.ts\<close>, a step
  relation over block notifications. \<open>Period_Clock\<close>: \<open>periodClock.ts\<close>. \<open>Interval_Series\<close>, \<open>Segments\<close>,
  \<open>Segment_Recovery\<close>: \<open>intervalSeries.ts\<close>, \<open>segments.ts\<close>, \<open>segmentRecovery.ts\<close>; a segmented run is a state with
  the files it keeps (index and pointer) inside, its operations are steps, and the invariant over
  reachable states is that the index is chained. \<open>Gated_Miner\<close>: \<open>realtime/gatedMiner.ts\<close>, one step per
  stretch of code between two awaits, the invariant by rule induction over all interleavings.

  \<^descr> \<^bold>\<open>Randomness\<close>. \<open>Schedule\<close>: \<open>competition/schedule.ts\<close>, the commitment and the plan it fixes; a draw
  is uniform because equally many accepted words leave each remainder, and the shuffle because each
  order comes from one list of draws. \<open>Rng\<close>: the mixers and streams of \<open>rng.ts\<close> at 32 bits.

  \<^descr> \<^bold>\<open>Stress\<close>. \<open>Stress_Events\<close>, \<open>Stress_Schedule\<close>, \<open>Stress_Config\<close>: \<open>realtime/events.ts\<close>. The first has the
  events and everything a schedule answers about a block (overlay, point events, drifts, launches),
  the second the draws and the placement of entries, the third the reading of the configuration.
  Together: an accepted list places every event with a size and shape it configures inside the run
  (one kind of entry excepted, which \<open>mayOutlast\<close> names), whatever the random streams answer.
  \<open>Point_Events\<close>: the loop of \<open>onBlock\<close> in \<open>realtime/coordinator.ts\<close> over the point events of the blocks a pass
  catches up with, on the passes of \<open>Epoch_Extent\<close>; none is lost or done twice.

  \<^descr> \<^bold>\<open>Arithmetic\<close>. \<open>Tick_Math\<close>: \<open>tickMath.ts\<close>. \<open>Fee_Auction\<close>: \<open>feeRule.ts\<close>, \<open>orderingKey.ts\<close>. \<open>Gmx_Cap\<close>:
  \<open>protocols/gmxLeverage.ts\<close>.

  \<^descr> \<^bold>\<open>Actions\<close>. \<open>Markets\<close>: \<open>markets.ts\<close>, the registry of \<open>stables.ts\<close> and \<open>protocols/registry.ts\<close>.
  \<open>Leaf_Actions\<close> and \<open>Leaf_Roundtrip\<close>: the \<open>parse\<close> of every adapter of \<open>protocols\<close>. \<open>Venue_Checks\<close>: their
  \<open>validate\<close>. \<open>Agent_Actions\<close>: \<open>parseAction\<close> and \<open>validateAction\<close> of \<open>action.ts\<close>. \<open>Bundle_Ledger\<close> and
  \<open>Action_Safety\<close> state what the whole path promises: an action is read back from its own object by the
  one venue that owns it, no parsed action makes the runtime throw at the check as long as the
  observation's numbers fit a \<open>BigInt\<close>, and the working balances of an accepted bundle refine a ledger on
  which no leg is short, for legs whose spending the check counts.

  \<^descr> \<^bold>\<open>Positions\<close>. \<open>Lp_Ownership\<close>, \<open>Lp_Checkpoint\<close>, \<open>Lp_Tracker\<close>: \<open>protocols/uniswapLpOwnership.ts\<close>. The ledger is
  an object store, an index of open holdings and a counter, as the code has them (the index and the
  list hold the same objects, so closing one through the index is seen through the list); it refines
  an account per address that folds one step over the transfers. Pruning, checkpoints and syncing by
  chunks lose no answer.

  \<^descr> \<^bold>\<open>Insolvent closes\<close>. \<open>Gmx_Insolvency\<close>: \<open>protocols/gmxInsolvency.ts\<close>; \<open>Gmx_Tracker\<close>: \<open>realtime/gmxShortfall.ts\<close>, which
  feeds it. \<open>Gmx_Shortfall\<close> turns the loops of the charge into sums,
  \<open>Gmx_Run\<close> and \<open>Gmx_Pruned\<close> run a ledger that is pruned beside one that is not, \<open>Gmx_Charges\<close> states the
  rule in its own terms and that the charge is the rule's, when the two readers of a boundary agree,
  and a run in which they do not.

  \<^descr> \<^bold>\<open>Movements and attribution\<close>. \<open>Roster_Transfers\<close>, \<open>Roster_Report\<close>: \<open>rosterTransfers.ts\<close>.
  \<open>Registrations\<close>: which entries of \<open>realtime/registrations.ts\<close> are new and what they add to the owners.
  \<open>Derived_Senders\<close>: \<open>realtime/derivedSenders.ts\<close> and the lines of \<open>realtime/coordinator.ts\<close> that decide whose a
  mined transaction is, while participants register; every address attributed to an agent is
  registered to it or leads back to a wallet of that agent.

  \<^bold>\<open>Conventions.\<close> Bigints are \<open>int\<close>, 32-bit state is \<open>32 word\<close>. A \<open>number\<close> is a \<open>real\<close>, and a number the
  code tests with \<open>Number.isFinite\<close> or turns into a bigint where it may not be finite carries its non-finite
  values as constructors; rounding of doubles is not modelled, so a statement about a mean or a
  product is about exact arithmetic. A throw is
  \<open>Inl\<close> of a datatype with one constructor for each message that matters. A Map or object used as one
  is an association list in insertion order. Mutation is a state handed on; objects that the code
  shares between containers have identities.

  \<^bold>\<open>Bounds and termination.\<close> Loops that run over data are structural. Loops that count (the boundaries
  of an epoch, the chunks of a sync) are functions with a measure. Loops that may not end (rejection
  sampling over a hash stream) are partial functions into \<open>option\<close> with a theorem that they return
  under a stated property of the stream. The limits of the code are kept at their values: 128 open
  holdings and 1024 kept entries for each account, chunks of 2000 blocks, ticks within 887272, a bundle's
  number of legs.

  \<^bold>\<open>Parameters.\<close> SHA-256 and HMAC, \<open>localeCompare\<close> where it is used, \<open>Date.parse\<close>, \<open>JSON.parse\<close> and
  \<open>JSON.stringify\<close> of primitives, \<open>formatUnits\<close>, the reads of the node (logs, transactions, receipts) and
  the scenario's random streams are arguments. Where a theorem needs something of one of them, it is
  a hypothesis that states documented behaviour (a read of a range gives the logs of the range, a
  stream answers in the half-open unit interval).

  \<^bold>\<open>Not modelled.\<close> The rest of the run coordinator, the agent processes, containers and the command line:
  they drive processes, timers and files, and their decisions are in the modules above. Chain access
  and the encoding of contract calls, and the reading of venue state: they are the interface of
  third-party contracts. Schema validation of configurations: it is done by a library. The samplers
  of \<open>rng.ts\<close> that need logarithms and cosines of doubles. The double overflow by which a range of
  multipliers may become infinite in \<open>events.ts\<close>. The dashboard, the deployer, the example agents, the
  infrastructure, the Python kit and the Solidity contracts: other programs or other languages.
\<close>

end
